(* ===== verification/Prelude.thy ===== *)
theory Prelude
  imports Main "HOL-Library.Word"
begin

text \<open>
  Shared vocabulary of the development: the status values of \<open>include/phy/phy.h\<close> with
  their names (\<open>src/core/status.c\<close>), the sequencing idiom
  \<open>if (status == PHY_OK) status = f(...)\<close>, the bounded \<open>for\<close> loop with an early error
  return, the outcome predicate the component proofs are written with, and the facts
  about 32-bit limbs inside 64-bit words that every limb loop needs.
\<close>

named_theorems outcome_simps \<open>unfolding the outcome predicate over the sequencing combinators\<close>

section \<open>Status values\<close>

datatype phy_status =
    PHY_OK
  | PHY_ERR_PLATFORM_INIT
  | PHY_ERR_DISPLAY_UNSUPPORTED
  | PHY_ERR_ALREADY_INITIALIZED
  | PHY_ERR_NOT_INITIALIZED
  | PHY_ERR_INVALID_ARGUMENT
  | PHY_ERR_OUT_OF_MEMORY
  | PHY_ERR_INTERRUPTED
  | PHY_ERR_PARSE
  | PHY_ERR_TYPE
  | PHY_ERR_DOMAIN
  | PHY_ERR_ASSUMPTION
  | PHY_ERR_UNSUPPORTED
  | PHY_ERR_OVERFLOW
  | PHY_ERR_TIMEOUT
  | PHY_ERR_NODE_LIMIT
  | PHY_ERR_DEPTH_LIMIT
  | PHY_ERR_TERM_LIMIT
  | PHY_ERR_MEMORY_LIMIT
  | PHY_ERR_BACKEND
  | PHY_ERR_CORRUPT_DOCUMENT

text \<open>The value the C enumeration gives each constructor (part of the document format).\<close>

fun status_code :: "phy_status \<Rightarrow> nat" where
  "status_code PHY_OK = 0"
| "status_code PHY_ERR_PLATFORM_INIT = 1"
| "status_code PHY_ERR_DISPLAY_UNSUPPORTED = 2"
| "status_code PHY_ERR_ALREADY_INITIALIZED = 3"
| "status_code PHY_ERR_NOT_INITIALIZED = 4"
| "status_code PHY_ERR_INVALID_ARGUMENT = 5"
| "status_code PHY_ERR_OUT_OF_MEMORY = 6"
| "status_code PHY_ERR_INTERRUPTED = 7"
| "status_code PHY_ERR_PARSE = 8"
| "status_code PHY_ERR_TYPE = 9"
| "status_code PHY_ERR_DOMAIN = 10"
| "status_code PHY_ERR_ASSUMPTION = 11"
| "status_code PHY_ERR_UNSUPPORTED = 12"
| "status_code PHY_ERR_OVERFLOW = 13"
| "status_code PHY_ERR_TIMEOUT = 14"
| "status_code PHY_ERR_NODE_LIMIT = 15"
| "status_code PHY_ERR_DEPTH_LIMIT = 16"
| "status_code PHY_ERR_TERM_LIMIT = 17"
| "status_code PHY_ERR_MEMORY_LIMIT = 18"
| "status_code PHY_ERR_BACKEND = 19"
| "status_code PHY_ERR_CORRUPT_DOCUMENT = 20"

definition PHY_STATUS_COUNT :: nat where
  "PHY_STATUS_COUNT = 21"

text \<open>The table \<open>kStatusNames\<close>: one designated initializer per enumerator.\<close>

definition kStatusNames :: "string option list" where
  "kStatusNames =
    [Some ''PHY_OK'',
     Some ''PHY_ERR_PLATFORM_INIT'',
     Some ''PHY_ERR_DISPLAY_UNSUPPORTED'',
     Some ''PHY_ERR_ALREADY_INITIALIZED'',
     Some ''PHY_ERR_NOT_INITIALIZED'',
     Some ''PHY_ERR_INVALID_ARGUMENT'',
     Some ''PHY_ERR_OUT_OF_MEMORY'',
     Some ''PHY_ERR_INTERRUPTED'',
     Some ''PHY_ERR_PARSE'',
     Some ''PHY_ERR_TYPE'',
     Some ''PHY_ERR_DOMAIN'',
     Some ''PHY_ERR_ASSUMPTION'',
     Some ''PHY_ERR_UNSUPPORTED'',
     Some ''PHY_ERR_OVERFLOW'',
     Some ''PHY_ERR_TIMEOUT'',
     Some ''PHY_ERR_NODE_LIMIT'',
     Some ''PHY_ERR_DEPTH_LIMIT'',
     Some ''PHY_ERR_TERM_LIMIT'',
     Some ''PHY_ERR_MEMORY_LIMIT'',
     Some ''PHY_ERR_BACKEND'',
     Some ''PHY_ERR_CORRUPT_DOCUMENT'']"

text \<open>
  \<open>phy_status_name\<close>: the argument is whatever integer the enumeration variable holds; it
  is read as an unsigned 32-bit value, so a negative one becomes large.
\<close>

definition phy_status_name :: "int \<Rightarrow> string" where
  "phy_status_name status =
     (let index = nat (status mod 2 ^ 32) in
      if PHY_STATUS_COUNT \<le> index then ''PHY_ERR_UNKNOWN''
      else case kStatusNames ! index of None \<Rightarrow> ''PHY_ERR_UNKNOWN'' | Some name \<Rightarrow> name)"

text \<open>Reading a stored code back.\<close>

definition all_statuses :: "phy_status list" where
  "all_statuses =
    [PHY_OK, PHY_ERR_PLATFORM_INIT, PHY_ERR_DISPLAY_UNSUPPORTED, PHY_ERR_ALREADY_INITIALIZED,
     PHY_ERR_NOT_INITIALIZED, PHY_ERR_INVALID_ARGUMENT, PHY_ERR_OUT_OF_MEMORY,
     PHY_ERR_INTERRUPTED, PHY_ERR_PARSE, PHY_ERR_TYPE, PHY_ERR_DOMAIN, PHY_ERR_ASSUMPTION,
     PHY_ERR_UNSUPPORTED, PHY_ERR_OVERFLOW, PHY_ERR_TIMEOUT, PHY_ERR_NODE_LIMIT,
     PHY_ERR_DEPTH_LIMIT, PHY_ERR_TERM_LIMIT, PHY_ERR_MEMORY_LIMIT, PHY_ERR_BACKEND,
     PHY_ERR_CORRUPT_DOCUMENT]"

lemma all_statuses_code [simp]: "all_statuses ! status_code s = s"
  by (cases s) (simp_all add: all_statuses_def)

lemma status_code_inj: "status_code a = status_code b \<longleftrightarrow> a = b"
  by (metis all_statuses_code)

lemma status_code_bound: "status_code s < PHY_STATUS_COUNT"
  by (cases s) (simp_all add: PHY_STATUS_COUNT_def)

instantiation phy_status :: linorder
begin

definition less_eq_phy_status :: "phy_status \<Rightarrow> phy_status \<Rightarrow> bool" where
  "less_eq_phy_status a b \<longleftrightarrow> status_code a \<le> status_code b"

definition less_phy_status :: "phy_status \<Rightarrow> phy_status \<Rightarrow> bool" where
  "less_phy_status a b \<longleftrightarrow> status_code a < status_code b"

instance
  by standard (auto simp: less_eq_phy_status_def less_phy_status_def status_code_inj)

end

section \<open>Sizes\<close>

text \<open>
  \<open>size_t\<close> values are \<open>nat\<close>; where the code compares against the top of the type the
  bound is this constant. It is the 32-bit value of the ARM target.
\<close>

definition SIZE_MAX :: nat where
  "SIZE_MAX = 4294967295"

section \<open>Sequencing and loops\<close>

text \<open>
  A C function that returns a status and updates some state is a function into
  \<open>phy_status \<times> 's\<close>. \<open>andthen r f\<close> is \<open>if (status == PHY_OK) status = f(...)\<close>:
  after a failure the state is what the failing call left.
\<close>

definition andthen :: "phy_status \<times> 's \<Rightarrow> ('s \<Rightarrow> phy_status \<times> 's) \<Rightarrow> phy_status \<times> 's" where
  "andthen r f = (case r of (status, s) \<Rightarrow> if status = PHY_OK then f s else (status, s))"

text \<open>
  \<open>for_each is f s\<close> runs the loop body \<open>f i\<close> for the indices in order and leaves the
  loop with the first failing status, as a \<open>for\<close> with \<open>if (status != PHY_OK) return\<close>.
\<close>

fun for_each :: "'i list \<Rightarrow> ('i \<Rightarrow> 's \<Rightarrow> phy_status \<times> 's) \<Rightarrow> 's \<Rightarrow> phy_status \<times> 's" where
  "for_each [] f s = (PHY_OK, s)"
| "for_each (i # is) f s =
     (case f i s of (status, s') \<Rightarrow>
        if status = PHY_OK then for_each is f s' else (status, s'))"

text \<open>
  \<open>outcome r Q E\<close>: if the run \<open>r\<close> ended with \<open>PHY_OK\<close> its state satisfies \<open>Q\<close>,
  otherwise its status and state satisfy \<open>E\<close>.
\<close>

definition outcome ::
  "phy_status \<times> 's \<Rightarrow> ('s \<Rightarrow> bool) \<Rightarrow> (phy_status \<Rightarrow> 's \<Rightarrow> bool) \<Rightarrow> bool" where
  "outcome r Q E = (case r of (status, s) \<Rightarrow> if status = PHY_OK then Q s else E status s)"

lemma outcome_pair [outcome_simps, simp]:
  "outcome (status, s) Q E = (if status = PHY_OK then Q s else E status s)"
  by (simp add: outcome_def)

lemma outcome_andthen [outcome_simps]:
  "outcome (andthen r f) Q E = outcome r (\<lambda>s. outcome (f s) Q E) E"
  by (cases r) (simp add: andthen_def)

lemma outcome_if [outcome_simps]:
  "outcome (if b then r else r') Q E = (if b then outcome r Q E else outcome r' Q E)"
  by simp

lemma outcomeI: "(\<And>s. r = (PHY_OK, s) \<Longrightarrow> Q s) \<Longrightarrow>
    (\<And>st s. r = (st, s) \<Longrightarrow> st \<noteq> PHY_OK \<Longrightarrow> E st s) \<Longrightarrow> outcome r Q E"
  by (cases r) auto

lemma outcome_mono:
  "outcome r Q E \<Longrightarrow> (\<And>s. Q s \<Longrightarrow> Q' s) \<Longrightarrow> (\<And>st s. st \<noteq> PHY_OK \<Longrightarrow> E st s \<Longrightarrow> E' st s) \<Longrightarrow>
    outcome r Q' E'"
  by (cases r) (auto split: if_splits)

lemma outcome_conj:
  "outcome r Q E \<Longrightarrow> outcome r Q' E' \<Longrightarrow>
    outcome r (\<lambda>s. Q s \<and> Q' s) (\<lambda>st s. E st s \<and> E' st s)"
  by (cases r) (auto split: if_splits)

lemma outcomeD_ok: "outcome r Q E \<Longrightarrow> r = (PHY_OK, s) \<Longrightarrow> Q s"
  by simp

lemma outcomeD_err: "outcome r Q E \<Longrightarrow> r = (st, s) \<Longrightarrow> st \<noteq> PHY_OK \<Longrightarrow> E st s"
  by simp

lemma outcome_case:
  assumes "outcome r Q E"
    and "\<And>s. Q s \<Longrightarrow> P (g PHY_OK s)"
    and "\<And>st s. st \<noteq> PHY_OK \<Longrightarrow> E st s \<Longrightarrow> P (g st s)"
  shows "P (case r of (st, s) \<Rightarrow> g st s)"
  using assms by (cases r) (auto split: if_splits)

text \<open>The loop rule: an invariant indexed by the number of completed iterations.\<close>

lemma outcome_for_each:
  assumes "I 0 s"
    and "\<And>k s. k < length is \<Longrightarrow> I k s \<Longrightarrow> outcome (f (is ! k) s) (I (Suc k)) E"
  shows "outcome (for_each is f s) (I (length is)) E"
  using assms
proof (induction "is" arbitrary: I s)
  case Nil
  then show ?case by simp
next
  case (Cons i "is")
  have first: "outcome (f i s) (I (Suc 0)) E"
    using Cons.prems(1) Cons.prems(2) [of 0 s] by simp
  have rest: "outcome (for_each is f s') (\<lambda>t. I (Suc (length is)) t) E" if "I (Suc 0) s'" for s'
    using Cons.IH [of "\<lambda>k. I (Suc k)" s'] Cons.prems(2) that by fastforce
  show ?case
    using first rest by (cases "f i s") (auto split: if_splits)
qed

lemma for_each_meter:
  assumes "I s" "meter s + length is * c \<le> (limit :: nat)"
    and "\<And>k s. k < length is \<Longrightarrow> I s \<Longrightarrow> meter s + c \<le> limit \<Longrightarrow>
      \<exists>s'. f (is ! k) s = (PHY_OK, s') \<and> I s' \<and> meter s' \<le> meter s + c"
  shows "\<exists>s'. for_each is f s = (PHY_OK, s') \<and> I s' \<and> meter s' \<le> meter s + length is * c"
  using assms
proof (induction "is" arbitrary: s)
  case (Cons i "is")
  from Cons.prems(3) [of 0 s] Cons.prems(1,2)
  obtain s1 where s1: "f i s = (PHY_OK, s1)" "I s1" "meter s1 \<le> meter s + c" by auto
  moreover have "meter s1 + length is * c \<le> limit" using s1(3) Cons.prems(2) by simp
  ultimately obtain s2 where "for_each is f s1 = (PHY_OK, s2)" "I s2" "meter s2 \<le> meter s1 + length is * c"
    using Cons.IH [of s1] Cons.prems(3) by force
  then show ?case using s1 by simp
qed simp

lemma for_each_append:
  "for_each (xs @ ys) f s = andthen (for_each xs f s) (for_each ys f)"
  by (induction xs arbitrary: s) (auto simp: andthen_def split: prod.splits)

lemma for_each_cong:
  "(\<And>i s. i \<in> set is \<Longrightarrow> f i s = g i s) \<Longrightarrow> for_each is f s = for_each is g s"
  by (induction "is" arbitrary: s) (auto split: prod.splits)

section \<open>Limbs inside 64-bit words\<close>

type_synonym u32 = "32 word"
type_synonym u64 = "64 word"

text \<open>\<open>(uint64_t)x\<close>, \<open>(uint32_t)x\<close> and \<open>x >> 32\<close>.\<close>

definition wide :: "u32 \<Rightarrow> u64" where
  "wide x = ucast x"

definition low32 :: "u64 \<Rightarrow> u32" where
  "low32 x = ucast x"

definition high32 :: "u64 \<Rightarrow> u64" where
  "high32 x = drop_bit 32 x"

lemma unat_u32_bound: "unat (x :: u32) < 2 ^ 32"
  using unsigned_less [of x, where ?'a = nat] by simp

lemma unat_u64_bound: "unat (x :: u64) < 2 ^ 64"
  using unsigned_less [of x, where ?'a = nat] by simp

lemma unat_wide [simp]: "unat (wide x) = unat x"
proof -
  have "unat x < 2 ^ 64" using unat_u32_bound [of x] by (rule less_trans) simp
  then show ?thesis
    by (simp add: wide_def unsigned_ucast_eq take_bit_nat_eq_self)
qed

lemma unat_low32: "unat (low32 x) = unat x mod 2 ^ 32"
  by (simp add: low32_def unsigned_ucast_eq take_bit_eq_mod)

lemma unat_high32: "unat (high32 x) = unat x div 2 ^ 32"
  unfolding high32_def by (subst unat_drop_bit_eq) (rule drop_bit_eq_div)

text \<open>A 64-bit accumulator is its low limb plus \<open>2^32\<close> times its carry.\<close>

lemma low_high: "unat (low32 x) + 2 ^ 32 * unat (high32 x) = unat x"
  unfolding unat_low32 unat_high32 by (rule mod_mult_div_eq)

lemma unat_high32_bound: "unat (high32 x) < 2 ^ 32"
  using unat_u64_bound [of x] by (simp add: unat_high32 div_less_iff_less_mult)

lemma unat_add_u64: "unat (x :: u64) + unat y < 2 ^ 64 \<Longrightarrow> unat (x + y) = unat x + unat y"
  by (simp add: unat_word_ariths)

lemma unat_mult_u64: "unat (x :: u64) * unat y < 2 ^ 64 \<Longrightarrow> unat (x * y) = unat x * unat y"
  by (simp add: unat_word_ariths)

lemma unat_half: "unat (drop_bit 1 (x :: u64)) = unat x div 2"
  by (subst unat_drop_bit_eq) (simp add: drop_bit_eq_div)

lemma unat_odd: "and (x :: u64) 1 \<noteq> 0 \<longleftrightarrow> odd (unat x)"
proof -
  have "unat (and x 1) = unat x mod 2"
    by (simp add: and_one_eq unat_mod_distrib)
  then show ?thesis by (metis odd_iff_mod_2_eq_one not_mod_2_eq_1_eq_0 unat_eq_0 zero_neq_one)
qed

text \<open>\<open>(high << 32) | low\<close> with \<open>high < 2^32\<close>, as the division loops build it.\<close>

definition join32 :: "u64 \<Rightarrow> u32 \<Rightarrow> u64" where
  "join32 high low = or (push_bit 32 high) (wide low)"

lemma unat_join32:
  assumes "unat high < 2 ^ 32"
  shows "unat (join32 high low) = unat high * 2 ^ 32 + unat low"
proof -
  have disj: "\<not> bit (push_bit 32 high) n \<or> \<not> bit (wide low) n" for n
    by (auto simp: wide_def bit_simps dest: bit_imp_le_length)
  have "unat (push_bit 32 high) = take_bit 64 (push_bit 32 (unat high))"
    unfolding unsigned_push_bit_eq by simp
  also have "\<dots> = unat high * 2 ^ 32"
    unfolding push_bit_eq_mult using assms by (subst take_bit_nat_eq_self) simp_all
  finally have push: "unat (push_bit 32 high) = unat high * 2 ^ 32" .
  have "join32 high low = push_bit 32 high + wide low"
    unfolding join32_def by (rule disjunctive_add [symmetric]) (rule disj)
  moreover have "unat high * 2 ^ 32 + unat low < 2 ^ 64"
    using assms unat_u32_bound [of low] by simp
  ultimately show ?thesis by (simp add: unat_add_u64 push)
qed

end
