(* ===== verification/CasNum.thy ===== *)
theory CasNum
  imports Prelude Complex_Main "HOL-Library.Signed_Division"
begin

text \<open>
  The scalar CAS fast path, \<open>src/cas/num.c\<close>: rationals with an \<open>int64_t\<close> numerator over
  an \<open>int64_t\<close> denominator. An \<open>int64_t\<close> is an \<open>int\<close> (the code never lets one
  overflow, which the lemmas below show); a \<open>uint64_t\<close> is a \<open>64 word\<close>. A C function
  returning \<open>bool\<close> with an output pointer returns an \<open>option\<close>.
\<close>

section \<open>Data\<close>

definition INT64_MAX :: int where
  "INT64_MAX = 9223372036854775807"

definition INT64_MIN :: int where
  "INT64_MIN = - 9223372036854775808"

definition i64 :: "int \<Rightarrow> bool" where
  "i64 x \<longleftrightarrow> INT64_MIN \<le> x \<and> x \<le> INT64_MAX"

record phy_cas_rat =
  rnum :: int
  rden :: int

abbreviation mk_rat :: "int \<Rightarrow> int \<Rightarrow> phy_cas_rat" where
  "mk_rat n d \<equiv> \<lparr>rnum = n, rden = d\<rparr>"

section \<open>Checked 64-bit arithmetic\<close>

definition magnitude :: "int \<Rightarrow> u64" where
  "magnitude value = (if value < 0 then not (word_of_int value) + 1 else word_of_int value)"

definition from_magnitude :: "u64 \<Rightarrow> bool \<Rightarrow> int option" where
  "from_magnitude value negative =
     (let limit = (if negative then word_of_int INT64_MAX + 1 else word_of_int INT64_MAX) in
      if limit < value then None
      else if \<not> negative then Some (sint value)
      else if value = word_of_int INT64_MAX + 1 then Some INT64_MIN
      else Some (- sint value))"

definition add_i64 :: "int \<Rightarrow> int \<Rightarrow> int option" where
  "add_i64 a b =
     (if 0 < b \<and> INT64_MAX - b < a then None
      else if b < 0 \<and> a < INT64_MIN - b then None
      else Some (a + b))"

definition mul_u64 :: "u64 \<Rightarrow> u64 \<Rightarrow> u64 option" where
  "mul_u64 a b = (if a \<noteq> 0 \<and> (- 1) div a < b then None else Some (a * b))"

definition mul_i64 :: "int \<Rightarrow> int \<Rightarrow> int option" where
  "mul_i64 a b =
     (case mul_u64 (magnitude a) (magnitude b) of
        None \<Rightarrow> None
      | Some product \<Rightarrow> from_magnitude product ((a < 0) \<noteq> (b < 0) \<and> product \<noteq> 0))"

function gcd_u64 :: "u64 \<Rightarrow> u64 \<Rightarrow> u64" where
  "gcd_u64 a b = (if b \<noteq> 0 then gcd_u64 b (a mod b) else a)"
  by pat_completeness auto
termination
  by (relation "measure (\<lambda>(a, b). unat b)")
    (auto simp: unat_mod_distrib unat_gt_0 unat_eq_0 intro!: mod_less_divisor)

declare gcd_u64.simps [simp del]

definition reduce :: "int \<Rightarrow> int \<Rightarrow> phy_cas_rat option" where
  "reduce n0 d0 =
     (if d0 = 0 then None
      else if n0 = 0 then Some (mk_rat 0 1)
      else
        let negative = ((n0 < 0) \<noteq> (d0 < 0));
            n = magnitude n0;
            d = magnitude d0;
            divisor = gcd_u64 n d;
            n' = n div divisor;
            d' = d div divisor
        in if word_of_int INT64_MAX < d' then None
           else case from_magnitude n' negative of
                  None \<Rightarrow> None
                | Some v \<Rightarrow> Some (mk_rat v (sint d')))"

section \<open>The public operations\<close>

definition phy_cas_rat_add :: "phy_cas_rat \<Rightarrow> phy_cas_rat \<Rightarrow> phy_cas_rat option" where
  "phy_cas_rat_add a b =
     (let common = gcd_u64 (word_of_int (rden a)) (word_of_int (rden b));
          a_scale = rden b sdiv sint common;
          b_scale = rden a sdiv sint common
      in case mul_i64 (rnum a) a_scale of None \<Rightarrow> None
       | Some left \<Rightarrow>
         (case mul_i64 (rnum b) b_scale of None \<Rightarrow> None
          | Some right \<Rightarrow>
            (case add_i64 left right of None \<Rightarrow> None
             | Some n \<Rightarrow>
               (case mul_i64 (rden a) a_scale of None \<Rightarrow> None
                | Some d \<Rightarrow> reduce n d))))"

definition phy_cas_rat_mul :: "phy_cas_rat \<Rightarrow> phy_cas_rat \<Rightarrow> phy_cas_rat option" where
  "phy_cas_rat_mul a b =
     (let left = sint (gcd_u64 (magnitude (rnum a)) (word_of_int (rden b)));
          right = sint (gcd_u64 (magnitude (rnum b)) (word_of_int (rden a)));
          an = rnum a sdiv left;
          bd = rden b sdiv left;
          bn = rnum b sdiv right;
          ad = rden a sdiv right
      in case mul_i64 an bn of None \<Rightarrow> None
       | Some n \<Rightarrow>
         (case mul_i64 ad bd of None \<Rightarrow> None
          | Some d \<Rightarrow> reduce n d))"

text \<open>The square-and-multiply loop of \<open>phy_cas_rat_pow\<close>.\<close>

function pow_loop :: "u64 \<Rightarrow> phy_cas_rat \<Rightarrow> phy_cas_rat \<Rightarrow> phy_cas_rat option" where
  "pow_loop remaining result factor =
     (if remaining \<noteq> 0 then
        (case (if and remaining 1 \<noteq> 0 then phy_cas_rat_mul result factor else Some result) of
           None \<Rightarrow> None
         | Some result' \<Rightarrow>
             (let remaining' = drop_bit 1 remaining in
              case (if remaining' \<noteq> 0 then phy_cas_rat_mul factor factor else Some factor) of
                None \<Rightarrow> None
              | Some factor' \<Rightarrow> pow_loop remaining' result' factor'))
      else Some result)"
  by pat_completeness auto
termination
  by (relation "measure (\<lambda>(remaining, r, f). unat remaining)")
    (simp_all only: in_measure split unat_half, auto simp: unat_gt_0 intro!: div_less_dividend)

declare pow_loop.simps [simp del]

definition phy_cas_rat_pow :: "phy_cas_rat \<Rightarrow> int \<Rightarrow> phy_cas_rat option" where
  "phy_cas_rat_pow base exponent =
     (if exponent = 0 then Some (mk_rat 1 1)
      else if rnum base = 0 then
        (if exponent < 0 then None else Some (mk_rat 0 1))
      else
        (let remaining = magnitude exponent in
         case (if exponent < 0 then reduce (rden base) (rnum base) else Some base) of
           None \<Rightarrow> None
         | Some factor \<Rightarrow> pow_loop remaining (mk_rat 1 1) factor))"

definition phy_cas_rat_cmp_int :: "phy_cas_rat \<Rightarrow> int \<Rightarrow> int" where
  "phy_cas_rat_cmp_int a value =
     (case mul_i64 value (rden a) of
        None \<Rightarrow> (if value < 0 then 1 else - 1)
      | Some scaled \<Rightarrow> of_bool (scaled < rnum a) - of_bool (rnum a < scaled))"

section \<open>Facts about the checked arithmetic\<close>

lemma uint_word_of_int_i64: "0 \<le> x \<Longrightarrow> i64 x \<Longrightarrow> uint (word_of_int x :: u64) = x"
  by (simp add: i64_def INT64_MAX_def uint_word_of_int)

lemma uint_magnitude: "i64 v \<Longrightarrow> uint (magnitude v) = \<bar>v\<bar>"
proof (cases "v < 0")
  case True
  assume v: "i64 v"
  have "magnitude v = word_of_int (- v)"
    using True by (simp add: magnitude_def minus_eq_not_plus_1 [of v] of_int_not_eq)
  with True v show ?thesis
    unfolding i64_def INT64_MIN_def by (simp only: uint_word_of_int) simp
next
  case False
  assume "i64 v"
  with False show ?thesis by (simp add: magnitude_def uint_word_of_int_i64)
qed

lemma sint_small: "uint (w :: u64) \<le> INT64_MAX \<Longrightarrow> sint w = uint w"
  by (simp add: sint_uint signed_take_bit_eq_if_positive INT64_MAX_def bit_iff_odd
      take_bit_int_eq_self)

lemma gcd_u64_gcd: "uint (gcd_u64 a b) = gcd (uint a) (uint b)"
proof (induction a b rule: gcd_u64.induct)
  case (1 a b)
  show ?case
  proof (cases "b = 0")
    case True
    then show ?thesis by (simp add: gcd_u64.simps)
  next
    case False
    then have "uint (gcd_u64 a b) = uint (gcd_u64 b (a mod b))"
      by (subst gcd_u64.simps) simp
    also have "\<dots> = gcd (uint b) (uint (a mod b))" by (rule 1) (fact False)
    also have "\<dots> = gcd (uint a) (uint b)"
      by (simp add: uint_mod_distrib gcd.commute gcd_red_int [symmetric])
    finally show ?thesis .
  qed
qed

lemma from_magnitude_iff:
  "from_magnitude w neg = Some v \<longleftrightarrow>
     v = (if neg then - uint w else uint w) \<and> i64 v"
proof -
  have max1: "uint (word_of_int INT64_MAX + 1 :: u64) = INT64_MAX + 1"
    by (simp add: INT64_MAX_def)
  have max: "uint (word_of_int INT64_MAX :: u64) = INT64_MAX"
    by (simp add: INT64_MAX_def)
  have eq: "w = word_of_int INT64_MAX + 1 \<longleftrightarrow> uint w = INT64_MAX + 1"
    using max1 by (metis word_uint_eqI)
  define u where "u = uint w"
  have "0 \<le> u" by (simp add: u_def)
  moreover have "u \<le> INT64_MAX \<Longrightarrow> sint w = u" using sint_small [of w] by (simp add: u_def)
  ultimately show ?thesis
    unfolding from_magnitude_def Let_def word_less_def eq max max1
    by (auto simp: i64_def INT64_MIN_def INT64_MAX_def u_def [symmetric] max max1)
qed


lemma add_i64_iff:
  "i64 a \<Longrightarrow> i64 b \<Longrightarrow> add_i64 a b = Some v \<longleftrightarrow> v = a + b \<and> i64 v"
  by (auto simp: add_i64_def i64_def INT64_MIN_def INT64_MAX_def)

lemma int_div_less_iff:
  fixes x y n :: int
  assumes "0 < x"
  shows "n div x < y \<longleftrightarrow> n < y * x"
proof
  assume "n div x < y"
  then have "(n div x + 1) * x \<le> y * x" using assms by (intro mult_right_mono) simp_all
  moreover have "n < (n div x + 1) * x"
    unfolding distrib_right mult_1
    using pos_mod_bound [OF assms, of n] div_mult_mod_eq [of n x] by linarith
  ultimately show "n < y * x" by simp
next
  assume "n < y * x"
  show "n div x < y"
  proof (rule ccontr)
    assume "\<not> n div x < y"
    then have "y * x \<le> n div x * x" using assms by (intro mult_right_mono) simp_all
    also have "\<dots> \<le> n" using assms pos_mod_sign [of x n] div_mult_mod_eq [of n x] by linarith
    finally show False using \<open>n < y * x\<close> by simp
  qed
qed

lemma add_i64_eq:
  "i64 a \<Longrightarrow> i64 b \<Longrightarrow> add_i64 a b = (if i64 (a + b) then Some (a + b) else None)"
  using add_i64_iff [of a b] by (cases "add_i64 a b") auto

lemma mul_u64_eq:
  "mul_u64 a b = (if uint a * uint b < 2 ^ 64 then Some (a * b) else None)"
proof (cases "a = 0")
  case True
  then show ?thesis by (simp add: mul_u64_def)
next
  case False
  define x y where "x = uint a" and "y = uint b"
  have x: "0 < x" using False by (simp add: x_def uint_0_iff order.strict_iff_order)
  have "(- 1) div a < b \<longleftrightarrow> (2 ^ 64 - 1) div x < y"
    by (simp add: word_less_def uint_div_distrib x_def y_def unsigned_minus_1_eq_mask mask_eq_exp_minus_1)
  also have "\<dots> \<longleftrightarrow> 2 ^ 64 - 1 < y * x"
    using x by (rule int_div_less_iff)
  finally show ?thesis
    using False by (auto simp: mul_u64_def x_def y_def mult.commute)
qed

lemma uint_mult_exact: "uint (a :: u64) * uint b < 2 ^ 64 \<Longrightarrow> uint (a * b) = uint a * uint b"
  by (simp add: uint_word_ariths)

lemma mul_i64_iff:
  assumes "i64 a" "i64 b"
  shows "mul_i64 a b = Some v \<longleftrightarrow> v = a * b \<and> i64 v"
proof (cases "\<bar>a * b\<bar> < 2 ^ 64")
  case True
  define p where "p = magnitude a * magnitude b"
  have p: "uint p = \<bar>a * b\<bar>"
    using True assms by (simp add: p_def uint_mult_exact uint_magnitude abs_mult)
  have "mul_i64 a b = from_magnitude p ((a < 0) \<noteq> (b < 0) \<and> p \<noteq> 0)"
    using True assms by (simp add: mul_i64_def mul_u64_eq uint_magnitude abs_mult p_def)
  moreover have "p \<noteq> 0 \<longleftrightarrow> a * b \<noteq> 0"
    using p by (metis abs_eq_0 uint_0_iff)
  ultimately show ?thesis
    by (auto simp: from_magnitude_iff p abs_if mult_less_0_iff zero_less_mult_iff)
next
  case False
  then have "mul_i64 a b = None"
    using assms by (simp add: mul_i64_def mul_u64_eq uint_magnitude abs_mult)
  moreover have "\<not> i64 (a * b)" using False by (auto simp: i64_def INT64_MIN_def INT64_MAX_def)
  ultimately show ?thesis by auto
qed

lemma mul_i64_eq:
  "i64 a \<Longrightarrow> i64 b \<Longrightarrow> mul_i64 a b = (if i64 (a * b) then Some (a * b) else None)"
  using mul_i64_iff [of a b] by (cases "mul_i64 a b") auto

text \<open>The rational a pair denotes, and the canonical pairs: lowest terms, positive denominator.\<close>

definition rat_val :: "phy_cas_rat \<Rightarrow> rat" where
  "rat_val r = of_int (rnum r) / of_int (rden r)"

definition canonical :: "phy_cas_rat \<Rightarrow> bool" where
  "canonical r \<longleftrightarrow> i64 (rnum r) \<and> i64 (rden r) \<and> 0 < rden r \<and> coprime (rnum r) (rden r)"

definition representable :: "rat \<Rightarrow> bool" where
  "representable q \<longleftrightarrow> (\<exists>r. canonical r \<and> rat_val r = q)"

definition lowest_terms :: "int \<Rightarrow> int \<Rightarrow> phy_cas_rat" where
  "lowest_terms n d = mk_rat (sgn d * n div gcd n d) (\<bar>d\<bar> div gcd n d)"

lemma i64_le: "\<bar>x\<bar> \<le> y \<Longrightarrow> i64 y \<Longrightarrow> i64 x"
  by (auto simp: i64_def INT64_MIN_def INT64_MAX_def)

lemma i64_simps [simp]: "i64 0" "i64 1"
  by (simp_all add: i64_def INT64_MIN_def INT64_MAX_def)

lemma reduce_eq:
  assumes "i64 n" "i64 d"
  shows "reduce n d =
    (let r = lowest_terms n d in
     if d \<noteq> 0 \<and> i64 (rnum r) \<and> i64 (rden r) then Some r else None)"
proof (cases "d = 0 \<or> n = 0")
  case True
  then show ?thesis by (auto simp: reduce_def lowest_terms_def)
next
  case False
  define g where "g = gcd n d"
  have g: "0 < g" using False by (simp add: g_def)
  define q where "q = magnitude d div gcd_u64 (magnitude n) (magnitude d)"
  define p where "p = magnitude n div gcd_u64 (magnitude n) (magnitude d)"
  have q: "uint q = \<bar>d\<bar> div g" and p: "uint p = \<bar>n\<bar> div g"
    using assms by (simp_all add: q_def p_def uint_div_distrib gcd_u64_gcd uint_magnitude g_def)
  have max: "word_of_int INT64_MAX < q \<longleftrightarrow> INT64_MAX < \<bar>d\<bar> div g"
    using q by (simp add: word_less_def INT64_MAX_def)
  have neg: "(if (n < 0) \<noteq> (d < 0) then - uint p else uint p) = sgn d * n div g"
  proof -
    have "- (\<bar>n\<bar> div g) = (- \<bar>n\<bar>) div g"
      by (rule dvd_neg_div [symmetric]) (simp add: g_def)
    then show ?thesis using False by (auto simp: p sgn_if abs_if)
  qed
  have sint: "\<not> INT64_MAX < \<bar>d\<bar> div g \<Longrightarrow> sint q = \<bar>d\<bar> div g"
    using sint_small [of q] q by simp
  have i64d: "i64 (\<bar>d\<bar> div g) \<longleftrightarrow> \<not> INT64_MAX < \<bar>d\<bar> div g"
    using pos_imp_zdiv_nonneg_iff [OF g, of "\<bar>d\<bar>"] by (auto simp: i64_def INT64_MIN_def)
  have "reduce n d = (if word_of_int INT64_MAX < q then None
      else case from_magnitude p ((n < 0) \<noteq> (d < 0)) of
             None \<Rightarrow> None | Some v \<Rightarrow> Some (mk_rat v (sint q)))"
    using False unfolding p_def q_def by (simp add: reduce_def Let_def)
  also have "\<dots> = (if i64 (sgn d * n div g) \<and> i64 (\<bar>d\<bar> div g)
      then Some (mk_rat (sgn d * n div g) (\<bar>d\<bar> div g)) else None)"
  proof (cases "INT64_MAX < \<bar>d\<bar> div g")
    case True
    then show ?thesis by (simp add: max i64d)
  next
    case ok: False
    show ?thesis
    proof (cases "i64 (sgn d * n div g)")
      case True
      then have fm: "from_magnitude p ((n < 0) \<noteq> (d < 0)) = Some (sgn d * n div g)"
        using neg by (simp only: from_magnitude_iff simp_thms)
      have both: "i64 (sgn d * n div g) \<and> i64 (\<bar>d\<bar> div g)"
        using ok True i64d by blast
      show ?thesis
        unfolding max fm sint [OF ok] if_not_P [OF ok] if_P [OF both] by (rule option.case(2))
    next
      case False
      then have "\<forall>v. from_magnitude p ((n < 0) \<noteq> (d < 0)) \<noteq> Some v"
        unfolding from_magnitude_iff neg by blast
      then have fm: "from_magnitude p ((n < 0) \<noteq> (d < 0)) = None"
        by (simp only: not_Some_eq)
      from False have neither: "\<not> (i64 (sgn d * n div g) \<and> i64 (\<bar>d\<bar> div g))" by blast
      show ?thesis
        unfolding max fm if_not_P [OF ok] if_not_P [OF neither] by (rule option.case(1))
    qed
  qed
  finally have eq: "reduce n d = (if i64 (sgn d * n div g) \<and> i64 (\<bar>d\<bar> div g)
      then Some (mk_rat (sgn d * n div g) (\<bar>d\<bar> div g)) else None)" .
  have "d \<noteq> 0" using False by blast
  then show ?thesis
    unfolding eq lowest_terms_def Let_def g_def [symmetric] by (simp only: phy_cas_rat.simps simp_thms)
qed


lemma lowest_terms_facts:
  assumes "d \<noteq> 0"
  shows "0 < rden (lowest_terms n d)" "coprime (rnum (lowest_terms n d)) (rden (lowest_terms n d))"
    "rat_val (lowest_terms n d) = of_int n / of_int d"
proof -
  define g where "g = gcd n d"
  obtain x y where xy: "n = x * g" "d = y * g" "coprime x y"
    using assms gcd_coprime_exists [of n d] unfolding g_def by (metis gcd_eq_0_iff)
  have g: "0 < g" using assms by (simp add: g_def)
  have sgn: "sgn d = sgn y" using g by (simp add: xy sgn_mult)
  have eq: "lowest_terms n d = mk_rat (sgn y * x) \<bar>y\<bar>"
    using g unfolding lowest_terms_def g_def [symmetric] sgn
    by (simp add: xy abs_mult mult.assoc [symmetric])
  have y: "y \<noteq> 0" using assms xy(2) by auto
  show "0 < rden (lowest_terms n d)" using y by (simp add: eq)
  show "coprime (rnum (lowest_terms n d)) (rden (lowest_terms n d))"
    using xy(3) y by (simp add: eq sgn_if)
  show "rat_val (lowest_terms n d) = of_int n / of_int d"
  proof -
    have "n * \<bar>y\<bar> = sgn y * x * d" by (simp add: xy(1,2) abs_sgn mult_ac)
    then have "(of_int n :: rat) * of_int \<bar>y\<bar> = of_int (sgn y * x) * of_int d"
      by (simp only: of_int_mult [symmetric])
    then show ?thesis
      using assms xy(2) unfolding rat_val_def eq by (simp add: frac_eq_eq)
  qed
qed

lemma rat_val_eq_iff:
  "0 < rden r \<Longrightarrow> 0 < rden s \<Longrightarrow> rat_val r = rat_val s \<longleftrightarrow> rnum r * rden s = rnum s * rden r"
  by (simp add: rat_val_def divide_eq_eq eq_divide_eq frac_eq_eq flip: of_int_mult)

lemma lowest_unique:
  assumes "0 < rden r" "0 < rden s" "coprime (rnum r) (rden r)" "coprime (rnum s) (rden s)"
    and "rat_val r = rat_val (s :: phy_cas_rat)"
  shows "r = s"
proof -
  have cross: "rnum r * rden s = rnum s * rden r" using assms by (simp add: rat_val_eq_iff)
  have "rden r dvd rden s"
    using cross assms(3) by (metis coprime_commute coprime_dvd_mult_right_iff dvd_triv_right)
  moreover have "rden s dvd rden r"
    using cross assms(4) by (metis coprime_commute coprime_dvd_mult_right_iff dvd_triv_right)
  ultimately have d: "rden r = rden s" using assms(1,2) by (simp add: zdvd_antisym_nonneg)
  with cross assms(2) have "rnum r = rnum s" by simp
  with d show ?thesis by simp
qed

lemma reduce_iff:
  assumes "i64 n" "i64 d"
  shows "reduce n d = Some r \<longleftrightarrow> d \<noteq> 0 \<and> canonical r \<and> rat_val r = of_int n / of_int d"
proof
  assume "reduce n d = Some r"
  then show "d \<noteq> 0 \<and> canonical r \<and> rat_val r = of_int n / of_int d"
    using lowest_terms_facts [of d n] assms
    by (auto simp: reduce_eq Let_def canonical_def split: if_splits)
next
  assume r: "d \<noteq> 0 \<and> canonical r \<and> rat_val r = of_int n / of_int d"
  then have "r = lowest_terms n d"
    using lowest_terms_facts [of d n] by (intro lowest_unique) (auto simp: canonical_def)
  with r assms show "reduce n d = Some r"
    by (auto simp: reduce_eq Let_def canonical_def)
qed

lemma sdiv_exact: 
  fixes a b :: int
  assumes "b dvd a"
  shows "a sdiv b = a div b"
proof (cases "b = 0")
  case False
  from assms obtain k where k: "a = b * k" by blast
  have "sgn b * sgn b = 1" using False by (simp add: sgn_if)
  then have "sgn (b * k) * sgn b = sgn k" by (simp add: sgn_mult ac_simps)
  then show ?thesis using False by (simp add: k signed_divide_int_def abs_mult mult_sgn_abs)
qed simp

lemma sint_gcd_den:
  assumes "i64 d" "0 < d"
  shows "sint (gcd_u64 w (word_of_int d)) = gcd (uint w) d"
proof -
  have u: "uint (gcd_u64 w (word_of_int d)) = gcd (uint w) d"
    using assms by (simp add: gcd_u64_gcd uint_word_of_int_i64)
  have "gcd (uint w) d \<le> d" using assms by (simp add: gcd_le2_int)
  also have "d \<le> INT64_MAX" using assms by (simp add: i64_def)
  finally show ?thesis
    using sint_small [of "gcd_u64 w (word_of_int d)"] unfolding u by simp
qed

lemma i64_dvd: "i64 y \<Longrightarrow> 0 < y \<Longrightarrow> x dvd y \<Longrightarrow> i64 x"
  using dvd_imp_le_int [of y x] by (intro i64_le [of x y]) simp_all

lemma i64_div:
  assumes "i64 x" "0 < (d :: int)" "d dvd x"
  shows "i64 (x div d)"
proof -
  from assms obtain k where k: "x = d * k" by blast
  have "\<bar>1 * k\<bar> \<le> \<bar>d * k\<bar>"
    unfolding abs_mult using assms(2) by (intro mult_right_mono) simp_all
  moreover have "k < 0 \<longleftrightarrow> x < 0" using assms(2) by (simp add: k mult_less_0_iff)
  ultimately have "i64 k"
    using assms(1) unfolding i64_def INT64_MIN_def INT64_MAX_def k by linarith
  then show ?thesis using assms(2) by (simp add: k)
qed


section \<open>Addition\<close>

definition rat_ok :: "phy_cas_rat \<Rightarrow> bool" where
  "rat_ok r \<longleftrightarrow> i64 (rnum r) \<and> i64 (rden r) \<and> 0 < rden r"

lemma canonical_rat_ok: "canonical r \<Longrightarrow> rat_ok r"
  by (simp add: canonical_def rat_ok_def)

lemma lowest_terms_i64:
  assumes "i64 n" "i64 d" "0 < d"
  shows "canonical (lowest_terms n d)"
proof -
  have "i64 (n div gcd n d)" "i64 (d div gcd n d)" using assms by (auto intro!: i64_div)
  with lowest_terms_facts [of d n] assms(3) show ?thesis
    by (simp add: canonical_def lowest_terms_def)
qed

lemma reduce_pos:
  "i64 n \<Longrightarrow> i64 d \<Longrightarrow> 0 < d \<Longrightarrow> reduce n d = Some (lowest_terms n d)"
  using lowest_terms_i64 [of n d] by (simp add: reduce_eq canonical_def)

definition add_in_range :: "phy_cas_rat \<Rightarrow> phy_cas_rat \<Rightarrow> bool" where
  "add_in_range a b \<longleftrightarrow>
     (let g = gcd (rden a) (rden b); left = rnum a * (rden b div g); right = rnum b * (rden a div g)
      in i64 left \<and> i64 right \<and> i64 (left + right) \<and> i64 (lcm (rden a) (rden b)))"

lemma lcm_eq_scaled:
  fixes a b :: int
  assumes "0 < a" "0 < b"
  shows "lcm a b = a * (b div gcd a b)"
proof -
  have "0 \<le> a * (b div gcd a b)"
    using assms by (simp add: pos_imp_zdiv_nonneg_iff)
  moreover have "a * (b div gcd a b) = a * b div gcd a b" by (simp add: div_mult_swap)
  ultimately show ?thesis by (simp add: lcm_gcd)
qed

lemma rat_add_eq:
  assumes "rat_ok a" "rat_ok b"
  shows "phy_cas_rat_add a b =
    (let g = gcd (rden a) (rden b) in
     if add_in_range a b
     then Some (lowest_terms (rnum a * (rden b div g) + rnum b * (rden a div g)) (lcm (rden a) (rden b)))
     else None)"
proof -
  define g where "g = gcd (rden a) (rden b)"
  define left where "left = rnum a * (rden b div g)"
  define right where "right = rnum b * (rden a div g)"
  have g: "0 < g" and gd: "g dvd rden a" "g dvd rden b" and pos: "0 < rden a" "0 < rden b"
    and i: "i64 (rnum a)" "i64 (rden a)" "i64 (rnum b)" "i64 (rden b)"
    using assms by (simp_all add: g_def rat_ok_def)
  have common: "sint (gcd_u64 (word_of_int (rden a)) (word_of_int (rden b))) = g"
    using sint_gcd_den [of "rden b" "word_of_int (rden a)"] pos i by (simp add: g_def uint_word_of_int_i64)
  have sc: "i64 (rden b div g)" "i64 (rden a div g)" using i g gd by (auto intro!: i64_div)
  have lcm: "rden a * (rden b div g) = lcm (rden a) (rden b)"
    using pos by (simp add: lcm_eq_scaled g_def)
  have lpos: "0 < lcm (rden a) (rden b)" using pos by (simp add: lcm_pos_int)
  have "phy_cas_rat_add a b =
    (case (if i64 left then Some left else None) of None \<Rightarrow> None
     | Some l \<Rightarrow> (case (if i64 right then Some right else None) of None \<Rightarrow> None
     | Some r \<Rightarrow> (case add_i64 l r of None \<Rightarrow> None
     | Some n \<Rightarrow> (case (if i64 (lcm (rden a) (rden b)) then Some (lcm (rden a) (rden b)) else None) of
         None \<Rightarrow> None | Some d \<Rightarrow> reduce n d))))"
    unfolding phy_cas_rat_add_def common Let_def left_def right_def sdiv_exact [OF gd(1)]
      sdiv_exact [OF gd(2)] mul_i64_eq [OF i(1) sc(1)] mul_i64_eq [OF i(3) sc(2)]
      mul_i64_eq [OF i(2) sc(1)] lcm ..
  also have "\<dots> = (if add_in_range a b then Some (lowest_terms (left + right) (lcm (rden a) (rden b))) else None)"
    using lpos by (simp add: add_in_range_def Let_def g_def [symmetric] left_def [symmetric]
      right_def [symmetric] add_i64_eq reduce_pos)
  finally show ?thesis by (simp add: Let_def g_def left_def right_def)
qed

text \<open>C22. The sum of two fractions: the result is the exact sum in lowest terms, and the only way to fail is
  an intermediate value over the least common denominator that leaves the \<open>int64_t\<close> range.\<close>

theorem rat_add_exact:
  assumes "rat_ok a" "rat_ok b"
  shows "case phy_cas_rat_add a b of
      Some r \<Rightarrow> canonical r \<and> rat_val r = rat_val a + rat_val b
    | None \<Rightarrow> \<not> add_in_range a b"
proof -
  define g where "g = gcd (rden a) (rden b)"
  define n where "n = rnum a * (rden b div g) + rnum b * (rden a div g)"
  define L where "L = lcm (rden a) (rden b)"
  have pos: "0 < rden a" "0 < rden b" using assms by (simp_all add: rat_ok_def)
  have L: "L = rden a * (rden b div g)" "L = rden b * (rden a div g)" "0 < L"
    using lcm_eq_scaled [OF pos] lcm_eq_scaled [OF pos(2,1)] lcm_pos_int [of "rden a" "rden b"] pos
    by (simp_all add: L_def g_def lcm.commute gcd.commute)
  have val: "rat_val (lowest_terms n L) = rat_val a + rat_val b"
  proof -
    have s: "rden b div g \<noteq> 0" "rden a div g \<noteq> 0" using L by auto
    have "rat_val a = of_int (rnum a * (rden b div g)) / of_int L"
      using s(1) unfolding L(1) by (simp add: rat_val_def)
    moreover have "rat_val b = of_int (rnum b * (rden a div g)) / of_int L"
      using s(2) unfolding L(2) by (simp add: rat_val_def)
    ultimately show ?thesis
      using lowest_terms_facts(3) [of L n] L(3) by (simp add: n_def add_divide_distrib)
  qed
  have can: "add_in_range a b \<Longrightarrow> canonical (lowest_terms n L)"
    using L(3) by (intro lowest_terms_i64) (simp_all add: add_in_range_def Let_def n_def g_def L_def)
  show ?thesis
    using rat_add_eq [OF assms] val can by (simp add: Let_def n_def g_def L_def)
qed

theorem rat_add_exact_witness:
  "rat_val (mk_rat 4 15) = rat_val (mk_rat 1 6) + rat_val (mk_rat 1 10)"
proof -
  have "phy_cas_rat_add (mk_rat 1 6) (mk_rat 1 10) = Some (mk_rat 4 15)" by code_simp
  moreover have "rat_ok (mk_rat 1 6)" "rat_ok (mk_rat 1 10)" by code_simp+
  ultimately show ?thesis using rat_add_exact [of "mk_rat 1 6" "mk_rat 1 10"] by simp
qed


section \<open>Multiplication\<close>

lemma not_representable:
  assumes "0 < d" "coprime n d" "\<not> (i64 n \<and> i64 d)"
  shows "\<not> representable (of_int n / of_int d)"
proof
  assume "representable (of_int n / of_int d)"
  then obtain r where r: "canonical r" "rat_val r = rat_val (mk_rat n d)"
    by (auto simp: representable_def rat_val_def)
  then have "r = mk_rat n d"
    using assms by (intro lowest_unique) (simp_all add: canonical_def)
  with r(1) assms(3) show False by (simp add: canonical_def)
qed

lemma coprime_cross:
  fixes na da nb db :: int
  assumes "coprime na da" "coprime nb db" "0 < da" "0 < db"
  shows "coprime ((na div gcd na db) * (nb div gcd nb da)) ((da div gcd nb da) * (db div gcd na db))"
proof -
  have dvd: "na div gcd na db dvd na" "nb div gcd nb da dvd nb"
    "da div gcd nb da dvd da" "db div gcd na db dvd db"
    by (simp_all add: div_dvd_iff_mult dvd_def) (metis dvd_mult_div_cancel gcd_dvd1 gcd_dvd2 mult.commute)+
  have 1: "coprime (na div gcd na db) (db div gcd na db)" "coprime (nb div gcd nb da) (da div gcd nb da)"
    using assms by (auto intro: div_gcd_coprime)
  have 2: "coprime (na div gcd na db) (da div gcd nb da)"
    using assms(1) dvd(1,3) coprime_divisors by blast
  have 3: "coprime (nb div gcd nb da) (db div gcd na db)"
    using assms(2) dvd(2,4) coprime_divisors by blast
  show ?thesis using 1 2 3 by simp
qed

lemma rat_mul_eq:
  assumes "canonical a" "canonical b"
  shows "\<exists>n d. 0 < d \<and> coprime n d \<and> of_int n / of_int d = rat_val a * rat_val b \<and>
    phy_cas_rat_mul a b = (if i64 n \<and> i64 d then Some (mk_rat n d) else None)"
proof -
  define l where "l = gcd (rnum a) (rden b)"
  define r where "r = gcd (rnum b) (rden a)"
  define n where "n = (rnum a div l) * (rnum b div r)"
  define d where "d = (rden a div r) * (rden b div l)"
  have pos: "0 < rden a" "0 < rden b" and i: "i64 (rnum a)" "i64 (rden a)" "i64 (rnum b)" "i64 (rden b)"
    and cop: "coprime (rnum a) (rden a)" "coprime (rnum b) (rden b)"
    using assms by (simp_all add: canonical_def)
  have lr: "0 < l" "0 < r" and dvd: "l dvd rnum a" "l dvd rden b" "r dvd rnum b" "r dvd rden a"
    using pos by (simp_all add: l_def r_def)
  have sl: "sint (gcd_u64 (magnitude (rnum a)) (word_of_int (rden b))) = l"
    using sint_gcd_den [OF i(4) pos(2)] i(1) by (simp add: uint_magnitude l_def)
  have sr: "sint (gcd_u64 (magnitude (rnum b)) (word_of_int (rden a))) = r"
    using sint_gcd_den [OF i(2) pos(1)] i(3) by (simp add: uint_magnitude r_def)
  have q: "i64 (rnum a div l)" "i64 (rden b div l)" "i64 (rnum b div r)" "i64 (rden a div r)"
    using i lr dvd by (auto intro!: i64_div)
  have dpos: "0 < d"
    using pos lr dvd by (auto simp: d_def zero_less_mult_iff pos_imp_zdiv_pos_iff dest: zdvd_imp_le)
  have cop': "coprime n d"
    using coprime_cross [OF cop pos] by (simp add: n_def d_def l_def r_def)
  have val: "of_int n / of_int d = rat_val a * rat_val b"
  proof -
    have "n * (rden a * rden b) = (rnum a * rnum b) * d"
      using dvd lr by (auto simp: n_def d_def elim!: dvdE)
    then have "(of_int n :: rat) * (of_int (rden a) * of_int (rden b)) = of_int (rnum a) * of_int (rnum b) * of_int d"
      by (simp only: of_int_mult [symmetric])
    then show ?thesis using pos dpos by (simp add: rat_val_def frac_eq_eq)
  qed
  have red: "i64 n \<Longrightarrow> i64 d \<Longrightarrow> reduce n d = Some (mk_rat n d)"
    using cop' dpos by (simp add: reduce_iff canonical_def rat_val_def)
  have "phy_cas_rat_mul a b =
    (case (if i64 n then Some n else None) of None \<Rightarrow> None
     | Some n \<Rightarrow> (case (if i64 d then Some d else None) of None \<Rightarrow> None | Some d \<Rightarrow> reduce n d))"
    unfolding phy_cas_rat_mul_def Let_def sl sr sdiv_exact [OF dvd(1)] sdiv_exact [OF dvd(2)]
      sdiv_exact [OF dvd(3)] sdiv_exact [OF dvd(4)] mul_i64_eq [OF q(1) q(3)] mul_i64_eq [OF q(4) q(2)]
      n_def d_def ..
  then have "phy_cas_rat_mul a b = (if i64 n \<and> i64 d then Some (mk_rat n d) else None)"
    using red by simp
  then show ?thesis using dpos cop' val by blast
qed

text \<open>C20. Multiplication of canonical fractions fails exactly when the product has no
  \<open>int64_t\<close> representation: cancelling crosswise first loses no representable product.\<close>

theorem rat_mul_exact:
  assumes "canonical a" "canonical b"
  shows "case phy_cas_rat_mul a b of
      Some r \<Rightarrow> canonical r \<and> rat_val r = rat_val a * rat_val b
    | None \<Rightarrow> \<not> representable (rat_val a * rat_val b)"
proof -
  obtain n d where nd: "0 < d" "coprime n d" "of_int n / of_int d = rat_val a * rat_val b"
    "phy_cas_rat_mul a b = (if i64 n \<and> i64 d then Some (mk_rat n d) else None)"
    using rat_mul_eq [OF assms] by blast
  show ?thesis
  proof (cases "i64 n \<and> i64 d")
    case True
    with nd show ?thesis by (simp add: canonical_def rat_val_def)
  next
    case False
    with not_representable [OF nd(1,2)] nd show ?thesis by (simp split: option.split)
  qed
qed

theorem rat_mul_exact_witness:
  "\<not> representable (rat_val (mk_rat INT64_MAX 2) * rat_val (mk_rat 3 1)) \<and>
   rat_val (mk_rat 1 2) = rat_val (mk_rat 3 4) * rat_val (mk_rat 2 3)"
proof -
  have "phy_cas_rat_mul (mk_rat INT64_MAX 2) (mk_rat 3 1) = None"
    "phy_cas_rat_mul (mk_rat 3 4) (mk_rat 2 3) = Some (mk_rat 1 2)" by code_simp+
  moreover have "canonical (mk_rat INT64_MAX 2)" "canonical (mk_rat 3 1)" "canonical (mk_rat 3 4)"
    "canonical (mk_rat 2 3)" by code_simp+
  ultimately show ?thesis
    using rat_mul_exact [of "mk_rat INT64_MAX 2" "mk_rat 3 1"] rat_mul_exact [of "mk_rat 3 4" "mk_rat 2 3"]
    by simp
qed

section \<open>Powers\<close>

lemma i64_power_le:
  assumes "i64 (x ^ n)" "j \<le> n"
  shows "i64 (x ^ j)"
proof (cases "\<bar>x\<bar> \<le> 1 \<or> j = n")
  case True
  then consider "x = 0" | "x = 1" | "x = - 1" | "j = n" by linarith
  then show ?thesis
    using assms by cases (auto simp: power_0_left minus_one_power_iff i64_def INT64_MIN_def INT64_MAX_def)
next
  case False
  then have "\<bar>x\<bar> ^ Suc j \<le> \<bar>x\<bar> ^ n" using assms(2) by (intro power_increasing) linarith+
  moreover have "2 * \<bar>x\<bar> ^ j \<le> \<bar>x\<bar> * \<bar>x\<bar> ^ j" using False by (intro mult_right_mono) simp_all
  ultimately have "2 * \<bar>x ^ j\<bar> \<le> \<bar>x ^ n\<bar>" by (simp add: power_abs)
  with assms(1) show ?thesis by (simp only: i64_def INT64_MIN_def INT64_MAX_def) linarith
qed

lemma representable_iff:
  assumes "0 < d" "coprime n d"
  shows "representable (of_int n / of_int d) \<longleftrightarrow> i64 n \<and> i64 d"
proof
  show "representable (of_int n / of_int d) \<Longrightarrow> i64 n \<and> i64 d"
    using not_representable [OF assms] by blast
  assume "i64 n \<and> i64 d"
  with assms have "canonical (mk_rat n d)" by (simp add: canonical_def)
  then show "representable (of_int n / of_int d)"
    unfolding representable_def by (rule exI [where x = "mk_rat n d", OF conjI]) (simp add: rat_val_def)
qed

lemma representable_power_le:
  assumes "0 < d" "coprime n d" "representable ((of_int n / of_int d) ^ k)" "j \<le> k"
  shows "representable ((of_int n / of_int d) ^ j)"
proof -
  have iff: "representable ((of_int n / of_int d) ^ m) \<longleftrightarrow> i64 (n ^ m) \<and> i64 (d ^ m)" for m
    using assms representable_iff [of "d ^ m" "n ^ m"] by (simp add: power_divide)
  show ?thesis using assms(3,4) unfolding iff by (blast intro: i64_power_le)
qed

lemma pow_loop_exact:
  assumes "canonical result" "canonical factor" "0 < d" "coprime n d" "0 < m"
    and "rat_val result = (of_int n / of_int d) ^ j" "rat_val factor = (of_int n / of_int d) ^ m"
  shows "case pow_loop remaining result factor of
      Some r \<Rightarrow> canonical r \<and> rat_val r = (of_int n / of_int d) ^ (j + m * unat remaining)
    | None \<Rightarrow> \<not> representable ((of_int n / of_int d) ^ (j + m * unat remaining))"
  using assms
proof (induction remaining result factor arbitrary: j m rule: pow_loop.induct)
  case (1 remaining result factor)
  define q where "q = (of_int n / of_int d :: rat)"
  define k where "k = unat remaining"
  have mono: "representable (q ^ x) \<Longrightarrow> y \<le> x \<Longrightarrow> representable (q ^ y)" for x y
    using representable_power_le [OF "1.prems"(3,4)] unfolding q_def by blast
  show ?case
  proof (cases "remaining = 0")
    case True
    then show ?thesis using "1.prems" by (simp add: pow_loop.simps)
  next
    case False
    then have k: "0 < k" by (simp add: k_def unat_gt_0)
    have half: "unat (drop_bit 1 remaining) = k div 2" unfolding k_def by (rule unat_half)
    have odd: "and remaining 1 \<noteq> 0 \<longleftrightarrow> odd k" by (simp add: unat_odd k_def)
    define j' where "j' = j + (if odd k then m else 0)"
    define m' where "m' = (if drop_bit 1 remaining \<noteq> 0 then 2 * m else m)"
    have more: "drop_bit 1 remaining \<noteq> 0 \<longleftrightarrow> 2 \<le> k"
      using half by (metis div_greater_zero_iff unat_gt_0 neq0_conv pos2)
    have total: "j' + m' * (k div 2) = j + m * k"
    proof (cases "2 \<le> k")
      case True
      have "j' + 2 * m * (k div 2) = j + m * (2 * (k div 2) + k mod 2)"
        by (simp add: j'_def algebra_simps mod_2_eq_odd)
      with True more show ?thesis by (simp add: m'_def)
    next
      case False
      with k have "k = 1" by simp
      then show ?thesis by (simp add: j'_def)
    qed
    have jle: "j' \<le> j + m * k" using k by (simp add: j'_def)
    have r1: "case (if and remaining 1 \<noteq> 0 then phy_cas_rat_mul result factor else Some result) of
        Some r \<Rightarrow> canonical r \<and> rat_val r = q ^ j' | None \<Rightarrow> \<not> representable (q ^ (j + m * k))"
      using rat_mul_exact [OF "1.prems"(1,2)] "1.prems" mono [OF _ jle] odd
      by (auto simp: j'_def q_def power_add split: option.splits)
    have r2: "case (if drop_bit 1 remaining \<noteq> 0 then phy_cas_rat_mul factor factor else Some factor) of
        Some r \<Rightarrow> canonical r \<and> rat_val r = q ^ m' | None \<Rightarrow> \<not> representable (q ^ (j + m * k))"
    proof (cases "2 \<le> k")
      case True
      have "2 * m \<le> j + m * k" using True by (simp add: trans_le_add2)
      with rat_mul_exact [OF "1.prems"(2,2)] "1.prems"(7) mono more True show ?thesis
        by (auto simp: m'_def q_def power_add [symmetric] mult_2 split: option.splits)
    next
      case False
      with more "1.prems" show ?thesis by (simp add: m'_def q_def)
    qed
    show ?thesis
    proof (cases "if and remaining 1 \<noteq> 0 then phy_cas_rat_mul result factor else Some result")
      case None
      then have "pow_loop remaining result factor = None"
        using False by (subst pow_loop.simps) (simp del: drop_bit_Suc)
      with r1 None show ?thesis by (simp add: q_def k_def)
    next
      case (Some result')
      note r = this
      show ?thesis
      proof (cases "if drop_bit 1 remaining \<noteq> 0 then phy_cas_rat_mul factor factor else Some factor")
        case None
        then have "pow_loop remaining result factor = None"
          using False r by (subst pow_loop.simps) (simp only: Let_def if_True option.case not_False_eq_True)
        with r2 None show ?thesis by (simp add: q_def k_def)
      next
        case (Some factor')
        have eq: "pow_loop remaining result factor = pow_loop (drop_bit 1 remaining) result' factor'"
          using False r Some by (subst pow_loop.simps) (simp only: Let_def if_True option.case not_False_eq_True)
        have "canonical result'" "rat_val result' = q ^ j'" using r1 r by simp_all
        moreover have "canonical factor'" "rat_val factor' = q ^ m'" using r2 Some by simp_all
        moreover have "0 < m'" using "1.prems"(5) by (simp add: m'_def)
        ultimately have "case pow_loop (drop_bit 1 remaining) result' factor' of
            Some r \<Rightarrow> canonical r \<and> rat_val r = q ^ (j' + m' * unat (drop_bit 1 remaining))
          | None \<Rightarrow> \<not> representable (q ^ (j' + m' * unat (drop_bit 1 remaining)))"
          unfolding q_def using "1.IH" [OF False r refl Some] "1.prems"(3,4) by blast
        then show ?thesis unfolding eq half total k_def [symmetric] q_def [symmetric] .
      qed
    qed
  qed
qed


lemma unat_magnitude: "i64 e \<Longrightarrow> unat (magnitude e) = nat \<bar>e\<bar>"
  by (simp add: unat_eq_nat_uint uint_magnitude)

lemma canonical_one: "canonical (mk_rat 1 1)" "rat_val (mk_rat 1 1) = 1"
  by (simp_all add: canonical_def rat_val_def)

text \<open>C21. Powers: for every exponent in range, negative ones included, the result is the exact power in
  lowest terms, and failure means the power has no \<open>int64_t\<close> representation.\<close>

theorem rat_pow_exact:
  assumes "canonical base" "i64 exponent" "rnum base \<noteq> 0 \<or> 0 \<le> exponent"
  shows "case phy_cas_rat_pow base exponent of
      Some r \<Rightarrow> canonical r \<and> rat_val r = rat_val base powi exponent
    | None \<Rightarrow> \<not> representable (rat_val base powi exponent)"
proof (cases "exponent = 0 \<or> rnum base = 0")
  case True
  then show ?thesis
    using assms(3) by (auto simp: phy_cas_rat_pow_def canonical_def rat_val_def power_int_0_left_if)
next
  case False
  define e where "e = nat \<bar>exponent\<bar>"
  have e: "unat (magnitude exponent) = e" "0 < e" using assms(2) False by (simp_all add: unat_magnitude e_def)
  have pos: "0 < rden base" "coprime (rnum base) (rden base)" and ranges: "i64 (rnum base)" "i64 (rden base)"
    using assms(1) by (simp_all add: canonical_def)
  show ?thesis
  proof (cases "exponent < 0")
    case True
    define p q where "p = sgn (rnum base) * rden base" and "q = \<bar>rnum base\<bar>"
    have pq: "0 < q" "coprime p q" "(of_int p / of_int q :: rat) = of_int (rden base) / of_int (rnum base)"
      using False pos by (auto simp: p_def q_def sgn_if abs_if coprime_commute)
    have powi: "rat_val base powi exponent = (of_int p / of_int q) ^ e"
      using True pq(3) by (simp add: rat_val_def power_int_def e_def power_divide inverse_eq_divide)
    show ?thesis
    proof (cases "reduce (rden base) (rnum base)")
      case None
      have "\<not> representable (of_int p / of_int q)"
        using None reduce_iff [OF ranges(2,1)] False pq(3) by (auto simp: representable_def)
      then have "\<not> representable ((of_int p / of_int q) ^ e)"
        using representable_power_le [OF pq(1,2), of e 1] e(2) by auto
      with None False True show ?thesis
        by (simp add: phy_cas_rat_pow_def powi Let_def)
    next
      case (Some f)
      then have f: "canonical f" "rat_val f = (of_int p / of_int q) ^ 1"
        using reduce_iff [OF ranges(2,1)] pq(3) by auto
      have "phy_cas_rat_pow base exponent = pow_loop (magnitude exponent) (mk_rat 1 1) f"
        using Some False True by (simp add: phy_cas_rat_pow_def)
      then show ?thesis
        using pow_loop_exact [OF canonical_one(1) f(1) pq(1,2) zero_less_one, of 0 "magnitude exponent"]
          f(2) canonical_one(2) unfolding powi e(1) [symmetric] add_0 mult_1 by simp
    qed
  next
    case nonneg: False
    have powi: "rat_val base powi exponent = rat_val base ^ e"
      using nonneg by (simp add: power_int_def e_def)
    have "phy_cas_rat_pow base exponent = pow_loop (magnitude exponent) (mk_rat 1 1) base"
      using False nonneg by (simp add: phy_cas_rat_pow_def)
    then show ?thesis
      using pow_loop_exact [OF canonical_one(1) assms(1) pos(1,2) zero_less_one, of 0 "magnitude exponent"]
        canonical_one(2) unfolding powi e(1) rat_val_def [of base, symmetric] by (auto split: option.splits)
  qed
qed

theorem rat_pow_exact_witness:
  "rat_val (mk_rat (- 27) 8) = rat_val (mk_rat (- 2) 3) powi (- 3) \<and>
   \<not> representable (rat_val (mk_rat 2 1) powi 63)"
proof -
  have "phy_cas_rat_pow (mk_rat (- 2) 3) (- 3) = Some (mk_rat (- 27) 8)"
    "phy_cas_rat_pow (mk_rat 2 1) 63 = None" by code_simp+
  moreover have "canonical (mk_rat (- 2) 3)" "canonical (mk_rat 2 1)" "i64 (- 3)" "i64 63" by code_simp+
  ultimately show ?thesis
    using rat_pow_exact [of "mk_rat (- 2) 3" "- 3"] rat_pow_exact [of "mk_rat 2 1" 63] by simp
qed

section \<open>Comparison with an integer\<close>

text \<open>C23. The comparison is the order of the rationals, also when the cross product leaves
  the \<open>int64_t\<close> range.\<close>

theorem rat_cmp_int_order:
  assumes "rat_ok a" "i64 value"
  shows "phy_cas_rat_cmp_int a value =
    (if rat_val a < of_int value then - 1 else if rat_val a = of_int value then 0 else 1)"
proof -
  have pos: "0 < rden a" and i: "i64 (rnum a)" "i64 (rden a)" using assms by (simp_all add: rat_ok_def)
  have lt: "rat_val a < of_int value \<longleftrightarrow> rnum a < value * rden a"
    using pos by (simp add: rat_val_def pos_divide_less_eq flip: of_int_mult)
  have eq: "rat_val a = of_int value \<longleftrightarrow> rnum a = value * rden a"
    using pos by (simp add: rat_val_def divide_eq_eq flip: of_int_mult)
  show ?thesis
  proof (cases "i64 (value * rden a)")
    case True
    then show ?thesis using assms(2) i by (simp add: phy_cas_rat_cmp_int_def mul_i64_eq lt eq)
  next
    case False
    have "value < 0 \<longleftrightarrow> value * rden a < 0" using pos by (simp add: mult_less_0_iff)
    with False i(1) have "value < 0 \<longleftrightarrow> value * rden a < rnum a" "rnum a \<noteq> value * rden a"
      by (auto simp: i64_def INT64_MIN_def INT64_MAX_def)
    with False show ?thesis
      using assms(2) i by (auto simp: phy_cas_rat_cmp_int_def mul_i64_eq lt eq)
  qed
qed

theorem rat_cmp_int_order_witness:
  "phy_cas_rat_cmp_int (mk_rat 7 2) INT64_MAX = - 1 \<and> rat_val (mk_rat 7 2) < of_int INT64_MAX"
proof -
  have c: "phy_cas_rat_cmp_int (mk_rat 7 2) INT64_MAX = - 1" by code_simp
  have "rat_ok (mk_rat 7 2)" "i64 INT64_MAX" by code_simp+
  from rat_cmp_int_order [OF this] c show ?thesis by (simp split: if_splits)
qed

end
