(* ===== verification/Input.thy ===== *)
theory Input
  imports Prelude "HOL-Library.Signed_Division"
begin

text \<open>
  The input layer: the relative touchpad tracker of \<open>src/input/pointer.c\<close> and the
  one-shot keyboard modifiers of \<open>src/input/modifier.c\<close>. A tracker pointer is an
  \<open>option\<close>, \<open>None\<close> for \<open>NULL\<close>. An \<open>int32_t\<close> or \<open>int64_t\<close> is an \<open>int\<close>; that no
  intermediate of the motion computation leaves the \<open>int64_t\<close> range is a theorem.
\<close>

section \<open>Pointer tracker\<close>

record phy_pointer_tracker =
  px :: int
  py :: int
  last_raw_x :: int
  last_raw_y :: int
  residual_x :: int
  residual_y :: int
  contact_active :: bool

text \<open>\<open>clamp_axis\<close> returns the value and the flag it writes through \<open>out_clamped\<close>.\<close>

definition clamp_axis :: "int \<Rightarrow> int \<Rightarrow> int \<times> bool" where
  "clamp_axis value extent =
     (if value < 0 then (0, True)
      else if extent \<le> value then (extent - 1, True)
      else (value, False))"

definition phy_pointer_tracker_init ::
  "phy_pointer_tracker option \<Rightarrow> int \<Rightarrow> int \<Rightarrow> phy_pointer_tracker option" where
  "phy_pointer_tracker_init tracker x y =
     (case tracker of None \<Rightarrow> None
      | Some t \<Rightarrow> Some \<lparr>px = x, py = y, last_raw_x = 0, last_raw_y = 0,
                       residual_x = 0, residual_y = 0, contact_active = False\<rparr>)"

definition scaled_x :: "phy_pointer_tracker \<Rightarrow> int \<Rightarrow> int \<Rightarrow> int" where
  "scaled_x t raw_x screen_width =
     (raw_x - last_raw_x t) * (screen_width - 1) + residual_x t"

definition scaled_y :: "phy_pointer_tracker \<Rightarrow> int \<Rightarrow> int \<Rightarrow> int" where
  "scaled_y t raw_y screen_height =
     - (raw_y - last_raw_y t) * (screen_height - 1) + residual_y t"

text \<open>The body of \<open>phy_pointer_tracker_sample\<close> once a contact is under way.\<close>

definition pointer_move ::
  "phy_pointer_tracker \<Rightarrow> int \<Rightarrow> int \<Rightarrow> int \<Rightarrow> int \<Rightarrow> int \<Rightarrow> int \<Rightarrow> phy_pointer_tracker \<times> bool" where
  "pointer_move t raw_x raw_y raw_width raw_height screen_width screen_height =
     (let sx = scaled_x t raw_x screen_width;
          sy = scaled_y t raw_y screen_height;
          move_x = sx sdiv raw_width;
          move_y = sy sdiv raw_height;
          (next_x, clamped_x) = clamp_axis (px t + move_x) screen_width;
          (next_y, clamped_y) = clamp_axis (py t + move_y) screen_height;
          moved = (next_x \<noteq> px t \<or> next_y \<noteq> py t)
      in (t\<lparr>last_raw_x := raw_x, last_raw_y := raw_y,
            residual_x := (if clamped_x then 0 else sx smod raw_width),
            residual_y := (if clamped_y then 0 else sy smod raw_height),
            px := next_x, py := next_y\<rparr>, moved))"

definition phy_pointer_tracker_sample ::
  "phy_pointer_tracker option \<Rightarrow> bool \<Rightarrow> int \<Rightarrow> int \<Rightarrow> int \<Rightarrow> int \<Rightarrow> int \<Rightarrow> int \<Rightarrow>
   phy_pointer_tracker option \<times> bool" where
  "phy_pointer_tracker_sample tracker contact raw_x raw_y raw_width raw_height
     screen_width screen_height =
     (case tracker of None \<Rightarrow> (None, False)
      | Some t \<Rightarrow>
         if raw_width \<le> 0 \<or> raw_height \<le> 0 \<or> screen_width \<le> 0 \<or> screen_height \<le> 0
         then (Some t, False)
         else if \<not> contact then
           (Some (t\<lparr>contact_active := False, residual_x := 0, residual_y := 0\<rparr>), False)
         else if \<not> contact_active t then
           (Some (t\<lparr>last_raw_x := raw_x, last_raw_y := raw_y, residual_x := 0,
                    residual_y := 0, contact_active := True\<rparr>), False)
         else
           (let (t', moved) = pointer_move t raw_x raw_y raw_width raw_height
                                screen_width screen_height
            in (Some t', moved)))"

text \<open>The \<open>(int16_t)\<close> casts of \<open>phy_pointer_tracker_position\<close>.\<close>

definition int16_cast :: "int \<Rightarrow> int" where
  "int16_cast v = sint (word_of_int v :: 16 word)"

definition phy_pointer_tracker_position ::
  "phy_pointer_tracker option \<Rightarrow> int option \<Rightarrow> int option \<Rightarrow> int option \<times> int option" where
  "phy_pointer_tracker_position tracker out_x out_y =
     (case tracker of None \<Rightarrow> (out_x, out_y)
      | Some t \<Rightarrow> (map_option (\<lambda>_. int16_cast (px t)) out_x,
                   map_option (\<lambda>_. int16_cast (py t)) out_y))"

subsection \<open>Properties\<close>

definition i32 :: "int \<Rightarrow> bool" where
  "i32 v \<longleftrightarrow> - 2147483648 \<le> v \<and> v \<le> 2147483647"

definition fits_i64 :: "int \<Rightarrow> bool" where
  "fits_i64 v \<longleftrightarrow> - 9223372036854775808 \<le> v \<and> v \<le> 9223372036854775807"

definition tracker_i32 :: "phy_pointer_tracker \<Rightarrow> bool" where
  "tracker_i32 t \<longleftrightarrow> i32 (px t) \<and> i32 (py t) \<and> i32 (last_raw_x t) \<and> i32 (last_raw_y t) \<and>
     i32 (residual_x t) \<and> i32 (residual_y t)"

definition on_screen :: "int \<Rightarrow> int \<Rightarrow> phy_pointer_tracker \<Rightarrow> bool" where
  "on_screen w h t \<longleftrightarrow> 0 \<le> px t \<and> px t < w \<and> 0 \<le> py t \<and> py t < h"

lemma clamp_axis_range: "0 < extent \<Longrightarrow> 0 \<le> fst (clamp_axis v extent) \<and> fst (clamp_axis v extent) < extent"
  by (simp add: clamp_axis_def)

lemma clamp_axis_free: "\<not> snd (clamp_axis v extent) \<Longrightarrow> fst (clamp_axis v extent) = v"
  by (auto simp: clamp_axis_def split: if_splits)

lemma abs_sdiv_le: "\<bar>(a :: int) sdiv b\<bar> \<le> \<bar>a\<bar>"
  using sdiv_int_range [of a b] by auto

lemma abs_smod_less: "0 < b \<Longrightarrow> \<bar>(a :: int) smod b\<bar> < b"
  using smod_int_range [of b a] by auto

lemma pointer_move_fields:
  "px (fst (pointer_move t rx ry rw rh sw sh)) = fst (clamp_axis (px t + scaled_x t rx sw sdiv rw) sw)"
  "py (fst (pointer_move t rx ry rw rh sw sh)) = fst (clamp_axis (py t + scaled_y t ry sh sdiv rh) sh)"
  "residual_x (fst (pointer_move t rx ry rw rh sw sh)) =
     (if snd (clamp_axis (px t + scaled_x t rx sw sdiv rw) sw) then 0 else scaled_x t rx sw smod rw)"
  "residual_y (fst (pointer_move t rx ry rw rh sw sh)) =
     (if snd (clamp_axis (py t + scaled_y t ry sh sdiv rh) sh) then 0 else scaled_y t ry sh smod rh)"
  "last_raw_x (fst (pointer_move t rx ry rw rh sw sh)) = rx"
  "last_raw_y (fst (pointer_move t rx ry rw rh sw sh)) = ry"
  "contact_active (fst (pointer_move t rx ry rw rh sw sh)) = contact_active t"
  "snd (pointer_move t rx ry rw rh sw sh) \<longleftrightarrow>
     (px (fst (pointer_move t rx ry rw rh sw sh)), py (fst (pointer_move t rx ry rw rh sw sh))) \<noteq> (px t, py t)"
  by (auto simp: pointer_move_def Let_def split: prod.splits)

lemma pointer_move_moved:
  "pointer_move t rx ry rw rh sw sh = (t', m) \<Longrightarrow> m \<longleftrightarrow> (px t', py t') \<noteq> (px t, py t)"
  using pointer_move_fields(8) [of t rx ry rw rh sw sh] by simp

lemma pointer_move_on_screen:
  "0 < sw \<Longrightarrow> 0 < sh \<Longrightarrow> on_screen sw sh (fst (pointer_move t rx ry rw rh sw sh))"
  using clamp_axis_range by (simp add: on_screen_def pointer_move_fields)

lemma product_bound:
  fixes d s r p :: int
  assumes "\<bar>d\<bar> \<le> 4294967295" "1 \<le> s" "s \<le> 2147483647" "\<bar>r\<bar> \<le> 2147483648"
  shows "\<bar>d * (s - 1)\<bar> \<le> 9223372026117357570" "\<bar>d * (s - 1) + r\<bar> \<le> 9223372028264841218"
proof -
  have "\<bar>d\<bar> * (s - 1) \<le> 4294967295 * 2147483646"
    using assms by (intro mult_mono) simp_all
  then show *: "\<bar>d * (s - 1)\<bar> \<le> 9223372026117357570" using assms(2) by (simp add: abs_mult)
  then show "\<bar>d * (s - 1) + r\<bar> \<le> 9223372028264841218" using assms(4) by linarith
qed

text \<open>A tracker in the middle of a drag, for the witnesses.\<close>

definition demo_tracker :: phy_pointer_tracker where
  "demo_tracker = \<lparr>px = 160, py = 120, last_raw_x = 500, last_raw_y = 400,
     residual_x = 3, residual_y = - 7, contact_active = True\<rparr>"

text \<open>C26. No intermediate of the motion computation overflows: for every tracker, sample and
  screen made of \<open>int32_t\<close> values, the deltas, products, scaled motions and new positions fit \<open>int64_t\<close>,
  and the tracker stored back holds \<open>int32_t\<close> values again.\<close>

theorem pointer_no_overflow:
  assumes "tracker_i32 t" "i32 rx" "i32 ry" "i32 rw" "i32 rh" "i32 sw" "i32 sh"
    and "0 < rw" "0 < rh" "0 < sw" "0 < sh"
  shows "fits_i64 (rx - last_raw_x t) \<and> fits_i64 (- (ry - last_raw_y t)) \<and>
    fits_i64 ((rx - last_raw_x t) * (sw - 1)) \<and> fits_i64 (- (ry - last_raw_y t) * (sh - 1)) \<and>
    fits_i64 (scaled_x t rx sw) \<and> fits_i64 (scaled_y t ry sh) \<and>
    fits_i64 (px t + scaled_x t rx sw sdiv rw) \<and> fits_i64 (py t + scaled_y t ry sh sdiv rh) \<and>
    tracker_i32 (fst (pointer_move t rx ry rw rh sw sh))"
proof -
  have dx: "\<bar>rx - last_raw_x t\<bar> \<le> 4294967295" and dy: "\<bar>- (ry - last_raw_y t)\<bar> \<le> 4294967295"
    and res: "\<bar>residual_x t\<bar> \<le> 2147483648" "\<bar>residual_y t\<bar> \<le> 2147483648"
    and s: "1 \<le> sw" "sw \<le> 2147483647" "1 \<le> sh" "sh \<le> 2147483647"
    and p: "\<bar>px t\<bar> \<le> 2147483648" "\<bar>py t\<bar> \<le> 2147483648"
    and r: "rw \<le> 2147483647" "rh \<le> 2147483647"
    using assms unfolding tracker_i32_def i32_def by linarith+
  note x = product_bound [OF dx s(1,2) res(1)] and y = product_bound [OF dy s(3,4) res(2)]
  have mx: "\<bar>scaled_x t rx sw sdiv rw\<bar> \<le> 9223372028264841218"
    using abs_sdiv_le [of "scaled_x t rx sw" rw] x(2) by (simp add: scaled_x_def)
  have my: "\<bar>scaled_y t ry sh sdiv rh\<bar> \<le> 9223372028264841218"
    using abs_sdiv_le [of "scaled_y t ry sh" rh] y(2) by (simp add: scaled_y_def)
  have mod: "\<bar>scaled_x t rx sw smod rw\<bar> < rw" "\<bar>scaled_y t ry sh smod rh\<bar> < rh"
    using assms by (simp_all add: abs_smod_less)
  have "tracker_i32 (fst (pointer_move t rx ry rw rh sw sh))"
    using assms(2,3) mod r s pointer_move_on_screen [of sw sh t rx ry rw rh] assms(10,11)
    by (auto simp: tracker_i32_def pointer_move_fields(3-6) on_screen_def i32_def)
  moreover have "fits_i64 (px t + scaled_x t rx sw sdiv rw)" "fits_i64 (py t + scaled_y t ry sh sdiv rh)"
    using mx my p unfolding fits_i64_def by linarith+
  moreover have "fits_i64 (rx - last_raw_x t)" "fits_i64 (- (ry - last_raw_y t))"
    using dx dy unfolding fits_i64_def by linarith+
  moreover have "fits_i64 ((rx - last_raw_x t) * (sw - 1))" "fits_i64 (scaled_x t rx sw)"
    using x unfolding fits_i64_def scaled_x_def by linarith+
  moreover have "fits_i64 (- (ry - last_raw_y t) * (sh - 1))" "fits_i64 (scaled_y t ry sh)"
    using y unfolding fits_i64_def scaled_y_def by linarith+
  ultimately show ?thesis by blast
qed

theorem pointer_no_overflow_witness:
  "fits_i64 (scaled_x demo_tracker (- 2147483648) 2147483647) \<and>
   tracker_i32 (fst (pointer_move demo_tracker (- 2147483648) 2147483647 1 1 2147483647 2147483647))"
proof -
  have "tracker_i32 demo_tracker" "i32 (- 2147483648)" "i32 2147483647" "i32 1" by code_simp+
  then show ?thesis
    using pointer_no_overflow [of demo_tracker "- 2147483648" 2147483647 1 1 2147483647 2147483647] by simp
qed


text \<open>A raw sample and a run of samples against fixed panel and screen sizes.\<close>

type_synonym raw_sample = "bool \<times> int \<times> int"

fun pointer_run ::
  "int \<Rightarrow> int \<Rightarrow> int \<Rightarrow> int \<Rightarrow> phy_pointer_tracker \<Rightarrow> raw_sample list \<Rightarrow> phy_pointer_tracker" where
  "pointer_run rw rh sw sh t [] = t"
| "pointer_run rw rh sw sh t ((contact, rx, ry) # samples) =
     (case phy_pointer_tracker_sample (Some t) contact rx ry rw rh sw sh of
        (Some t', _) \<Rightarrow> pointer_run rw rh sw sh t' samples
      | (None, _) \<Rightarrow> t)"

lemma sample_on_screen:
  assumes "on_screen sw sh t" "phy_pointer_tracker_sample (Some t) contact rx ry rw rh sw sh = (Some t', m)"
  shows "on_screen sw sh t'"
proof (cases "rw \<le> 0 \<or> rh \<le> 0 \<or> sw \<le> 0 \<or> sh \<le> 0 \<or> \<not> contact \<or> \<not> contact_active t")
  case True
  with assms show ?thesis
    by (auto simp: phy_pointer_tracker_sample_def on_screen_def split: if_splits)
next
  case False
  with assms have "t' = fst (pointer_move t rx ry rw rh sw sh)"
    by (auto simp: phy_pointer_tracker_sample_def Let_def split: prod.splits)
  with False pointer_move_on_screen show ?thesis by simp
qed

text \<open>C25. The cursor never leaves the screen, and the tracker reports motion exactly when the
  position changed: whatever the sequence of contacts, lifts and raw coordinates.\<close>

theorem pointer_stays_on_screen:
  assumes "on_screen sw sh t"
  shows "on_screen sw sh (pointer_run rw rh sw sh t samples) \<and>
    (\<forall>contact rx ry. case phy_pointer_tracker_sample (Some t) contact rx ry rw rh sw sh of
       (Some t', moved) \<Rightarrow> moved \<longleftrightarrow> (px t', py t') \<noteq> (px t, py t) | (None, _) \<Rightarrow> False)"
proof
  show "on_screen sw sh (pointer_run rw rh sw sh t samples)"
    using assms
  proof (induction samples arbitrary: t)
    case (Cons s samples)
    obtain contact rx ry where s: "s = (contact, rx, ry)" by (cases s)
    obtain r m where r: "phy_pointer_tracker_sample (Some t) contact rx ry rw rh sw sh = (r, m)"
      by fastforce
    show ?case
      using Cons sample_on_screen [OF Cons.prems, of contact rx ry rw rh] by (cases r) (simp_all add: s r)
  qed simp
  show "\<forall>contact rx ry. case phy_pointer_tracker_sample (Some t) contact rx ry rw rh sw sh of
       (Some t', moved) \<Rightarrow> moved \<longleftrightarrow> (px t', py t') \<noteq> (px t, py t) | (None, _) \<Rightarrow> False"
    by (auto simp: phy_pointer_tracker_sample_def dest: pointer_move_moved split: prod.splits)
qed

theorem pointer_stays_on_screen_witness:
  "on_screen 320 240 (pointer_run 1920 1080 320 240 demo_tracker
     [(True, 5000, 400), (False, 0, 0), (True, 3, 3), (True, 9, - 900)])"
proof -
  have "on_screen 320 240 demo_tracker" by code_simp
  from pointer_stays_on_screen [OF this] show ?thesis by blast
qed

text \<open>Motion accounting: what the panel reported is what the screen moved, plus the residual.\<close>

definition free_move :: "int \<Rightarrow> int \<Rightarrow> int \<Rightarrow> int \<Rightarrow> phy_pointer_tracker \<Rightarrow> int \<Rightarrow> int \<Rightarrow> bool" where
  "free_move rw rh sw sh t rx ry \<longleftrightarrow>
     \<not> snd (clamp_axis (px t + scaled_x t rx sw sdiv rw) sw) \<and>
     \<not> snd (clamp_axis (py t + scaled_y t ry sh sdiv rh) sh)"

fun drag :: "int \<Rightarrow> int \<Rightarrow> int \<Rightarrow> int \<Rightarrow> phy_pointer_tracker \<Rightarrow> (int \<times> int) list \<Rightarrow> phy_pointer_tracker" where
  "drag rw rh sw sh t [] = t"
| "drag rw rh sw sh t ((rx, ry) # path) =
     drag rw rh sw sh (fst (pointer_move t rx ry rw rh sw sh)) path"

fun drag_free :: "int \<Rightarrow> int \<Rightarrow> int \<Rightarrow> int \<Rightarrow> phy_pointer_tracker \<Rightarrow> (int \<times> int) list \<Rightarrow> bool" where
  "drag_free rw rh sw sh t [] = True"
| "drag_free rw rh sw sh t ((rx, ry) # path) =
     (free_move rw rh sw sh t rx ry \<and>
      drag_free rw rh sw sh (fst (pointer_move t rx ry rw rh sw sh)) path)"

lemma drag_is_run:
  assumes "contact_active t" "0 < rw" "0 < rh" "0 < sw" "0 < sh"
  shows "pointer_run rw rh sw sh t (map (\<lambda>(rx, ry). (True, rx, ry)) path) = drag rw rh sw sh t path"
  using assms(1)
proof (induction path arbitrary: t)
  case (Cons s path)
  obtain rx ry where s: "s = (rx, ry)" by (cases s)
  have "phy_pointer_tracker_sample (Some t) True rx ry rw rh sw sh =
      (Some (fst (pointer_move t rx ry rw rh sw sh)), snd (pointer_move t rx ry rw rh sw sh))"
    using Cons.prems assms(2-5) by (simp add: phy_pointer_tracker_sample_def split: prod.split)
  with Cons show ?case by (simp add: s pointer_move_fields(7))
qed simp

lemma free_move_account:
  assumes "free_move rw rh sw sh t rx ry"
  defines "t' \<equiv> fst (pointer_move t rx ry rw rh sw sh)"
  shows "rw * px t' + residual_x t' = rw * px t + residual_x t + (rx - last_raw_x t) * (sw - 1)"
    and "rh * py t' + residual_y t' = rh * py t + residual_y t - (ry - last_raw_y t) * (sh - 1)"
proof -
  have x: "px t' = px t + scaled_x t rx sw sdiv rw" "residual_x t' = scaled_x t rx sw smod rw"
    and y: "py t' = py t + scaled_y t ry sh sdiv rh" "residual_y t' = scaled_y t ry sh smod rh"
    using assms clamp_axis_free by (auto simp: free_move_def pointer_move_fields)
  have "rw * (scaled_x t rx sw sdiv rw) + scaled_x t rx sw smod rw = scaled_x t rx sw"
    "rh * (scaled_y t ry sh sdiv rh) + scaled_y t ry sh smod rh = scaled_y t ry sh"
    by (simp_all add: mult_sdiv_smod_eq)
  then show "rw * px t' + residual_x t' = rw * px t + residual_x t + (rx - last_raw_x t) * (sw - 1)"
    "rh * py t' + residual_y t' = rh * py t + residual_y t - (ry - last_raw_y t) * (sh - 1)"
    unfolding x y scaled_x_def scaled_y_def by (simp_all add: algebra_simps)
qed

text \<open>C24. Fractional motion is preserved: over a whole drag that meets no screen edge, the panel
  distance from the first to the last raw sample, scaled to the screen, equals the cursor's displacement
  times the panel size plus the change of the residual, however many samples the drag was split into.\<close>

theorem pointer_drag_conserves_motion:
  assumes "drag_free rw rh sw sh t path"
  shows "rw * (px (drag rw rh sw sh t path) - px t) + (residual_x (drag rw rh sw sh t path) - residual_x t) =
      (last_raw_x (drag rw rh sw sh t path) - last_raw_x t) * (sw - 1) \<and>
    rh * (py (drag rw rh sw sh t path) - py t) + (residual_y (drag rw rh sw sh t path) - residual_y t) =
      - (last_raw_y (drag rw rh sw sh t path) - last_raw_y t) * (sh - 1)"
  using assms
proof (induction path arbitrary: t)
  case (Cons s path)
  obtain rx ry where s: "s = (rx, ry)" by (cases s)
  define t' where "t' = fst (pointer_move t rx ry rw rh sw sh)"
  have raw: "last_raw_x t' = rx" "last_raw_y t' = ry" by (simp_all add: t'_def pointer_move_fields)
  have "free_move rw rh sw sh t rx ry" using Cons.prems by (simp add: s)
  note step = free_move_account [OF this, folded t'_def]
  have "drag_free rw rh sw sh t' path" using Cons.prems by (simp add: s t'_def)
  from Cons.IH [OF this] step raw show ?case
    by (simp add: s t'_def [symmetric] algebra_simps)
qed simp

theorem pointer_drag_conserves_motion_witness:
  "drag_free 1920 1080 320 240 demo_tracker [(503, 399), (511, 390), (600, 350)] \<and>
   1920 * (px (drag 1920 1080 320 240 demo_tracker [(503, 399), (511, 390), (600, 350)]) - 160) +
     (residual_x (drag 1920 1080 320 240 demo_tracker [(503, 399), (511, 390), (600, 350)]) - 3) = 100 * 319"
proof -
  have "drag_free 1920 1080 320 240 demo_tracker [(503, 399), (511, 390), (600, 350)]" by code_simp
  moreover have "last_raw_x (drag 1920 1080 320 240 demo_tracker [(503, 399), (511, 390), (600, 350)]) = 600"
    by code_simp
  ultimately show ?thesis
    using pointer_drag_conserves_motion [of 1920 1080 320 240 demo_tracker "[(503, 399), (511, 390), (600, 350)]"]
    by (simp add: demo_tracker_def)
qed


section \<open>Keyboard modifiers\<close>

record phy_modifier_tracker =
  shift_down :: bool
  control_down :: bool
  shift_latched :: bool
  control_latched :: bool

definition modifier_zero :: phy_modifier_tracker where
  "modifier_zero = \<lparr>shift_down = False, control_down = False,
                    shift_latched = False, control_latched = False\<rparr>"

definition phy_modifier_tracker_init :: "phy_modifier_tracker option \<Rightarrow> phy_modifier_tracker option" where
  "phy_modifier_tracker_init tracker = map_option (\<lambda>_. modifier_zero) tracker"

definition modifier_sample :: "phy_modifier_tracker \<Rightarrow> bool \<Rightarrow> bool \<Rightarrow> phy_modifier_tracker" where
  "modifier_sample t shift control =
     t\<lparr>shift_latched := (if shift \<and> \<not> shift_down t then True else shift_latched t),
       control_latched := (if control \<and> \<not> control_down t then True else control_latched t),
       shift_down := shift,
       control_down := control\<rparr>"

definition phy_modifier_tracker_sample ::
  "phy_modifier_tracker option \<Rightarrow> bool \<Rightarrow> bool \<Rightarrow> phy_modifier_tracker option" where
  "phy_modifier_tracker_sample tracker shift control =
     map_option (\<lambda>t. modifier_sample t shift control) tracker"

definition modifier_consume :: "phy_modifier_tracker \<Rightarrow> phy_modifier_tracker" where
  "modifier_consume t = t\<lparr>shift_latched := False, control_latched := False\<rparr>"

definition modifier_select :: "phy_modifier_tracker \<Rightarrow> char \<Rightarrow> char \<Rightarrow> char \<Rightarrow> char" where
  "modifier_select t normal shifted controlled =
     (let use_control = (control_down t \<or> control_latched t);
          use_shift = (shift_down t \<or> shift_latched t)
      in if use_control \<and> controlled \<noteq> CHR 0x00 then controlled
         else if use_shift \<and> shifted \<noteq> CHR 0x00 then shifted
         else normal)"

definition phy_modifier_tracker_text ::
  "phy_modifier_tracker option \<Rightarrow> char \<Rightarrow> char \<Rightarrow> char \<Rightarrow> phy_modifier_tracker option \<times> char" where
  "phy_modifier_tracker_text tracker normal shifted controlled =
     (case tracker of None \<Rightarrow> (None, normal)
      | Some t \<Rightarrow> (Some (modifier_consume t), modifier_select t normal shifted controlled))"

definition phy_modifier_tracker_nontext :: "phy_modifier_tracker option \<Rightarrow> phy_modifier_tracker option" where
  "phy_modifier_tracker_nontext tracker = map_option modifier_consume tracker"

subsection \<open>What a key sees: a specification over the history\<close>

text \<open>
  The history of a tracker, oldest event first: keypad scans with the physical state of the two
  modifiers, and keys (text or not), which consume a tapped modifier.
\<close>

datatype modifier_event = Scan bool bool | Key

fun modifier_step :: "phy_modifier_tracker \<Rightarrow> modifier_event \<Rightarrow> phy_modifier_tracker" where
  "modifier_step t (Scan s c) = modifier_sample t s c"
| "modifier_step t Key = modifier_consume t"

definition modifier_run :: "modifier_event list \<Rightarrow> phy_modifier_tracker" where
  "modifier_run es = foldl modifier_step modifier_zero es"

text \<open>The last scanned state of a modifier (\<open>sel\<close> picks shift or control), up before any scan.\<close>

definition last_scan :: "(bool \<times> bool \<Rightarrow> bool) \<Rightarrow> modifier_event list \<Rightarrow> bool" where
  "last_scan sel es = (\<exists>xs s c ys. es = xs @ Scan s c # ys \<and> sel (s, c) \<and> set ys \<subseteq> {Key})"

text \<open>A tap: the modifier was pressed (scanned down after being up) with no key since.\<close>

definition tapped :: "(bool \<times> bool \<Rightarrow> bool) \<Rightarrow> modifier_event list \<Rightarrow> bool" where
  "tapped sel es =
     (\<exists>xs s c ys. es = xs @ Scan s c # ys \<and> sel (s, c) \<and> \<not> last_scan sel xs \<and> Key \<notin> set ys)"

lemma last_scan_Nil [simp]: "\<not> last_scan sel []"
  by (simp add: last_scan_def)

lemma last_scan_scan [simp]: "last_scan sel (es @ [Scan s c]) \<longleftrightarrow> sel (s, c)"
proof
  assume "last_scan sel (es @ [Scan s c])"
  then obtain xs s' c' ys where *: "es @ [Scan s c] = xs @ Scan s' c' # ys" "sel (s', c')" "set ys \<subseteq> {Key}"
    by (auto simp: last_scan_def)
  show "sel (s, c)"
  proof (cases ys rule: rev_cases)
    case Nil
    with * show ?thesis by simp
  next
    case (snoc zs z)
    with *(1) have "z = Scan s c" by (metis append_Cons append_assoc append_is_Nil_conv last_snoc)
    with *(3) snoc show ?thesis by simp
  qed
next
  assume "sel (s, c)"
  then show "last_scan sel (es @ [Scan s c])" unfolding last_scan_def
    by (intro exI [of _ es] exI [of _ s] exI [of _ c] exI [of _ "[]"]) simp
qed

lemma last_scan_key [simp]: "last_scan sel (es @ [Key]) \<longleftrightarrow> last_scan sel es"
proof
  assume "last_scan sel (es @ [Key])"
  then obtain xs s c ys where *: "es @ [Key] = xs @ Scan s c # ys" "sel (s, c)" "set ys \<subseteq> {Key}"
    by (auto simp: last_scan_def)
  then obtain zs where "ys = zs @ [Key]"
    by (cases ys rule: rev_cases) auto
  with * show "last_scan sel es" unfolding last_scan_def by auto
next
  assume "last_scan sel es"
  then obtain xs s c ys where "es = xs @ Scan s c # ys" "sel (s, c)" "set ys \<subseteq> {Key}"
    by (auto simp: last_scan_def)
  then show "last_scan sel (es @ [Key])" unfolding last_scan_def
    by (intro exI [of _ xs] exI [of _ s] exI [of _ c] exI [of _ "ys @ [Key]"]) simp
qed

lemma tapped_Nil [simp]: "\<not> tapped sel []"
  by (simp add: tapped_def)

lemma tapped_key [simp]: "\<not> tapped sel (es @ [Key])"
proof
  assume "tapped sel (es @ [Key])"
  then obtain xs s c ys where *: "es @ [Key] = xs @ Scan s c # ys" "Key \<notin> set ys"
    by (auto simp: tapped_def)
  then show False by (cases ys rule: rev_cases) auto
qed

lemma tapped_scan [simp]:
  "tapped sel (es @ [Scan s c]) \<longleftrightarrow> tapped sel es \<or> sel (s, c) \<and> \<not> last_scan sel es"
proof
  assume "tapped sel (es @ [Scan s c])"
  then obtain xs s' c' ys where *: "es @ [Scan s c] = xs @ Scan s' c' # ys" "sel (s', c')"
    "\<not> last_scan sel xs" "Key \<notin> set ys" by (auto simp: tapped_def)
  show "tapped sel es \<or> sel (s, c) \<and> \<not> last_scan sel es"
  proof (cases ys rule: rev_cases)
    case Nil
    with * show ?thesis by simp
  next
    case (snoc zs z)
    with * have "es = xs @ Scan s' c' # zs" by simp
    with * snoc show ?thesis unfolding tapped_def by auto
  qed
next
  assume "tapped sel es \<or> sel (s, c) \<and> \<not> last_scan sel es"
  then show "tapped sel (es @ [Scan s c])"
  proof
    assume "tapped sel es"
    then obtain xs s' c' ys where "es = xs @ Scan s' c' # ys" "sel (s', c')"
      "\<not> last_scan sel xs" "Key \<notin> set ys" by (auto simp: tapped_def)
    then show ?thesis unfolding tapped_def
      by (intro exI [of _ xs] exI [of _ s'] exI [of _ c'] exI [of _ "ys @ [Scan s c]"]) simp
  next
    assume "sel (s, c) \<and> \<not> last_scan sel es"
    then show ?thesis unfolding tapped_def
      by (intro exI [of _ es] exI [of _ s] exI [of _ c] exI [of _ "[]"]) simp
  qed
qed

lemma modifier_run_state:
  "shift_down (modifier_run es) = last_scan fst es"
  "control_down (modifier_run es) = last_scan snd es"
  "shift_latched (modifier_run es) = tapped fst es"
  "control_latched (modifier_run es) = tapped snd es"
proof (induction es rule: rev_induct)
  case (snoc e es)
  { case 1 show ?case using snoc by (cases e) (simp_all add: modifier_run_def modifier_sample_def modifier_consume_def)
  next case 2 show ?case using snoc by (cases e) (simp_all add: modifier_run_def modifier_sample_def modifier_consume_def)
  next case 3 show ?case using snoc by (cases e) (auto simp: modifier_run_def modifier_sample_def modifier_consume_def)
  next case 4 show ?case using snoc by (cases e) (auto simp: modifier_run_def modifier_sample_def modifier_consume_def)
  }
qed (simp_all add: modifier_run_def modifier_zero_def)

text \<open>C27. One-shot modifiers, over every history of scans and keys: a text key yields its controlled
  form when that form exists and control is held or was tapped since the last key; otherwise its
  shifted form when that form exists and shift is held or was tapped; otherwise its normal form;
  and it consumes the taps. So with both modifiers active a missing controlled form gives the
  shifted form, where the comment in \<open>modifier.h\<close> says that a missing form falls back to the
  normal one.\<close>

theorem modifier_text_history:
  "phy_modifier_tracker_text (Some (modifier_run es)) normal shifted controlled =
    (Some (modifier_run (es @ [Key])),
     if (last_scan snd es \<or> tapped snd es) \<and> controlled \<noteq> CHR 0x00 then controlled
     else if (last_scan fst es \<or> tapped fst es) \<and> shifted \<noteq> CHR 0x00 then shifted
     else normal)"
  by (simp add: phy_modifier_tracker_text_def modifier_select_def modifier_run_state Let_def)
    (simp add: modifier_run_def)

end
