(* ===== verification/PermBasics.thy ===== *)
theory PermBasics
  imports Prelude
begin

text \<open>
  Permutations in image notation and the state of a signed permutation group:
  \<open>include/phy/permutation.h\<close> and \<open>src/permutation/perm.c\<close>. A \<open>uint16_t\<close> image array of
  \<open>degree\<close> entries is a \<open>nat list\<close>; the flat generator arrays (\<open>degree\<close> entries per
  generator) are lists of rows, whose length is the generator count. \<open>phy_alloc\<close> is the
  parameter \<open>alloc\<close>: whether an allocation of that many bytes succeeds.
\<close>

section \<open>Limits\<close>

definition UINT16_MAX :: nat where
  "UINT16_MAX = 65535"

text \<open>\<open>sizeof(phy_perm_group)\<close> in the 32-bit ARM layout.\<close>

definition sizeof_perm_group :: nat where
  "sizeof_perm_group = 80"

text \<open>The rounding-up addition is unchecked \<open>size_t\<close> arithmetic: it wraps.\<close>

definition align_up :: "nat \<Rightarrow> nat \<Rightarrow> nat" where
  "align_up value alignment =
     (let remainder = value mod alignment in
      if remainder = 0 then value else (value + alignment - remainder) mod (SIZE_MAX + 1))"

text \<open>\<open>add_bytes\<close>: the new total, or \<open>None\<close> where the C function returns \<open>false\<close>.\<close>

definition add_bytes :: "nat \<Rightarrow> nat \<Rightarrow> nat \<Rightarrow> nat option" where
  "add_bytes so_far count element =
     (if SIZE_MAX div element < count then None
      else let bytes = count * element in
        if SIZE_MAX - bytes < so_far then None else Some (so_far + bytes))"

record phy_perm_limits =
  max_degree :: nat
  max_generators :: nat
  max_strong_generators :: nat
  pmax_steps :: nat
  pmax_bytes :: nat

definition phy_perm_limits_defaults :: phy_perm_limits where
  "phy_perm_limits_defaults =
     \<lparr>max_degree = 32, max_generators = 256, max_strong_generators = 1024,
      pmax_steps = 2000000, pmax_bytes = 768 * 1024\<rparr>"

definition phy_perm_resolve_limits :: "phy_perm_limits option \<Rightarrow> phy_status \<times> phy_perm_limits" where
  "phy_perm_resolve_limits requested =
     (let d = phy_perm_limits_defaults;
          pick = (\<lambda>f. case requested of None \<Rightarrow> f d | Some r \<Rightarrow> if f r \<noteq> 0 then f r else f d);
          out = \<lparr>max_degree = pick max_degree, max_generators = pick max_generators,
                 max_strong_generators = pick max_strong_generators,
                 pmax_steps = pick pmax_steps, pmax_bytes = pick pmax_bytes\<rparr>
      in if max_degree out = 0 \<or> UINT16_MAX < max_degree out \<or> max_generators out = 0 \<or>
            max_strong_generators out = 0 \<or> pmax_steps out = 0 \<or>
            pmax_bytes out < sizeof_perm_group
         then (PHY_ERR_INVALID_ARGUMENT, out)
         else (PHY_OK, out))"

section \<open>Permutations\<close>

definition phy_permutation_valid :: "nat list option \<Rightarrow> nat \<Rightarrow> bool" where
  "phy_permutation_valid img degree =
     (case img of None \<Rightarrow> False
      | Some im \<Rightarrow>
         if degree = 0 \<or> UINT16_MAX < degree then False
         else list_all (\<lambda>i. im ! i < degree \<and> list_all (\<lambda>prior. im ! prior \<noteq> im ! i) [0..<i])
                [0..<degree])"

definition phy_permutation_identity :: "nat \<Rightarrow> phy_status \<times> nat list" where
  "phy_permutation_identity degree =
     (if degree = 0 \<or> UINT16_MAX < degree then (PHY_ERR_INVALID_ARGUMENT, [])
      else (PHY_OK, [0..<degree]))"

definition phy_perm_compose_unchecked :: "nat list \<Rightarrow> nat list \<Rightarrow> nat \<Rightarrow> nat list" where
  "phy_perm_compose_unchecked left right degree = map (\<lambda>i. left ! (right ! i)) [0..<degree]"

text \<open>\<open>aliased\<close>: whether \<open>out_image\<close> is one of the inputs.\<close>

definition phy_permutation_compose ::
  "nat list option \<Rightarrow> nat list option \<Rightarrow> nat \<Rightarrow> bool \<Rightarrow> nat list option \<Rightarrow> phy_status \<times> nat list option" where
  "phy_permutation_compose left right degree aliased out_image =
     (if out_image = None \<or> \<not> phy_permutation_valid left degree \<or>
         \<not> phy_permutation_valid right degree \<or> aliased
      then (PHY_ERR_INVALID_ARGUMENT, out_image)
      else (PHY_OK, Some (phy_perm_compose_unchecked (the left) (the right) degree)))"

text \<open>The loop writes \<open>out[image[i]] = i\<close> into the buffer \<open>out\<close>.\<close>

definition phy_perm_inverse_unchecked :: "nat list \<Rightarrow> nat \<Rightarrow> nat list \<Rightarrow> nat list" where
  "phy_perm_inverse_unchecked img degree out = fold (\<lambda>i out. out[img ! i := i]) [0..<degree] out"

definition phy_permutation_inverse ::
  "nat list option \<Rightarrow> nat \<Rightarrow> bool \<Rightarrow> nat list option \<Rightarrow> phy_status \<times> nat list option" where
  "phy_permutation_inverse img degree aliased out_inverse =
     (if out_inverse = None \<or> \<not> phy_permutation_valid img degree \<or> aliased
      then (PHY_ERR_INVALID_ARGUMENT, out_inverse)
      else (PHY_OK, Some (phy_perm_inverse_unchecked (the img) degree (the out_inverse))))"

fun level_from :: "nat list \<Rightarrow> nat list \<Rightarrow> nat \<Rightarrow> nat" where
  "level_from img [] degree = degree"
| "level_from img (i # is) degree = (if img ! i \<noteq> i then i else level_from img is degree)"

definition phy_perm_level :: "nat list \<Rightarrow> nat \<Rightarrow> nat" where
  "phy_perm_level img degree = level_from img [0..<degree] degree"

definition phy_perm_identity_image :: "nat list \<Rightarrow> nat \<Rightarrow> bool" where
  "phy_perm_identity_image img degree \<longleftrightarrow> phy_perm_level img degree = degree"

section \<open>The group\<close>

record phy_perm_group =
  degree :: nat
  plimits :: phy_perm_limits
  storage_bytes :: nat
  persistent_bytes :: nat
  generators :: "(nat list \<times> int) list"
  strong :: "(nat list \<times> int \<times> nat) list"
  built :: bool
  negative_identity :: bool
  order :: nat

text \<open>The offsets of the group's arrays in its single storage block.\<close>

definition group_storage_bytes :: "nat \<Rightarrow> phy_perm_limits \<Rightarrow> nat option" where
  "group_storage_bytes deg resolved =
     (if SIZE_MAX div deg < max_generators resolved \<or>
         SIZE_MAX div deg < max_strong_generators resolved then None
      else
        case add_bytes (align_up 0 2) (max_generators resolved * deg) 2 of None \<Rightarrow> None
        | Some offset1 \<Rightarrow>
          (case add_bytes offset1 (max_generators resolved) 1 of None \<Rightarrow> None
           | Some offset2 \<Rightarrow>
             (case add_bytes (align_up offset2 2) (max_strong_generators resolved * deg) 2 of None \<Rightarrow> None
              | Some offset3 \<Rightarrow>
                (case add_bytes offset3 (max_strong_generators resolved) 1 of None \<Rightarrow> None
                 | Some offset4 \<Rightarrow> add_bytes (align_up offset4 2) (max_strong_generators resolved) 2))))"

definition phy_perm_group_create ::
  "nat \<Rightarrow> phy_perm_limits option \<Rightarrow> (nat \<Rightarrow> bool) \<Rightarrow> phy_status \<times> phy_perm_group option" where
  "phy_perm_group_create deg limits alloc =
     (if deg = 0 then (PHY_ERR_INVALID_ARGUMENT, None)
      else
        case phy_perm_resolve_limits limits of (status, resolved) \<Rightarrow>
        if status \<noteq> PHY_OK then (status, None)
        else if max_degree resolved < deg then (PHY_ERR_TERM_LIMIT, None)
        else
          case group_storage_bytes deg resolved of
            None \<Rightarrow> (PHY_ERR_MEMORY_LIMIT, None)
          | Some offset \<Rightarrow>
              if pmax_bytes resolved - sizeof_perm_group < offset then (PHY_ERR_MEMORY_LIMIT, None)
              else if \<not> alloc sizeof_perm_group then (PHY_ERR_MEMORY_LIMIT, None)
              else if \<not> alloc offset then (PHY_ERR_MEMORY_LIMIT, None)
              else
                (PHY_OK, Some \<lparr>degree = deg, plimits = resolved, storage_bytes = offset,
                   persistent_bytes = sizeof_perm_group + offset, generators = [], strong = [],
                   built = False, negative_identity = False, order = 0\<rparr>))"

definition phy_perm_group_degree :: "phy_perm_group option \<Rightarrow> nat" where
  "phy_perm_group_degree grp = (case grp of None \<Rightarrow> 0 | Some g \<Rightarrow> degree g)"

definition phy_perm_group_add_generator ::
  "phy_perm_group \<Rightarrow> nat list option \<Rightarrow> int \<Rightarrow> phy_status \<times> phy_perm_group" where
  "phy_perm_group_add_generator grp img sign =
     (if (sign \<noteq> - 1 \<and> sign \<noteq> 1) \<or> \<not> phy_permutation_valid img (degree grp)
      then (PHY_ERR_INVALID_ARGUMENT, grp)
      else if list_ex (\<lambda>(im, s). s = sign \<and> im = the img) (generators grp) then (PHY_OK, grp)
      else if max_generators (plimits grp) \<le> length (generators grp) then (PHY_ERR_TERM_LIMIT, grp)
      else (PHY_OK, grp\<lparr>generators := generators grp @ [(the img, sign)],
                          built := False, order := 0\<rparr>))"

definition phy_perm_group_generator_count :: "phy_perm_group option \<Rightarrow> nat" where
  "phy_perm_group_generator_count grp =
     (case grp of None \<Rightarrow> 0 | Some g \<Rightarrow> length (generators g))"

text \<open>
  The work meter. \<open>used\<close> never exceeds the limit (\<open>phy_perm_step_ok\<close>), so the unsigned
  subtraction of the code does not wrap and the truncated one of \<open>nat\<close> is the same.
\<close>

definition phy_perm_step :: "phy_perm_group \<Rightarrow> nat \<Rightarrow> nat \<Rightarrow> phy_status \<times> nat" where
  "phy_perm_step grp amount used =
     (if pmax_steps (plimits grp) - used < amount then (PHY_ERR_TIMEOUT, used)
      else (PHY_OK, used + amount))"

definition phy_perm_add_strong ::
  "phy_perm_group \<Rightarrow> nat list \<Rightarrow> int \<Rightarrow> phy_status \<times> phy_perm_group \<times> bool" where
  "phy_perm_add_strong grp img sign =
     (if phy_perm_identity_image img (degree grp) then
        (if sign < 0 \<and> \<not> negative_identity grp
         then (PHY_OK, grp\<lparr>negative_identity := True\<rparr>, True)
         else (PHY_OK, grp, False))
      else
        case find (\<lambda>(im, s, l). im = img) (strong grp) of
          Some (im, s, l) \<Rightarrow>
            (if s \<noteq> sign \<and> \<not> negative_identity grp
             then (PHY_OK, grp\<lparr>negative_identity := True\<rparr>, True)
             else (PHY_OK, grp, False))
        | None \<Rightarrow>
            (if max_strong_generators (plimits grp) \<le> length (strong grp)
             then (PHY_ERR_TERM_LIMIT, grp, False)
             else (PHY_OK,
                   grp\<lparr>strong := strong grp @ [(img, sign, phy_perm_level img (degree grp))]\<rparr>,
                   True)))"

definition phy_perm_group_is_built :: "phy_perm_group option \<Rightarrow> bool" where
  "phy_perm_group_is_built grp = (case grp of None \<Rightarrow> False | Some g \<Rightarrow> built g)"

definition phy_perm_group_base_size :: "phy_perm_group option \<Rightarrow> nat" where
  "phy_perm_group_base_size grp =
     (case grp of None \<Rightarrow> 0 | Some g \<Rightarrow> if built g then degree g else 0)"

definition phy_perm_group_strong_generator_count :: "phy_perm_group option \<Rightarrow> nat" where
  "phy_perm_group_strong_generator_count grp =
     (case grp of None \<Rightarrow> 0 | Some g \<Rightarrow> if built g then length (strong g) else 0)"

definition phy_perm_group_order :: "phy_perm_group option \<Rightarrow> nat" where
  "phy_perm_group_order grp =
     (case grp of None \<Rightarrow> 0 | Some g \<Rightarrow> if built g then order g else 0)"

definition phy_perm_group_has_negative_identity :: "phy_perm_group option \<Rightarrow> bool" where
  "phy_perm_group_has_negative_identity grp =
     (case grp of None \<Rightarrow> False | Some g \<Rightarrow> built g \<and> negative_identity g)"


section \<open>Permutations as a group\<close>

definition perm :: "nat \<Rightarrow> nat list \<Rightarrow> bool" where
  "perm n p \<longleftrightarrow> length p = n \<and> distinct p \<and> set p \<subseteq> {..<n}"

abbreviation idp :: "nat \<Rightarrow> nat list" where
  "idp n \<equiv> [0..<n]"

abbreviation compose :: "nat \<Rightarrow> nat list \<Rightarrow> nat list \<Rightarrow> nat list" where
  "compose n p q \<equiv> phy_perm_compose_unchecked p q n"

abbreviation inverse_of :: "nat \<Rightarrow> nat list \<Rightarrow> nat list" where
  "inverse_of n p \<equiv> phy_perm_inverse_unchecked p n (replicate n 0)"

lemma perm_length: "perm n p \<Longrightarrow> length p = n"
  by (simp add: perm_def)

lemma perm_nth [simp]: "perm n p \<Longrightarrow> i < n \<Longrightarrow> p ! i < n"
  unfolding perm_def by (auto dest!: nth_mem)

lemma perm_inj: "perm n p \<Longrightarrow> i < n \<Longrightarrow> j < n \<Longrightarrow> p ! i = p ! j \<longleftrightarrow> i = j"
  by (metis nth_eq_iff_index_eq perm_def)

lemma permI:
  assumes "length p = n" "\<And>i. i < n \<Longrightarrow> p ! i < n" "\<And>i j. i < j \<Longrightarrow> j < n \<Longrightarrow> p ! i \<noteq> p ! j"
  shows "perm n p"
proof -
  have "distinct p"
    unfolding distinct_conv_nth
  proof (intro allI impI)
    fix i j assume "i < length p" "j < length p" "i \<noteq> j"
    then show "p ! i \<noteq> p ! j"
      using assms(1) assms(3) [of i j] assms(3) [of j i] by (cases i j rule: linorder_cases) auto
  qed
  moreover have "set p \<subseteq> {..<n}" using assms(1,2) by (auto simp: in_set_conv_nth)
  ultimately show ?thesis using assms(1) by (simp add: perm_def)
qed

lemma perm_surj:
  assumes "perm n p" "y < n"
  shows "\<exists>x < n. p ! x = y"
proof -
  have "set p = {..<n}"
    using assms by (metis card_lessThan card_subset_eq distinct_card finite_lessThan perm_def)
  then have "y \<in> set p" using assms(2) by simp
  then show ?thesis using assms(1) by (metis in_set_conv_nth perm_length)
qed

lemma perm_idp [simp]: "perm n (idp n)"
  by (simp add: perm_def lessThan_atLeast0)

lemma nth_compose [simp]: "i < n \<Longrightarrow> compose n p q ! i = p ! (q ! i)"
  by (simp add: phy_perm_compose_unchecked_def)

lemma length_compose [simp]: "length (compose n p q) = n"
  by (simp add: phy_perm_compose_unchecked_def)

lemma perm_compose [simp]: "perm n p \<Longrightarrow> perm n q \<Longrightarrow> perm n (compose n p q)"
  by (rule permI) (auto simp: perm_inj)

lemma perm_eqI: "perm n p \<Longrightarrow> perm n q \<Longrightarrow> (\<And>i. i < n \<Longrightarrow> p ! i = q ! i) \<Longrightarrow> p = q"
  by (rule nth_equalityI) (simp_all add: perm_length [of n])

lemma compose_idp [simp]: "perm n p \<Longrightarrow> compose n (idp n) p = p" "perm n p \<Longrightarrow> compose n p (idp n) = p"
  by (rule perm_eqI [of n]; simp)+

lemma compose_assoc:
  "perm n p \<Longrightarrow> perm n q \<Longrightarrow> perm n r \<Longrightarrow> compose n (compose n p q) r = compose n p (compose n q r)"
  by (rule perm_eqI [of n]) simp_all

lemma length_inverse_fold: "length (fold (\<lambda>i out. out[img ! i := i]) xs out) = length out"
  by (induction xs arbitrary: out) simp_all

lemma inverse_fold_nth:
  assumes "perm n p" "k \<le> n" "length out = n" "i < n"
  shows "fold (\<lambda>i out. out[p ! i := i]) [0..<k] out ! (p ! i) = (if i < k then i else out ! (p ! i))"
  using assms(2)
proof (induction k)
  case (Suc k)
  then show ?case
    using assms by (auto simp: nth_list_update length_inverse_fold perm_inj less_Suc_eq)
qed simp

lemma inverse_unchecked_nth:
  assumes "perm n p" "length out = n" "i < n"
  shows "phy_perm_inverse_unchecked p n out ! (p ! i) = i"
  using inverse_fold_nth [OF assms(1) order_refl assms(2,3)] assms(3)
  by (simp add: phy_perm_inverse_unchecked_def)

lemma length_inverse [simp]: "length (phy_perm_inverse_unchecked p n out) = length out"
  by (simp add: phy_perm_inverse_unchecked_def length_inverse_fold)

lemma perm_inverse_unchecked:
  assumes "perm n p" "length out = n"
  shows "perm n (phy_perm_inverse_unchecked p n out)"
proof (rule permI)
  fix i j assume "i < j" "j < n"
  then obtain x y where "x < n" "p ! x = i" "y < n" "p ! y = j"
    using perm_surj [OF assms(1)] by (meson less_trans)
  with \<open>i < j\<close> show "phy_perm_inverse_unchecked p n out ! i \<noteq> phy_perm_inverse_unchecked p n out ! j"
    using inverse_unchecked_nth [OF assms] by fastforce
next
  fix i assume "i < n"
  then show "phy_perm_inverse_unchecked p n out ! i < n"
    using perm_surj [OF assms(1)] inverse_unchecked_nth [OF assms] by metis
qed (simp add: assms)

text \<open>The buffer the inverse is written to does not matter.\<close>

lemma inverse_unchecked_buffer:
  assumes "perm n p" "length out = n"
  shows "phy_perm_inverse_unchecked p n out = inverse_of n p"
proof (rule perm_eqI [of n])
  fix i assume "i < n"
  then obtain x where "x < n" "p ! x = i" using perm_surj [OF assms(1)] by blast
  then show "phy_perm_inverse_unchecked p n out ! i = inverse_of n p ! i"
    using inverse_unchecked_nth [OF assms(1)] assms(2) by (metis length_replicate)
qed (simp_all add: perm_inverse_unchecked assms)

lemma perm_inverse [simp]: "perm n p \<Longrightarrow> perm n (inverse_of n p)"
  by (simp add: perm_inverse_unchecked)

lemma inverse_nth [simp]: "perm n p \<Longrightarrow> i < n \<Longrightarrow> inverse_of n p ! (p ! i) = i"
  by (simp add: inverse_unchecked_nth)

lemma nth_inverse [simp]: "perm n p \<Longrightarrow> i < n \<Longrightarrow> p ! (inverse_of n p ! i) = i"
  by (metis inverse_nth perm_surj)

lemma compose_inverse [simp]:
  "perm n p \<Longrightarrow> compose n (inverse_of n p) p = idp n" "perm n p \<Longrightarrow> compose n p (inverse_of n p) = idp n"
  by (rule perm_eqI [of n]; simp)+

lemma finite_perms: "finite {p. perm n p}"
  by (rule finite_subset [OF _ finite_lists_length_eq [of "{..<n}" n]]) (auto simp: perm_def)

lemma valid_iff_perm:
  assumes "length p = n"
  shows "phy_permutation_valid (Some p) n \<longleftrightarrow> 0 < n \<and> n \<le> UINT16_MAX \<and> perm n p"
proof
  assume v: "phy_permutation_valid (Some p) n"
  then have n: "0 < n" "n \<le> UINT16_MAX"
    and all: "\<forall>i < n. p ! i < n \<and> (\<forall>j < i. p ! j \<noteq> p ! i)"
    by (auto simp: phy_permutation_valid_def list_all_iff split: if_splits)
  have "perm n p"
    by (rule permI) (use assms all in auto)
  with n show "0 < n \<and> n \<le> UINT16_MAX \<and> perm n p" by simp
next
  assume p: "0 < n \<and> n \<le> UINT16_MAX \<and> perm n p"
  then have "p ! j \<noteq> p ! i" if "j < i" "i < n" for i j
    using that perm_inj [of n p j i] by simp
  with p show "phy_permutation_valid (Some p) n"
    by (simp add: phy_permutation_valid_def list_all_iff not_less)
qed

lemma level_from_upt:
  "m \<le> n \<Longrightarrow> level_from p [m..<n] n \<le> n \<and> m \<le> level_from p [m..<n] n \<and>
    (\<forall>i. m \<le> i \<and> i < level_from p [m..<n] n \<longrightarrow> p ! i = i) \<and>
    (level_from p [m..<n] n < n \<longrightarrow> p ! level_from p [m..<n] n \<noteq> level_from p [m..<n] n)"
proof (induction "n - m" arbitrary: m)
  case (Suc k)
  then have upt: "[m..<n] = m # [Suc m..<n]" by (simp add: upt_conv_Cons)
  show ?case
  proof (cases "p ! m = m")
    case True
    have "k = n - Suc m" "Suc m \<le> n" using Suc.hyps(2) by simp_all
    note IH = Suc.hyps(1) [OF this]
    have "p ! i = i" if "m \<le> i" "i < level_from p [Suc m..<n] n" for i
      using IH True that by (cases "i = m") simp_all
    with IH True show ?thesis by (simp add: upt)
  next
    case False
    with Suc show ?thesis by (simp add: upt)
  qed
qed simp

lemma perm_level_fixes: "i < phy_perm_level p n \<Longrightarrow> p ! i = i"
  and perm_level_le: "phy_perm_level p n \<le> n"
  and perm_level_moves: "phy_perm_level p n < n \<Longrightarrow> p ! phy_perm_level p n \<noteq> phy_perm_level p n"
  using level_from_upt [of 0 n p] by (simp_all add: phy_perm_level_def)

lemma perm_level_unique:
  "k < n \<Longrightarrow> p ! k \<noteq> k \<Longrightarrow> (\<And>i. i < k \<Longrightarrow> p ! i = i) \<Longrightarrow> phy_perm_level p n = k"
  by (metis linorder_neqE_nat order.strict_trans1 perm_level_fixes perm_level_le perm_level_moves
      order_less_le_trans)

lemma identity_image_iff: "perm n p \<Longrightarrow> phy_perm_identity_image p n \<longleftrightarrow> p = idp n"
proof
  assume p: "perm n p" and "phy_perm_identity_image p n"
  then show "p = idp n"
    by (intro perm_eqI [of n]) (simp_all add: phy_perm_identity_image_def perm_level_fixes [of _ p n])
next
  assume "p = idp n"
  then show "phy_perm_identity_image p n"
    using perm_level_le [of p n] perm_level_moves [of p n]
    by (metis add_0 le_neq_implies_less nth_upt phy_perm_identity_image_def)
qed

end
