(* ===== verification/SignedGroup.thy ===== *)
theory SignedGroup
  imports PermBasics
begin

text \<open>
  The abstract contract of the permutation layer: the group of signed permutations
  generated by a set of pairs (permutation, sign), its orbits, and Schreier's lemma for
  signed generators. Nothing here models code; the chain construction and membership
  theorems of the next theories are stated against these notions.
\<close>

section \<open>Signed permutations\<close>

type_synonym sperm = "nat list \<times> int"

definition sperm :: "nat \<Rightarrow> sperm \<Rightarrow> bool" where
  "sperm n x \<longleftrightarrow> perm n (fst x) \<and> (snd x = 1 \<or> snd x = - 1)"

definition smul :: "nat \<Rightarrow> sperm \<Rightarrow> sperm \<Rightarrow> sperm" where
  "smul n x y = (compose n (fst x) (fst y), snd x * snd y)"

definition sone :: "nat \<Rightarrow> sperm" where
  "sone n = (idp n, 1)"

definition sinv :: "nat \<Rightarrow> sperm \<Rightarrow> sperm" where
  "sinv n x = (inverse_of n (fst x), snd x)"

lemma sperm_sone [simp]: "sperm n (sone n)"
  by (simp add: sperm_def sone_def)

lemma sperm_smul [simp]: "sperm n x \<Longrightarrow> sperm n y \<Longrightarrow> sperm n (smul n x y)"
  by (auto simp: sperm_def smul_def)

lemma sperm_sinv [simp]: "sperm n x \<Longrightarrow> sperm n (sinv n x)"
  by (auto simp: sperm_def sinv_def)

lemma smul_sone [simp]: "sperm n x \<Longrightarrow> smul n (sone n) x = x" "sperm n x \<Longrightarrow> smul n x (sone n) = x"
  by (cases x; simp add: sperm_def smul_def sone_def)+

lemma smul_assoc:
  "sperm n x \<Longrightarrow> sperm n y \<Longrightarrow> sperm n z \<Longrightarrow> smul n (smul n x y) z = smul n x (smul n y z)"
  by (simp add: sperm_def smul_def compose_assoc)

lemma smul_sinv [simp]:
  "sperm n x \<Longrightarrow> smul n (sinv n x) x = sone n" "sperm n x \<Longrightarrow> smul n x (sinv n x) = sone n"
  by (auto simp: sperm_def smul_def sone_def sinv_def)

lemma sinv_sone [simp]: "sinv n (sone n) = sone n"
  by (metis smul_sinv(1) smul_sone(2) sperm_sinv sperm_sone)

lemma smul_sinv_cancel [simp]:
  "sperm n x \<Longrightarrow> sperm n y \<Longrightarrow> smul n (sinv n x) (smul n x y) = y"
  "sperm n x \<Longrightarrow> sperm n y \<Longrightarrow> smul n x (smul n (sinv n x) y) = y"
  by (simp_all add: smul_assoc [symmetric])

lemma smul_cancel_left:
  "sperm n x \<Longrightarrow> sperm n y \<Longrightarrow> sperm n z \<Longrightarrow> smul n x y = smul n x z \<longleftrightarrow> y = z"
  by (metis smul_sinv_cancel(1))

lemma finite_sperms: "finite {x. sperm n x}"
  by (rule finite_subset [OF _ finite_cartesian_product [OF finite_perms [of n], of "{1, - 1}"]])
    (auto simp: sperm_def)

abbreviation act :: "sperm \<Rightarrow> nat \<Rightarrow> nat" where
  "act x i \<equiv> fst x ! i"

lemma act_bound: "sperm n x \<Longrightarrow> i < n \<Longrightarrow> act x i < n"
  by (simp add: sperm_def)

lemma act_smul: "i < n \<Longrightarrow> act (smul n x y) i = act x (act y i)"
  by (simp add: smul_def)

lemma act_sone: "i < n \<Longrightarrow> act (sone n) i = i"
  by (simp add: sone_def)

lemma act_sinv: "sperm n x \<Longrightarrow> i < n \<Longrightarrow> act (sinv n x) (act x i) = i"
  by (simp add: sperm_def sinv_def)

section \<open>Generated groups\<close>

inductive_set grp_span :: "nat \<Rightarrow> sperm set \<Rightarrow> sperm set" for n S where
  span_one: "sone n \<in> grp_span n S"
| span_mul: "x \<in> S \<Longrightarrow> y \<in> grp_span n S \<Longrightarrow> smul n x y \<in> grp_span n S"

definition sperms :: "nat \<Rightarrow> sperm set \<Rightarrow> bool" where
  "sperms n S \<longleftrightarrow> (\<forall>x \<in> S. sperm n x)"

lemma span_sperm: "x \<in> grp_span n S \<Longrightarrow> sperms n S \<Longrightarrow> sperm n x"
  by (induction rule: grp_span.induct) (auto simp: sperms_def)

lemma span_base: "sperms n S \<Longrightarrow> x \<in> S \<Longrightarrow> x \<in> grp_span n S"
  by (metis smul_sone(2) grp_span.intros sperms_def)

lemma span_closed: "x \<in> grp_span n S \<Longrightarrow> sperms n S \<Longrightarrow> y \<in> grp_span n S \<Longrightarrow> smul n x y \<in> grp_span n S"
proof (induction rule: grp_span.induct)
  case span_one
  then show ?case by (simp add: span_sperm)
next
  case (span_mul x z)
  then have "smul n (smul n x z) y = smul n x (smul n z y)"
    by (intro smul_assoc) (auto simp: span_sperm sperms_def)
  with span_mul show ?case by (simp add: grp_span.span_mul)
qed

lemma finite_span: "sperms n S \<Longrightarrow> finite (grp_span n S)"
  by (rule finite_subset [OF _ finite_sperms [of n]]) (auto simp: span_sperm)

text \<open>A finite cancellative monoid is a group: left multiplication is onto.\<close>

lemma span_sinv:
  assumes "sperms n S" "x \<in> grp_span n S"
  shows "sinv n x \<in> grp_span n S"
proof -
  let ?f = "smul n x"
  have inj: "inj_on ?f (grp_span n S)"
    using assms by (auto intro!: inj_onI simp: smul_cancel_left span_sperm)
  have "?f ` grp_span n S \<subseteq> grp_span n S" using assms by (auto intro: span_closed)
  then have "?f ` grp_span n S = grp_span n S"
    using inj finite_span [OF assms(1)] by (simp add: endo_inj_surj)
  then obtain y where y: "y \<in> grp_span n S" "smul n x y = sone n"
    using grp_span.span_one by (metis image_iff)
  have "sperm n x" "sperm n y" using assms y(1) by (auto simp: span_sperm)
  then have "sinv n x = y" using y(2) smul_sinv_cancel(1) [of n x y] by simp
  with y show ?thesis by simp
qed

lemma span_least:
  assumes "sperms n T" "S \<subseteq> grp_span n T"
  shows "grp_span n S \<subseteq> grp_span n T"
proof
  fix x assume "x \<in> grp_span n S"
  then show "x \<in> grp_span n T"
    by induction (use assms in \<open>auto intro: grp_span.span_one span_closed\<close>)
qed

lemma span_mono: "sperms n T \<Longrightarrow> S \<subseteq> T \<Longrightarrow> grp_span n S \<subseteq> grp_span n T"
  by (rule span_least) (auto intro: span_base)

section \<open>Orbits\<close>

definition orbit_of :: "nat \<Rightarrow> sperm set \<Rightarrow> nat \<Rightarrow> nat set" where
  "orbit_of n S b = {act x b | x. x \<in> grp_span n S}"

lemma orbit_base: "b < n \<Longrightarrow> b \<in> orbit_of n S b"
  unfolding orbit_of_def using act_sone grp_span.span_one by (metis (mono_tags, lifting) mem_Collect_eq)

lemma orbit_step:
  assumes "sperms n S" "b < n" "y \<in> orbit_of n S b" "x \<in> S"
  shows "act x y \<in> orbit_of n S b"
proof -
  obtain z where z: "z \<in> grp_span n S" "y = act z b" using assms(3) by (auto simp: orbit_of_def)
  then have "act x y = act (smul n x z) b" using assms(2) by (simp add: act_smul)
  moreover have "smul n x z \<in> grp_span n S" using assms(4) z(1) by (rule grp_span.span_mul)
  ultimately show ?thesis unfolding orbit_of_def by blast
qed

lemma orbit_least:
  assumes "b < n" "b \<in> Y" "\<And>y x. y \<in> Y \<Longrightarrow> x \<in> S \<Longrightarrow> act x y \<in> Y"
  shows "orbit_of n S b \<subseteq> Y"
proof -
  have "act x b \<in> Y" if "x \<in> grp_span n S" for x
    using that
  proof induction
    case span_one
    then show ?case using assms by (simp only: act_sone)
  next
    case (span_mul x y)
    then show ?case using assms by (simp only: act_smul)
  qed
  then show ?thesis by (auto simp: orbit_of_def)
qed

section \<open>Schreier's lemma\<close>

text \<open>
  \<open>t y\<close> is a representative carrying the base point \<open>b\<close> to \<open>y\<close>. If every Schreier
  generator \<open>t(x y)^-1 x t(y)\<close> lies in a set \<open>H\<close> closed under multiplication, so does
  \<open>t(h b)^-1 h\<close> for every \<open>h\<close> of the group.
\<close>

lemma schreier:
  assumes S: "sperms n S" and b: "b < n"
    and t: "\<And>y. y \<in> orbit_of n S b \<Longrightarrow> sperm n (t y) \<and> act (t y) b = y" and tb: "t b = sone n"
    and one: "sone n \<in> H" and mul: "\<And>x y. x \<in> H \<Longrightarrow> y \<in> H \<Longrightarrow> smul n x y \<in> H"
    and gen: "\<And>x y. x \<in> S \<Longrightarrow> y \<in> orbit_of n S b \<Longrightarrow>
        smul n (sinv n (t (act x y))) (smul n x (t y)) \<in> H"
    and h: "h \<in> grp_span n S"
  shows "smul n (sinv n (t (act h b))) h \<in> H"
  using h
proof induction
  case span_one
  show ?case using one tb b by (simp add: act_sone)
next
  case (span_mul x h)
  let ?y = "act h b"
  have y: "?y \<in> orbit_of n S b" using span_mul(2) unfolding orbit_of_def by blast
  have sx: "sperm n x" and sh: "sperm n h" using S span_mul by (auto simp: sperms_def span_sperm)
  have xy: "act (smul n x h) b = act x ?y" using b by (simp add: act_smul)
  have txy: "sperm n (t (act x ?y))" and ty: "sperm n (t ?y)"
    using t orbit_step [OF S b y] y span_mul(1) by auto
  have "smul n (smul n (sinv n (t (act x ?y))) (smul n x (t ?y))) (smul n (sinv n (t ?y)) h) =
      smul n (sinv n (t (act x ?y))) (smul n x h)"
    using sx sh txy ty by (simp add: smul_assoc)
  moreover have "smul n (smul n (sinv n (t (act x ?y))) (smul n x (t ?y))) (smul n (sinv n (t ?y)) h) \<in> H"
    using gen [OF span_mul(1) y] span_mul(3) by (rule mul)
  ultimately show ?case by (simp add: xy)
qed

end
