(* ===== verification/Bsgs.thy ===== *)
theory Bsgs
  imports SignedGroup
begin

text \<open>
  The base-and-strong-generating-set construction and the membership test:
  \<open>src/permutation/bsgs.c\<close> and \<open>src/permutation/orbit.c\<close>. The base is \<open>0, 1, ..., n-1\<close>.
  The chain's flat \<open>[level][point]\<close> arrays are one row per level; the entries of a row
  that \<open>valid\<close> does not mark are never read.
\<close>

section \<open>The stabilizer chain\<close>

record chain_row =
  valid :: "bool list"
  row_sign :: "int list"
  transversal :: "nat list list"
  row_queue :: "nat list"
  orbit_count :: nat

type_synonym phy_perm_chain = "chain_row list"

text \<open>
  The bytes \<open>phy_perm_chain_allocate\<close> asks for: \<open>valid\<close> and \<open>sign\<close> of \<open>n * n\<close> bytes, the
  transversals of \<open>n * n * n\<close> 16-bit entries, the counts, the queue and six work rows.
\<close>

definition chain_fixed_bytes :: "nat \<Rightarrow> nat option" where
  "chain_fixed_bytes n =
     (if SIZE_MAX div n < n then None
      else let n2 = n * n in
        if SIZE_MAX div n < n2 then None
        else let n3 = n2 * n in
          case add_bytes 0 n2 1 of None \<Rightarrow> None
          | Some o1 \<Rightarrow>
            (case add_bytes o1 n2 1 of None \<Rightarrow> None
             | Some o2 \<Rightarrow>
               (case add_bytes (align_up o2 2) n3 2 of None \<Rightarrow> None
                | Some o3 \<Rightarrow>
                  (case add_bytes (align_up o3 4) n 4 of None \<Rightarrow> None
                   | Some o4 \<Rightarrow> add_bytes (align_up o4 2) n 2))))"

definition chain_bytes :: "nat \<Rightarrow> nat option" where
  "chain_bytes n =
     fold (\<lambda>_ acc. case acc of None \<Rightarrow> None | Some offset \<Rightarrow> add_bytes offset n 2) [0..<6::nat]
       (chain_fixed_bytes n)"

definition zero_row :: "nat \<Rightarrow> chain_row" where
  "zero_row n = \<lparr>valid = replicate n False, row_sign = replicate n 0,
                 transversal = replicate n (replicate n 0), row_queue = [], orbit_count = 0\<rparr>"

definition phy_perm_chain_allocate ::
  "phy_perm_group \<Rightarrow> (nat \<Rightarrow> bool) \<Rightarrow> phy_status \<times> phy_perm_chain" where
  "phy_perm_chain_allocate grp alloc =
     (case chain_bytes (degree grp) of None \<Rightarrow> (PHY_ERR_MEMORY_LIMIT, [])
      | Some offset \<Rightarrow>
          if pmax_bytes (plimits grp) - persistent_bytes grp < offset then (PHY_ERR_MEMORY_LIMIT, [])
          else if \<not> alloc offset then (PHY_ERR_MEMORY_LIMIT, [])
          else (PHY_OK, replicate (degree grp) (zero_row (degree grp))))"

text \<open>
  One level of \<open>phy_perm_chain_build\<close>: the row starts with the base point marked and the
  identity as its representative.
\<close>

definition start_row :: "nat \<Rightarrow> nat \<Rightarrow> chain_row" where
  "start_row n base =
     (let z = zero_row n in
      \<lparr>valid = (valid z)[base := True], row_sign = (row_sign z)[base := 1],
       transversal = (transversal z)[base := snd (phy_permutation_identity n)],
       row_queue = [base], orbit_count = 0\<rparr>)"

text \<open>The body of the generator loop at one queued point.\<close>

definition visit_generator ::
  "phy_perm_group \<Rightarrow> nat \<Rightarrow> nat \<Rightarrow> nat \<Rightarrow> chain_row \<times> nat \<Rightarrow> phy_status \<times> chain_row \<times> nat" where
  "visit_generator grp level point generator st =
     (case st of (row, steps) \<Rightarrow>
      case strong grp ! generator of (permutation, sign, glevel) \<Rightarrow>
      if glevel < level then (PHY_OK, row, steps)
      else
        case phy_perm_step grp 1 steps of (status, steps') \<Rightarrow>
        if status \<noteq> PHY_OK then (status, row, steps')
        else
          let im = permutation ! point in
          if valid row ! im then (PHY_OK, row, steps')
          else (PHY_OK,
                row\<lparr>transversal := (transversal row)[im :=
                      phy_perm_compose_unchecked permutation (transversal row ! point) (degree grp)],
                    row_sign := (row_sign row)[im := sign * row_sign row ! point],
                    valid := (valid row)[im := True],
                    row_queue := row_queue row @ [im]\<rparr>,
                steps'))"

definition visit_point ::
  "phy_perm_group \<Rightarrow> nat \<Rightarrow> nat \<Rightarrow> chain_row \<times> nat \<Rightarrow> phy_status \<times> chain_row \<times> nat" where
  "visit_point grp level point = for_each [0..<length (strong grp)] (visit_generator grp level point)"

lemma phy_perm_step_ok:
  "phy_perm_step grp a u = (PHY_OK, u') \<Longrightarrow> u' = u + a \<and> (0 < a \<longrightarrow> u' \<le> pmax_steps (plimits grp))"
  by (auto simp: phy_perm_step_def split: if_splits)

text \<open>A visit either spends a step or leaves the row alone: the queue loop ends.\<close>

lemma visit_point_progress:
  assumes "visit_point grp level point (row, u) = (PHY_OK, row', u')"
  shows "u' \<le> max u (pmax_steps (plimits grp)) \<and> u \<le> u' \<and> (u' = u \<longrightarrow> row' = row)"
proof -
  let ?I = "\<lambda>k::nat. \<lambda>(r, v). v \<le> max u (pmax_steps (plimits grp)) \<and> u \<le> v \<and> (v = u \<longrightarrow> r = row)"
  have "outcome (visit_point grp level point (row, u)) (?I (length [0..<length (strong grp)])) (\<lambda>_ _. True)"
    unfolding visit_point_def
  proof (rule outcome_for_each)
    show "?I 0 (row, u)" by simp
    fix k s assume I: "?I k s"
    obtain r v where s: "s = (r, v)" by (cases s)
    obtain pm sg gl where g: "strong grp ! ([0..<length (strong grp)] ! k) = (pm, sg, gl)"
      by (cases "strong grp ! ([0..<length (strong grp)] ! k)")
    show "outcome (visit_generator grp level point ([0..<length (strong grp)] ! k) s) (?I (Suc k)) (\<lambda>_ _. True)"
      using I unfolding s visit_generator_def g
      by (auto simp: phy_perm_step_def Let_def)
  qed
  with assms show ?thesis by simp
qed

function queue_loop ::
  "phy_perm_group \<Rightarrow> nat \<Rightarrow> nat \<Rightarrow> chain_row \<times> nat \<Rightarrow> phy_status \<times> chain_row \<times> nat" where
  "queue_loop grp level head (row, steps) =
     (if head < length (row_queue row) then
        (case visit_point grp level (row_queue row ! head) (row, steps) of
           (status, row', steps') \<Rightarrow>
             if status = PHY_OK then queue_loop grp level (Suc head) (row', steps')
             else (status, row', steps'))
      else (PHY_OK, row, steps))"
  by pat_completeness auto
termination
proof (relation "measures [\<lambda>(grp, level, head, row, steps). pmax_steps (plimits grp) - steps,
    \<lambda>(grp, level, head, row, steps). length (row_queue row) - head]", goal_cases)
  case (2 grp level head row steps x y row' steps')
  then have v: "visit_point grp level (row_queue row ! head) (row, steps) = (PHY_OK, row', steps')"
    by simp
  from visit_point_progress [OF v] 2(1) show ?case
    by (cases "steps' = steps") auto
qed simp

declare queue_loop.simps [simp del]

definition build_level :: "phy_perm_group \<Rightarrow> nat \<Rightarrow> nat \<Rightarrow> phy_status \<times> chain_row \<times> nat" where
  "build_level grp level steps =
     (case queue_loop grp level 0 (start_row (degree grp) level, steps) of
        (status, row, steps') \<Rightarrow>
          (status, (if status = PHY_OK then row\<lparr>orbit_count := length (row_queue row)\<rparr> else row), steps'))"

definition phy_perm_chain_build :: "phy_perm_group \<Rightarrow> phy_perm_chain \<times> nat \<Rightarrow> phy_status \<times> phy_perm_chain \<times> nat" where
  "phy_perm_chain_build grp =
     for_each [0..<degree grp]
       (\<lambda>level st. case st of (chain, steps) \<Rightarrow>
          (case build_level grp level steps of
             (status, row, steps') \<Rightarrow> (status, chain[level := row], steps')))"

section \<open>Sifting\<close>

text \<open>
  \<open>phy_perm_sift\<close> as a recursion over the remaining levels; the state is the remainder, its
  sign and the step count. The loop leaves early at a point outside the level's orbit.
\<close>

fun sift_levels ::
  "phy_perm_group \<Rightarrow> phy_perm_chain \<Rightarrow> nat list \<Rightarrow> nat list \<times> int \<times> nat \<Rightarrow> phy_status \<times> nat list \<times> int \<times> nat" where
  "sift_levels grp chain [] st = (PHY_OK, st)"
| "sift_levels grp chain (level # levels) (remainder, sign, steps) =
     (let image_of_base = remainder ! level; row = chain ! level in
      if \<not> valid row ! image_of_base then (PHY_OK, remainder, sign, steps)
      else
        case phy_perm_step grp 2 steps of (status, steps') \<Rightarrow>
        if status \<noteq> PHY_OK then (status, remainder, sign, steps')
        else
          let n = degree grp;
              inverse = phy_perm_inverse_unchecked (transversal row ! image_of_base) n (replicate n 0)
          in sift_levels grp chain levels
               (phy_perm_compose_unchecked inverse remainder n,
                sign * row_sign row ! image_of_base, steps'))"

definition phy_perm_sift ::
  "phy_perm_group \<Rightarrow> phy_perm_chain \<Rightarrow> nat list \<Rightarrow> int \<Rightarrow> nat \<Rightarrow> nat \<Rightarrow> phy_status \<times> nat list \<times> int \<times> nat" where
  "phy_perm_sift grp chain img sign start_level steps =
     (if degree grp < start_level then (PHY_ERR_INVALID_ARGUMENT, img, sign, steps)
      else sift_levels grp chain [start_level..<degree grp] (img, sign, steps))"

section \<open>The construction\<close>

definition initialize_strong_generators :: "phy_perm_group \<Rightarrow> phy_status \<times> phy_perm_group" where
  "initialize_strong_generators grp =
     for_each (generators grp)
       (\<lambda>(img, sign) g. case phy_perm_add_strong g img sign of (status, g', _) \<Rightarrow> (status, g'))
       (grp\<lparr>strong := [], negative_identity := False\<rparr>)"

text \<open>
  One Schreier generator: \<open>t(y)^-1 s t(x)\<close> sifted from the next level and added. The group
  state and the \<open>changed\<close> flag are threaded through the three nested loops.
\<close>

definition schreier_body ::
  "phy_perm_chain \<Rightarrow> nat \<Rightarrow> nat \<Rightarrow> nat \<Rightarrow> phy_perm_group \<times> nat \<times> bool \<Rightarrow>
   phy_status \<times> phy_perm_group \<times> nat \<times> bool" where
  "schreier_body chain level point generator st =
     (case st of (grp, steps, out_changed) \<Rightarrow>
      case strong grp ! generator of (s, ssign, slevel) \<Rightarrow>
      if slevel < level then (PHY_OK, grp, steps, out_changed)
      else
        case phy_perm_step grp 4 steps of (status, steps1) \<Rightarrow>
        if status \<noteq> PHY_OK then (status, grp, steps1, out_changed)
        else
          let n = degree grp;
              row = chain ! level;
              tx = transversal row ! point;
              tx_sign = row_sign row ! point;
              y = s ! point;
              ty = transversal row ! y;
              ty_sign = row_sign row ! y;
              temp = phy_perm_compose_unchecked s tx n;
              inverse = phy_perm_inverse_unchecked ty n (replicate n 0);
              schreier = phy_perm_compose_unchecked inverse temp n;
              schreier_sign = ty_sign * ssign * tx_sign
          in case phy_perm_sift grp chain schreier schreier_sign (level + 1) steps1 of
               (status, remainder, remainder_sign, steps2) \<Rightarrow>
                 if status \<noteq> PHY_OK then (status, grp, steps2, out_changed)
                 else
                   case phy_perm_add_strong grp remainder remainder_sign of
                     (status, grp', changed) \<Rightarrow>
                       if status \<noteq> PHY_OK then (status, grp', steps2, out_changed)
                       else (PHY_OK, grp', steps2, out_changed \<or> changed))"

definition schreier_point ::
  "phy_perm_chain \<Rightarrow> nat \<Rightarrow> nat \<Rightarrow> nat \<Rightarrow> phy_perm_group \<times> nat \<times> bool \<Rightarrow>
   phy_status \<times> phy_perm_group \<times> nat \<times> bool" where
  "schreier_point chain strong_at_start level point st =
     (if \<not> valid (chain ! level) ! point then (PHY_OK, st)
      else for_each [0..<strong_at_start] (schreier_body chain level point) st)"

definition add_schreier_generators ::
  "phy_perm_chain \<Rightarrow> phy_perm_group \<times> nat \<Rightarrow> phy_status \<times> phy_perm_group \<times> nat \<times> bool" where
  "add_schreier_generators chain st =
     (case st of (grp, steps) \<Rightarrow>
      for_each [0..<degree grp]
        (\<lambda>level. for_each [0..<degree grp] (schreier_point chain (length (strong grp)) level))
        (grp, steps, False))"

definition compute_order :: "phy_perm_group \<Rightarrow> phy_perm_chain \<Rightarrow> phy_status \<times> phy_perm_group" where
  "compute_order grp chain =
     (case for_each [0..<degree grp]
        (\<lambda>level ord. let factor = orbit_count (chain ! level) in
           if factor \<noteq> 0 \<and> (2 ^ 64 - 1) div factor < ord then (PHY_ERR_OVERFLOW, ord)
           else (PHY_OK, ord * factor))
        (if negative_identity grp then 2 else 1) of
      (status, ord) \<Rightarrow> if status = PHY_OK then (PHY_OK, grp\<lparr>order := ord\<rparr>) else (status, grp))"


text \<open>
  The \<open>while (changed)\<close> loop. Every pass that changed something used up a free strong-generator
  slot or set the negative-identity flag, so the loop ends.
\<close>

definition slack :: "phy_perm_group \<Rightarrow> nat" where
  "slack grp = (max_strong_generators (plimits grp) - length (strong grp)) +
     (if negative_identity grp then 0 else 1)"

lemma add_strong_slack:
  assumes "phy_perm_add_strong grp img sign = (status, grp', changed)"
  shows "slack grp' \<le> slack grp \<and> (changed \<longrightarrow> slack grp' < slack grp) \<and>
    plimits grp' = plimits grp \<and> degree grp' = degree grp"
  using assms by (auto simp: phy_perm_add_strong_def slack_def split: if_splits option.splits)

lemma schreier_body_slack:
  assumes "schreier_body chain level point generator (grp, steps, ch) = (status, grp', steps', ch')"
  shows "slack grp' \<le> slack grp \<and> (ch' \<longrightarrow> ch \<or> slack grp' < slack grp) \<and>
    plimits grp' = plimits grp \<and> degree grp' = degree grp"
  using assms add_strong_slack
  by (auto simp: schreier_body_def Let_def split: prod.splits if_splits)

lemma for_each_slack:
  assumes "\<And>i g s c st g' s' c'. f i (g, s, c) = (st, g', s', c') \<Longrightarrow>
      slack g' \<le> slack g \<and> (c' \<longrightarrow> c \<or> slack g' < slack g) \<and> plimits g' = plimits g \<and> degree g' = degree g"
    and "for_each is f (grp, steps, ch) = (status, grp', steps', ch')"
  shows "slack grp' \<le> slack grp \<and> (ch' \<longrightarrow> ch \<or> slack grp' < slack grp) \<and>
    plimits grp' = plimits grp \<and> degree grp' = degree grp"
  using assms(2)
proof (induction "is" arbitrary: grp steps ch)
  case (Cons i "is")
  obtain st g s c where f: "f i (grp, steps, ch) = (st, g, s, c)" by (cases "f i (grp, steps, ch)")
  show ?case
  proof (cases "st = PHY_OK")
    case True
    then have "for_each is f (g, s, c) = (status, grp', steps', ch')" using Cons.prems f by simp
    from Cons.IH [OF this] assms(1) [OF f] show ?thesis by auto
  next
    case False
    then show ?thesis using Cons.prems f assms(1) [OF f] by simp
  qed
qed simp

lemma add_schreier_slack:
  assumes "add_schreier_generators chain (grp, steps) = (status, grp', steps', changed)"
  shows "slack grp' \<le> slack grp \<and> (changed \<longrightarrow> slack grp' < slack grp) \<and>
    plimits grp' = plimits grp \<and> degree grp' = degree grp"
proof -
  have point: "schreier_point chain k level point (g, s, c) = (st, g', s', c') \<Longrightarrow>
      slack g' \<le> slack g \<and> (c' \<longrightarrow> c \<or> slack g' < slack g) \<and> plimits g' = plimits g \<and> degree g' = degree g"
    for k level point g s c st g' s' c'
    unfolding schreier_point_def
    by (cases "valid (chain ! level) ! point") (simp, erule for_each_slack [OF schreier_body_slack, rotated], simp+)
  have "for_each [0..<degree grp] (\<lambda>level. for_each [0..<degree grp]
      (schreier_point chain (length (strong grp)) level)) (grp, steps, False) = (status, grp', steps', changed)"
    using assms by (simp add: add_schreier_generators_def)
  from for_each_slack [OF for_each_slack [OF point] this] show ?thesis by simp
qed

function build_loop ::
  "phy_perm_group \<Rightarrow> phy_perm_chain \<Rightarrow> nat \<Rightarrow> phy_status \<times> phy_perm_group \<times> phy_perm_chain \<times> nat" where
  "build_loop grp chain steps =
     (case phy_perm_chain_build grp (chain, steps) of
        (status, chain', steps1) \<Rightarrow>
          if status \<noteq> PHY_OK then (status, grp, chain', steps1)
          else
            (case add_schreier_generators chain' (grp, steps1) of
               (status, grp', steps2, changed) \<Rightarrow>
                 if status \<noteq> PHY_OK then (status, grp', chain', steps2)
                 else if changed then build_loop grp' chain' steps2
                 else (PHY_OK, grp', chain', steps2)))"
  by pat_completeness auto
termination
  by (relation "measure (\<lambda>(grp, chain, steps). slack grp)") (auto dest!: add_schreier_slack [OF sym])

declare build_loop.simps [simp del]

definition phy_perm_group_build_bsgs ::
  "phy_perm_group \<Rightarrow> (nat \<Rightarrow> bool) \<Rightarrow> phy_status \<times> phy_perm_group" where
  "phy_perm_group_build_bsgs grp alloc =
     (case initialize_strong_generators (grp\<lparr>built := False, order := 0\<rparr>) of
        (status, g0) \<Rightarrow>
          if status \<noteq> PHY_OK then (status, g0)
          else
            (case phy_perm_chain_allocate g0 alloc of
               (status, chain) \<Rightarrow>
                 if status \<noteq> PHY_OK then (status, g0)
                 else
                   (case build_loop g0 chain 0 of
                      (status, g1, chain1, steps1) \<Rightarrow>
                        if status \<noteq> PHY_OK then (status, g1)
                        else
                          (case phy_perm_chain_build g1 (chain1, steps1) of
                             (status, chain2, steps2) \<Rightarrow>
                               if status \<noteq> PHY_OK then (status, g1)
                               else
                                 (case compute_order g1 chain2 of
                                    (status, g2) \<Rightarrow>
                                      (status, if status = PHY_OK then g2\<lparr>built := True\<rparr> else g2))))))"

section \<open>Queries on a built group\<close>

text \<open>\<open>out_member\<close> is \<open>None\<close> while the function has not written it.\<close>

definition phy_perm_group_contains ::
  "phy_perm_group \<Rightarrow> nat list option \<Rightarrow> int \<Rightarrow> (nat \<Rightarrow> bool) \<Rightarrow> phy_status \<times> bool option" where
  "phy_perm_group_contains grp img sign alloc =
     (if \<not> built grp \<or> (sign \<noteq> - 1 \<and> sign \<noteq> 1) \<or> \<not> phy_permutation_valid img (degree grp)
      then (PHY_ERR_INVALID_ARGUMENT, None)
      else
        (case phy_perm_chain_allocate grp alloc of
           (status, chain) \<Rightarrow>
             if status \<noteq> PHY_OK then (status, Some False)
             else
               (case phy_perm_chain_build grp (chain, 0) of
                  (status, chain', steps) \<Rightarrow>
                    if status \<noteq> PHY_OK then (status, Some False)
                    else
                      (case phy_perm_sift grp chain' (the img) sign 0 steps of
                         (status, remainder, remainder_sign, steps') \<Rightarrow>
                           if status \<noteq> PHY_OK then (status, Some False)
                           else (PHY_OK,
                             Some (phy_perm_identity_image remainder (degree grp) \<and>
                                   (0 < remainder_sign \<or> negative_identity grp)))))))"

text \<open>The breadth-first loop of \<open>phy_perm_group_orbit\<close>: \<open>seen\<close> marks, queue, steps.\<close>

definition orbit_generator ::
  "phy_perm_group \<Rightarrow> nat \<Rightarrow> nat list \<times> int \<times> nat \<Rightarrow> bool list \<times> nat list \<times> nat \<Rightarrow>
   phy_status \<times> bool list \<times> nat list \<times> nat" where
  "orbit_generator grp current generator st =
     (case st of (seen, queue, steps) \<Rightarrow>
      case phy_perm_step grp 1 steps of (status, steps') \<Rightarrow>
      if status \<noteq> PHY_OK then (status, seen, queue, steps')
      else
        let im = fst generator ! current in
        if seen ! im then (PHY_OK, seen, queue, steps')
        else (PHY_OK, seen[im := True], queue @ [im], steps'))"

lemma orbit_visit_progress:
  assumes "for_each gens (orbit_generator grp current) (seen, queue, u) = (PHY_OK, seen', queue', u')"
  shows "u' \<le> max u (pmax_steps (plimits grp)) \<and> u \<le> u' \<and> (u' = u \<longrightarrow> queue' = queue)"
proof -
  let ?I = "\<lambda>k::nat. \<lambda>(s :: bool list, q, v). v \<le> max u (pmax_steps (plimits grp)) \<and> u \<le> v \<and> (v = u \<longrightarrow> q = queue)"
  have "outcome (for_each gens (orbit_generator grp current) (seen, queue, u)) (?I (length gens)) (\<lambda>_ _. True)"
  proof (rule outcome_for_each)
    show "?I 0 (seen, queue, u)" by simp
    fix k s assume I: "?I k s"
    obtain se q v where s: "s = (se, q, v)" by (cases s)
    show "outcome (orbit_generator grp current (gens ! k) s) (?I (Suc k)) (\<lambda>_ _. True)"
      using I unfolding s orbit_generator_def by (auto simp: phy_perm_step_def Let_def)
  qed
  with assms show ?thesis by simp
qed

function orbit_loop ::
  "phy_perm_group \<Rightarrow> nat \<Rightarrow> bool list \<times> nat list \<times> nat \<Rightarrow> phy_status \<times> bool list \<times> nat list \<times> nat" where
  "orbit_loop grp head (seen, queue, steps) =
     (if head < length queue then
        (case for_each (strong grp) (orbit_generator grp (queue ! head)) (seen, queue, steps) of
           (status, seen', queue', steps') \<Rightarrow>
             if status = PHY_OK then orbit_loop grp (Suc head) (seen', queue', steps')
             else (status, seen', queue', steps'))
      else (PHY_OK, seen, queue, steps))"
  by pat_completeness auto
termination
proof (relation "measures [\<lambda>(grp, head, seen, queue, steps). pmax_steps (plimits grp) - steps,
    \<lambda>(grp, head, seen, queue, steps). length queue - head]", goal_cases)
  case (2 grp head seen queue steps x y seen' z queue' steps')
  then have v: "for_each (strong grp) (orbit_generator grp (queue ! head)) (seen, queue, steps) =
      (PHY_OK, seen', queue', steps')" by simp
  from orbit_visit_progress [OF v] 2(1) show ?case
    by (cases "steps' = steps") auto
qed simp

declare orbit_loop.simps [simp del]

text \<open>The points written to \<open>out_points\<close> and \<open>*out_count\<close>; \<open>None\<close> for a \<open>NULL\<close> buffer.\<close>

definition phy_perm_group_orbit ::
  "phy_perm_group \<Rightarrow> nat \<Rightarrow> nat list option \<Rightarrow> nat \<Rightarrow> (nat \<Rightarrow> bool) \<Rightarrow>
   phy_status \<times> nat list option \<times> nat option" where
  "phy_perm_group_orbit grp point out_points capacity alloc =
     (if \<not> built grp \<or> degree grp \<le> point \<or> (capacity \<noteq> 0 \<and> out_points = None)
      then (PHY_ERR_INVALID_ARGUMENT, out_points, None)
      else
        let n = degree grp in
        if capacity < n then (PHY_ERR_TERM_LIMIT, out_points, Some 0)
        else
          let queue_offset = align_up (n * 1) 2 in
          if (SIZE_MAX - queue_offset) div 2 < n then (PHY_ERR_MEMORY_LIMIT, out_points, Some 0)
          else
            let bytes = queue_offset + n * 2 in
            if pmax_bytes (plimits grp) - persistent_bytes grp < bytes
            then (PHY_ERR_MEMORY_LIMIT, out_points, Some 0)
            else if \<not> alloc bytes then (PHY_ERR_MEMORY_LIMIT, out_points, Some 0)
            else
              (case orbit_loop grp 0 ((replicate n False)[point := True], [point], 0) of
                 (status, seen, queue, steps) \<Rightarrow>
                   if status = PHY_OK
                   then (PHY_OK, map_option (\<lambda>out. queue @ drop (length queue) out) out_points,
                         Some (length queue))
                   else (status, out_points, Some 0)))"

end
