(* ===== verification/BsgsCorrect.thy ===== *)
theory BsgsCorrect
  imports Bsgs
begin

text \<open>
  Correctness of the strong-generating-set construction: the rows the breadth-first loops
  leave are the orbits with representatives (one locale for both worklist loops), a final
  pass that changed nothing closes the stabilizer chain (Schreier's lemma), and with it the
  membership test, the order and the orbit query are exact for the group the caller's
  generators span.
\<close>

section \<open>The worklist loops\<close>

text \<open>
  The contract of a loop that visits a growing queue once: visiting a point may only append
  points of the finite universe and leaves all its successors in the queue.
\<close>

locale worklist =
  fixes universe :: nat
    and succs :: "nat \<Rightarrow> nat set"
    and queue :: "'s \<Rightarrow> nat list"
    and inv :: "'s \<Rightarrow> bool"
    and visit :: "nat \<Rightarrow> 's \<Rightarrow> phy_status \<times> 's"
    and loop :: "nat \<Rightarrow> 's \<Rightarrow> phy_status \<times> 's"
  assumes loop_eq: "loop head s =
      (if head < length (queue s)
       then case visit (queue s ! head) s of (status, s') \<Rightarrow>
              if status = PHY_OK then loop (Suc head) s' else (status, s')
       else (PHY_OK, s))"
    and bounded: "inv s \<Longrightarrow> distinct (queue s) \<and> set (queue s) \<subseteq> {..<universe}"
    and visited: "inv s \<Longrightarrow> x \<in> set (queue s) \<Longrightarrow> visit x s = (PHY_OK, s') \<Longrightarrow>
      inv s' \<and> (\<exists>new. queue s' = queue s @ new) \<and> succs x \<subseteq> set (queue s')"
begin

lemma queue_length: "inv s \<Longrightarrow> length (queue s) \<le> universe"
  using bounded [of s] by (metis card_lessThan card_mono distinct_card finite_lessThan)

lemma loop_closed:
  assumes "inv s" "\<forall>i < head. i < length (queue s) \<longrightarrow> succs (queue s ! i) \<subseteq> set (queue s)"
    and "loop head s = (PHY_OK, s')"
  shows "inv s' \<and> set (queue s) \<subseteq> set (queue s') \<and>
    (\<forall>x \<in> set (queue s'). succs x \<subseteq> set (queue s'))"
  using assms
proof (induction "universe - head" arbitrary: head s rule: less_induct)
  case less
  show ?case
  proof (cases "head < length (queue s)")
    case False
    then have "s' = s" using less.prems(3) loop_eq [of head s] by simp
    moreover have "succs x \<subseteq> set (queue s)" if "x \<in> set (queue s)" for x
      using that False less.prems(2) by (metis in_set_conv_nth linorder_not_less order_less_le_trans)
    ultimately show ?thesis using less.prems(1) by simp
  next
    case True
    obtain status r where v: "visit (queue s ! head) s = (status, r)" by fastforce
    then have ok: "status = PHY_OK" "loop (Suc head) r = (PHY_OK, s')"
      using less.prems(3) loop_eq [of head s] True by (auto split: if_splits)
    then obtain new where r: "inv r" "queue r = queue s @ new" "succs (queue s ! head) \<subseteq> set (queue r)"
      using visited [OF less.prems(1) nth_mem [OF True]] v by auto
    have "succs (queue r ! i) \<subseteq> set (queue r)" if "i < Suc head" for i
      using that True r less.prems(2) by (cases "i = head") (auto simp: nth_append less_Suc_eq subset_iff)
    moreover have "universe - Suc head < universe - head"
      using True queue_length [OF less.prems(1)] by simp
    ultimately show ?thesis using less.hyps [OF _ r(1) _ ok(2)] r(2) by auto
  qed
qed

end

text \<open>
  A worklist whose visits each cost at most \<open>cost\<close> from a meter: the loop succeeds when the
  limit covers one visit per point of the universe.
\<close>

locale metered_worklist = worklist +
  fixes meter :: "'s \<Rightarrow> nat" and cost :: nat and limit :: nat
  assumes paid: "inv s \<Longrightarrow> x \<in> set (queue s) \<Longrightarrow> meter s + cost \<le> limit \<Longrightarrow>
    \<exists>s'. visit x s = (PHY_OK, s') \<and> meter s' \<le> meter s + cost"
begin

lemma loop_succeeds:
  assumes "inv s" "meter s + (universe - head) * cost \<le> limit"
  shows "\<exists>s'. loop head s = (PHY_OK, s') \<and> meter s' \<le> meter s + (universe - head) * cost"
  using assms
proof (induction "universe - head" arbitrary: head s)
  case 0
  then have "loop head s = (PHY_OK, s)"
    using loop_eq [of head s] queue_length [of s] by simp
  then show ?case by simp
next
  case (Suc k)
  show ?case
  proof (cases "head < length (queue s)")
    case False
    then have "loop head s = (PHY_OK, s)" using loop_eq [of head s] by simp
    then show ?thesis by simp
  next
    case True
    have e: "universe - head = Suc (universe - Suc head)" using Suc.hyps(2) by arith
    then have k: "k = universe - Suc head" "(universe - head) * cost = cost + (universe - Suc head) * cost"
      using Suc.hyps(2) by simp_all
    from paid [OF Suc.prems(1) nth_mem [OF True]] Suc.prems(2) k(2)
    obtain r where r: "visit (queue s ! head) s = (PHY_OK, r)" "meter r \<le> meter s + cost" by auto
    then have "inv r" using visited [OF Suc.prems(1) nth_mem [OF True]] by blast
    from Suc.hyps(1) [OF k(1) this] r(2) Suc.prems(2) k(2)
    obtain s' where "loop (Suc head) r = (PHY_OK, s')" "meter s' \<le> meter r + (universe - Suc head) * cost"
      by auto
    then show ?thesis using r loop_eq [of head s] True k(2) by auto
  qed
qed

end

section \<open>Well-formed groups\<close>

definition wf_group :: "phy_perm_group \<Rightarrow> bool" where
  "wf_group grp \<longleftrightarrow> 0 < degree grp \<and> degree grp \<le> UINT16_MAX \<and>
     sperms (degree grp) (set (generators grp)) \<and> distinct (map fst (strong grp)) \<and>
     (\<forall>(p, s, l) \<in> set (strong grp).
        sperm (degree grp) (p, s) \<and> l = phy_perm_level p (degree grp) \<and> l < degree grp)"

definition level_gens :: "phy_perm_group \<Rightarrow> nat \<Rightarrow> sperm set" where
  "level_gens grp l = {(p, s) | p s k. (p, s, k) \<in> set (strong grp) \<and> l \<le> k}"

definition flag_gens :: "phy_perm_group \<Rightarrow> sperm set" where
  "flag_gens grp = (if negative_identity grp then {(idp (degree grp), - 1)} else {})"

text \<open>The group at a level of the chain, and the group of the caller's generators.\<close>

definition level_group :: "phy_perm_group \<Rightarrow> nat \<Rightarrow> sperm set" where
  "level_group grp l = grp_span (degree grp) (level_gens grp l \<union> flag_gens grp)"

definition target :: "phy_perm_group \<Rightarrow> sperm set" where
  "target grp = grp_span (degree grp) (set (generators grp))"

lemma wf_strong:
  "wf_group grp \<Longrightarrow> (p, s, l) \<in> set (strong grp) \<Longrightarrow>
    sperm (degree grp) (p, s) \<and> l = phy_perm_level p (degree grp) \<and> l < degree grp"
  by (auto simp: wf_group_def)

lemma sperms_level_gens: "wf_group grp \<Longrightarrow> sperms (degree grp) (level_gens grp l)"
  by (auto simp: sperms_def level_gens_def dest: wf_strong)

lemma sperms_flag_gens: "sperms (degree grp) (flag_gens grp)"
  by (simp add: sperms_def flag_gens_def sperm_def)

lemma sperms_Un: "sperms n (A \<union> B) \<longleftrightarrow> sperms n A \<and> sperms n B"
  by (auto simp: sperms_def)

lemma sperms_level: "wf_group grp \<Longrightarrow> sperms (degree grp) (level_gens grp l \<union> flag_gens grp)"
  by (simp add: sperms_Un sperms_level_gens sperms_flag_gens)

lemma level_gens_antimono: "k \<le> l \<Longrightarrow> level_gens grp l \<subseteq> level_gens grp k"
  unfolding level_gens_def by (blast intro: le_trans)

lemma level_group_antimono: "wf_group grp \<Longrightarrow> k \<le> l \<Longrightarrow> level_group grp l \<subseteq> level_group grp k"
  unfolding level_group_def by (rule span_mono [OF sperms_level]) (use level_gens_antimono in blast)+

lemma span_gens_level: "wf_group grp \<Longrightarrow> grp_span (degree grp) (level_gens grp l) \<subseteq> level_group grp l"
  unfolding level_group_def by (rule span_mono [OF sperms_level]) auto

lemma level_group_mul:
  "wf_group grp \<Longrightarrow> x \<in> level_group grp l \<Longrightarrow> y \<in> level_group grp l \<Longrightarrow>
    smul (degree grp) x y \<in> level_group grp l"
  unfolding level_group_def by (rule span_closed [OF _ sperms_level])

lemma level_group_inv:
  "wf_group grp \<Longrightarrow> x \<in> level_group grp l \<Longrightarrow> sinv (degree grp) x \<in> level_group grp l"
  unfolding level_group_def by (rule span_sinv [OF sperms_level])

lemma level_group_one [simp]: "sone (degree grp) \<in> level_group grp l"
  by (simp add: level_group_def grp_span.span_one)

lemma level_group_sperm: "wf_group grp \<Longrightarrow> x \<in> level_group grp l \<Longrightarrow> sperm (degree grp) x"
  unfolding level_group_def by (rule span_sperm [OF _ sperms_level])

lemma level_gen_fixes:
  assumes "wf_group grp" "x \<in> level_gens grp l \<union> flag_gens grp" "i < l" "i < degree grp"
  shows "act x i = i"
proof (cases "x \<in> level_gens grp l")
  case True
  then obtain p s k where "x = (p, s)" "(p, s, k) \<in> set (strong grp)" "l \<le> k"
    by (auto simp: level_gens_def)
  then show ?thesis using wf_strong [OF assms(1), of p s k] assms(3)
    by (simp add: perm_level_fixes [of i p "degree grp"])
next
  case False
  then show ?thesis using assms by (auto simp: flag_gens_def split: if_splits)
qed

lemma level_group_fixes:
  assumes "wf_group grp" "x \<in> level_group grp l" "i < l" "i < degree grp"
  shows "act x i = i"
  using assms(2) unfolding level_group_def
proof induction
  case span_one
  then show ?case using assms(4) by (rule act_sone)
next
  case (span_mul x y)
  then show ?case using level_gen_fixes [OF assms(1) span_mul(1) assms(3,4)] assms(4)
    by (simp add: act_smul)
qed

lemma flag_element: "negative_identity grp \<Longrightarrow> wf_group grp \<Longrightarrow> (idp (degree grp), - 1) \<in> level_group grp l"
  unfolding level_group_def by (rule span_base [OF sperms_level]) (simp_all add: flag_gens_def)

text \<open>The last group of the chain holds at most the signed identity.\<close>

lemma level_group_top:
  assumes "wf_group grp" "x \<in> level_group grp (degree grp)"
  shows "x = sone (degree grp) \<or> (negative_identity grp \<and> x = (idp (degree grp), - 1))"
proof -
  have "level_gens grp (degree grp) = {}"
    using wf_strong [OF assms(1)] by (fastforce simp: level_gens_def)
  then have "x \<in> grp_span (degree grp) (flag_gens grp)"
    using assms(2) by (simp add: level_group_def)
  then show ?thesis
    by induction (auto simp: flag_gens_def sone_def smul_def split: if_splits)
qed

section \<open>The rows of the chain\<close>

definition rep :: "chain_row \<Rightarrow> nat \<Rightarrow> sperm" where
  "rep row y = (transversal row ! y, row_sign row ! y)"

text \<open>What the queue loop maintains for a row of level \<open>l\<close>.\<close>

definition row_inv :: "phy_perm_group \<Rightarrow> nat \<Rightarrow> chain_row \<Rightarrow> bool" where
  "row_inv grp l row \<longleftrightarrow> (let n = degree grp in
     length (valid row) = n \<and> length (row_sign row) = n \<and> length (transversal row) = n \<and>
     distinct (row_queue row) \<and> (\<forall>y < n. valid row ! y \<longleftrightarrow> y \<in> set (row_queue row)) \<and>
     l \<in> set (row_queue row) \<and> rep row l = sone n \<and>
     (\<forall>y \<in> set (row_queue row). y < n \<and> rep row y \<in> grp_span n (level_gens grp l) \<and>
        act (rep row y) l = y))"

definition level_succs :: "phy_perm_group \<Rightarrow> nat \<Rightarrow> nat \<Rightarrow> nat set" where
  "level_succs grp l x = (\<lambda>g. act g x) ` level_gens grp l"

lemma start_row_inv:
  assumes "l < degree grp" "degree grp \<le> UINT16_MAX"
  shows "row_inv grp l (start_row (degree grp) l)"
proof -
  have "rep (start_row (degree grp) l) l = sone (degree grp)"
    using assms by (simp add: rep_def start_row_def zero_row_def sone_def phy_permutation_identity_def)
  moreover have "valid (start_row (degree grp) l) ! y \<longleftrightarrow> y = l" if "y < degree grp" for y
    using that assms(1) by (simp add: start_row_def zero_row_def nth_list_update)
  moreover have "row_queue (start_row (degree grp) l) = [l]"
    "length (valid (start_row (degree grp) l)) = degree grp"
    "length (row_sign (start_row (degree grp) l)) = degree grp"
    "length (transversal (start_row (degree grp) l)) = degree grp"
    by (simp_all add: start_row_def zero_row_def)
  ultimately show ?thesis using assms
    unfolding row_inv_def Let_def by (simp add: grp_span.span_one act_sone)
qed

text \<open>One generator: the invariant is kept, the queue grows at its end, the image is in it.\<close>

lemma visit_generator_inv:
  assumes "wf_group grp" "l < degree grp" "row_inv grp l row" "point \<in> set (row_queue row)"
    and "k < length (strong grp)"
    and "visit_generator grp l point k (row, u) = (PHY_OK, row', u')"
  shows "row_inv grp l row' \<and> (\<exists>new. row_queue row' = row_queue row @ new) \<and>
    (case strong grp ! k of (p, s, lv) \<Rightarrow> l \<le> lv \<longrightarrow> p ! point \<in> set (row_queue row'))"
proof -
  obtain p s lv where g: "strong grp ! k = (p, s, lv)" by (cases "strong grp ! k")
  then have mem: "(p, s, lv) \<in> set (strong grp)" using assms(5) by (metis nth_mem)
  let ?n = "degree grp" and ?im = "p ! point"
  have sp: "sperm ?n (p, s)" using wf_strong [OF assms(1) mem] by simp
  have pt: "point < ?n" "rep row point \<in> grp_span ?n (level_gens grp l)" "act (rep row point) l = point"
    using assms(3,4) by (auto simp: row_inv_def Let_def)
  then have im: "?im < ?n" using act_bound [OF sp] by simp
  consider "row' = row" "l \<le> lv \<longrightarrow> valid row ! ?im" | "l \<le> lv" "\<not> valid row ! ?im"
      "row' = row\<lparr>transversal := (transversal row)[?im := compose ?n p (transversal row ! point)],
         row_sign := (row_sign row)[?im := s * row_sign row ! point],
         valid := (valid row)[?im := True], row_queue := row_queue row @ [?im]\<rparr>"
    using assms(6) g by (auto simp: visit_generator_def Let_def split: prod.splits if_splits)
  then show ?thesis
  proof cases
    case 1
    then show ?thesis using assms(3) im g by (auto simp: row_inv_def Let_def)
  next
    case 2
    have new: "?im \<notin> set (row_queue row)" using 2(2) im assms(3) by (auto simp: row_inv_def Let_def)
    then have "?im \<noteq> l" using assms(3) by (auto simp: row_inv_def Let_def)
    have old: "rep row' y = rep row y" if "y \<noteq> ?im" for y
      using that by (simp add: rep_def 2(3))
    have "rep row' ?im = smul ?n (p, s) (rep row point)"
      using im assms(3) by (simp add: rep_def 2(3) smul_def row_inv_def Let_def)
    moreover have "(p, s) \<in> level_gens grp l" using mem 2(1) by (auto simp: level_gens_def)
    ultimately have r: "rep row' ?im \<in> grp_span ?n (level_gens grp l)" "act (rep row' ?im) l = ?im"
      using pt assms(2) by (simp_all add: grp_span.span_mul act_smul)
    have fields: "valid row' = (valid row)[?im := True]" "row_queue row' = row_queue row @ [?im]"
        "length (row_sign row') = length (row_sign row)"
        "length (transversal row') = length (transversal row)"
      by (simp_all add: 2(3))
    have "rep row' y = rep row y" if "y \<in> set (row_queue row)" for y
      using that new old by metis
    then have "row_inv grp l row'"
      using assms(3) new \<open>?im \<noteq> l\<close> im r old [of l] unfolding row_inv_def Let_def
      by (auto simp: fields nth_list_update)
    then show ?thesis using g by (simp add: fields)
  qed
qed

lemma visit_point_inv:
  assumes "wf_group grp" "l < degree grp" "row_inv grp l row" "point \<in> set (row_queue row)"
    and "visit_point grp l point (row, u) = (PHY_OK, row', u')"
  shows "row_inv grp l row' \<and> (\<exists>new. row_queue row' = row_queue row @ new) \<and>
    level_succs grp l point \<subseteq> set (row_queue row')"
proof -
  let ?I = "\<lambda>k. \<lambda>(r, v :: nat). row_inv grp l r \<and> (\<exists>new. row_queue r = row_queue row @ new) \<and>
      (\<forall>j < k. case strong grp ! j of (p, s, lv) \<Rightarrow> l \<le> lv \<longrightarrow> p ! point \<in> set (row_queue r))"
  have "outcome (visit_point grp l point (row, u)) (?I (length [0..<length (strong grp)])) (\<lambda>_ _. True)"
    unfolding visit_point_def
  proof (rule outcome_for_each)
    show "?I 0 (row, u)" using assms(3) by simp
    fix k st assume k: "k < length [0..<length (strong grp)]" and I: "?I k st"
    obtain r v where st: "st = (r, v)" by (cases st)
    from I obtain new where rq: "row_queue r = row_queue row @ new" by (auto simp: st)
    show "outcome (visit_generator grp l point ([0..<length (strong grp)] ! k) st) (?I (Suc k)) (\<lambda>_ _. True)"
    proof (rule outcomeI)
      fix s' assume eq: "visit_generator grp l point ([0..<length (strong grp)] ! k) st = (PHY_OK, s')"
      obtain r' v' where s': "s' = (r', v')" by (cases s')
      have pt: "point \<in> set (row_queue r)" and ri: "row_inv grp l r" using rq assms(4) I by (auto simp: st)
      from visit_generator_inv [OF assms(1,2) ri pt, of k v r' v'] eq k
      show "?I (Suc k) s'" using I by (fastforce simp: st s' less_Suc_eq split: prod.splits)
    qed simp
  qed
  then have *: "?I (length (strong grp)) (row', u')" using assms(5) by simp
  then have "level_succs grp l point \<subseteq> set (row_queue row')"
    by (fastforce simp: level_succs_def level_gens_def in_set_conv_nth)
  with * show ?thesis by simp
qed

interpretation level_list: worklist "degree grp" "level_succs grp l" "row_queue \<circ> fst"
    "\<lambda>(row, u). wf_group grp \<and> l < degree grp \<and> row_inv grp l row"
    "visit_point grp l" "queue_loop grp l"
  for grp l
proof (unfold_locales, goal_cases)
  case (1 head s)
  then show ?case by (cases s) (simp add: queue_loop.simps [of grp l head] split: prod.splits)
next
  case (2 s)
  then show ?case by (auto simp: row_inv_def Let_def)
next
  case (3 s x s')
  then show ?case using visit_point_inv [of grp l "fst s" x "snd s" "fst s'" "snd s'"] by auto
qed

text \<open>
  A finished row: exactly the orbit of the base point is marked and counted, and every marked
  point has a signed representative in the level's group.
\<close>

definition good_row :: "phy_perm_group \<Rightarrow> nat \<Rightarrow> chain_row \<Rightarrow> bool" where
  "good_row grp l row \<longleftrightarrow> (let n = degree grp; Y = orbit_of n (level_gens grp l) l in
     (\<forall>y < n. valid row ! y \<longleftrightarrow> y \<in> Y) \<and> orbit_count row = card Y \<and> rep row l = sone n \<and>
     (\<forall>y \<in> Y. y < n \<and> rep row y \<in> grp_span n (level_gens grp l) \<and> act (rep row y) l = y))"

definition good_chain :: "phy_perm_group \<Rightarrow> phy_perm_chain \<Rightarrow> bool" where
  "good_chain grp chain \<longleftrightarrow> (\<forall>l < degree grp. good_row grp l (chain ! l))"

lemma build_level_good:
  assumes "wf_group grp" "l < degree grp" "build_level grp l u = (PHY_OK, row, u')"
  shows "good_row grp l row"
proof -
  let ?n = "degree grp" and ?Y = "orbit_of (degree grp) (level_gens grp l) l"
  obtain r where q: "queue_loop grp l 0 (start_row ?n l, u) = (PHY_OK, r, u')"
      and row: "row = r\<lparr>orbit_count := length (row_queue r)\<rparr>"
    using assms(3) by (auto simp: build_level_def split: prod.splits if_splits)
  have "row_inv grp l (start_row ?n l)"
    using start_row_inv [OF assms(2)] assms(1) by (simp add: wf_group_def)
  then have ri: "row_inv grp l r"
    and cl: "\<forall>x \<in> set (row_queue r). level_succs grp l x \<subseteq> set (row_queue r)"
    using level_list.loop_closed [OF _ _ q] assms(1,2) by simp_all
  have "set (row_queue r) = ?Y"
  proof
    show "set (row_queue r) \<subseteq> ?Y"
      using ri unfolding row_inv_def Let_def orbit_of_def by (metis (mono_tags, lifting) mem_Collect_eq subsetI)
    show "?Y \<subseteq> set (row_queue r)"
      by (rule orbit_least [OF assms(2)]) (use ri cl in \<open>auto simp: row_inv_def Let_def level_succs_def\<close>)
  qed
  with ri show ?thesis
    by (auto simp: good_row_def row_inv_def Let_def row rep_def distinct_card [symmetric])
qed

lemma chain_build_good:
  assumes "wf_group grp" "length chain = degree grp"
    and "phy_perm_chain_build grp (chain, u) = (PHY_OK, chain', u')"
  shows "good_chain grp chain' \<and> length chain' = degree grp"
proof -
  let ?I = "\<lambda>k. \<lambda>(c :: phy_perm_chain, v :: nat). length c = degree grp \<and> (\<forall>l < k. good_row grp l (c ! l))"
  have "outcome (phy_perm_chain_build grp (chain, u)) (?I (length [0..<degree grp])) (\<lambda>_ _. True)"
    unfolding phy_perm_chain_build_def
  proof (rule outcome_for_each)
    show "?I 0 (chain, u)" using assms(2) by simp
    fix k st assume k: "k < length [0..<degree grp]" and I: "?I k st"
    obtain c v where st: "st = (c, v)" by (cases st)
    obtain status row v' where b: "build_level grp k v = (status, row, v')" by (cases "build_level grp k v")
    show "outcome (case st of (chain, steps) \<Rightarrow> case build_level grp ([0..<degree grp] ! k) steps of
        (status, row, steps') \<Rightarrow> (status, chain[[0..<degree grp] ! k := row], steps')) (?I (Suc k)) (\<lambda>_ _. True)"
      using I k b build_level_good [OF assms(1), of k v row v'] by (auto simp: st nth_list_update less_Suc_eq)
  qed
  with assms(3) show ?thesis by (simp add: good_chain_def)
qed

lemma good_rep:
  assumes "wf_group grp" "good_row grp l row" "y \<in> orbit_of (degree grp) (level_gens grp l) l"
  shows "rep row y \<in> grp_span (degree grp) (level_gens grp l)" "sperm (degree grp) (rep row y)"
    "act (rep row y) l = y"
proof -
  show r: "rep row y \<in> grp_span (degree grp) (level_gens grp l)" and "act (rep row y) l = y"
    using assms by (auto simp: good_row_def Let_def)
  show "sperm (degree grp) (rep row y)"
    using r sperms_level_gens [OF assms(1)] by (rule span_sperm)
qed

section \<open>Sifting\<close>

text \<open>
  A sift factors its argument: the quotient is in the level's group, and the remainder either
  is the identity image or moves some base point outside that point's orbit.
\<close>

lemma sift_factors:
  assumes "wf_group grp" "good_chain grp chain" "l \<le> degree grp"
    and "sperm (degree grp) (r, s)" "\<forall>i < l. r ! i = i"
    and "sift_levels grp chain [l..<degree grp] (r, s, u) = (PHY_OK, r', s', u')"
  shows "sperm (degree grp) (r', s') \<and>
    (\<exists>h \<in> grp_span (degree grp) (level_gens grp l). (r, s) = smul (degree grp) h (r', s')) \<and>
    (r' = idp (degree grp) \<or>
     (\<exists>k < degree grp. l \<le> k \<and> phy_perm_level r' (degree grp) = k \<and>
        r' ! k \<notin> orbit_of (degree grp) (level_gens grp k) k))"
  using assms(3-)
proof (induction "degree grp - l" arbitrary: l r s u)
  case 0
  then have l: "l = degree grp" by simp
  then have "r = idp (degree grp)"
    using "0.prems"(2,3) by (intro perm_eqI [of "degree grp"]) (simp_all add: sperm_def)
  then show ?case
    using 0 l grp_span.span_one [of "degree grp" "level_gens grp l"] by (force simp: sift_levels.simps)
next
  case (Suc m)
  let ?n = "degree grp" and ?y = "r ! l" and ?Y = "orbit_of (degree grp) (level_gens grp l) l"
  let ?row = "chain ! l"
  have l: "l < ?n" "[l..<?n] = l # [Suc l..<?n]" using Suc.hyps(2) by (simp_all add: upt_conv_Cons)
  then have row: "good_row grp l ?row" and y: "?y < ?n"
    using assms(2) Suc.prems(2) by (simp_all add: good_chain_def sperm_def)
  show ?case
  proof (cases "valid ?row ! ?y")
    case False
    then have out: "r' = r" "s' = s" using Suc.prems(4) l(2) by (simp_all add: Let_def)
    have "?y \<notin> ?Y" using False row y by (simp add: good_row_def Let_def)
    moreover have "l \<in> ?Y" using l(1) by (rule orbit_base)
    ultimately have "phy_perm_level r ?n = l"
      using perm_level_unique [OF l(1)] Suc.prems(3) by metis
    with \<open>?y \<notin> ?Y\<close> show ?thesis
      using Suc.prems(2) l(1) out grp_span.span_one [of ?n "level_gens grp l"] by (force simp: smul_sone)
  next
    case True
    then have yY: "?y \<in> ?Y" using row y by (simp add: good_row_def Let_def)
    note t = good_rep [OF assms(1) row yY]
    let ?t = "rep ?row ?y"
    define x where "x = smul ?n (sinv ?n ?t) (r, s)"
    have x: "sperm ?n x" using t(2) Suc.prems(2) by (simp add: x_def)
    have fx: "act x i = i" if "i < Suc l" for i
    proof (cases "i = l")
      case True
      then show ?thesis using t l(1) act_sinv [OF t(2) l(1)] by (simp add: x_def act_smul)
    next
      case False
      then have "i < l" "i < ?n" using that l(1) by simp_all
      moreover have "act ?t i = i"
        using level_group_fixes [OF assms(1)] t(1) span_gens_level [OF assms(1)] \<open>i < l\<close> \<open>i < ?n\<close> by blast
      ultimately show ?thesis
        using act_sinv [OF t(2) \<open>i < ?n\<close>] Suc.prems(3) by (simp add: x_def act_smul)
    qed
    obtain u1 where step: "sift_levels grp chain [Suc l..<?n] (fst x, snd x, u1) = (PHY_OK, r', s', u')"
      using Suc.prems(4) l(2) True
      by (auto simp: Let_def x_def smul_def sinv_def rep_def mult.commute split: prod.splits if_splits)
    have m: "m = ?n - Suc l" "Suc l \<le> ?n" using Suc.hyps(2) by simp_all
    from Suc.hyps(1) [OF m _ _ step] x fx
    obtain h where h: "sperm ?n (r', s')" "h \<in> grp_span ?n (level_gens grp (Suc l))" "x = smul ?n h (r', s')"
      and stop: "r' = idp ?n \<or> (\<exists>k < ?n. Suc l \<le> k \<and> phy_perm_level r' ?n = k \<and>
        r' ! k \<notin> orbit_of ?n (level_gens grp k) k)"
      by auto
    have hs: "h \<in> grp_span ?n (level_gens grp l)"
      using h(2) span_mono [OF sperms_level_gens [OF assms(1)] level_gens_antimono [of l "Suc l"]] by auto
    then have "smul ?n ?t h \<in> grp_span ?n (level_gens grp l)"
      using t(1) sperms_level_gens [OF assms(1)] by (intro span_closed)
    moreover have "(r, s) = smul ?n (smul ?n ?t h) (r', s')"
    proof -
      have "sperm ?n h" using hs sperms_level_gens [OF assms(1)] by (rule span_sperm)
      then have "smul ?n (smul ?n ?t h) (r', s') = smul ?n ?t x"
        using t(2) h(1) by (simp add: smul_assoc h(3))
      then show ?thesis using t(2) Suc.prems(2) by (simp add: x_def)
    qed
    ultimately show ?thesis using h(1) stop by (meson Suc_leD)
  qed
qed

section \<open>The closed chain\<close>

text \<open>
  The chain is closed when each level's point stabilizer is the next level's group. Then
  sifting decides membership and the orbit sizes multiply to the order.
\<close>

definition closed_chain :: "phy_perm_group \<Rightarrow> bool" where
  "closed_chain grp \<longleftrightarrow>
     (\<forall>l < degree grp. \<forall>h \<in> level_group grp l. act h l = l \<longrightarrow> h \<in> level_group grp (Suc l))"

lemma orbit_flag:
  assumes "wf_group grp" "b < degree grp"
  shows "orbit_of (degree grp) (level_gens grp l \<union> flag_gens grp) b = orbit_of (degree grp) (level_gens grp l) b"
    (is "?A = ?B")
proof
  show "?B \<subseteq> ?A"
    unfolding orbit_of_def using span_mono [OF sperms_level [OF assms(1), of l], of "level_gens grp l"] by blast
  show "?A \<subseteq> ?B"
  proof (rule orbit_least [OF assms(2) orbit_base [OF assms(2)]])
    fix y x assume y: "y \<in> ?B" and x: "x \<in> level_gens grp l \<union> flag_gens grp"
    have "y < degree grp"
      using y act_bound [OF span_sperm [OF _ sperms_level_gens [OF assms(1)]] assms(2)]
      by (auto simp: orbit_of_def)
    then have "x \<in> flag_gens grp \<Longrightarrow> act x y = y"
      by (auto simp: flag_gens_def split: if_splits)
    then show "act x y \<in> ?B"
      using x y orbit_step [OF sperms_level_gens [OF assms(1)] assms(2) y, of x] by (metis UnE)
  qed
qed

lemma level_act_orbit_of:
  "wf_group grp \<Longrightarrow> b < degree grp \<Longrightarrow> h \<in> level_group grp l \<Longrightarrow>
    act h b \<in> orbit_of (degree grp) (level_gens grp l) b"
  unfolding level_group_def by (subst orbit_flag [symmetric]) (unfold orbit_of_def, blast+)

lemmas level_act_orbit = level_act_orbit_of [where b = l and l = l for l]

text \<open>What one Schreier generator of the pass has to satisfy.\<close>

definition schreier_done :: "phy_perm_group \<Rightarrow> phy_perm_chain \<Rightarrow> nat \<Rightarrow> nat \<Rightarrow> nat \<Rightarrow> bool" where
  "schreier_done grp chain l y k \<longleftrightarrow>
     (case strong grp ! k of (p, s, lv) \<Rightarrow>
        l \<le> lv \<longrightarrow> y \<in> orbit_of (degree grp) (level_gens grp l) l \<longrightarrow>
        smul (degree grp) (sinv (degree grp) (rep (chain ! l) (p ! y)))
          (smul (degree grp) (p, s) (rep (chain ! l) y)) \<in> level_group grp (Suc l))"

lemma closed_chainI:
  assumes wf: "wf_group grp" and good: "good_chain grp chain"
    and all: "\<And>l y k. l < degree grp \<Longrightarrow> y < degree grp \<Longrightarrow> k < length (strong grp) \<Longrightarrow> schreier_done grp chain l y k"
  shows "closed_chain grp"
  unfolding closed_chain_def
proof (intro allI impI ballI)
  fix l h assume l: "l < degree grp" and h: "h \<in> level_group grp l" and fix_l: "act h l = l"
  let ?n = "degree grp" and ?S = "level_gens grp l \<union> flag_gens grp" and ?t = "rep (chain ! l)"
  note orbit = orbit_flag [OF wf l, of l]
  have row: "good_row grp l (chain ! l)" using good l by (simp add: good_chain_def)
  then have tl: "?t l = sone ?n" by (simp add: good_row_def Let_def)
  have t: "sperm ?n (?t y) \<and> act (?t y) l = y" if "y \<in> orbit_of ?n ?S l" for y
    using good_rep [OF wf row] that by (simp add: orbit)
  have gen: "smul ?n (sinv ?n (?t (act x y))) (smul ?n x (?t y)) \<in> level_group grp (Suc l)"
    if x: "x \<in> ?S" and y: "y \<in> orbit_of ?n ?S l" for x y
  proof (cases "x \<in> level_gens grp l")
    case True
    then obtain p s lv k where k: "x = (p, s)" "strong grp ! k = (p, s, lv)" "l \<le> lv" "k < length (strong grp)"
      by (auto simp: level_gens_def in_set_conv_nth)
    have "y < ?n" using row y by (simp add: orbit good_row_def Let_def)
    with all [OF l this k(4)] show ?thesis using k y by (simp add: schreier_done_def orbit)
  next
    case False
    then have z: "negative_identity grp" "x = (idp ?n, - 1)" using x by (auto simp: flag_gens_def split: if_splits)
    have y': "y < ?n" using row y by (simp add: orbit good_row_def Let_def)
    have ty: "sperm ?n (?t y)" using t y by simp
    then have "smul ?n (sinv ?n (?t y)) (smul ?n x (?t y)) = (idp ?n, - (snd (?t y) * snd (?t y)))"
      by (auto simp: z smul_def sinv_def sperm_def)
    moreover have "snd (?t y) * snd (?t y) = 1" using ty by (auto simp: sperm_def)
    ultimately show ?thesis using flag_element [OF z(1) wf] z(2) y' by simp
  qed
  have "smul ?n (sinv ?n (?t (act h l))) h \<in> level_group grp (Suc l)"
    by (rule schreier [OF sperms_level [OF wf] l t tl level_group_one level_group_mul [OF wf] gen
        h [unfolded level_group_def]])
  then show "h \<in> level_group grp (Suc l)"
    using level_group_sperm [OF wf h] by (simp add: fix_l tl)
qed

text \<open>Sifting an element of the whole group through a closed chain ends at the identity.\<close>

lemma sift_member:
  assumes wf: "wf_group grp" and good: "good_chain grp chain" and cl: "closed_chain grp"
    and "x \<in> level_group grp 0" "sift_levels grp chain [0..<degree grp] (fst x, snd x, u) = (PHY_OK, r', s', u')"
  shows "(r', s') = sone (degree grp) \<or> (negative_identity grp \<and> (r', s') = (idp (degree grp), - 1))"
proof -
  let ?n = "degree grp"
  have x: "sperm ?n (fst x, snd x)" using level_group_sperm [OF wf assms(4)] by simp
  from sift_factors [OF wf good _ x _ assms(5)] obtain h where r: "sperm ?n (r', s')"
    and h: "h \<in> grp_span ?n (level_gens grp 0)" "x = smul ?n h (r', s')"
    and stop: "r' = idp ?n \<or> (\<exists>k < ?n. phy_perm_level r' ?n = k \<and>
      r' ! k \<notin> orbit_of ?n (level_gens grp k) k)"
    by auto
  have hg: "h \<in> level_group grp 0" using h(1) span_gens_level [OF wf] by blast
  have "(r', s') = smul ?n (sinv ?n h) x"
    using h(2) r level_group_sperm [OF wf hg] by simp
  then have r0: "(r', s') \<in> level_group grp 0"
    using level_group_mul [OF wf level_group_inv [OF wf hg] assms(4)] by simp
  have up: "k \<le> phy_perm_level r' ?n \<longrightarrow> (r', s') \<in> level_group grp k" for k
  proof (induction k)
    case (Suc k)
    show ?case
    proof
      assume k: "Suc k \<le> phy_perm_level r' ?n"
      then have "k < ?n" "act (r', s') k = k"
        using perm_level_le [of r' ?n] perm_level_fixes [of k r' ?n] by simp_all
      then show "(r', s') \<in> level_group grp (Suc k)"
        using Suc k cl unfolding closed_chain_def by force
    qed
  qed (simp add: r0)
  show ?thesis
  proof (cases "r' = idp ?n")
    case True
    then have "phy_perm_level r' ?n = ?n"
      using identity_image_iff [of ?n r'] by (simp add: phy_perm_identity_image_def)
    then show ?thesis using up [of ?n] level_group_top [OF wf, of "(r', s')"] by auto
  next
    case False
    then obtain k where k: "k < ?n" "phy_perm_level r' ?n = k" "r' ! k \<notin> orbit_of ?n (level_gens grp k) k"
      using stop by blast
    then show ?thesis using level_act_orbit [OF wf k(1), of "(r', s')"] up by simp
  qed
qed

text \<open>Lagrange at one level of a closed chain.\<close>

lemma card_level:
  assumes wf: "wf_group grp" and cl: "closed_chain grp" and row: "good_row grp l row" and l: "l < degree grp"
  shows "card (level_group grp l) =
    card (orbit_of (degree grp) (level_gens grp l) l) * card (level_group grp (Suc l))"
proof -
  let ?n = "degree grp" and ?Y = "orbit_of (degree grp) (level_gens grp l) l" and ?t = "rep row"
  let ?f = "\<lambda>(y, h). smul ?n (?t y) h"
  note t = good_rep [OF wf row]
  have tg: "?t y \<in> level_group grp l" if "y \<in> ?Y" for y
    using t(1) [OF that] span_gens_level [OF wf] by blast
  have sub: "level_group grp (Suc l) \<subseteq> level_group grp l" by (rule level_group_antimono [OF wf]) simp
  have at_l: "act (smul ?n (?t y) h) l = y" if "y \<in> ?Y" "h \<in> level_group grp (Suc l)" for y h
    using t(3) [OF that(1)] level_group_fixes [OF wf that(2), of l] l by (simp add: act_smul)
  have "inj_on ?f (?Y \<times> level_group grp (Suc l))"
  proof (rule inj_onI)
    fix a b assume ab: "a \<in> ?Y \<times> level_group grp (Suc l)" "b \<in> ?Y \<times> level_group grp (Suc l)" "?f a = ?f b"
    obtain y h y' h' where e: "a = (y, h)" "b = (y', h')" by (cases a, cases b)
    have eq: "smul ?n (?t y) h = smul ?n (?t y') h'" using ab(3) e by simp
    have "y = y'" using at_l [of y h] at_l [of y' h'] ab(1,2) e eq by simp
    moreover have "h = h'"
    proof -
      have "sperm ?n h" "sperm ?n h'" using ab(1,2) e by (auto intro: level_group_sperm [OF wf])
      then show ?thesis using smul_cancel_left [of ?n "?t y" h h'] eq ab(1) e t(2) \<open>y = y'\<close> by simp
    qed
    ultimately show "a = b" using e by simp
  qed
  moreover have "?f ` (?Y \<times> level_group grp (Suc l)) = level_group grp l"
  proof
    show "?f ` (?Y \<times> level_group grp (Suc l)) \<subseteq> level_group grp l"
      using level_group_mul [OF wf tg] sub by auto
    show "level_group grp l \<subseteq> ?f ` (?Y \<times> level_group grp (Suc l))"
    proof
      fix x assume x: "x \<in> level_group grp l"
      let ?y = "act x l"
      have y: "?y \<in> ?Y" by (rule level_act_orbit [OF wf l x])
      let ?h = "smul ?n (sinv ?n (?t ?y)) x"
      have "?h \<in> level_group grp l" using level_group_mul [OF wf level_group_inv [OF wf tg [OF y]] x] .
      moreover have "act ?h l = l" using act_sinv [OF t(2) [OF y] l] t(3) [OF y] l by (simp add: act_smul)
      ultimately have "?h \<in> level_group grp (Suc l)" using cl l by (simp add: closed_chain_def)
      moreover have "x = ?f (?y, ?h)" using t(2) [OF y] level_group_sperm [OF wf x] by simp
      ultimately show "x \<in> ?f ` (?Y \<times> level_group grp (Suc l))" using y by blast
    qed
  qed
  ultimately show ?thesis using card_image [of ?f "?Y \<times> level_group grp (Suc l)"] by (simp add: card_cartesian_product)
qed

text \<open>The order of the whole group, level by level.\<close>

lemma card_top: "wf_group grp \<Longrightarrow> card (level_group grp (degree grp)) = (if negative_identity grp then 2 else 1)"
proof -
  assume wf: "wf_group grp"
  have "level_group grp (degree grp) =
      (if negative_identity grp then {sone (degree grp), (idp (degree grp), - 1)} else {sone (degree grp)})"
    using level_group_top [OF wf] flag_element [OF _ wf] level_group_one by (auto split: if_splits)
  then show ?thesis by (simp add: sone_def)
qed

lemma card_chain:
  assumes wf: "wf_group grp" and cl: "closed_chain grp" and good: "good_chain grp chain" and "k \<le> degree grp"
  shows "card (level_group grp (degree grp - k)) =
    (\<Prod>l \<in> {degree grp - k..<degree grp}. orbit_count (chain ! l)) * (if negative_identity grp then 2 else 1)"
  using assms(4)
proof (induction k)
  case 0
  then show ?case using card_top [OF wf] by simp
next
  case (Suc k)
  let ?l = "degree grp - Suc k"
  have l: "?l < degree grp" "Suc ?l = degree grp - k" using Suc.prems by simp_all
  then have row: "good_row grp ?l (chain ! ?l)" using good by (simp add: good_chain_def)
  then have "orbit_count (chain ! ?l) = card (orbit_of (degree grp) (level_gens grp ?l) ?l)"
    by (simp add: good_row_def Let_def)
  moreover have "{?l..<degree grp} = insert ?l {degree grp - k..<degree grp}" using l by auto
  moreover have "?l \<notin> {degree grp - k..<degree grp}" using l by simp
  ultimately show ?case
    using card_level [OF wf cl row l(1)] Suc by (simp add: l(2))
qed

section \<open>The construction\<close>

text \<open>
  \<open>grows g0 g\<close>: \<open>g\<close> is \<open>g0\<close> after some additions. The generators and limits are unchanged, the
  strong generators extend those of \<open>g0\<close>, and everything added lies in the target group.
\<close>

definition sound :: "phy_perm_group \<Rightarrow> bool" where
  "sound grp \<longleftrightarrow> level_gens grp 0 \<union> flag_gens grp \<subseteq> target grp"

definition grows :: "phy_perm_group \<Rightarrow> phy_perm_group \<Rightarrow> bool" where
  "grows g0 g \<longleftrightarrow> wf_group g \<and> sound g \<and> degree g = degree g0 \<and> plimits g = plimits g0 \<and>
     generators g = generators g0 \<and> persistent_bytes g = persistent_bytes g0 \<and>
     storage_bytes g = storage_bytes g0 \<and> built g = built g0 \<and>
     (\<exists>new. strong g = strong g0 @ new) \<and> (negative_identity g0 \<longrightarrow> negative_identity g) \<and>
     (length (strong g0) \<le> max_strong_generators (plimits g0) \<longrightarrow>
      length (strong g) \<le> max_strong_generators (plimits g0))"

lemma grows_refl: "wf_group g \<Longrightarrow> sound g \<Longrightarrow> grows g g"
  by (simp add: grows_def)

lemma grows_trans: "grows g0 g1 \<Longrightarrow> grows g1 g2 \<Longrightarrow> grows g0 g2"
  by (auto simp: grows_def)

lemma sperms_target: "wf_group g \<Longrightarrow> sperms (degree g) (set (generators g))"
  by (simp add: wf_group_def)

lemma level_group_sound: "wf_group g \<Longrightarrow> sound g \<Longrightarrow> level_group g 0 \<subseteq> target g"
  unfolding level_group_def target_def
  by (rule span_least [OF sperms_target]) (simp_all add: sound_def target_def)

lemma grows_level_group:
  assumes "grows g0 g"
  shows "level_group g0 l \<subseteq> level_group g l"
  unfolding level_group_def
proof -
  have "level_gens g0 l \<union> flag_gens g0 \<subseteq> level_gens g l \<union> flag_gens g"
    using assms by (auto simp: grows_def level_gens_def flag_gens_def)
  moreover have "degree g0 = degree g" "wf_group g" using assms by (simp_all add: grows_def)
  ultimately show "grp_span (degree g0) (level_gens g0 l \<union> flag_gens g0) \<subseteq>
      grp_span (degree g) (level_gens g l \<union> flag_gens g)"
    using span_mono [OF sperms_level [of g l]] by simp
qed

lemma in_level_group:
  "wf_group g \<Longrightarrow> (p, s, l) \<in> set (strong g) \<Longrightarrow> k \<le> l \<Longrightarrow> (p, s) \<in> level_group g k"
  unfolding level_group_def by (rule span_base [OF sperms_level]) (auto simp: level_gens_def)

text \<open>
  Two strong generators of the same image and opposite signs make the signed identity.
\<close>

lemma opposite_signs:
  assumes "sperms n S" "(p, s) \<in> grp_span n S" "(p, s') \<in> grp_span n S" "s \<noteq> s'"
  shows "(idp n, - 1) \<in> grp_span n S"
proof -
  have ps: "sperm n (p, s)" "sperm n (p, s')" using span_sperm [OF _ assms(1)] assms(2,3) by blast+
  then have "smul n (sinv n (p, s)) (p, s') = (idp n, - 1)"
    using assms(4) by (auto simp: smul_def sinv_def sperm_def)
  moreover have "smul n (sinv n (p, s)) (p, s') \<in> grp_span n S"
    using span_closed [OF span_sinv [OF assms(1,2)] assms(1,3)] .
  ultimately show ?thesis by simp
qed

lemma flip_sign:
  assumes "wf_group g" "(p, s) \<in> level_group g l" "negative_identity g" "s' = s \<or> s' = - s"
  shows "(p, s') \<in> level_group g l"
proof (cases "s' = s")
  case False
  have "smul (degree g) (idp (degree g), - 1) (p, s) = (p, - s)"
    using level_group_sperm [OF assms(1,2)] by (simp add: smul_def sperm_def)
  then show ?thesis
    using level_group_mul [OF assms(1) flag_element [OF assms(3,1)] assms(2)] False assms(4) by simp
qed (use assms(2) in simp)

text \<open>
  Adding an element of the target group keeps the group sound; a report of no change means
  the group is untouched and already holds the element.
\<close>

lemma add_strong_grows:
  assumes wf: "wf_group g" and snd: "sound g" and x: "(p, s) \<in> target g"
    and "phy_perm_add_strong g p s = (st, g', ch)"
  shows "grows g g' \<and> (st = PHY_OK \<longrightarrow> (p, s) \<in> level_group g' (phy_perm_level p (degree g))) \<and>
    (\<not> ch \<longrightarrow> g' = g)"
proof -
  let ?n = "degree g" and ?l = "phy_perm_level p (degree g)"
  have sp: "sperm ?n (p, s)" using span_sperm [OF _ sperms_target [OF wf]] x by (simp add: target_def)
  have pos: "s = 1 \<or> s = - 1" using sp by (simp add: sperm_def)
  let ?g = "g\<lparr>negative_identity := True\<rparr>"
  have flag: "grows g ?g" if "(idp ?n, - 1) \<in> target g"
    using wf snd that
    by (auto simp: grows_def wf_group_def sound_def target_def level_gens_def flag_gens_def)
  consider (ident) "p = idp ?n" | (known) q s0 l where "p \<noteq> idp ?n" "find (\<lambda>(im, s, l). im = p) (strong g) = Some (q, s0, l)"
    | (new) "p \<noteq> idp ?n" "find (\<lambda>(im, s, l). im = p) (strong g) = None"
    by (metis not_None_eq prod_cases3)
  then show ?thesis
  proof cases
    case ident
    then have "?l = ?n" "phy_perm_identity_image p ?n"
      using identity_image_iff [of ?n p] by (simp_all add: phy_perm_identity_image_def)
    moreover have "(p, s) \<in> level_group h ?n" if "degree h = ?n" "wf_group h" "s = 1 \<or> negative_identity h" for h
      using that ident pos flag_element [of h ?n] level_group_one [of h ?n] by (auto simp: sone_def)
    ultimately show ?thesis
      using assms(4) ident x pos flag grows_refl [OF wf snd] wf
      by (fastforce simp: phy_perm_add_strong_def grows_def split: if_splits)
  next
    case known
    then have mem: "(p, s0, l) \<in> set (strong g)" by (auto simp: find_Some_iff in_set_conv_nth)
    have "l = ?l" "s0 = 1 \<or> s0 = - 1" using wf_strong [OF wf mem] by (auto simp: sperm_def)
    have not_id: "\<not> phy_perm_identity_image p ?n"
      using known(1) sp identity_image_iff [of ?n p] by (simp add: sperm_def)
    have p0: "(p, s0) \<in> level_group g ?l" using in_level_group [OF wf mem, of ?l] \<open>l = ?l\<close> by simp
    have "(p, s0) \<in> target g" using snd mem by (auto simp: sound_def level_gens_def)
    then have neg: "s \<noteq> s0 \<Longrightarrow> (idp ?n, - 1) \<in> target g"
      using opposite_signs [OF sperms_target [OF wf], of p s s0] x by (simp add: target_def)
    have fl: "(p, s) \<in> level_group h ?l" if "grows g h" "negative_identity h" for h
    proof -
      have "(p, s0) \<in> level_group h ?l" using grows_level_group [OF that(1)] p0 by blast
      then show ?thesis using flip_sign [of h p s0 ?l s] that pos \<open>s0 = 1 \<or> s0 = - 1\<close> by (auto simp: grows_def)
    qed
    have q: "q = p" using known(2) by (auto simp: find_Some_iff)
    show ?thesis
    proof (cases "s0 \<noteq> s \<and> \<not> negative_identity g")
      case True
      then have "g' = ?g \<and> ch \<and> grows g ?g"
        using assms(4) known not_id flag neg by (auto simp: phy_perm_add_strong_def)
      then show ?thesis using fl by auto
    next
      case False
      then have "g' = g" using assms(4) known not_id by (auto simp: phy_perm_add_strong_def)
      then show ?thesis using False p0 fl grows_refl [OF wf snd] by auto
    qed
  next
    case new
    then have not_id: "\<not> phy_perm_identity_image p ?n"
      using sp identity_image_iff [of ?n p] by (simp add: sperm_def)
    let ?h = "g\<lparr>strong := strong g @ [(p, s, ?l)]\<rparr>"
    have "?l < ?n" using not_id perm_level_le [of p ?n] by (simp add: phy_perm_identity_image_def)
    moreover have "p \<notin> fst ` set (strong g)" using new(2) by (auto simp: find_None_iff)
    ultimately have gh: "grows g ?h" if "length (strong g) < max_strong_generators (plimits g)"
      using that wf snd sp x by (auto simp: grows_def wf_group_def sound_def target_def level_gens_def flag_gens_def)
    moreover have "wf_group ?h" using wf sp \<open>?l < ?n\<close> \<open>p \<notin> fst ` set (strong g)\<close> by (simp add: wf_group_def)
    then have "(p, s) \<in> level_group ?h ?l" by (rule in_level_group [of _ _ _ ?l]) simp_all
    ultimately show ?thesis
      using assms(4) new not_id grows_refl [OF wf snd]
      by (auto simp: phy_perm_add_strong_def split: if_splits)
  qed
qed

lemma initialize_grows:
  assumes "wf_group g"
  defines "g0 \<equiv> g\<lparr>strong := [], negative_identity := False\<rparr>"
  assumes "initialize_strong_generators g = (st, g')"
  shows "grows g0 g' \<and> (st = PHY_OK \<longrightarrow> set (generators g') \<subseteq> level_group g' 0)"
proof -
  have g0: "wf_group g0" "sound g0" "generators g0 = generators g"
    using assms(1) by (simp_all add: g0_def wf_group_def sound_def level_gens_def flag_gens_def)
  let ?f = "\<lambda>(img, sign) g. case phy_perm_add_strong g img sign of (status, g', _) \<Rightarrow> (status, g')"
  have "outcome (for_each (generators g) ?f g0)
      ((\<lambda>k h. grows g0 h \<and> (\<forall>j < k. generators g ! j \<in> level_group h 0)) (length (generators g)))
      (\<lambda>_ h. grows g0 h)"
  proof (rule outcome_for_each)
    show "grows g0 g0 \<and> (\<forall>j < 0. generators g ! j \<in> level_group g0 0)"
      using grows_refl g0 by simp
    fix k h assume k: "k < length (generators g)" and I: "grows g0 h \<and> (\<forall>j < k. generators g ! j \<in> level_group h 0)"
    obtain p s where x: "generators g ! k = (p, s)" by fastforce
    obtain st h' ch where a: "phy_perm_add_strong h p s = (st, h', ch)" by (cases "phy_perm_add_strong h p s")
    have h: "wf_group h" "sound h" "generators h = generators g" using I g0(3) by (simp_all add: grows_def)
    have "(p, s) \<in> target h"
      unfolding target_def using x k h(3) by (intro span_base [OF sperms_target [OF h(1)]]) (metis nth_mem)
    note add = add_strong_grows [OF h(1,2) this a]
    then have "st = PHY_OK \<Longrightarrow> (p, s) \<in> level_group h' 0"
      using level_group_antimono [of h' 0] by (auto simp: grows_def)
    moreover have "generators g ! j \<in> level_group h' 0" if "j < k" for j
      using I that add grows_level_group [of h h' 0] by blast
    ultimately show "outcome (?f (generators g ! k) h)
        ((\<lambda>k h. grows g0 h \<and> (\<forall>j < k. generators g ! j \<in> level_group h 0)) (Suc k)) (\<lambda>_ h. grows g0 h)"
      using add I grows_trans [of g0 h h'] x by (auto simp: a less_Suc_eq)
  qed
  moreover have "for_each (generators g) ?f g0 = (st, g')"
    using assms(3) by (simp add: initialize_strong_generators_def g0_def)
  ultimately show ?thesis
    using g0(3) by (auto simp: all_set_conv_all_nth subset_iff grows_def in_set_conv_nth split: if_splits)
qed

text \<open>
  One Schreier generator. While nothing has changed the group is the snapshot the chain was
  built from, and the generator just treated is in the next level's group.
\<close>

definition pass_inv :: "phy_perm_group \<Rightarrow> phy_perm_group \<times> nat \<times> bool \<Rightarrow> bool" where
  "pass_inv g0 st = (case st of (g, u, ch) \<Rightarrow> grows g0 g \<and> (\<not> ch \<longrightarrow> g = g0))"

lemma schreier_member:
  assumes wf: "wf_group g" and good: "good_chain g chain" and l: "l < degree g"
    and k: "strong g ! k = (p, s, lv)" "k < length (strong g)" "l \<le> lv"
    and y: "y \<in> orbit_of (degree g) (level_gens g l) l"
  defines "x \<equiv> smul (degree g) (sinv (degree g) (rep (chain ! l) (p ! y)))
      (smul (degree g) (p, s) (rep (chain ! l) y))"
  shows "x \<in> grp_span (degree g) (level_gens g l)" "\<forall>i < Suc l. act x i = i"
proof -
  let ?n = "degree g" and ?S = "level_gens g l" and ?t = "rep (chain ! l)"
  have row: "good_row g l (chain ! l)" using good l by (simp add: good_chain_def)
  note S = sperms_level_gens [OF wf, of l]
  have ps: "(p, s) \<in> ?S" using k by (auto simp: level_gens_def) (metis nth_mem)
  then have py: "p ! y \<in> orbit_of ?n ?S l" using orbit_step [OF S l y] by fastforce
  note ty = good_rep [OF wf row y] and tpy = good_rep [OF wf row py]
  show mem: "x \<in> grp_span ?n ?S"
    unfolding x_def using span_closed [OF span_sinv [OF S tpy(1)] S]
      grp_span.span_mul [OF ps ty(1)] by blast
  have "act x l = l"
    using act_sinv [OF tpy(2) l] tpy(3) ty(3) l by (simp add: x_def act_smul)
  moreover have "act x i = i" if "i < l" for i
  proof (rule level_group_fixes [OF wf _ that])
    show "x \<in> level_group g l" using mem span_gens_level [OF wf, of l] by blast
  qed (use that l in simp)
  ultimately show "\<forall>i < Suc l. act x i = i" by (auto simp: less_Suc_eq)
qed

lemma sift_levels_cong:
  assumes "degree g = degree h" "plimits g = plimits h"
  shows "sift_levels g chain ls st = sift_levels h chain ls st"
proof (induction ls arbitrary: st)
  case (Cons l ls)
  have "phy_perm_step g = phy_perm_step h" using assms by (simp add: phy_perm_step_def fun_eq_iff)
  then show ?case by (cases st) (simp add: Cons assms Let_def split: prod.splits)
qed simp

lemma schreier_body_inv:
  assumes wf: "wf_group g0" and good: "good_chain g0 chain" and l: "l < degree g0"
    and y: "y \<in> orbit_of (degree g0) (level_gens g0 l) l" and k: "k < length (strong g0)"
    and inv: "pass_inv g0 st"
  shows "outcome (schreier_body chain l y k st)
    (\<lambda>st'. pass_inv g0 st' \<and> (snd (snd st) \<longrightarrow> snd (snd st')) \<and> (\<not> snd (snd st') \<longrightarrow> schreier_done g0 chain l y k))
    (\<lambda>_ st'. grows g0 (fst st'))"
proof -
  obtain g u ch where st: "st = (g, u, ch)" by (cases st)
  let ?n = "degree g0"
  have gr: "grows g0 g" "\<not> ch \<Longrightarrow> g = g0" using inv by (simp_all add: pass_inv_def st)
  then have g: "wf_group g" "sound g" "degree g = ?n" by (simp_all add: grows_def)
  obtain p s lv where ps: "strong g0 ! k = (p, s, lv)" by (cases "strong g0 ! k")
  then have psg: "strong g ! k = (p, s, lv)" using gr(1) k by (auto simp: grows_def nth_append)
  show ?thesis
  proof (cases "lv < l")
    case True
    then show ?thesis using inv ps psg by (simp add: schreier_body_def st schreier_done_def)
  next
    case False
    then have lv: "l \<le> lv" by simp
    define x where "x = smul ?n (sinv ?n (rep (chain ! l) (p ! y))) (smul ?n (p, s) (rep (chain ! l) y))"
    note x = schreier_member [OF wf good l ps k lv y, folded x_def]
    have sx: "sperm ?n x" using span_sperm [OF x(1) sperms_level_gens [OF wf]] .
    obtain st1 u1 where step: "phy_perm_step g 4 u = (st1, u1)" by fastforce
    obtain st2 r rs u2 where sift: "phy_perm_sift g chain (fst x) (snd x) (l + 1) u1 = (st2, r, rs, u2)"
      by (cases "phy_perm_sift g chain (fst x) (snd x) (l + 1) u1")
    obtain st3 g' c where add: "phy_perm_add_strong g r rs = (st3, g', c)" by (cases "phy_perm_add_strong g r rs")
    have body: "schreier_body chain l y k st =
       (if st1 \<noteq> PHY_OK then (st1, g, u1, ch) else if st2 \<noteq> PHY_OK then (st2, g, u2, ch)
        else if st3 \<noteq> PHY_OK then (st3, g', u2, ch) else (PHY_OK, g', u2, ch \<or> c))"
      using False sift add step psg
      by (simp add: schreier_body_def st Let_def x_def smul_def sinv_def rep_def g(3) mult.assoc)
    show ?thesis
    proof (cases "st1 = PHY_OK \<and> st2 = PHY_OK")
      case False
      then show ?thesis using gr(1) by (auto simp: body)
    next
      case True
      have sl: "sift_levels g chain [Suc l..<?n] (fst x, snd x, u1) = (PHY_OK, r, rs, u2)"
        using sift l True by (simp add: phy_perm_sift_def g(3))
      then have sl0: "sift_levels g0 chain [Suc l..<?n] (fst x, snd x, u1) = (PHY_OK, r, rs, u2)"
        using gr(1) sift_levels_cong [of g0 g] by (simp add: grows_def)
      from sift_factors [OF wf good _ _ x(2) sl0] l sx
      obtain h where r: "sperm ?n (r, rs)" and h: "h \<in> grp_span ?n (level_gens g0 (Suc l))" "x = smul ?n h (r, rs)"
        and stop: "r = idp ?n \<or> (\<exists>k < ?n. Suc l \<le> k \<and> phy_perm_level r ?n = k \<and>
          r ! k \<notin> orbit_of ?n (level_gens g0 k) k)"
        by auto
      have hS: "h \<in> level_group g0 (Suc l)" using h(1) span_gens_level [OF wf] by blast
      then have h0: "h \<in> level_group g0 l" using level_group_antimono [OF wf, of l "Suc l"] by auto
      have "(r, rs) = smul ?n (sinv ?n h) x" using h(2) r level_group_sperm [OF wf hS] by simp
      moreover have "x \<in> level_group g0 l" using x(1) span_gens_level [OF wf, of l] by blast
      ultimately have rl: "(r, rs) \<in> level_group g0 l"
        using level_group_mul [OF wf level_group_inv [OF wf h0]] by simp
      then have "(r, rs) \<in> level_group g 0"
        using level_group_antimono [OF wf, of 0 l] grows_level_group [OF gr(1), of 0] by auto
      then have "(r, rs) \<in> target g" using level_group_sound [OF g(1,2)] by blast
      note add' = add_strong_grows [OF g(1,2) this add]
      have "schreier_done g0 chain l y k" if "st3 = PHY_OK" "\<not> ch" "\<not> c"
      proof -
        have eq: "g = g0" "g' = g0" using that gr(2) add' by auto
        have rk: "(r, rs) \<in> level_group g0 (phy_perm_level r ?n)" using add' that(1) eq by simp
        have "r = idp ?n"
        proof (rule ccontr)
          assume "r \<noteq> idp ?n"
          then obtain k where "k < ?n" "phy_perm_level r ?n = k" "r ! k \<notin> orbit_of ?n (level_gens g0 k) k"
            using stop by blast
          then show False using level_act_orbit [OF wf, of k "(r, rs)"] rk by simp
        qed
        then have "Suc l \<le> phy_perm_level r ?n"
          using l identity_image_iff [of ?n r] by (simp add: phy_perm_identity_image_def)
        then have "(r, rs) \<in> level_group g0 (Suc l)" using rk level_group_antimono [OF wf] by blast
        then have "x \<in> level_group g0 (Suc l)" using level_group_mul [OF wf hS] h(2) by simp
        then show ?thesis using ps by (simp add: schreier_done_def x_def)
      qed
      then show ?thesis
        unfolding body using add' gr grows_trans [of g0 g g'] True by (auto simp: st pass_inv_def)
    qed
  qed
qed

lemma schreier_point_inv:
  assumes wf: "wf_group g0" and good: "good_chain g0 chain" and l: "l < degree g0" and y: "y < degree g0"
    and inv: "pass_inv g0 st"
  shows "outcome (schreier_point chain (length (strong g0)) l y st)
    (\<lambda>st'. pass_inv g0 st' \<and> (snd (snd st) \<longrightarrow> snd (snd st')) \<and>
       (\<not> snd (snd st') \<longrightarrow> (\<forall>k < length (strong g0). schreier_done g0 chain l y k)))
    (\<lambda>_ st'. grows g0 (fst st'))"
proof (cases "valid (chain ! l) ! y")
  case False
  then have "y \<notin> orbit_of (degree g0) (level_gens g0 l) l"
    using good l y by (auto simp: good_chain_def good_row_def Let_def)
  then show ?thesis using False inv by (auto simp: schreier_point_def schreier_done_def)
next
  case True
  then have yo: "y \<in> orbit_of (degree g0) (level_gens g0 l) l"
    using good l y by (auto simp: good_chain_def good_row_def Let_def)
  let ?m = "length (strong g0)"
  let ?I = "\<lambda>j st'. pass_inv g0 st' \<and> (snd (snd st) \<longrightarrow> snd (snd st')) \<and>
      (\<not> snd (snd st') \<longrightarrow> (\<forall>k < j. schreier_done g0 chain l y k))"
  have "outcome (for_each [0..<?m] (schreier_body chain l y) st) (?I (length [0..<?m])) (\<lambda>_ st'. grows g0 (fst st'))"
  proof (rule outcome_for_each)
    show "?I 0 st" using inv by simp
    fix j s assume j: "j < length [0..<?m]" and I: "?I j s"
    then have "pass_inv g0 s" "j < ?m" and idx: "[0..<?m] ! j = j" by simp_all
    from schreier_body_inv [OF wf good l yo this(2,1)]
    show "outcome (schreier_body chain l y ([0..<?m] ! j) s) (?I (Suc j)) (\<lambda>_ st'. grows g0 (fst st'))"
      unfolding idx by (rule outcome_mono) (use I j in \<open>auto simp: less_Suc_eq\<close>)
  qed
  then show ?thesis using True by (simp add: schreier_point_def)
qed

lemma pass_correct:
  assumes wf: "wf_group g0" and snd: "sound g0" and good: "good_chain g0 chain"
  shows "outcome (add_schreier_generators chain (g0, u))
    (\<lambda>(g, u', ch). grows g0 g \<and> (\<not> ch \<longrightarrow> g = g0 \<and> closed_chain g0)) (\<lambda>_ (g, _). grows g0 g)"
proof -
  let ?n = "degree g0" and ?m = "length (strong g0)"
  let ?done = "\<lambda>l y. \<forall>k < ?m. schreier_done g0 chain l y k"
  let ?I = "\<lambda>l st'. pass_inv g0 st' \<and> (\<not> snd (snd st') \<longrightarrow> (\<forall>j < l. \<forall>y < ?n. ?done j y))"
  let ?E = "\<lambda>_ st'. grows g0 (fst st')"
  have point: "outcome (for_each [0..<?n] (schreier_point chain ?m l) st)
      (\<lambda>st'. pass_inv g0 st' \<and> (snd (snd st) \<longrightarrow> snd (snd st')) \<and> (\<not> snd (snd st') \<longrightarrow> (\<forall>y < ?n. ?done l y))) ?E"
    if l: "l < ?n" and st: "pass_inv g0 st" for l st
  proof -
    let ?J = "\<lambda>i st'. pass_inv g0 st' \<and> (snd (snd st) \<longrightarrow> snd (snd st')) \<and> (\<not> snd (snd st') \<longrightarrow> (\<forall>y < i. ?done l y))"
    have "outcome (for_each [0..<?n] (schreier_point chain ?m l) st) (?J (length [0..<?n])) ?E"
    proof (rule outcome_for_each)
      show "?J 0 st" using st by simp
      fix i s assume i: "i < length [0..<?n]" and J: "?J i s"
      then have "pass_inv g0 s" "i < ?n" and idx: "[0..<?n] ! i = i" by simp_all
      from schreier_point_inv [OF wf good l this(2,1)]
      show "outcome (schreier_point chain ?m l ([0..<?n] ! i) s) (?J (Suc i)) ?E"
        unfolding idx
        by (rule outcome_mono) (use J in \<open>auto simp: less_Suc_eq\<close>)
    qed
    then show ?thesis by simp
  qed
  have "outcome (for_each [0..<?n] (\<lambda>l. for_each [0..<?n] (schreier_point chain ?m l)) (g0, u, False))
      (?I (length [0..<?n])) ?E"
  proof (rule outcome_for_each)
    show "?I 0 (g0, u, False)" using grows_refl [OF wf snd] by (simp add: pass_inv_def)
    fix i s assume i: "i < length [0..<?n]" and I: "?I i s"
    then have "i < ?n" "pass_inv g0 s" and idx: "[0..<?n] ! i = i" by simp_all
    from point [OF this(1,2)]
    show "outcome (for_each [0..<?n] (schreier_point chain ?m ([0..<?n] ! i)) s) (?I (Suc i)) ?E"
      unfolding idx
      by (rule outcome_mono) (use I in \<open>auto simp: less_Suc_eq\<close>)
  qed
  then have "outcome (add_schreier_generators chain (g0, u)) (?I ?n) ?E"
    by (simp add: add_schreier_generators_def)
  then show ?thesis
  proof (rule outcome_mono)
    fix st assume "?I ?n st"
    then show "case st of (g, u', ch) \<Rightarrow> grows g0 g \<and> (\<not> ch \<longrightarrow> g = g0 \<and> closed_chain g0)"
      using closed_chainI [OF wf good] by (cases st) (auto simp: pass_inv_def)
  qed auto
qed

lemma build_loop_correct:
  assumes "wf_group g" "sound g" "length chain = degree g"
  shows "outcome (build_loop g chain u)
    (\<lambda>(g', chain', u'). grows g g' \<and> length chain' = degree g \<and> closed_chain g') (\<lambda>_ (g', _). grows g g')"
  using assms
proof (induction g chain u rule: build_loop.induct)
  case (1 g chain u)
  obtain st1 c1 u1 where b: "phy_perm_chain_build g (chain, u) = (st1, c1, u1)"
    by (cases "phy_perm_chain_build g (chain, u)")
  show ?case
  proof (cases "st1 = PHY_OK")
    case False
    then show ?thesis using grows_refl 1(2,3) by (simp add: build_loop.simps [of g] b)
  next
    case True
    obtain st2 g2 u2 ch where a: "add_schreier_generators c1 (g, u1) = (st2, g2, u2, ch)"
      by (cases "add_schreier_generators c1 (g, u1)")
    have c1: "good_chain g c1" "length c1 = degree g"
      using chain_build_good [OF 1(2) 1(4)] b True by simp_all
    note pass = pass_correct [OF 1(2,3) c1(1), of u1, unfolded a]
    show ?thesis
    proof (cases "st2 = PHY_OK \<and> ch")
      case False
      then show ?thesis using True pass c1(2) by (auto simp: build_loop.simps [of g] b a)
    next
      case ch: True
      then have gr: "grows g g2" using pass by simp
      then have "outcome (build_loop g2 c1 u2)
          (\<lambda>(g', chain', u'). grows g2 g' \<and> length chain' = degree g2 \<and> closed_chain g') (\<lambda>_ (g', _). grows g2 g')"
        using 1(1) [of st1 "(c1, u1)" c1 u1 st2 "(g2, u2, ch)" g2 "(u2, ch)" u2 ch] b a True ch c1(2)
        by (simp add: grows_def)
      then have "outcome (build_loop g2 c1 u2)
          (\<lambda>(g', chain', u'). grows g g' \<and> length chain' = degree g \<and> closed_chain g') (\<lambda>_ (g', _). grows g g')"
        by (rule outcome_mono) (use grows_trans [OF gr] gr in \<open>auto simp: grows_def [of g g2]\<close>)
      then show ?thesis using True ch by (simp add: build_loop.simps [of g] b a)
    qed
  qed
qed

section \<open>The invariant of a group object\<close>

text \<open>
  A built group is one whose strong generators generate exactly what the caller's generators
  do, whose chain is closed, and whose order is the order of that group.
\<close>

definition built_ok :: "phy_perm_group \<Rightarrow> bool" where
  "built_ok g \<longleftrightarrow> level_group g 0 = target g \<and> closed_chain g \<and> order g = card (target g)"

lemma flags_irrelevant [simp]:
  "level_group (g\<lparr>order := k\<rparr>) l = level_group g l" "level_group (g\<lparr>built := b\<rparr>) l = level_group g l"
  "target (g\<lparr>order := k\<rparr>) = target g" "target (g\<lparr>built := b\<rparr>) = target g"
  "closed_chain (g\<lparr>order := k\<rparr>) = closed_chain g" "closed_chain (g\<lparr>built := b\<rparr>) = closed_chain g"
  "wf_group (g\<lparr>order := k\<rparr>) = wf_group g" "wf_group (g\<lparr>built := b\<rparr>) = wf_group g"
  by (simp_all add: level_group_def target_def level_gens_def flag_gens_def closed_chain_def wf_group_def)

definition group_inv :: "phy_perm_group \<Rightarrow> bool" where
  "group_inv g \<longleftrightarrow> wf_group g \<and> degree g \<le> max_degree (plimits g) \<and>
     length (generators g) \<le> max_generators (plimits g) \<and>
     length (strong g) \<le> max_strong_generators (plimits g) \<and>
     group_storage_bytes (degree g) (plimits g) = Some (storage_bytes g) \<and>
     persistent_bytes g = sizeof_perm_group + storage_bytes g \<and>
     persistent_bytes g \<le> pmax_bytes (plimits g) \<and> (built g \<longrightarrow> built_ok g)"

lemma compute_order_spec:
  assumes "compute_order g chain = (PHY_OK, g')"
  shows "g' = g\<lparr>order := (\<Prod>l \<in> {0..<degree g}. orbit_count (chain ! l)) * (if negative_identity g then 2 else 1)\<rparr>"
proof -
  let ?c = "if negative_identity g then 2 else 1 :: nat"
  let ?f = "\<lambda>level ord. let factor = orbit_count (chain ! level) in
      if factor \<noteq> 0 \<and> (2 ^ 64 - 1) div factor < ord then (PHY_ERR_OVERFLOW, ord) else (PHY_OK, ord * factor)"
  have "outcome (for_each [0..<degree g] ?f ?c)
      ((\<lambda>k ord. ord = (\<Prod>l \<in> {0..<k}. orbit_count (chain ! l)) * ?c) (length [0..<degree g])) (\<lambda>_ _. True)"
    by (rule outcome_for_each) (simp, simp add: Let_def algebra_simps)
  then show ?thesis
    using assms by (auto simp: compute_order_def split: prod.splits if_splits)
qed

text \<open>
  Building either reports an error and leaves the group unbuilt, or leaves it built; in both
  cases the generators and limits are the caller's and the object invariant holds.
\<close>

lemma build_correct:
  assumes inv: "group_inv g" and build: "phy_perm_group_build_bsgs g alloc = (st, g')"
  shows "group_inv g' \<and> generators g' = generators g \<and> degree g' = degree g \<and> plimits g' = plimits g \<and>
    (built g' \<longleftrightarrow> st = PHY_OK)"
proof -
  let ?g = "g\<lparr>built := False, order := 0\<rparr>"
  let ?s = "?g\<lparr>strong := [], negative_identity := False\<rparr>"
  have wf: "wf_group ?g" using inv by (simp add: group_inv_def wf_group_def)
  have grown: "group_inv h \<and> generators h = generators g \<and> degree h = degree g \<and> plimits h = plimits g \<and> \<not> built h"
    if "grows ?s h" for h
    using that inv by (simp add: group_inv_def grows_def)
  obtain st0 g0 where i: "initialize_strong_generators ?g = (st0, g0)" by fastforce
  note init = initialize_grows [OF wf i]
  have gr0: "grows ?s g0" using init by simp
  show ?thesis
  proof (cases "st0 = PHY_OK")
    case False
    then show ?thesis using build i grown [OF gr0] by (auto simp: phy_perm_group_build_bsgs_def)
  next
    case True
    have gens0: "set (generators g0) \<subseteq> level_group g0 0" using init True by simp
    obtain st1 chain where a: "phy_perm_chain_allocate g0 alloc = (st1, chain)" by fastforce
    obtain st2 g1 c1 u1 where l: "build_loop g0 chain 0 = (st2, g1, c1, u1)" by (cases "build_loop g0 chain 0")
    show ?thesis
    proof (cases "st1 = PHY_OK")
      case False
      then show ?thesis using True build i a grown [OF gr0] by (auto simp: phy_perm_group_build_bsgs_def)
    next
      case st1: True
      then have len: "length chain = degree g0"
        using a by (auto simp: phy_perm_chain_allocate_def split: option.splits if_splits)
      have g0: "wf_group g0" "sound g0" using gr0 by (simp_all add: grows_def)
      note loop = build_loop_correct [OF g0 len, of 0, unfolded l]
      have gr1: "grows g0 g1" using loop by (cases "st2 = PHY_OK") simp_all
      then have gr: "grows ?s g1" using gr0 grows_trans by blast
      then have g1: "wf_group g1" "sound g1" by (simp_all add: grows_def)
      obtain st3 c2 u2 where b: "phy_perm_chain_build g1 (c1, u1) = (st3, c2, u2)"
        by (cases "phy_perm_chain_build g1 (c1, u1)")
      obtain st4 g4 where o: "compute_order g1 c2 = (st4, g4)" by fastforce
      have "g4 = g1" if "st4 \<noteq> PHY_OK"
        using o that by (auto simp: compute_order_def split: prod.splits if_splits)
      then have flat: "(st, g') = (if st2 \<noteq> PHY_OK then (st2, g1) else if st3 \<noteq> PHY_OK then (st3, g1)
          else if st4 \<noteq> PHY_OK then (st4, g1) else (PHY_OK, g4\<lparr>built := True\<rparr>))"
        unfolding build [symmetric] phy_perm_group_build_bsgs_def i prod.case a l b o
        using True st1 by simp
      show ?thesis
      proof (cases "st2 = PHY_OK \<and> st3 = PHY_OK \<and> st4 = PHY_OK")
        case False
        then have "g' = g1 \<and> st \<noteq> PHY_OK" using flat by (auto split: if_splits)
        then show ?thesis using grown [OF gr] by simp
      next
        case ok: True
        then have g': "st = PHY_OK" "g' = g4\<lparr>built := True\<rparr>"
          using flat by simp_all
        have cl: "closed_chain g1" and "length c1 = degree g1" using loop ok gr1 by (simp_all add: grows_def)
        then have good: "good_chain g1 c2" using chain_build_good [OF g1(1)] b ok by simp
        have "level_group g1 0 = target g1"
        proof
          have "set (generators g1) \<subseteq> level_group g1 0"
            using gens0 gr1 grows_level_group [OF gr1, of 0] by (auto simp: grows_def)
          then show "target g1 \<subseteq> level_group g1 0"
            unfolding target_def level_group_def by (rule span_least [OF sperms_level [OF g1(1)]])
        qed (rule level_group_sound [OF g1])
        moreover have "order g4 = card (level_group g1 0)"
          using compute_order_spec [of g1 c2 g4] o ok card_chain [OF g1(1) cl good, of "degree g1"] by simp
        ultimately have "built_ok g4"
          using compute_order_spec [of g1 c2 g4] o ok cl
          by (simp add: built_ok_def)
        then show ?thesis
          using grown [OF gr] g' compute_order_spec [of g1 c2 g4] o ok
          by (auto simp: group_inv_def built_ok_def)
      qed
    qed
  qed
qed

end
