(* ===== verification/PermApi.thy ===== *)
theory PermApi
  imports BsgsCorrect
begin

text \<open>
  What the public operations of \<open>include/phy/permutation.h\<close> promise: the object invariant is
  established by \<open>phy_perm_group_create\<close> and kept by every operation, a built group answers
  membership, order and orbit queries exactly, and no query runs past its limits.
\<close>

section \<open>Creation and generators\<close>

lemma create_inv:
  assumes "phy_perm_group_create deg limits alloc = (PHY_OK, Some g)"
  shows "group_inv g \<and> degree g = deg \<and> generators g = [] \<and> \<not> built g"
proof -
  obtain st r where res: "phy_perm_resolve_limits limits = (st, r)" by fastforce
  then have st: "st = PHY_OK" "deg \<noteq> 0" "deg \<le> max_degree r"
    using assms by (auto simp: phy_perm_group_create_def not_less split: if_splits)
  then have r: "max_degree r \<le> UINT16_MAX" "sizeof_perm_group \<le> pmax_bytes r"
    using res by (auto simp: phy_perm_resolve_limits_def Let_def not_less split: if_splits)
  obtain off where "group_storage_bytes deg r = Some off" "off \<le> pmax_bytes r - sizeof_perm_group"
    using assms res st by (auto simp: phy_perm_group_create_def not_less split: if_splits option.splits)
  then have "g = \<lparr>degree = deg, plimits = r, storage_bytes = off, persistent_bytes = sizeof_perm_group + off,
      generators = [], strong = [], built = False, negative_identity = False, order = 0\<rparr>"
    "sizeof_perm_group + off \<le> pmax_bytes r"
    using assms res st r by (simp_all add: phy_perm_group_create_def split: if_splits)
  then show ?thesis using st r \<open>group_storage_bytes deg r = Some off\<close>
    by (simp add: group_inv_def wf_group_def sperms_def)
qed

lemma add_generator_inv:
  assumes "group_inv g" "img = Some p" "length p = degree g"
    and "phy_perm_group_add_generator g img sign = (st, g')"
  shows "group_inv g' \<and> degree g' = degree g \<and> plimits g' = plimits g \<and>
    (st = PHY_OK \<longrightarrow> set (generators g') = insert (p, sign) (set (generators g))) \<and>
    (st \<noteq> PHY_OK \<longrightarrow> g' = g)"
proof -
  have "sperm (degree g) (p, sign)"
    if "sign = - 1 \<or> sign = 1" "phy_permutation_valid (Some p) (degree g)"
    using that valid_iff_perm [OF assms(3)] by (auto simp: sperm_def)
  then show ?thesis
    using assms(1,2,4)
    by (auto simp: phy_perm_group_add_generator_def group_inv_def wf_group_def sperms_def list_ex_iff
        split: if_splits)
qed

section \<open>Membership\<close>

lemma contains_exact:
  assumes "group_inv g" "length p = degree g"
    and "phy_perm_group_contains g (Some p) sign alloc = (PHY_OK, out)"
  shows "out = Some ((p, sign) \<in> target g)"
proof -
  let ?n = "degree g"
  have b: "built g" "sign = - 1 \<or> sign = 1" "perm ?n p"
    using assms(3) valid_iff_perm [OF assms(2)]
    by (auto simp: phy_perm_group_contains_def split: if_splits)
  then have wf: "wf_group g" and ok: "level_group g 0 = target g" "closed_chain g"
    using assms(1) by (simp_all add: group_inv_def built_ok_def)
  have sp: "sperm ?n (p, sign)" using b by (auto simp: sperm_def)
  obtain c where a: "phy_perm_chain_allocate g alloc = (PHY_OK, c)"
    using assms(3) by (auto simp: phy_perm_group_contains_def split: if_splits prod.splits)
  then have "length c = ?n" by (auto simp: phy_perm_chain_allocate_def split: option.splits if_splits)
  moreover obtain c1 u1 where bd: "phy_perm_chain_build g (c, 0) = (PHY_OK, c1, u1)"
    using assms(3) by (auto simp: phy_perm_group_contains_def a split: if_splits prod.splits)
  ultimately have good: "good_chain g c1" using chain_build_good [OF wf] by blast
  obtain r s u where "phy_perm_sift g c1 p sign 0 u1 = (PHY_OK, r, s, u)"
    and out: "out = Some (phy_perm_identity_image r ?n \<and> (0 < s \<or> negative_identity g))"
    using assms(3) by (auto simp: phy_perm_group_contains_def a bd split: if_splits prod.splits)
  then have sift: "sift_levels g c1 [0..<?n] (p, sign, u1) = (PHY_OK, r, s, u)"
    by (simp add: phy_perm_sift_def split: if_splits)
  from sift_factors [OF wf good _ sp _ sift] obtain h where r: "sperm ?n (r, s)"
    and h: "h \<in> grp_span ?n (level_gens g 0)" "(p, sign) = smul ?n h (r, s)" by auto
  have hg: "h \<in> level_group g 0" using h(1) span_gens_level [OF wf] by blast
  have ident: "phy_perm_identity_image r ?n \<longleftrightarrow> r = idp ?n"
    using identity_image_iff r by (simp add: sperm_def)
  show ?thesis
  proof (cases "(p, sign) \<in> target g")
    case True
    then show ?thesis
      using sift_member [OF wf good ok(2), of "(p, sign)" u1 r s u] sift ok(1) ident
      by (auto simp: out sone_def)
  next
    case False
    have "(r, s) \<notin> level_group g 0"
      using False level_group_mul [OF wf hg] h(2) ok(1) by metis
    then have "\<not> (r = idp ?n \<and> (0 < s \<or> negative_identity g))"
      using level_group_one [of g 0] flag_element [OF _ wf, of 0] r by (auto simp: sone_def sperm_def)
    then show ?thesis using False ident by (simp add: out)
  qed
qed

section \<open>Orbits\<close>

definition strong_succs :: "phy_perm_group \<Rightarrow> nat \<Rightarrow> nat set" where
  "strong_succs g x = (\<lambda>e. fst e ! x) ` set (strong g)"

definition orbit_inv :: "phy_perm_group \<Rightarrow> nat \<Rightarrow> bool list \<times> nat list \<times> nat \<Rightarrow> bool" where
  "orbit_inv g b st = (case st of (seen, queue, u) \<Rightarrow>
     length seen = degree g \<and> distinct queue \<and> (\<forall>y < degree g. seen ! y \<longleftrightarrow> y \<in> set queue) \<and>
     b \<in> set queue \<and> set queue \<subseteq> orbit_of (degree g) (level_gens g 0) b)"

lemma orbit_bound:
  "wf_group g \<Longrightarrow> b < degree g \<Longrightarrow> y \<in> orbit_of (degree g) (level_gens g l) b \<Longrightarrow> y < degree g"
  using act_bound [OF span_sperm [OF _ sperms_level_gens]] by (auto simp: orbit_of_def)

lemma orbit_visit_inv:
  assumes "wf_group g" "b < degree g" "orbit_inv g b (seen, queue, u)" "x \<in> set queue"
    and "for_each (strong g) (orbit_generator g x) (seen, queue, u) = (PHY_OK, seen', queue', u')"
  shows "orbit_inv g b (seen', queue', u') \<and> (\<exists>new. queue' = queue @ new) \<and> strong_succs g x \<subseteq> set queue'"
proof -
  let ?O = "orbit_of (degree g) (level_gens g 0) b"
  let ?I = "\<lambda>k st. orbit_inv g b st \<and> (\<exists>new. fst (snd st) = queue @ new) \<and>
      (\<forall>j < k. fst (strong g ! j) ! x \<in> set (fst (snd st)))"
  have xO: "x \<in> ?O" using assms(3,4) by (auto simp: orbit_inv_def)
  have "outcome (for_each (strong g) (orbit_generator g x) (seen, queue, u)) (?I (length (strong g))) (\<lambda>_ _. True)"
  proof (rule outcome_for_each)
    show "?I 0 (seen, queue, u)" using assms(3) by simp
    fix k st assume k: "k < length (strong g)" and I: "?I k st"
    obtain se q v where st: "st = (se, q, v)" by (cases st)
    obtain p s lv where ps: "strong g ! k = (p, s, lv)" by (cases "strong g ! k")
    then have "(p, s) \<in> level_gens g 0" using k by (auto simp: level_gens_def) (metis nth_mem)
    from orbit_step [OF sperms_level_gens [OF assms(1)] assms(2) xO this]
    have y: "p ! x \<in> ?O" by simp
    then have "p ! x < degree g" using orbit_bound [OF assms(1,2)] by blast
    then show "outcome (orbit_generator g x (strong g ! k) st) (?I (Suc k)) (\<lambda>_ _. True)"
      using I y unfolding st orbit_generator_def ps orbit_inv_def
      by (auto simp: Let_def ps less_Suc_eq nth_list_update split: prod.splits)
  qed
  then show ?thesis using assms(5) by (fastforce simp: strong_succs_def in_set_conv_nth)
qed

interpretation orbit_list: worklist "degree g" "strong_succs g" "fst \<circ> snd"
    "\<lambda>st. wf_group g \<and> b < degree g \<and> orbit_inv g b st"
    "\<lambda>x. for_each (strong g) (orbit_generator g x)" "orbit_loop g"
  for g b
proof (unfold_locales, goal_cases)
  case (1 head s)
  then show ?case by (cases s) (simp add: orbit_loop.simps [of g head] split: prod.splits)
next
  case (2 s)
  then show ?case using orbit_bound [of g b _ 0] by (auto simp: orbit_inv_def)
next
  case (3 s x s')
  then show ?case
    using orbit_visit_inv [of g b "fst s" "fst (snd s)" "snd (snd s)" x "fst s'" "fst (snd s')" "snd (snd s')"] by auto
qed

lemma orbit_exact:
  assumes "group_inv g" "phy_perm_group_orbit g b (Some buf) capacity alloc = (PHY_OK, out, count)"
  shows "\<exists>points. count = Some (length points) \<and> out = Some (points @ drop (length points) buf) \<and>
    distinct points \<and> set points = orbit_of (degree g) (set (generators g)) b"
proof -
  let ?n = "degree g" and ?s = "((replicate (degree g) False)[b := True], [b], 0 :: nat)"
  have b: "built g" "b < ?n" using assms(2) by (auto simp: phy_perm_group_orbit_def split: if_splits)
  then have wf: "wf_group g" and ok: "level_group g 0 = target g"
    using assms(1) by (simp_all add: group_inv_def built_ok_def)
  obtain seen q u where loop: "orbit_loop g 0 ?s = (PHY_OK, seen, q, u)"
    and out: "out = Some (q @ drop (length q) buf)" "count = Some (length q)"
    using assms(2) by (auto simp: phy_perm_group_orbit_def Let_def split: if_splits prod.splits)
  have "orbit_inv g b ?s"
    using b(2) orbit_base [OF b(2)] by (auto simp: orbit_inv_def nth_list_update)
  then have q: "orbit_inv g b (seen, q, u)" "\<forall>x \<in> set q. strong_succs g x \<subseteq> set q"
    using orbit_list.loop_closed [OF _ _ loop] wf b(2) by simp_all
  have "orbit_of ?n (level_gens g 0) b \<subseteq> set q"
    by (rule orbit_least [OF b(2)])
      (use q in \<open>force simp: orbit_inv_def strong_succs_def level_gens_def\<close>)+
  then have "set q = orbit_of ?n (level_gens g 0) b" using q(1) by (auto simp: orbit_inv_def)
  also have "\<dots> = orbit_of ?n (level_gens g 0 \<union> flag_gens g) b" using orbit_flag [OF wf b(2)] by simp
  also have "\<dots> = orbit_of ?n (set (generators g)) b"
    using ok by (simp add: orbit_of_def level_group_def target_def)
  finally show ?thesis using out q(1) by (auto simp: orbit_inv_def)
qed

end
