(* ===== verification/BsgsBudget.thy ===== *)
theory BsgsBudget
  imports PermApi
begin

text \<open>
  Success of the permutation operations under sufficient limits: the work meter bounds of
  the chain loops, the passes and the queries, the number of strong generators (at most the
  number of permutations of the degree), and the default limits of small tensor slots.
\<close>

section \<open>The chain loops\<close>

lemma step_pays: "u + a \<le> pmax_steps (plimits g) \<Longrightarrow> phy_perm_step g a u = (PHY_OK, u + a)"
  by (simp add: phy_perm_step_def)

lemma visit_point_pays:
  assumes "u + length (strong g) \<le> pmax_steps (plimits g)"
  shows "\<exists>row' u'. visit_point g l x (row, u) = (PHY_OK, row', u') \<and> u' \<le> u + length (strong g)"
proof -
  have "\<exists>s'. for_each [0..<length (strong g)] (visit_generator g l x) (row, u) = (PHY_OK, s') \<and> True \<and>
      snd s' \<le> snd (row, u) + length [0..<length (strong g)] * 1"
  proof (rule for_each_meter)
    show "snd (row, u) + length [0..<length (strong g)] * 1 \<le> pmax_steps (plimits g)" using assms by simp
    fix k and s :: "chain_row \<times> nat"
    assume "k < length [0..<length (strong g)]" "snd s + 1 \<le> pmax_steps (plimits g)"
    then show "\<exists>s'. visit_generator g l x ([0..<length (strong g)] ! k) s = (PHY_OK, s') \<and> True \<and> snd s' \<le> snd s + 1"
      using step_pays [of "snd s" 1 g]
      by (cases s; cases "strong g ! k") (simp add: visit_generator_def Let_def)
  qed simp
  then show ?thesis by (auto simp: visit_point_def)
qed

interpretation level_meter: metered_worklist "degree grp" "level_succs grp l" "row_queue \<circ> fst"
    "\<lambda>(row, u). wf_group grp \<and> l < degree grp \<and> row_inv grp l row"
    "visit_point grp l" "queue_loop grp l" snd "length (strong grp)" "pmax_steps (plimits grp)"
  for grp l
proof (unfold_locales, goal_cases)
  case (1 s x)
  then show ?case using visit_point_pays [of "snd s" grp l x "fst s"] by auto
qed

lemma build_level_pays:
  assumes "wf_group g" "l < degree g" "u + degree g * length (strong g) \<le> pmax_steps (plimits g)"
  shows "\<exists>row u'. build_level g l u = (PHY_OK, row, u') \<and> u' \<le> u + degree g * length (strong g)"
proof -
  have "row_inv g l (start_row (degree g) l)"
    using start_row_inv [OF assms(2)] assms(1) by (simp add: wf_group_def)
  then show ?thesis
    using level_meter.loop_succeeds [of g l "(start_row (degree g) l, u)" 0] assms
    by (auto simp: build_level_def)
qed

lemma chain_build_pays:
  assumes "wf_group g" "length c = degree g"
    and "u + degree g * (degree g * length (strong g)) \<le> pmax_steps (plimits g)"
  shows "\<exists>c' u'. phy_perm_chain_build g (c, u) = (PHY_OK, c', u') \<and> good_chain g c' \<and> length c' = degree g \<and>
    u' \<le> u + degree g * (degree g * length (strong g))"
proof -
  let ?c = "degree g * length (strong g)"
  let ?f = "\<lambda>level st. case st of (chain :: phy_perm_chain, steps) \<Rightarrow>
      (case build_level g level steps of (status, row, steps') \<Rightarrow> (status, chain[level := row], steps'))"
  have "\<exists>s'. for_each [0..<degree g] ?f (c, u) = (PHY_OK, s') \<and> True \<and>
      snd s' \<le> snd (c, u) + length [0..<degree g] * ?c"
  proof (rule for_each_meter)
    show "snd (c, u) + length [0..<degree g] * ?c \<le> pmax_steps (plimits g)" using assms(3) by simp
    fix k and s :: "phy_perm_chain \<times> nat"
    assume "k < length [0..<degree g]" "snd s + ?c \<le> pmax_steps (plimits g)"
    then show "\<exists>s'. ?f ([0..<degree g] ! k) s = (PHY_OK, s') \<and> True \<and> snd s' \<le> snd s + ?c"
      using build_level_pays [OF assms(1), of k "snd s"] by (cases s) auto
  qed simp
  then show ?thesis
    using chain_build_good [OF assms(1,2)] by (fastforce simp: phy_perm_chain_build_def)
qed

lemma sift_pays:
  assumes "u + 2 * length ls \<le> pmax_steps (plimits g)"
  shows "\<exists>r' s' u'. sift_levels g c ls (r, s, u) = (PHY_OK, r', s', u') \<and> u' \<le> u + 2 * length ls"
  using assms
proof (induction ls arbitrary: r s u)
  case (Cons l ls)
  let ?t = "transversal (c ! l) ! (r ! l)"
  let ?r = "phy_perm_compose_unchecked (phy_perm_inverse_unchecked ?t (degree g) (replicate (degree g) 0)) r (degree g)"
  have "u + 2 + 2 * length ls \<le> pmax_steps (plimits g)" using Cons.prems by simp
  from Cons.IH [OF this, of ?r "s * row_sign (c ! l) ! (r ! l)"] show ?case
    using step_pays [of u 2 g] Cons.prems by (auto simp: Let_def)
qed simp

section \<open>How many strong generators there can be\<close>

lemma card_perms: "card {p. perm n p} = fact n"
proof -
  have "card {p. length p = n \<and> distinct p \<and> set p \<subseteq> {..<n}} = \<Prod>{card {..<n} - n + 1..card {..<n}}"
    by (rule card_lists_distinct_length_eq) simp_all
  then show ?thesis by (simp add: perm_def fact_prod)
qed

lemma strong_count: "wf_group g \<Longrightarrow> length (strong g) \<le> fact (degree g)"
proof -
  assume wf: "wf_group g"
  have "card (set (map fst (strong g))) \<le> card {p. perm (degree g) p}"
    using wf by (intro card_mono finite_perms) (auto simp: sperm_def dest: wf_strong)
  moreover have "distinct (map fst (strong g))" using wf by (simp add: wf_group_def)
  ultimately show ?thesis using card_perms [of "degree g"] by (metis distinct_card length_map)
qed

lemma add_strong_pays:
  assumes wf: "wf_group g" and snd: "sound g" and x: "(p, s) \<in> target g"
    and "fact (degree g) \<le> max_strong_generators (plimits g)"
  shows "\<exists>g' ch. phy_perm_add_strong g p s = (PHY_OK, g', ch)"
proof (rule ccontr)
  assume no: "\<nexists>g' ch. phy_perm_add_strong g p s = (PHY_OK, g', ch)"
  then have big: "\<not> phy_perm_identity_image p (degree g)" "find (\<lambda>(im, s, l). im = p) (strong g) = None"
      "max_strong_generators (plimits g) \<le> length (strong g)"
    by (auto simp: phy_perm_add_strong_def split: option.splits if_splits)
  have sp: "sperm (degree g) (p, s)" using span_sperm [OF _ sperms_target [OF wf]] x by (simp add: target_def)
  let ?h = "g\<lparr>strong := strong g @ [(p, s, phy_perm_level p (degree g))]\<rparr>"
  have "phy_perm_level p (degree g) < degree g"
    using big(1) perm_level_le [of p "degree g"] by (simp add: phy_perm_identity_image_def)
  moreover have "p \<notin> fst ` set (strong g)" using big(2) by (auto simp: find_None_iff)
  ultimately have "wf_group ?h" using wf sp by (simp add: wf_group_def)
  from strong_count [OF this] show False using assms(4) big(3) by simp
qed

section \<open>A whole pass and the fixpoint\<close>

definition pass_cost :: "nat \<Rightarrow> nat" where
  "pass_cost n = n * (n * (fact n * (2 * n + 5)))"

lemma schreier_body_pays:
  assumes wf: "wf_group g0" and good: "good_chain g0 chain" and l: "l < degree g0"
    and y: "y \<in> orbit_of (degree g0) (level_gens g0 l) l" and k: "k < length (strong g0)"
    and inv: "pass_inv g0 st"
    and room: "fact (degree g0) \<le> max_strong_generators (plimits g0)"
    and paid: "fst (snd st) + (2 * degree g0 + 4) \<le> pmax_steps (plimits g0)"
  shows "\<exists>st'. schreier_body chain l y k st = (PHY_OK, st') \<and> fst (snd st') \<le> fst (snd st) + (2 * degree g0 + 4)"
proof -
  obtain g u ch where st: "st = (g, u, ch)" by (cases st)
  let ?n = "degree g0"
  have gr: "grows g0 g" using inv by (simp add: pass_inv_def st)
  then have g: "wf_group g" "sound g" "degree g = ?n" "plimits g = plimits g0" by (simp_all add: grows_def)
  obtain p s lv where ps: "strong g0 ! k = (p, s, lv)" by (cases "strong g0 ! k")
  then have psg: "strong g ! k = (p, s, lv)" using gr k by (auto simp: grows_def nth_append)
  show ?thesis
  proof (cases "lv < l")
    case True
    then show ?thesis using psg by (simp add: schreier_body_def st)
  next
    case False
    then have lv: "l \<le> lv" by simp
    define x where "x = smul ?n (sinv ?n (rep (chain ! l) (p ! y))) (smul ?n (p, s) (rep (chain ! l) y))"
    note x = schreier_member [OF wf good l ps k lv y, folded x_def]
    have sx: "sperm ?n x" using span_sperm [OF x(1) sperms_level_gens [OF wf]] .
    have step: "phy_perm_step g 4 u = (PHY_OK, u + 4)" using paid by (intro step_pays) (simp add: st g(4))
    have fits: "u + 4 + 2 * length [Suc l..<?n] \<le> pmax_steps (plimits g)" using paid by (simp add: st g(4))
    obtain r rs u2 where sl: "sift_levels g chain [Suc l..<?n] (fst x, snd x, u + 4) = (PHY_OK, r, rs, u2)"
        "u2 \<le> u + 4 + 2 * (?n - Suc l)"
      using sift_pays [OF fits, of chain "fst x" "snd x"] by auto
    then have sl0: "sift_levels g0 chain [Suc l..<?n] (fst x, snd x, u + 4) = (PHY_OK, r, rs, u2)"
      using gr sift_levels_cong [of g0 g] by (simp add: grows_def)
    from sift_factors [OF wf good _ _ x(2) sl0] l sx
    obtain h where r: "sperm ?n (r, rs)" and h: "h \<in> grp_span ?n (level_gens g0 (Suc l))" "x = smul ?n h (r, rs)"
      by auto
    have h0: "h \<in> level_group g0 l"
      using h(1) span_gens_level [OF wf] level_group_antimono [OF wf, of l "Suc l"] by auto
    have "(r, rs) = smul ?n (sinv ?n h) x" using h(2) r level_group_sperm [OF wf h0] by simp
    moreover have "x \<in> level_group g0 l" using x(1) span_gens_level [OF wf, of l] by blast
    ultimately have "(r, rs) \<in> level_group g0 l"
      using level_group_mul [OF wf level_group_inv [OF wf h0]] by simp
    then have "(r, rs) \<in> level_group g 0"
      using level_group_antimono [OF wf, of 0 l] grows_level_group [OF gr, of 0] by auto
    then have tg: "(r, rs) \<in> target g" using level_group_sound [OF g(1,2)] by blast
    have "fact (degree g) \<le> max_strong_generators (plimits g)" using room g(3,4) by simp
    then obtain g' c where add: "phy_perm_add_strong g r rs = (PHY_OK, g', c)"
      using add_strong_pays [OF g(1,2) tg] by blast
    have "phy_perm_sift g chain (fst x) (snd x) (l + 1) (u + 4) = (PHY_OK, r, rs, u2)"
      using sl(1) l by (simp add: phy_perm_sift_def g(3))
    then have "schreier_body chain l y k st = (PHY_OK, g', u2, ch \<or> c)"
      using False add step psg
      by (simp add: schreier_body_def st Let_def x_def smul_def sinv_def rep_def g(3) mult.assoc)
    then show ?thesis using sl(2) l by (simp add: st)
  qed
qed

lemma schreier_point_pays:
  assumes wf: "wf_group g0" and good: "good_chain g0 chain" and l: "l < degree g0" and y: "y < degree g0"
    and inv: "pass_inv g0 st"
    and room: "fact (degree g0) \<le> max_strong_generators (plimits g0)"
    and paid: "fst (snd st) + length (strong g0) * (2 * degree g0 + 4) \<le> pmax_steps (plimits g0)"
  shows "\<exists>st'. schreier_point chain (length (strong g0)) l y st = (PHY_OK, st') \<and> pass_inv g0 st' \<and>
    fst (snd st') \<le> fst (snd st) + length (strong g0) * (2 * degree g0 + 4)"
proof (cases "valid (chain ! l) ! y")
  case False
  then show ?thesis using inv by (simp add: schreier_point_def)
next
  case True
  then have yo: "y \<in> orbit_of (degree g0) (level_gens g0 l) l"
    using good l y by (auto simp: good_chain_def good_row_def Let_def)
  let ?c = "2 * degree g0 + 4" and ?m = "length (strong g0)"
  have "\<exists>s'. for_each [0..<?m] (schreier_body chain l y) st = (PHY_OK, s') \<and> pass_inv g0 s' \<and>
      (fst \<circ> snd) s' \<le> (fst \<circ> snd) st + length [0..<?m] * ?c"
  proof (rule for_each_meter)
    show "(fst \<circ> snd) st + length [0..<?m] * ?c \<le> pmax_steps (plimits g0)" using paid by simp
    fix k s assume k: "k < length [0..<?m]" and s: "pass_inv g0 s" "(fst \<circ> snd) s + ?c \<le> pmax_steps (plimits g0)"
    then have "k < ?m" and idx: "[0..<?m] ! k = k" by simp_all
    from schreier_body_pays [OF wf good l yo this(1) s(1) room] s(2)
    obtain s' where s': "schreier_body chain l y k s = (PHY_OK, s')" "fst (snd s') \<le> fst (snd s) + ?c" by auto
    have "pass_inv g0 s'"
      using schreier_body_inv [OF wf good l yo \<open>k < ?m\<close> s(1)] s'(1) by simp
    then show "\<exists>s'. schreier_body chain l y ([0..<?m] ! k) s = (PHY_OK, s') \<and> pass_inv g0 s' \<and>
        (fst \<circ> snd) s' \<le> (fst \<circ> snd) s + ?c"
      using s' unfolding idx by simp
  qed (rule inv)
  then show ?thesis using True by (simp add: schreier_point_def)
qed

lemma pass_pays:
  assumes wf: "wf_group g0" and snd: "sound g0" and good: "good_chain g0 chain"
    and room: "fact (degree g0) \<le> max_strong_generators (plimits g0)"
    and paid: "u + degree g0 * (degree g0 * (length (strong g0) * (2 * degree g0 + 4))) \<le> pmax_steps (plimits g0)"
  shows "\<exists>g u' ch. add_schreier_generators chain (g0, u) = (PHY_OK, g, u', ch) \<and>
    u' \<le> u + degree g0 * (degree g0 * (length (strong g0) * (2 * degree g0 + 4)))"
proof -
  let ?n = "degree g0" and ?m = "length (strong g0)"
  let ?p = "?m * (2 * ?n + 4)"
  have point: "\<exists>s'. for_each [0..<?n] (schreier_point chain ?m l) s = (PHY_OK, s') \<and> pass_inv g0 s' \<and>
      (fst \<circ> snd) s' \<le> (fst \<circ> snd) s + length [0..<?n] * ?p"
    if l: "l < ?n" and s: "pass_inv g0 s" "(fst \<circ> snd) s + ?n * ?p \<le> pmax_steps (plimits g0)" for l s
  proof (rule for_each_meter)
    show "(fst \<circ> snd) s + length [0..<?n] * ?p \<le> pmax_steps (plimits g0)" using s(2) by simp
    fix k s assume k: "k < length [0..<?n]" and s: "pass_inv g0 s" "(fst \<circ> snd) s + ?p \<le> pmax_steps (plimits g0)"
    then have "k < ?n" and idx: "[0..<?n] ! k = k" by simp_all
    from schreier_point_pays [OF wf good l this(1) s(1) room] s(2)
    show "\<exists>s'. schreier_point chain ?m l ([0..<?n] ! k) s = (PHY_OK, s') \<and> pass_inv g0 s' \<and>
        (fst \<circ> snd) s' \<le> (fst \<circ> snd) s + ?p"
      unfolding idx by auto
  qed (rule s(1))
  have "\<exists>s'. for_each [0..<?n] (\<lambda>l. for_each [0..<?n] (schreier_point chain ?m l)) (g0, u, False) = (PHY_OK, s') \<and>
      pass_inv g0 s' \<and> (fst \<circ> snd) s' \<le> (fst \<circ> snd) (g0, u, False) + length [0..<?n] * (?n * ?p)"
  proof (rule for_each_meter)
    show "(fst \<circ> snd) (g0, u, False) + length [0..<?n] * (?n * ?p) \<le> pmax_steps (plimits g0)"
      using paid by simp
    show "pass_inv g0 (g0, u, False)" using grows_refl [OF wf snd] by (simp add: pass_inv_def)
    fix k s assume k: "k < length [0..<?n]" and s: "pass_inv g0 s" "(fst \<circ> snd) s + ?n * ?p \<le> pmax_steps (plimits g0)"
    then have "k < ?n" and idx: "[0..<?n] ! k = k" by simp_all
    from point [OF this(1) s]
    show "\<exists>s'. for_each [0..<?n] (schreier_point chain ?m ([0..<?n] ! k)) s = (PHY_OK, s') \<and> pass_inv g0 s' \<and>
        (fst \<circ> snd) s' \<le> (fst \<circ> snd) s + ?n * ?p"
      unfolding idx by simp
  qed
  then show ?thesis by (auto simp: add_schreier_generators_def)
qed

lemma pass_cost_split:
  assumes "m \<le> fact n"
  shows "n * (n * m) + n * (n * (m * (2 * n + 4))) \<le> pass_cost n"
proof -
  have "n * (n * m) + n * (n * (m * (2 * n + 4))) = n * (n * (m * (2 * n + 5)))"
    by (simp add: algebra_simps)
  also have "\<dots> \<le> pass_cost n" unfolding pass_cost_def using assms by (intro mult_le_mono2 mult_le_mono1)
  finally show ?thesis .
qed

definition remaining :: "phy_perm_group \<Rightarrow> nat" where
  "remaining g = (fact (degree g) - length (strong g)) + (if negative_identity g then 0 else 1)"

lemma build_loop_pays:
  assumes "wf_group g" "sound g" "length chain = degree g"
    and "fact (degree g) \<le> max_strong_generators (plimits g)"
    and "u + Suc (remaining g) * pass_cost (degree g) \<le> pmax_steps (plimits g)"
  shows "\<exists>g' c' u'. build_loop g chain u = (PHY_OK, g', c', u') \<and>
    u' \<le> u + Suc (remaining g) * pass_cost (degree g)"
  using assms
proof (induction "remaining g" arbitrary: g chain u rule: less_induct)
  case less
  let ?n = "degree g" and ?m = "length (strong g)" and ?C = "pass_cost (degree g)"
  note wf = less.prems(1) and sd = less.prems(2)
  have m: "?m \<le> fact ?n" using strong_count [OF wf] .
  have tot: "u + (?n * (?n * ?m) + ?n * (?n * (?m * (2 * ?n + 4)))) + remaining g * ?C \<le> pmax_steps (plimits g)"
    using less.prems(5) pass_cost_split [OF m] by simp
  then have "u + ?n * (?n * ?m) \<le> pmax_steps (plimits g)" by linarith
  from chain_build_pays [OF wf less.prems(3) this]
  obtain c1 u1 where b: "phy_perm_chain_build g (chain, u) = (PHY_OK, c1, u1)"
      "good_chain g c1" "length c1 = ?n" "u1 \<le> u + ?n * (?n * ?m)" by blast
  have "u1 + ?n * (?n * (?m * (2 * ?n + 4))) \<le> pmax_steps (plimits g)" using tot b(4) by linarith
  from pass_pays [OF wf sd b(2) less.prems(4) this]
  obtain g2 u2 ch where a: "add_schreier_generators c1 (g, u1) = (PHY_OK, g2, u2, ch)"
      "u2 \<le> u1 + ?n * (?n * (?m * (2 * ?n + 4)))" by blast
  have u2: "u2 \<le> u + ?C" using a(2) b(4) pass_cost_split [OF m] by linarith
  have gr: "grows g g2" using pass_correct [OF wf sd b(2), of u1] a(1) by simp
  show ?case
  proof (cases ch)
    case False
    have "u2 \<le> u + Suc (remaining g) * ?C" using u2 by simp
    then show ?thesis using False a(1) b(1) by (simp add: build_loop.simps [of g])
  next
    case True
    have g2: "wf_group g2" "sound g2" "degree g2 = ?n" "plimits g2 = plimits g" using gr by (simp_all add: grows_def)
    have "slack g2 < slack g" using add_schreier_slack [OF a(1)] True by simp
    then have R: "remaining g2 < remaining g"
      using strong_count [OF g2(1)] m less.prems(4) g2(3,4)
      by (auto simp: slack_def remaining_def split: if_splits)
    then have "Suc (remaining g2) * ?C \<le> remaining g * ?C" by (intro mult_le_mono1) simp
    then have "u2 + Suc (remaining g2) * ?C \<le> u + Suc (remaining g) * ?C" using u2 by simp
    moreover from this have "u2 + Suc (remaining g2) * pass_cost (degree g2) \<le> pmax_steps (plimits g2)"
      using less.prems(5) g2(3,4) by simp
    then obtain g' c' u' where "build_loop g2 c1 u2 = (PHY_OK, g', c', u')"
        "u' \<le> u2 + Suc (remaining g2) * pass_cost (degree g2)"
      using less.hyps [OF R g2(1,2), of c1 u2] b(3) less.prems(4) g2(3,4) by auto
    ultimately show ?thesis using True a(1) b(1) g2(3) by (auto simp: build_loop.simps [of g])
  qed
qed

lemma initialize_pays:
  assumes "wf_group g" "fact (degree g) \<le> max_strong_generators (plimits g)"
  shows "\<exists>g'. initialize_strong_generators g = (PHY_OK, g')"
proof -
  let ?g = "g\<lparr>strong := [], negative_identity := False\<rparr>"
  let ?f = "\<lambda>(img, sign) g. case phy_perm_add_strong g img sign of (status, g', _) \<Rightarrow> (status, g')"
  have "\<exists>s'. for_each (generators g) ?f ?g = (PHY_OK, s') \<and> grows ?g s' \<and>
      (\<lambda>_. 0) s' \<le> (\<lambda>_. 0) ?g + length (generators g) * (0 :: nat)"
  proof (rule for_each_meter)
    show "grows ?g ?g"
      using assms(1) by (intro grows_refl) (simp_all add: wf_group_def sound_def level_gens_def flag_gens_def)
    fix k h assume k: "k < length (generators g)" and h: "grows ?g h"
    obtain p s where x: "generators g ! k = (p, s)" by fastforce
    have h': "wf_group h" "sound h" "generators h = generators g" "degree h = degree g" "plimits h = plimits g"
      using h by (simp_all add: grows_def)
    have "(p, s) \<in> set (generators h)" using x k h'(3) by (metis nth_mem)
    then have t: "(p, s) \<in> target h" unfolding target_def by (rule span_base [OF sperms_target [OF h'(1)]])
    from add_strong_pays [OF h'(1,2) t] assms(2) h'(4,5)
    obtain g' ch where a: "phy_perm_add_strong h p s = (PHY_OK, g', ch)" by auto
    from add_strong_grows [OF h'(1,2) t a] have "grows ?g g'" using h grows_trans by blast
    then show "\<exists>s'. ?f (generators g ! k) h = (PHY_OK, s') \<and> grows ?g s' \<and>
        (\<lambda>_. 0) s' \<le> (\<lambda>_. 0 :: nat) h + 0"
      using a x by simp
  qed simp
  then show ?thesis by (auto simp: initialize_strong_generators_def)
qed

section \<open>The public operations\<close>

text \<open>
  Sufficient limits of a group object: room for every permutation of the degree, the chain's
  memory, and a work meter covering the passes of the fixpoint and the final rebuild.
\<close>

definition ample :: "phy_perm_group \<Rightarrow> (nat \<Rightarrow> bool) \<Rightarrow> bool" where
  "ample g alloc \<longleftrightarrow> (\<exists>bytes. chain_bytes (degree g) = Some bytes \<and>
       bytes \<le> pmax_bytes (plimits g) - persistent_bytes g \<and> alloc bytes) \<and>
     fact (degree g) \<le> max_strong_generators (plimits g) \<and>
     (fact (degree g) + 3) * pass_cost (degree g) \<le> pmax_steps (plimits g) \<and>
     2 * fact (degree g) < (2 ^ 64 :: nat)"

lemma card_target: "wf_group g \<Longrightarrow> card (target g) \<le> 2 * fact (degree g)"
proof -
  assume wf: "wf_group g"
  have "target g \<subseteq> {p. perm (degree g) p} \<times> {1, - 1}"
  proof
    fix x assume "x \<in> target g"
    then have "sperm (degree g) x" unfolding target_def by (rule span_sperm [OF _ sperms_target [OF wf]])
    then show "x \<in> {p. perm (degree g) p} \<times> {1, - 1}" by (cases x) (simp add: sperm_def)
  qed
  then have "card (target g) \<le> card ({p. perm (degree g) p} \<times> {1, - 1 :: int})"
    by (intro card_mono) (simp_all add: finite_perms)
  then show ?thesis by (simp add: card_cartesian_product card_perms)
qed

lemma compute_order_pays:
  assumes wf: "wf_group g" and cl: "closed_chain g" and good: "good_chain g c" and "sound g"
    and "2 * fact (degree g) < (2 ^ 64 :: nat)"
  shows "\<exists>g'. compute_order g c = (PHY_OK, g')"
proof -
  let ?n = "degree g" and ?z = "if negative_identity g then 2 else 1 :: nat"
  let ?P = "\<lambda>k. (\<Prod>l \<in> {0..<k}. orbit_count (c ! l)) * ?z"
  let ?f = "\<lambda>level ord. let factor = orbit_count (c ! level) in
      if factor \<noteq> 0 \<and> (2 ^ 64 - 1) div factor < ord then (PHY_ERR_OVERFLOW, ord) else (PHY_OK, ord * factor)"
  have pos: "0 < orbit_count (c ! l)" if "l < ?n" for l
  proof -
    have "good_row g l (c ! l)" using good that by (simp add: good_chain_def)
    moreover have "orbit_of ?n (level_gens g l) l \<subseteq> {..<?n}" using orbit_bound [OF wf that] by blast
    then have "finite (orbit_of ?n (level_gens g l) l)" by (rule finite_subset) simp
    moreover have "l \<in> orbit_of ?n (level_gens g l) l" using that by (rule orbit_base)
    ultimately show ?thesis by (auto simp: good_row_def Let_def card_gt_0_iff)
  qed
  have "card (level_group g 0) \<le> card (target g)"
    using level_group_sound [OF wf \<open>sound g\<close>] finite_span [OF sperms_target [OF wf]]
    by (intro card_mono) (simp_all add: target_def)
  then have top: "?P ?n < 2 ^ 64"
    using card_chain [OF wf cl good, of ?n] card_target [OF wf] assms(5) by simp
  have le: "?P (Suc k) < 2 ^ 64" if "k < ?n" for k
  proof -
    have "(\<Prod>l \<in> {0..<Suc k}. orbit_count (c ! l)) \<le> (\<Prod>l \<in> {0..<?n}. orbit_count (c ! l))"
    proof (rule dvd_imp_le)
      show "(\<Prod>l \<in> {0..<Suc k}. orbit_count (c ! l)) dvd (\<Prod>l \<in> {0..<?n}. orbit_count (c ! l))"
        using that by (intro prod_dvd_prod_subset) auto
      show "0 < (\<Prod>l \<in> {0..<?n}. orbit_count (c ! l))" using pos by (simp add: prod_pos)
    qed
    then show ?thesis using top by (meson mult_le_mono1 order_le_less_trans)
  qed
  have "outcome (for_each [0..<?n] ?f ?z) ((\<lambda>k ord. ord = ?P k) (length [0..<?n])) (\<lambda>_ _. False)"
  proof (rule outcome_for_each)
    fix k and ord :: nat assume k: "k < length [0..<?n]" and o: "ord = ?P k"
    let ?d = "orbit_count (c ! k)"
    have "0 < ?d" using pos k by simp
    moreover have "ord * ?d \<le> 2 ^ 64 - 1" using le [of k] k o by (simp add: mult.commute mult.left_commute)
    ultimately have "ord \<le> (2 ^ 64 - 1) div ?d" by (simp only: less_eq_div_iff_mult_less_eq)
    then have no: "\<not> (?d \<noteq> 0 \<and> (2 ^ 64 - 1) div ?d < ord)" by simp
    have idx: "[0..<?n] ! k = k" using k by simp
    have "?f ([0..<?n] ! k) ord = (PHY_OK, ord * ?d)" unfolding idx Let_def using no by (rule if_not_P)
    then show "outcome (?f ([0..<?n] ! k) ord) ((\<lambda>k ord. ord = ?P k) (Suc k)) (\<lambda>_ _. False)"
      using o by (simp add: algebra_simps)
  qed simp
  moreover obtain st ord where fe: "for_each [0..<?n] ?f ?z = (st, ord)" by fastforce
  ultimately have "st = PHY_OK" unfolding fe by (simp split: if_splits)
  then show ?thesis using fe by (simp add: compute_order_def)
qed

lemma build_pays:
  assumes inv: "group_inv g" and amp: "ample g alloc"
  shows "\<exists>g'. phy_perm_group_build_bsgs g alloc = (PHY_OK, g')"
proof -
  let ?g = "g\<lparr>built := False, order := 0\<rparr>" and ?n = "degree g" and ?C = "pass_cost (degree g)"
  have wf: "wf_group ?g" using inv by (simp add: group_inv_def wf_group_def)
  obtain g0 where i: "initialize_strong_generators ?g = (PHY_OK, g0)"
    using initialize_pays [OF wf] amp by (auto simp: ample_def)
  from initialize_grows [OF wf i] have gr0: "grows (?g\<lparr>strong := [], negative_identity := False\<rparr>) g0" by simp
  then have g0: "wf_group g0" "sound g0" "degree g0 = ?n" "plimits g0 = plimits g" "persistent_bytes g0 = persistent_bytes g"
    by (simp_all add: grows_def)
  then have a: "phy_perm_chain_allocate g0 alloc = (PHY_OK, replicate ?n (zero_row ?n))"
    using amp by (auto simp: ample_def phy_perm_chain_allocate_def)
  have rem: "Suc (remaining h) * ?C \<le> (fact ?n + 2) * ?C" if "degree h = ?n" for h
    using that by (intro mult_le_mono1) (simp add: remaining_def le_diff_conv)
  have "(fact ?n + 3) * ?C = (fact ?n + 2) * ?C + ?C" by (simp add: algebra_simps)
  then have steps: "(fact ?n + 2) * ?C + ?C \<le> pmax_steps (plimits g)" using amp by (simp add: ample_def)
  have "0 + Suc (remaining g0) * pass_cost (degree g0) \<le> pmax_steps (plimits g0)"
    using rem [of g0] steps g0(3,4) by simp
  from build_loop_pays [OF g0(1,2) _ _ this, of "replicate ?n (zero_row ?n)"] amp g0(3,4)
  obtain g1 c1 u1 where l: "build_loop g0 (replicate ?n (zero_row ?n)) 0 = (PHY_OK, g1, c1, u1)"
      "u1 \<le> Suc (remaining g0) * ?C"
    by (auto simp: ample_def)
  from build_loop_correct [OF g0(1,2), of "replicate ?n (zero_row ?n)" 0, unfolded l(1)] g0(3)
  have g1: "grows g0 g1" "length c1 = ?n" "closed_chain g1" by simp_all
  then have g1': "wf_group g1" "sound g1" "degree g1 = ?n" "plimits g1 = plimits g"
    using g0(3,4) by (simp_all add: grows_def)
  have "?n * (?n * length (strong g1)) \<le> ?C"
    using pass_cost_split [of "length (strong g1)" ?n] strong_count [OF g1'(1)] g1'(3) by simp
  then have "u1 + degree g1 * (degree g1 * length (strong g1)) \<le> pmax_steps (plimits g1)"
    using l(2) rem [OF g0(3)] steps g1'(3,4) by simp
  from chain_build_pays [OF g1'(1) _ this, of c1] g1(2) g1'(3)
  obtain c2 u2 where b: "phy_perm_chain_build g1 (c1, u1) = (PHY_OK, c2, u2)" "good_chain g1 c2" by auto
  obtain g2 where "compute_order g1 c2 = (PHY_OK, g2)"
    using compute_order_pays [OF g1'(1) g1(3) b(2) g1'(2)] amp g1'(3) by (auto simp: ample_def)
  then show ?thesis
    by (simp add: phy_perm_group_build_bsgs_def i a l(1) b(1) g0(3))
qed

lemma contains_pays:
  assumes inv: "group_inv g" and "built g" and p: "length p = degree g" "phy_permutation_valid (Some p) (degree g)"
    and "sign = 1 \<or> sign = - 1" and amp: "ample g alloc"
  shows "\<exists>out. phy_perm_group_contains g (Some p) sign alloc = (PHY_OK, out)"
proof -
  let ?n = "degree g" and ?C = "pass_cost (degree g)"
  have wf: "wf_group g" using inv by (simp add: group_inv_def)
  have a: "phy_perm_chain_allocate g alloc = (PHY_OK, replicate ?n (zero_row ?n))"
    using amp by (auto simp: ample_def phy_perm_chain_allocate_def)
  have c: "?n * (?n * length (strong g)) \<le> ?C"
    using pass_cost_split [of "length (strong g)" ?n] strong_count [OF wf] by simp
  have "0 < ?n" using wf by (simp add: wf_group_def)
  then have "1 * (1 * 2) \<le> ?n * (fact ?n * (2 * ?n + 5))" by (intro mult_le_mono) simp_all
  then have "?n * 2 \<le> ?C" unfolding pass_cost_def by (intro mult_le_mono2) simp
  then have "2 * ?n \<le> ?C" by simp
  moreover have "2 * ?C \<le> (fact ?n + 3) * ?C" by (intro mult_le_mono1) simp
  moreover have "(fact ?n + 3) * ?C \<le> pmax_steps (plimits g)" using amp unfolding ample_def by blast
  ultimately have steps: "?C + 2 * ?n \<le> pmax_steps (plimits g)" by linarith
  then have "0 + ?n * (?n * length (strong g)) \<le> pmax_steps (plimits g)" using c by simp
  from chain_build_pays [OF wf _ this, of "replicate ?n (zero_row ?n)"]
  obtain c1 u1 where b: "phy_perm_chain_build g (replicate ?n (zero_row ?n), 0) = (PHY_OK, c1, u1)" "u1 \<le> ?C"
    using c by auto
  have "u1 + 2 * length [0..<?n] \<le> pmax_steps (plimits g)" using b(2) steps by simp
  from sift_pays [OF this, of c1 p sign] obtain r s u where
    "phy_perm_sift g c1 p sign 0 u1 = (PHY_OK, r, s, u)" by (auto simp: phy_perm_sift_def)
  then show ?thesis using assms(2,4,5) by (auto simp: phy_perm_group_contains_def a b(1))
qed

lemma orbit_visit_pays:
  assumes "u + length gens \<le> pmax_steps (plimits g)"
  shows "\<exists>seen' q' u'. for_each gens (orbit_generator g x) (seen, q, u) = (PHY_OK, seen', q', u') \<and>
    u' \<le> u + length gens"
proof -
  have "\<exists>s'. for_each gens (orbit_generator g x) (seen, q, u) = (PHY_OK, s') \<and> True \<and>
      (snd \<circ> snd) s' \<le> (snd \<circ> snd) (seen, q, u) + length gens * 1"
  proof (rule for_each_meter)
    show "(snd \<circ> snd) (seen, q, u) + length gens * 1 \<le> pmax_steps (plimits g)" using assms by simp
    fix k and s :: "bool list \<times> nat list \<times> nat"
    assume "(snd \<circ> snd) s + 1 \<le> pmax_steps (plimits g)"
    then show "\<exists>s'. orbit_generator g x (gens ! k) s = (PHY_OK, s') \<and> True \<and> (snd \<circ> snd) s' \<le> (snd \<circ> snd) s + 1"
      using step_pays [of "snd (snd s)" 1 g] by (cases s) (simp add: orbit_generator_def Let_def)
  qed simp
  then show ?thesis by auto
qed

interpretation orbit_meter: metered_worklist "degree g" "strong_succs g" "fst \<circ> snd"
    "\<lambda>st. wf_group g \<and> b < degree g \<and> orbit_inv g b st"
    "\<lambda>x. for_each (strong g) (orbit_generator g x)" "orbit_loop g"
    "snd \<circ> snd" "length (strong g)" "pmax_steps (plimits g)"
  for g b
proof (unfold_locales, goal_cases)
  case (1 s x)
  then show ?case
    using orbit_visit_pays [of "snd (snd s)" "strong g" g x "fst s" "fst (snd s)"] by auto
qed

lemma orbit_pays:
  assumes inv: "group_inv g" and "built g" and b: "b < degree g" "degree g \<le> capacity"
    and room: "align_up (degree g) 2 + degree g * 2 \<le> pmax_bytes (plimits g) - persistent_bytes g"
      "pmax_bytes (plimits g) \<le> SIZE_MAX" "alloc (align_up (degree g) 2 + degree g * 2)"
    and steps: "degree g * length (strong g) \<le> pmax_steps (plimits g)"
  shows "\<exists>points. phy_perm_group_orbit g b (Some buf) capacity alloc =
    (PHY_OK, Some (points @ drop (length points) buf), Some (length points))"
proof -
  let ?n = "degree g" and ?s = "((replicate (degree g) False)[b := True], [b], 0 :: nat)"
  have wf: "wf_group g" using inv by (simp add: group_inv_def)
  have "orbit_inv g b ?s"
    using b orbit_base [OF b(1)] by (auto simp: orbit_inv_def nth_list_update)
  then obtain seen q u where loop: "orbit_loop g 0 ?s = (PHY_OK, seen, q, u)"
    using orbit_meter.loop_succeeds [of g b ?s 0] wf b(1) steps by auto
  have "align_up ?n 2 + ?n * 2 \<le> SIZE_MAX" using room(1,2) by linarith
  then have "\<not> (SIZE_MAX - align_up ?n 2) div 2 < ?n" by (simp add: not_less less_eq_div_iff_mult_less_eq)
  then show ?thesis
    using assms(2) b room loop by (auto simp: phy_perm_group_orbit_def Let_def not_less)
qed

end
