(* ===== verification/PermProperties.thy ===== *)
theory PermProperties
  imports BsgsBudget "HOL-Library.Code_Target_Nat"
begin

text \<open>
  The properties of the permutation component, for every group object a client can reach
  through the public operations: exact order, membership, sign and orbit queries, error
  paths, and success under the default limits for the degrees of the built-in tensors.
\<close>

section \<open>Reachable group objects\<close>

inductive perm_object :: "phy_perm_group \<Rightarrow> bool" where
  created: "phy_perm_group_create deg limits alloc = (PHY_OK, Some g) \<Longrightarrow> perm_object g"
| generator: "perm_object g \<Longrightarrow> length p = degree g \<Longrightarrow>
    phy_perm_group_add_generator g (Some p) sign = (st, g') \<Longrightarrow> perm_object g'"
| built: "perm_object g \<Longrightarrow> phy_perm_group_build_bsgs g alloc = (st, g') \<Longrightarrow> perm_object g'"

lemma perm_object_inv: "perm_object g \<Longrightarrow> group_inv g"
proof (induction rule: perm_object.induct)
  case (created deg limits alloc g)
  then show ?case using create_inv by blast
next
  case (generator g p sign st g')
  then show ?case using add_generator_inv by blast
next
  case (built g alloc st g')
  then show ?case using build_correct by blast
qed

lemma built_target: "group_inv g \<Longrightarrow> built g \<Longrightarrow> built_ok g"
  by (simp add: group_inv_def)

lemma stabilizer_descent:
  assumes "wf_group g" "closed_chain g" "x \<in> level_group g 0" "\<And>i. i < degree g \<Longrightarrow> act x i = i"
    and "k \<le> degree g"
  shows "x \<in> level_group g k"
  using assms(5)
proof (induction k)
  case (Suc k)
  then show ?case using assms(2) assms(4) [of k] unfolding closed_chain_def by (simp add: Suc_le_eq)
qed (rule assms(3))

text \<open>Concrete objects for the witnesses: the symmetric group on three points with the sign character.\<close>

definition s3_created :: phy_perm_group where
  "s3_created = (case phy_perm_group_create 3 None (\<lambda>_. True) of (_, Some g) \<Rightarrow> g)"

definition s3_rotation :: phy_perm_group where
  "s3_rotation = snd (phy_perm_group_add_generator s3_created (Some [1, 2, 0]) 1)"

definition s3_group :: phy_perm_group where
  "s3_group = snd (phy_perm_group_add_generator s3_rotation (Some [1, 0, 2]) (- 1))"

definition s3_built :: phy_perm_group where
  "s3_built = snd (phy_perm_group_build_bsgs s3_group (\<lambda>_. True))"

lemma s3_create: "phy_perm_group_create 3 None (\<lambda>_. True) = (PHY_OK, Some s3_created)"
proof -
  have "fst (phy_perm_group_create 3 None (\<lambda>_. True)) = PHY_OK"
    "snd (phy_perm_group_create 3 None (\<lambda>_. True)) \<noteq> None" by code_simp+
  then show ?thesis by (auto simp: s3_created_def split: prod.splits)
qed

lemma s3_objects: "perm_object s3_group" "perm_object s3_built"
proof -
  have c: "perm_object s3_created" "degree s3_created = 3"
    using create_inv [OF s3_create] perm_object.created [OF s3_create] by simp_all
  have r: "perm_object s3_rotation"
    by (rule perm_object.generator [OF c(1), of "[1, 2, 0]" 1 "fst (phy_perm_group_add_generator s3_created (Some [1, 2, 0]) 1)"])
      (simp_all add: c(2) s3_rotation_def)
  have "degree s3_rotation = 3" by code_simp
  then show g: "perm_object s3_group"
    by (intro perm_object.generator [OF r, of "[1, 0, 2]" "- 1"
          "fst (phy_perm_group_add_generator s3_rotation (Some [1, 0, 2]) (- 1))"])
      (simp_all add: s3_group_def)
  show "perm_object s3_built"
    by (rule perm_object.built [OF g, of "\<lambda>_. True" "fst (phy_perm_group_build_bsgs s3_group (\<lambda>_. True))"])
      (simp add: s3_built_def)
qed

section \<open>Properties\<close>

text \<open>
  C3. The strong-generating-set construction is exact: whenever the build of a reachable
  group object reports success, the object is marked built, its generators are untouched, and
  the order it reports is the number of signed permutations the caller's generators generate.
\<close>

theorem perm_order_exact:
  assumes "perm_object g" "phy_perm_group_build_bsgs g alloc = (PHY_OK, g')"
  shows "phy_perm_group_is_built (Some g') \<and> generators g' = generators g \<and>
    phy_perm_group_order (Some g') = card (grp_span (degree g) (set (generators g)))"
  using build_correct [OF perm_object_inv [OF assms(1)] assms(2)]
  by (auto simp: phy_perm_group_is_built_def phy_perm_group_order_def group_inv_def built_ok_def target_def)

theorem perm_order_exact_witness:
  "phy_perm_group_order (Some s3_built) = 6 \<and>
   card (grp_span (degree s3_group) (set (generators s3_group))) = 6"
proof -
  have "fst (phy_perm_group_build_bsgs s3_group (\<lambda>_. True)) = PHY_OK" by code_simp
  then have "phy_perm_group_build_bsgs s3_group (\<lambda>_. True) = (PHY_OK, s3_built)"
    by (simp add: s3_built_def prod_eq_iff)
  from perm_order_exact [OF s3_objects(1) this]
  moreover have "phy_perm_group_order (Some s3_built) = 6" by code_simp
  ultimately show ?thesis by simp
qed

text \<open>
  C1. The membership test decides the generated group: on a reachable object that is marked
  built, a successful call answers true exactly for the signed permutations that are products
  of the caller's generators, and false for every other.
\<close>

theorem perm_contains_exact:
  assumes "perm_object g" "length p = degree g"
    and "phy_perm_group_contains g (Some p) sign alloc = (PHY_OK, out)"
  shows "out = Some ((p, sign) \<in> grp_span (degree g) (set (generators g)))"
  using contains_exact [OF perm_object_inv [OF assms(1)] assms(2,3)] by (simp add: target_def)

theorem perm_contains_exact_witness:
  "([0, 2, 1], - 1) \<in> grp_span (degree s3_built) (set (generators s3_built)) \<and>
   ([0, 2, 1], 1) \<notin> grp_span (degree s3_built) (set (generators s3_built))"
proof -
  have l: "length [0, 2, 1 :: nat] = degree s3_built" by code_simp
  have "phy_perm_group_contains s3_built (Some [0, 2, 1]) (- 1) (\<lambda>_. True) = (PHY_OK, Some True)"
    "phy_perm_group_contains s3_built (Some [0, 2, 1]) 1 (\<lambda>_. True) = (PHY_OK, Some False)"
    by code_simp+
  from perm_contains_exact [OF s3_objects(2) l this(1)] perm_contains_exact [OF s3_objects(2) l this(2)]
  show ?thesis by simp
qed

text \<open>
  C10. The orbit query returns the orbit: on a reachable built object a successful call writes
  the points of the orbit of \<open>point\<close> under the caller's generators, each once, in front of the
  unchanged rest of the buffer, and counts them.
\<close>

theorem perm_orbit_exact:
  assumes "perm_object g" "phy_perm_group_orbit g point (Some buf) capacity alloc = (PHY_OK, out, count)"
  shows "\<exists>points. distinct points \<and> set points = orbit_of (degree g) (set (generators g)) point \<and>
    out = Some (points @ drop (length points) buf) \<and> count = Some (length points)"
  using orbit_exact [OF perm_object_inv [OF assms(1)] assms(2)] by blast

theorem perm_orbit_exact_witness:
  "orbit_of (degree s3_built) (set (generators s3_built)) 1 = {0, 1, 2}"
proof -
  have "phy_perm_group_orbit s3_built 1 (Some [9, 9, 9, 9]) 4 (\<lambda>_. True) = (PHY_OK, Some [1, 2, 0, 9], Some 3)"
    by code_simp
  from perm_orbit_exact [OF s3_objects(2) this] obtain points where
    p: "set points = orbit_of (degree s3_built) (set (generators s3_built)) 1"
      "[1, 2, 0, 9] = points @ drop (length points) [9, 9, 9, 9]" "length points = 3" by auto
  then have "points = [1, 2, 0]" by (metis append_eq_conv_conj length_Cons list.size(3) numeral_3_eq_3 take_Suc_Cons take0)
  then show ?thesis using p(1) by auto
qed

text \<open>
  C11. The negative-identity flag is exact: a reachable built object reports it if and only if
  the identity permutation with sign \<open>-1\<close> is a product of the caller's generators (so every
  tensor with that symmetry vanishes).
\<close>

theorem perm_negative_identity_exact:
  assumes "perm_object g" "phy_perm_group_is_built (Some g)"
  shows "phy_perm_group_has_negative_identity (Some g) \<longleftrightarrow>
    (snd (phy_permutation_identity (degree g)), - 1) \<in> grp_span (degree g) (set (generators g))"
proof -
  have inv: "group_inv g" and b: "built g"
    using perm_object_inv assms by (simp_all add: phy_perm_group_is_built_def)
  then have wf: "wf_group g" and ok: "level_group g 0 = target g" "closed_chain g"
    by (simp_all add: group_inv_def built_ok_def)
  have id: "snd (phy_permutation_identity (degree g)) = idp (degree g)"
    using wf by (simp add: phy_permutation_identity_def wf_group_def)
  have "(idp (degree g), - 1) \<in> level_group g 0 \<longleftrightarrow> negative_identity g"
  proof
    assume "(idp (degree g), - 1) \<in> level_group g 0"
    from stabilizer_descent [OF wf ok(2) this, of "degree g"] level_group_top [OF wf]
    show "negative_identity g" by (fastforce simp: sone_def)
  qed (rule flag_element [OF _ wf])
  then show ?thesis using b id ok(1) by (simp add: phy_perm_group_has_negative_identity_def target_def)
qed

theorem perm_negative_identity_exact_witness:
  "([0, 1, 2], - 1) \<notin> grp_span (degree s3_built) (set (generators s3_built))"
proof -
  have "phy_perm_group_is_built (Some s3_built)"
    "\<not> phy_perm_group_has_negative_identity (Some s3_built)"
    "snd (phy_permutation_identity (degree s3_built)) = [0, 1, 2]" by code_simp+
  with perm_negative_identity_exact [OF s3_objects(2)] show ?thesis by simp
qed

text \<open>
  C12. Failure is safe: a build that reports an error leaves the generators and limits as they
  were, the reported order zero and the object unbuilt, so that the queries refuse to answer
  from a partial chain.
\<close>

theorem perm_failure_safe:
  assumes "perm_object g" "phy_perm_group_build_bsgs g alloc = (st, g')" "st \<noteq> PHY_OK"
  shows "generators g' = generators g \<and> plimits g' = plimits g \<and> phy_perm_group_order (Some g') = 0 \<and>
    phy_perm_group_contains g' img sign alloc' = (PHY_ERR_INVALID_ARGUMENT, None) \<and>
    phy_perm_group_orbit g' point buf capacity alloc' = (PHY_ERR_INVALID_ARGUMENT, buf, None)"
  using build_correct [OF perm_object_inv [OF assms(1)] assms(2)] assms(3)
  by (simp add: phy_perm_group_contains_def phy_perm_group_orbit_def phy_perm_group_order_def)

theorem perm_failure_safe_witness:
  "phy_perm_group_contains (snd (phy_perm_group_build_bsgs s3_group (\<lambda>_. False))) (Some [0, 1, 2]) 1 (\<lambda>_. True) =
     (PHY_ERR_INVALID_ARGUMENT, None)"
proof -
  have "phy_perm_group_build_bsgs s3_group (\<lambda>_. False) =
      (PHY_ERR_MEMORY_LIMIT, snd (phy_perm_group_build_bsgs s3_group (\<lambda>_. False)))"
    unfolding prod_eq_iff by (simp, code_simp)
  from perm_failure_safe [OF s3_objects(1) this] show ?thesis by simp
qed

text \<open>The default limits cover every group of degree at most four.\<close>

lemma small_degree_budget:
  assumes "0 < n" "n \<le> 4"
  shows "\<exists>b s. chain_bytes n = Some b \<and> group_storage_bytes n phy_perm_limits_defaults = Some s \<and>
    sizeof_perm_group + s + b \<le> 768 * 1024 \<and> fact n \<le> (24 :: nat) \<and> pass_cost n \<le> pass_cost 4"
proof -
  have all: "list_all (\<lambda>n. case (chain_bytes n, group_storage_bytes n phy_perm_limits_defaults) of
      (Some b, Some s) \<Rightarrow> sizeof_perm_group + s + b \<le> 768 * 1024 \<and> fact n \<le> (24 :: nat) \<and> pass_cost n \<le> pass_cost 4
    | _ \<Rightarrow> False) [1, 2, 3, 4]"
    by code_simp
  have "n \<in> set [1, 2, 3, 4]" using assms by auto
  then show ?thesis using all [unfolded list_all_iff] by (auto split: option.splits)
qed

lemma small_degree_ample:
  assumes "group_inv g" "plimits g = phy_perm_limits_defaults" "degree g \<le> 4" "\<And>b. alloc b"
  shows "ample g alloc"
proof -
  have n: "0 < degree g" using assms(1) by (simp add: group_inv_def wf_group_def)
  obtain b s where bs: "chain_bytes (degree g) = Some b" "group_storage_bytes (degree g) phy_perm_limits_defaults = Some s"
    "sizeof_perm_group + s + b \<le> 768 * 1024" "fact (degree g) \<le> (24 :: nat)" "pass_cost (degree g) \<le> pass_cost 4"
    using small_degree_budget [OF n assms(3)] by blast
  have "persistent_bytes g = sizeof_perm_group + s" using assms(1,2) bs(2) by (simp add: group_inv_def)
  moreover have "(fact (degree g) + 3) * pass_cost (degree g) \<le> (24 + 3) * pass_cost 4"
    using bs(4,5) by (intro mult_le_mono) simp_all
  moreover have "(24 + 3) * pass_cost 4 \<le> 2000000" by code_simp
  ultimately show ?thesis
    unfolding ample_def using bs assms(2,4) by (auto simp: phy_perm_limits_defaults_def)
qed

text \<open>
  C4. Progress under the shipped limits: for every reachable group object of degree at most four
  with the default limits (the slot symmetries of the metric, Christoffel, Riemann and Ricci
  tensors), the build succeeds whenever memory can be allocated, and afterwards the membership
  test succeeds on every signed permutation and gives the right answer.
\<close>

theorem perm_default_limits_suffice:
  assumes "perm_object g" "plimits g = phy_perm_limits_defaults" "degree g \<le> 4" "\<And>bytes. alloc bytes"
  shows "\<exists>g'. phy_perm_group_build_bsgs g alloc = (PHY_OK, g') \<and>
    (\<forall>p sign. length p = degree g \<longrightarrow> phy_permutation_valid (Some p) (degree g) \<longrightarrow> sign \<in> {1, - 1} \<longrightarrow>
       phy_perm_group_contains g' (Some p) sign alloc =
         (PHY_OK, Some ((p, sign) \<in> grp_span (degree g) (set (generators g)))))"
proof -
  have inv: "group_inv g" using assms(1) by (rule perm_object_inv)
  from build_pays [OF inv small_degree_ample [OF inv assms(2,3), of alloc]] assms(4)
  obtain g' where g': "phy_perm_group_build_bsgs g alloc = (PHY_OK, g')" by blast
  have b: "group_inv g'" "generators g' = generators g" "degree g' = degree g" "plimits g' = plimits g" "built g'"
    using build_correct [OF inv g'] by simp_all
  have amp: "ample g' alloc" by (rule small_degree_ample) (use b assms in simp_all)
  have "phy_perm_group_contains g' (Some p) sign alloc =
      (PHY_OK, Some ((p, sign) \<in> grp_span (degree g) (set (generators g))))"
    if p: "length p = degree g" "phy_permutation_valid (Some p) (degree g)" "sign \<in> {1, - 1}" for p sign
  proof -
    obtain out where o: "phy_perm_group_contains g' (Some p) sign alloc = (PHY_OK, out)"
      using contains_pays [OF b(1,5) _ _ _ amp, of p sign] p b(3) by auto
    then show ?thesis using contains_exact [OF b(1) _ o] p(1) b(2,3) by (simp add: target_def)
  qed
  with g' show ?thesis by blast
qed

theorem perm_default_limits_suffice_witness:
  "\<exists>g'. phy_perm_group_build_bsgs s3_group (\<lambda>_. True) = (PHY_OK, g') \<and>
     phy_perm_group_contains g' (Some [2, 1, 0]) (- 1) (\<lambda>_. True) =
       (PHY_OK, Some (([2, 1, 0], - 1) \<in> grp_span 3 (set (generators s3_group))))"
proof -
  have a: "degree s3_group \<le> 4" "plimits s3_group = phy_perm_limits_defaults"
    by code_simp+
  have "degree s3_group = 3" "phy_permutation_valid (Some [2, 1, 0]) 3" by code_simp+
  with perm_default_limits_suffice [OF s3_objects(1) a(2,1), of "\<lambda>_. True"] show ?thesis by auto
qed

section \<open>The layout of the storage block\<close>


lemma add_bytes_eq: "add_bytes so_far count element = Some res \<Longrightarrow> res = so_far + count * element"
  by (auto simp: add_bytes_def Let_def split: if_splits)



text \<open>
  C14. When the block is too small. The one unchecked step of the layout is the addition of
  \<open>align_up\<close>, which wraps when the offset it rounds is \<open>SIZE_MAX\<close> itself. So a created group
  has a block smaller than its five arrays exactly when the generator arrays end at \<open>SIZE_MAX\<close>,
  or the images and signs of the strong generators do; under every other limits the block is
  large enough.
\<close>

lemma align_up_two:
  assumes "n \<le> SIZE_MAX"
  shows "align_up n 2 = (if n = SIZE_MAX then 0 else n + n mod 2)"
proof (cases "n mod 2 = 0")
  case True
  then show ?thesis by (auto simp: align_up_def SIZE_MAX_def)
next
  case False
  then have "n mod 2 = 1" by simp
  then show ?thesis using assms by (auto simp: align_up_def Let_def)
qed

lemma add_bytes_le:
  assumes "add_bytes so_far count element = Some res" "so_far \<le> SIZE_MAX"
  shows "res \<le> SIZE_MAX"
proof -
  have r: "res = so_far + count * element" "count \<le> SIZE_MAX div element" "so_far \<le> SIZE_MAX - count * element"
    using assms(1) by (auto simp: add_bytes_def Let_def not_less split: if_splits)
  have "count * element \<le> SIZE_MAX div element * element" using r(2) by (rule mult_le_mono1)
  also have "\<dots> \<le> SIZE_MAX" by (rule div_times_less_eq_dividend)
  finally show ?thesis using r by linarith
qed

lemma storage_chain:
  assumes "phy_perm_group_create deg limits alloc = (PHY_OK, Some g)"
  defines "m \<equiv> max_generators (plimits g)" and "s \<equiv> max_strong_generators (plimits g)"
  obtains o2 o4 where "o2 = m * (2 * deg + 1)" "o2 \<le> SIZE_MAX" "o4 = align_up o2 2 + s * (2 * deg + 1)" "o4 \<le> SIZE_MAX"
    "storage_bytes g = align_up o4 2 + s * 2"
proof -
  have "group_storage_bytes (degree g) (plimits g) = Some (storage_bytes g)" "degree g = deg"
    using create_inv [OF assms(1)] by (auto simp: group_inv_def)
  then obtain o1 o2 o3 o4 where o: "add_bytes (align_up 0 2) (m * deg) 2 = Some o1" "add_bytes o1 m 1 = Some o2"
      "add_bytes (align_up o2 2) (s * deg) 2 = Some o3" "add_bytes o3 s 1 = Some o4"
      "add_bytes (align_up o4 2) s 2 = Some (storage_bytes g)"
    by (auto simp: group_storage_bytes_def m_def s_def split: option.splits if_splits)
  have z: "align_up 0 2 = 0" by (simp add: align_up_def)
  have b: "align_up n 2 \<le> SIZE_MAX" if "n \<le> SIZE_MAX" for n
    using that by (auto simp: align_up_def Let_def SIZE_MAX_def intro: order_trans [OF mod_le_divisor])
  have l2: "o2 \<le> SIZE_MAX" using add_bytes_le [OF o(2)] add_bytes_le [OF o(1)] z by simp
  have l4: "o4 \<le> SIZE_MAX" using add_bytes_le [OF o(4)] add_bytes_le [OF o(3)] b [OF l2] by simp
  show ?thesis
  proof (rule that)
    show "o2 = m * (2 * deg + 1)" using add_bytes_eq [OF o(1)] add_bytes_eq [OF o(2)] z by (simp add: algebra_simps)
    show "o4 = align_up o2 2 + s * (2 * deg + 1)" using add_bytes_eq [OF o(3)] add_bytes_eq [OF o(4)] by (simp add: algebra_simps)
    show "storage_bytes g = align_up o4 2 + s * 2" using add_bytes_eq [OF o(5)] .
  qed (rule l2 l4)+
qed

theorem perm_storage_wraps:
  assumes "phy_perm_group_create deg limits alloc = (PHY_OK, Some g)"
  defines "m \<equiv> max_generators (plimits g)" and "s \<equiv> max_strong_generators (plimits g)"
  shows "storage_bytes g < m * (2 * deg + 1) + s * (2 * deg + 3) \<longleftrightarrow>
    m * (2 * deg + 1) = SIZE_MAX \<or> m * (2 * deg + 1) + m mod 2 + s * (2 * deg + 1) = SIZE_MAX"
proof -
  obtain o2 o4 where o: "o2 = m * (2 * deg + 1)" "o2 \<le> SIZE_MAX" "o4 = align_up o2 2 + s * (2 * deg + 1)" "o4 \<le> SIZE_MAX"
    "storage_bytes g = align_up o4 2 + s * 2"
    using storage_chain [OF assms(1)] unfolding m_def s_def by blast
  have t: "s * (2 * deg + 3) = s * (2 * deg + 1) + s * 2" by (simp add: algebra_simps)
  have "o2 = m + 2 * (m * deg)" unfolding o(1) by (simp add: algebra_simps)
  then have p: "o2 mod 2 = m mod 2" by (simp del: mult_2)
  have big: "1 < SIZE_MAX" by (simp add: SIZE_MAX_def)
  show ?thesis
  proof (cases "o2 = SIZE_MAX")
    case True
    then have "align_up o2 2 = 0" by (simp add: align_up_two)
    then have "storage_bytes g \<le> s * (2 * deg + 1) + 1 + s * 2"
      unfolding o(5) using align_up_two [OF o(4)] o(3) by (auto split: if_splits)
    then show ?thesis using True o(1) t big by simp
  next
    case False
    then have a2: "align_up o2 2 = m * (2 * deg + 1) + m mod 2" using align_up_two [OF o(2)] p o(1) by simp
    show ?thesis
    proof (cases "o4 = SIZE_MAX")
      case True
      then have "align_up o4 2 = 0" by (simp add: align_up_two)
      moreover have "m mod 2 \<le> 1" by simp
      ultimately show ?thesis using True a2 o(3,5) t big by linarith
    next
      case F4: False
      then have "o4 \<le> align_up o4 2" using align_up_two [OF o(4)] by simp
      then show ?thesis using F4 False a2 o(1,3,5) t by linarith
    qed
  qed
qed

text \<open>Limits a caller can ask for under which the first array alone does not fit its block.\<close>

definition wrapping_limits :: phy_perm_limits where
  "wrapping_limits = \<lparr>max_degree = 0, max_generators = 1431655765, max_strong_generators = 16,
     pmax_steps = 0, pmax_bytes = 0\<rparr>"

theorem perm_storage_wraps_witness:
  "\<exists>g. phy_perm_group_create 1 (Some wrapping_limits) (\<lambda>_. True) = (PHY_OK, Some g) \<and>
     storage_bytes g < max_generators (plimits g) * 3 + max_strong_generators (plimits g) * 5 \<and>
     storage_bytes g = 80 \<and> max_generators (plimits g) * degree g * 2 = 2863311530"
proof -
  let ?r = "phy_perm_group_create 1 (Some wrapping_limits) (\<lambda>_. True)"
  have "fst ?r = PHY_OK" "snd ?r \<noteq> None" "storage_bytes (the (snd ?r)) = 80" "max_generators (plimits (the (snd ?r))) = 1431655765"
    "degree (the (snd ?r)) = 1" "SIZE_MAX = 3 * 1431655765"
    by code_simp+
  then obtain g where g: "?r = (PHY_OK, Some g)" "storage_bytes g = 80" "max_generators (plimits g) = 1431655765" "degree g = 1"
    by (metis option.collapse option.sel prod.collapse)
  with perm_storage_wraps [OF g(1)] \<open>SIZE_MAX = 3 * 1431655765\<close> show ?thesis by simp
qed

end
