(* ===== verification/ExactContext.thy ===== *)
theory ExactContext
  imports Prelude
begin

text \<open>
  The exact-number context and the lifecycle of big integers: \<open>src/exact/context.c\<close> and
  \<open>src/exact/exact_internal.h\<close>. A context pointer is the record passed in and returned; a
  handle names its context by \<open>bg_owner\<close>. The environment is part of the context record: the
  answers of the cancel callback and of \<open>phy_alloc\<close>, in call order. Sizes are those of the
  32-bit target.
\<close>

section \<open>State\<close>

definition PHY_EXACT_MAX_LIMBS_CEILING :: nat where
  "PHY_EXACT_MAX_LIMBS_CEILING = 1048576"

definition sizeof_exact_context :: nat where
  "sizeof_exact_context = 56"

record phy_exact_limits =
  max_limbs :: nat
  max_steps :: nat
  max_bytes :: nat

record phy_exact_context =
  ec_limits :: phy_exact_limits
  ec_bytes :: nat
  ec_steps :: nat
  ec_total :: nat
  ec_depth :: nat
  ec_cancel :: "(nat \<Rightarrow> bool) option"
  ec_values :: nat
  ec_magic :: bool
  ec_id :: nat
  ec_polls :: nat
  ec_alloc :: "nat \<Rightarrow> nat \<Rightarrow> bool"
  ec_allocs :: nat

text \<open>
  A big integer. \<open>bg_limbs\<close> is the whole allocated array, so its length is the C field
  \<open>capacity\<close>; \<open>bg_live\<close> stands for the magic number.
\<close>

record phy_bigint =
  bg_owner :: nat
  bg_live :: bool
  bg_limbs :: "u32 list"
  bg_count :: nat
  bg_sign :: int

abbreviation capacity :: "phy_bigint \<Rightarrow> nat" where
  "capacity v \<equiv> length (bg_limbs v)"

abbreviation limb_bytes :: "phy_bigint \<Rightarrow> nat" where
  "limb_bytes v \<equiv> capacity v * 4"

text \<open>\<open>phy_bigint x = {0}\<close>, also what destruction leaves.\<close>

definition null_bigint :: phy_bigint where
  "null_bigint = \<lparr>bg_owner = 0, bg_live = False, bg_limbs = [], bg_count = 0, bg_sign = 0\<rparr>"

text \<open>
  The doubly linked list of live values: \<open>context->values\<close> and the members \<open>previous\<close> and \<open>next\<close>
  of the object at each address. Zero is the null pointer. An object in memory is its links and
  its \<open>phy_bigint\<close>, the rest of its members.
\<close>

record value_links =
  lk_values :: nat
  lk_previous :: "nat \<Rightarrow> nat"
  lk_next :: "nat \<Rightarrow> nat"

definition no_values :: value_links where
  "no_values = \<lparr>lk_values = 0, lk_previous = (\<lambda>_. 0), lk_next = (\<lambda>_. 0)\<rparr>"

section \<open>Accounting\<close>

definition checked_bytes :: "nat \<Rightarrow> nat \<Rightarrow> nat option" where
  "checked_bytes count element =
     (if count \<noteq> 0 \<and> SIZE_MAX div count < element then None else Some (count * element))"

text \<open>\<open>bytes \<le> max_bytes\<close> always holds, so the subtraction of the code does not wrap.\<close>

definition charge :: "phy_exact_context \<Rightarrow> nat \<Rightarrow> phy_exact_context option" where
  "charge c bytes =
     (if max_bytes (ec_limits c) - ec_bytes c < bytes then None
      else Some (c\<lparr>ec_bytes := ec_bytes c + bytes\<rparr>))"

definition discharge :: "phy_exact_context \<Rightarrow> nat \<Rightarrow> phy_exact_context" where
  "discharge c bytes = c\<lparr>ec_bytes := ec_bytes c - (if bytes \<le> ec_bytes c then bytes else ec_bytes c)\<rparr>"

text \<open>\<open>phy_alloc(bytes) != NULL\<close>, the next answer of the environment.\<close>

definition phy_alloc :: "phy_exact_context \<Rightarrow> nat \<Rightarrow> bool \<times> phy_exact_context" where
  "phy_alloc c bytes = (ec_alloc c (ec_allocs c) bytes, c\<lparr>ec_allocs := Suc (ec_allocs c)\<rparr>)"

definition phy_exact_limits_defaults :: phy_exact_limits where
  "phy_exact_limits_defaults = \<lparr>max_limbs = 256, max_steps = 4000000, max_bytes = 256 * 1024\<rparr>"

definition resolve_limits :: "phy_exact_limits option \<Rightarrow> phy_exact_limits" where
  "resolve_limits requested =
     (let d = phy_exact_limits_defaults;
          r = (case requested of None \<Rightarrow> d | Some q \<Rightarrow> q);
          r1 = (if max_limbs r = 0 then r\<lparr>max_limbs := max_limbs d\<rparr> else r);
          r2 = (if max_steps r1 = 0 then r1\<lparr>max_steps := max_steps d\<rparr> else r1);
          r3 = (if max_bytes r2 = 0 then r2\<lparr>max_bytes := max_bytes d\<rparr> else r2)
      in if PHY_EXACT_MAX_LIMBS_CEILING < max_limbs r3
         then r3\<lparr>max_limbs := PHY_EXACT_MAX_LIMBS_CEILING\<rparr> else r3)"

text \<open>\<open>phy_exact_context_create\<close>; \<open>identity\<close> is the address the context gets.\<close>

definition phy_exact_context_create ::
  "phy_exact_limits option \<Rightarrow> nat \<Rightarrow> (nat \<Rightarrow> nat \<Rightarrow> bool) \<Rightarrow> phy_exact_context option" where
  "phy_exact_context_create limits identity alloc =
     (let resolved = resolve_limits limits in
      if max_limbs resolved = 0 \<or> max_steps resolved = 0 \<or> max_bytes resolved < sizeof_exact_context
      then None
      else if \<not> alloc 0 sizeof_exact_context then None
      else Some \<lparr>ec_limits = resolved, ec_bytes = sizeof_exact_context, ec_steps = 0, ec_total = 0,
                 ec_depth = 0, ec_cancel = None, ec_values = 0, ec_magic = True, ec_id = identity,
                 ec_polls = 0, ec_alloc = alloc, ec_allocs = 1\<rparr>)"

definition phy_exact_context_is_valid :: "phy_exact_context \<Rightarrow> bool" where
  "phy_exact_context_is_valid c \<longleftrightarrow> ec_magic c"

text \<open>
  Destruction walks the list of live values, and frees and zeroes each of them before the context
  itself. No value means that the walk does not end.
\<close>

partial_function (option) destroy_walk ::
  "nat \<Rightarrow> phy_exact_context \<times> value_links \<times> (nat \<Rightarrow> phy_bigint) \<Rightarrow>
   (phy_exact_context \<times> value_links \<times> (nat \<Rightarrow> phy_bigint)) option" where
  "destroy_walk a st =
     (if a = 0 then Some st
      else case st of (c, m, obj) \<Rightarrow>
        destroy_walk (lk_next m a)
          (if bg_limbs (obj a) \<noteq> [] then discharge c (limb_bytes (obj a)) else c,
           m\<lparr>lk_previous := (lk_previous m)(a := 0), lk_next := (lk_next m)(a := 0)\<rparr>,
           obj(a := null_bigint)))"

definition phy_exact_context_destroy ::
  "phy_exact_context \<times> value_links \<times> (nat \<Rightarrow> phy_bigint) \<Rightarrow>
   (phy_exact_context \<times> value_links \<times> (nat \<Rightarrow> phy_bigint)) option" where
  "phy_exact_context_destroy st =
     (case st of (c, m, obj) \<Rightarrow>
      if \<not> phy_exact_context_is_valid c then Some st
      else case destroy_walk (lk_values m) (c, m, obj) of None \<Rightarrow> None
      | Some (c', m', obj') \<Rightarrow> Some (c'\<lparr>ec_values := 0, ec_magic := False\<rparr>, m'\<lparr>lk_values := 0\<rparr>, obj'))"

definition phy_exact_set_cancel ::
  "phy_exact_context \<Rightarrow> (nat \<Rightarrow> bool) option \<Rightarrow> phy_exact_context" where
  "phy_exact_set_cancel c cancelled =
     (if \<not> phy_exact_context_is_valid c then c else c\<lparr>ec_cancel := cancelled\<rparr>)"

definition phy_exact_steps :: "phy_exact_context \<Rightarrow> nat" where
  "phy_exact_steps c = (if phy_exact_context_is_valid c then ec_steps c else 0)"

definition phy_exact_total_steps :: "phy_exact_context \<Rightarrow> nat" where
  "phy_exact_total_steps c = (if phy_exact_context_is_valid c then ec_total c else 0)"

definition phy_exact_bytes_used :: "phy_exact_context \<Rightarrow> nat" where
  "phy_exact_bytes_used c = (if phy_exact_context_is_valid c then ec_bytes c else 0)"

section \<open>Validity\<close>

definition phy_bigint_handle_valid :: "phy_exact_context \<Rightarrow> phy_bigint \<Rightarrow> bool" where
  "phy_bigint_handle_valid c v \<longleftrightarrow>
     bg_live v \<and> bg_owner v = ec_id c \<and> phy_exact_context_is_valid c"

definition phy_bigint_shallow_valid :: "phy_exact_context \<Rightarrow> phy_bigint \<Rightarrow> bool" where
  "phy_bigint_shallow_valid c v \<longleftrightarrow>
     phy_bigint_handle_valid c v \<and> bg_count v \<le> capacity v \<and>
     capacity v \<le> max_limbs (ec_limits c) \<and> - 1 \<le> bg_sign v \<and> bg_sign v \<le> 1 \<and>
     (if bg_count v = 0 then bg_sign v = 0
      else bg_sign v \<noteq> 0 \<and> bg_limbs v ! (bg_count v - 1) \<noteq> 0)"

definition phy_bigint_validate :: "phy_exact_context \<Rightarrow> phy_bigint \<Rightarrow> phy_status" where
  "phy_bigint_validate c v = (if phy_bigint_shallow_valid c v then PHY_OK else PHY_ERR_CORRUPT_DOCUMENT)"

definition phy_bigint_is_initialized :: "phy_exact_context \<Rightarrow> phy_bigint \<Rightarrow> bool" where
  "phy_bigint_is_initialized = phy_bigint_handle_valid"

text \<open>
  The walk of \<open>phy_exact_validate\<close> along \<open>next\<close>, with the address it came from; \<open>None\<close> is its
  early failure. The count of values ends it on every list, a cyclic one included.
\<close>

function validate_walk ::
  "phy_exact_context \<Rightarrow> value_links \<Rightarrow> (nat \<Rightarrow> phy_bigint) \<Rightarrow> nat \<Rightarrow> nat \<Rightarrow> nat \<Rightarrow> nat \<Rightarrow> (nat \<times> nat) option" where
  "validate_walk c m obj previous a count bytes =
     (if a = 0 then Some (count, bytes)
      else if \<not> phy_bigint_shallow_valid c (obj a) \<or> lk_previous m a \<noteq> previous \<or>
              bg_owner (obj a) \<noteq> ec_id c \<or> ec_values c \<le> count then None
      else case checked_bytes (capacity (obj a)) 4 of None \<Rightarrow> None
      | Some lb \<Rightarrow> if SIZE_MAX - bytes < lb then None
                   else validate_walk c m obj a (lk_next m a) (Suc count) (bytes + lb))"
  by pat_completeness auto
termination
  by (relation "measure (\<lambda>(c, m, obj, previous, a, count, bytes). ec_values c - count)") auto

declare validate_walk.simps [simp del]

definition phy_exact_validate :: "phy_exact_context \<Rightarrow> value_links \<Rightarrow> (nat \<Rightarrow> phy_bigint) \<Rightarrow> phy_status" where
  "phy_exact_validate c m obj =
     (if \<not> phy_exact_context_is_valid c \<or> ec_bytes c < sizeof_exact_context \<or>
         max_bytes (ec_limits c) < ec_bytes c then PHY_ERR_CORRUPT_DOCUMENT
      else case validate_walk c m obj 0 (lk_values m) 0 sizeof_exact_context of
        None \<Rightarrow> PHY_ERR_CORRUPT_DOCUMENT
      | Some (count, bytes) \<Rightarrow>
          if count = ec_values c \<and> bytes = ec_bytes c then PHY_OK else PHY_ERR_CORRUPT_DOCUMENT)"

section \<open>Operations of the context\<close>

definition phy_exact_operation_begin :: "phy_exact_context \<Rightarrow> phy_status \<times> phy_exact_context" where
  "phy_exact_operation_begin c =
     (if \<not> phy_exact_context_is_valid c then (PHY_ERR_INVALID_ARGUMENT, c)
      else let c1 = (if ec_depth c = 0 then c\<lparr>ec_steps := 0\<rparr> else c)
           in (PHY_OK, c1\<lparr>ec_depth := Suc (ec_depth c)\<rparr>))"

definition phy_exact_operation_end :: "phy_exact_context \<Rightarrow> phy_status \<Rightarrow> phy_status \<times> phy_exact_context" where
  "phy_exact_operation_end c status =
     (status, if phy_exact_context_is_valid c \<and> ec_depth c \<noteq> 0 then c\<lparr>ec_depth := ec_depth c - 1\<rparr> else c)"

definition phy_exact_step :: "nat \<Rightarrow> phy_exact_context \<Rightarrow> phy_status \<times> phy_exact_context" where
  "phy_exact_step amount c =
     (if \<not> phy_exact_context_is_valid c then (PHY_ERR_INVALID_ARGUMENT, c)
      else if max_steps (ec_limits c) - ec_steps c < amount then (PHY_ERR_TIMEOUT, c)
      else
        let c1 = c\<lparr>ec_steps := ec_steps c + amount, ec_total := (ec_total c + amount) mod 2 ^ 64\<rparr> in
        case ec_cancel c1 of None \<Rightarrow> (PHY_OK, c1)
        | Some cancelled \<Rightarrow>
            (if cancelled (ec_polls c1) then PHY_ERR_INTERRUPTED else PHY_OK,
             c1\<lparr>ec_polls := Suc (ec_polls c1)\<rparr>))"

text \<open>\<open>phy_exact_temp_alloc\<close>: \<open>True\<close> in the result stands for the block it returns.\<close>

definition phy_exact_temp_alloc :: "nat \<Rightarrow> phy_exact_context \<Rightarrow> phy_status \<times> bool \<times> phy_exact_context" where
  "phy_exact_temp_alloc bytes c =
     (if \<not> phy_exact_context_is_valid c \<or> bytes = 0 then (PHY_ERR_INVALID_ARGUMENT, False, c)
      else case charge c bytes of None \<Rightarrow> (PHY_ERR_MEMORY_LIMIT, False, c)
      | Some c1 \<Rightarrow>
          (case phy_alloc c1 bytes of (ok, c2) \<Rightarrow>
             if ok then (PHY_OK, True, c2) else (PHY_ERR_OUT_OF_MEMORY, False, discharge c2 bytes)))"

definition phy_exact_temp_free :: "phy_exact_context \<Rightarrow> bool \<Rightarrow> nat \<Rightarrow> phy_exact_context" where
  "phy_exact_temp_free c block bytes =
     (if \<not> phy_exact_context_is_valid c \<or> \<not> block \<or> bytes = 0 then c else discharge c bytes)"

section \<open>Operations of a value\<close>

text \<open>
  Initialisation and destruction in two parts that touch disjoint memory: the members of the value
  and the accounting of the context, which the limb code reads, and the links, which only these two
  functions write. \<open>bigint_init_at\<close> and \<open>bigint_destroy_at\<close> are the whole functions, on the
  object at an address.
\<close>

definition phy_bigint_init :: "phy_bigint \<times> phy_exact_context \<Rightarrow> phy_status \<times> phy_bigint \<times> phy_exact_context" where
  "phy_bigint_init st =
     (case st of (v, c) \<Rightarrow>
      if \<not> phy_exact_context_is_valid c then (PHY_ERR_INVALID_ARGUMENT, v, c)
      else (PHY_OK, null_bigint\<lparr>bg_owner := ec_id c, bg_live := True\<rparr>,
            c\<lparr>ec_values := Suc (ec_values c)\<rparr>))"

definition link_value :: "nat \<Rightarrow> value_links \<Rightarrow> value_links" where
  "link_value a m =
     (let m1 = m\<lparr>lk_previous := (lk_previous m)(a := 0), lk_next := (lk_next m)(a := lk_values m)\<rparr>;
          m2 = (if lk_values m1 \<noteq> 0 then m1\<lparr>lk_previous := (lk_previous m1)(lk_values m1 := a)\<rparr> else m1)
      in m2\<lparr>lk_values := a\<rparr>)"

definition bigint_init_at ::
  "nat \<Rightarrow> phy_bigint \<times> phy_exact_context \<times> value_links \<Rightarrow> phy_status \<times> phy_bigint \<times> phy_exact_context \<times> value_links" where
  "bigint_init_at a st =
     (case st of (v, c, m) \<Rightarrow> case phy_bigint_init (v, c) of (status, v', c') \<Rightarrow>
      (status, v', c', if status = PHY_OK then link_value a m else m))"

definition phy_bigint_destroy :: "phy_bigint \<Rightarrow> phy_exact_context \<Rightarrow> phy_bigint \<times> phy_exact_context" where
  "phy_bigint_destroy v c =
     (if \<not> phy_bigint_handle_valid c v then (v, c)
      else let c1 = (if bg_limbs v \<noteq> [] then discharge c (limb_bytes v) else c)
           in (null_bigint, c1\<lparr>ec_values := ec_values c1 - 1\<rparr>))"

definition unlink_value :: "nat \<Rightarrow> value_links \<Rightarrow> value_links" where
  "unlink_value a m =
     (let m1 = (if lk_previous m a \<noteq> 0 then m\<lparr>lk_next := (lk_next m)(lk_previous m a := lk_next m a)\<rparr>
                else m\<lparr>lk_values := lk_next m a\<rparr>);
          m2 = (if lk_next m1 a \<noteq> 0 then m1\<lparr>lk_previous := (lk_previous m1)(lk_next m1 a := lk_previous m1 a)\<rparr> else m1)
      in m2\<lparr>lk_previous := (lk_previous m2)(a := 0), lk_next := (lk_next m2)(a := 0)\<rparr>)"

definition bigint_destroy_at ::
  "nat \<Rightarrow> phy_bigint \<times> phy_exact_context \<times> value_links \<Rightarrow> phy_bigint \<times> phy_exact_context \<times> value_links" where
  "bigint_destroy_at a st =
     (case st of (v, c, m) \<Rightarrow> case phy_bigint_destroy v c of (v', c') \<Rightarrow>
      (v', c', if phy_bigint_handle_valid c v then unlink_value a m else m))"

text \<open>The capacity search of \<open>phy_bigint_reserve\<close>.\<close>

function grow_capacity :: "nat \<Rightarrow> nat \<Rightarrow> nat \<Rightarrow> nat option" where
  "grow_capacity limit needed cap =
     (if cap < needed then
        let doubled = (if cap \<le> limit div 2 then cap * 2 else limit)
        in if doubled = cap then None else grow_capacity limit needed doubled
      else Some cap)"
  by pat_completeness auto
termination
  by (relation "measure (\<lambda>(limit, needed, cap). if limit < cap then Suc needed else needed - cap)") auto

declare grow_capacity.simps [simp del]

definition phy_bigint_reserve ::
  "nat \<Rightarrow> phy_bigint \<times> phy_exact_context \<Rightarrow> phy_status \<times> phy_bigint \<times> phy_exact_context" where
  "phy_bigint_reserve needed st =
     (case st of (v, c) \<Rightarrow>
      if \<not> phy_bigint_shallow_valid c v then (PHY_ERR_INVALID_ARGUMENT, v, c)
      else if needed \<le> capacity v then (PHY_OK, v, c)
      else if max_limbs (ec_limits c) < needed then (PHY_ERR_MEMORY_LIMIT, v, c)
      else
        case grow_capacity (max_limbs (ec_limits c)) needed (if capacity v \<noteq> 0 then capacity v else 1) of
          None \<Rightarrow> (PHY_ERR_MEMORY_LIMIT, v, c)
        | Some cap \<Rightarrow>
            (case checked_bytes cap 4 of None \<Rightarrow> (PHY_ERR_MEMORY_LIMIT, v, c)
             | Some bytes \<Rightarrow>
                 (case charge c bytes of None \<Rightarrow> (PHY_ERR_MEMORY_LIMIT, v, c)
                  | Some c1 \<Rightarrow>
                      (case phy_alloc c1 bytes of (ok, c2) \<Rightarrow>
                         if \<not> ok then (PHY_ERR_OUT_OF_MEMORY, v, discharge c2 bytes)
                         else
                           let limbs = take (bg_count v) (bg_limbs v) @ replicate (cap - bg_count v) 0;
                               c3 = (if bg_limbs v \<noteq> [] then discharge c2 (limb_bytes v) else c2)
                           in (PHY_OK, v\<lparr>bg_limbs := limbs\<rparr>, c3)))))"

text \<open>\<open>phy_bigint_normalize\<close>: the loop drops zero limbs from the top.\<close>

fun strip_count :: "u32 list \<Rightarrow> nat \<Rightarrow> nat" where
  "strip_count limbs 0 = 0"
| "strip_count limbs (Suc k) = (if limbs ! k = 0 then strip_count limbs k else Suc k)"

definition phy_bigint_normalize :: "phy_bigint \<Rightarrow> phy_bigint" where
  "phy_bigint_normalize v =
     (let count = strip_count (bg_limbs v) (bg_count v) in
      v\<lparr>bg_count := count, bg_sign := (if count = 0 then 0 else bg_sign v)\<rparr>)"

definition phy_bigint_swap_payload :: "phy_bigint \<Rightarrow> phy_bigint \<Rightarrow> phy_bigint \<times> phy_bigint" where
  "phy_bigint_swap_payload l r =
     (l\<lparr>bg_limbs := bg_limbs r, bg_count := bg_count r, bg_sign := bg_sign r\<rparr>,
      r\<lparr>bg_limbs := bg_limbs l, bg_count := bg_count l, bg_sign := bg_sign l\<rparr>)"

end
