(* ===== verification/Limbs.thy ===== *)
theory Limbs
  imports Prelude
begin

text \<open>
  The natural number a prefix of a limb array stands for, with the facts the limb loops
  use: one more limb, an update inside or beyond the prefix, bounds from the top limb, and
  uniqueness of the normalised representation.
\<close>

named_theorems limb_simps \<open>reading and updating a limb prefix\<close>

definition base :: nat where
  "base = 4294967296"

lemma base_pow: "(2 :: nat) ^ 32 = base" "base = 2 ^ 32"
  by (simp_all add: base_def)

lemma base_pos [simp]: "0 < base" "1 < base" "base \<noteq> 0" "Suc 0 \<le> base" "1 \<le> base"
  by (simp_all add: base_def)

lemma unat_limb [simp]: "unat (x :: u32) < base"
  using unat_u32_bound [of x] by (simp add: base_def)

definition nval :: "u32 list \<Rightarrow> nat \<Rightarrow> nat" where
  "nval xs k = (\<Sum>i < k. unat (xs ! i) * base ^ i)"

lemma nval_0 [limb_simps, simp]: "nval xs 0 = 0"
  by (simp add: nval_def)

lemma nval_Suc [limb_simps]: "nval xs (Suc k) = nval xs k + unat (xs ! k) * base ^ k"
  by (simp add: nval_def)

lemma nval_1: "nval xs 1 = unat (xs ! 0)"
  by (simp add: nval_def)

lemma nval_2: "nval xs 2 = unat (xs ! 0) + unat (xs ! 1) * base"
  by (simp add: nval_def numeral_2_eq_2)

lemma nval_cong: "(\<And>i. i < k \<Longrightarrow> xs ! i = ys ! i) \<Longrightarrow> nval xs k = nval ys k"
  by (simp add: nval_def)

lemma nval_update_beyond [limb_simps, simp]: "k \<le> j \<Longrightarrow> nval (xs[j := x]) k = nval xs k"
  by (rule nval_cong) simp

lemma nval_update:
  "j < k \<Longrightarrow> j < length xs \<Longrightarrow>
    nval (xs[j := x]) k + unat (xs ! j) * base ^ j = nval xs k + unat x * base ^ j"
proof (induction k)
  case (Suc k)
  show ?case
  proof (cases "j = k")
    case True
    then show ?thesis using Suc.prems(2) by (simp add: nval_Suc)
  next
    case False
    then show ?thesis using Suc by (simp add: nval_Suc)
  qed
qed simp

lemma nval_take [limb_simps, simp]: "k \<le> j \<Longrightarrow> nval (take j xs) k = nval xs k"
  by (rule nval_cong) simp

lemma nval_append [limb_simps]: "k \<le> length xs \<Longrightarrow> nval (xs @ ys) k = nval xs k"
  by (rule nval_cong) (simp add: nth_append)

lemma nval_replicate_0 [limb_simps]: "k \<le> n \<Longrightarrow> nval (replicate n 0) k = 0"
  by (simp add: nval_def)

lemma nval_bound: "nval xs k < base ^ k"
proof (induction k)
  case (Suc k)
  have "unat (xs ! k) * base ^ k \<le> (base - 1) * base ^ k"
    using unat_u32_bound [of "xs ! k"] by (intro mult_le_mono1) (simp add: base_def)
  then have "nval xs (Suc k) < base ^ k + (base - 1) * base ^ k"
    using Suc unfolding nval_Suc by linarith
  also have "\<dots> = base ^ Suc k" by (simp add: base_def)
  finally show ?case .
qed simp

lemma nval_mono: "j \<le> k \<Longrightarrow> nval xs j \<le> nval xs k"
  unfolding nval_def by (rule sum_mono2) auto

lemma unat_pos_limb: "x \<noteq> 0 \<longleftrightarrow> 0 < unat (x :: u32)"
  by (simp add: unat_gt_0)

text \<open>A non-zero top limb gives a lower bound.\<close>

lemma nval_top:
  assumes "0 < k" "xs ! (k - 1) \<noteq> 0"
  shows "base ^ (k - 1) \<le> nval xs k"
proof -
  obtain j where j: "k = Suc j" using assms(1) by (cases k) auto
  have "1 * base ^ j \<le> unat (xs ! j) * base ^ j"
    using assms(2) j unat_pos_limb by (intro mult_le_mono1) (simp add: Suc_le_eq)
  then have "base ^ j \<le> nval xs j + unat (xs ! j) * base ^ j" by linarith
  then show ?thesis by (simp add: j nval_Suc)
qed

lemma nval_pos: "0 < k \<Longrightarrow> xs ! (k - 1) \<noteq> 0 \<Longrightarrow> 0 < nval xs k"
  using nval_top [of k xs] by (metis base_pos(1) order_less_le_trans zero_less_power)

lemma nval_count_less:
  assumes "j < k" "xs ! (k - 1) \<noteq> 0"
  shows "nval ys j < nval xs k"
proof -
  have "nval ys j < base ^ j" by (rule nval_bound)
  also have "base ^ j \<le> base ^ (k - 1)" using assms(1) by (intro power_increasing) simp_all
  also have "\<dots> \<le> nval xs k" using assms by (intro nval_top) simp_all
  finally show ?thesis .
qed

text \<open>The highest differing limb decides.\<close>

lemma nval_diff_top:
  assumes "j < k" "xs ! j < ys ! j" "\<And>i. j < i \<Longrightarrow> i < k \<Longrightarrow> xs ! i = ys ! i"
  shows "nval xs k < nval ys k"
  using assms(1,3)
proof (induction k)
  case (Suc k)
  show ?case
  proof (cases "j = k")
    case True
    have "unat (xs ! k) < unat (ys ! k)" using assms(2) True by (simp add: word_less_nat_alt)
    then have "Suc (unat (xs ! k)) * base ^ k \<le> unat (ys ! k) * base ^ k"
      by (intro mult_le_mono1) simp
    then show ?thesis using nval_bound [of xs k] by (simp add: nval_Suc)
  next
    case False
    then show ?thesis using Suc by (simp add: nval_Suc)
  qed
qed simp

lemma nval_zero_top: "j \<le> k \<Longrightarrow> (\<And>i. j \<le> i \<Longrightarrow> i < k \<Longrightarrow> xs ! i = 0) \<Longrightarrow> nval xs k = nval xs j"
proof (induction k)
  case (Suc k)
  show ?case
  proof (cases "j = Suc k")
    case False
    then show ?thesis using Suc by (simp add: nval_Suc)
  qed simp
qed simp

text \<open>The limb of index \<open>i\<close> of a value of \<open>n\<close> limbs, zero beyond its top.\<close>

definition limb_at :: "u32 list \<Rightarrow> nat \<Rightarrow> nat \<Rightarrow> u64" where
  "limb_at xs n i = (if i < n then wide (xs ! i) else 0)"

lemma unat_limb_at: "unat (limb_at xs n i) = (if i < n then unat (xs ! i) else 0)"
  by (simp add: limb_at_def)

lemma unat_limb_at_bound: "unat (limb_at xs n i) < base"
  by (simp add: unat_limb_at)

definition nval_to :: "u32 list \<Rightarrow> nat \<Rightarrow> nat \<Rightarrow> nat" where
  "nval_to xs n k = nval xs (min n k)"

lemma nval_to_0 [simp]: "nval_to xs n 0 = 0"
  by (simp add: nval_to_def)

lemma nval_to_Suc: "nval_to xs n (Suc k) = nval_to xs n k + unat (limb_at xs n k) * base ^ k"
proof (cases "k < n")
  case True
  then show ?thesis by (simp add: nval_to_def nval_Suc unat_limb_at min_absorb2)
next
  case False
  then show ?thesis by (simp add: nval_to_def unat_limb_at min_absorb1)
qed

lemma nval_to_full: "n \<le> k \<Longrightarrow> nval_to xs n k = nval xs n"
  by (simp add: nval_to_def min_def)

lemma limb_le: "unat (x :: u32) \<le> base - 1"
  using unat_u32_bound [of x] by (simp add: base_def)

text \<open>One limb of a 64-bit accumulator goes to the array, the rest is the next carry.\<close>

lemma split_acc: "unat acc * base ^ k = unat (low32 acc) * base ^ k + unat (high32 acc) * base ^ Suc k"
proof -
  have "unat acc = unat (low32 acc) + base * unat (high32 acc)"
    using low_high [of acc] by (simp add: base_def)
  then show ?thesis by (simp add: algebra_simps)
qed

lemma store_limb:
  assumes "k < length xs"
  shows "nval (xs[k := low32 acc]) (Suc k) + unat (high32 acc) * base ^ Suc k =
    nval xs k + unat acc * base ^ k"
  using assms split_acc [of acc k] by (simp add: nval_Suc)

lemma base_sq: "base * base = 2 ^ 64"
  by (simp add: base_def)

lemma high32_less: "unat acc < b * base \<Longrightarrow> unat (high32 acc) < b"
  unfolding unat_high32 base_pow(1) by (simp add: div_less_iff_less_mult)

end
