(* ===== verification/ExactLaws.thy ===== *)
theory ExactLaws
  imports ExactContext Limbs
begin

text \<open>
  The contract every operation on exact integers keeps: which fields of the context it may
  touch, that bytes move with the limb arrays, how many steps it may spend, and that a
  failure has a cause (a limit that was too small, an allocation that failed, or a cancel).
\<close>

section \<open>Values\<close>

definition magv :: "phy_bigint \<Rightarrow> nat" where
  "magv v = nval (bg_limbs v) (bg_count v)"

definition ival :: "phy_bigint \<Rightarrow> int" where
  "ival v = bg_sign v * int (magv v)"

lemma valid_sign:
  "phy_bigint_shallow_valid c v \<Longrightarrow> bg_sign v = sgn (ival v) \<and> \<bar>ival v\<bar> = int (magv v) \<and>
    (ival v = 0 \<longleftrightarrow> bg_count v = 0) \<and> (magv v = 0 \<longleftrightarrow> bg_count v = 0)"
proof -
  assume v: "phy_bigint_shallow_valid c v"
  show ?thesis
  proof (cases "bg_count v = 0")
    case True
    then show ?thesis using v by (simp add: phy_bigint_shallow_valid_def ival_def magv_def)
  next
    case False
    then have s: "bg_sign v = 1 \<or> bg_sign v = - 1" "bg_limbs v ! (bg_count v - 1) \<noteq> 0"
      using v by (auto simp: phy_bigint_shallow_valid_def)
    then have "0 < magv v" using False nval_pos by (simp add: magv_def)
    then show ?thesis using s False by (auto simp: ival_def)
  qed
qed

lemma valid_magv_pos: "phy_bigint_shallow_valid c v \<Longrightarrow> bg_count v \<noteq> 0 \<Longrightarrow> 0 < magv v"
  using valid_sign [of c v] by simp

lemma magv_bound: "magv v < base ^ bg_count v"
  unfolding magv_def by (rule nval_bound)

section \<open>The context\<close>

definition ctx_ok :: "phy_exact_context \<Rightarrow> bool" where
  "ctx_ok c \<longleftrightarrow> ec_magic c \<and> ec_bytes c \<le> max_bytes (ec_limits c) \<and> ec_steps c \<le> max_steps (ec_limits c) \<and>
     max_limbs (ec_limits c) \<le> PHY_EXACT_MAX_LIMBS_CEILING"

definition same_env :: "phy_exact_context \<Rightarrow> phy_exact_context \<Rightarrow> bool" where
  "same_env c c' \<longleftrightarrow> ec_limits c' = ec_limits c \<and> ec_id c' = ec_id c \<and> ec_magic c' = ec_magic c \<and>
     ec_cancel c' = ec_cancel c \<and> ec_alloc c' = ec_alloc c"

text \<open>\<open>spent k c c'\<close>: at most \<open>k\<close> steps were charged; depth and number of values are as before.\<close>

definition spent :: "nat \<Rightarrow> phy_exact_context \<Rightarrow> phy_exact_context \<Rightarrow> bool" where
  "spent k c c' \<longleftrightarrow> same_env c c' \<and> ec_depth c' = ec_depth c \<and> ec_values c' = ec_values c \<and> ctx_ok c' \<and>
     ec_steps c \<le> ec_steps c' \<and> ec_steps c' \<le> ec_steps c + k"

lemma same_env_refl [simp]: "same_env c c"
  by (simp add: same_env_def)

lemma same_env_trans: "same_env c c1 \<Longrightarrow> same_env c1 c2 \<Longrightarrow> same_env c c2"
  by (simp add: same_env_def)

lemma spent_refl [simp]: "ctx_ok c \<Longrightarrow> spent k c c"
  by (simp add: spent_def)

lemma spent_trans: "spent j c c1 \<Longrightarrow> spent k c1 c2 \<Longrightarrow> spent (j + k) c c2"
  by (auto simp: spent_def same_env_def)

lemma spent_mono: "spent j c c' \<Longrightarrow> j \<le> k \<Longrightarrow> spent k c c'"
  by (auto simp: spent_def)

lemma spentD:
  assumes "spent k c c'"
  shows "same_env c c'" "ctx_ok c'" "ec_limits c' = ec_limits c" "ec_id c' = ec_id c" "ec_magic c' = ec_magic c"
    "ec_depth c' = ec_depth c" "ec_values c' = ec_values c" "ec_steps c' \<le> ec_steps c + k"
  using assms by (simp_all add: spent_def same_env_def)

text \<open>Validity of a value depends on the context only through what \<open>same_env\<close> keeps.\<close>

lemma handle_valid_env: "same_env c c' \<Longrightarrow> phy_bigint_handle_valid c' v \<longleftrightarrow> phy_bigint_handle_valid c v"
  unfolding phy_bigint_handle_valid_def phy_exact_context_is_valid_def same_env_def by simp

lemma shallow_valid_env: "same_env c c' \<Longrightarrow> phy_bigint_shallow_valid c' v \<longleftrightarrow> phy_bigint_shallow_valid c v"
  unfolding phy_bigint_shallow_valid_def phy_bigint_handle_valid_def phy_exact_context_is_valid_def same_env_def
  by simp

lemma same_env_sym: "same_env c c' \<Longrightarrow> same_env c' c"
  by (simp add: same_env_def)

text \<open>
  The only ways to fail: a step limit below \<open>k\<close> more steps, fewer than \<open>m\<close> limbs per integer,
  less than \<open>b\<close> more bytes, a failing allocation, an installed cancel callback.
\<close>

definition shortage :: "nat \<Rightarrow> nat \<Rightarrow> nat \<Rightarrow> phy_exact_context \<Rightarrow> phy_status \<Rightarrow> bool" where
  "shortage k m b c st \<longleftrightarrow>
     (st = PHY_ERR_TIMEOUT \<and> max_steps (ec_limits c) < ec_steps c + k) \<or>
     (st = PHY_ERR_MEMORY_LIMIT \<and> (max_limbs (ec_limits c) < m \<or> max_bytes (ec_limits c) < ec_bytes c + b)) \<or>
     (st = PHY_ERR_OUT_OF_MEMORY \<and> (\<exists>i n. \<not> ec_alloc c i n)) \<or>
     (st = PHY_ERR_INTERRUPTED \<and> ec_cancel c \<noteq> None)"

lemma shortage_mono:
  "shortage k m b c st \<Longrightarrow> k \<le> k' \<Longrightarrow> m \<le> m' \<Longrightarrow> b \<le> b' \<Longrightarrow> shortage k' m' b' c st"
  unfolding shortage_def by (elim disjE) auto

lemma shortage_back:
  assumes "spent j c c'" "shortage k m b c' st" "ec_bytes c' + b \<le> ec_bytes c + b'" "j + k \<le> k'" "m \<le> m'"
  shows "shortage k' m' b' c st"
  using assms unfolding shortage_def spent_def same_env_def by (elim conjE disjE) auto

section \<open>Charging and stepping\<close>

lemma phy_exact_step_spec:
  assumes "ctx_ok c"
  shows "outcome (phy_exact_step a c) (\<lambda>c'. spent a c c' \<and> ec_bytes c' = ec_bytes c)
    (\<lambda>st c'. spent a c c' \<and> ec_bytes c' = ec_bytes c \<and> shortage a 0 0 c st)"
  using assms
  by (cases "ec_cancel c") (auto simp: phy_exact_step_def phy_exact_context_is_valid_def ctx_ok_def spent_def
      same_env_def shortage_def Let_def)

text \<open>A loop whose body starts with a step: the frame over all its iterations.\<close>

definition stepping :: "nat \<Rightarrow> phy_exact_context \<Rightarrow> phy_exact_context \<Rightarrow> bool" where
  "stepping k c c' \<longleftrightarrow> spent k c c' \<and> ec_bytes c' = ec_bytes c"

definition step_failed :: "nat \<Rightarrow> phy_exact_context \<Rightarrow> phy_status \<Rightarrow> phy_exact_context \<Rightarrow> bool" where
  "step_failed k c st c' \<longleftrightarrow> stepping k c c' \<and> shortage k 0 0 c st"

lemma stepping_refl [simp]: "ctx_ok c \<Longrightarrow> stepping k c c"
  by (simp add: stepping_def)

lemma stepping_ok: "stepping k c c' \<Longrightarrow> ctx_ok c'"
  by (simp add: stepping_def spent_def)

lemma stepping_trans: "stepping j c c1 \<Longrightarrow> stepping k c1 c2 \<Longrightarrow> stepping (j + k) c c2"
  by (auto simp: stepping_def intro: spent_trans)

lemma stepping_mono: "stepping j c c' \<Longrightarrow> j \<le> k \<Longrightarrow> stepping k c c'"
  by (auto simp: stepping_def intro: spent_mono)

lemma step_failed_mono: "step_failed j c st c' \<Longrightarrow> j \<le> k \<Longrightarrow> step_failed k c st c'"
  by (auto simp: step_failed_def intro: stepping_mono shortage_mono)

lemma step_failed_back:
  "stepping j c c1 \<Longrightarrow> step_failed k c1 st c2 \<Longrightarrow> step_failed (j + k) c st c2"
  unfolding step_failed_def
  by (auto intro: stepping_trans) (auto simp: stepping_def intro: shortage_back [where b = 0])

lemma step_one:
  "ctx_ok c \<Longrightarrow> outcome (phy_exact_step 1 c) (stepping 1 c) (step_failed 1 c)"
  using phy_exact_step_spec [of c 1] by (auto simp: outcome_def stepping_def step_failed_def split: prod.splits)

text \<open>The step at the head of the \<open>k\<close>-th of \<open>n\<close> iterations.\<close>

lemma step_in_loop:
  assumes "stepping k c c'" "k < n"
  shows "outcome (phy_exact_step 1 c') (stepping (Suc k) c) (step_failed n c)"
proof (rule outcome_mono [OF step_one [OF stepping_ok [OF assms(1)]]])
  fix s assume "stepping 1 c' s"
  from stepping_trans [OF assms(1) this] show "stepping (Suc k) c s" by simp
next
  fix st s assume "step_failed 1 c' st s"
  from step_failed_back [OF assms(1) this] show "step_failed n c st s"
    by (rule step_failed_mono) (use assms(2) in simp)
qed

section \<open>Moving bytes with a value\<close>

definition moved :: "nat \<Rightarrow> phy_bigint \<Rightarrow> phy_exact_context \<Rightarrow> phy_bigint \<Rightarrow> phy_exact_context \<Rightarrow> bool" where
  "moved k v c v' c' \<longleftrightarrow> spent k c c' \<and> phy_bigint_handle_valid c' v' \<and> capacity v' \<le> max_limbs (ec_limits c) \<and>
     ec_bytes c' + limb_bytes v = ec_bytes c + limb_bytes v'"

lemma moved_trans: "moved j v c v1 c1 \<Longrightarrow> moved k v1 c1 v2 c2 \<Longrightarrow> moved (j + k) v c v2 c2"
  by (auto simp: moved_def intro: spent_trans dest: spentD(3))

lemma moved_mono: "moved j v c v' c' \<Longrightarrow> j \<le> k \<Longrightarrow> moved k v c v' c'"
  by (auto simp: moved_def intro: spent_mono)

lemma moved_refl:
  "ctx_ok c \<Longrightarrow> phy_bigint_shallow_valid c v \<Longrightarrow> moved k v c v c"
  by (simp add: moved_def phy_bigint_shallow_valid_def)

text \<open>A stepping loop that rewrites the limbs of a value in place keeps the books.\<close>

lemma moved_stepping:
  assumes "moved j v c v1 c1" "stepping k c1 c2" "bg_owner v2 = bg_owner v1" "bg_live v2 = bg_live v1"
    "capacity v2 = capacity v1"
  shows "moved (j + k) v c v2 c2"
  using assms spent_trans [of j c c1 k c2]
  by (auto simp: moved_def stepping_def phy_bigint_handle_valid_def phy_exact_context_is_valid_def dest: spentD)

lemma grow_capacity_bounds:
  assumes "1 \<le> cap" "cap \<le> limit" "needed \<le> limit"
  shows "\<exists>cap'. grow_capacity limit needed cap = Some cap' \<and> needed \<le> cap' \<and> cap' \<le> limit \<and> cap \<le> cap' \<and>
    cap' \<le> max cap (2 * needed)"
  using assms
proof (induction limit needed cap rule: grow_capacity.induct)
  case (1 limit needed cap)
  let ?d = "if cap \<le> limit div 2 then cap * 2 else limit"
  show ?case
  proof (cases "cap < needed")
    case False
    then show ?thesis using 1(3) by (simp add: grow_capacity.simps)
  next
    case True
    then have d: "?d \<noteq> cap" "1 \<le> ?d" "?d \<le> limit" "cap \<le> ?d" "?d \<le> 2 * cap"
      using 1(2,3,4) by auto
    from 1(1) [OF True refl d(1) d(2,3) 1(4)]
    show ?thesis using True d by (subst grow_capacity.simps) (auto simp: Let_def)
  qed
qed

lemma checked_bytes_limbs:
  "cap \<le> PHY_EXACT_MAX_LIMBS_CEILING \<Longrightarrow> checked_bytes cap 4 = Some (cap * 4)"
proof -
  assume cap: "cap \<le> PHY_EXACT_MAX_LIMBS_CEILING"
  have "4 \<le> SIZE_MAX div cap" if "cap \<noteq> 0"
  proof -
    have "4 * cap \<le> SIZE_MAX" using cap by (simp add: PHY_EXACT_MAX_LIMBS_CEILING_def SIZE_MAX_def)
    then show ?thesis using that by (simp add: less_eq_div_iff_mult_less_eq)
  qed
  then show ?thesis by (auto simp: checked_bytes_def)
qed

text \<open>
  \<open>phy_bigint_reserve\<close>: the digits, count and sign are kept, the array is long enough but not
  more than twice as long as asked; a failure changes nothing and has a cause.
\<close>

lemma reserve_spec:
  assumes ok: "ctx_ok c" and v: "phy_bigint_shallow_valid c v" and own: "limb_bytes v \<le> ec_bytes c"
  shows "outcome (phy_bigint_reserve n (v, c))
    (\<lambda>(v', c'). moved 0 v c v' c' \<and> n \<le> capacity v' \<and> capacity v' \<le> max (capacity v) (max 1 (2 * n)) \<and>
       capacity v \<le> capacity v' \<and> bg_count v' = bg_count v \<and> bg_sign v' = bg_sign v \<and> bg_owner v' = bg_owner v \<and>
       bg_live v' = bg_live v \<and> (\<forall>i < bg_count v. bg_limbs v' ! i = bg_limbs v ! i))
    (\<lambda>st (v', c'). v' = v \<and> moved 0 v c v c' \<and> shortage 0 n (8 * n) c st)"
proof -
  let ?m = "max_limbs (ec_limits c)" and ?cap = "if capacity v \<noteq> 0 then capacity v else 1"
  have cap: "capacity v \<le> ?m" and cnt: "bg_count v \<le> capacity v"
    using v by (simp_all add: phy_bigint_shallow_valid_def)
  have m: "?m \<le> PHY_EXACT_MAX_LIMBS_CEILING" using ok by (simp add: ctx_ok_def)
  show ?thesis
  proof (cases "n \<le> capacity v \<or> ?m < n")
    case True
    then show ?thesis
      using v moved_refl [OF ok v] by (auto simp: phy_bigint_reserve_def shortage_def)
  next
    case False
    then have n: "capacity v < n" "n \<le> ?m" by auto
    then have "1 \<le> ?cap" "?cap \<le> ?m" using cap by (auto simp: Suc_le_eq)
    from grow_capacity_bounds [OF this n(2)] obtain cap' where
      g: "grow_capacity ?m n ?cap = Some cap'" "n \<le> cap'" "cap' \<le> ?m" "?cap \<le> cap'" "cap' \<le> max ?cap (2 * n)"
      by blast
    have cap'2: "cap' \<le> 2 * n" using g(5) n(1) by (auto split: if_splits)
    have cb: "checked_bytes cap' 4 = Some (cap' * 4)" using g(3) m by (intro checked_bytes_limbs) simp
    have red: "phy_bigint_reserve n (v, c) =
       (if max_bytes (ec_limits c) - ec_bytes c < cap' * 4 then (PHY_ERR_MEMORY_LIMIT, v, c)
        else let c2 = c\<lparr>ec_bytes := ec_bytes c + cap' * 4, ec_allocs := Suc (ec_allocs c)\<rparr> in
          if \<not> ec_alloc c (ec_allocs c) (cap' * 4) then (PHY_ERR_OUT_OF_MEMORY, v, discharge c2 (cap' * 4))
          else (PHY_OK, v\<lparr>bg_limbs := take (bg_count v) (bg_limbs v) @ replicate (cap' - bg_count v) 0\<rparr>,
                if bg_limbs v \<noteq> [] then discharge c2 (limb_bytes v) else c2))"
      using v n g(1) cb by (simp add: phy_bigint_reserve_def charge_def phy_alloc_def Let_def)
    consider (full) "max_bytes (ec_limits c) - ec_bytes c < cap' * 4"
      | (oom) "\<not> max_bytes (ec_limits c) - ec_bytes c < cap' * 4" "\<not> ec_alloc c (ec_allocs c) (cap' * 4)"
      | (good) "\<not> max_bytes (ec_limits c) - ec_bytes c < cap' * 4" "ec_alloc c (ec_allocs c) (cap' * 4)"
      by blast
    then show ?thesis
    proof cases
      case full
      then show ?thesis unfolding red
        using moved_refl [OF ok v] cap'2 by (auto simp: shortage_def)
    next
      case oom
      let ?c = "discharge (c\<lparr>ec_bytes := ec_bytes c + cap' * 4, ec_allocs := Suc (ec_allocs c)\<rparr>) (cap' * 4)"
      have "spent 0 c ?c" using ok by (simp add: spent_def same_env_def ctx_ok_def discharge_def)
      moreover have "ec_bytes ?c = ec_bytes c" by (simp add: discharge_def)
      moreover have "phy_bigint_handle_valid ?c v"
        using v handle_valid_env [OF spentD(1) [OF \<open>spent 0 c ?c\<close>]] by (simp add: phy_bigint_shallow_valid_def)
      ultimately have "moved 0 v c v ?c" using cap by (simp add: moved_def)
      then show ?thesis unfolding red using oom by (auto simp: shortage_def Let_def)
    next
      case good
      let ?v = "v\<lparr>bg_limbs := take (bg_count v) (bg_limbs v) @ replicate (cap' - bg_count v) 0\<rparr>"
      let ?c2 = "c\<lparr>ec_bytes := ec_bytes c + cap' * 4, ec_allocs := Suc (ec_allocs c)\<rparr>"
      let ?c = "if bg_limbs v \<noteq> [] then discharge ?c2 (limb_bytes v) else ?c2"
      have cv: "capacity ?v = cap'" using cnt g(2) n(1) by simp
      have by': "ec_bytes ?c + limb_bytes v = ec_bytes c + cap' * 4" using own by (auto simp: discharge_def)
      have "ec_bytes c + cap' * 4 \<le> max_bytes (ec_limits c)" using good(1) ok by (simp add: ctx_ok_def not_less le_diff_conv2 add.commute)
      then have "spent 0 c ?c" using ok by (auto simp: spent_def same_env_def ctx_ok_def discharge_def)
      moreover have "phy_bigint_handle_valid c ?v"
        using v by (simp add: phy_bigint_shallow_valid_def phy_bigint_handle_valid_def)
      then have "phy_bigint_handle_valid ?c ?v"
        using handle_valid_env [OF spentD(1) [OF \<open>spent 0 c ?c\<close>], of ?v] by blast
      ultimately have "moved 0 v c ?v ?c" using g(3) by' unfolding moved_def cv by simp
      moreover have "capacity v \<le> cap'" using n(1) g(2) by simp
      ultimately show ?thesis
        unfolding red using good g(2) cap'2 cv cnt by (simp add: Let_def nth_append)
    qed
  qed
qed

text \<open>\<open>phy_bigint_normalize\<close> keeps the number.\<close>

lemma strip_count_spec:
  "strip_count xs k \<le> k \<and> nval xs (strip_count xs k) = nval xs k \<and>
    (strip_count xs k \<noteq> 0 \<longrightarrow> xs ! (strip_count xs k - 1) \<noteq> 0)"
  by (induction k) (auto simp: nval_Suc)

lemma strip_count_zero: "strip_count xs k = 0 \<longleftrightarrow> nval xs k = 0"
  using strip_count_spec [of xs k] nval_pos [of "strip_count xs k" xs]
  by (metis gr_zeroI less_irrefl nval_0)

lemma normalize_fields [simp]:
  "bg_limbs (phy_bigint_normalize v) = bg_limbs v" "bg_owner (phy_bigint_normalize v) = bg_owner v"
  "bg_live (phy_bigint_normalize v) = bg_live v" "bg_count (phy_bigint_normalize v) = strip_count (bg_limbs v) (bg_count v)"
  by (simp_all add: phy_bigint_normalize_def Let_def)

lemma normalize_magv [simp]: "magv (phy_bigint_normalize v) = magv v"
  using strip_count_spec [of "bg_limbs v" "bg_count v"] by (simp add: magv_def)

lemma normalize_valid:
  assumes "phy_bigint_handle_valid c v" "bg_count v \<le> capacity v" "capacity v \<le> max_limbs (ec_limits c)"
    and "bg_sign v = 1 \<or> bg_sign v = - 1 \<or> magv v = 0"
  shows "phy_bigint_shallow_valid c (phy_bigint_normalize v)"
    "ival (phy_bigint_normalize v) = bg_sign v * int (magv v)"
proof -
  let ?n = "strip_count (bg_limbs v) (bg_count v)"
  have z: "?n = 0 \<longleftrightarrow> magv v = 0" by (simp add: strip_count_zero magv_def)
  have s: "bg_sign (phy_bigint_normalize v) = (if ?n = 0 then 0 else bg_sign v)"
    by (simp add: phy_bigint_normalize_def Let_def)
  show "phy_bigint_shallow_valid c (phy_bigint_normalize v)"
    using assms strip_count_spec [of "bg_limbs v" "bg_count v"] z
    by (auto simp: phy_bigint_shallow_valid_def phy_bigint_handle_valid_def s)
  show "ival (phy_bigint_normalize v) = bg_sign v * int (magv v)"
    using z by (simp add: ival_def s)
qed

end
