(* ===== verification/Bigint.thy ===== *)
theory Bigint
  imports ExactLaws
begin

text \<open>
  Big integers, first part of \<open>src/exact/integer.c\<close>: the transactional skeleton of the
  operations (build the result in a temporary, commit by a swap), assignment, copies,
  conversion and comparison. An operation takes its operands by value and returns the new
  output handle; an output that aliases an input needs no separate treatment, since inputs are
  only read and the output is written by the final swap.
\<close>

section \<open>Operands and commit\<close>

text \<open>\<open>magnitude_i64\<close>: the two's complement of a negative value.\<close>

definition magnitude_i64 :: "int \<Rightarrow> u64" where
  "magnitude_i64 value = (if value < 0 then not (word_of_int value) + 1 else word_of_int value)"

definition compatible2 :: "phy_exact_context \<Rightarrow> phy_bigint \<Rightarrow> phy_bigint \<Rightarrow> bool" where
  "compatible2 c left right \<longleftrightarrow>
     phy_bigint_shallow_valid c left \<and> phy_bigint_shallow_valid c right \<and> bg_owner left = bg_owner right"

definition compatible3 :: "phy_exact_context \<Rightarrow> phy_bigint \<Rightarrow> phy_bigint \<Rightarrow> phy_bigint \<Rightarrow> bool" where
  "compatible3 c left right out \<longleftrightarrow>
     compatible2 c left right \<and> phy_bigint_shallow_valid c out \<and> bg_owner left = bg_owner out"

text \<open>\<open>commit\<close>: the payloads are swapped on success, and the temporary is destroyed.\<close>

definition commit ::
  "phy_bigint \<Rightarrow> phy_bigint \<Rightarrow> phy_status \<Rightarrow> phy_exact_context \<Rightarrow> phy_status \<times> phy_bigint \<times> phy_exact_context" where
  "commit destination temporary status c =
     (case (if status = PHY_OK then phy_bigint_swap_payload destination temporary else (destination, temporary)) of
        (destination', temporary') \<Rightarrow> (status, destination', snd (phy_bigint_destroy temporary' c)))"

text \<open>\<open>operation_begin\<close> with the zeroed temporary, and the common tail of the operations.\<close>

definition begin_temporary :: "phy_exact_context \<Rightarrow> phy_status \<times> phy_bigint \<times> phy_exact_context" where
  "begin_temporary c = (case phy_exact_operation_begin c of (status, c0) \<Rightarrow> (status, null_bigint, c0))"

definition settle ::
  "phy_bigint \<Rightarrow> phy_status \<times> phy_bigint \<times> phy_exact_context \<Rightarrow> phy_status \<times> phy_bigint \<times> phy_exact_context" where
  "settle out r =
     (case r of (status, temporary, c) \<Rightarrow>
      case (if status = PHY_OK then commit out temporary status c
            else (status, out, if phy_bigint_is_initialized c temporary
                               then snd (phy_bigint_destroy temporary c) else c)) of
        (status', out', c') \<Rightarrow>
          (case phy_exact_operation_end c' status' of (status'', c'') \<Rightarrow> (status'', out', c'')))"

text \<open>Begin, initialise the temporary, run the body on it, commit or destroy, end.\<close>

definition with_result ::
  "(phy_bigint \<times> phy_exact_context \<Rightarrow> phy_status \<times> phy_bigint \<times> phy_exact_context) \<Rightarrow>
   phy_bigint \<times> phy_exact_context \<Rightarrow> phy_status \<times> phy_bigint \<times> phy_exact_context" where
  "with_result body st =
     (case st of (out, c) \<Rightarrow> settle out (andthen (andthen (begin_temporary c) phy_bigint_init) body))"

section \<open>Assignment and copies\<close>

definition phy_bigint_assign_u64 ::
  "u64 \<Rightarrow> int \<Rightarrow> phy_bigint \<times> phy_exact_context \<Rightarrow> phy_status \<times> phy_bigint \<times> phy_exact_context" where
  "phy_bigint_assign_u64 magnitude sign st =
     (case st of (v, c) \<Rightarrow>
      if \<not> phy_bigint_shallow_valid c v \<or> sign < - 1 \<or> 1 < sign then (PHY_ERR_INVALID_ARGUMENT, v, c)
      else if magnitude = 0 then (PHY_OK, v\<lparr>bg_count := 0, bg_sign := 0\<rparr>, c)
      else
        let needed = (if 0xffffffff < magnitude then 2 else 1) in
        case phy_bigint_reserve needed (v, c) of (status, v1, c1) \<Rightarrow>
        if status \<noteq> PHY_OK then (status, v1, c1)
        else
          let l1 = (bg_limbs v1)[0 := low32 magnitude];
              l2 = (if needed = 2 then l1[1 := low32 (high32 magnitude)] else l1)
          in (PHY_OK, v1\<lparr>bg_limbs := l2, bg_count := needed, bg_sign := (if sign = 0 then 1 else sign)\<rparr>, c1))"

definition copy_payload ::
  "phy_bigint \<Rightarrow> bool \<Rightarrow> phy_bigint \<times> phy_exact_context \<Rightarrow> phy_status \<times> phy_bigint \<times> phy_exact_context" where
  "copy_payload source magnitude_only st =
     (case phy_bigint_reserve (bg_count source) st of (status, d, c) \<Rightarrow>
      if status \<noteq> PHY_OK then (status, d, c)
      else (PHY_OK,
            d\<lparr>bg_limbs := take (bg_count source) (bg_limbs source) @ drop (bg_count source) (bg_limbs d),
              bg_count := bg_count source,
              bg_sign := (if bg_count source = 0 then 0 else if magnitude_only then 1 else bg_sign source)\<rparr>, c))"

definition phy_bigint_copy_magnitude ::
  "phy_bigint \<Rightarrow> phy_bigint \<times> phy_exact_context \<Rightarrow> phy_status \<times> phy_bigint \<times> phy_exact_context" where
  "phy_bigint_copy_magnitude source st =
     (case st of (destination, c) \<Rightarrow>
      if \<not> compatible2 c source destination then (PHY_ERR_INVALID_ARGUMENT, destination, c)
      else copy_payload source True (destination, c))"

definition phy_bigint_set_i64 ::
  "int \<Rightarrow> phy_bigint \<times> phy_exact_context \<Rightarrow> phy_status \<times> phy_bigint \<times> phy_exact_context" where
  "phy_bigint_set_i64 integer st =
     (case st of (v, c) \<Rightarrow>
      if \<not> phy_bigint_shallow_valid c v then (PHY_ERR_INVALID_ARGUMENT, v, c)
      else with_result (phy_bigint_assign_u64 (magnitude_i64 integer)
             (if integer < 0 then - 1 else if 0 < integer then 1 else 0)) (v, c))"

text \<open>\<open>same\<close>: whether source and destination are one handle.\<close>

definition phy_bigint_copy ::
  "phy_bigint \<Rightarrow> bool \<Rightarrow> phy_bigint \<times> phy_exact_context \<Rightarrow> phy_status \<times> phy_bigint \<times> phy_exact_context" where
  "phy_bigint_copy source same st =
     (case st of (destination, c) \<Rightarrow>
      if \<not> compatible2 c source destination then (PHY_ERR_INVALID_ARGUMENT, destination, c)
      else if same then
        (case phy_exact_operation_begin c of (status, c0) \<Rightarrow>
           if status \<noteq> PHY_OK then (status, destination, c0)
           else case phy_exact_operation_end c0 PHY_OK of (status', c1) \<Rightarrow> (status', destination, c1))
      else with_result (copy_payload source False) (destination, c))"

section \<open>Conversion and comparison\<close>

definition phy_bigint_sign :: "phy_exact_context \<Rightarrow> phy_bigint \<Rightarrow> int" where
  "phy_bigint_sign c v = (if phy_bigint_shallow_valid c v then bg_sign v else 0)"

function limb_bit_length :: "u32 \<Rightarrow> nat" where
  "limb_bit_length value = (if value \<noteq> 0 then Suc (limb_bit_length (drop_bit 1 value)) else 0)"
  by pat_completeness auto
termination
proof (relation "measure unat")
  fix x :: u32 assume x: "x \<noteq> 0"
  have "unat (drop_bit 1 x) = unat x div 2" by (subst unat_drop_bit_eq) (simp add: drop_bit_eq_div)
  then show "(drop_bit 1 x, x) \<in> measure unat" using x by (simp add: unat_gt_0)
qed simp

declare limb_bit_length.simps [simp del]

definition phy_bigint_bit_length :: "phy_exact_context \<Rightarrow> phy_bigint \<Rightarrow> nat" where
  "phy_bigint_bit_length c v =
     (if \<not> phy_bigint_shallow_valid c v \<or> bg_count v = 0 then 0
      else (bg_count v - 1) * 32 + limb_bit_length (bg_limbs v ! (bg_count v - 1)))"

definition INT64_MAX_u64 :: u64 where
  "INT64_MAX_u64 = 0x7fffffffffffffff"

text \<open>\<open>phy_bigint_try_i64\<close>: the value, or \<open>None\<close> where the C function returns \<open>false\<close>.\<close>

definition phy_bigint_try_i64 :: "phy_exact_context \<Rightarrow> phy_bigint \<Rightarrow> int option" where
  "phy_bigint_try_i64 c v =
     (if \<not> phy_bigint_shallow_valid c v \<or> 2 < bg_count v then None
      else if bg_count v = 0 then Some 0
      else
        let m0 = wide (bg_limbs v ! 0);
            magnitude = (if bg_count v = 2 then or m0 (push_bit 32 (wide (bg_limbs v ! 1))) else m0)
        in if 0 < bg_sign v then
             (if INT64_MAX_u64 < magnitude then None else Some (sint magnitude))
           else
             let minimum_magnitude = INT64_MAX_u64 + 1 in
             if minimum_magnitude < magnitude then None
             else Some (if magnitude = minimum_magnitude then - 9223372036854775808 else - sint magnitude))"

text \<open>The downward scan of \<open>phy_bigint_compare_abs\<close> over the remaining indices.\<close>

fun compare_limbs :: "u32 list \<Rightarrow> u32 list \<Rightarrow> nat \<Rightarrow> int" where
  "compare_limbs xs ys 0 = 0"
| "compare_limbs xs ys (Suc k) =
     (if xs ! k \<noteq> ys ! k then (if ys ! k < xs ! k then 1 else - 1) else compare_limbs xs ys k)"

definition phy_bigint_compare_abs :: "phy_exact_context \<Rightarrow> phy_bigint \<Rightarrow> phy_bigint \<Rightarrow> int" where
  "phy_bigint_compare_abs c left right =
     (if \<not> compatible2 c left right then 0
      else if bg_count left \<noteq> bg_count right then (if bg_count right < bg_count left then 1 else - 1)
      else compare_limbs (bg_limbs left) (bg_limbs right) (bg_count left))"

definition phy_bigint_compare :: "phy_exact_context \<Rightarrow> phy_bigint \<Rightarrow> phy_bigint \<Rightarrow> int" where
  "phy_bigint_compare c left right =
     (if \<not> compatible2 c left right then 0
      else if bg_sign left \<noteq> bg_sign right then (if bg_sign right < bg_sign left then 1 else - 1)
      else if bg_sign left = 0 then 0
      else let magnitude = phy_bigint_compare_abs c left right
           in if 0 < bg_sign left then magnitude else - magnitude)"

end
