(* ===== verification/BigintLaws.thy ===== *)
theory BigintLaws
  imports Bigint
begin

text \<open>
  The transactional contract of the big-integer operations, once for all of them: a body that
  builds a value in the temporary gives an operation that replaces the output on success and
  leaves it alone on failure, and in both cases returns every temporary byte, handle and
  nesting level. The conversion and comparison functions agree with the integers.
\<close>

section \<open>The transaction\<close>

text \<open>The context an operation's work is charged to: an outermost call restarts the meter.\<close>

definition begun :: "phy_exact_context \<Rightarrow> phy_exact_context" where
  "begun c = (if ec_depth c = 0 then c\<lparr>ec_steps := 0\<rparr> else c)"

lemma begun_nested [simp]: "ec_depth c \<noteq> 0 \<Longrightarrow> begun c = c"
  by (simp add: begun_def)

lemma begun_env [simp]: "same_env c (begun c)" "same_env (begun c) c" "ec_bytes (begun c) = ec_bytes c"
    "ec_values (begun c) = ec_values c" "ec_depth (begun c) = ec_depth c" "ec_limits (begun c) = ec_limits c"
  by (simp_all add: begun_def same_env_def)

lemma begun_ok: "ctx_ok c \<Longrightarrow> ctx_ok (begun c)"
  by (simp add: begun_def ctx_ok_def)

abbreviation entered :: "phy_exact_context \<Rightarrow> phy_exact_context" where
  "entered c \<equiv> (begun c)\<lparr>ec_depth := Suc (ec_depth c)\<rparr>"

abbreviation with_value :: "phy_exact_context \<Rightarrow> phy_exact_context" where
  "with_value c \<equiv> c\<lparr>ec_values := Suc (ec_values c)\<rparr>"

definition fresh :: "phy_exact_context \<Rightarrow> phy_bigint" where
  "fresh c = null_bigint\<lparr>bg_owner := ec_id c, bg_live := True\<rparr>"

lemma begin_eq: "ctx_ok c \<Longrightarrow> phy_exact_operation_begin c = (PHY_OK, entered c)"
  by (simp add: phy_exact_operation_begin_def phy_exact_context_is_valid_def ctx_ok_def begun_def Let_def)

lemma init_eq: "ctx_ok c \<Longrightarrow> phy_bigint_init (v, c) = (PHY_OK, fresh c, with_value c)"
  by (simp add: phy_bigint_init_def phy_exact_context_is_valid_def ctx_ok_def fresh_def)

lemma ctx_ok_counters [simp]:
  "ctx_ok (c\<lparr>ec_depth := d\<rparr>) = ctx_ok c" "ctx_ok (c\<lparr>ec_values := n\<rparr>) = ctx_ok c"
  by (simp_all add: ctx_ok_def)

lemma same_env_counters [simp]:
  "same_env c (c\<lparr>ec_depth := d\<rparr>)" "same_env c (c\<lparr>ec_values := n\<rparr>)"
  "same_env c (c'\<lparr>ec_depth := d\<rparr>) = same_env c c'" "same_env c (c'\<lparr>ec_values := n\<rparr>) = same_env c c'"
  by (simp_all add: same_env_def)

lemma fresh_fields [simp]:
  "capacity (fresh c) = 0" "bg_count (fresh c) = 0" "bg_sign (fresh c) = 0" "ival (fresh c) = 0"
  by (simp_all add: fresh_def null_bigint_def ival_def)

lemma fresh_valid: "ctx_ok c \<Longrightarrow> same_env c c' \<Longrightarrow> phy_bigint_shallow_valid c' (fresh c)"
  by (simp add: phy_bigint_shallow_valid_def phy_bigint_handle_valid_def phy_exact_context_is_valid_def
      fresh_def null_bigint_def ctx_ok_def same_env_def)

lemma destroy_eq:
  assumes "phy_bigint_handle_valid c v" "limb_bytes v \<le> ec_bytes c"
  shows "phy_bigint_destroy v c =
    (null_bigint, c\<lparr>ec_bytes := ec_bytes c - limb_bytes v, ec_values := ec_values c - 1\<rparr>)"
  using assms by (auto simp: phy_bigint_destroy_def discharge_def Let_def)

lemma end_eq: "ctx_ok c \<Longrightarrow> ec_depth c \<noteq> 0 \<Longrightarrow>
    phy_exact_operation_end c st = (st, c\<lparr>ec_depth := ec_depth c - 1\<rparr>)"
  by (simp add: phy_exact_operation_end_def phy_exact_context_is_valid_def ctx_ok_def)

lemma shortage_counters:
  "shortage k m b (c\<lparr>ec_depth := d\<rparr>) st = shortage k m b c st"
  "shortage k m b (c\<lparr>ec_values := n\<rparr>) st = shortage k m b c st"
  by (simp_all add: shortage_def)

text \<open>Closing an operation that created \<open>n\<close> values and destroyed them again.\<close>

lemma spent_exit:
  assumes "spent k ((entered c)\<lparr>ec_values := ec_values c + n\<rparr>) c2" "ctx_ok c"
    and "c3 = c2\<lparr>ec_bytes := by', ec_values := ec_values c2 - n, ec_depth := ec_depth c2 - 1\<rparr>" "by' \<le> ec_bytes c2"
  shows "spent k (begun c) c3"
  using assms by (auto simp: spent_def same_env_def ctx_ok_def)

locale transactional =
  fixes pre :: "phy_exact_context \<Rightarrow> bool"
    and body :: "phy_bigint \<times> phy_exact_context \<Rightarrow> phy_status \<times> phy_bigint \<times> phy_exact_context"
    and result :: int and steps limbs mem :: nat
  assumes pre_env: "same_env c c' \<Longrightarrow> pre c \<Longrightarrow> pre c'"
    and body_spec: "pre c \<Longrightarrow> ctx_ok c \<Longrightarrow> phy_bigint_shallow_valid c t \<Longrightarrow> t = fresh c \<Longrightarrow>
      outcome (body (t, c))
        (\<lambda>(t', c'). moved steps t c t' c' \<and> phy_bigint_shallow_valid c' t' \<and> ival t' = result)
        (\<lambda>st (t', c'). moved steps t c t' c' \<and> shortage steps limbs mem c st)"
begin

lemma transaction:
  assumes pre: "pre c" and ok: "ctx_ok c" and out: "phy_bigint_shallow_valid c out" "limb_bytes out \<le> ec_bytes c"
  shows "outcome (with_result body (out, c))
    (\<lambda>(out', c'). moved steps out (begun c) out' c' \<and> phy_bigint_shallow_valid c' out' \<and> ival out' = result)
    (\<lambda>st (out', c'). out' = out \<and> moved steps out (begun c) out c' \<and> shortage steps limbs mem (begun c) st)"
proof -
  let ?c1 = "(entered c)\<lparr>ec_values := Suc (ec_values c)\<rparr>" and ?t = "fresh c"
  have ok1: "ctx_ok ?c1" using begun_ok [OF ok] by simp
  have fr: "fresh ?c1 = ?t" by (simp add: fresh_def begun_def)
  have e1: "same_env c ?c1" by simp
  obtain st t c2 where b: "body (?t, ?c1) = (st, t, c2)" by (cases "body (?t, ?c1)")
  have "fresh (entered c) = ?t" "ctx_ok (entered c)" using begun_ok [OF ok] by (simp_all add: fresh_def begun_def)
  then have w: "with_result body (out, c) = settle out (st, t, c2)"
    using ok b by (simp add: with_result_def begin_temporary_def begin_eq init_eq andthen_def)
  from body_spec [OF pre_env [OF e1 pre] ok1 fresh_valid [OF ok e1] fr [symmetric], unfolded b]
  have spec: "moved steps ?t ?c1 t c2" "st = PHY_OK \<Longrightarrow> phy_bigint_shallow_valid c2 t \<and> ival t = result"
    "st \<noteq> PHY_OK \<Longrightarrow> shortage steps limbs mem (begun c) st"
    by (auto simp: shortage_counters split: if_splits)
  then have c2: "spent steps ?c1 c2" "phy_bigint_handle_valid c2 t" "capacity t \<le> max_limbs (ec_limits c)"
    "ec_bytes c2 = ec_bytes c + limb_bytes t" by (simp_all add: moved_def)
  then have d2: "ec_depth c2 = Suc (ec_depth c)" "ec_values c2 = Suc (ec_values c)" "ctx_ok c2"
    using spentD [OF c2(1)] by simp_all
  have e2: "same_env c c2" using same_env_trans [OF e1 spentD(1) [OF c2(1)]] .
  have hv: "phy_bigint_handle_valid c2 out" "capacity out \<le> max_limbs (ec_limits c)"
    using out(1) handle_valid_env [OF e2] by (simp_all add: phy_bigint_shallow_valid_def)
  have c1': "spent steps ((entered c)\<lparr>ec_values := ec_values c + 1\<rparr>) c2" using c2(1) by simp
  show ?thesis
  proof (cases "st = PHY_OK")
    case True
    let ?out = "out\<lparr>bg_limbs := bg_limbs t, bg_count := bg_count t, bg_sign := bg_sign t\<rparr>"
    let ?tmp = "t\<lparr>bg_limbs := bg_limbs out, bg_count := bg_count out, bg_sign := bg_sign out\<rparr>"
    let ?c3 = "c2\<lparr>ec_bytes := ec_bytes c2 - limb_bytes out, ec_values := ec_values c2 - 1, ec_depth := ec_depth c2 - 1\<rparr>"
    have "phy_bigint_handle_valid c2 ?tmp" using c2(2) by (simp add: phy_bigint_handle_valid_def)
    moreover have "limb_bytes ?tmp \<le> ec_bytes c2" using out(2) c2(4) by simp
    ultimately have ds: "phy_bigint_destroy ?tmp c2 =
        (null_bigint, c2\<lparr>ec_bytes := ec_bytes c2 - limb_bytes out, ec_values := ec_values c2 - 1\<rparr>)"
      using destroy_eq by simp
    have "ctx_ok (c2\<lparr>ec_bytes := ec_bytes c2 - limb_bytes out, ec_values := ec_values c2 - 1\<rparr>)"
      using d2(3) by (simp add: ctx_ok_def le_diff_conv trans_le_add1)
    then have r: "settle out (st, t, c2) = (PHY_OK, ?out, ?c3)"
      using True ds d2(1) by (simp add: settle_def commit_def phy_bigint_swap_payload_def end_eq)
    have sp: "spent steps (begun c) ?c3" by (rule spent_exit [OF c1' ok refl]) simp
    have "phy_bigint_shallow_valid c2 ?out"
      using spec(2) [OF True] hv(1)
      by (auto simp: phy_bigint_shallow_valid_def phy_bigint_handle_valid_def split: if_splits)
    then have vo: "phy_bigint_shallow_valid ?c3 ?out"
      using shallow_valid_env [of c2 ?c3 ?out] by (simp add: same_env_def)
    moreover have "ec_bytes ?c3 + limb_bytes out = ec_bytes (begun c) + limb_bytes ?out"
      using c2(4) out(2) by simp
    ultimately have "moved steps out (begun c) ?out ?c3"
      using sp c2(3) by (simp add: moved_def phy_bigint_shallow_valid_def)
    moreover have "ival ?out = result" using spec(2) [OF True] by (simp add: ival_def magv_def)
    ultimately show ?thesis using vo unfolding w r by simp
  next
    case False
    let ?c3 = "c2\<lparr>ec_bytes := ec_bytes c2 - limb_bytes t, ec_values := ec_values c2 - 1, ec_depth := ec_depth c2 - 1\<rparr>"
    have ds: "phy_bigint_destroy t c2 =
        (null_bigint, c2\<lparr>ec_bytes := ec_bytes c2 - limb_bytes t, ec_values := ec_values c2 - 1\<rparr>)"
      using c2(2,4) by (intro destroy_eq) simp_all
    have "ctx_ok (c2\<lparr>ec_bytes := ec_bytes c2 - limb_bytes t, ec_values := ec_values c2 - 1\<rparr>)"
      using d2(3) by (simp add: ctx_ok_def le_diff_conv trans_le_add1)
    then have r: "settle out (st, t, c2) = (st, out, ?c3)"
      using False ds d2(1) c2(2) by (simp add: settle_def phy_bigint_is_initialized_def end_eq)
    have sp: "spent steps (begun c) ?c3" by (rule spent_exit [OF c1' ok refl]) simp
    have "phy_bigint_handle_valid ?c3 out"
      using hv(1) by (simp add: phy_bigint_handle_valid_def phy_exact_context_is_valid_def)
    then have "moved steps out (begun c) out ?c3" using sp hv(2) c2(4) by (simp add: moved_def)
    then show ?thesis unfolding w r using spec(3) False by simp
  qed
qed

end

section \<open>Assignment and copies\<close>

text \<open>Writing a limb prefix of a reserved array: what validity and value need.\<close>

lemma value_of_limbs:
  assumes "phy_bigint_handle_valid c v" "n \<le> length xs" "length xs \<le> max_limbs (ec_limits c)"
    and "n \<noteq> 0 \<Longrightarrow> xs ! (n - 1) \<noteq> 0 \<and> (s = 1 \<or> s = - 1)" "n = 0 \<Longrightarrow> s = 0"
  shows "phy_bigint_shallow_valid c (v\<lparr>bg_limbs := xs, bg_count := n, bg_sign := s\<rparr>)"
    "ival (v\<lparr>bg_limbs := xs, bg_count := n, bg_sign := s\<rparr>) = s * int (nval xs n)"
proof -
  show "phy_bigint_shallow_valid c (v\<lparr>bg_limbs := xs, bg_count := n, bg_sign := s\<rparr>)"
    using assms by (cases "n = 0") (auto simp: phy_bigint_shallow_valid_def phy_bigint_handle_valid_def)
  show "ival (v\<lparr>bg_limbs := xs, bg_count := n, bg_sign := s\<rparr>) = s * int (nval xs n)"
    by (simp add: ival_def magv_def)
qed

lemma moved_limbs:
  "moved k v c v1 c1 \<Longrightarrow> length xs = capacity v1 \<Longrightarrow>
    moved k v c (v1\<lparr>bg_limbs := xs, bg_count := n, bg_sign := s\<rparr>) c1"
  by (simp add: moved_def phy_bigint_handle_valid_def)

lemma moved_handle: "moved k v c v1 c1 \<Longrightarrow>
    phy_bigint_handle_valid c1 v1 \<and> capacity v1 \<le> max_limbs (ec_limits c1) \<and> ctx_ok c1 \<and> same_env c c1"
  by (auto simp: moved_def dest: spentD)

lemma assign_u64_spec:
  assumes ok: "ctx_ok c" and v: "phy_bigint_shallow_valid c v" "limb_bytes v \<le> ec_bytes c"
    and s: "s = 0 \<or> s = 1 \<or> s = - 1"
  shows "outcome (phy_bigint_assign_u64 m s (v, c))
    (\<lambda>(v', c'). moved 0 v c v' c' \<and> phy_bigint_shallow_valid c' v' \<and>
       ival v' = (if s = 0 then 1 else s) * int (unat m) \<and> capacity v' \<le> max (capacity v) 4)
    (\<lambda>st (v', c'). v' = v \<and> moved 0 v c v' c' \<and> shortage 0 2 16 c st)"
proof (cases "m = 0")
  case True
  have "moved 0 v c (v\<lparr>bg_limbs := bg_limbs v, bg_count := 0, bg_sign := 0\<rparr>) c"
    by (rule moved_limbs [OF moved_refl [OF ok v(1)]]) simp
  then show ?thesis
    using True s v by (auto simp: phy_bigint_assign_u64_def phy_bigint_shallow_valid_def phy_bigint_handle_valid_def ival_def)
next
  case False
  define n :: nat where "n = (if 0xffffffff < m then 2 else 1)"
  have n: "n = 1 \<or> n = 2" by (simp add: n_def)
  obtain st v1 c1 where r: "phy_bigint_reserve n (v, c) = (st, v1, c1)" by (cases "phy_bigint_reserve n (v, c)")
  note spec = reserve_spec [OF ok v, of n, unfolded r]
  let ?l1 = "(bg_limbs v1)[0 := low32 m]"
  let ?l2 = "if n = 2 then ?l1[1 := low32 (high32 m)] else ?l1"
  have eq: "phy_bigint_assign_u64 m s (v, c) = (if st \<noteq> PHY_OK then (st, v1, c1)
      else (PHY_OK, v1\<lparr>bg_limbs := ?l2, bg_count := n, bg_sign := (if s = 0 then 1 else s)\<rparr>, c1))"
    using False s v(1) r by (auto simp: phy_bigint_assign_u64_def n_def Let_def)
  show ?thesis
  proof (cases "st = PHY_OK")
    case False
    then show ?thesis using spec shortage_mono [of 0 n "8 * n" c st 0 2 16] n unfolding eq by auto
  next
    case True
    then have v1: "moved 0 v c v1 c1" "n \<le> capacity v1" "capacity v1 \<le> max (capacity v) (max 1 (2 * n))"
      using spec by simp_all
    have hi: "unat (low32 (high32 m)) = unat (high32 m)"
      unfolding unat_low32 using unat_high32_bound [of m] by simp
    have mm: "unat m = unat (low32 m) + base * unat (high32 m)" using low_high [of m] by (simp add: base_def)
    have big: "n = 1 \<Longrightarrow> unat (high32 m) = 0" "n = 2 \<Longrightarrow> unat (high32 m) \<noteq> 0"
      by (auto simp: n_def unat_high32 word_less_nat_alt div_eq_0_iff split: if_splits)
    have ne: "bg_limbs v1 \<noteq> []" using v1(2) n by auto
    have val: "nval ?l2 n = unat m"
      using n v1(2) mm hi big ne by (auto simp: numeral_2_eq_2 nval_Suc)
    have top: "?l2 ! (n - 1) \<noteq> 0"
    proof (cases "n = 2")
      case True
      then show ?thesis using v1(2) hi big(2) by (auto simp: unat_pos_limb simp flip: unat_eq_0)
    next
      case one: False
      then have "unat (low32 m) \<noteq> 0" using n False mm big by (auto simp flip: unat_eq_0)
      then show ?thesis using one n v1(2) ne by (auto simp flip: unat_eq_0)
    qed
    let ?v = "v1\<lparr>bg_limbs := ?l2, bg_count := n, bg_sign := (if s = 0 then 1 else s)\<rparr>"
    have len: "length ?l2 = capacity v1" by simp
    have "moved 0 v c ?v c1" by (rule moved_limbs [OF v1(1) len])
    moreover have "phy_bigint_shallow_valid c1 ?v" "ival ?v = (if s = 0 then 1 else s) * int (nval ?l2 n)"
      using value_of_limbs [of c1 v1 n ?l2 "if s = 0 then 1 else s"] moved_handle [OF v1(1)] v1(2) len top s n
      by auto
    moreover have "capacity ?v \<le> max (capacity v) 4" using v1(3) n len by auto
    ultimately show ?thesis using True val unfolding eq by simp
  qed
qed

lemma copy_payload_spec:
  assumes ok: "ctx_ok c" and v: "phy_bigint_shallow_valid c v" "limb_bytes v \<le> ec_bytes c"
    and src: "phy_bigint_shallow_valid c src"
  shows "outcome (copy_payload src only (v, c))
    (\<lambda>(v', c'). moved 0 v c v' c' \<and> phy_bigint_shallow_valid c' v' \<and>
       ival v' = (if only then \<bar>ival src\<bar> else ival src) \<and> bg_count v' = bg_count src \<and> magv v' = magv src \<and>
       capacity v' \<le> max (capacity v) (max 1 (2 * bg_count src)))
    (\<lambda>st (v', c'). v' = v \<and> moved 0 v c v' c' \<and> shortage 0 (bg_count src) (8 * bg_count src) c st)"
proof -
  let ?n = "bg_count src"
  obtain st v1 c1 where r: "phy_bigint_reserve ?n (v, c) = (st, v1, c1)" by (cases "phy_bigint_reserve ?n (v, c)")
  note spec = reserve_spec [OF ok v, of ?n, unfolded r]
  let ?l = "take ?n (bg_limbs src) @ drop ?n (bg_limbs v1)"
  let ?s = "if ?n = 0 then 0 else if only then 1 else bg_sign src"
  have eq: "copy_payload src only (v, c) = (if st \<noteq> PHY_OK then (st, v1, c1)
      else (PHY_OK, v1\<lparr>bg_limbs := ?l, bg_count := ?n, bg_sign := ?s\<rparr>, c1))"
    using r by (simp add: copy_payload_def)
  show ?thesis
  proof (cases "st = PHY_OK")
    case False
    then show ?thesis using spec unfolding eq by simp
  next
    case True
    then have v1: "moved 0 v c v1 c1" "?n \<le> capacity v1" "capacity v1 \<le> max (capacity v) (max 1 (2 * ?n))"
      using spec by simp_all
    have cs: "?n \<le> capacity src" using src by (simp add: phy_bigint_shallow_valid_def)
    then have len: "length ?l = capacity v1" using v1(2) by simp
    have val: "nval ?l ?n = magv src" using cs by (simp add: magv_def nval_append)
    have top: "?n \<noteq> 0 \<Longrightarrow> ?l ! (?n - 1) \<noteq> 0 \<and> (?s = 1 \<or> ?s = - 1)"
      using src cs by (auto simp: phy_bigint_shallow_valid_def nth_append)
    let ?v = "v1\<lparr>bg_limbs := ?l, bg_count := ?n, bg_sign := ?s\<rparr>"
    have "moved 0 v c ?v c1" by (rule moved_limbs [OF v1(1) len])
    moreover have "phy_bigint_shallow_valid c1 ?v" "ival ?v = ?s * int (nval ?l ?n)"
      using value_of_limbs [of c1 v1 ?n ?l ?s] moved_handle [OF v1(1)] v1(2) len top by auto
    moreover have "?s * int (magv src) = (if only then \<bar>ival src\<bar> else ival src)"
      using valid_sign [OF src] by (auto simp: ival_def)
    moreover have "magv ?v = magv src" using val by (simp add: magv_def)
    ultimately show ?thesis using True val v1(3) len unfolding eq by simp
  qed
qed

interpretation assign_op: transactional "\<lambda>c. s = 0 \<or> s = 1 \<or> s = - 1" "phy_bigint_assign_u64 m s"
    "(if s = 0 then 1 else s) * int (unat m)" 0 2 16
  for m s
proof (unfold_locales, goal_cases)
  case (2 c t)
  have "limb_bytes t \<le> ec_bytes c" using 2(4) by simp
  from assign_u64_spec [OF 2(2,3) this 2(1), of m] show ?case by (rule outcome_mono) auto
qed simp

interpretation copy_op: transactional "\<lambda>c. phy_bigint_shallow_valid c src" "copy_payload src only"
    "if only then \<bar>ival src\<bar> else ival src" 0 "bg_count src" "8 * bg_count src"
  for src only
proof (unfold_locales, goal_cases)
  case (1 c c')
  then show ?case using shallow_valid_env by blast
next
  case (2 c t)
  have "limb_bytes t \<le> ec_bytes c" using 2(4) by simp
  from copy_payload_spec [OF 2(2,3) this 2(1), of only] show ?case by (rule outcome_mono) auto
qed

section \<open>Comparison\<close>

lemma compare_limbs_spec: "compare_limbs xs ys k = sgn (int (nval xs k) - int (nval ys k))"
proof (induction k)
  case (Suc k)
  show ?case
  proof (cases "xs ! k = ys ! k")
    case True
    then show ?thesis using Suc by (simp add: nval_Suc)
  next
    case False
    then consider "xs ! k < ys ! k" | "ys ! k < xs ! k" by (meson linorder_cases)
    then show ?thesis
    proof cases
      case 1
      then show ?thesis using nval_diff_top [of k "Suc k" xs ys] by (auto dest: less_not_sym)
    next
      case 2
      then show ?thesis using nval_diff_top [of k "Suc k" ys xs] by (auto dest: less_not_sym)
    qed
  qed
qed simp

lemma valid_owner: "phy_bigint_shallow_valid c v \<Longrightarrow> bg_owner v = ec_id c"
  by (simp add: phy_bigint_shallow_valid_def phy_bigint_handle_valid_def)

lemma compatible2_iff: "compatible2 c l r \<longleftrightarrow> phy_bigint_shallow_valid c l \<and> phy_bigint_shallow_valid c r"
  by (auto simp: compatible2_def valid_owner)

lemma compatible3_iff: "compatible3 c l r v \<longleftrightarrow>
    phy_bigint_shallow_valid c l \<and> phy_bigint_shallow_valid c r \<and> phy_bigint_shallow_valid c v"
  by (auto simp: compatible3_def compatible2_iff valid_owner)

lemma compare_abs_spec:
  assumes "phy_bigint_shallow_valid c l" "phy_bigint_shallow_valid c r"
  shows "phy_bigint_compare_abs c l r = sgn (int (magv l) - int (magv r))"
proof -
  have less: "magv a < magv b"
    if "phy_bigint_shallow_valid c a" "phy_bigint_shallow_valid c b" "bg_count a < bg_count b" for a b
    using nval_count_less [OF that(3), of "bg_limbs b" "bg_limbs a"] that(2,3)
    by (simp add: magv_def phy_bigint_shallow_valid_def split: if_splits)
  consider "bg_count l < bg_count r" | "bg_count r < bg_count l" | "bg_count l = bg_count r" by linarith
  then show ?thesis
  proof cases
    case 1
    then show ?thesis using less [OF assms 1] assms by (simp add: phy_bigint_compare_abs_def compatible2_iff)
  next
    case 2
    then show ?thesis using less [OF assms(2,1) 2] assms by (simp add: phy_bigint_compare_abs_def compatible2_iff)
  next
    case 3
    then show ?thesis using assms
      by (simp add: phy_bigint_compare_abs_def compatible2_iff compare_limbs_spec magv_def)
  qed
qed

lemma compare_spec:
  assumes "phy_bigint_shallow_valid c l" "phy_bigint_shallow_valid c r"
  shows "phy_bigint_compare c l r = sgn (ival l - ival r)"
proof -
  note sl = valid_sign [OF assms(1)] and sr = valid_sign [OF assms(2)]
  have il: "ival l = bg_sign l * int (magv l)" and ir: "ival r = bg_sign r * int (magv r)" by (simp_all add: ival_def)
  show ?thesis
  proof (cases "bg_sign l = bg_sign r")
    case False
    then have "sgn (ival l) \<noteq> sgn (ival r)" using sl sr by simp
    moreover have "phy_bigint_compare c l r = (if sgn (ival r) < sgn (ival l) then 1 else - 1)"
      using False assms sl sr by (simp add: phy_bigint_compare_def compatible2_iff)
    ultimately show ?thesis by (auto simp: sgn_if split: if_splits)
  next
    case True
    consider "bg_sign l = 0" | "bg_sign l = 1" | "bg_sign l = - 1" using sl by (metis sgn_if)
    then show ?thesis
    proof cases
      case 1
      then show ?thesis using True assms il ir by (simp add: phy_bigint_compare_def compatible2_iff)
    next
      case 2
      then show ?thesis using True assms il ir
        by (simp add: phy_bigint_compare_def compatible2_iff compare_abs_spec Let_def)
    next
      case 3
      then show ?thesis using True assms il ir
        by (simp add: phy_bigint_compare_def compatible2_iff compare_abs_spec Let_def sgn_if)
    qed
  qed
qed

section \<open>Conversion\<close>

lemma limb_bit_length_spec: "x \<noteq> 0 \<Longrightarrow> 2 ^ (limb_bit_length x - 1) \<le> unat x \<and> unat x < 2 ^ limb_bit_length x \<and> 0 < limb_bit_length x"
proof (induction x rule: limb_bit_length.induct)
  case (1 x)
  have half: "unat (drop_bit 1 x) = unat x div 2" by (subst unat_drop_bit_eq) (simp add: drop_bit_eq_div)
  have s: "limb_bit_length x = Suc (limb_bit_length (drop_bit 1 x))" using 1(2) by (subst limb_bit_length.simps) simp
  show ?case
  proof (cases "drop_bit 1 x = 0")
    case True
    then have "unat x div 2 = 0" using half by simp
    moreover have "limb_bit_length (drop_bit 1 x) = 0" using True by (subst limb_bit_length.simps) simp
    moreover have "0 < unat x" using 1(2) by (simp add: unat_gt_0)
    ultimately show ?thesis by (simp add: s)
  next
    case False
    from 1(1) [OF 1(2) False] have ih: "2 ^ (limb_bit_length (drop_bit 1 x) - 1) \<le> unat x div 2"
      "unat x div 2 < 2 ^ limb_bit_length (drop_bit 1 x)" "0 < limb_bit_length (drop_bit 1 x)" unfolding half by blast+
    obtain b where b: "limb_bit_length (drop_bit 1 x) = Suc b" using ih(3) by (cases "limb_bit_length (drop_bit 1 x)") auto
    show ?thesis using ih unfolding s b by (simp, linarith)
  qed
qed

text \<open>The bit length is the position of the top bit.\<close>

lemma bit_length_spec:
  assumes "phy_bigint_shallow_valid c v" "ival v \<noteq> 0"
  shows "2 ^ (phy_bigint_bit_length c v - 1) \<le> magv v \<and> magv v < 2 ^ phy_bigint_bit_length c v \<and>
    0 < phy_bigint_bit_length c v"
proof -
  let ?k = "bg_count v - 1" and ?x = "bg_limbs v ! (bg_count v - 1)"
  have cnt: "bg_count v \<noteq> 0" using assms valid_sign by blast
  then have x: "?x \<noteq> 0" and suc: "bg_count v = Suc ?k"
    using assms(1) by (auto simp: phy_bigint_shallow_valid_def)
  let ?b = "limb_bit_length ?x"
  note xb = limb_bit_length_spec [OF x]
  have bl: "phy_bigint_bit_length c v = ?k * 32 + ?b" using assms(1) cnt by (simp add: phy_bigint_bit_length_def)
  have m: "magv v = nval (bg_limbs v) ?k + unat ?x * base ^ ?k"
    unfolding magv_def by (subst suc) (simp add: nval_Suc)
  have p: "base ^ ?k = 2 ^ (?k * 32)" unfolding base_pow(2) by (simp only: power_mult [symmetric] mult.commute)
  have "2 ^ (?b - 1) * base ^ ?k \<le> unat ?x * base ^ ?k" using xb by (intro mult_le_mono1) simp
  also have "\<dots> \<le> magv v" by (simp add: m)
  finally have lo: "2 ^ (?b - 1 + ?k * 32) \<le> magv v" by (simp only: p power_add)
  have "Suc (unat ?x) * base ^ ?k \<le> 2 ^ ?b * base ^ ?k" using xb by (intro mult_le_mono1) simp
  moreover have "magv v < Suc (unat ?x) * base ^ ?k" using nval_bound [of "bg_limbs v" ?k] by (simp add: m)
  ultimately have hi: "magv v < 2 ^ (?b + ?k * 32)" by (simp only: p power_add)
  have "phy_bigint_bit_length c v - 1 = ?b - 1 + ?k * 32" using xb by (simp add: bl)
  then show ?thesis using lo hi xb by (simp add: bl add.commute)
qed

lemma magnitude_i64_spec:
  assumes "- (2 ^ 63) \<le> x" "x < 2 ^ 63"
  shows "unat (magnitude_i64 x) = nat \<bar>x\<bar>"
proof -
  have "magnitude_i64 x = word_of_int \<bar>x\<bar>"
  proof (cases "x < 0")
    case True
    have "not (word_of_int x) + 1 = - (word_of_int x :: u64)" by (simp add: minus_eq_not_plus_1)
    then show ?thesis using True by (simp add: magnitude_i64_def)
  next
    case False
    then show ?thesis by (simp add: magnitude_i64_def)
  qed
  moreover have "\<bar>x\<bar> < 2 ^ 64" "0 \<le> \<bar>x\<bar>" using assms by simp_all
  ultimately have "uint (magnitude_i64 x) = \<bar>x\<bar>" by (simp add: uint_word_of_int)
  then show ?thesis by (metis unat_eq_nat_uint)
qed

lemma try_i64_spec:
  assumes v: "phy_bigint_shallow_valid c v"
  shows "phy_bigint_try_i64 c v = (if - (2 ^ 63) \<le> ival v \<and> ival v < 2 ^ 63 then Some (ival v) else None)"
proof -
  note s = valid_sign [OF v]
  consider "bg_count v = 0" | "bg_count v = 1 \<or> bg_count v = 2" | "2 < bg_count v" by linarith
  then show ?thesis
  proof cases
    case 1
    then show ?thesis using v s by (simp add: phy_bigint_try_i64_def)
  next
    case 3
    then have top: "bg_limbs v ! (bg_count v - 1) \<noteq> 0" using v by (auto simp: phy_bigint_shallow_valid_def)
    have "base ^ 2 \<le> base ^ (bg_count v - 1)" using 3 by (intro power_increasing) simp_all
    also have "\<dots> \<le> magv v" unfolding magv_def using 3 top by (intro nval_top) simp_all
    finally have "2 ^ 64 \<le> \<bar>ival v\<bar>" using s by (simp add: base_def)
    then have "\<not> (- (2 ^ 63) \<le> ival v \<and> ival v < 2 ^ 63)" by (simp add: abs_if split: if_splits)
    then show ?thesis using 3 v by (auto simp: phy_bigint_try_i64_def)
  next
    case 2
    let ?m = "if bg_count v = 2 then or (wide (bg_limbs v ! 0)) (push_bit 32 (wide (bg_limbs v ! 1)))
      else wide (bg_limbs v ! 0)"
    have j: "or (wide a) (push_bit 32 (wide b)) = join32 (wide b) a" for a b
      by (simp add: join32_def or.commute)
    have m: "unat ?m = magv v"
      using 2 unat_join32 [of "wide (bg_limbs v ! 1)" "bg_limbs v ! 0"] unat_u32_bound [of "bg_limbs v ! 1"]
      unfolding j magv_def by (auto simp: nval_1 [simplified] nval_2 base_def)
    define w where "w = ?m"
    have w: "uint w = \<bar>ival v\<bar>" using m s by (simp add: w_def uint_nat)
    have sg: "bg_sign v = 1 \<or> bg_sign v = - 1" using v 2 by (auto simp: phy_bigint_shallow_valid_def)
    have eqn: "phy_bigint_try_i64 c v = (if 0 < bg_sign v then (if INT64_MAX_u64 < w then None else Some (sint w))
        else if INT64_MAX_u64 + 1 < w then None
        else Some (if w = INT64_MAX_u64 + 1 then - 9223372036854775808 else - sint w))"
      using 2 v unfolding w_def phy_bigint_try_i64_def Let_def by auto
    have lt: "INT64_MAX_u64 < w \<longleftrightarrow> 2 ^ 63 \<le> \<bar>ival v\<bar>" "INT64_MAX_u64 + 1 < w \<longleftrightarrow> 2 ^ 63 < \<bar>ival v\<bar>"
      "w = INT64_MAX_u64 + 1 \<longleftrightarrow> \<bar>ival v\<bar> = 2 ^ 63"
      unfolding w [symmetric] by (auto simp: word_less_def INT64_MAX_u64_def word_uint_eq_iff)
    have si: "sint w = \<bar>ival v\<bar>" if "\<bar>ival v\<bar> < 2 ^ 63"
      using that w by (simp add: sint_uint signed_take_bit_int_eq_self)
    show ?thesis
    proof (cases "bg_sign v = 1")
      case True
      then have "0 < ival v" using s by (metis sgn_1_pos)
      then show ?thesis using True si unfolding eqn lt by auto
    next
      case False
      then have "bg_sign v = - 1" "ival v < 0" using sg s by (auto simp: sgn_if split: if_splits)
      then show ?thesis using si unfolding eqn lt by auto
    qed
  qed
qed

end
