(* ===== verification/BigintAdd.thy ===== *)
theory BigintAdd
  imports BigintLaws
begin

text \<open>
  Addition, subtraction and negation of \<open>src/exact/integer.c\<close>: the limb loops with carry and
  borrow, the signed case analysis, and the public operations.
\<close>

section \<open>Definitions\<close>

text \<open>The loop of \<open>add_magnitudes\<close>: the output array, the carry and the context.\<close>

definition add_limb ::
  "phy_bigint \<Rightarrow> phy_bigint \<Rightarrow> nat \<Rightarrow> u32 list \<times> u64 \<times> phy_exact_context \<Rightarrow>
   phy_status \<times> u32 list \<times> u64 \<times> phy_exact_context" where
  "add_limb left right index st =
     (case st of (limbs, carry, c) \<Rightarrow>
      case phy_exact_step 1 c of (status, c1) \<Rightarrow>
      if status \<noteq> PHY_OK then (status, limbs, carry, c1)
      else
        let a = limb_at (bg_limbs left) (bg_count left) index;
            b = limb_at (bg_limbs right) (bg_count right) index;
            partial = a + b;
            sum = partial + carry
        in (PHY_OK, limbs[index := low32 sum], high32 sum, c1))"

definition add_magnitudes ::
  "phy_bigint \<Rightarrow> phy_bigint \<Rightarrow> phy_bigint \<times> phy_exact_context \<Rightarrow> phy_status \<times> phy_bigint \<times> phy_exact_context" where
  "add_magnitudes left right st =
     (let count = (if bg_count right < bg_count left then bg_count left else bg_count right) in
      case phy_bigint_reserve (count + 1) st of (status, out, c) \<Rightarrow>
      if status \<noteq> PHY_OK then (status, out, c)
      else
        case for_each [0..<count] (add_limb left right) (bg_limbs out, 0, c) of (status, limbs, carry, c1) \<Rightarrow>
        if status \<noteq> PHY_OK then (status, out\<lparr>bg_limbs := limbs\<rparr>, c1)
        else if carry \<noteq> 0 then
          (PHY_OK, out\<lparr>bg_limbs := limbs[count := low32 carry], bg_count := count + 1\<rparr>, c1)
        else (PHY_OK, out\<lparr>bg_limbs := limbs, bg_count := count\<rparr>, c1))"

definition sub_limb ::
  "phy_bigint \<Rightarrow> phy_bigint \<Rightarrow> nat \<Rightarrow> u32 list \<times> u64 \<times> phy_exact_context \<Rightarrow>
   phy_status \<times> u32 list \<times> u64 \<times> phy_exact_context" where
  "sub_limb left right index st =
     (case st of (limbs, borrow, c) \<Rightarrow>
      case phy_exact_step 1 c of (status, c1) \<Rightarrow>
      if status \<noteq> PHY_OK then (status, limbs, borrow, c1)
      else
        let a = wide (bg_limbs left ! index);
            b = limb_at (bg_limbs right) (bg_count right) index;
            subtrahend = b + borrow
        in (PHY_OK, limbs[index := low32 (a - subtrahend)], if a < subtrahend then 1 else 0, c1))"

definition subtract_magnitudes ::
  "phy_bigint \<Rightarrow> phy_bigint \<Rightarrow> phy_bigint \<times> phy_exact_context \<Rightarrow> phy_status \<times> phy_bigint \<times> phy_exact_context" where
  "subtract_magnitudes left right st =
     (case phy_bigint_reserve (bg_count left) st of (status, out, c) \<Rightarrow>
      if status \<noteq> PHY_OK then (status, out, c)
      else
        case for_each [0..<bg_count left] (sub_limb left right) (bg_limbs out, 0, c) of (status, limbs, borrow, c1) \<Rightarrow>
        if status \<noteq> PHY_OK then (status, out\<lparr>bg_limbs := limbs\<rparr>, c1)
        else if borrow \<noteq> 0 then (PHY_ERR_CORRUPT_DOCUMENT, out\<lparr>bg_limbs := limbs\<rparr>, c1)
        else (PHY_OK, phy_bigint_normalize (out\<lparr>bg_limbs := limbs, bg_count := bg_count left, bg_sign := 1\<rparr>), c1))"

definition add_signed ::
  "phy_bigint \<Rightarrow> phy_bigint \<Rightarrow> int \<Rightarrow> phy_bigint \<times> phy_exact_context \<Rightarrow>
   phy_status \<times> phy_bigint \<times> phy_exact_context" where
  "add_signed left right right_sign st =
     (if bg_count left = 0 then
        (case copy_payload right False st of (status, out, c) \<Rightarrow>
           (status, if status = PHY_OK \<and> bg_count out \<noteq> 0 then out\<lparr>bg_sign := right_sign\<rparr> else out, c))
      else if bg_count right = 0 then copy_payload left False st
      else if bg_sign left = right_sign then
        (case add_magnitudes left right st of (status, out, c) \<Rightarrow>
           (status, if status = PHY_OK then out\<lparr>bg_sign := bg_sign left\<rparr> else out, c))
      else
        let ord = phy_bigint_compare_abs (snd st) left right in
        if ord = 0 then (PHY_OK, (fst st)\<lparr>bg_count := 0, bg_sign := 0\<rparr>, snd st)
        else
          let larger = (if 0 < ord then left else right);
              smaller = (if 0 < ord then right else left)
          in case subtract_magnitudes larger smaller st of (status, out, c) \<Rightarrow>
               (status, if status = PHY_OK \<and> bg_count out \<noteq> 0
                        then out\<lparr>bg_sign := (if 0 < ord then bg_sign left else right_sign)\<rparr> else out, c))"

definition phy_bigint_add ::
  "phy_bigint \<Rightarrow> phy_bigint \<Rightarrow> phy_bigint \<times> phy_exact_context \<Rightarrow> phy_status \<times> phy_bigint \<times> phy_exact_context" where
  "phy_bigint_add left right st =
     (case st of (out, c) \<Rightarrow>
      if \<not> compatible3 c left right out then (PHY_ERR_INVALID_ARGUMENT, out, c)
      else with_result (add_signed left right (bg_sign right)) (out, c))"

definition phy_bigint_subtract ::
  "phy_bigint \<Rightarrow> phy_bigint \<Rightarrow> phy_bigint \<times> phy_exact_context \<Rightarrow> phy_status \<times> phy_bigint \<times> phy_exact_context" where
  "phy_bigint_subtract left right st =
     (case st of (out, c) \<Rightarrow>
      if \<not> compatible3 c left right out then (PHY_ERR_INVALID_ARGUMENT, out, c)
      else with_result (add_signed left right (- bg_sign right)) (out, c))"

definition negate_body ::
  "phy_bigint \<Rightarrow> phy_bigint \<times> phy_exact_context \<Rightarrow> phy_status \<times> phy_bigint \<times> phy_exact_context" where
  "negate_body source st =
     (case copy_payload source False st of (status, t, c) \<Rightarrow>
        (status, if status = PHY_OK \<and> bg_count t \<noteq> 0 then t\<lparr>bg_sign := - bg_sign t\<rparr> else t, c))"

definition phy_bigint_negate ::
  "phy_bigint \<Rightarrow> phy_bigint \<times> phy_exact_context \<Rightarrow> phy_status \<times> phy_bigint \<times> phy_exact_context" where
  "phy_bigint_negate source st =
     (case st of (out, c) \<Rightarrow>
      if \<not> compatible2 c source out then (PHY_ERR_INVALID_ARGUMENT, out, c)
      else with_result (negate_body source) (out, c))"

section \<open>The limb loops\<close>

lemma add_loop:
  fixes l r :: phy_bigint
  assumes ok: "ctx_ok c" and n: "n \<le> length xs"
  defines "P \<equiv> \<lambda>k. nval_to (bg_limbs l) (bg_count l) k + nval_to (bg_limbs r) (bg_count r) k"
  shows "outcome (for_each [0..<n] (add_limb l r) (xs, 0, c))
    (\<lambda>(ys, carry, c'). length ys = length xs \<and> stepping n c c' \<and> unat carry \<le> 1 \<and>
       nval ys n + unat carry * base ^ n = P n)
    (\<lambda>st (ys, carry, c'). length ys = length xs \<and> step_failed n c st c')"
proof -
  let ?I = "\<lambda>k (ys :: u32 list, carry :: u64, c'). length ys = length xs \<and> stepping k c c' \<and> unat carry \<le> 1 \<and>
      nval ys k + unat carry * base ^ k = P k"
  let ?E = "\<lambda>st (ys :: u32 list, carry :: u64, c'). length ys = length xs \<and> step_failed n c st c'"
  have "outcome (for_each [0..<n] (add_limb l r) (xs, 0, c)) (?I (length [0..<n])) ?E"
  proof (rule outcome_for_each)
    show "?I 0 (xs, 0, c)" using ok by (simp add: P_def)
    fix k st assume k: "k < length [0..<n]" and I: "?I k st"
    obtain ys carry c' where st: "st = (ys, carry, c')" by (cases st)
    obtain s c1 where step: "phy_exact_step 1 c' = (s, c1)" by fastforce
    have sp: "outcome (s, c1) (stepping (Suc k) c) (step_failed n c)"
      using step_in_loop [of k c c' n] I k step by (simp add: st)
    let ?a = "limb_at (bg_limbs l) (bg_count l) k" and ?b = "limb_at (bg_limbs r) (bg_count r) k"
    have ab: "unat ?a + unat ?b + unat carry < 2 * base"
      using unat_limb_at_bound [of "bg_limbs l" "bg_count l" k] unat_limb_at_bound [of "bg_limbs r" "bg_count r" k] I
      by (simp add: st)
    then have sum: "unat (?a + ?b + carry) = unat ?a + unat ?b + unat carry"
      using unat_add_u64 [of ?a ?b] unat_add_u64 [of "?a + ?b" carry] by (simp add: base_def)
    then have c: "unat (high32 (?a + ?b + carry)) \<le> 1" using ab high32_less [of "?a + ?b + carry" 2] by simp
    have v: "nval (ys[k := low32 (?a + ?b + carry)]) (Suc k) + unat (high32 (?a + ?b + carry)) * base ^ Suc k = P (Suc k)"
      using store_limb [of k ys "?a + ?b + carry"] I k n sum
      by (simp add: st P_def nval_to_Suc algebra_simps)
    have idx: "[0..<n] ! k = k" using k by simp
    have eq: "add_limb l r ([0..<n] ! k) st = (if s \<noteq> PHY_OK then (s, ys, carry, c1)
        else (PHY_OK, ys[k := low32 (?a + ?b + carry)], high32 (?a + ?b + carry), c1))"
      unfolding st add_limb_def prod.case step Let_def idx ..
    show "outcome (add_limb l r ([0..<n] ! k) st) (?I (Suc k)) ?E"
      unfolding eq using sp c v I by (simp add: st)
  qed
  then show ?thesis by simp
qed

lemma unat_sub_u64: "(b :: u64) \<le> a \<Longrightarrow> unat (a - b) = unat a - unat b"
  by (simp add: unat_sub)

text \<open>One step of the borrow chain: the stored limb and the borrow account for the difference.\<close>

lemma borrow_limb:
  assumes "unat (s :: u64) \<le> base"
  shows "unat (low32 (wide a - s)) + unat s = unat a + (if wide a < s then base else 0)"
proof (cases "wide a < s")
  case True
  then have lt: "unat a < unat s" by (simp add: word_less_nat_alt)
  define d where "d = unat s - unat a"
  have d: "1 \<le> d" "d \<le> base" "unat s = unat a + d" using lt assms by (simp_all add: d_def)
  have "unat (wide a - s) = unat a + 2 ^ 64 - unat s" using lt by (simp add: unat_sub_if')
  also have "\<dots> = (base - 1) * base + (base - d)" using d by (simp add: base_def)
  finally have w: "unat (wide a - s) = (base - 1) * base + (base - d)" .
  have "base - d < base" using d by simp
  then have "unat (low32 (wide a - s)) = base - d"
    unfolding unat_low32 base_pow(1) w by (simp only: mod_mult_self3 mod_less)
  then show ?thesis using True d by simp
next
  case False
  then have le: "s \<le> wide a" by simp
  then have "unat s \<le> unat a" by (simp add: word_le_nat_alt)
  moreover have "unat (low32 (wide a - s)) = unat a - unat s"
    unfolding unat_low32 unat_sub_u64 [OF le] using unat_u32_bound [of a] by simp
  ultimately show ?thesis using False by simp
qed

lemma sub_loop:
  fixes l r :: phy_bigint
  assumes ok: "ctx_ok c" and n: "n \<le> length xs"
  shows "outcome (for_each [0..<n] (sub_limb l r) (xs, 0, c))
    (\<lambda>(ys, borrow, c'). length ys = length xs \<and> stepping n c c' \<and> unat borrow \<le> 1 \<and>
       nval ys n + nval_to (bg_limbs r) (bg_count r) n = nval (bg_limbs l) n + unat borrow * base ^ n)
    (\<lambda>st (ys, borrow, c'). length ys = length xs \<and> step_failed n c st c')"
proof -
  let ?R = "nval_to (bg_limbs r) (bg_count r)" and ?L = "nval (bg_limbs l)"
  let ?I = "\<lambda>k (ys :: u32 list, borrow :: u64, c'). length ys = length xs \<and> stepping k c c' \<and> unat borrow \<le> 1 \<and>
      nval ys k + ?R k = ?L k + unat borrow * base ^ k"
  let ?E = "\<lambda>st (ys :: u32 list, borrow :: u64, c'). length ys = length xs \<and> step_failed n c st c'"
  have "outcome (for_each [0..<n] (sub_limb l r) (xs, 0, c)) (?I (length [0..<n])) ?E"
  proof (rule outcome_for_each)
    show "?I 0 (xs, 0, c)" using ok by simp
    fix k st assume k: "k < length [0..<n]" and I: "?I k st"
    obtain ys borrow c' where st: "st = (ys, borrow, c')" by (cases st)
    obtain s c1 where step: "phy_exact_step 1 c' = (s, c1)" by fastforce
    have sp: "outcome (s, c1) (stepping (Suc k) c) (step_failed n c)"
      using step_in_loop [of k c c' n] I k step by (simp add: st)
    let ?b = "limb_at (bg_limbs r) (bg_count r) k" and ?a = "bg_limbs l ! k"
    let ?s = "?b + borrow" and ?d = "if wide ?a < ?b + borrow then 1 else 0 :: u64"
    have b: "unat ?b < base" "unat borrow \<le> 1" using unat_limb_at_bound I by (simp_all add: st)
    then have s: "unat ?s = unat ?b + unat borrow" "unat ?s \<le> base"
      using unat_add_u64 [of ?b borrow] by (simp_all add: base_def)
    have d1: "unat ?d \<le> 1" by simp
    have bl: "unat (low32 (wide ?a - ?s)) + (unat ?b + unat borrow) = unat ?a + unat ?d * base"
      using borrow_limb [OF s(2), of ?a] s(1) by simp
    have v: "nval (ys[k := low32 (wide ?a - ?s)]) (Suc k) + ?R (Suc k) = ?L (Suc k) + unat ?d * base ^ Suc k"
    proof -
      have "nval (ys[k := low32 (wide ?a - ?s)]) (Suc k) + ?R (Suc k) =
          nval ys k + ?R k + (unat (low32 (wide ?a - ?s)) + unat ?b) * base ^ k"
        using I k n by (simp add: st nval_Suc nval_to_Suc algebra_simps)
      also have "\<dots> = ?L k + (unat (low32 (wide ?a - ?s)) + (unat ?b + unat borrow)) * base ^ k"
        using I by (simp add: st algebra_simps)
      also have "\<dots> = ?L k + (unat ?a + unat ?d * base) * base ^ k" unfolding bl ..
      also have "\<dots> = ?L (Suc k) + unat ?d * base ^ Suc k" by (simp add: nval_Suc algebra_simps)
      finally show ?thesis .
    qed
    have idx: "[0..<n] ! k = k" using k by simp
    have eq: "sub_limb l r ([0..<n] ! k) st = (if s \<noteq> PHY_OK then (s, ys, borrow, c1)
        else (PHY_OK, ys[k := low32 (wide ?a - ?s)], ?d, c1))"
      unfolding st sub_limb_def prod.case step Let_def idx ..
    show "outcome (sub_limb l r ([0..<n] ! k) st) (?I (Suc k)) ?E"
      unfolding eq using sp d1 v I by (simp add: st)
  qed
  then show ?thesis by simp
qed

section \<open>Magnitudes\<close>

abbreviation max_count :: "phy_bigint \<Rightarrow> phy_bigint \<Rightarrow> nat" where
  "max_count l r \<equiv> max (bg_count l) (bg_count r)"

text \<open>What a body establishes about the temporary, as one predicate.\<close>

definition built_value :: "nat \<Rightarrow> int \<Rightarrow> phy_bigint \<Rightarrow> phy_exact_context \<Rightarrow> phy_bigint \<times> phy_exact_context \<Rightarrow> bool" where
  "built_value k x t c st = (case st of (t', c') \<Rightarrow>
     moved k t c t' c' \<and> phy_bigint_shallow_valid c' t' \<and> ival t' = x)"

definition build_failed ::
  "nat \<Rightarrow> nat \<Rightarrow> nat \<Rightarrow> phy_bigint \<Rightarrow> phy_exact_context \<Rightarrow> phy_status \<Rightarrow> phy_bigint \<times> phy_exact_context \<Rightarrow> bool" where
  "build_failed k m b t c status st = (case st of (t', c') \<Rightarrow> moved k t c t' c' \<and> shortage k m b c status)"

lemma build_failed_mono:
  "build_failed k m b t c st s \<Longrightarrow> k \<le> k' \<Longrightarrow> m \<le> m' \<Longrightarrow> b \<le> b' \<Longrightarrow> build_failed k' m' b' t c st s"
  by (auto simp: build_failed_def intro: moved_mono shortage_mono)

lemma step_failed_build:
  assumes "moved 0 t c t1 c1" "step_failed k c1 st c2" "length ys = capacity t1" "ec_bytes c1 \<le> ec_bytes c + b"
  shows "build_failed k m b t c st (t1\<lparr>bg_limbs := ys\<rparr>, c2)"
proof -
  have sp: "stepping k c1 c2" "shortage k 0 0 c1 st" using assms(2) by (simp_all add: step_failed_def)
  have "moved (0 + k) t c (t1\<lparr>bg_limbs := ys\<rparr>) c2" by (rule moved_stepping [OF assms(1) sp(1)]) (simp_all add: assms(3))
  moreover have "shortage k m b c st"
    by (rule shortage_back [of 0 c c1 k 0 0]) (use assms sp in \<open>auto simp: moved_def\<close>)
  ultimately show ?thesis by (simp add: build_failed_def)
qed

lemma add_magnitudes_spec:
  assumes ok: "ctx_ok c" and t: "phy_bigint_shallow_valid c t" "capacity t = 0"
    and l: "phy_bigint_shallow_valid c l" "bg_count l \<noteq> 0" and r: "phy_bigint_shallow_valid c r" "bg_count r \<noteq> 0"
    and s: "s = 1 \<or> s = - 1"
  shows "outcome (case add_magnitudes l r (t, c) of (status, out, c') \<Rightarrow>
      (status, if status = PHY_OK then out\<lparr>bg_sign := s\<rparr> else out, c'))
    (built_value (max_count l r) (s * int (magv l + magv r)) t c)
    (build_failed (max_count l r) (max_count l r + 1) (8 * (max_count l r + 1)) t c)"
proof -
  let ?n = "max_count l r"
  have n: "(if bg_count r < bg_count l then bg_count l else bg_count r) = ?n" by simp
  obtain st t1 c1 where rs: "phy_bigint_reserve (?n + 1) (t, c) = (st, t1, c1)"
    by (cases "phy_bigint_reserve (?n + 1) (t, c)")
  have "limb_bytes t \<le> ec_bytes c" using t(2) by simp
  note res = reserve_spec [OF ok t(1) this, of "?n + 1", unfolded rs]
  show ?thesis
  proof (cases "st = PHY_OK")
    case False
    then have "build_failed ?n (?n + 1) (8 * (?n + 1)) t c st (t1, c1)"
      using res by (auto simp: build_failed_def intro: moved_mono shortage_mono)
    then show ?thesis using False rs by (simp add: add_magnitudes_def n Let_def)
  next
    case True
    then have t1: "moved 0 t c t1 c1" "?n + 1 \<le> capacity t1" "capacity t1 \<le> 2 * (?n + 1)"
      using res t(2) by auto
    then have c1: "ctx_ok c1" "ec_bytes c1 \<le> ec_bytes c + 8 * (?n + 1)"
      using moved_handle [OF t1(1)] t(2) by (auto simp: moved_def)
    obtain s1 ys carry c2 where lp: "for_each [0..<?n] (add_limb l r) (bg_limbs t1, 0, c1) = (s1, ys, carry, c2)"
      by (cases "for_each [0..<?n] (add_limb l r) (bg_limbs t1, 0, c1)")
    have "?n \<le> length (bg_limbs t1)" using t1(2) by linarith
    note loop = add_loop [OF c1(1) this, of l r, unfolded lp]
    show ?thesis
    proof (cases "s1 = PHY_OK")
      case False
      then have "build_failed ?n (?n + 1) (8 * (?n + 1)) t c s1 (t1\<lparr>bg_limbs := ys\<rparr>, c2)"
        using loop c1(2) t1(1) by (intro step_failed_build) auto
      then show ?thesis using False True rs lp by (simp add: add_magnitudes_def n Let_def)
    next
      case ok2: True
      have ys: "length ys = capacity t1" "stepping ?n c1 c2" "unat carry \<le> 1"
        and sum: "nval ys ?n + unat carry * base ^ ?n = magv l + magv r"
        using loop ok2 by (simp_all add: nval_to_full magv_def)
      let ?k = "if carry \<noteq> 0 then ?n + 1 else ?n" and ?zs = "if carry \<noteq> 0 then ys[?n := low32 carry] else ys"
      have lc: "unat (low32 carry) = unat carry" unfolding unat_low32 using ys(3) by simp
      have nl: "?n < length ys" using ys(1) t1(2) by linarith
      have val: "nval ?zs ?k = magv l + magv r"
        using sum lc by (auto simp: nval_Suc nth_list_update_eq [OF nl])
      have top: "?zs ! (?k - 1) \<noteq> 0"
      proof (cases "carry = 0")
        case False
        have "low32 carry \<noteq> 0" using False lc by (metis unat_eq_0)
        then show ?thesis using False by (simp add: nth_list_update_eq [OF nl])
      next
        case zero: True
        have n0: "?n = Suc (?n - 1)" using l(2) by simp
        show ?thesis
        proof
          assume "?zs ! (?k - 1) = 0"
          then have "nval ys ?n = nval ys (?n - 1)" using zero by (subst n0) (simp add: nval_Suc)
          then have small: "magv l + magv r < base ^ (?n - 1)" using sum zero nval_bound [of ys "?n - 1"] by simp
          have "base ^ (bg_count l - 1) \<le> magv l" "base ^ (bg_count r - 1) \<le> magv r"
            using l r nval_top by (auto simp: magv_def phy_bigint_shallow_valid_def)
          then show False using small by (auto simp: max_def split: if_splits)
        qed
      qed
      have res': "add_magnitudes l r (t, c) = (PHY_OK, t1\<lparr>bg_limbs := ?zs, bg_count := ?k\<rparr>, c2)"
        using True ok2 rs lp by (simp add: add_magnitudes_def n Let_def)
      let ?v = "t1\<lparr>bg_limbs := ?zs, bg_count := ?k, bg_sign := s\<rparr>"
      have "moved (0 + ?n) t c ?v c2" by (rule moved_stepping [OF t1(1) ys(2)]) (simp_all add: ys(1))
      then have mv: "moved ?n t c ?v c2" by simp
      have "phy_bigint_handle_valid c2 t1"
        using moved_handle [OF mv] by (simp add: phy_bigint_handle_valid_def)
      moreover have "?n \<le> length ys" "Suc ?n \<le> length ys" using nl by linarith+
      then have "?k \<le> length ?zs" by (cases "carry = 0") simp_all
      moreover have "length ?zs \<le> max_limbs (ec_limits c2)" using moved_handle [OF mv] by simp
      ultimately have "phy_bigint_shallow_valid c2 ?v" "ival ?v = s * int (nval ?zs ?k)"
        using value_of_limbs [of c2 t1 ?k ?zs s] top s l(2) by auto
      then show ?thesis using mv val unfolding res' by (simp add: built_value_def)
    qed
  qed
qed

lemma subtract_magnitudes_spec:
  assumes ok: "ctx_ok c" and t: "phy_bigint_shallow_valid c t" "capacity t = 0"
    and l: "phy_bigint_shallow_valid c l" and r: "phy_bigint_shallow_valid c r" and gt: "magv r < magv l"
    and s: "s = 1 \<or> s = - 1"
  shows "outcome (case subtract_magnitudes l r (t, c) of (status, out, c') \<Rightarrow>
      (status, if status = PHY_OK \<and> bg_count out \<noteq> 0 then out\<lparr>bg_sign := s\<rparr> else out, c'))
    (built_value (bg_count l) (s * (int (magv l) - int (magv r))) t c)
    (build_failed (bg_count l) (bg_count l) (8 * bg_count l) t c)"
proof -
  let ?n = "bg_count l"
  obtain st t1 c1 where rs: "phy_bigint_reserve ?n (t, c) = (st, t1, c1)"
    by (cases "phy_bigint_reserve ?n (t, c)")
  have "limb_bytes t \<le> ec_bytes c" using t(2) by simp
  note res = reserve_spec [OF ok t(1) this, of ?n, unfolded rs]
  have cnt: "bg_count r \<le> ?n"
  proof (rule ccontr)
    assume "\<not> bg_count r \<le> ?n"
    then have "magv l < magv r"
      unfolding magv_def using r by (intro nval_count_less) (auto simp: phy_bigint_shallow_valid_def)
    then show False using gt by simp
  qed
  show ?thesis
  proof (cases "st = PHY_OK")
    case False
    then have "build_failed ?n ?n (8 * ?n) t c st (t1, c1)"
      using res by (auto simp: build_failed_def intro: moved_mono)
        (auto intro: shortage_mono)
    then show ?thesis using False rs by (simp add: subtract_magnitudes_def)
  next
    case True
    have n0: "?n \<noteq> 0" using gt valid_sign [OF l] by auto
    then have t1: "moved 0 t c t1 c1" "?n \<le> capacity t1" "capacity t1 \<le> 2 * ?n"
      using res t(2) True by auto
    then have c1: "ctx_ok c1" "ec_bytes c1 \<le> ec_bytes c + 8 * ?n"
      using moved_handle [OF t1(1)] t(2) by (auto simp: moved_def)
    obtain s1 ys borrow c2 where lp: "for_each [0..<?n] (sub_limb l r) (bg_limbs t1, 0, c1) = (s1, ys, borrow, c2)"
      by (cases "for_each [0..<?n] (sub_limb l r) (bg_limbs t1, 0, c1)")
    note loop = sub_loop [OF c1(1) t1(2), of l r, unfolded lp]
    show ?thesis
    proof (cases "s1 = PHY_OK")
      case False
      then have "build_failed ?n ?n (8 * ?n) t c s1 (t1\<lparr>bg_limbs := ys\<rparr>, c2)"
        using loop c1(2) t1(1) by (intro step_failed_build) auto
      then show ?thesis using False True rs lp by (simp add: subtract_magnitudes_def)
    next
      case ok2: True
      have ys: "length ys = capacity t1" "stepping ?n c1 c2"
        and acc: "nval ys ?n + magv r = magv l + unat borrow * base ^ ?n"
        using loop ok2 cnt by (simp_all add: nval_to_full magv_def)
      have b0: "borrow = 0"
      proof (rule ccontr)
        assume "borrow \<noteq> 0"
        then have "1 * base ^ ?n \<le> unat borrow * base ^ ?n"
          by (intro mult_le_mono1) (simp add: unat_gt_0 Suc_le_eq)
        then show False using acc nval_bound [of ys ?n] gt by linarith
      qed
      have val: "nval ys ?n = magv l - magv r" using acc b0 by simp
      let ?w = "t1\<lparr>bg_limbs := ys, bg_count := ?n, bg_sign := 1\<rparr>"
      let ?v = "phy_bigint_normalize ?w"
      have mw: "magv ?w = magv l - magv r" using val by (simp add: magv_def)
      have "moved (0 + ?n) t c ?w c2" by (rule moved_stepping [OF t1(1) ys(2)]) (simp_all add: ys(1))
      then have mv: "moved ?n t c ?w c2" by simp
      then have "phy_bigint_handle_valid c2 ?w" "capacity ?w \<le> max_limbs (ec_limits c2)"
        using moved_handle [OF mv] by simp_all
      from normalize_valid [OF this(1) _ this(2)] ys(1) t1(2)
      have v: "phy_bigint_shallow_valid c2 ?v" "ival ?v = int (magv l - magv r)" by (simp_all add: mw)
      have cv: "bg_count ?v \<noteq> 0" using v gt valid_sign [OF v(1)] by simp
      have sv: "phy_bigint_shallow_valid c2 (?v\<lparr>bg_sign := s\<rparr>)"
        using v(1) cv s by (auto simp: phy_bigint_shallow_valid_def phy_bigint_handle_valid_def)
      have "ival (?v\<lparr>bg_sign := s\<rparr>) = s * int (magv ?v)" by (simp add: ival_def magv_def)
      then have iv: "ival (?v\<lparr>bg_sign := s\<rparr>) = s * (int (magv l) - int (magv r))"
        using mw gt by (simp add: of_nat_diff)
      have "moved ?n t c (?v\<lparr>bg_sign := s\<rparr>) c2"
        using mv by (simp add: moved_def phy_bigint_handle_valid_def)
      then show ?thesis
        using sv iv True ok2 rs lp b0 cv by (simp add: subtract_magnitudes_def built_value_def)
    qed
  qed
qed

lemma magnitude_sum: "phy_bigint_shallow_valid c v \<Longrightarrow> ival v = bg_sign v * int (magv v)"
  by (simp add: ival_def)

text \<open>The signed case analysis; \<open>right_sign\<close> is the sign the caller gives the right operand.\<close>

lemma add_signed_spec:
  assumes ok: "ctx_ok c" and t: "phy_bigint_shallow_valid c t" "t = fresh c"
    and l: "phy_bigint_shallow_valid c l" and r: "phy_bigint_shallow_valid c r"
    and s: "s = bg_sign r \<or> s = - bg_sign r"
  shows "outcome (add_signed l r s (t, c))
    (built_value (max_count l r) (ival l + s * int (magv r)) t c)
    (build_failed (max_count l r) (max_count l r + 1) (8 * (max_count l r + 1)) t c)"
proof -
  let ?n = "max_count l r"
  have t0: "capacity t = 0" "limb_bytes t \<le> ec_bytes c" using t(2) by simp_all
  note sl = valid_sign [OF l] and sr = valid_sign [OF r]
  have copy: "outcome (copy_payload v False (t, c))
      (\<lambda>(t', c'). moved ?n t c t' c' \<and> phy_bigint_shallow_valid c' t' \<and> ival t' = ival v \<and> bg_count t' = bg_count v \<and> magv t' = magv v)
      (build_failed ?n (?n + 1) (8 * (?n + 1)) t c)"
    if "phy_bigint_shallow_valid c v" "bg_count v \<le> ?n" for v
  proof (rule outcome_mono [OF copy_payload_spec [OF ok t(1) t0(2) that(1), of False]])
    fix st st' assume "case st' of (v', c') \<Rightarrow> v' = t \<and> moved 0 t c v' c' \<and> shortage 0 (bg_count v) (8 * bg_count v) c st"
    then show "build_failed ?n (?n + 1) (8 * (?n + 1)) t c st st'"
      using that(2) by (auto simp: build_failed_def intro: moved_mono shortage_mono)
  qed (auto intro: moved_mono)
  consider (lzero) "bg_count l = 0" | (rzero) "bg_count l \<noteq> 0" "bg_count r = 0"
    | (same) "bg_count l \<noteq> 0" "bg_count r \<noteq> 0" "bg_sign l = s"
    | (diff) "bg_count l \<noteq> 0" "bg_count r \<noteq> 0" "bg_sign l \<noteq> s" by blast
  then show ?thesis
  proof cases
    case lzero
    obtain st t1 c1 where cp: "copy_payload r False (t, c) = (st, t1, c1)" by (cases "copy_payload r False (t, c)")
    note cs = copy [OF r, unfolded cp]
    show ?thesis
    proof (cases "st = PHY_OK \<and> bg_count r \<noteq> 0")
      case False
      then show ?thesis using cs lzero sl sr by (auto simp: add_signed_def cp built_value_def)
    next
      case True
      then have m: "moved ?n t c t1 c1" "phy_bigint_shallow_valid c1 t1" "bg_count t1 = bg_count r" "magv t1 = magv r"
        using cs by simp_all
      have "s = 1 \<or> s = - 1" using s sr True by (auto simp: sgn_if split: if_splits)
      then have "phy_bigint_shallow_valid c1 (t1\<lparr>bg_sign := s\<rparr>)"
        using m(2,3) True by (auto simp: phy_bigint_shallow_valid_def phy_bigint_handle_valid_def split: if_splits)
      moreover have "ival (t1\<lparr>bg_sign := s\<rparr>) = s * int (magv r)" using m(4) by (simp add: ival_def magv_def)
      moreover have "moved ?n t c (t1\<lparr>bg_sign := s\<rparr>) c1" using m(1) by (simp add: moved_def phy_bigint_handle_valid_def)
      ultimately show ?thesis using lzero True sl m(3) by (simp add: add_signed_def cp built_value_def)
    qed
  next
    case rzero
    then have eq: "add_signed l r s (t, c) = copy_payload l False (t, c)" by (simp add: add_signed_def)
    show ?thesis unfolding eq
      by (rule outcome_mono [OF copy [OF l]]) (use rzero sr in \<open>auto simp: built_value_def\<close>)
  next
    case same
    have s1: "s = 1 \<or> s = - 1" using s sr same by (auto simp: sgn_if split: if_splits)
    have eq: "add_signed l r s (t, c) = (case add_magnitudes l r (t, c) of (status, out, c') \<Rightarrow>
        (status, if status = PHY_OK then out\<lparr>bg_sign := s\<rparr> else out, c'))"
      using same by (auto simp: add_signed_def split: prod.splits)
    have "s * int (magv l + magv r) = ival l + s * int (magv r)"
      using same by (simp add: ival_def algebra_simps)
    then show ?thesis unfolding eq
      using add_magnitudes_spec [OF ok t(1) t0(1) l same(1) r same(2) s1] by simp
  next
    case diff
    have sv: "s = 1 \<or> s = - 1" "bg_sign l = 1 \<or> bg_sign l = - 1"
      using s sl sr diff by (auto simp: sgn_if split: if_splits)
    then have opp: "s = - bg_sign l" using diff(3) by auto
    have ord: "phy_bigint_compare_abs c l r = sgn (int (magv l) - int (magv r))" by (rule compare_abs_spec [OF l r])
    have sub: "outcome (case subtract_magnitudes a b (t, c) of (status, out, c') \<Rightarrow>
        (status, if status = PHY_OK \<and> bg_count out \<noteq> 0 then out\<lparr>bg_sign := q\<rparr> else out, c'))
        (built_value ?n (q * (int (magv a) - int (magv b))) t c)
        (build_failed ?n (?n + 1) (8 * (?n + 1)) t c)"
      if "phy_bigint_shallow_valid c a" "phy_bigint_shallow_valid c b" "magv b < magv a" "q = 1 \<or> q = - 1" "bg_count a \<le> ?n"
      for a b q
      by (rule outcome_mono [OF subtract_magnitudes_spec [OF ok t(1) t0(1) that(1-4)]])
        (use that(5) in \<open>auto simp: built_value_def build_failed_def intro: moved_mono shortage_mono\<close>)
    consider "magv l = magv r" | "magv r < magv l" | "magv l < magv r" by linarith
    then show ?thesis
    proof cases
      case 1
      have "moved ?n t c t c" using moved_refl [OF ok t(1)] .
      then have "moved ?n t c (t\<lparr>bg_count := 0, bg_sign := 0\<rparr>) c"
        by (simp add: moved_def phy_bigint_handle_valid_def)
      moreover have "phy_bigint_shallow_valid c (t\<lparr>bg_count := 0, bg_sign := 0\<rparr>)"
        using t(1) by (simp add: phy_bigint_shallow_valid_def phy_bigint_handle_valid_def)
      moreover have "ival (t\<lparr>bg_count := 0, bg_sign := 0\<rparr>) = 0" by (simp add: ival_def)
      moreover have "ival l + s * int (magv r) = 0" using 1 opp by (simp add: ival_def)
      ultimately show ?thesis
        using diff ord 1 by (simp add: add_signed_def Let_def built_value_def)
    next
      case 2
      then have eq: "add_signed l r s (t, c) = (case subtract_magnitudes l r (t, c) of (status, out, c') \<Rightarrow>
          (status, if status = PHY_OK \<and> bg_count out \<noteq> 0 then out\<lparr>bg_sign := bg_sign l\<rparr> else out, c'))"
        using diff ord by (simp add: add_signed_def Let_def)
      have "bg_sign l * (int (magv l) - int (magv r)) = ival l + s * int (magv r)"
        using opp by (simp add: ival_def algebra_simps)
      then show ?thesis unfolding eq using sub [OF l r 2 sv(2)] by simp
    next
      case 3
      then have eq: "add_signed l r s (t, c) = (case subtract_magnitudes r l (t, c) of (status, out, c') \<Rightarrow>
          (status, if status = PHY_OK \<and> bg_count out \<noteq> 0 then out\<lparr>bg_sign := s\<rparr> else out, c'))"
        using diff ord by (simp add: add_signed_def Let_def)
      have "s * (int (magv r) - int (magv l)) = ival l + s * int (magv r)"
        using opp by (simp add: ival_def algebra_simps)
      then show ?thesis unfolding eq using sub [OF r l 3 sv(1)] by simp
    qed
  qed
qed

interpretation add_op: transactional
    "\<lambda>c. phy_bigint_shallow_valid c l \<and> phy_bigint_shallow_valid c r \<and> (s = bg_sign r \<or> s = - bg_sign r)"
    "add_signed l r s" "ival l + s * int (magv r)"
    "max_count l r" "max_count l r + 1" "8 * (max_count l r + 1)"
  for l r s
proof (unfold_locales, goal_cases)
  case (1 c c')
  then show ?case using shallow_valid_env by blast
next
  case (2 c t)
  then show ?case
    using add_signed_spec [of c t l r s] unfolding built_value_def build_failed_def by simp
qed

lemma negate_body_spec:
  assumes ok: "ctx_ok c" and t: "phy_bigint_shallow_valid c t" "t = fresh c" and v: "phy_bigint_shallow_valid c v"
  shows "outcome (negate_body v (t, c)) (built_value 0 (- ival v) t c)
    (build_failed 0 (bg_count v) (8 * bg_count v) t c)"
proof -
  obtain st t1 c1 where cp: "copy_payload v False (t, c) = (st, t1, c1)" by (cases "copy_payload v False (t, c)")
  have "limb_bytes t \<le> ec_bytes c" using t(2) by simp
  note cs = copy_payload_spec [OF ok t(1) this v, of False, unfolded cp]
  show ?thesis
  proof (cases "st = PHY_OK")
    case False
    then show ?thesis using cs by (auto simp: negate_body_def cp build_failed_def)
  next
    case True
    then have m: "moved 0 t c t1 c1" "phy_bigint_shallow_valid c1 t1" "ival t1 = ival v" using cs by simp_all
    have "phy_bigint_shallow_valid c1 (t1\<lparr>bg_sign := - bg_sign t1\<rparr>)" if "bg_count t1 \<noteq> 0"
      using m(2) that by (auto simp: phy_bigint_shallow_valid_def phy_bigint_handle_valid_def)
    moreover have "ival (t1\<lparr>bg_sign := - bg_sign t1\<rparr>) = - ival v" using m(3) by (simp add: ival_def magv_def)
    moreover have "moved 0 t c (t1\<lparr>bg_sign := - bg_sign t1\<rparr>) c1" using m(1) by (simp add: moved_def phy_bigint_handle_valid_def)
    moreover have "bg_count t1 = 0 \<Longrightarrow> ival v = 0" using valid_sign [OF m(2)] m(3) by simp
    ultimately show ?thesis using True m by (auto simp: negate_body_def cp built_value_def)
  qed
qed

interpretation negate_op: transactional "\<lambda>c. phy_bigint_shallow_valid c v" "negate_body v" "- ival v"
    0 "bg_count v" "8 * bg_count v"
  for v
proof (unfold_locales, goal_cases)
  case (1 c c')
  then show ?case using shallow_valid_env by blast
next
  case (2 c t)
  then show ?case using negate_body_spec [of c t v] unfolding built_value_def build_failed_def by simp
qed

end
