(* ===== verification/BigintMul.thy ===== *)
theory BigintMul
  imports BigintAdd
begin

text \<open>
  Schoolbook multiplication of \<open>src/exact/integer.c\<close>. The product's exact limb count
  decides whether the configured ceiling is an obstacle.
\<close>

section \<open>Definitions\<close>

definition mul_limb ::
  "phy_bigint \<Rightarrow> phy_bigint \<Rightarrow> nat \<Rightarrow> nat \<Rightarrow> u32 list \<times> u64 \<times> phy_exact_context \<Rightarrow>
   phy_status \<times> u32 list \<times> u64 \<times> phy_exact_context" where
  "mul_limb left right i j st =
     (case st of (limbs, carry, c) \<Rightarrow>
      case phy_exact_step 1 c of (status, c1) \<Rightarrow>
      if status \<noteq> PHY_OK then (status, limbs, carry, c1)
      else
        let product = wide (bg_limbs left ! i) * wide (bg_limbs right ! j) + wide (limbs ! (i + j)) + carry
        in (PHY_OK, limbs[i + j := low32 product], high32 product, c1))"

definition mul_row ::
  "phy_bigint \<Rightarrow> phy_bigint \<Rightarrow> nat \<Rightarrow> u32 list \<times> phy_exact_context \<Rightarrow>
   phy_status \<times> u32 list \<times> phy_exact_context" where
  "mul_row left right i st =
     (case st of (limbs, c) \<Rightarrow>
      case for_each [0..<bg_count right] (mul_limb left right i) (limbs, 0, c) of (status, limbs1, carry, c1) \<Rightarrow>
      if status \<noteq> PHY_OK then (status, limbs1, c1)
      else
        let carry_at = i + bg_count right in
        if carry_at < length limbs1 then (PHY_OK, limbs1[carry_at := low32 carry], c1)
        else if carry \<noteq> 0 then (PHY_ERR_MEMORY_LIMIT, limbs1, c1)
        else (PHY_OK, limbs1, c1))"

definition multiply_body ::
  "phy_bigint \<Rightarrow> phy_bigint \<Rightarrow> phy_bigint \<times> phy_exact_context \<Rightarrow> phy_status \<times> phy_bigint \<times> phy_exact_context" where
  "multiply_body left right st =
     (case st of (t, c) \<Rightarrow>
      if bg_count left \<noteq> 0 \<and> bg_count right \<noteq> 0 then
        (if SIZE_MAX - bg_count right < bg_count left then (PHY_ERR_MEMORY_LIMIT, t, c)
         else
           let full_count = bg_count left + bg_count right;
               minimum_count = full_count - 1;
               count = (if full_count \<le> max_limbs (ec_limits c) then full_count else minimum_count)
           in if max_limbs (ec_limits c) < minimum_count then (PHY_ERR_MEMORY_LIMIT, t, c)
              else case phy_bigint_reserve count (t, c) of (status, t1, c1) \<Rightarrow>
              if status \<noteq> PHY_OK then (status, t1, c1)
              else
                let t2 = t1\<lparr>bg_limbs := replicate count 0 @ drop count (bg_limbs t1), bg_count := count,
                           bg_sign := (if bg_sign left = bg_sign right then 1 else - 1)\<rparr>
                in case for_each [0..<bg_count left] (mul_row left right) (bg_limbs t2, c1) of (status, limbs, c2) \<Rightarrow>
                   if status \<noteq> PHY_OK then (status, t2\<lparr>bg_limbs := limbs\<rparr>, c2)
                   else (PHY_OK, phy_bigint_normalize (t2\<lparr>bg_limbs := limbs\<rparr>), c2))
      else (PHY_OK, t, c))"

definition phy_bigint_multiply ::
  "phy_bigint \<Rightarrow> phy_bigint \<Rightarrow> phy_bigint \<times> phy_exact_context \<Rightarrow> phy_status \<times> phy_bigint \<times> phy_exact_context" where
  "phy_bigint_multiply left right st =
     (case st of (out, c) \<Rightarrow>
      if \<not> compatible3 c left right out then (PHY_ERR_INVALID_ARGUMENT, out, c)
      else with_result (multiply_body left right) (out, c))"

section \<open>The rows\<close>

text \<open>The 64-bit accumulator of the inner loop cannot overflow.\<close>

lemma mul_acc:
  assumes "unat (carry :: u64) < base"
  shows "unat (wide a * wide b + wide x + carry) = unat a * unat b + unat x + unat carry"
    "unat (high32 (wide a * wide b + wide x + carry)) < base"
proof -
  have "unat a \<le> base - 1" "unat b \<le> base - 1" "unat x \<le> base - 1" "unat carry \<le> base - 1"
    using limb_le assms by (simp_all add: Suc_le_eq less_Suc_eq_le flip: Suc_le_eq)
  moreover have "unat a * unat b \<le> (base - 1) * (base - 1)" using calculation(1,2) by (rule mult_le_mono)
  ultimately have le: "unat a * unat b + unat x + unat carry < base * base" by (simp add: base_def)
  then have "unat (wide a * wide b) = unat a * unat b"
    using unat_mult_u64 [of "wide a" "wide b"] by (simp add: base_sq)
  then show *: "unat (wide a * wide b + wide x + carry) = unat a * unat b + unat x + unat carry"
    using le unat_add_u64 [of "wide a * wide b" "wide x"] unat_add_u64 [of "wide a * wide b + wide x" carry]
    by (simp add: base_sq)
  show "unat (high32 (wide a * wide b + wide x + carry)) < base"
    by (rule high32_less) (simp only: * le)
qed

lemma mul_inner:
  fixes l r :: phy_bigint
  assumes ok: "ctx_ok c" and n: "i + bg_count r \<le> n" "n \<le> length xs"
  defines "R \<equiv> nval (bg_limbs r)" and "a \<equiv> unat (bg_limbs l ! i)"
  shows "outcome (for_each [0..<bg_count r] (mul_limb l r i) (xs, 0, c))
    (\<lambda>(ys, carry, c'). length ys = length xs \<and> stepping (bg_count r) c c' \<and> unat carry < base \<and>
       (\<forall>q. i + bg_count r \<le> q \<longrightarrow> ys ! q = xs ! q) \<and>
       nval ys n + unat carry * base ^ (i + bg_count r) = nval xs n + a * R (bg_count r) * base ^ i)
    (\<lambda>st (ys, carry, c'). length ys = length xs \<and> step_failed (bg_count r) c st c')"
proof -
  let ?m = "bg_count r"
  let ?I = "\<lambda>k (ys :: u32 list, carry :: u64, c'). length ys = length xs \<and> stepping k c c' \<and> unat carry < base \<and>
      (\<forall>q. i + k \<le> q \<longrightarrow> ys ! q = xs ! q) \<and>
      nval ys n + unat carry * base ^ (i + k) = nval xs n + a * R k * base ^ i"
  let ?E = "\<lambda>st (ys :: u32 list, carry :: u64, c'). length ys = length xs \<and> step_failed ?m c st c'"
  have "outcome (for_each [0..<?m] (mul_limb l r i) (xs, 0, c)) (?I (length [0..<?m])) ?E"
  proof (rule outcome_for_each)
    show "?I 0 (xs, 0, c)" using ok by (simp add: R_def)
    fix k st assume k: "k < length [0..<?m]" and I: "?I k st"
    obtain ys carry c' where st: "st = (ys, carry, c')" by (cases st)
    obtain s c1 where step: "phy_exact_step 1 c' = (s, c1)" by fastforce
    have sp: "outcome (s, c1) (stepping (Suc k) c) (step_failed ?m c)"
      using step_in_loop [of k c c' ?m] I k step by (simp add: st)
    let ?p = "wide (bg_limbs l ! i) * wide (bg_limbs r ! k) + wide (ys ! (i + k)) + carry"
    have cb: "unat carry < base" using I by (simp add: st)
    note acc = mul_acc [OF cb, of "bg_limbs l ! i" "bg_limbs r ! k" "ys ! (i + k)"]
    have at: "i + k < n" "i + k < length ys" using k n I by (simp_all add: st)
    let ?b = "base ^ (i + k)"
    have "unat ?p * ?b = unat (low32 ?p) * ?b + unat (high32 ?p) * base ^ (i + Suc k)"
      using split_acc [of ?p "i + k"] by simp
    moreover have "nval (ys[i + k := low32 ?p]) n + unat (ys ! (i + k)) * ?b = nval ys n + unat (low32 ?p) * ?b"
      using nval_update [OF at] .
    moreover have "nval ys n + unat carry * ?b = nval xs n + a * R k * base ^ i" using I by (simp add: st)
    moreover have "unat ?p * ?b = a * unat (bg_limbs r ! k) * ?b + unat (ys ! (i + k)) * ?b + unat carry * ?b"
      unfolding acc(1) a_def by (simp add: algebra_simps)
    moreover have "a * R (Suc k) * base ^ i = a * R k * base ^ i + a * unat (bg_limbs r ! k) * ?b"
      by (simp add: R_def nval_Suc power_add algebra_simps)
    ultimately have v: "nval (ys[i + k := low32 ?p]) n + unat (high32 ?p) * base ^ (i + Suc k) =
        nval xs n + a * R (Suc k) * base ^ i" by linarith
    have idx: "[0..<?m] ! k = k" using k by simp
    have eq: "mul_limb l r i ([0..<?m] ! k) st = (if s \<noteq> PHY_OK then (s, ys, carry, c1)
        else (PHY_OK, ys[i + k := low32 ?p], high32 ?p, c1))"
      unfolding st mul_limb_def prod.case step Let_def idx ..
    show "outcome (mul_limb l r i ([0..<?m] ! k) st) (?I (Suc k)) ?E"
      unfolding eq using sp v acc(2) I by (simp add: st)
  qed
  then show ?thesis by simp
qed

lemma mul_rows:
  fixes l r :: phy_bigint
  assumes ok: "ctx_ok c" and cnt: "0 < bg_count l" "0 < bg_count r" and n: "n \<le> length xs"
    and shape: "n = bg_count l + bg_count r \<or> (n = bg_count l + bg_count r - 1 \<and> length xs = n)"
    and zero: "\<forall>q < n. xs ! q = 0"
  defines "K \<equiv> bg_count l * bg_count r"
  shows "outcome (for_each [0..<bg_count l] (mul_row l r) (xs, c))
    (\<lambda>(ys, c'). length ys = length xs \<and> stepping K c c' \<and> nval ys n = magv l * magv r)
    (\<lambda>st (ys, c'). length ys = length xs \<and> stepping K c c' \<and>
       (shortage K 0 0 c st \<or>
        (st = PHY_ERR_MEMORY_LIMIT \<and> base ^ n \<le> magv l * magv r \<and> n = bg_count l + bg_count r - 1)))"
proof -
  let ?L = "nval (bg_limbs l)" and ?m = "bg_count r"
  let ?I = "\<lambda>i (ys :: u32 list, c'). length ys = length xs \<and> stepping (i * ?m) c c' \<and>
      nval ys n = ?L i * magv r \<and> (\<forall>q. i + ?m \<le> q \<and> q < n \<longrightarrow> ys ! q = 0)"
  let ?E = "\<lambda>st (ys :: u32 list, c'). length ys = length xs \<and> stepping K c c' \<and>
       (shortage K 0 0 c st \<or>
        (st = PHY_ERR_MEMORY_LIMIT \<and> base ^ n \<le> magv l * magv r \<and> n = bg_count l + bg_count r - 1))"
  have "outcome (for_each [0..<bg_count l] (mul_row l r) (xs, c)) (?I (length [0..<bg_count l])) ?E"
  proof (rule outcome_for_each)
    have "nval xs n = 0" using zero by (simp add: nval_def)
    then show "?I 0 (xs, c)" using ok zero by simp
    fix i st assume i: "i < length [0..<bg_count l]" and I: "?I i st"
    obtain ys c1 where st: "st = (ys, c1)" by (cases st)
    have idx: "[0..<bg_count l] ! i = i" and il: "i < bg_count l" using i by simp_all
    have in': "i + ?m \<le> n" using shape il by linarith
    have nl: "n \<le> length ys" and ok1: "ctx_ok c1" and s1: "stepping (i * ?m) c c1"
      using n I by (auto simp: st intro: stepping_ok)
    obtain s zs carry c2 where lp: "for_each [0..<?m] (mul_limb l r i) (ys, 0, c1) = (s, zs, carry, c2)"
      by (cases "for_each [0..<?m] (mul_limb l r i) (ys, 0, c1)")
    note inner = mul_inner [OF ok1 in' nl, of l, unfolded lp]
    have K: "i * ?m + ?m \<le> K" unfolding K_def using il mult_le_mono1 [of "Suc i" "bg_count l" ?m] by simp
    have eq: "mul_row l r ([0..<bg_count l] ! i) st = (if s \<noteq> PHY_OK then (s, zs, c2)
        else if i + ?m < length zs then (PHY_OK, zs[i + ?m := low32 carry], c2)
        else if carry \<noteq> 0 then (PHY_ERR_MEMORY_LIMIT, zs, c2) else (PHY_OK, zs, c2))"
      unfolding st mul_row_def prod.case lp Let_def idx ..
    show "outcome (mul_row l r ([0..<bg_count l] ! i) st) (?I (Suc i)) ?E"
    proof (cases "s = PHY_OK")
      case False
      then have f: "length zs = length ys" "step_failed ?m c1 s c2" using inner by simp_all
      from step_failed_mono [OF step_failed_back [OF s1 f(2)] K] have "step_failed K c s c2" .
      then show ?thesis unfolding eq using False f(1) I by (simp add: st step_failed_def)
    next
      case True
      then have z: "length zs = length xs" "stepping ?m c1 c2" "unat carry < base"
        "\<forall>q. i + ?m \<le> q \<longrightarrow> zs ! q = ys ! q"
        and acc: "nval zs n + unat carry * base ^ (i + ?m) = nval ys n + unat (bg_limbs l ! i) * magv r * base ^ i"
        using inner I by (simp_all add: st magv_def)
      have s2: "stepping (Suc i * ?m) c c2" using stepping_trans [OF s1 z(2)] by (simp add: add.commute)
      then have sK: "stepping K c c2" by (rule stepping_mono) (use K in simp)
      have lc: "unat (low32 carry) = unat carry" unfolding unat_low32 base_pow(1) using z(3) by simp
      have prod: "nval zs n + unat carry * base ^ (i + ?m) = ?L (Suc i) * magv r"
        using acc I by (simp add: st nval_Suc algebra_simps)
      show ?thesis
      proof (cases "i + ?m < length zs")
        case at: True
        then have lt: "i + ?m < n" using shape z(1) il by linarith
        then have "zs ! (i + ?m) = 0" using z(4) I by (simp add: st)
        then have "nval (zs[i + ?m := low32 carry]) n = ?L (Suc i) * magv r"
          using nval_update [OF lt at, of "low32 carry"] prod lc by simp
        then show ?thesis unfolding eq using True at z(1,4) s2 I by (simp add: st nth_list_update)
      next
        case out: False
        then have last: "i = bg_count l - 1" "n = bg_count l + ?m - 1" "n = i + ?m" "\<not> i + ?m < n"
          using shape z(1) il n in' by linarith+
        show ?thesis
        proof (cases "carry = 0")
          case True
          then have "nval zs n = ?L (Suc i) * magv r" using prod by simp
          then show ?thesis unfolding eq using \<open>s = PHY_OK\<close> True out z(1) s2 last(3) by auto
        next
          case c0: False
          have "1 * base ^ n \<le> unat carry * base ^ (i + ?m)"
            using c0 last(3) by (intro mult_le_mono) (simp_all add: Suc_le_eq unat_gt_0)
          moreover have "?L (Suc i) = magv l" using last(1) cnt(1) by (simp add: magv_def)
          ultimately have "base ^ n \<le> magv l * magv r" using prod by simp
          then show ?thesis unfolding eq using True c0 out z(1) sK last(2) by simp
        qed
      qed
    qed
  qed
  then show ?thesis
    by (rule outcome_mono) (simp_all add: K_def magv_def split: prod.splits)
qed

section \<open>The product\<close>

text \<open>The limbs the product of two non-zero values occupies.\<close>

definition product_limbs :: "phy_bigint \<Rightarrow> phy_bigint \<Rightarrow> nat" where
  "product_limbs l r =
     (if bg_count l = 0 \<or> bg_count r = 0 then 0
      else if magv l * magv r < base ^ (bg_count l + bg_count r - 1) then bg_count l + bg_count r - 1
      else bg_count l + bg_count r)"

lemma multiply_body_spec:
  assumes ok: "ctx_ok c" and t: "phy_bigint_shallow_valid c t" "t = fresh c"
    and l: "phy_bigint_shallow_valid c l" and r: "phy_bigint_shallow_valid c r"
  shows "outcome (multiply_body l r (t, c))
    (built_value (bg_count l * bg_count r) (ival l * ival r) t c)
    (build_failed (bg_count l * bg_count r) (product_limbs l r) (8 * (bg_count l + bg_count r)) t c)"
proof -
  let ?K = "bg_count l * bg_count r" and ?m = "max_limbs (ec_limits c)"
  define full where "full = bg_count l + bg_count r"
  note sl = valid_sign [OF l] and sr = valid_sign [OF r]
  have t0: "capacity t = 0" "limb_bytes t \<le> ec_bytes c" "bg_count t = 0" using t(2) by simp_all
  show ?thesis
  proof (cases "bg_count l \<noteq> 0 \<and> bg_count r \<noteq> 0")
    case False
    then have "ival l * ival r = 0" using sl sr by auto
    moreover have "ival t = 0" using t(2) by simp
    ultimately show ?thesis
      using False moved_refl [OF ok t(1)] t(1) by (auto simp: multiply_body_def built_value_def)
  next
    case nz: True
    define n where "n = (if full \<le> ?m then full else full - 1)"
    have lim: "bg_count l \<le> ?m" "bg_count r \<le> ?m" "?m \<le> 1048576"
      using l r ok by (auto simp: phy_bigint_shallow_valid_def ctx_ok_def PHY_EXACT_MAX_LIMBS_CEILING_def)
    then have nosize: "\<not> SIZE_MAX - bg_count r < bg_count l" by (simp add: SIZE_MAX_def)
    have pl: "full - 1 \<le> product_limbs l r" using nz by (auto simp: product_limbs_def full_def)
    show ?thesis
    proof (cases "?m < full - 1")
      case True
      have "multiply_body l r (t, c) = (PHY_ERR_MEMORY_LIMIT, t, c)"
        using nz nosize True by (simp add: multiply_body_def full_def Let_def)
      then show ?thesis
        using moved_refl [OF ok t(1)] True pl by (simp add: build_failed_def shortage_def)
    next
      case fits: False
      obtain st t1 c1 where rs: "phy_bigint_reserve n (t, c) = (st, t1, c1)" by (cases "phy_bigint_reserve n (t, c)")
      note res = reserve_spec [OF ok t(1) t0(2), of n, unfolded rs]
      have nm: "n \<le> ?m" "n \<le> full" "full - 1 \<le> n" "1 \<le> n" using fits nz by (auto simp: n_def full_def)
      let ?s = "if bg_sign l = bg_sign r then 1 else - 1 :: int"
      define t2 where "t2 = t1\<lparr>bg_limbs := replicate n 0 @ drop n (bg_limbs t1), bg_count := n, bg_sign := ?s\<rparr>"
      obtain s1 ys c2 where lp: "for_each [0..<bg_count l] (mul_row l r) (bg_limbs t2, c1) = (s1, ys, c2)"
        by (cases "for_each [0..<bg_count l] (mul_row l r) (bg_limbs t2, c1)")
      have eq: "multiply_body l r (t, c) = (if st \<noteq> PHY_OK then (st, t1, c1)
          else if s1 \<noteq> PHY_OK then (s1, t2\<lparr>bg_limbs := ys\<rparr>, c2)
          else (PHY_OK, phy_bigint_normalize (t2\<lparr>bg_limbs := ys\<rparr>), c2))"
        unfolding multiply_body_def prod.case Let_def full_def [symmetric] n_def [symmetric] rs
          t2_def [symmetric] lp using nz nosize fits by simp
      show ?thesis
      proof (cases "st = PHY_OK")
        case False
        then have m: "moved 0 t c t1 c1" "shortage 0 n (8 * n) c st" "t1 = t" using res by auto
        have "n \<le> product_limbs l r \<or> n \<le> ?m" using nm by simp
        have "shortage ?K (product_limbs l r) (8 * full) c st"
          using m(2) nm by (auto simp: shortage_def)
        then show ?thesis unfolding eq using False m
          by (auto simp: build_failed_def full_def intro: moved_mono)
      next
        case True
        then have t1: "moved 0 t c t1 c1" "n \<le> capacity t1" "capacity t1 \<le> 2 * n"
          using res t0 nm by auto
        have len2: "capacity t2 = capacity t1" using t1(2) by (simp add: t2_def)
        have c1: "ctx_ok c1" "ec_bytes c1 \<le> ec_bytes c + 8 * full" "capacity t1 \<le> ?m"
          using moved_handle [OF t1(1)] t1(1,3) t0 nm by (auto simp: moved_def)
        have shape: "n = bg_count l + bg_count r \<or> (n = bg_count l + bg_count r - 1 \<and> length (bg_limbs t2) = n)"
          using c1(3) t1(2) fits len2 by (auto simp: n_def full_def split: if_splits)
        have z: "\<forall>q < n. bg_limbs t2 ! q = 0" by (simp add: t2_def nth_append)
        have "n \<le> length (bg_limbs t2)" "0 < bg_count l" "0 < bg_count r" using t1(2) len2 nz by simp_all
        note rows = mul_rows [OF c1(1) this(2,3,1) shape z, unfolded lp]
        have mv2: "moved 0 t c t2 c1" using t1(1) len2 by (simp add: moved_def phy_bigint_handle_valid_def t2_def)
        have mvK: "moved ?K t c (t2\<lparr>bg_limbs := ys\<rparr>) c2" if "length ys = capacity t2" "stepping ?K c1 c2"
          using moved_stepping [OF mv2 that(2), of "t2\<lparr>bg_limbs := ys\<rparr>"] that(1) by simp
        show ?thesis
        proof (cases "s1 = PHY_OK")
          case False
          then have f: "length ys = capacity t2" "stepping ?K c1 c2"
            "shortage ?K 0 0 c1 s1 \<or> (s1 = PHY_ERR_MEMORY_LIMIT \<and> base ^ n \<le> magv l * magv r \<and>
               n = bg_count l + bg_count r - 1)" using rows by auto
          have "shortage ?K (product_limbs l r) (8 * full) c s1"
            using f(3)
          proof
            assume "shortage ?K 0 0 c1 s1"
            then show ?thesis
              by (rule shortage_back [of 0 c c1 ?K 0 0, rotated 1]) (use t1(1) c1(2) in \<open>auto simp: moved_def\<close>)
          next
            assume m: "s1 = PHY_ERR_MEMORY_LIMIT \<and> base ^ n \<le> magv l * magv r \<and> n = bg_count l + bg_count r - 1"
            then have "\<not> magv l * magv r < base ^ (bg_count l + bg_count r - 1)" by auto
            then have "product_limbs l r = full" using nz by (simp add: product_limbs_def full_def)
            moreover have "?m < full" using m nz by (auto simp: n_def full_def split: if_splits)
            ultimately show ?thesis using m by (simp add: shortage_def)
          qed
          then show ?thesis unfolding eq using True False mvK [OF f(1,2)] by (simp add: build_failed_def full_def)
        next
          case ok2: True
          then have y: "length ys = capacity t2" "stepping ?K c1 c2" "nval ys n = magv l * magv r" using rows by auto
          let ?w = "t2\<lparr>bg_limbs := ys\<rparr>"
          note mv = mvK [OF y(1,2)]
          have mw: "magv ?w = magv l * magv r" "bg_sign ?w = ?s" "bg_count ?w = n"
            using y(3) by (simp_all add: magv_def t2_def)
          have "phy_bigint_handle_valid c2 ?w" "capacity ?w \<le> max_limbs (ec_limits c2)" "bg_count ?w \<le> capacity ?w"
            using moved_handle [OF mv] y(1) t1(2) len2 mw(3) by simp_all
          from normalize_valid [OF this(1,3,2)] mw
          have v: "phy_bigint_shallow_valid c2 (phy_bigint_normalize ?w)"
            "ival (phy_bigint_normalize ?w) = ?s * int (magv l * magv r)" by auto
          have "bg_sign l = 1 \<or> bg_sign l = - 1" "bg_sign r = 1 \<or> bg_sign r = - 1"
            using l r nz by (auto simp: phy_bigint_shallow_valid_def)
          then have "?s * int (magv l * magv r) = ival l * ival r" by (auto simp: ival_def)
          moreover have "moved ?K t c (phy_bigint_normalize ?w) c2"
            using mv by (simp add: moved_def phy_bigint_handle_valid_def)
          ultimately show ?thesis unfolding eq using True ok2 v by (simp add: built_value_def)
        qed
      qed
    qed
  qed
qed

interpretation multiply_op: transactional
    "\<lambda>c. phy_bigint_shallow_valid c l \<and> phy_bigint_shallow_valid c r" "multiply_body l r" "ival l * ival r"
    "bg_count l * bg_count r" "product_limbs l r" "8 * (bg_count l + bg_count r)"
  for l r
proof (unfold_locales, goal_cases)
  case (1 c c')
  then show ?case using shallow_valid_env by blast
next
  case (2 c t)
  then show ?case
    using multiply_body_spec [of c t l r] unfolding built_value_def build_failed_def by simp
qed

end
