(* ===== verification/BigintTemps.thy ===== *)
theory BigintTemps
  imports BigintLaws
begin

text \<open>
  Operations with several temporaries: how the temporaries account for the bytes charged
  since the operation began, and what releasing them at the end gives back. Used by power,
  division and greatest common divisor, and by the rationals.
\<close>

section \<open>Held temporaries\<close>

text \<open>The failures a caller's limits, allocator or cancel callback can cause.\<close>

definition resource_failure :: "phy_exact_context \<Rightarrow> phy_status \<Rightarrow> bool" where
  "resource_failure c st \<longleftrightarrow> st = PHY_ERR_TIMEOUT \<or> st = PHY_ERR_MEMORY_LIMIT \<or>
     (st = PHY_ERR_OUT_OF_MEMORY \<and> (\<exists>i n. \<not> ec_alloc c i n)) \<or>
     (st = PHY_ERR_INTERRUPTED \<and> ec_cancel c \<noteq> None)"

lemma shortage_resource: "shortage k m b c st \<Longrightarrow> resource_failure c st"
  by (auto simp: shortage_def resource_failure_def)

lemma resource_env: "same_env c c' \<Longrightarrow> resource_failure c' st \<longleftrightarrow> resource_failure c st"
  by (simp add: resource_failure_def same_env_def)

lemma spent_all: "spent k c c' \<Longrightarrow> spent (max_steps (ec_limits c)) c c'"
  by (auto simp: spent_def ctx_ok_def same_env_def)

abbreviation total_bytes :: "phy_bigint list \<Rightarrow> nat" where
  "total_bytes vs \<equiv> sum_list (map limb_bytes vs)"

text \<open>The temporaries \<open>vs\<close> are live and account for all bytes charged since \<open>c0\<close>.\<close>

definition holding :: "phy_exact_context \<Rightarrow> phy_bigint list \<Rightarrow> phy_exact_context \<Rightarrow> bool" where
  "holding c0 vs c \<longleftrightarrow> spent (max_steps (ec_limits c0)) c0 c \<and>
     (\<forall>v \<in> set vs. phy_bigint_handle_valid c v \<and> capacity v \<le> max_limbs (ec_limits c0)) \<and>
     ec_bytes c = ec_bytes c0 + total_bytes vs"

lemma holding_moved:
  assumes "holding c0 (us @ v # ws) c" "moved k v c v' c'"
  shows "holding c0 (us @ v' # ws) c'"
proof -
  have sp: "spent (max_steps (ec_limits c0)) c0 c" and lim: "ec_limits c = ec_limits c0"
    using assms(1) by (auto simp: holding_def dest: spentD)
  have m: "spent k c c'" "phy_bigint_handle_valid c' v'" "capacity v' \<le> max_limbs (ec_limits c)"
    "ec_bytes c' + limb_bytes v = ec_bytes c + limb_bytes v'"
    using assms(2) by (simp_all add: moved_def)
  have "spent (max_steps (ec_limits c0)) c0 c'" using spent_all [OF spent_trans [OF sp m(1)]] .
  moreover have "\<forall>w \<in> set (us @ v' # ws). phy_bigint_handle_valid c' w \<and> capacity w \<le> max_limbs (ec_limits c0)"
    using assms(1) m lim handle_valid_env [OF spentD(1) [OF m(1)]] by (auto simp: holding_def)
  moreover have "ec_bytes c' = ec_bytes c0 + total_bytes (us @ v' # ws)"
    using assms(1) m(4) by (simp add: holding_def)
  ultimately show ?thesis by (simp add: holding_def)
qed

lemma holding_ok: "holding c0 vs c \<Longrightarrow> ctx_ok c \<and> same_env c0 c \<and> ec_depth c = ec_depth c0"
  by (auto simp: holding_def dest: spentD)

lemma holding_bytes: "holding c0 vs c \<Longrightarrow> v \<in> set vs \<Longrightarrow> limb_bytes v \<le> ec_bytes c"
proof -
  assume h: "holding c0 vs c" and v: "v \<in> set vs"
  have "limb_bytes v \<le> total_bytes vs"
    using v by (induction vs) auto
  then show ?thesis using h by (simp add: holding_def)
qed

text \<open>The tail of these operations: destroy every initialised temporary, then end.\<close>

fun release :: "phy_bigint list \<Rightarrow> phy_exact_context \<Rightarrow> phy_exact_context" where
  "release [] c = c"
| "release (v # vs) c =
     release vs (if phy_bigint_is_initialized c v then snd (phy_bigint_destroy v c) else c)"

lemma release_eq:
  assumes "\<forall>v \<in> set vs. phy_bigint_handle_valid c v" "total_bytes vs \<le> ec_bytes c"
  shows "release vs c = c\<lparr>ec_bytes := ec_bytes c - total_bytes vs, ec_values := ec_values c - length vs\<rparr>"
  using assms
proof (induction vs arbitrary: c)
  case (Cons v vs)
  let ?c = "c\<lparr>ec_bytes := ec_bytes c - limb_bytes v, ec_values := ec_values c - 1\<rparr>"
  have "phy_bigint_destroy v c = (null_bigint, ?c)" using Cons.prems by (intro destroy_eq) auto
  moreover have "\<forall>v \<in> set vs. phy_bigint_handle_valid ?c v"
    using Cons.prems(1) by (simp add: phy_bigint_handle_valid_def phy_exact_context_is_valid_def)
  moreover have "total_bytes vs \<le> ec_bytes ?c" using Cons.prems(2) by simp
  ultimately show ?case using Cons.IH [of ?c] Cons.prems(1)
    by (simp add: phy_bigint_is_initialized_def)
qed simp

lemma release_exit:
  assumes ok: "ctx_ok c" and sp: "spent k ((entered c)\<lparr>ec_values := ec_values c + length vs\<rparr>) c1"
    and vs: "\<forall>v \<in> set vs. phy_bigint_handle_valid c1 v" "total_bytes vs \<le> ec_bytes c1"
  shows "\<exists>c3. phy_exact_operation_end (release vs c1) st = (st, c3) \<and> spent k (begun c) c3 \<and>
    ec_bytes c3 + total_bytes vs = ec_bytes c1"
proof -
  let ?c2 = "c1\<lparr>ec_bytes := ec_bytes c1 - total_bytes vs, ec_values := ec_values c1 - length vs\<rparr>"
  let ?c3 = "c1\<lparr>ec_bytes := ec_bytes c1 - total_bytes vs, ec_values := ec_values c1 - length vs, ec_depth := ec_depth c1 - 1\<rparr>"
  have d: "ec_depth c1 = Suc (ec_depth c)" "ctx_ok c1" using spentD [OF sp] by simp_all
  then have "ctx_ok ?c2" by (simp add: ctx_ok_def le_diff_conv trans_le_add1)
  then have "phy_exact_operation_end ?c2 st = (st, ?c3)" using d(1) by (simp add: end_eq)
  moreover have "spent k (begun c) ?c3" by (rule spent_exit [OF sp ok refl]) simp
  ultimately show ?thesis using release_eq [OF vs] vs(2) by auto
qed

section \<open>Opening and closing\<close>

text \<open>Operation begin with two zeroed temporaries, each then initialised.\<close>

definition begin_two ::
  "phy_exact_context \<Rightarrow> phy_status \<times> phy_bigint \<times> phy_bigint \<times> phy_exact_context" where
  "begin_two c =
     (case phy_exact_operation_begin c of (status, c0) \<Rightarrow>
      if status \<noteq> PHY_OK then (status, null_bigint, null_bigint, c0)
      else case phy_bigint_init (null_bigint, c0) of (status1, a, c1) \<Rightarrow>
      if status1 \<noteq> PHY_OK then (status1, a, null_bigint, c1)
      else case phy_bigint_init (null_bigint, c1) of (status2, b, c2) \<Rightarrow> (status2, a, b, c2))"

text \<open>A step of the operation on the first or the second temporary.\<close>

definition on_first ::
  "(phy_bigint \<times> phy_exact_context \<Rightarrow> phy_status \<times> phy_bigint \<times> phy_exact_context) \<Rightarrow>
   phy_bigint \<times> phy_bigint \<times> phy_exact_context \<Rightarrow> phy_status \<times> phy_bigint \<times> phy_bigint \<times> phy_exact_context" where
  "on_first f st = (case st of (a, b, c) \<Rightarrow> case f (a, c) of (status, a', c') \<Rightarrow> (status, a', b, c'))"

definition on_second ::
  "(phy_bigint \<times> phy_exact_context \<Rightarrow> phy_status \<times> phy_bigint \<times> phy_exact_context) \<Rightarrow>
   phy_bigint \<times> phy_bigint \<times> phy_exact_context \<Rightarrow> phy_status \<times> phy_bigint \<times> phy_bigint \<times> phy_exact_context" where
  "on_second f st = (case st of (a, b, c) \<Rightarrow> case f (b, c) of (status, b', c') \<Rightarrow> (status, a, b', c'))"

definition opened :: "nat \<Rightarrow> phy_exact_context \<Rightarrow> phy_exact_context" where
  "opened n c = (entered c)\<lparr>ec_values := ec_values c + n\<rparr>"

lemma begin_two_eq: "ctx_ok c \<Longrightarrow> begin_two c = (PHY_OK, fresh c, fresh c, opened 2 c)"
  using begun_ok [of c] by (simp add: begin_two_def begin_eq init_eq fresh_def begun_def opened_def)

lemma opened_ok: "ctx_ok c \<Longrightarrow> ctx_ok (opened n c)"
  using begun_ok [of c] by (simp add: opened_def)

lemma opened_env [simp]: "same_env c (opened n c)" "ec_limits (opened n c) = ec_limits c"
    "ec_bytes (opened n c) = ec_bytes c" "ec_depth (opened n c) = Suc (ec_depth c)"
  by (simp_all add: opened_def)

lemma total_bytes_zero: "\<forall>v \<in> set vs. capacity v = 0 \<Longrightarrow> total_bytes vs = 0"
  by (induction vs) auto

text \<open>A temporary of the list is valid and owns no more than what is charged.\<close>

definition held :: "phy_exact_context \<Rightarrow> phy_bigint list \<Rightarrow> phy_exact_context \<Rightarrow> bool" where
  "held c0 vs c \<longleftrightarrow> holding c0 vs c \<and> (\<forall>v \<in> set vs. phy_bigint_shallow_valid c v)"

lemma held_fresh:
  assumes "ctx_ok c" "set vs \<subseteq> {fresh c}"
  shows "held (opened n c) vs (opened n c)"
proof -
  have ok: "ctx_ok (opened n c)" by (rule opened_ok [OF assms(1)])
  have v: "phy_bigint_shallow_valid (opened n c) v \<and> capacity v = 0" if "v \<in> set vs" for v
  proof -
    have "v = fresh c" using assms(2) that by blast
    then show ?thesis using fresh_valid [OF assms(1) opened_env(1)] by simp
  qed
  have "\<forall>v \<in> set vs. phy_bigint_handle_valid (opened n c) v"
    using v by (simp add: phy_bigint_shallow_valid_def)
  then show ?thesis
    using total_bytes_zero [of vs] ok v by (simp add: held_def holding_def)
qed

lemma heldD:
  assumes "held c0 (us @ v # ws) c"
  shows "ctx_ok c" "phy_bigint_shallow_valid c v" "limb_bytes v \<le> ec_bytes c" "same_env c0 c"
    "ec_depth c = ec_depth c0"
  using assms holding_ok [of c0 "us @ v # ws" c] holding_bytes [of c0 "us @ v # ws" c v] by (auto simp: held_def)

lemma held_moved:
  assumes "held c0 (us @ v # ws) c" "moved k v c v' c'" "phy_bigint_shallow_valid c' v'"
  shows "held c0 (us @ v' # ws) c'"
proof -
  have e: "same_env c c'" using moved_handle [OF assms(2)] by simp
  show ?thesis using assms holding_moved [OF _ assms(2), of c0 us ws] shallow_valid_env [OF e]
    by (auto simp: held_def)
qed

lemma held_resource: "held c0 vs c \<Longrightarrow> shortage k m b c st \<Longrightarrow> resource_failure c0 st"
  using resource_env [of c0 c st] shortage_resource [of k m b c st] holding_ok [of c0 vs c] by (auto simp: held_def)

lemmas held_first = heldD [of c0 "[]" a ws c for c0 a ws c, simplified]
lemmas held_second = heldD [of c0 "[a]" b ws c for c0 a b ws c, simplified]
lemmas held_moved_first = held_moved [of c0 "[]" a ws c for c0 a ws c, simplified]
lemmas held_moved_second = held_moved [of c0 "[a]" b ws c for c0 a b ws c, simplified]

text \<open>The end of an operation: release the temporaries and leave.\<close>

lemma close_holding:
  assumes ok: "ctx_ok c" and h: "holding (opened n c) vs c1"
    and ws: "\<forall>v \<in> set ws. phy_bigint_handle_valid c1 v" "total_bytes ws \<le> ec_bytes c1" "length ws = n"
  shows "\<exists>c3. phy_exact_operation_end (release ws c1) st = (st, c3) \<and> spent (max_steps (ec_limits c)) (begun c) c3 \<and>
    ec_bytes c3 + total_bytes ws = ec_bytes c + total_bytes vs"
proof -
  have "spent (max_steps (ec_limits c)) (opened (length ws) c) c1" using h ws(3) by (simp add: holding_def opened_def)
  from release_exit [OF ok this [unfolded opened_def] ws(1,2), of st] h show ?thesis by (auto simp: holding_def opened_def)
qed

text \<open>
  The common tail: on success the first temporary is swapped into the output; all are
  destroyed in the reverse order of their initialisation.
\<close>

definition finish_with ::
  "phy_bigint \<Rightarrow> phy_status \<Rightarrow> phy_bigint \<Rightarrow> phy_bigint list \<Rightarrow> phy_exact_context \<Rightarrow>
   phy_status \<times> phy_bigint \<times> phy_exact_context" where
  "finish_with out status first others c =
     (case (if status = PHY_OK then phy_bigint_swap_payload out first else (out, first)) of (out', first') \<Rightarrow>
      case phy_exact_operation_end (release (rev others @ [first']) c) status of (status', c') \<Rightarrow> (status', out', c'))"

definition finish_two ::
  "phy_bigint \<Rightarrow> phy_status \<times> phy_bigint \<times> phy_bigint \<times> phy_exact_context \<Rightarrow>
   phy_status \<times> phy_bigint \<times> phy_exact_context" where
  "finish_two out r = (case r of (status, first, second, c) \<Rightarrow> finish_with out status first [second] c)"

text \<open>Running a step of the operation on one of two held temporaries.\<close>

lemma on_first_held:
  assumes h: "held c0 [a, b] c"
    and f: "outcome (f (a, c)) (\<lambda>(a', c'). moved k a c a' c' \<and> phy_bigint_shallow_valid c' a' \<and> Q a')
      (\<lambda>st (a', c'). moved k a c a' c' \<and> shortage k m z c st)"
  shows "outcome (on_first f (a, b, c)) (\<lambda>(a', b', c'). held c0 [a', b'] c' \<and> b' = b \<and> Q a')
    (\<lambda>st (a', b', c'). holding c0 [a', b'] c' \<and> resource_failure c0 st)"
proof -
  obtain s a' c' where e: "f (a, c) = (s, a', c')" by (cases "f (a, c)")
  have "holding c0 ([] @ a # [b]) c" using h by (simp add: held_def)
  note m = holding_moved [OF this, of k a' c']
  show ?thesis
    using f [unfolded e] m held_moved_first [OF h, of k a' c'] held_resource [OF h, of k m z s]
    by (auto simp: on_first_def e split: if_splits)
qed

lemma on_second_held:
  assumes h: "held c0 [a, b] c"
    and f: "outcome (f (b, c)) (\<lambda>(b', c'). moved k b c b' c' \<and> phy_bigint_shallow_valid c' b' \<and> Q b')
      (\<lambda>st (b', c'). moved k b c b' c' \<and> shortage k m z c st)"
  shows "outcome (on_second f (a, b, c)) (\<lambda>(a', b', c'). held c0 [a', b'] c' \<and> a' = a \<and> Q b')
    (\<lambda>st (a', b', c'). holding c0 [a', b'] c' \<and> resource_failure c0 st)"
proof -
  obtain s b' c' where e: "f (b, c) = (s, b', c')" by (cases "f (b, c)")
  have "holding c0 ([a] @ b # []) c" using h by (simp add: held_def)
  note m = holding_moved [OF this, of k b' c']
  show ?thesis
    using f [unfolded e] m held_moved_second [OF h, of k b' c'] held_resource [OF h, of k m z s]
    by (auto simp: on_second_def e split: if_splits)
qed

text \<open>What the caller of such an operation sees.\<close>

definition settled ::
  "phy_bigint \<Rightarrow> phy_exact_context \<Rightarrow> (phy_exact_context \<Rightarrow> phy_bigint \<Rightarrow> bool) \<Rightarrow>
   (phy_status \<Rightarrow> bool) \<Rightarrow> phy_status \<times> phy_bigint \<times> phy_exact_context \<Rightarrow> bool" where
  "settled out c Q E r \<longleftrightarrow>
     outcome r
       (\<lambda>(out', c'). moved (max_steps (ec_limits c)) out (begun c) out' c' \<and> phy_bigint_shallow_valid c' out' \<and> Q c' out')
       (\<lambda>st (out', c'). out' = out \<and> moved (max_steps (ec_limits c)) out (begun c) out c' \<and> E st)"

lemma finish_with_spec:
  assumes ok: "ctx_ok c" and out: "phy_bigint_shallow_valid c out" "limb_bytes out \<le> ec_bytes c"
    and h: "holding (opened n c) (a # us) c1" and n: "n = Suc (length us)"
    and good: "st = PHY_OK \<Longrightarrow> phy_bigint_shallow_valid c1 a \<and> Q (ival a)"
    and bad: "st \<noteq> PHY_OK \<Longrightarrow> E st"
  shows "settled out c (\<lambda>_ v. Q (ival v)) E (finish_with out st a us c1)"
proof -
  let ?N = "max_steps (ec_limits c)"
  have e1: "same_env c c1" using holding_ok [OF h] same_env_trans [OF opened_env(1)] by blast
  have hv: "\<forall>v \<in> set us. phy_bigint_handle_valid c1 v" "phy_bigint_handle_valid c1 a" "capacity a \<le> max_limbs (ec_limits c)"
    "ec_bytes c1 = ec_bytes c + total_bytes (a # us)" using h by (simp_all add: holding_def)
  have ov: "phy_bigint_handle_valid c1 out" "capacity out \<le> max_limbs (ec_limits c)"
    using out(1) handle_valid_env [OF e1] by (simp_all add: phy_bigint_shallow_valid_def)
  have tb: "total_bytes (rev us @ [x]) = total_bytes us + limb_bytes x" for x
    by (simp add: rev_map [symmetric])
  have close: "\<exists>c3. phy_exact_operation_end (release (rev us @ [x]) c1) st = (st, c3) \<and> spent ?N (begun c) c3 \<and>
      ec_bytes c3 + limb_bytes x = ec_bytes c + limb_bytes a \<and> same_env c1 c3"
    if "phy_bigint_handle_valid c1 x" "limb_bytes x \<le> ec_bytes c + limb_bytes a" for x
  proof -
    have "\<forall>v \<in> set (rev us @ [x]). phy_bigint_handle_valid c1 v" "total_bytes (rev us @ [x]) \<le> ec_bytes c1"
      "length (rev us @ [x]) = n"
      using hv that n unfolding tb by simp_all
    from close_holding [OF ok h this, of st] obtain c3 where
      c3: "phy_exact_operation_end (release (rev us @ [x]) c1) st = (st, c3)" "spent ?N (begun c) c3"
        "ec_bytes c3 + total_bytes (rev us @ [x]) = ec_bytes c + total_bytes (a # us)" by blast
    have "same_env c1 c3" using same_env_trans [OF same_env_sym [OF e1]] same_env_trans [OF begun_env(1) spentD(1) [OF c3(2)]] by blast
    then show ?thesis using c3 unfolding tb by auto
  qed
  show ?thesis
  proof (cases "st = PHY_OK")
    case True
    let ?out = "out\<lparr>bg_limbs := bg_limbs a, bg_count := bg_count a, bg_sign := bg_sign a\<rparr>"
    let ?a = "a\<lparr>bg_limbs := bg_limbs out, bg_count := bg_count out, bg_sign := bg_sign out\<rparr>"
    have "phy_bigint_handle_valid c1 ?a" "limb_bytes ?a \<le> ec_bytes c + limb_bytes a"
      using hv(2) out(2) by (simp_all add: phy_bigint_handle_valid_def)
    from close [OF this] obtain c3 where
      c3: "phy_exact_operation_end (release (rev us @ [?a]) c1) st = (st, c3)" "spent ?N (begun c) c3"
        "ec_bytes c3 + limb_bytes ?a = ec_bytes c + limb_bytes a" "same_env c1 c3" by blast
    have res: "finish_with out st a us c1 = (PHY_OK, ?out, c3)"
      using True c3(1) by (simp add: finish_with_def phy_bigint_swap_payload_def)
    have "phy_bigint_shallow_valid c1 ?out" using ov(1) good [OF True]
      by (auto simp: phy_bigint_shallow_valid_def phy_bigint_handle_valid_def split: if_splits)
    then have v3: "phy_bigint_shallow_valid c3 ?out" using shallow_valid_env [OF c3(4)] by blast
    have "ec_bytes c3 + limb_bytes out = ec_bytes (begun c) + limb_bytes ?out" using c3(3) by simp
    then have "moved ?N out (begun c) ?out c3"
      using v3 c3(2) hv(3) by (simp add: moved_def phy_bigint_shallow_valid_def)
    moreover have "Q (ival ?out)" using good [OF True] by (simp add: ival_def magv_def)
    ultimately show ?thesis using v3 unfolding settled_def res by simp
  next
    case False
    from close [OF hv(2)] obtain c3 where
      c3: "phy_exact_operation_end (release (rev us @ [a]) c1) st = (st, c3)" "spent ?N (begun c) c3"
        "ec_bytes c3 + limb_bytes a = ec_bytes c + limb_bytes a" "same_env c1 c3" by auto
    have res: "finish_with out st a us c1 = (st, out, c3)" using False c3(1) by (simp add: finish_with_def)
    have "phy_bigint_handle_valid c3 out" using handle_valid_env [OF c3(4)] ov(1) by blast
    then have "moved ?N out (begun c) out c3" using c3(2,3) ov(2) by (simp add: moved_def)
    then show ?thesis using bad False res by (simp add: settled_def)
  qed
qed

lemma finish_two_spec:
  assumes ok: "ctx_ok c" and out: "phy_bigint_shallow_valid c out" "limb_bytes out \<le> ec_bytes c"
    and run: "outcome r (\<lambda>(a, b, c1). held (opened 2 c) [a, b] c1 \<and> Q (ival a))
      (\<lambda>st (a, b, c1). holding (opened 2 c) [a, b] c1 \<and> E st)"
  shows "settled out c (\<lambda>_ v. Q (ival v)) E (finish_two out r)"
proof -
  obtain st a b c1 where r: "r = (st, a, b, c1)" by (cases r)
  have h: "holding (opened 2 c) [a, b] c1" using run by (auto simp: r held_def split: if_splits)
  have "settled out c (\<lambda>_ v. Q (ival v)) E (finish_with out st a [b] c1)"
    by (rule finish_with_spec [OF ok out h]) (use run in \<open>simp_all add: r held_def\<close>)
  then show ?thesis by (simp add: finish_two_def r)
qed

end
