(* ===== verification/BigintPow.thy ===== *)
theory BigintPow
  imports BigintMul BigintTemps
begin

text \<open>
  Powers by square and multiply, \<open>phy_bigint_pow_u32\<close> of \<open>src/exact/integer.c\<close>: two
  temporaries, and multiplications nested inside the operation.
\<close>

section \<open>Definitions\<close>

text \<open>The loop: the accumulated result, the current square and the context (\<open>base\<close> is \<open>root\<close> here).\<close>

function bigint_pow_loop ::
  "u32 \<Rightarrow> phy_bigint \<times> phy_bigint \<times> phy_exact_context \<Rightarrow>
   phy_status \<times> phy_bigint \<times> phy_bigint \<times> phy_exact_context" where
  "bigint_pow_loop remaining st =
     (case st of (result, factor, c) \<Rightarrow>
      if remaining = 0 then (PHY_OK, result, factor, c)
      else
        case (if and remaining 1 \<noteq> 0 then phy_bigint_multiply result factor (result, c)
              else (PHY_OK, result, c)) of (status, result1, c1) \<Rightarrow>
        let rest = drop_bit 1 remaining in
        case (if status = PHY_OK \<and> rest \<noteq> 0 then phy_bigint_multiply factor factor (factor, c1)
              else (status, factor, c1)) of (status2, factor1, c2) \<Rightarrow>
        if status2 = PHY_OK then bigint_pow_loop rest (result1, factor1, c2)
        else (status2, result1, factor1, c2))"
  by pat_completeness auto
termination
proof (relation "measure (\<lambda>(remaining, st). unat remaining)", goal_cases)
  case (2 remaining st)
  have "unat (drop_bit 1 remaining) = unat remaining div 2"
    by (subst unat_drop_bit_eq) (simp add: drop_bit_eq_div)
  then show ?case using 2 by (auto simp: unat_gt_0)
qed simp

declare bigint_pow_loop.simps [simp del]

definition phy_bigint_pow_u32 ::
  "phy_bigint \<Rightarrow> u32 \<Rightarrow> phy_bigint \<times> phy_exact_context \<Rightarrow> phy_status \<times> phy_bigint \<times> phy_exact_context" where
  "phy_bigint_pow_u32 root exponent st =
     (case st of (out, c) \<Rightarrow>
      if \<not> compatible2 c root out then (PHY_ERR_INVALID_ARGUMENT, out, c)
      else
        finish_two out
          (andthen (andthen (andthen (begin_two c)
            (on_first (phy_bigint_assign_u64 1 1))) (on_second (copy_payload root False))) (bigint_pow_loop exponent)))"

section \<open>The nested product\<close>

text \<open>A multiplication inside another operation, on held temporaries.\<close>

lemma multiply_spec:
  assumes "ctx_ok c" "phy_bigint_shallow_valid c l" "phy_bigint_shallow_valid c r"
    and "phy_bigint_shallow_valid c out" "limb_bytes out \<le> ec_bytes c"
  shows "outcome (phy_bigint_multiply l r (out, c))
    (\<lambda>(out', c'). moved (bg_count l * bg_count r) out (begun c) out' c' \<and> phy_bigint_shallow_valid c' out' \<and>
       ival out' = ival l * ival r)
    (\<lambda>st (out', c'). out' = out \<and> moved (bg_count l * bg_count r) out (begun c) out c' \<and>
       shortage (bg_count l * bg_count r) (product_limbs l r) (8 * (bg_count l + bg_count r)) (begun c) st)"
  using multiply_op.transaction [of c l r out] assms by (simp add: phy_bigint_multiply_def compatible3_iff)

lemma multiply_held:
  assumes h: "held c0 (us @ v # ws) c" and d: "ec_depth c0 \<noteq> 0"
    and l: "phy_bigint_shallow_valid c l" and r: "phy_bigint_shallow_valid c r"
  shows "outcome (phy_bigint_multiply l r (v, c))
    (\<lambda>(v', c'). held c0 (us @ v' # ws) c' \<and> ival v' = ival l * ival r)
    (\<lambda>st (v', c'). v' = v \<and> held c0 (us @ v # ws) c' \<and> resource_failure c0 st)"
proof -
  note f = heldD [OF h]
  have b: "begun c = c" using d f(5) by simp
  show ?thesis
  proof (rule outcome_mono [OF multiply_spec [OF f(1) l r f(2,3), unfolded b]], goal_cases)
    case (1 s)
    then show ?case using held_moved [OF h] by (cases s) blast
  next
    case (2 st s)
    obtain v' c' where s: "s = (v', c')" by (cases s)
    have m: "moved (bg_count l * bg_count r) v c v c'" "v' = v" using 2(2) by (simp_all add: s)
    have "phy_bigint_shallow_valid c' v" using f(2) shallow_valid_env [of c c' v] moved_handle [OF m(1)] by simp
    from held_moved [OF h m(1) this] show ?case using 2(2) held_resource [OF h] by (auto simp: s)
  qed
qed

lemma square_power: "(x :: int) ^ (n mod 2) * (x * x) ^ (n div 2) = x ^ n"
proof -
  have "x ^ (n mod 2) * (x * x) ^ (n div 2) = x ^ (n mod 2 + 2 * (n div 2))"
    by (simp only: power_add power_mult power2_eq_square)
  then show ?thesis by simp
qed

lemma pow_loop_spec:
  assumes "held c0 [r, f] c" "ec_depth c0 \<noteq> 0"
  shows "outcome (bigint_pow_loop n (r, f, c))
    (\<lambda>(r', f', c'). held c0 [r', f'] c' \<and> ival r' = ival r * ival f ^ unat n)
    (\<lambda>st (r', f', c'). held c0 [r', f'] c' \<and> resource_failure c0 st)"
  using assms(1)
proof (induction "unat n" arbitrary: n r f c rule: less_induct)
  case less
  note h = less.prems
  show ?case
  proof (cases "n = 0")
    case True
    then show ?thesis using h by (simp add: bigint_pow_loop.simps)
  next
    case nz: False
    let ?m = "drop_bit 1 n"
    have half: "unat ?m = unat n div 2" by (subst unat_drop_bit_eq) (simp add: drop_bit_eq_div)
    have lt: "unat ?m < unat n" using nz half by (simp add: unat_gt_0)
    have par: "and n 1 \<noteq> 0 \<longleftrightarrow> odd (unat n)"
    proof -
      have "unat (and n 1) = unat n mod 2" by (simp add: and_one_eq unat_mod_distrib)
      then show ?thesis by (metis odd_iff_mod_2_eq_one not_mod_2_eq_1_eq_0 unat_eq_0 zero_neq_one)
    qed
    obtain s1 r1 c1 where e1: "(if and n 1 \<noteq> 0 then phy_bigint_multiply r f (r, c) else (PHY_OK, r, c)) = (s1, r1, c1)"
      by (metis prod_cases3)
    have st1: "held c0 [r1, f] c1 \<and> (s1 = PHY_OK \<longrightarrow> ival r1 = ival r * ival f ^ (unat n mod 2)) \<and>
        (s1 \<noteq> PHY_OK \<longrightarrow> resource_failure c0 s1)"
    proof (cases "and n 1 = 0")
      case True
      then show ?thesis using e1 h par by auto
    next
      case False
      have "outcome (s1, r1, c1) (\<lambda>(v', c'). held c0 ([] @ v' # [f]) c' \<and> ival v' = ival r * ival f)
          (\<lambda>st (v', c'). v' = r \<and> held c0 ([] @ r # [f]) c' \<and> resource_failure c0 st)"
        using multiply_held [of c0 "[]" r "[f]" c r f] h assms(2) held_first [OF h] held_second [OF h] False e1 by simp
      then show ?thesis using False par by (auto simp: odd_iff_mod_2_eq_one split: if_splits)
    qed
    obtain s2 f2 c2 where e2: "(if s1 = PHY_OK \<and> ?m \<noteq> 0 then phy_bigint_multiply f f (f, c1) else (s1, f, c1)) = (s2, f2, c2)"
      by (metis prod_cases3)
    have st2: "held c0 [r1, f2] c2 \<and> (s2 = PHY_OK \<longrightarrow> s1 = PHY_OK \<and> (?m \<noteq> 0 \<longrightarrow> ival f2 = ival f * ival f)) \<and>
        (s2 \<noteq> PHY_OK \<longrightarrow> resource_failure c0 s2)"
    proof (cases "s1 = PHY_OK \<and> ?m \<noteq> 0")
      case False
      then show ?thesis using e2 st1 by auto
    next
      case True
      have h1: "held c0 [r1, f] c1" using st1 by simp
      have "outcome (s2, f2, c2) (\<lambda>(v', c'). held c0 ([r1] @ v' # []) c' \<and> ival v' = ival f * ival f)
          (\<lambda>st (v', c'). v' = f \<and> held c0 ([r1] @ f # []) c' \<and> resource_failure c0 st)"
        using multiply_held [of c0 "[r1]" f "[]" c1 f f] h1 assms(2) held_second [OF h1] True e2 by simp
      then show ?thesis using True by (auto split: if_splits)
    qed
    have eq: "bigint_pow_loop n (r, f, c) = (if s2 = PHY_OK then bigint_pow_loop ?m (r1, f2, c2) else (s2, r1, f2, c2))"
      using nz e1 e2 by (subst bigint_pow_loop.simps) (simp add: Let_def)
    show ?thesis
    proof (cases "s2 = PHY_OK")
      case False
      then show ?thesis unfolding eq using st2 by simp
    next
      case True
      have "ival r1 * ival f2 ^ unat ?m = ival r * ival f ^ unat n"
      proof -
        have "ival r1 * ival f2 ^ unat ?m = ival r * ival f ^ (unat n mod 2) * (ival f * ival f) ^ (unat n div 2)"
          using st1 st2 True half by (cases "?m = 0") auto
        also have "\<dots> = ival r * ival f ^ unat n" by (simp only: mult.assoc square_power)
        finally show ?thesis .
      qed
      then show ?thesis unfolding eq using True less.hyps [OF lt, of r1 f2 c2] st2 by simp
    qed
  qed
qed

section \<open>The operation\<close>

lemma pow_spec:
  assumes ok: "ctx_ok c" and v: "phy_bigint_shallow_valid c v"
    and out: "phy_bigint_shallow_valid c out" "limb_bytes out \<le> ec_bytes c"
  shows "settled out c (\<lambda>_ w. ival w = ival v ^ unat n) (resource_failure c) (phy_bigint_pow_u32 v n (out, c))"
proof -
  let ?c0 = "opened 2 c"
  have h0: "held ?c0 [fresh c, fresh c] ?c0" by (rule held_fresh [OF ok]) simp
  have rf: "resource_failure ?c0 = resource_failure c" using resource_env [OF opened_env(1)] by blast
  let ?E = "\<lambda>st (a, b, c1). holding ?c0 [a, b] c1 \<and> resource_failure ?c0 st"
  have s1: "outcome (on_first (phy_bigint_assign_u64 1 1) (fresh c, fresh c, ?c0))
      (\<lambda>(a, b, c1). held ?c0 [a, b] c1 \<and> b = fresh c \<and> ival a = 1) ?E"
    by (rule on_first_held [OF h0], rule outcome_mono [OF assign_u64_spec [OF held_first(1-3) [OF h0]]]) auto
  have s2: "outcome (on_second (copy_payload v False) (a, b, c1))
      (\<lambda>(a', b', c'). held ?c0 [a', b'] c' \<and> a' = a \<and> ival b' = ival v) ?E" if h: "held ?c0 [a, b] c1" for a b c1
  proof -
    have "phy_bigint_shallow_valid c1 v"
      using v shallow_valid_env [OF same_env_trans [OF opened_env(1) held_first(4) [OF h]]] by blast
    from copy_payload_spec [OF held_second(1-3) [OF h] this, of False]
    show ?thesis by (intro on_second_held [OF h], elim outcome_mono) auto
  qed
  have s3: "outcome (bigint_pow_loop n (a, b, c1)) (\<lambda>(a', b', c'). held ?c0 [a', b'] c' \<and> ival a' = ival v ^ unat n) ?E"
    if "held ?c0 [a, b] c1" "ival a = 1" "ival b = ival v" for a b c1
    by (rule outcome_mono [OF pow_loop_spec [OF that(1)]]) (use that in \<open>auto simp: held_def\<close>)
  have "outcome (andthen (andthen (andthen (begin_two c)
      (on_first (phy_bigint_assign_u64 1 1))) (on_second (copy_payload v False))) (bigint_pow_loop n))
      (\<lambda>(a, b, c1). held ?c0 [a, b] c1 \<and> ival a = ival v ^ unat n) ?E"
    unfolding outcome_andthen begin_two_eq [OF ok] outcome_pair if_P [OF refl]
    by (rule outcome_mono [OF s1], auto intro!: outcome_mono [OF s2] s3)
  from finish_two_spec [OF ok out this [unfolded rf]] show ?thesis
    using v out(1) by (simp add: phy_bigint_pow_u32_def compatible2_iff)
qed

end
