(* ===== verification/BigintDiv.thy ===== *)
theory BigintDiv
  imports BigintMul BigintTemps "HOL-Library.Signed_Division"
begin

text \<open>
  Division of \<open>src/exact/integer.c\<close>: the bit helpers, the one-limb and the bit-by-bit
  division of magnitudes with their invariants, and truncating division of signed values.
\<close>

section \<open>Definitions\<close>

definition bit_at :: "phy_bigint \<Rightarrow> nat \<Rightarrow> bool" where
  "bit_at v k =
     (let limb = k div 32; shift = k mod 32 in
      limb < bg_count v \<and> and (drop_bit shift (bg_limbs v ! limb)) 1 \<noteq> 0)"

text \<open>The loop \<open>while (value->count <= limb) value->limbs[value->count++] = 0\<close>.\<close>

function zero_fill :: "nat \<Rightarrow> u32 list \<times> nat \<Rightarrow> u32 list \<times> nat" where
  "zero_fill limb st =
     (case st of (limbs, count) \<Rightarrow>
      if count \<le> limb then zero_fill limb (limbs[count := 0], Suc count) else (limbs, count))"
  by pat_completeness auto
termination
  by (relation "measure (\<lambda>(limb, limbs, count). Suc limb - count)") auto

declare zero_fill.simps [simp del]

definition bigint_set_bit ::
  "nat \<Rightarrow> phy_bigint \<times> phy_exact_context \<Rightarrow> phy_status \<times> phy_bigint \<times> phy_exact_context" where
  "bigint_set_bit k st =
     (let limb = k div 32; shift = k mod 32 in
      case phy_bigint_reserve (limb + 1) st of (status, v, c) \<Rightarrow>
      if status \<noteq> PHY_OK then (status, v, c)
      else
        case zero_fill limb (bg_limbs v, bg_count v) of (limbs, count) \<Rightarrow>
          (PHY_OK, v\<lparr>bg_limbs := limbs[limb := or (limbs ! limb) (push_bit shift 1)],
                     bg_count := count, bg_sign := 1\<rparr>, c))"

definition shift_limb ::
  "nat \<Rightarrow> u32 list \<times> u64 \<times> phy_exact_context \<Rightarrow> phy_status \<times> u32 list \<times> u64 \<times> phy_exact_context" where
  "shift_limb index st =
     (case st of (limbs, carry, c) \<Rightarrow>
      case phy_exact_step 1 c of (status, c1) \<Rightarrow>
      if status \<noteq> PHY_OK then (status, limbs, carry, c1)
      else
        let shifted = or (push_bit 1 (wide (limbs ! index))) carry
        in (PHY_OK, limbs[index := low32 shifted], high32 shifted, c1))"

definition shift_left_one ::
  "bool \<Rightarrow> phy_bigint \<times> phy_exact_context \<Rightarrow> phy_status \<times> phy_bigint \<times> phy_exact_context" where
  "shift_left_one low_bit st =
     (let v = fst st;
          grows = (bg_count v = 0 \<or> and (bg_limbs v ! (bg_count v - 1)) 0x80000000 \<noteq> 0);
          needed = bg_count v + (if grows then 1 else 0)
      in case phy_bigint_reserve needed st of (status, v1, c1) \<Rightarrow>
         if status \<noteq> PHY_OK then (status, v1, c1)
         else
           case for_each [0..<bg_count v1] shift_limb (bg_limbs v1, if low_bit then 1 else 0, c1) of
             (status2, limbs, carry, c2) \<Rightarrow>
           if status2 \<noteq> PHY_OK then (status2, v1\<lparr>bg_limbs := limbs\<rparr>, c2)
           else
             let limbs' = (if carry \<noteq> 0 then limbs[bg_count v1 := low32 carry] else limbs);
                 count' = (if carry \<noteq> 0 then bg_count v1 + 1 else bg_count v1)
             in (PHY_OK, v1\<lparr>bg_limbs := limbs', bg_count := count',
                            bg_sign := (if count' \<noteq> 0 then 1 else bg_sign v1)\<rparr>, c2))"

definition sub_in_place_limb ::
  "phy_bigint \<Rightarrow> nat \<Rightarrow> u32 list \<times> u64 \<times> phy_exact_context \<Rightarrow>
   phy_status \<times> u32 list \<times> u64 \<times> phy_exact_context" where
  "sub_in_place_limb subtrahend index st =
     (case st of (limbs, borrow, c) \<Rightarrow>
      case phy_exact_step 1 c of (status, c1) \<Rightarrow>
      if status \<noteq> PHY_OK then (status, limbs, borrow, c1)
      else
        let right = limb_at (bg_limbs subtrahend) (bg_count subtrahend) index;
            sum = right + borrow;
            left = wide (limbs ! index)
        in (PHY_OK, limbs[index := low32 (left - sum)], if left < sum then 1 else 0, c1))"

definition subtract_abs_in_place ::
  "phy_bigint \<Rightarrow> phy_bigint \<times> phy_exact_context \<Rightarrow> phy_status \<times> phy_bigint \<times> phy_exact_context" where
  "subtract_abs_in_place subtrahend st =
     (case st of (v, c) \<Rightarrow>
      case for_each [0..<bg_count v] (sub_in_place_limb subtrahend) (bg_limbs v, 0, c) of
        (status, limbs, borrow, c1) \<Rightarrow>
      if status \<noteq> PHY_OK then (status, v\<lparr>bg_limbs := limbs\<rparr>, c1)
      else if borrow \<noteq> 0 then (PHY_ERR_CORRUPT_DOCUMENT, v\<lparr>bg_limbs := limbs\<rparr>, c1)
      else
        let v1 = phy_bigint_normalize (v\<lparr>bg_limbs := limbs\<rparr>)
        in (PHY_OK, if bg_count v1 \<noteq> 0 then v1\<lparr>bg_sign := 1\<rparr> else v1, c1))"

text \<open>One limb of the division by a one-limb divisor, from the top down.\<close>

definition div_limb ::
  "phy_bigint \<Rightarrow> u32 \<Rightarrow> nat \<Rightarrow> u32 list \<times> u64 \<times> phy_exact_context \<Rightarrow>
   phy_status \<times> u32 list \<times> u64 \<times> phy_exact_context" where
  "div_limb dividend small index st =
     (case st of (limbs, carry, c) \<Rightarrow>
      case phy_exact_step 1 c of (status, c1) \<Rightarrow>
      if status \<noteq> PHY_OK then (status, limbs, carry, c1)
      else
        let current = join32 carry (bg_limbs dividend ! index)
        in (PHY_OK, limbs[index := low32 (current div wide small)], current mod wide small, c1))"

text \<open>One bit of the long division: shift the bit in, compare, subtract, set the quotient bit.\<close>

definition div_bit ::
  "phy_bigint \<Rightarrow> phy_bigint \<Rightarrow> nat \<Rightarrow> phy_bigint \<times> phy_bigint \<times> phy_exact_context \<Rightarrow>
   phy_status \<times> phy_bigint \<times> phy_bigint \<times> phy_exact_context" where
  "div_bit dividend divisor k st =
     (case st of (q, r, c) \<Rightarrow>
      case phy_exact_step 1 c of (status, c1) \<Rightarrow>
      if status \<noteq> PHY_OK then (status, q, r, c1)
      else case shift_left_one (bit_at dividend k) (r, c1) of (status2, r2, c2) \<Rightarrow>
      if status2 = PHY_OK \<and> 0 \<le> phy_bigint_compare_abs c2 r2 divisor then
        (case subtract_abs_in_place divisor (r2, c2) of (status3, r3, c3) \<Rightarrow>
           if status3 \<noteq> PHY_OK then (status3, q, r3, c3)
           else case bigint_set_bit k (q, c3) of (status4, q4, c4) \<Rightarrow> (status4, q4, r3, c4))
      else (status2, q, r2, c2))"

definition divmod_abs ::
  "phy_bigint \<Rightarrow> phy_bigint \<Rightarrow> phy_bigint \<times> phy_bigint \<times> phy_exact_context \<Rightarrow>
   phy_status \<times> phy_bigint \<times> phy_bigint \<times> phy_exact_context" where
  "divmod_abs dividend divisor st =
     (case st of (qt, rm, c) \<Rightarrow>
      let q = qt\<lparr>bg_count := 0, bg_sign := 0\<rparr>;
          r = rm\<lparr>bg_count := 0, bg_sign := 0\<rparr>;
          n = bg_count dividend
      in
        if phy_bigint_compare_abs c dividend divisor < 0 then on_second (copy_payload dividend True) (q, r, c)
        else case phy_bigint_reserve n (q, c) of (status, q1, c1) \<Rightarrow>
        if bg_count divisor = 1 then
          (if status \<noteq> PHY_OK then (status, q1, r, c1)
           else
             case for_each (rev [0..<n]) (div_limb dividend (bg_limbs divisor ! 0)) (bg_limbs q1, 0, c1) of
               (status2, limbs, carry, c2) \<Rightarrow>
             if status2 \<noteq> PHY_OK then (status2, q1\<lparr>bg_limbs := limbs\<rparr>, r, c2)
             else on_second (phy_bigint_assign_u64 carry (if carry \<noteq> 0 then 1 else 0))
                    (phy_bigint_normalize (q1\<lparr>bg_limbs := limbs, bg_count := n, bg_sign := 1\<rparr>), r, c2))
        else
          case (if status \<noteq> PHY_OK then (status, q1, r, c1)
                else for_each (rev [0..<phy_bigint_bit_length c dividend]) (div_bit dividend divisor)
                       (q1\<lparr>bg_limbs := replicate (capacity q1) 0\<rparr>, r, c1)) of
            (status2, q2, r2, c2) \<Rightarrow> (status2, phy_bigint_normalize q2, phy_bigint_normalize r2, c2))"

text \<open>The signs of truncating division.\<close>

definition divide_signs ::
  "phy_bigint \<Rightarrow> phy_bigint \<Rightarrow> phy_bigint \<times> phy_bigint \<times> phy_exact_context \<Rightarrow>
   phy_status \<times> phy_bigint \<times> phy_bigint \<times> phy_exact_context" where
  "divide_signs dividend divisor st =
     (case st of (q, r, c) \<Rightarrow>
        (PHY_OK, if bg_count q \<noteq> 0 then q\<lparr>bg_sign := (if bg_sign dividend = bg_sign divisor then 1 else - 1)\<rparr> else q,
         if bg_count r \<noteq> 0 then r\<lparr>bg_sign := bg_sign dividend\<rparr> else r, c))"

text \<open>\<open>same\<close>: whether the two outputs are one handle.\<close>

definition phy_bigint_divmod ::
  "phy_bigint \<Rightarrow> phy_bigint \<Rightarrow> bool \<Rightarrow> phy_bigint \<times> phy_bigint \<times> phy_exact_context \<Rightarrow>
   phy_status \<times> phy_bigint \<times> phy_bigint \<times> phy_exact_context" where
  "phy_bigint_divmod dividend divisor same st =
     (case st of (out_q, out_r, c) \<Rightarrow>
      if \<not> compatible3 c dividend divisor out_q \<or> \<not> phy_bigint_shallow_valid c out_r \<or>
         bg_owner out_r \<noteq> bg_owner dividend \<or> same then (PHY_ERR_INVALID_ARGUMENT, out_q, out_r, c)
      else if bg_count divisor = 0 then (PHY_ERR_DOMAIN, out_q, out_r, c)
      else
        case andthen (andthen (begin_two c) (divmod_abs dividend divisor)) (divide_signs dividend divisor) of
          (status, q, r, c1) \<Rightarrow>
        case (if status = PHY_OK then phy_bigint_swap_payload out_q q else (out_q, q)) of (out_q', q') \<Rightarrow>
        case (if status = PHY_OK then phy_bigint_swap_payload out_r r else (out_r, r)) of (out_r', r') \<Rightarrow>
        case phy_exact_operation_end (release [r', q'] c1) status of (status', c2) \<Rightarrow>
          (status', out_q', out_r', c2))"

text \<open>\<open>phy_bigint_divide_exact\<close>: a non-zero remainder is a domain error.\<close>

definition require_exact ::
  "phy_bigint \<times> phy_bigint \<times> phy_exact_context \<Rightarrow> phy_status \<times> phy_bigint \<times> phy_bigint \<times> phy_exact_context" where
  "require_exact st = (case st of (q, r, c) \<Rightarrow> (if bg_count r \<noteq> 0 then PHY_ERR_DOMAIN else PHY_OK, q, r, c))"

definition phy_bigint_divide_exact ::
  "phy_bigint \<Rightarrow> phy_bigint \<Rightarrow> phy_bigint \<times> phy_exact_context \<Rightarrow> phy_status \<times> phy_bigint \<times> phy_exact_context" where
  "phy_bigint_divide_exact dividend divisor st =
     (case st of (out, c) \<Rightarrow>
      if \<not> compatible3 c dividend divisor out then (PHY_ERR_INVALID_ARGUMENT, out, c)
      else finish_two out
        (andthen (andthen (begin_two c) (phy_bigint_divmod dividend divisor False)) require_exact))"

section \<open>Bits of a limb array\<close>

lemma unat_bit: "bit (x :: u32) k \<longleftrightarrow> odd (unat x div 2 ^ k)"
proof -
  have "bit (unat x) k = bit x k"
    by (simp add: bit_unsigned_iff bit_imp_le_length)
  then show ?thesis by (simp add: bit_iff_odd)
qed

lemma base_power_two: "base ^ l = 2 ^ (32 * l)"
  by (simp add: base_def power_mult)

lemma nval_split:
  "l \<le> n \<Longrightarrow> \<exists>rest. nval xs n = nval xs l + base ^ l * rest"
proof (induction n)
  case (Suc n)
  show ?case
  proof (cases "l = Suc n")
    case False
    then have ln: "l \<le> n" using Suc.prems by simp
    then obtain rest where "nval xs n = nval xs l + base ^ l * rest" using Suc.IH by blast
    moreover have "base ^ n = base ^ l * base ^ (n - l)" using ln by (simp flip: power_add)
    ultimately have "nval xs (Suc n) = nval xs l + base ^ l * (rest + unat (xs ! n) * base ^ (n - l))"
      by (simp add: nval_Suc algebra_simps)
    then show ?thesis by blast
  qed (simp add: exI [of _ 0])
qed simp

lemma bit_at_limb:
  "bit_at v k \<longleftrightarrow> k div 32 < bg_count v \<and> odd (unat (bg_limbs v ! (k div 32)) div 2 ^ (k mod 32))"
proof -
  have "and (drop_bit s x) 1 \<noteq> 0 \<longleftrightarrow> bit x s" for x :: u32 and s
    by (simp add: and_one_eq bit_iff_odd_drop_bit odd_iff_mod_2_eq_one)
  then show ?thesis by (simp add: bit_at_def Let_def unat_bit)
qed

text \<open>The bits of the number are the bits of its limbs.\<close>

lemma bit_at_spec: "bit_at v k \<longleftrightarrow> odd (magv v div 2 ^ k)"
proof -
  define l where "l = k div 32"
  define s where "s = k mod 32"
  have k: "k = 32 * l + s" "s < 32" by (simp_all add: l_def s_def)
  have pk: "(2 :: nat) ^ k = base ^ l * 2 ^ s" by (simp add: k base_power_two power_add)
  have low: "bit_at v k \<longleftrightarrow> l < bg_count v \<and> odd (unat (bg_limbs v ! l) div 2 ^ s)"
    unfolding bit_at_limb l_def s_def ..
  show ?thesis
  proof (cases "l < bg_count v")
    case False
    then have "magv v < base ^ l"
      using nval_bound [of "bg_limbs v" "bg_count v"] power_increasing [of "bg_count v" l base]
      by (simp add: magv_def)
    also have "base ^ l \<le> 2 ^ k" unfolding pk by simp
    finally show ?thesis using low False by simp
  next
    case True
    then obtain rest where "magv v = nval (bg_limbs v) (Suc l) + base ^ Suc l * rest"
      using nval_split [of "Suc l" "bg_count v" "bg_limbs v"] by (auto simp: magv_def)
    then have "magv v = nval (bg_limbs v) l + base ^ l * (unat (bg_limbs v ! l) + base * rest)"
      by (simp add: nval_Suc algebra_simps)
    then have "magv v div base ^ l = unat (bg_limbs v ! l) + base * rest"
      using nval_bound [of "bg_limbs v" l] by simp
    then have "magv v div 2 ^ k = (unat (bg_limbs v ! l) + base * rest) div 2 ^ s"
      by (simp add: pk div_mult2_eq)
    also have "base * rest = 2 ^ s * (2 * (2 ^ (31 - s) * rest))"
    proof -
      have "base = 2 ^ s * (2 * 2 ^ (31 - s))"
        using k(2) unfolding base_pow(2) by (simp flip: power_Suc power_add)
      then show ?thesis by (simp add: ac_simps)
    qed
    also have "(unat (bg_limbs v ! l) + 2 ^ s * (2 * (2 ^ (31 - s) * rest))) div 2 ^ s =
        unat (bg_limbs v ! l) div 2 ^ s + 2 * (2 ^ (31 - s) * rest)" by simp
    finally show ?thesis using low True by simp
  qed
qed

lemma even_gap: "m < n \<Longrightarrow> even n \<Longrightarrow> even m \<Longrightarrow> m + 1 < (n :: nat)"
  by presburger

text \<open>Setting a clear bit adds its weight.\<close>

lemma unat_set_bit:
  assumes "even (unat (x :: u32) div 2 ^ s)" "s < 32"
  shows "unat (or x (push_bit s 1)) = unat x + 2 ^ s"
proof -
  have nb: "\<not> bit x s" using assms(1) by (simp add: unat_bit)
  have "x + push_bit s 1 = or x (push_bit s 1)"
    by (rule disjunctive_add) (use nb in \<open>auto simp: bit_simps\<close>)
  moreover have p: "unat (push_bit s (1 :: u32)) = 2 ^ s"
    unfolding unsigned_push_bit_eq using assms(2) by (simp add: push_bit_eq_mult take_bit_nat_eq_self power_strict_increasing)
  moreover have "unat x + 2 ^ s < 2 ^ 32"
  proof -
    have e: "unat x div 2 ^ s + 1 < 2 ^ (32 - s)"
    proof -
      have "unat x div 2 ^ s < 2 ^ (32 - s)"
        using unat_u32_bound [of x] assms(2) by (simp add: div_less_iff_less_mult flip: power_add)
      moreover have "even ((2 :: nat) ^ (32 - s))" using assms(2) by simp
      ultimately show ?thesis using assms(1) by (rule even_gap)
    qed
    have "unat x + 2 ^ s < (unat x div 2 ^ s + 1) * 2 ^ s + 2 ^ s"
      by (simp add: dividend_less_div_times)
    also have "\<dots> = (unat x div 2 ^ s + 1 + 1) * 2 ^ s" by simp
    also have "\<dots> \<le> 2 ^ (32 - s) * 2 ^ s" by (rule mult_le_mono1) (use e in simp)
    also have "\<dots> = 2 ^ 32" using assms(2) by (simp flip: power_add)
    finally show ?thesis .
  qed
  moreover have "unat (x + push_bit s 1) = (unat x + unat (push_bit s (1 :: u32))) mod 2 ^ 32"
    by (subst unat_word_ariths(1)) simp
  ultimately show ?thesis unfolding p by simp
qed

lemma unat_shift_in:
  assumes "unat (carry :: u64) \<le> 1"
  shows "unat (or (push_bit 1 (wide x)) carry) = 2 * unat x + unat carry"
proof -
  have one: "carry = 0 \<or> carry = 1"
    using assms by (metis One_nat_def le_Suc_eq le_zero_eq unat_0_iff unat_1 word_unat_eq_iff)
  have "unat (push_bit 1 (wide x)) = take_bit 64 (push_bit 1 (unat x))"
    unfolding unsigned_push_bit_eq by simp
  also have "\<dots> = 2 * unat x"
    unfolding push_bit_eq_mult using unat_u32_bound [of x] by (subst take_bit_nat_eq_self) simp_all
  finally have push: "unat (push_bit 1 (wide x)) = 2 * unat x" .
  have "or (push_bit 1 (wide x)) carry = push_bit 1 (wide x) + carry"
  proof (rule disjunctive_add [symmetric])
    show "\<not> bit (push_bit 1 (wide x)) n \<or> \<not> bit carry n" for n
      using one by (cases "n = 0") (auto simp only: bit_push_bit_iff bit_1_iff bit_0_eq)
  qed
  moreover have "unat (push_bit 1 (wide x) + carry) = 2 * unat x + unat carry"
    unfolding push [symmetric] by (rule unat_add_u64) (unfold push, use unat_u32_bound [of x] assms in simp)
  ultimately show ?thesis by metis
qed

section \<open>The in-place loops\<close>

lemma shift_loop:
  assumes ok: "ctx_ok c" and n: "n \<le> length xs" and c0: "unat c0 \<le> 1"
  shows "outcome (for_each [0..<n] shift_limb (xs, c0, c))
    (\<lambda>(ys, carry, c'). length ys = length xs \<and> stepping n c c' \<and> unat carry \<le> 1 \<and>
       nval ys n + unat carry * base ^ n = 2 * nval xs n + unat c0)
    (\<lambda>st (ys, carry, c'). length ys = length xs \<and> step_failed n c st c')"
proof -
  let ?I = "\<lambda>k (ys :: u32 list, carry :: u64, c'). length ys = length xs \<and> stepping k c c' \<and> unat carry \<le> 1 \<and>
      nval ys k + unat carry * base ^ k = 2 * nval xs k + unat c0 \<and> (\<forall>q \<ge> k. ys ! q = xs ! q)"
  let ?E = "\<lambda>st (ys :: u32 list, carry :: u64, c'). length ys = length xs \<and> step_failed n c st c'"
  have "outcome (for_each [0..<n] shift_limb (xs, c0, c)) (?I (length [0..<n])) ?E"
  proof (rule outcome_for_each)
    show "?I 0 (xs, c0, c)" using ok c0 by simp
    fix k st assume k: "k < length [0..<n]" and I: "?I k st"
    obtain ys carry c' where st: "st = (ys, carry, c')" by (cases st)
    obtain s c1 where step: "phy_exact_step 1 c' = (s, c1)" by fastforce
    have sp: "outcome (s, c1) (stepping (Suc k) c) (step_failed n c)"
      using step_in_loop [of k c c' n] I k step by (simp add: st)
    let ?p = "or (push_bit 1 (wide (ys ! k))) carry"
    have p: "unat ?p = 2 * unat (xs ! k) + unat carry" using unat_shift_in [of carry "ys ! k"] I by (simp add: st)
    have "unat carry \<le> 1" using I by (simp add: st)
    then have "unat ?p < 2 * base" using p unat_limb [of "xs ! k"] by linarith
    then have hb: "unat (high32 ?p) \<le> 1" using high32_less [of ?p 2] by simp
    have v: "nval (ys[k := low32 ?p]) (Suc k) + unat (high32 ?p) * base ^ Suc k = 2 * nval xs (Suc k) + unat c0"
      using store_limb [of k ys ?p] I k n p by (simp add: st nval_Suc algebra_simps)
    have idx: "[0..<n] ! k = k" using k by simp
    have eq: "shift_limb ([0..<n] ! k) st = (if s \<noteq> PHY_OK then (s, ys, carry, c1)
        else (PHY_OK, ys[k := low32 ?p], high32 ?p, c1))"
      unfolding st shift_limb_def prod.case step Let_def idx ..
    show "outcome (shift_limb ([0..<n] ! k) st) (?I (Suc k)) ?E"
      unfolding eq using sp v hb I by (simp add: st)
  qed
  then show ?thesis by (rule outcome_mono) auto
qed

lemma sub_in_place_loop:
  fixes r :: phy_bigint
  assumes ok: "ctx_ok c" and n: "n \<le> length xs"
  shows "outcome (for_each [0..<n] (sub_in_place_limb r) (xs, 0, c))
    (\<lambda>(ys, borrow, c'). length ys = length xs \<and> stepping n c c' \<and> unat borrow \<le> 1 \<and>
       nval ys n + nval_to (bg_limbs r) (bg_count r) n = nval xs n + unat borrow * base ^ n)
    (\<lambda>st (ys, borrow, c'). length ys = length xs \<and> step_failed n c st c')"
proof -
  let ?R = "nval_to (bg_limbs r) (bg_count r)"
  let ?I = "\<lambda>k (ys :: u32 list, borrow :: u64, c'). length ys = length xs \<and> stepping k c c' \<and> unat borrow \<le> 1 \<and>
      nval ys k + ?R k = nval xs k + unat borrow * base ^ k \<and> (\<forall>q \<ge> k. ys ! q = xs ! q)"
  let ?E = "\<lambda>st (ys :: u32 list, borrow :: u64, c'). length ys = length xs \<and> step_failed n c st c'"
  have "outcome (for_each [0..<n] (sub_in_place_limb r) (xs, 0, c)) (?I (length [0..<n])) ?E"
  proof (rule outcome_for_each)
    show "?I 0 (xs, 0, c)" using ok by simp
    fix k st assume k: "k < length [0..<n]" and I: "?I k st"
    obtain ys borrow c' where st: "st = (ys, borrow, c')" by (cases st)
    obtain s c1 where step: "phy_exact_step 1 c' = (s, c1)" by fastforce
    have sp: "outcome (s, c1) (stepping (Suc k) c) (step_failed n c)"
      using step_in_loop [of k c c' n] I k step by (simp add: st)
    let ?b = "limb_at (bg_limbs r) (bg_count r) k" and ?a = "ys ! k"
    let ?s = "?b + borrow" and ?d = "if wide ?a < ?b + borrow then 1 else 0 :: u64"
    have a: "?a = xs ! k" using I by (simp add: st)
    have b: "unat ?b < base" "unat borrow \<le> 1" using unat_limb_at_bound I by (simp_all add: st)
    then have s: "unat ?s = unat ?b + unat borrow" "unat ?s \<le> base"
      using unat_add_u64 [of ?b borrow] by (simp_all add: base_def)
    have d1: "unat ?d \<le> 1" by simp
    have bl: "unat (low32 (wide ?a - ?s)) + (unat ?b + unat borrow) = unat ?a + unat ?d * base"
      using borrow_limb [OF s(2), of ?a] s(1) by simp
    have v: "nval (ys[k := low32 (wide ?a - ?s)]) (Suc k) + ?R (Suc k) = nval xs (Suc k) + unat ?d * base ^ Suc k"
    proof -
      have "nval (ys[k := low32 (wide ?a - ?s)]) (Suc k) + ?R (Suc k) =
          nval ys k + ?R k + (unat (low32 (wide ?a - ?s)) + unat ?b) * base ^ k"
        using I k n by (simp add: st nval_Suc nval_to_Suc algebra_simps)
      also have "\<dots> = nval xs k + (unat (low32 (wide ?a - ?s)) + (unat ?b + unat borrow)) * base ^ k"
        using I by (simp add: st algebra_simps)
      also have "\<dots> = nval xs k + (unat ?a + unat ?d * base) * base ^ k" unfolding bl ..
      also have "\<dots> = nval xs (Suc k) + unat ?d * base ^ Suc k" unfolding a by (simp add: nval_Suc algebra_simps)
      finally show ?thesis .
    qed
    have idx: "[0..<n] ! k = k" using k by simp
    have eq: "sub_in_place_limb r ([0..<n] ! k) st = (if s \<noteq> PHY_OK then (s, ys, borrow, c1)
        else (PHY_OK, ys[k := low32 (wide ?a - ?s)], ?d, c1))"
      unfolding st sub_in_place_limb_def prod.case step Let_def idx ..
    show "outcome (sub_in_place_limb r ([0..<n] ! k) st) (?I (Suc k)) ?E"
      unfolding eq using sp d1 v I by (simp add: st)
  qed
  then show ?thesis by (rule outcome_mono) auto
qed

text \<open>
  The one-limb division, counting down: what is above the index is already divided. One
  step of the balance between dividend, quotient and carry:
\<close>

lemma div_balance:
  fixes small x :: u32
  assumes cb: "unat carry < unat small" and j: "j < n" "j < length ys"
    and old: "D + unat small * nval ys (Suc j) = nval ds (Suc j) + base ^ Suc j * unat carry + unat small * nval ys n"
    and x: "x = ds ! j"
  defines "q \<equiv> low32 (join32 carry x div wide small)" and "r \<equiv> join32 carry x mod wide small"
  shows "unat r < unat small"
    "D + unat small * nval (ys[j := q]) j = nval ds j + base ^ j * unat r + unat small * nval (ys[j := q]) n"
proof -
  let ?m = "unat small" and ?cur = "join32 carry x"
  have "unat carry < 2 ^ 32" using cb unat_u32_bound [of small] by linarith
  then have cur: "unat ?cur = unat carry * base + unat x" using unat_join32 by (simp add: base_def)
  have "unat ?cur < ?m * base"
  proof -
    have "unat ?cur < unat carry * base + base" using cur unat_limb [of x] by linarith
    also have "\<dots> = Suc (unat carry) * base" by simp
    also have "\<dots> \<le> ?m * base" using cb by (intro mult_le_mono1) simp
    finally show ?thesis .
  qed
  then have "unat (?cur div wide small) < base"
    by (simp add: unat_div less_mult_imp_div_less mult.commute)
  then have qu: "unat q = unat ?cur div ?m"
    unfolding q_def unat_low32 base_pow(1) by (simp add: unat_div)
  have ru: "unat r = unat ?cur mod ?m" by (simp add: r_def unat_mod)
  show "unat r < ?m" unfolding ru using cb by simp
  have qr: "?m * unat q + unat r = unat carry * base + unat x" unfolding qu ru cur [symmetric] by simp
  have "(?m * unat q + unat r) * base ^ j = (unat carry * base + unat x) * base ^ j" unfolding qr ..
  then have "?m * (unat q * base ^ j) + base ^ j * unat r = base ^ Suc j * unat carry + unat x * base ^ j"
    by (simp add: algebra_simps)
  moreover have up: "nval (ys[j := q]) n + unat (ys ! j) * base ^ j = nval ys n + unat q * base ^ j"
    using nval_update [OF j] .
  then have "?m * nval (ys[j := q]) n + ?m * (unat (ys ! j) * base ^ j) = ?m * nval ys n + ?m * (unat q * base ^ j)"
    by (metis distrib_left)
  moreover have "D + ?m * (nval ys j + unat (ys ! j) * base ^ j) =
      nval ds j + unat x * base ^ j + base ^ Suc j * unat carry + ?m * nval ys n"
    using old unfolding nval_Suc x by simp
  ultimately show "D + ?m * nval (ys[j := q]) j = nval ds j + base ^ j * unat r + ?m * nval (ys[j := q]) n"
    by (simp add: distrib_left)
qed

lemma div_loop:
  fixes d :: phy_bigint and small :: u32
  assumes ok: "ctx_ok c" and n: "n \<le> length xs" and s0: "small \<noteq> 0"
  shows "outcome (for_each (rev [0..<n]) (div_limb d small) (xs, 0, c))
    (\<lambda>(ys, carry, c'). length ys = length xs \<and> stepping n c c' \<and> unat carry < unat small \<and>
       nval (bg_limbs d) n = unat small * nval ys n + unat carry)
    (\<lambda>st (ys, carry, c'). length ys = length xs \<and> step_failed n c st c')"
proof -
  let ?D = "nval (bg_limbs d)" and ?m = "unat small"
  let ?I = "\<lambda>k (ys :: u32 list, carry :: u64, c'). length ys = length xs \<and> stepping k c c' \<and> unat carry < ?m \<and>
      ?D n + ?m * nval ys (n - k) = ?D (n - k) + base ^ (n - k) * unat carry + ?m * nval ys n"
  let ?E = "\<lambda>st (ys :: u32 list, carry :: u64, c'). length ys = length xs \<and> step_failed n c st c'"
  have sm: "0 < ?m" using s0 by (simp add: unat_gt_0)
  have "outcome (for_each (rev [0..<n]) (div_limb d small) (xs, 0, c)) (?I (length (rev [0..<n]))) ?E"
  proof (rule outcome_for_each)
    show "?I 0 (xs, 0, c)" using ok sm by simp
    fix k st assume k: "k < length (rev [0..<n])" and I: "?I k st"
    obtain ys carry c' where st: "st = (ys, carry, c')" by (cases st)
    obtain s c1 where step: "phy_exact_step 1 c' = (s, c1)" by fastforce
    have sp: "outcome (s, c1) (stepping (Suc k) c) (step_failed n c)"
      using step_in_loop [of k c c' n] I k step by (simp add: st)
    define j where "j = n - Suc k"
    have j: "n - k = Suc j" "n - Suc k = j" "j < n" "j < length ys" using k n I by (auto simp: j_def st)
    have idx: "rev [0..<n] ! k = j" using k by (simp add: rev_nth j_def)
    let ?cur = "join32 carry (bg_limbs d ! j)"
    let ?q = "low32 (?cur div wide small)" and ?r = "?cur mod wide small"
    have cb: "unat carry < ?m" and old: "?D n + ?m * nval ys (Suc j) = ?D (Suc j) + base ^ Suc j * unat carry + ?m * nval ys n"
      using I unfolding st prod.case j(1) by simp_all
    note bal = div_balance [OF cb j(3,4) old refl]
    have eq: "div_limb d small (rev [0..<n] ! k) st = (if s \<noteq> PHY_OK then (s, ys, carry, c1)
        else (PHY_OK, ys[j := ?q], ?r, c1))"
      unfolding st div_limb_def prod.case step Let_def idx ..
    have "?I (Suc k) (ys[j := ?q], ?r, c1)" if "s = PHY_OK"
      unfolding prod.case j(2) using sp bal I that by (simp add: st)
    then show "outcome (div_limb d small (rev [0..<n] ! k) st) (?I (Suc k)) ?E"
      unfolding eq using sp I by (simp add: st)
  qed
  then show ?thesis by (rule outcome_mono) (auto simp: add.commute)
qed

section \<open>Operations on the quotient and the remainder\<close>

text \<open>\<open>shift_left_one\<close> doubles a value and adds the bit, if the reserve succeeds.\<close>

lemma top_bit:
  "and (x :: u32) 0x80000000 \<noteq> 0 \<longleftrightarrow> 2 ^ 31 \<le> unat x"
proof -
  have "and x (push_bit 31 1) \<noteq> 0 \<longleftrightarrow> bit x 31"
    by (metis bit_iff_and_push_bit_not_eq_0)
  moreover have "push_bit 31 (1 :: u32) = 0x80000000" by simp
  moreover have "bit x 31 \<longleftrightarrow> odd (unat x div 2 ^ 31)" by (rule unat_bit)
  moreover have "unat x div 2 ^ 31 < 2" using unat_u32_bound [of x] by simp
  moreover have "odd m \<longleftrightarrow> 1 \<le> m" if "m < 2" for m :: nat using that by (auto simp: less_2_cases_iff)
  moreover have "1 \<le> unat x div 2 ^ 31 \<longleftrightarrow> 2 ^ 31 \<le> unat x" by (simp add: less_eq_div_iff_mult_less_eq)
  ultimately show ?thesis by metis
qed

lemma shift_left_one_spec:
  assumes ok: "ctx_ok c" and v: "phy_bigint_shallow_valid c v" "limb_bytes v \<le> ec_bytes c" "0 \<le> bg_sign v"
  shows "outcome (shift_left_one b (v, c))
    (\<lambda>(v', c'). moved (bg_count v) v c v' c' \<and> phy_bigint_shallow_valid c' v' \<and> 0 \<le> bg_sign v' \<and>
       magv v' = 2 * magv v + of_bool b)
    (\<lambda>st (v', c'). moved (bg_count v) v c v' c' \<and> resource_failure c st)"
proof -
  let ?n = "bg_count v"
  define grows where "grows = (?n = 0 \<or> and (bg_limbs v ! (?n - 1)) 0x80000000 \<noteq> 0)"
  define need where "need = ?n + (if grows then 1 else 0)"
  let ?c0 = "if b then 1 else 0 :: u64"
  obtain st v1 c1 where rs: "phy_bigint_reserve need (v, c) = (st, v1, c1)" by (cases "phy_bigint_reserve need (v, c)")
  note res = reserve_spec [OF ok v(1,2), of need, unfolded rs]
  obtain s2 ys carry c2 where lp: "for_each [0..<bg_count v1] shift_limb (bg_limbs v1, ?c0, c1) = (s2, ys, carry, c2)"
    by (cases "for_each [0..<bg_count v1] shift_limb (bg_limbs v1, ?c0, c1)")
  let ?zs = "if carry \<noteq> 0 then ys[bg_count v1 := low32 carry] else ys"
  let ?k = "if carry \<noteq> 0 then bg_count v1 + 1 else bg_count v1"
  let ?s = "if ?k \<noteq> 0 then 1 else bg_sign v1"
  have eq: "shift_left_one b (v, c) = (if st \<noteq> PHY_OK then (st, v1, c1)
      else if s2 \<noteq> PHY_OK then (s2, v1\<lparr>bg_limbs := ys\<rparr>, c2)
      else (PHY_OK, v1\<lparr>bg_limbs := ?zs, bg_count := ?k, bg_sign := ?s\<rparr>, c2))"
    unfolding shift_left_one_def Let_def fst_conv grows_def [symmetric] need_def [symmetric] rs prod.case lp ..
  show ?thesis
  proof (cases "st = PHY_OK")
    case False
    then have "moved 0 v c v1 c1" "shortage 0 need (8 * need) c st" using res by auto
    then show ?thesis unfolding eq using False by (auto intro: moved_mono shortage_resource)
  next
    case True
    then have m1: "moved 0 v c v1 c1" "need \<le> capacity v1" "bg_count v1 = ?n" "bg_sign v1 = bg_sign v"
      "\<forall>i < ?n. bg_limbs v1 ! i = bg_limbs v ! i" using res by auto
    have ok1: "ctx_ok c1" using moved_handle [OF m1(1)] by simp
    have cap: "bg_count v1 \<le> length (bg_limbs v1)" using m1(2,3) by (simp add: need_def)
    have c0: "unat ?c0 \<le> 1" by simp
    note loop = shift_loop [OF ok1 cap c0, unfolded lp]
    have mv: "nval (bg_limbs v1) ?n = magv v" unfolding magv_def by (rule nval_cong) (use m1(5) in blast)
    show ?thesis
    proof (cases "s2 = PHY_OK")
      case False
      then have f: "length ys = capacity v1" "stepping ?n c1 c2" "shortage ?n 0 0 c1 s2"
        using loop m1(3) by (simp_all add: step_failed_def)
      have "moved (0 + ?n) v c (v1\<lparr>bg_limbs := ys\<rparr>) c2" by (rule moved_stepping [OF m1(1) f(2)]) (simp_all add: f(1))
      moreover have "resource_failure c s2"
        using resource_env [of c c1 s2] shortage_resource [OF f(3)] moved_handle [OF m1(1)] by blast
      ultimately show ?thesis unfolding eq using True False by simp
    next
      case ok2: True
      then have y: "length ys = capacity v1" "stepping ?n c1 c2" "unat carry \<le> 1"
        "nval ys ?n + unat carry * base ^ ?n = 2 * magv v + of_bool b"
        using loop m1(3) mv by (cases b; simp)+
      have lc: "unat (low32 carry) = unat carry" unfolding unat_low32 using y(3) by simp
      have grow: "carry = 0" if "\<not> grows"
      proof (rule ccontr)
        assume "carry \<noteq> 0"
        then have u: "unat carry = 1" using y(3) by (metis le_antisym One_nat_def Suc_leI unat_gt_0)
        have n0: "?n \<noteq> 0" and hi: "unat (bg_limbs v ! (?n - 1)) < 2 ^ 31"
          using that top_bit [of "bg_limbs v ! (?n - 1)"] by (auto simp: grows_def not_le)
        have "magv v = nval (bg_limbs v) (?n - 1) + unat (bg_limbs v ! (?n - 1)) * base ^ (?n - 1)"
          using n0 nval_Suc [of "bg_limbs v" "?n - 1"] by (simp add: magv_def)
        also have "\<dots> < base ^ (?n - 1) + unat (bg_limbs v ! (?n - 1)) * base ^ (?n - 1)"
          using nval_bound by simp
        also have "\<dots> = Suc (unat (bg_limbs v ! (?n - 1))) * base ^ (?n - 1)" by simp
        also have "\<dots> \<le> 2 ^ 31 * base ^ (?n - 1)" by (rule mult_le_mono1) (use hi in simp)
        finally have "2 * magv v + 2 \<le> 2 * (2 ^ 31 * base ^ (?n - 1))" by linarith
        also have "\<dots> = base ^ ?n" using n0 by (cases ?n) (simp_all add: base_def)
        finally show False using y(4) u by (cases b) simp_all
      qed
      have room: "?k \<le> capacity v1" using grow m1(2,3) by (cases grows) (auto simp: need_def)
      have kn: "carry \<noteq> 0 \<Longrightarrow> ?n < length ys" using room y(1) m1(3) by simp
      have val: "nval ?zs ?k = 2 * magv v + of_bool b"
        using y(4) lc m1(3) kn by (auto simp: nval_Suc)
      have top: "?k \<noteq> 0 \<Longrightarrow> ?zs ! (?k - 1) \<noteq> 0"
      proof (cases "carry = 0")
        case False
        then have "low32 carry \<noteq> 0" using lc by (metis unat_eq_0)
        then show ?thesis using False kn m1(3) by simp
      next
        case zero: True
        assume "?k \<noteq> 0"
        then have n0: "0 < ?n" using zero m1(3) by simp
        show "?zs ! (?k - 1) \<noteq> 0"
        proof
          assume "?zs ! (?k - 1) = 0"
          then have "nval ys ?n = nval ys (?n - 1)"
            using zero m1(3) n0 nval_Suc [of ys "?n - 1"] by simp
          then have "nval ys ?n < base ^ (?n - 1)" using nval_bound [of ys "?n - 1"] by simp
          moreover have "base ^ (?n - 1) \<le> magv v"
            using v(1) n0 nval_top [OF n0, of "bg_limbs v"] by (simp add: magv_def phy_bigint_shallow_valid_def)
          ultimately show False using y(4) zero by simp
        qed
      qed
      let ?v = "v1\<lparr>bg_limbs := ?zs, bg_count := ?k, bg_sign := ?s\<rparr>"
      have len: "length ?zs = capacity v1" using y(1) by simp
      have "moved (0 + ?n) v c ?v c2" by (rule moved_stepping [OF m1(1) y(2)]) (simp_all add: y(1))
      then have mv2: "moved ?n v c ?v c2" by simp
      have hv: "phy_bigint_handle_valid c2 v1"
        using moved_handle [OF mv2] by (simp add: phy_bigint_handle_valid_def)
      have cl: "length ?zs \<le> max_limbs (ec_limits c2)" using moved_handle [OF mv2] by simp
      have s0: "?k = 0 \<Longrightarrow> ?s = 0" using m1(3,4) v(1) by (auto simp: phy_bigint_shallow_valid_def split: if_splits)
      have "?k \<le> length ?zs" using room len by simp
      from value_of_limbs(1) [OF hv this cl _ s0] top have "phy_bigint_shallow_valid c2 ?v" by simp
      moreover have "0 \<le> bg_sign ?v" using m1(4) v(3) by simp
      moreover have "magv ?v = 2 * magv v + of_bool b" using val by (simp add: magv_def)
      ultimately show ?thesis unfolding eq using True ok2 mv2 by simp
    qed
  qed
qed

lemma subtract_in_place_spec:
  assumes ok: "ctx_ok c" and v: "phy_bigint_shallow_valid c v" "0 \<le> bg_sign v"
    and d: "phy_bigint_shallow_valid c d" and le: "magv d \<le> magv v"
  shows "outcome (subtract_abs_in_place d (v, c))
    (\<lambda>(v', c'). moved (bg_count v) v c v' c' \<and> phy_bigint_shallow_valid c' v' \<and> 0 \<le> bg_sign v' \<and>
       magv v' = magv v - magv d)
    (\<lambda>st (v', c'). moved (bg_count v) v c v' c' \<and> resource_failure c st)"
proof -
  let ?n = "bg_count v"
  have cap: "?n \<le> length (bg_limbs v)" using v(1) by (simp add: phy_bigint_shallow_valid_def)
  obtain s ys borrow c1 where lp: "for_each [0..<?n] (sub_in_place_limb d) (bg_limbs v, 0, c) = (s, ys, borrow, c1)"
    by (cases "for_each [0..<?n] (sub_in_place_limb d) (bg_limbs v, 0, c)")
  note loop = sub_in_place_loop [OF ok cap, of d, unfolded lp]
  have m0: "moved 0 v c v c" by (rule moved_refl [OF ok v(1)])
  have mv: "moved ?n v c (v\<lparr>bg_limbs := ys\<rparr>) c1" if "length ys = length (bg_limbs v)" "stepping ?n c c1"
    using moved_stepping [OF m0 that(2), of "v\<lparr>bg_limbs := ys\<rparr>"] that(1) by simp
  show ?thesis
  proof (cases "s = PHY_OK")
    case False
    then show ?thesis using loop mv shortage_resource
      by (auto simp: subtract_abs_in_place_def lp step_failed_def)
  next
    case True
    have cnt: "bg_count d \<le> ?n"
    proof (rule ccontr)
      assume "\<not> bg_count d \<le> ?n"
      then have "magv v < magv d"
        unfolding magv_def using d by (intro nval_count_less) (auto simp: phy_bigint_shallow_valid_def)
      then show False using le by simp
    qed
    have y: "length ys = length (bg_limbs v)" "stepping ?n c c1"
      "nval ys ?n + magv d = magv v + unat borrow * base ^ ?n"
      using loop True cnt by (simp_all add: nval_to_full magv_def)
    have b0: "borrow = 0"
    proof (rule ccontr)
      assume "borrow \<noteq> 0"
      then have "1 * base ^ ?n \<le> unat borrow * base ^ ?n"
        by (intro mult_le_mono1) (simp add: unat_gt_0 Suc_le_eq)
      then show False using y(3) nval_bound [of ys ?n] le by linarith
    qed
    let ?w = "v\<lparr>bg_limbs := ys\<rparr>"
    let ?u = "phy_bigint_normalize ?w"
    have mw: "magv ?w = magv v - magv d" using y(3) b0 by (simp add: magv_def)
    have hw: "phy_bigint_handle_valid c1 ?w" "capacity ?w \<le> max_limbs (ec_limits c1)" "bg_count ?w \<le> capacity ?w"
      using moved_handle [OF mv [OF y(1,2)]] y(1) cap by simp_all
    have sg: "bg_sign ?w = 1 \<or> bg_sign ?w = - 1 \<or> magv ?w = 0"
      using v by (auto simp: phy_bigint_shallow_valid_def magv_def split: if_splits)
    have uv: "phy_bigint_shallow_valid c1 ?u" by (rule normalize_valid(1) [OF hw(1,3,2) sg])
    have us: "bg_sign ?u = (if bg_count ?u = 0 then 0 else bg_sign v)"
      by (simp add: phy_bigint_normalize_def Let_def)
    have eq: "(if bg_count ?u \<noteq> 0 then ?u\<lparr>bg_sign := 1\<rparr> else ?u) = ?u"
    proof (cases "bg_count ?u = 0")
      case False
      then have "bg_sign ?u = 1" using us uv v(2) by (auto simp: phy_bigint_shallow_valid_def split: if_splits)
      then show ?thesis by (simp add: phy_bigint.surjective)
    qed simp
    have "moved ?n v c ?u c1" using mv [OF y(1,2)] by (simp add: moved_def phy_bigint_handle_valid_def)
    moreover have "0 \<le> bg_sign ?u" using us v(2) by simp
    moreover have "subtract_abs_in_place d (v, c) = (PHY_OK, ?u, c1)"
      using True b0 eq by (simp add: subtract_abs_in_place_def lp Let_def)
    ultimately show ?thesis using uv mw by simp
  qed
qed

lemma zero_fill_spec:
  "limb < length xs \<Longrightarrow> zero_fill limb (xs, n) = (ys, m) \<Longrightarrow>
    length ys = length xs \<and> m = max n (Suc limb) \<and> nval ys m = nval xs n \<and>
    (\<forall>i < n. ys ! i = xs ! i) \<and> (n \<le> limb \<longrightarrow> ys ! limb = 0)"
proof (induction "Suc limb - n" arbitrary: xs n)
  case 0
  then have "zero_fill limb (xs, n) = (xs, n)" "\<not> n \<le> limb" by (auto simp: zero_fill.simps)
  then show ?case using 0 by auto
next
  case (Suc j)
  then have n: "n \<le> limb" by simp
  then have z: "zero_fill limb (xs[n := 0], Suc n) = (ys, m)" using Suc.prems(2) by (subst (asm) zero_fill.simps) simp
  have "j = Suc limb - Suc n" using Suc.hyps(2) by simp
  moreover have "limb < length (xs[n := 0])" using Suc.prems(1) by simp
  moreover note z
  ultimately have hyp: "length ys = length (xs[n := 0]) \<and> m = max (Suc n) (Suc limb) \<and>
      nval ys m = nval (xs[n := 0]) (Suc n) \<and> (\<forall>i < Suc n. ys ! i = xs[n := 0] ! i) \<and> (Suc n \<le> limb \<longrightarrow> ys ! limb = 0)"
    by (rule Suc.hyps(1))
  then have ih: "length ys = length xs" "m = max (Suc n) (Suc limb)" "nval ys m = nval (xs[n := 0]) (Suc n)"
    "\<forall>i < Suc n. ys ! i = xs[n := 0] ! i" "Suc n \<le> limb \<longrightarrow> ys ! limb = 0"
    unfolding length_list_update by blast+
  have "ys ! limb = 0" using ih(4,5) n Suc.prems(1) by (cases "n = limb") auto
  moreover have "nval (xs[n := 0]) (Suc n) = nval xs n" using n Suc.prems(1) by (simp add: nval_Suc)
  moreover have "\<forall>i < n. ys ! i = xs ! i" using ih(4) by simp
  moreover have "m = max n (Suc limb)" using ih(2) n by simp
  ultimately show ?case using ih(1,3) by metis
qed

lemma bigint_set_bit_spec:
  assumes v: "phy_bigint_shallow_valid c v" "0 \<le> bg_sign v"
    and k: "k div 32 < capacity v" and ev: "even (magv v div 2 ^ k)"
  shows "\<exists>v'. bigint_set_bit k (v, c) = (PHY_OK, v', c) \<and> phy_bigint_shallow_valid c v' \<and> bg_sign v' = 1 \<and>
    magv v' = magv v + 2 ^ k \<and> capacity v' = capacity v \<and> bg_owner v' = bg_owner v \<and> bg_live v' = bg_live v"
proof -
  define l where "l = k div 32"
  define s where "s = k mod 32"
  have lc: "l < length (bg_limbs v)" and s: "s < 32" using k by (simp_all add: l_def s_def)
  have ks: "(2 :: nat) ^ k = 2 ^ s * base ^ l"
    unfolding base_power_two by (simp add: l_def s_def flip: power_add)
  have rs: "phy_bigint_reserve (l + 1) (v, c) = (PHY_OK, v, c)"
    using v lc by (simp add: phy_bigint_reserve_def)
  obtain ys m where zf: "zero_fill l (bg_limbs v, bg_count v) = (ys, m)" by fastforce
  from zero_fill_spec [OF lc zf] have y: "length ys = capacity v" "m = max (bg_count v) (Suc l)"
    "nval ys m = magv v" "\<forall>i < bg_count v. ys ! i = bg_limbs v ! i" "bg_count v \<le> l \<longrightarrow> ys ! l = 0"
    unfolding magv_def by blast+
  have bit0: "even (unat (ys ! l) div 2 ^ s)"
  proof (cases "l < bg_count v")
    case True
    have "\<not> bit_at v k" using ev by (simp add: bit_at_spec)
    then show ?thesis using True y(4) by (simp add: bit_at_limb flip: l_def s_def)
  qed (use y(5) in simp)
  let ?z = "or (ys ! l) (push_bit s 1)"
  have z: "unat ?z = unat (ys ! l) + 2 ^ s" by (rule unat_set_bit [OF bit0 s])
  let ?zs = "ys[l := ?z]"
  have lm: "l < m" "l < length ys" using y(1,2) lc by simp_all
  have val: "nval ?zs m = magv v + 2 ^ k"
    using nval_update [OF lm, of ?z] y(3) z by (simp add: ks algebra_simps)
  have znz: "?z \<noteq> 0" using z by (metis add_is_0 power_not_zero unat_0 zero_neq_numeral)
  have top: "?zs ! (m - 1) \<noteq> 0"
  proof (cases "l = m - 1")
    case True
    then show ?thesis using znz lm by simp
  next
    case False
    then have m: "m = bg_count v" "0 < bg_count v" "l \<noteq> m - 1" using y(2) by (auto simp: max_def split: if_splits)
    then have "?zs ! (m - 1) = bg_limbs v ! (bg_count v - 1)" using y(4) by simp
    then show ?thesis using v(1) m(2) by (simp add: phy_bigint_shallow_valid_def)
  qed
  let ?v = "v\<lparr>bg_limbs := ?zs, bg_count := m, bg_sign := 1\<rparr>"
  have "bigint_set_bit k (v, c) = (PHY_OK, ?v, c)"
    unfolding bigint_set_bit_def Let_def l_def [symmetric] s_def [symmetric] rs prod.case zf by simp
  moreover have "phy_bigint_shallow_valid c ?v"
  proof (rule value_of_limbs(1))
    show "phy_bigint_handle_valid c v" "length ?zs \<le> max_limbs (ec_limits c)" "m \<le> length ?zs"
      using v(1) y(1,2) lc by (simp_all add: phy_bigint_shallow_valid_def)
  qed (use top lm in auto)
  ultimately show ?thesis using val y(1) by (simp add: magv_def)
qed

end
