(* ===== verification/BigintDivmod.thy ===== *)
theory BigintDivmod
  imports BigintDiv
begin

text \<open>
  Correctness of the division of \<open>src/exact/integer.c\<close>: the bit-by-bit division keeps
  quotient, remainder and the bits still to come in balance; signed division truncates;
  exact division rejects a remainder.
\<close>

section \<open>Long division\<close>

lemma held_stepping:
  assumes h: "held c0 vs c" and s: "stepping k c c'"
  shows "held c0 vs c'"
proof -
  have sp: "spent k c c'" "ec_bytes c' = ec_bytes c" using s by (simp_all add: stepping_def)
  have e: "same_env c c'" "ec_limits c = ec_limits c0" using spentD(1) [OF sp(1)] h
    by (auto simp: held_def holding_def dest: spentD)
  have "spent (max_steps (ec_limits c0)) c0 c" using h by (simp add: held_def holding_def)
  from spent_all [OF spent_trans [OF this sp(1)]] have "spent (max_steps (ec_limits c0)) c0 c'" .
  then show ?thesis
    using h sp(2) handle_valid_env [OF e(1)] shallow_valid_env [OF e(1)] by (simp add: held_def holding_def)
qed

lemma held_holding: "held c0 vs c \<Longrightarrow> holding c0 vs c"
  by (simp add: held_def)

lemma held_context: "held c0 vs c \<Longrightarrow> same_env c0 c \<and> ctx_ok c"
  using holding_ok by (auto simp: held_def)

text \<open>The state between two bits: \<open>k\<close> bits of the dividend \<open>D\<close> are still to come.\<close>

definition dividing ::
  "phy_exact_context \<Rightarrow> nat \<Rightarrow> nat \<Rightarrow> nat \<Rightarrow> nat \<Rightarrow> phy_bigint \<times> phy_bigint \<times> phy_exact_context \<Rightarrow> bool" where
  "dividing c0 D d n k st \<longleftrightarrow> (case st of (q, r, c) \<Rightarrow>
     held c0 [q, r] c \<and> n \<le> capacity q \<and> 0 \<le> bg_sign q \<and> 0 \<le> bg_sign r \<and> magv r < d \<and>
     2 ^ k dvd magv q \<and> D div 2 ^ k = (magv q div 2 ^ k) * d + magv r)"

lemma div_bit_spec:
  assumes I: "dividing c0 (magv a) (magv d) n (Suc k) (q, r, c)" and k: "k div 32 < n"
    and d: "phy_bigint_shallow_valid c0 d"
  shows "outcome (div_bit a d k (q, r, c)) (dividing c0 (magv a) (magv d) n k)
    (\<lambda>st (q', r', c'). holding c0 [q', r'] c' \<and> resource_failure c0 st)"
proof -
  let ?E = "\<lambda>st (q', r', c'). holding c0 [q', r'] c' \<and> resource_failure c0 st"
  let ?D = "magv a" and ?d = "magv d" and ?b = "bit_at a k"
  have h: "held c0 [q, r] c" and i: "n \<le> capacity q" "0 \<le> bg_sign q" "0 \<le> bg_sign r" "magv r < ?d"
    "2 ^ Suc k dvd magv q" "?D div 2 ^ Suc k = (magv q div 2 ^ Suc k) * ?d + magv r"
    using I by (simp_all add: dividing_def)
  obtain s1 c1 where step: "phy_exact_step 1 c = (s1, c1)" by fastforce
  have eq: "div_bit a d k (q, r, c) =
      (if s1 \<noteq> PHY_OK then (s1, q, r, c1)
       else case shift_left_one ?b (r, c1) of (status2, r2, c2) \<Rightarrow>
       if status2 = PHY_OK \<and> 0 \<le> phy_bigint_compare_abs c2 r2 d then
         (case subtract_abs_in_place d (r2, c2) of (status3, r3, c3) \<Rightarrow>
            if status3 \<noteq> PHY_OK then (status3, q, r3, c3)
            else case bigint_set_bit k (q, c3) of (status4, q4, c4) \<Rightarrow> (status4, q4, r3, c4))
       else (status2, q, r2, c2))"
    unfolding div_bit_def prod.case step ..
  note st1 = step_one [OF held_first(1) [OF h], unfolded step]
  show ?thesis
  proof (cases "s1 = PHY_OK")
    case False
    then have "stepping 1 c c1" "shortage 1 0 0 c s1" using st1 by (simp_all add: step_failed_def)
    then show ?thesis using held_holding [OF held_stepping [OF h]] held_resource [OF h] False
      by (auto simp: eq)
  next
    case s1: True
    then have h1: "held c0 [q, r] c1" using st1 held_stepping [OF h] by simp
    obtain s2 r2 c2 where sh: "shift_left_one ?b (r, c1) = (s2, r2, c2)" by (metis prod_cases3)
    note sp2 = shift_left_one_spec [OF held_first(1) [OF h1] held_second(2,3) [OF h1] i(3), of ?b, unfolded sh]
    have e1: "same_env c0 c1" by (rule held_first(4) [OF h1])
    show ?thesis
    proof (cases "s2 = PHY_OK")
      case False
      then have m: "moved (bg_count r) r c1 r2 c2" "resource_failure c1 s2" using sp2 by auto
      have "holding c0 ([q] @ r # []) c1" using h1 by (simp add: held_def)
      from holding_moved [OF this m(1)] show ?thesis
        using False s1 m(2) resource_env [OF e1] by (simp add: eq sh)
    next
      case s2: True
      then have m2: "moved (bg_count r) r c1 r2 c2" "phy_bigint_shallow_valid c2 r2" "0 \<le> bg_sign r2"
        "magv r2 = 2 * magv r + of_bool ?b" using sp2 by auto
      have h2: "held c0 [q, r2] c2" by (rule held_moved_second [OF h1 m2(1,2)])
      have e2: "same_env c0 c2" by (rule held_first(4) [OF h2])
      have d2: "phy_bigint_shallow_valid c2 d" using d shallow_valid_env [OF e2] by blast
      have half: "m div 2 ^ Suc k = m div 2 ^ k div 2" for m :: nat unfolding power_Suc2 div_mult2_eq ..
      have bitk: "?D div 2 ^ k = 2 * (?D div 2 ^ Suc k) + of_bool ?b"
        unfolding half bit_at_spec by (cases "odd (?D div 2 ^ k)") auto
      obtain t where t: "magv q = 2 ^ Suc k * t" using i(5) by (elim dvdE)
      have qk: "magv q div 2 ^ k = 2 * t" "2 ^ k dvd magv q" "magv q div 2 ^ Suc k = t" unfolding t by simp_all
      have bal: "?D div 2 ^ k = 2 * t * ?d + magv r2"
        using bitk i(6) m2(4) qk(3) by (simp add: algebra_simps)
      have cmp: "0 \<le> phy_bigint_compare_abs c2 r2 d \<longleftrightarrow> ?d \<le> magv r2"
        unfolding compare_abs_spec [OF m2(2) d2] by (simp add: sgn_if)
      show ?thesis
      proof (cases "?d \<le> magv r2")
        case False
        then have "div_bit a d k (q, r, c) = (PHY_OK, q, r2, c2)"
          using s1 s2 cmp by (simp add: eq sh)
        then show ?thesis using h2 i(1,2) m2(3) False qk bal by (simp add: dividing_def)
      next
        case ge: True
        obtain s3 r3 c3 where sb: "subtract_abs_in_place d (r2, c2) = (s3, r3, c3)" by (metis prod_cases3)
        note sp3 = subtract_in_place_spec [OF held_first(1) [OF h2] m2(2,3) d2 ge, unfolded sb]
        have m3: "moved (bg_count r2) r2 c2 r3 c3" using sp3 by (auto split: if_splits)
        show ?thesis
        proof (cases "s3 = PHY_OK")
          case False
          then have "resource_failure c2 s3" using sp3 by auto
          moreover have "holding c0 ([q] @ r2 # []) c2" using h2 by (simp add: held_def)
          from holding_moved [OF this m3] have "holding c0 [q, r3] c3" by simp
          ultimately show ?thesis
            using False s1 s2 ge cmp resource_env [OF e2] by (simp add: eq sh sb)
        next
          case s3: True
          then have r3: "phy_bigint_shallow_valid c3 r3" "0 \<le> bg_sign r3" "magv r3 = magv r2 - ?d" using sp3 by auto
          have h3: "held c0 [q, r3] c3" by (rule held_moved_second [OF h2 m3 r3(1)])
          have "even (magv q div 2 ^ k)" using qk(1) by simp
          moreover have "k div 32 < capacity q" using k i(1) by simp
          ultimately obtain q' where q': "bigint_set_bit k (q, c3) = (PHY_OK, q', c3)" "phy_bigint_shallow_valid c3 q'"
            "bg_sign q' = 1" "magv q' = magv q + 2 ^ k" "capacity q' = capacity q" "bg_owner q' = bg_owner q" "bg_live q' = bg_live q"
            using bigint_set_bit_spec [OF held_first(2) [OF h3] i(2), of k] by blast
          have "held c0 [q', r3] c3" using h3 q' by (simp add: held_def holding_def phy_bigint_handle_valid_def)
          moreover have "div_bit a d k (q, r, c) = (PHY_OK, q', r3, c3)"
            using s1 s2 s3 ge cmp q'(1) by (simp add: eq sh sb)
          moreover have "2 * magv r + 1 < 2 * ?d" using i(4) by simp
          then have "magv r3 < ?d" using r3(3) m2(4) ge by (cases ?b) simp_all
          moreover have "2 ^ k dvd magv q'" using qk(2) q'(4) by simp
          moreover have "magv q' div 2 ^ k = 2 * t + 1" unfolding q'(4) using qk(1) by (subst div_add_self2) simp_all
          then have "?D div 2 ^ k = (magv q' div 2 ^ k) * ?d + magv r3"
            using bal r3(3) ge by (simp add: algebra_simps)
          ultimately show ?thesis using q'(3,5) i(1) r3(2) by (simp add: dividing_def)
        qed
      qed
    qed
  qed
qed

text \<open>All bits of the dividend, from the top.\<close>

lemma div_bits_spec:
  assumes I: "dividing c0 (magv a) (magv d) n b (q, r, c)" and b: "b \<le> 32 * n"
    and d: "phy_bigint_shallow_valid c0 d"
  shows "outcome (for_each (rev [0..<b]) (div_bit a d) (q, r, c)) (dividing c0 (magv a) (magv d) n 0)
    (\<lambda>st (q', r', c'). holding c0 [q', r'] c' \<and> resource_failure c0 st)"
proof -
  let ?I = "\<lambda>j. dividing c0 (magv a) (magv d) n (b - j)"
  have "outcome (for_each (rev [0..<b]) (div_bit a d) (q, r, c)) (?I (length (rev [0..<b])))
      (\<lambda>st (q', r', c'). holding c0 [q', r'] c' \<and> resource_failure c0 st)"
  proof (rule outcome_for_each)
    show "?I 0 (q, r, c)" using I by simp
    fix j st assume j: "j < length (rev [0..<b])" and I: "?I j st"
    obtain q r c where st: "st = (q, r, c)" by (cases st)
    have k: "b - j = Suc (b - Suc j)" "rev [0..<b] ! j = b - Suc j" using j by (simp_all add: rev_nth)
    have "(b - Suc j) div 32 < n" using j b by (simp add: div_less_iff_less_mult)
    from div_bit_spec [OF _ this d] I show "outcome (div_bit a d (rev [0..<b] ! j) st) (?I (Suc j))
        (\<lambda>st (q', r', c'). holding c0 [q', r'] c' \<and> resource_failure c0 st)"
      unfolding st k by blast
  qed
  then show ?thesis by simp
qed

section \<open>Division of magnitudes\<close>

definition abs_divided :: "phy_exact_context \<Rightarrow> phy_bigint \<Rightarrow> phy_bigint \<Rightarrow> phy_bigint \<times> phy_bigint \<times> phy_exact_context \<Rightarrow> bool" where
  "abs_divided c0 a d st \<longleftrightarrow> (case st of (q, r, c) \<Rightarrow> held c0 [q, r] c \<and> 0 \<le> bg_sign q \<and> 0 \<le> bg_sign r \<and>
     magv q = magv a div magv d \<and> magv r = magv a mod magv d)"

abbreviation held_failure :: "phy_exact_context \<Rightarrow> phy_status \<Rightarrow> phy_bigint \<times> phy_bigint \<times> phy_exact_context \<Rightarrow> bool" where
  "held_failure c0 \<equiv> \<lambda>st (q, r, c). holding c0 [q, r] c \<and> resource_failure c0 st"

lemma cleared: "bg_count q = 0 \<Longrightarrow> bg_sign q = 0 \<Longrightarrow> q\<lparr>bg_count := 0, bg_sign := 0\<rparr> = q"
  by (cases q) simp

lemma sign_of_nonneg: "phy_bigint_shallow_valid c v \<Longrightarrow> 0 \<le> ival v \<Longrightarrow> 0 \<le> bg_sign v \<and> ival v = int (magv v)"
  using valid_sign [of c v] by auto

lemma reserve_held:
  assumes h: "held c0 [q, r] c" and rs: "phy_bigint_reserve n (q, c) = (st, q1, c1)"
  shows "st = PHY_OK \<Longrightarrow> moved 0 q c q1 c1 \<and> n \<le> capacity q1 \<and> bg_count q1 = bg_count q \<and> bg_sign q1 = bg_sign q"
    "st \<noteq> PHY_OK \<Longrightarrow> held_failure c0 st (q1, r, c1)" "same_env c0 c1" "ctx_ok c1"
proof -
  note res = reserve_spec [OF held_first(1-3) [OF h], of n, unfolded rs]
  have m: "moved 0 q c q1 c1" using res by (auto split: if_splits)
  have "holding c0 ([] @ q # [r]) c" using h by (simp add: held_def)
  from holding_moved [OF this m] have h1: "holding c0 [q1, r] c1" by simp
  show "same_env c0 c1" "ctx_ok c1" using holding_ok [OF h1] by simp_all
  show "st = PHY_OK \<Longrightarrow> moved 0 q c q1 c1 \<and> n \<le> capacity q1 \<and> bg_count q1 = bg_count q \<and> bg_sign q1 = bg_sign q"
    using res by auto
  show "st \<noteq> PHY_OK \<Longrightarrow> held_failure c0 st (q1, r, c1)"
    using res h1 held_resource [OF h, of 0 n "8 * n" st] by auto
qed

text \<open>The one-limb divisor.\<close>

lemma divmod_one_limb:
  assumes h: "held c0 [q, r] c" and q0: "bg_count q = 0" "bg_sign q = 0" and r0: "bg_count r = 0" "bg_sign r = 0"
    and a: "phy_bigint_shallow_valid c0 a" and d: "phy_bigint_shallow_valid c0 d" "bg_count d = 1"
    and le: "magv d \<le> magv a"
  shows "outcome (divmod_abs a d (q, r, c)) (abs_divided c0 a d) (held_failure c0)"
proof -
  let ?n = "bg_count a" and ?m = "bg_limbs d ! 0"
  have e0: "same_env c0 c" by (rule held_first(4) [OF h])
  have ac: "phy_bigint_shallow_valid c a" "phy_bigint_shallow_valid c d"
    using a d(1) shallow_valid_env [OF e0] by blast+
  have cmp: "\<not> phy_bigint_compare_abs c a d < 0" using le unfolding compare_abs_spec [OF ac] by (simp add: sgn_if)
  have m: "magv d = unat ?m" "?m \<noteq> 0" using d by (auto simp: magv_def nval_Suc phy_bigint_shallow_valid_def)
  obtain st q1 c1 where rs: "phy_bigint_reserve ?n (q, c) = (st, q1, c1)" by (metis prod_cases3)
  note rv = reserve_held [OF h rs]
  obtain s2 ys carry c2 where lp: "for_each (rev [0..<?n]) (div_limb a ?m) (bg_limbs q1, 0, c1) = (s2, ys, carry, c2)"
    by (metis prod_cases4)
  let ?w = "q1\<lparr>bg_limbs := ys, bg_count := ?n, bg_sign := 1\<rparr>"
  let ?q = "phy_bigint_normalize ?w"
  let ?s = "if carry \<noteq> 0 then 1 else 0 :: int"
  have eq: "divmod_abs a d (q, r, c) = (if st \<noteq> PHY_OK then (st, q1, r, c1)
      else if s2 \<noteq> PHY_OK then (s2, q1\<lparr>bg_limbs := ys\<rparr>, r, c2)
      else on_second (phy_bigint_assign_u64 carry ?s) (?q, r, c2))"
    unfolding divmod_abs_def prod.case Let_def cleared [OF q0] cleared [OF r0] if_not_P [OF cmp] rs
      if_P [OF d(2)] lp ..
  show ?thesis
  proof (cases "st = PHY_OK")
    case False
    then show ?thesis using rv(2) unfolding eq by simp
  next
    case True
    then have q1: "moved 0 q c q1 c1" "?n \<le> capacity q1" using rv(1) by auto
    note loop = div_loop [OF rv(4) q1(2) m(2), of a, unfolded lp]
    have h0: "holding c0 ([] @ q # [r]) c" using h by (simp add: held_def)
    have mv: "moved ?n q c (q1\<lparr>bg_limbs := ys, bg_count := k, bg_sign := s\<rparr>) c2"
      if "length ys = capacity q1" "stepping ?n c1 c2" for k s
      using moved_stepping [OF q1(1) that(2), of "q1\<lparr>bg_limbs := ys, bg_count := k, bg_sign := s\<rparr>"] that(1) by simp
    show ?thesis
    proof (cases "s2 = PHY_OK")
      case False
      then have f: "length ys = capacity q1" "stepping ?n c1 c2" "shortage ?n 0 0 c1 s2"
        using loop by (simp_all add: step_failed_def)
      have "holding c0 ([] @ q1\<lparr>bg_limbs := ys\<rparr> # [r]) c2"
        using holding_moved [OF h0 mv [OF f(1,2), where k = "bg_count q1" and s = "bg_sign q1"]] by simp
      then show ?thesis using False True shortage_resource [OF f(3)] resource_env [OF rv(3)] unfolding eq by simp
    next
      case ok2: True
      then have y: "length ys = capacity q1" "stepping ?n c1 c2" "unat carry < unat ?m"
        "magv a = unat ?m * nval ys ?n + unat carry" using loop by (simp_all add: magv_def)
      have mw: "moved ?n q c ?w c2" by (rule mv [OF y(1,2)])
      have "phy_bigint_handle_valid c2 ?w" "bg_count ?w \<le> capacity ?w" "capacity ?w \<le> max_limbs (ec_limits c2)"
        using moved_handle [OF mw] y(1) q1(2) by simp_all
      from normalize_valid [OF this] have qv: "phy_bigint_shallow_valid c2 ?q" "ival ?q = int (magv ?w)" by simp_all
      have mq: "moved ?n q c ?q c2" using mw by (simp add: moved_def phy_bigint_handle_valid_def)
      have h2: "held c0 [?q, r] c2" by (rule held_moved_first [OF h mq qv(1)])
      have "magv ?q = nval ys ?n" unfolding normalize_magv by (simp add: magv_def)
      then have div: "magv ?q = magv a div magv d" "unat carry = magv a mod magv d"
        using y(3,4) m(1) by simp_all
      have os: "outcome (on_second (phy_bigint_assign_u64 carry ?s) (?q, r, c2))
          (\<lambda>(q', r', c'). held c0 [q', r'] c' \<and> q' = ?q \<and> ival r' = int (unat carry)) (held_failure c0)"
        by (rule on_second_held [OF h2], rule outcome_mono [OF assign_u64_spec [OF held_second(1-3) [OF h2]]]) auto
      have res: "divmod_abs a d (q, r, c) = on_second (phy_bigint_assign_u64 carry ?s) (?q, r, c2)"
        unfolding eq using True ok2 by simp
      show ?thesis unfolding res
      proof (rule outcome_mono [OF os], goal_cases)
        case (1 t)
        obtain q' r' c' where t: "t = (q', r', c')" by (cases t)
        have hh: "held c0 [?q, r'] c'" "q' = ?q" "ival r' = int (unat carry)" using 1 by (auto simp: t)
        have "0 \<le> ival r'" unfolding hh(3) by (rule of_nat_0_le_iff)
        from sign_of_nonneg [OF held_second(2) [OF hh(1)] this]
        have "0 \<le> bg_sign r'" "int (magv r') = int (unat carry)" using hh(3) by metis+
        then have "0 \<le> bg_sign r'" "magv r' = unat carry" by (simp_all only: of_nat_eq_iff)
        moreover have "0 \<le> bg_sign ?q" using sign_of_nonneg [OF qv(1)] qv(2) by simp
        ultimately show ?case using hh div by (simp add: t abs_divided_def)
      qed simp
    qed
  qed
qed

text \<open>The general case: at least two limbs in the divisor.\<close>

lemma divmod_long:
  assumes h: "held c0 [q, r] c" and q0: "bg_count q = 0" "bg_sign q = 0" and r0: "bg_count r = 0" "bg_sign r = 0"
    and a: "phy_bigint_shallow_valid c0 a" and d: "phy_bigint_shallow_valid c0 d" "bg_count d \<noteq> 1" "bg_count d \<noteq> 0"
    and le: "magv d \<le> magv a"
  shows "outcome (divmod_abs a d (q, r, c)) (abs_divided c0 a d) (held_failure c0)"
proof -
  let ?n = "bg_count a" and ?b = "phy_bigint_bit_length c a"
  have e0: "same_env c0 c" by (rule held_first(4) [OF h])
  have ac: "phy_bigint_shallow_valid c a" "phy_bigint_shallow_valid c d"
    using a d(1) shallow_valid_env [OF e0] by blast+
  have cmp: "\<not> phy_bigint_compare_abs c a d < 0" using le unfolding compare_abs_spec [OF ac] by (simp add: sgn_if)
  have dpos: "0 < magv d" using valid_sign [OF d(1)] d(3) by simp
  then have a0: "ival a \<noteq> 0" using valid_sign [OF a] le by auto
  from bit_length_spec [OF ac(1) a0] have bl: "2 ^ (?b - 1) \<le> magv a" "magv a < 2 ^ ?b" "0 < ?b" by simp_all
  have bn: "?b \<le> 32 * ?n"
  proof (rule ccontr)
    assume "\<not> ?b \<le> 32 * ?n"
    then have "(2 :: nat) ^ (32 * ?n) \<le> 2 ^ (?b - 1)" by (intro power_increasing) auto
    then show False using bl(1) nval_bound [of "bg_limbs a" ?n] unfolding magv_def base_power_two by linarith
  qed
  obtain st q1 c1 where rs: "phy_bigint_reserve ?n (q, c) = (st, q1, c1)" by (metis prod_cases3)
  note rv = reserve_held [OF h rs]
  let ?z = "q1\<lparr>bg_limbs := replicate (capacity q1) 0\<rparr>"
  obtain s2 q2 r2 c2 where lp: "for_each (rev [0..<?b]) (div_bit a d) (?z, r, c1) = (s2, q2, r2, c2)"
    by (metis prod_cases4)
  have eq: "divmod_abs a d (q, r, c) = (case (if st \<noteq> PHY_OK then (st, q1, r, c1) else (s2, q2, r2, c2)) of
      (status2, q2, r2, c2) \<Rightarrow> (status2, phy_bigint_normalize q2, phy_bigint_normalize r2, c2))"
    unfolding divmod_abs_def prod.case Let_def cleared [OF q0] cleared [OF r0] if_not_P [OF cmp] rs
      if_not_P [OF d(2)] lp ..
  have norm: "holding c0 [phy_bigint_normalize u, phy_bigint_normalize w] c'" if "holding c0 [u, w] c'" for u w c'
    using that by (simp add: holding_def phy_bigint_handle_valid_def)
  show ?thesis
  proof (cases "st = PHY_OK")
    case False
    then show ?thesis using rv(2) norm unfolding eq by simp
  next
    case True
    then have q1: "moved 0 q c q1 c1" "?n \<le> capacity q1" "bg_count q1 = 0" "bg_sign q1 = 0" using rv(1) q0 by auto
    have mz: "moved 0 q c ?z c1" using moved_limbs [OF q1(1), of "replicate (capacity q1) 0" "bg_sign q1" "bg_count q1"] by simp
    have "phy_bigint_shallow_valid c1 ?z"
      using moved_handle [OF mz] q1(3,4) by (simp add: phy_bigint_shallow_valid_def)
    from held_moved_first [OF h mz this] have hz: "held c0 [?z, r] c1" .
    have "magv ?z = 0" "magv r = 0" using q1(3) r0 by (simp_all add: magv_def)
    then have start: "dividing c0 (magv a) (magv d) ?n ?b (?z, r, c1)"
      using hz q1 r0 dpos bl(2) by (simp add: dividing_def)
    note loop = div_bits_spec [OF start bn d(1), unfolded lp]
    show ?thesis
    proof (cases "s2 = PHY_OK")
      case False
      then show ?thesis using loop norm True unfolding eq by simp
    next
      case ok2: True
      then have f: "held c0 [q2, r2] c2" "0 \<le> bg_sign q2" "0 \<le> bg_sign r2" "magv r2 < magv d"
        "magv a = magv q2 * magv d + magv r2" using loop by (simp_all add: dividing_def)
      have nf: "phy_bigint_normalize v = v" if "phy_bigint_shallow_valid c2 v" for v
      proof -
        have S: "strip_count (bg_limbs v) (bg_count v) = bg_count v"
          using that by (cases "bg_count v") (auto simp: phy_bigint_shallow_valid_def)
        have T: "(if bg_count v = 0 then 0 else bg_sign v) = bg_sign v"
          using that by (auto simp: phy_bigint_shallow_valid_def split: if_splits)
        show ?thesis unfolding phy_bigint_normalize_def Let_def S T by simp
      qed
      have "magv q2 = magv a div magv d" "magv r2 = magv a mod magv d" using f(4,5) by simp_all
      then show ?thesis unfolding eq
        using True ok2 f(1-3) nf [OF held_first(2) [OF f(1)]] nf [OF held_second(2) [OF f(1)]]
        by (simp add: abs_divided_def)
    qed
  qed
qed

lemma divmod_abs_spec:
  assumes h: "held c0 [q, r] c" and q0: "bg_count q = 0" "bg_sign q = 0" and r0: "bg_count r = 0" "bg_sign r = 0"
    and a: "phy_bigint_shallow_valid c0 a" and d: "phy_bigint_shallow_valid c0 d" "bg_count d \<noteq> 0"
  shows "outcome (divmod_abs a d (q, r, c)) (abs_divided c0 a d) (held_failure c0)"
proof (cases "magv a < magv d")
  case False
  then show ?thesis
    using divmod_one_limb [OF h q0 r0 a d(1)] divmod_long [OF h q0 r0 a d(1) _ d(2)] by (cases "bg_count d = 1") simp_all
next
  case True
  have e0: "same_env c0 c" by (rule held_first(4) [OF h])
  have ac: "phy_bigint_shallow_valid c a" "phy_bigint_shallow_valid c d"
    using a d(1) shallow_valid_env [OF e0] by blast+
  have cmp: "phy_bigint_compare_abs c a d < 0" using True unfolding compare_abs_spec [OF ac] by (simp add: sgn_if)
  have eq: "divmod_abs a d (q, r, c) = on_second (copy_payload a True) (q, r, c)"
    unfolding divmod_abs_def prod.case Let_def cleared [OF q0] cleared [OF r0] if_P [OF cmp] ..
  have "outcome (on_second (copy_payload a True) (q, r, c))
      (\<lambda>(q', r', c'). held c0 [q', r'] c' \<and> q' = q \<and> (ival r' = \<bar>ival a\<bar> \<and> magv r' = magv a)) (held_failure c0)"
    by (rule on_second_held [OF h], rule outcome_mono [OF copy_payload_spec [OF held_second(1-3) [OF h] ac(1)]]) auto
  then show ?thesis unfolding eq
  proof (rule outcome_mono)
    fix t assume "(\<lambda>(q', r', c'). held c0 [q', r'] c' \<and> q' = q \<and> (ival r' = \<bar>ival a\<bar> \<and> magv r' = magv a)) t"
    then show "abs_divided c0 a d t"
      using True q0 sign_of_nonneg [OF held_second(2)] by (auto simp: abs_divided_def magv_def)
  qed
qed

section \<open>Signed division\<close>

abbreviation resigned :: "phy_bigint \<Rightarrow> int \<Rightarrow> phy_bigint" where
  "resigned v s \<equiv> (if bg_count v \<noteq> 0 then v\<lparr>bg_sign := s\<rparr> else v)"

lemma resigned_spec:
  assumes "phy_bigint_shallow_valid c v" "bg_count v \<noteq> 0 \<Longrightarrow> s = 1 \<or> s = - 1"
  shows "phy_bigint_shallow_valid c (resigned v s)" "ival (resigned v s) = s * int (magv v)"
    "capacity (resigned v s) = capacity v" "phy_bigint_handle_valid c (resigned v s)"
proof -
  show v: "phy_bigint_shallow_valid c (resigned v s)"
    using assms by (auto simp: phy_bigint_shallow_valid_def phy_bigint_handle_valid_def)
  then show "phy_bigint_handle_valid c (resigned v s)" by (simp add: phy_bigint_shallow_valid_def)
  show "ival (resigned v s) = s * int (magv v)"
    by (auto simp: ival_def magv_def)
qed simp

text \<open>Truncating division on the integers, from magnitudes and signs.\<close>

lemma truncated_quotient:
  "sgn a * sgn d * int (nat \<bar>a\<bar> div nat \<bar>d\<bar>) = a sdiv (d :: int)"
  "sgn a * int (nat \<bar>a\<bar> mod nat \<bar>d\<bar>) = a smod d"
  by (simp_all add: signed_divide_int_def signed_modulo_int_def zdiv_int zmod_int)

definition divided :: "phy_exact_context \<Rightarrow> phy_bigint \<Rightarrow> phy_bigint \<Rightarrow> phy_bigint \<times> phy_bigint \<times> phy_exact_context \<Rightarrow> bool" where
  "divided c0 a d st \<longleftrightarrow> (case st of (q, r, c) \<Rightarrow> held c0 [q, r] c \<and>
     ival q = ival a sdiv ival d \<and> ival r = ival a smod ival d)"

lemma divide_signs_spec:
  assumes st: "abs_divided c0 a d (q, r, c)" and a: "phy_bigint_shallow_valid c0 a" and d: "phy_bigint_shallow_valid c0 d"
    and d0: "bg_count d \<noteq> 0"
  shows "outcome (divide_signs a d (q, r, c)) (divided c0 a d) E"
proof -
  have h: "held c0 [q, r] c" and mq: "magv q = magv a div magv d" and mr: "magv r = magv a mod magv d"
    using st by (simp_all add: abs_divided_def)
  note va = valid_sign [OF a] and vd = valid_sign [OF d] and vq = valid_sign [OF held_first(2) [OF h]]
    and vr = valid_sign [OF held_second(2) [OF h]]
  have ma: "magv a = nat \<bar>ival a\<bar>" "magv d = nat \<bar>ival d\<bar>" using va vd by simp_all
  have unit: "bg_sign v = 1 \<or> bg_sign v = - 1" if "phy_bigint_shallow_valid c0 v" "bg_count v \<noteq> 0" for v
    using that by (auto simp: phy_bigint_shallow_valid_def)
  let ?sq = "if bg_sign a = bg_sign d then 1 else - 1 :: int"
  have qn: "bg_count q \<noteq> 0 \<Longrightarrow> bg_count a \<noteq> 0" using vq va mq by auto
  have rn: "bg_count r \<noteq> 0 \<Longrightarrow> bg_count a \<noteq> 0" using vr va mr by auto
  have iq: "?sq * int (magv q) = ival a sdiv ival d"
  proof (cases "bg_count q = 0")
    case True
    then have "int (magv q) = 0" "nat \<bar>ival a\<bar> div nat \<bar>ival d\<bar> = 0" using vq mq ma by auto
    then show ?thesis using truncated_quotient(1) [of "ival a" "ival d"] by simp
  next
    case False
    then have "?sq = sgn (ival a) * sgn (ival d)"
      using unit [OF a qn] unit [OF d d0] va vd by auto
    then show ?thesis using truncated_quotient(1) [of "ival a" "ival d"] unfolding mq ma by simp
  qed
  have ir: "bg_sign a * int (magv r) = ival a smod ival d"
    using truncated_quotient(2) [of "ival a" "ival d"] va unfolding mr ma by simp
  have sq: "bg_count q \<noteq> 0 \<Longrightarrow> ?sq = 1 \<or> ?sq = - 1" by simp
  have sr: "bg_count r \<noteq> 0 \<Longrightarrow> bg_sign a = 1 \<or> bg_sign a = - 1" using unit [OF a rn] .
  note q' = resigned_spec [OF held_first(2) [OF h] sq] and r' = resigned_spec [OF held_second(2) [OF h] sr]
  have "held c0 [resigned q ?sq, resigned r (bg_sign a)] c"
    using h q'(1,3,4) r'(1,3,4) unfolding held_def holding_def by simp
  then show ?thesis
    using q'(2) r'(2) iq ir by (simp add: divide_signs_def divided_def)
qed

text \<open>The two-output operation seen by its caller.\<close>

definition divmod_done ::
  "phy_bigint \<Rightarrow> phy_bigint \<Rightarrow> phy_exact_context \<Rightarrow> int \<Rightarrow> int \<Rightarrow> phy_status \<times> phy_bigint \<times> phy_bigint \<times> phy_exact_context \<Rightarrow> bool" where
  "divmod_done oq orm c x y res \<longleftrightarrow> outcome res
     (\<lambda>(q, r, c'). spent (max_steps (ec_limits c)) (begun c) c' \<and> phy_bigint_shallow_valid c' q \<and>
        phy_bigint_shallow_valid c' r \<and> ec_bytes c' + limb_bytes oq + limb_bytes orm = ec_bytes c + limb_bytes q + limb_bytes r \<and>
        ival q = x \<and> ival r = y)
     (\<lambda>st (q, r, c'). q = oq \<and> r = orm \<and> spent (max_steps (ec_limits c)) (begun c) c' \<and>
        ec_bytes c' = ec_bytes c \<and> resource_failure c st)"

lemma divmod_spec:
  assumes ok: "ctx_ok c" and a: "phy_bigint_shallow_valid c a" and d: "phy_bigint_shallow_valid c d" "ival d \<noteq> 0"
    and oq: "phy_bigint_shallow_valid c oq" and orm: "phy_bigint_shallow_valid c orm"
    and own: "limb_bytes oq + limb_bytes orm \<le> ec_bytes c"
  shows "divmod_done oq orm c (ival a sdiv ival d) (ival a smod ival d) (phy_bigint_divmod a d False (oq, orm, c))"
proof -
  let ?N = "max_steps (ec_limits c)" and ?c0 = "opened 2 c"
  have h0: "held ?c0 [fresh c, fresh c] ?c0" by (rule held_fresh [OF ok]) simp
  have rf: "resource_failure ?c0 = resource_failure c" using resource_env [OF opened_env(1)] by blast
  have ad: "phy_bigint_shallow_valid ?c0 a" "phy_bigint_shallow_valid ?c0 d"
    using a d(1) shallow_valid_env [OF opened_env(1)] by blast+
  have d0: "bg_count d \<noteq> 0" using valid_sign [OF d(1)] d(2) by simp
  let ?run = "andthen (andthen (begin_two c) (divmod_abs a d)) (divide_signs a d)"
  have signs: "outcome (divide_signs a d t) (divided ?c0 a d) (held_failure ?c0)" if "abs_divided ?c0 a d t" for t
    using divide_signs_spec [OF _ ad d0] that by (cases t) blast
  have run: "outcome ?run (divided ?c0 a d) (held_failure ?c0)"
    unfolding outcome_andthen begin_two_eq [OF ok] outcome_pair if_P [OF refl]
    by (rule outcome_mono [OF divmod_abs_spec [OF h0 _ _ _ _ ad d0] signs]) simp_all
  obtain st q r c1 where r: "?run = (st, q, r, c1)" by (metis prod_cases4)
  have h: "holding ?c0 [q, r] c1" using run by (auto simp: r divided_def held_def split: if_splits)
  have e1: "same_env c c1" using holding_ok [OF h] same_env_trans [OF opened_env(1)] by blast
  have hv: "phy_bigint_handle_valid c1 q" "phy_bigint_handle_valid c1 r"
    "ec_bytes c1 = ec_bytes c + limb_bytes q + limb_bytes r" using h by (simp_all add: holding_def)
  let ?sw = "\<lambda>v w. v\<lparr>bg_limbs := bg_limbs w, bg_count := bg_count w, bg_sign := bg_sign w\<rparr>"
  have sw: "phy_bigint_shallow_valid c1 (?sw v w)" "ival (?sw v w) = ival w"
    if "phy_bigint_shallow_valid c v" "phy_bigint_shallow_valid c1 w" for v w
    using that shallow_valid_env [OF e1, of v]
    by (auto simp: phy_bigint_shallow_valid_def phy_bigint_handle_valid_def ival_def magv_def split: if_splits)
  have eq: "phy_bigint_divmod a d False (oq, orm, c) =
     (case (if st = PHY_OK then phy_bigint_swap_payload oq q else (oq, q)) of (out_q', q') \<Rightarrow>
      case (if st = PHY_OK then phy_bigint_swap_payload orm r else (orm, r)) of (out_r', r') \<Rightarrow>
      case phy_exact_operation_end (release [r', q'] c1) st of (status', c2) \<Rightarrow> (status', out_q', out_r', c2))"
    using a d oq orm d0 by (simp add: phy_bigint_divmod_def compatible3_iff valid_owner r)
  show ?thesis
  proof (cases "st = PHY_OK")
    case True
    have "\<forall>v \<in> set [?sw r orm, ?sw q oq]. phy_bigint_handle_valid c1 v"
      "total_bytes [?sw r orm, ?sw q oq] \<le> ec_bytes c1" "length [?sw r orm, ?sw q oq] = 2"
      using hv own by (simp_all add: phy_bigint_handle_valid_def)
    from close_holding [OF ok h this, of st] obtain c3 where
      c3: "phy_exact_operation_end (release [?sw r orm, ?sw q oq] c1) st = (st, c3)" "spent ?N (begun c) c3"
        "ec_bytes c3 + total_bytes [?sw r orm, ?sw q oq] = ec_bytes c + total_bytes [q, r]" by blast
    have res: "phy_bigint_divmod a d False (oq, orm, c) = (PHY_OK, ?sw oq q, ?sw orm r, c3)"
      using True c3(1) unfolding eq by (simp add: phy_bigint_swap_payload_def)
    have e3: "same_env c1 c3"
      using same_env_trans [OF same_env_sym [OF e1]] same_env_trans [OF begun_env(1) spentD(1) [OF c3(2)]] by blast
    have dv: "phy_bigint_shallow_valid c1 q" "phy_bigint_shallow_valid c1 r"
      "ival q = ival a sdiv ival d" "ival r = ival a smod ival d"
      using run True by (simp_all add: r divided_def held_def)
    have "phy_bigint_shallow_valid c3 (?sw oq q)" "phy_bigint_shallow_valid c3 (?sw orm r)"
      using sw(1) [OF oq dv(1)] sw(1) [OF orm dv(2)] shallow_valid_env [OF e3] by blast+
    moreover have "ival (?sw oq q) = ival a sdiv ival d" "ival (?sw orm r) = ival a smod ival d"
      using sw(2) [OF oq dv(1)] sw(2) [OF orm dv(2)] dv(3,4) by simp_all
    moreover have "ec_bytes c3 + limb_bytes oq + limb_bytes orm = ec_bytes c + limb_bytes (?sw oq q) + limb_bytes (?sw orm r)"
      using c3(3) by simp
    ultimately show ?thesis using c3(2) unfolding divmod_done_def res by simp
  next
    case False
    have "\<forall>v \<in> set [r, q]. phy_bigint_handle_valid c1 v" "total_bytes [r, q] \<le> ec_bytes c1" "length [r, q] = 2"
      using hv by simp_all
    from close_holding [OF ok h this, of st] obtain c3 where
      c3: "phy_exact_operation_end (release [r, q] c1) st = (st, c3)" "spent ?N (begun c) c3"
        "ec_bytes c3 + total_bytes [r, q] = ec_bytes c + total_bytes [q, r]" by blast
    have res: "phy_bigint_divmod a d False (oq, orm, c) = (st, oq, orm, c3)"
      using False c3(1) unfolding eq by simp
    have "resource_failure c st" using run False unfolding r rf by simp
    then show ?thesis using c3(2,3) False unfolding divmod_done_def res by simp
  qed
qed

lemma divmod_by_zero:
  assumes "phy_bigint_shallow_valid c a" "phy_bigint_shallow_valid c d" "ival d = 0"
    and "phy_bigint_shallow_valid c oq" "phy_bigint_shallow_valid c orm"
  shows "phy_bigint_divmod a d False (oq, orm, c) = (PHY_ERR_DOMAIN, oq, orm, c)"
  using assms valid_sign [OF assms(2)] by (simp add: phy_bigint_divmod_def compatible3_iff valid_owner)

end
