(* ===== verification/BigintGcd.thy ===== *)
theory BigintGcd
  imports BigintDivmod
begin

text \<open>
  Exact division, the Euclidean loop and the residue by a word of \<open>src/exact/integer.c\<close>. The
  loop is a partial function, so that it returns is a theorem.
\<close>

section \<open>Definitions\<close>

text \<open>
  The loop of \<open>phy_bigint_gcd\<close>: \<open>a, b\<close>, the quotient and the remainder temporaries. After the
  division the payloads rotate: \<open>a\<close> takes the divisor, \<open>b\<close> the remainder.
\<close>

partial_function (option) gcd_loop ::
  "phy_bigint \<times> phy_bigint \<times> phy_bigint \<times> phy_bigint \<times> phy_exact_context \<Rightarrow>
   (phy_status \<times> phy_bigint \<times> phy_bigint \<times> phy_bigint \<times> phy_bigint \<times> phy_exact_context) option" where
  "gcd_loop st =
     (case st of (a, b, q, r, c) \<Rightarrow>
      if bg_count b = 0 then Some (PHY_OK, a, b, q, r, c)
      else (case phy_bigint_divmod a b False (q, r, c) of (status, q1, r1, c1) \<Rightarrow>
      if status \<noteq> PHY_OK then Some (status, a, b, q1, r1, c1)
      else (case phy_bigint_swap_payload a b of (a1, b1) \<Rightarrow>
      case phy_bigint_swap_payload b1 r1 of (b2, r2) \<Rightarrow> gcd_loop (a1, b2, q1, r2, c1))))"

declare gcd_loop.simps [code]

text \<open>Operation begin and the initialisation of the four temporaries.\<close>

definition begin_four ::
  "phy_exact_context \<Rightarrow> phy_status \<times> phy_bigint \<times> phy_bigint \<times> phy_bigint \<times> phy_bigint \<times> phy_exact_context" where
  "begin_four c =
     (case begin_two c of (status, a, b, c0) \<Rightarrow>
      if status \<noteq> PHY_OK then (status, a, b, null_bigint, null_bigint, c0)
      else case phy_bigint_init (null_bigint, c0) of (status1, q, c1) \<Rightarrow>
      if status1 \<noteq> PHY_OK then (status1, a, b, q, null_bigint, c1)
      else case phy_bigint_init (null_bigint, c1) of (status2, r, c2) \<Rightarrow> (status2, a, b, q, r, c2))"

definition phy_bigint_gcd ::
  "phy_bigint \<Rightarrow> phy_bigint \<Rightarrow> phy_bigint \<times> phy_exact_context \<Rightarrow>
   (phy_status \<times> phy_bigint \<times> phy_exact_context) option" where
  "phy_bigint_gcd left right st =
     (case st of (out, c) \<Rightarrow>
      if \<not> compatible3 c left right out then Some (PHY_ERR_INVALID_ARGUMENT, out, c)
      else case begin_four c of (status, a, b, q, r, c0) \<Rightarrow>
        (case (if status = PHY_OK then copy_payload left True (a, c0) else (status, a, c0)) of (status1, a1, c1) \<Rightarrow>
         case (if status1 = PHY_OK then copy_payload right True (b, c1) else (status1, b, c1)) of (status2, b1, c2) \<Rightarrow>
         map_option (\<lambda>(status3, a2, b2, q2, r2, c3). finish_with out status3 a2 [b2, q2, r2] c3)
           (if status2 = PHY_OK then gcd_loop (a1, b1, q, r, c2) else Some (status2, a1, b1, q, r, c2))))"

definition mod_limb :: "phy_bigint \<Rightarrow> u32 \<Rightarrow> nat \<Rightarrow> u64 \<times> phy_exact_context \<Rightarrow> phy_status \<times> u64 \<times> phy_exact_context" where
  "mod_limb v modulus index st =
     (case st of (remainder, c) \<Rightarrow>
      case phy_exact_step 1 c of (status, c1) \<Rightarrow>
        (status, if status = PHY_OK then join32 remainder (bg_limbs v ! index) mod wide modulus else remainder, c1))"

text \<open>\<open>phy_bigint_mod_u32\<close>: \<open>out\<close> is the caller's word.\<close>

definition phy_bigint_mod_u32 :: "phy_bigint \<Rightarrow> u32 \<Rightarrow> u32 \<times> phy_exact_context \<Rightarrow> phy_status \<times> u32 \<times> phy_exact_context" where
  "phy_bigint_mod_u32 v modulus st =
     (case st of (out, c) \<Rightarrow>
      if \<not> phy_bigint_shallow_valid c v then (PHY_ERR_INVALID_ARGUMENT, out, c)
      else if modulus = 0 then (PHY_ERR_DOMAIN, out, c)
      else case phy_exact_operation_begin c of (status, c0) \<Rightarrow>
        case (if status = PHY_OK then for_each (rev [0..<bg_count v]) (mod_limb v modulus) (0, c0) else (status, 0, c0)) of
          (status1, remainder, c1) \<Rightarrow>
        let remainder1 = (if status1 = PHY_OK \<and> bg_sign v < 0 \<and> remainder \<noteq> 0 then wide modulus - remainder else remainder);
            out1 = (if status1 = PHY_OK then low32 remainder1 else out)
        in case phy_exact_operation_end c1 status1 of (status2, c2) \<Rightarrow> (status2, out1, c2))"

section \<open>Division on held temporaries\<close>

lemma divmod_held:
  assumes h: "held c0 (us @ [q, r]) c" and dep: "ec_depth c0 \<noteq> 0"
    and a: "phy_bigint_shallow_valid c a" and d: "phy_bigint_shallow_valid c d" "ival d \<noteq> 0"
  shows "outcome (phy_bigint_divmod a d False (q, r, c))
    (\<lambda>(q', r', c'). held c0 (us @ [q', r']) c' \<and> ival q' = ival a sdiv ival d \<and> ival r' = ival a smod ival d)
    (\<lambda>st (q', r', c'). q' = q \<and> r' = r \<and> held c0 (us @ [q, r]) c' \<and> resource_failure c0 st)"
proof -
  note hq = heldD [of c0 us q "[r]" c, OF h]
  have hr: "phy_bigint_shallow_valid c r" using h by (simp add: held_def)
  have b: "begun c = c" using dep hq(5) by simp
  have own: "limb_bytes q + limb_bytes r \<le> ec_bytes c" using h by (simp add: held_def holding_def)
  have e0: "same_env c0 c" by (rule hq(4))
  then have lim: "ec_limits c = ec_limits c0" by (simp add: same_env_def)
  note dm = divmod_spec [OF hq(1) a d hq(2) hr own, unfolded divmod_done_def b lim]
  have frame: "held c0 (us @ [q', r']) c'"
    if "spent (max_steps (ec_limits c0)) c c'" "phy_bigint_shallow_valid c' q'" "phy_bigint_shallow_valid c' r'"
      "ec_bytes c' + limb_bytes q + limb_bytes r = ec_bytes c + limb_bytes q' + limb_bytes r'" for q' r' c'
  proof -
    have "spent (max_steps (ec_limits c0)) c0 c" using h by (simp add: held_def holding_def)
    from spent_all [OF spent_trans [OF this that(1)]] have sp: "spent (max_steps (ec_limits c0)) c0 c'" .
    have e: "same_env c c'" using spentD(1) [OF that(1)] .
    have l': "ec_limits c' = ec_limits c0" using spentD(3) [OF sp] .
    have old: "\<forall>v \<in> set us. phy_bigint_shallow_valid c' v \<and> phy_bigint_handle_valid c' v \<and> capacity v \<le> max_limbs (ec_limits c0)"
      using h shallow_valid_env [OF e] handle_valid_env [OF e] by (simp add: held_def holding_def)
    have new: "phy_bigint_handle_valid c' v \<and> capacity v \<le> max_limbs (ec_limits c0)" if "phy_bigint_shallow_valid c' v" for v
      using that l' by (simp add: phy_bigint_shallow_valid_def)
    show ?thesis
      using sp old that(2-4) new [OF that(2)] new [OF that(3)] h by (simp add: held_def holding_def)
  qed
  show ?thesis
  proof (rule outcome_mono [OF dm], goal_cases)
    case (1 t)
    then show ?case using frame by (cases t) auto
  next
    case (2 st t)
    obtain q' r' c' where t: "t = (q', r', c')" by (cases t)
    have f: "q' = q" "r' = r" "spent (max_steps (ec_limits c0)) c c'" "ec_bytes c' = ec_bytes c" "resource_failure c st"
      using 2(2) by (simp_all add: t)
    have "phy_bigint_shallow_valid c' q" "phy_bigint_shallow_valid c' r"
      using hq(2) hr shallow_valid_env [OF spentD(1) [OF f(3)]] by blast+
    from frame [OF f(3) this] f(4) have "held c0 (us @ [q, r]) c'" by simp
    then show ?case using f(1,2,5) resource_env [OF e0] by (simp add: t)
  qed
qed

section \<open>Exact division\<close>

lemma divide_exact_spec:
  assumes ok: "ctx_ok c" and a: "phy_bigint_shallow_valid c a" and d: "phy_bigint_shallow_valid c d"
    and out: "phy_bigint_shallow_valid c out" "limb_bytes out \<le> ec_bytes c"
  shows "settled out c (\<lambda>_ v. ival d \<noteq> 0 \<and> ival a = ival v * ival d)
    (\<lambda>st. if ival d \<noteq> 0 \<and> ival d dvd ival a then resource_failure c st else st = PHY_ERR_DOMAIN \<or> resource_failure c st)
    (phy_bigint_divide_exact a d (out, c))"
proof -
  let ?c0 = "opened 2 c"
  let ?E = "\<lambda>st. if ival d \<noteq> 0 \<and> ival d dvd ival a then resource_failure c st else st = PHY_ERR_DOMAIN \<or> resource_failure c st"
  let ?Q = "\<lambda>x. ival d \<noteq> 0 \<and> ival a = x * ival d"
  have h0: "held ?c0 [fresh c, fresh c] ?c0" by (rule held_fresh [OF ok]) simp
  have ad: "phy_bigint_shallow_valid ?c0 a" "phy_bigint_shallow_valid ?c0 d"
    using a d shallow_valid_env [OF opened_env(1)] by blast+
  have rf: "resource_failure ?c0 = resource_failure c" using resource_env [OF opened_env(1)] by blast
  let ?run = "andthen (andthen (begin_two c) (phy_bigint_divmod a d False)) require_exact"
  have "outcome ?run (\<lambda>(q, r, c1). held ?c0 [q, r] c1 \<and> ?Q (ival q)) (\<lambda>st (q, r, c1). holding ?c0 [q, r] c1 \<and> ?E st)"
  proof (cases "ival d = 0")
    case True
    then have "phy_bigint_divmod a d False (fresh c, fresh c, ?c0) = (PHY_ERR_DOMAIN, fresh c, fresh c, ?c0)"
      using divmod_by_zero ad held_first(2) [OF h0] by blast
    then show ?thesis using True h0 unfolding outcome_andthen begin_two_eq [OF ok] by (simp add: held_def)
  next
    case d0: False
    have step: "outcome (require_exact t) (\<lambda>(q, r, c1). held ?c0 [q, r] c1 \<and> ?Q (ival q))
        (\<lambda>st (q, r, c1). holding ?c0 [q, r] c1 \<and> ?E st)"
      if "(\<lambda>(q', r', c'). held ?c0 ([] @ [q', r']) c' \<and> ival q' = ival a sdiv ival d \<and> ival r' = ival a smod ival d) t" for t
    proof -
      obtain q r c1 where t: "t = (q, r, c1)" by (cases t)
      have h: "held ?c0 [q, r] c1" "ival q = ival a sdiv ival d" "ival r = ival a smod ival d" using that by (simp_all add: t)
      have z: "bg_count r = 0 \<longleftrightarrow> ival a smod ival d = 0" using valid_sign [OF held_second(2) [OF h(1)]] h(3) by simp
      have split: "ival a = (ival a sdiv ival d) * ival d + ival a smod ival d"
        by (rule sdiv_mult_smod_eq [symmetric])
      have "ival a smod ival d = 0 \<longleftrightarrow> ival d dvd ival a"
        by (auto simp: smod_int_alt_def sgn_0_0 simp flip: dvd_eq_mod_eq_0)
      then show ?thesis using h z split d0 by (auto simp: t require_exact_def held_def)
    qed
    show ?thesis unfolding outcome_andthen begin_two_eq [OF ok] outcome_pair if_P [OF refl]
      by (rule outcome_mono [OF divmod_held [of ?c0 "[]", OF _ _ ad d0] step]) (use h0 rf d0 in \<open>auto simp: held_def\<close>)
  qed
  from finish_two_spec [OF ok out this] show ?thesis
    using a d out(1) by (simp add: phy_bigint_divide_exact_def compatible3_iff)
qed

section \<open>Greatest common divisor\<close>

abbreviation payload_of :: "phy_bigint \<Rightarrow> phy_bigint \<Rightarrow> phy_bigint" where
  "payload_of v w \<equiv> v\<lparr>bg_limbs := bg_limbs w, bg_count := bg_count w, bg_sign := bg_sign w\<rparr>"

lemma payload_of:
  assumes "phy_bigint_shallow_valid c v" "phy_bigint_shallow_valid c w"
  shows "phy_bigint_shallow_valid c (payload_of v w)" "ival (payload_of v w) = ival w"
  using assms by (auto simp: phy_bigint_shallow_valid_def phy_bigint_handle_valid_def ival_def magv_def split: if_splits)

lemma rotate_held:
  assumes h: "held c0 [a, b, q, r] c"
  shows "held c0 [payload_of a b, payload_of b r, q, payload_of r a] c"
proof -
  have v: "phy_bigint_shallow_valid c a" "phy_bigint_shallow_valid c b" "phy_bigint_shallow_valid c q" "phy_bigint_shallow_valid c r"
    using h by (simp_all add: held_def)
  note p = payload_of(1) [OF v(1,2)] payload_of(1) [OF v(2,4)] payload_of(1) [OF v(4,1)] v(3)
  have "phy_bigint_handle_valid c x" if "phy_bigint_shallow_valid c x" for x
    using that by (simp add: phy_bigint_shallow_valid_def)
  from this [OF p(1)] this [OF p(2)] this [OF p(3)] show ?thesis
    using h p by (simp add: held_def holding_def)
qed

lemma gcd_loop_spec:
  assumes "held c0 [a, b, q, r] c" "ec_depth c0 \<noteq> 0" "0 \<le> ival a" "0 \<le> ival b"
  shows "\<exists>res. gcd_loop (a, b, q, r, c) = Some res \<and>
    outcome res (\<lambda>(a', b', q', r', c'). held c0 [a', b', q', r'] c' \<and> ival a' = gcd (ival a) (ival b))
      (\<lambda>st (a', b', q', r', c'). held c0 [a', b', q', r'] c' \<and> resource_failure c0 st)"
  using assms(1,3,4)
proof (induction "nat (ival b)" arbitrary: a b q r c rule: less_induct)
  case less
  note h = less.prems(1) and pos = less.prems(2,3)
  have v: "phy_bigint_shallow_valid c a" "phy_bigint_shallow_valid c b" using h by (simp_all add: held_def)
  note zb = valid_sign [OF v(2)]
  show ?case
  proof (cases "bg_count b = 0")
    case True
    then have "ival b = 0" using zb by simp
    then have "gcd_loop (a, b, q, r, c) = Some (PHY_OK, a, b, q, r, c)" "gcd (ival a) (ival b) = ival a"
      using True pos by (simp_all add: gcd_loop.simps)
    then show ?thesis using h by simp
  next
    case False
    then have b0: "ival b \<noteq> 0" using zb by simp
    obtain st q1 r1 c1 where dv: "phy_bigint_divmod a b False (q, r, c) = (st, q1, r1, c1)" by (metis prod_cases4)
    have "held c0 ([a, b] @ [q, r]) c" using h by simp
    note dm = divmod_held [OF this assms(2) v b0, unfolded dv]
    show ?thesis
    proof (cases "st = PHY_OK")
      case bad: False
      then have "gcd_loop (a, b, q, r, c) = Some (st, a, b, q1, r1, c1)"
        using False by (subst gcd_loop.simps) (simp add: dv)
      then show ?thesis using dm bad by simp
    next
      case True
      then have h1: "held c0 [a, b, q1, r1] c1" and ir: "ival r1 = ival a smod ival b" using dm by simp_all
      let ?a = "payload_of a b" and ?b = "payload_of b r1" and ?r = "payload_of r1 a"
      have v1: "phy_bigint_shallow_valid c1 a" "phy_bigint_shallow_valid c1 b" "phy_bigint_shallow_valid c1 r1"
        using h1 by (simp_all add: held_def)
      have "gcd_loop (a, b, q, r, c) = gcd_loop (?a, ?b, q1, ?r, c1)"
        using False True by (subst gcd_loop.simps) (simp add: dv phy_bigint_swap_payload_def)
      moreover have iv: "ival ?a = ival b" "ival ?b = ival a mod ival b"
        using payload_of(2) [OF v1(1,2)] payload_of(2) [OF v1(2,3)] ir smod_mod_positive [OF pos] by simp_all
      moreover have "nat (ival a mod ival b) < nat (ival b)" using b0 pos by simp
      moreover have "gcd (ival b) (ival a mod ival b) = gcd (ival a) (ival b)"
        by (metis gcd.commute gcd_red_int)
      moreover have "0 \<le> ival a mod ival b" using b0 pos by simp
      ultimately show ?thesis
        using less.hyps [of ?b ?a q1 ?r c1] rotate_held [OF h1] pos(2) by simp
    qed
  qed
qed

lemma begin_four_eq:
  "ctx_ok c \<Longrightarrow> begin_four c = (PHY_OK, fresh c, fresh c, fresh c, fresh c, opened 4 c)"
  using opened_ok [of c 2] by (simp add: begin_four_def begin_two_eq init_eq fresh_def opened_def begun_def)

lemma gcd_spec:
  assumes ok: "ctx_ok c" and l: "phy_bigint_shallow_valid c l" and r: "phy_bigint_shallow_valid c r"
    and out: "phy_bigint_shallow_valid c out" "limb_bytes out \<le> ec_bytes c"
  shows "\<exists>res. phy_bigint_gcd l r (out, c) = Some res \<and>
    settled out c (\<lambda>_ v. ival v = gcd (ival l) (ival r)) (resource_failure c) res"
proof -
  let ?c0 = "opened 4 c" and ?f = "fresh c"
  have h0: "held ?c0 [?f, ?f, ?f, ?f] ?c0" by (rule held_fresh [OF ok]) simp
  have rf: "resource_failure ?c0 = resource_failure c" using resource_env [OF opened_env(1)] by blast
  have lr: "phy_bigint_shallow_valid ?c0 l" "phy_bigint_shallow_valid ?c0 r"
    using l r shallow_valid_env [OF opened_env(1)] by blast+
  obtain s1 a c1 where e1: "copy_payload l True (?f, ?c0) = (s1, a, c1)" by (metis prod_cases3)
  note cp1 = copy_payload_spec [OF held_first(1-3) [OF h0] lr(1), of True, unfolded e1]
  have m1: "moved 0 ?f ?c0 a c1" using cp1 by (auto split: if_splits)
  obtain s2 b c2 where e2: "(if s1 = PHY_OK then copy_payload r True (?f, c1) else (s1, ?f, c1)) = (s2, b, c2)"
    by (metis prod_cases3)
  let ?res = "if s2 = PHY_OK then gcd_loop (a, b, ?f, ?f, c2) else Some (s2, a, b, ?f, ?f, c2)"
  have eq: "phy_bigint_gcd l r (out, c) =
      map_option (\<lambda>(status3, a2, b2, q2, r2, c3). finish_with out status3 a2 [b2, q2, r2] c3) ?res"
    using l r out(1) by (simp add: phy_bigint_gcd_def compatible3_iff begin_four_eq [OF ok] e1 e2)
  let ?Q = "\<lambda>(a', b', q', r', c'). held ?c0 [a', b', q', r'] c' \<and> ival a' = gcd (ival l) (ival r)"
  let ?E = "\<lambda>st (a', b', q', r', c'). holding ?c0 [a', b', q', r'] c' \<and> resource_failure c st"
  have "\<exists>res. ?res = Some res \<and> outcome res ?Q ?E"
  proof (cases "s1 = PHY_OK")
    case False
    then have "s2 = s1" "b = ?f" "c2 = c1" using e2 by auto
    moreover have "holding ?c0 [a, ?f, ?f, ?f] c1"
      using holding_moved [of ?c0 "[]" ?f "[?f, ?f, ?f]" ?c0, OF _ m1] h0 by (simp add: held_def)
    moreover have "resource_failure c s1" using cp1 False shortage_resource rf by fastforce
    ultimately show ?thesis using False by simp
  next
    case True
    then have a: "phy_bigint_shallow_valid c1 a" "ival a = \<bar>ival l\<bar>" using cp1 by simp_all
    have h1: "held ?c0 [a, ?f, ?f, ?f] c1" by (rule held_moved_first [OF h0 m1 a(1)])
    have e01: "same_env ?c0 c1" by (rule held_first(4) [OF h1])
    have r1: "phy_bigint_shallow_valid c1 r" using lr(2) shallow_valid_env [OF e01] by blast
    note cp2 = copy_payload_spec [OF held_second(1-3) [OF h1] r1, of True]
    have e2': "copy_payload r True (?f, c1) = (s2, b, c2)" using e2 True by simp
    have m2: "moved 0 ?f c1 b c2" using cp2 [unfolded e2'] by (auto split: if_splits)
    show ?thesis
    proof (cases "s2 = PHY_OK")
      case False
      then have "resource_failure c1 s2" using cp2 [unfolded e2'] shortage_resource by fastforce
      then have "resource_failure c s2" using resource_env [OF e01, of s2] fun_cong [OF rf, of s2] by blast
      moreover have "holding ?c0 [a, b, ?f, ?f] c2"
        using holding_moved [of ?c0 "[a]" ?f "[?f, ?f]" c1, OF _ m2] h1 by (simp add: held_def)
      ultimately show ?thesis using False by simp
    next
      case ok2: True
      then have b: "phy_bigint_shallow_valid c2 b" "ival b = \<bar>ival r\<bar>" using cp2 [unfolded e2'] by simp_all
      have h2: "held ?c0 [a, b, ?f, ?f] c2" by (rule held_moved_second [OF h1 m2 b(1)])
      have "0 \<le> ival a" "0 \<le> ival b" using a(2) b(2) by simp_all
      from gcd_loop_spec [OF h2 _ this] obtain res where
        res: "gcd_loop (a, b, ?f, ?f, c2) = Some res"
          "outcome res (\<lambda>(a', b', q', r', c'). held ?c0 [a', b', q', r'] c' \<and> ival a' = gcd (ival a) (ival b))
            (\<lambda>st (a', b', q', r', c'). held ?c0 [a', b', q', r'] c' \<and> resource_failure ?c0 st)" by auto
      have "outcome res ?Q ?E"
        by (rule outcome_mono [OF res(2)]) (auto simp: a(2) b(2) held_def rf)
      then show ?thesis using ok2 res(1) by simp
    qed
  qed
  then obtain res where res: "?res = Some res" "outcome res ?Q ?E" by blast
  obtain st a' b' q' r' c' where t: "res = (st, a', b', q', r', c')" by (metis prod_cases6)
  have "holding ?c0 (a' # [b', q', r']) c'" using res(2) by (auto simp: t held_def split: if_splits)
  then have "settled out c (\<lambda>_ v. ival v = gcd (ival l) (ival r)) (resource_failure c) (finish_with out st a' [b', q', r'] c')"
    by (rule finish_with_spec [OF ok out]) (use res(2) in \<open>simp_all add: t held_def\<close>)
  then show ?thesis unfolding eq res(1) by (simp add: t)
qed

section \<open>Residue by a word\<close>

lemma mod_loop:
  assumes ok: "ctx_ok c" and m0: "m \<noteq> 0"
  shows "outcome (for_each (rev [0..<n]) (mod_limb v m) (0, c))
    (\<lambda>(x, c'). stepping n c c' \<and> unat x = nval (bg_limbs v) n mod unat m)
    (\<lambda>st (x, c'). step_failed n c st c')"
proof -
  let ?D = "nval (bg_limbs v)" and ?m = "unat m"
  let ?I = "\<lambda>k (x :: u64, c'). stepping k c c' \<and> unat x < ?m \<and> ?D n mod ?m = (?D (n - k) + base ^ (n - k) * unat x) mod ?m"
  have mp: "0 < ?m" using m0 by (simp add: unat_gt_0)
  have "outcome (for_each (rev [0..<n]) (mod_limb v m) (0, c)) (?I (length (rev [0..<n]))) (\<lambda>st (x, c'). step_failed n c st c')"
  proof (rule outcome_for_each)
    show "?I 0 (0, c)" using ok mp by simp
    fix k st assume k: "k < length (rev [0..<n])" and I: "?I k st"
    obtain x c' where st: "st = (x, c')" by (cases st)
    obtain s c1 where step: "phy_exact_step 1 c' = (s, c1)" by fastforce
    have sp: "outcome (s, c1) (stepping (Suc k) c) (step_failed n c)"
      using step_in_loop [of k c c' n] I k step by (simp add: st)
    define j where "j = n - Suc k"
    have j: "n - k = Suc j" "n - Suc k = j" using k by (simp_all add: j_def)
    have idx: "rev [0..<n] ! k = j" using k by (simp add: rev_nth j_def)
    let ?x = "join32 x (bg_limbs v ! j) mod wide m"
    have "unat x < 2 ^ 32" using I unat_u32_bound [of m] by (simp add: st)
    then have cur: "unat (join32 x (bg_limbs v ! j)) = unat x * base + unat (bg_limbs v ! j)"
      using unat_join32 by (simp add: base_def)
    have ux: "unat ?x = (unat x * base + unat (bg_limbs v ! j)) mod ?m" by (simp add: unat_mod cur)
    have "(?D j + base ^ j * unat ?x) mod ?m = (?D j + base ^ j * (unat x * base + unat (bg_limbs v ! j))) mod ?m"
      unfolding ux by (metis mod_add_right_eq mod_mult_right_eq)
    also have "?D j + base ^ j * (unat x * base + unat (bg_limbs v ! j)) = ?D (Suc j) + base ^ Suc j * unat x"
      by (simp add: nval_Suc algebra_simps)
    also have "\<dots> mod ?m = ?D n mod ?m" using I by (simp add: st j(1))
    finally have v: "?D n mod ?m = (?D j + base ^ j * unat ?x) mod ?m" by simp
    have eq: "mod_limb v m (rev [0..<n] ! k) st = (s, if s = PHY_OK then ?x else x, c1)"
      unfolding st mod_limb_def prod.case step idx ..
    have "unat ?x < ?m" unfolding ux using mp by simp
    then show "outcome (mod_limb v m (rev [0..<n] ! k) st) (?I (Suc k)) (\<lambda>st (x, c'). step_failed n c st c')"
      unfolding eq using sp v by (simp add: j(2))
  qed
  then show ?thesis by (rule outcome_mono) auto
qed

lemma negative_residue:
  assumes "0 < m"
  shows "int (if d mod m \<noteq> 0 then m - d mod m else d mod m) = - int d mod int m"
proof -
  have "d mod m \<le> m" using assms by (simp add: less_imp_le)
  then show ?thesis by (auto simp: zmod_zminus1_eq_if of_nat_diff of_nat_mod)
qed

lemma mod_u32_spec:
  assumes ok: "ctx_ok c" and v: "phy_bigint_shallow_valid c v" and m0: "m \<noteq> 0"
  shows "outcome (phy_bigint_mod_u32 v m (out, c))
    (\<lambda>(x, c'). spent (bg_count v) (begun c) c' \<and> ec_bytes c' = ec_bytes c \<and> int (unat x) = ival v mod int (unat m))
    (\<lambda>st (x, c'). x = out \<and> spent (bg_count v) (begun c) c' \<and> ec_bytes c' = ec_bytes c \<and>
       shortage (bg_count v) 0 0 (begun c) st)"
proof -
  let ?n = "bg_count v" and ?m = "unat m"
  have ok1: "ctx_ok (entered c)" using begun_ok [OF ok] by simp
  obtain s x c1 where lp: "for_each (rev [0..<?n]) (mod_limb v m) (0, entered c) = (s, x, c1)" by (metis prod_cases3)
  note loop = mod_loop [OF ok1 m0, of ?n v, unfolded lp]
  have st: "stepping ?n (entered c) c1" using loop by (auto simp: step_failed_def split: if_splits)
  then have sp: "spent ?n (entered c) c1" "ec_bytes c1 = ec_bytes c" by (simp_all add: stepping_def)
  have d1: "ctx_ok c1" "ec_depth c1 = Suc (ec_depth c)" using spentD [OF sp(1)] by simp_all
  let ?c2 = "c1\<lparr>ec_depth := ec_depth c1 - 1\<rparr>"
  have e: "phy_exact_operation_end c1 s = (s, ?c2)" using d1 by (simp add: end_eq)
  have sp2: "spent ?n (begun c) ?c2"
  proof (rule spent_exit [OF _ ok, of ?n 0 c1 _ "ec_bytes c1"])
    show "spent ?n ((entered c)\<lparr>ec_values := ec_values c + 0\<rparr>) c1" using sp(1) by (simp add: begun_def split: if_splits)
  qed simp_all
  let ?x = "if s = PHY_OK \<and> bg_sign v < 0 \<and> x \<noteq> 0 then wide m - x else x"
  have eq: "phy_bigint_mod_u32 v m (out, c) = (s, if s = PHY_OK then low32 ?x else out, ?c2)"
    using v m0 by (simp add: phy_bigint_mod_u32_def begin_eq [OF ok] lp e Let_def)
  show ?thesis
  proof (cases "s = PHY_OK")
    case False
    then have "shortage ?n 0 0 (begun c) s" using loop by (simp add: step_failed_def shortage_counters)
    then show ?thesis unfolding eq using False sp2 sp(2) by simp
  next
    case True
    then have x: "unat x = magv v mod ?m" using loop by (simp add: magv_def)
    have mp: "0 < ?m" using m0 by (simp add: unat_gt_0)
    then have xm: "unat x < ?m" using x by simp
    then have le: "x \<le> wide m" by (simp add: word_le_nat_alt)
    have u: "unat ?x = (if bg_sign v < 0 \<and> unat x \<noteq> 0 then ?m - unat x else unat x)"
      using True unat_sub_u64 [OF le] by (simp add: unat_eq_0)
    then have "unat ?x < 2 ^ 32" using xm unat_u32_bound [of m] by auto
    then have lo: "unat (low32 ?x) = unat ?x" by (simp add: unat_low32)
    have iv: "ival v = bg_sign v * int (magv v)" by (simp add: ival_def)
    have sg: "bg_sign v = 0 \<or> bg_sign v = 1 \<or> bg_sign v = - 1" "bg_sign v = 0 \<Longrightarrow> magv v = 0"
      using v valid_sign [OF v] by (auto simp: phy_bigint_shallow_valid_def split: if_splits)
    have xi: "int (unat x) = int (magv v) mod int ?m" by (simp add: x zmod_int)
    have "int (unat (low32 ?x)) = ival v mod int ?m"
    proof (cases "bg_sign v < 0")
      case False
      then have "ival v = int (magv v)" using sg iv by auto
      then show ?thesis using False lo u xi by simp
    next
      case neg: True
      then have A: "ival v = - int (magv v)" using sg iv by auto
      have B: "unat (low32 ?x) = (if magv v mod ?m \<noteq> 0 then ?m - magv v mod ?m else magv v mod ?m)"
        unfolding lo u using neg by (simp add: x)
      show ?thesis unfolding A B by (rule negative_residue [OF mp])
    qed
    then show ?thesis unfolding eq using True sp2 sp(2) by simp
  qed
qed

end
