(* ===== verification/BigintText.thy ===== *)
theory BigintText
  imports BigintGcd
begin

text \<open>
  Decimal text of \<open>src/exact/integer.c\<close>: reading digit by digit with the in-place small
  multiply and add, and writing through nine-digit chunks. A C string is the list of its
  characters before the terminating NUL.
\<close>

section \<open>Reading\<close>

definition mul_small_limb ::
  "u32 \<Rightarrow> nat \<Rightarrow> u32 list \<times> u64 \<times> phy_exact_context \<Rightarrow> phy_status \<times> u32 list \<times> u64 \<times> phy_exact_context" where
  "mul_small_limb factor index st =
     (case st of (limbs, carry, c) \<Rightarrow>
      case phy_exact_step 1 c of (status, c1) \<Rightarrow>
      if status \<noteq> PHY_OK then (status, limbs, carry, c1)
      else
        let product = wide (limbs ! index) * wide factor + carry
        in (PHY_OK, limbs[index := low32 product], high32 product, c1))"

definition multiply_small_in_place ::
  "u32 \<Rightarrow> phy_bigint \<times> phy_exact_context \<Rightarrow> phy_status \<times> phy_bigint \<times> phy_exact_context" where
  "multiply_small_in_place factor st =
     (case st of (v, c) \<Rightarrow>
      if bg_count v = 0 \<or> factor = 1 then (PHY_OK, v, c)
      else if factor = 0 then (PHY_OK, v\<lparr>bg_count := 0, bg_sign := 0\<rparr>, c)
      else case phy_bigint_reserve (bg_count v + 1) (v, c) of (status, v1, c1) \<Rightarrow>
      if status \<noteq> PHY_OK then (status, v1, c1)
      else
        case for_each [0..<bg_count v1] (mul_small_limb factor) (bg_limbs v1, 0, c1) of (status2, limbs, carry, c2) \<Rightarrow>
        if status2 \<noteq> PHY_OK then (status2, v1\<lparr>bg_limbs := limbs\<rparr>, c2)
        else if carry \<noteq> 0 then
          (PHY_OK, v1\<lparr>bg_limbs := limbs[bg_count v1 := low32 carry], bg_count := bg_count v1 + 1\<rparr>, c2)
        else (PHY_OK, v1\<lparr>bg_limbs := limbs\<rparr>, c2))"

text \<open>The loop of \<open>add_small_in_place\<close>: it stops at the first limb without a carry.\<close>

function add_small_loop ::
  "nat \<Rightarrow> nat \<Rightarrow> u32 list \<times> u64 \<times> phy_exact_context \<Rightarrow> phy_status \<times> u32 list \<times> u64 \<times> phy_exact_context" where
  "add_small_loop count index st =
     (case st of (limbs, carry, c) \<Rightarrow>
      if carry \<noteq> 0 \<and> index < count then
        (case phy_exact_step 1 c of (status, c1) \<Rightarrow>
         if status \<noteq> PHY_OK then (status, limbs, carry, c1)
         else
           let sum = wide (limbs ! index) + carry
           in add_small_loop count (Suc index) (limbs[index := low32 sum], high32 sum, c1))
      else (PHY_OK, limbs, carry, c))"
  by pat_completeness auto
termination
  by (relation "measure (\<lambda>(count, index, st). count - index)") auto

declare add_small_loop.simps [simp del]

definition add_small_in_place ::
  "u32 \<Rightarrow> phy_bigint \<times> phy_exact_context \<Rightarrow> phy_status \<times> phy_bigint \<times> phy_exact_context" where
  "add_small_in_place addend st =
     (case st of (v, c) \<Rightarrow>
      if addend = 0 then (PHY_OK, v, c)
      else if bg_count v = 0 then phy_bigint_assign_u64 (wide addend) 1 (v, c)
      else case phy_bigint_reserve (bg_count v + 1) (v, c) of (status, v1, c1) \<Rightarrow>
      if status \<noteq> PHY_OK then (status, v1, c1)
      else
        case add_small_loop (bg_count v1) 0 (bg_limbs v1, wide addend, c1) of (status2, limbs, carry, c2) \<Rightarrow>
        if status2 \<noteq> PHY_OK then (status2, v1\<lparr>bg_limbs := limbs\<rparr>, c2)
        else if carry \<noteq> 0 then
          (PHY_OK, v1\<lparr>bg_limbs := limbs[bg_count v1 := low32 carry], bg_count := bg_count v1 + 1\<rparr>, c2)
        else (PHY_OK, v1\<lparr>bg_limbs := limbs\<rparr>, c2))"

definition digit_char :: "char \<Rightarrow> bool" where
  "digit_char ch \<longleftrightarrow> 48 \<le> (of_char ch :: nat) \<and> (of_char ch :: nat) \<le> 57"

definition digit_value :: "char \<Rightarrow> u32" where
  "digit_value ch = of_nat (of_char ch - 48)"

definition read_digit :: "char \<Rightarrow> phy_bigint \<times> phy_exact_context \<Rightarrow> phy_status \<times> phy_bigint \<times> phy_exact_context" where
  "read_digit ch st = andthen (multiply_small_in_place 10 st) (add_small_in_place (digit_value ch))"

definition read_body ::
  "string \<Rightarrow> int \<Rightarrow> phy_bigint \<times> phy_exact_context \<Rightarrow> phy_status \<times> phy_bigint \<times> phy_exact_context" where
  "read_body digits sign st =
     (case for_each digits read_digit st of (status, t, c) \<Rightarrow>
        (status, if status = PHY_OK \<and> bg_count t \<noteq> 0 then t\<lparr>bg_sign := sign\<rparr> else t, c))"

text \<open>The optional sign and the cursor behind it.\<close>

definition read_sign :: "string \<Rightarrow> int \<times> string" where
  "read_sign decimal =
     (case decimal of [] \<Rightarrow> (1, [])
      | ch # rest \<Rightarrow> if ch = CHR ''+'' then (1, rest) else if ch = CHR ''-'' then (- 1, rest) else (1, decimal))"

text \<open>\<open>phy_bigint_read\<close>; \<open>None\<close> is a null \<open>decimal\<close>.\<close>

definition phy_bigint_read ::
  "string option \<Rightarrow> phy_bigint \<times> phy_exact_context \<Rightarrow> phy_status \<times> phy_bigint \<times> phy_exact_context" where
  "phy_bigint_read decimal st =
     (case st of (v, c) \<Rightarrow>
      case decimal of None \<Rightarrow> (PHY_ERR_INVALID_ARGUMENT, v, c)
      | Some text \<Rightarrow>
          if \<not> phy_bigint_shallow_valid c v then (PHY_ERR_INVALID_ARGUMENT, v, c)
          else case phy_exact_operation_begin c of (status, c0) \<Rightarrow>
          if status \<noteq> PHY_OK then (status, v, c0)
          else case read_sign text of (sign, cursor) \<Rightarrow>
          if cursor = [] \<or> \<not> list_all digit_char cursor then
            (case phy_exact_operation_end c0 PHY_ERR_PARSE of (status1, c1) \<Rightarrow> (status1, v, c1))
          else settle v (andthen (phy_bigint_init (null_bigint, c0)) (read_body cursor sign)))"

section \<open>Writing\<close>

definition div_in_place_limb ::
  "u32 \<Rightarrow> nat \<Rightarrow> u32 list \<times> u64 \<times> phy_exact_context \<Rightarrow> phy_status \<times> u32 list \<times> u64 \<times> phy_exact_context" where
  "div_in_place_limb divisor index st =
     (case st of (limbs, remainder, c) \<Rightarrow>
      case phy_exact_step 1 c of (status, c1) \<Rightarrow>
      if status \<noteq> PHY_OK then (status, limbs, remainder, c1)
      else
        let current = join32 remainder (limbs ! index)
        in (PHY_OK, limbs[index := low32 (current div wide divisor)], current mod wide divisor, c1))"

definition divide_small_in_place ::
  "u32 \<Rightarrow> phy_bigint \<times> phy_exact_context \<Rightarrow> phy_status \<times> u32 \<times> phy_bigint \<times> phy_exact_context" where
  "divide_small_in_place divisor st =
     (case st of (v, c) \<Rightarrow>
      case for_each (rev [0..<bg_count v]) (div_in_place_limb divisor) (bg_limbs v, 0, c) of
        (status, limbs, remainder, c1) \<Rightarrow>
      if status \<noteq> PHY_OK then (status, 0, v\<lparr>bg_limbs := limbs\<rparr>, c1)
      else (PHY_OK, low32 remainder, phy_bigint_normalize (v\<lparr>bg_limbs := limbs\<rparr>), c1))"

function decimal_digits_u32 :: "u32 \<Rightarrow> nat" where
  "decimal_digits_u32 x = (if 10 \<le> x then Suc (decimal_digits_u32 (x div 10)) else 1)"
  by pat_completeness auto
termination
proof (relation "measure unat")
  fix x :: u32 assume "10 \<le> x"
  then have "unat x div 10 < unat x" by (simp add: word_le_nat_alt)
  then show "(x div 10, x) \<in> measure unat" by (simp add: unat_div)
qed simp

declare decimal_digits_u32.simps [simp del]

text \<open>The digits of \<open>emit_u32\<close>, least significant first.\<close>

function low_digits :: "u32 \<Rightarrow> string" where
  "low_digits x =
     char_of (48 + unat (x mod 10)) # (if x div 10 \<noteq> 0 then low_digits (x div 10) else [])"
  by pat_completeness auto
termination
proof (relation "measure unat")
  fix x :: u32 assume "x div 10 \<noteq> 0"
  then have "unat (x div 10) \<noteq> 0" by (simp only: unat_eq_0 not_False_eq_True)
  then have "unat x div 10 \<noteq> 0" by (simp add: unat_div)
  then show "(x div 10, x) \<in> measure unat" by (simp add: unat_div)
qed simp

declare low_digits.simps [simp del]

definition emit_u32 :: "u32 \<Rightarrow> nat \<Rightarrow> string" where
  "emit_u32 x width = (let ds = low_digits x in rev (ds @ replicate (width - length ds) (CHR ''0'')))"

text \<open>The chunk loop of \<open>phy_bigint_write\<close>; \<open>chunks\<close> is the written part of the array.\<close>

function chunk_loop ::
  "nat \<Rightarrow> u32 list \<Rightarrow> phy_bigint \<times> phy_exact_context \<Rightarrow> phy_status \<times> u32 list \<times> phy_bigint \<times> phy_exact_context" where
  "chunk_loop limit chunks st =
     (case st of (t, c) \<Rightarrow>
      if bg_count t \<noteq> 0 then
        (if limit \<le> length chunks then (PHY_ERR_CORRUPT_DOCUMENT, chunks, t, c)
         else case divide_small_in_place 1000000000 (t, c) of (status, chunk, t1, c1) \<Rightarrow>
         if status = PHY_OK then chunk_loop limit (chunks @ [chunk]) (t1, c1)
         else (status, chunks, t1, c1))
      else (PHY_OK, chunks, t, c))"
  by pat_completeness auto
termination
  by (relation "measure (\<lambda>(limit, chunks, st). limit - length chunks)") auto

declare chunk_loop.simps [simp del]

text \<open>The text of the chunks, most significant first.\<close>

definition chunk_text :: "bool \<Rightarrow> u32 list \<Rightarrow> string" where
  "chunk_text negative chunks =
     (if negative then ''-'' else []) @ emit_u32 (last chunks) (decimal_digits_u32 (last chunks)) @
     concat (map (\<lambda>x. emit_u32 x 9) (rev (butlast chunks)))"

definition chunk_capacity :: "phy_bigint \<Rightarrow> nat" where
  "chunk_capacity v = (bg_count v * 10 + 8) div 9 + 2"

definition store_text :: "string \<Rightarrow> string \<Rightarrow> string" where
  "store_text text buffer = text @ [CHR 0x00] @ drop (length text + 1) buffer"

text \<open>
  \<open>phy_bigint_write\<close>: the buffer is \<open>None\<close> for a null pointer, else its bytes; \<open>required\<close> is
  the caller's \<open>*out_required\<close>. Chunk sizes are checked in \<open>size_t\<close> as in the code.
\<close>

definition write_chunks ::
  "phy_bigint \<Rightarrow> phy_bigint \<times> phy_exact_context \<Rightarrow>
   phy_status \<times> u32 list \<times> bool \<times> nat \<times> phy_bigint \<times> phy_exact_context" where
  "write_chunks v st =
     (case st of (t, c) \<Rightarrow>
      if (SIZE_MAX - 2) div 10 < bg_count v then (PHY_ERR_MEMORY_LIMIT, [], False, 0, t, c)
      else
        let limit = chunk_capacity v in
        if SIZE_MAX div 4 < limit then (PHY_ERR_MEMORY_LIMIT, [], False, 0, t, c)
        else
          let bytes = limit * 4 in
          case phy_exact_temp_alloc bytes c of (status, block, c1) \<Rightarrow>
          if status \<noteq> PHY_OK then (status, [], block, bytes, t, c1)
          else case chunk_loop limit [] (t, c1) of (status1, chunks, t1, c2) \<Rightarrow>
            (if status1 = PHY_OK \<and> chunks = [] then PHY_ERR_CORRUPT_DOCUMENT else status1, chunks, block, bytes, t1, c2))"

definition phy_bigint_write ::
  "phy_bigint \<Rightarrow> nat \<Rightarrow> string option \<times> nat \<times> phy_exact_context \<Rightarrow> phy_status \<times> string option \<times> nat \<times> phy_exact_context" where
  "phy_bigint_write v bufsize st =
     (case st of (buffer, required, c) \<Rightarrow>
      if \<not> phy_bigint_shallow_valid c v then (PHY_ERR_INVALID_ARGUMENT, buffer, required, c)
      else case phy_exact_operation_begin c of (status, c0) \<Rightarrow>
      if status \<noteq> PHY_OK then (status, buffer, required, c0)
      else if bg_count v = 0 then
        (let status1 = (if buffer \<noteq> None \<and> bufsize < 2 then PHY_ERR_MEMORY_LIMIT else PHY_OK);
             buffer1 = (if status1 = PHY_OK then map_option (store_text ''0'') buffer else buffer)
         in case phy_exact_operation_end c0 status1 of (status2, c1) \<Rightarrow> (status2, buffer1, 2, c1))
      else case andthen (phy_bigint_init (null_bigint, c0)) (copy_payload v True) of (status1, t, c1) \<Rightarrow>
        case (if status1 = PHY_OK then write_chunks v (t, c1) else (status1, [], False, 0, t, c1)) of
          (status2, chunks, block, bytes, t2, c2) \<Rightarrow>
        let leading = decimal_digits_u32 (last chunks);
            sign_bytes = (if bg_sign v < 0 then 1 else 0);
            status3 = (if status2 = PHY_OK \<and> (SIZE_MAX - sign_bytes - leading - 1) div 9 < length chunks - 1
                       then PHY_ERR_MEMORY_LIMIT else status2);
            need = (if status3 = PHY_OK then sign_bytes + leading + (length chunks - 1) * 9 + 1 else 0);
            status4 = (if status3 = PHY_OK \<and> buffer \<noteq> None \<and> bufsize < need then PHY_ERR_MEMORY_LIMIT else status3);
            buffer1 = (if status4 = PHY_OK then map_option (store_text (chunk_text (bg_sign v < 0) chunks)) buffer else buffer);
            c3 = (if block then phy_exact_temp_free c2 block bytes else c2);
            c4 = snd (phy_bigint_destroy t2 c3)
        in case phy_exact_operation_end c4 status4 of (status5, c5) \<Rightarrow> (status5, buffer1, need, c5))"

end
