(* ===== verification/BigintRead.thy ===== *)
theory BigintRead
  imports BigintText
begin

text \<open>
  Correctness of \<open>phy_bigint_read\<close>: a digit string is read as its decimal value, and only
  the limits, the allocator or the cancel callback can stop it.
\<close>

section \<open>The small in-place operations\<close>

text \<open>Appending the final carry of a limb loop to the reserved array.\<close>

lemma carry_out:
  assumes m: "moved 0 v c v1 c1" and st: "stepping k c1 c2" and len: "length ys = capacity v1"
    and n: "bg_count v1 = n" "0 < n" "n + 1 \<le> capacity v1" and cb: "unat carry < base"
    and val: "nval ys n + unat carry * base ^ n = x" and low: "base ^ (n - 1) \<le> x"
    and s: "bg_sign v1 = 1 \<or> bg_sign v1 = - 1"
  defines "w \<equiv> (if carry \<noteq> 0 then v1\<lparr>bg_limbs := ys[n := low32 carry], bg_count := n + 1\<rparr> else v1\<lparr>bg_limbs := ys\<rparr>)"
  shows "moved k v c w c2" "phy_bigint_shallow_valid c2 w" "magv w = x" "bg_sign w = bg_sign v1"
    "capacity w = capacity v1"
proof -
  let ?zs = "if carry \<noteq> 0 then ys[n := low32 carry] else ys" and ?k = "if carry \<noteq> 0 then n + 1 else n"
  have w: "w = v1\<lparr>bg_limbs := ?zs, bg_count := ?k, bg_sign := bg_sign v1\<rparr>" using n(1) by (simp add: w_def)
  have nl: "n < length ys" using len n(3) by simp
  have lc: "unat (low32 carry) = unat carry" unfolding unat_low32 base_pow(1) using cb by simp
  have zl: "length ?zs = capacity v1" using len by simp
  show cw: "capacity w = capacity v1" unfolding w using zl by simp
  have "moved (0 + k) v c w c2" by (rule moved_stepping [OF m st]) (use cw w in simp_all)
  then show mw: "moved k v c w c2" by simp
  have vz: "nval ?zs ?k = x" using val lc nl by (auto simp: nval_Suc)
  then show "magv w = x" unfolding w by (simp add: magv_def)
  show "bg_sign w = bg_sign v1" by (simp add: w)
  have top: "?zs ! (?k - 1) \<noteq> 0"
  proof (cases "carry = 0")
    case False
    then have "low32 carry \<noteq> 0" using lc by (metis unat_eq_0)
    then show ?thesis using False nl by simp
  next
    case True
    show ?thesis
    proof
      assume "?zs ! (?k - 1) = 0"
      then have "nval ys n = nval ys (n - 1)" using True n(2) nval_Suc [of ys "n - 1"] by simp
      then show False using nval_bound [of ys "n - 1"] val low True by simp
    qed
  qed
  show "phy_bigint_shallow_valid c2 w" unfolding w
  proof (rule value_of_limbs(1))
    show "phy_bigint_handle_valid c2 v1" "length ?zs \<le> max_limbs (ec_limits c2)"
      using moved_handle [OF mw] zl w by (simp_all add: phy_bigint_handle_valid_def)
    show "?k \<le> length ?zs" using nl by auto
    have "?k \<noteq> 0" using n(2) by simp
    then show "?k = 0 \<Longrightarrow> bg_sign v1 = 0" by blast
  qed (use top s in blast)
qed

lemma mul_small_loop:
  assumes ok: "ctx_ok c" and n: "n \<le> length xs"
  shows "outcome (for_each [0..<n] (mul_small_limb f) (xs, 0, c))
    (\<lambda>(ys, carry, c'). length ys = length xs \<and> stepping n c c' \<and> unat carry < base \<and>
       nval ys n + unat carry * base ^ n = unat f * nval xs n)
    (\<lambda>st (ys, carry, c'). length ys = length xs \<and> step_failed n c st c')"
proof -
  let ?I = "\<lambda>k (ys :: u32 list, carry :: u64, c'). length ys = length xs \<and> stepping k c c' \<and> unat carry < base \<and>
      nval ys k + unat carry * base ^ k = unat f * nval xs k \<and> (\<forall>q \<ge> k. ys ! q = xs ! q)"
  let ?E = "\<lambda>st (ys :: u32 list, carry :: u64, c'). length ys = length xs \<and> step_failed n c st c'"
  have "outcome (for_each [0..<n] (mul_small_limb f) (xs, 0, c)) (?I (length [0..<n])) ?E"
  proof (rule outcome_for_each)
    show "?I 0 (xs, 0, c)" using ok by simp
    fix k st assume k: "k < length [0..<n]" and I: "?I k st"
    obtain ys carry c' where st: "st = (ys, carry, c')" by (cases st)
    obtain s c1 where step: "phy_exact_step 1 c' = (s, c1)" by fastforce
    have sp: "outcome (s, c1) (stepping (Suc k) c) (step_failed n c)"
      using step_in_loop [of k c c' n] I k step by (simp add: st)
    let ?p = "wide (ys ! k) * wide f + carry"
    have cb: "unat carry < base" using I by (simp add: st)
    have w0: "wide 0 = 0" by (simp add: wide_def)
    have p: "unat ?p = unat (xs ! k) * unat f + unat carry" "unat (high32 ?p) < base"
      using mul_acc [OF cb, of "ys ! k" f 0] I by (simp_all add: st w0)
    have v: "nval (ys[k := low32 ?p]) (Suc k) + unat (high32 ?p) * base ^ Suc k = unat f * nval xs (Suc k)"
      using store_limb [of k ys ?p] I k n p(1) by (simp add: st nval_Suc algebra_simps)
    have idx: "[0..<n] ! k = k" using k by simp
    have eq: "mul_small_limb f ([0..<n] ! k) st = (if s \<noteq> PHY_OK then (s, ys, carry, c1)
        else (PHY_OK, ys[k := low32 ?p], high32 ?p, c1))"
      unfolding st mul_small_limb_def prod.case step Let_def idx ..
    show "outcome (mul_small_limb f ([0..<n] ! k) st) (?I (Suc k)) ?E"
      unfolding eq using sp v p(2) I by (simp add: st)
  qed
  then show ?thesis by (rule outcome_mono) auto
qed

text \<open>What the two small operations have in common.\<close>

definition grown :: "nat \<Rightarrow> phy_bigint \<Rightarrow> phy_exact_context \<Rightarrow> phy_bigint \<times> phy_exact_context \<Rightarrow> bool" where
  "grown x v c st \<longleftrightarrow> (case st of (v', c') \<Rightarrow> moved (bg_count v) v c v' c' \<and> phy_bigint_shallow_valid c' v' \<and>
     0 \<le> bg_sign v' \<and> magv v' = x \<and> capacity v' \<le> max (capacity v) (max 4 (2 * (bg_count v + 1))))"

abbreviation grow_failed :: "phy_bigint \<Rightarrow> phy_exact_context \<Rightarrow> phy_status \<Rightarrow> phy_bigint \<times> phy_exact_context \<Rightarrow> bool" where
  "grow_failed v c \<equiv> \<lambda>st (v', c'). moved (bg_count v) v c v' c' \<and>
     shortage (bg_count v) (max 2 (bg_count v + 1)) (max 16 (8 * (bg_count v + 1))) c st"

lemma reserve_for_carry:
  assumes ok: "ctx_ok c" and v: "phy_bigint_shallow_valid c v" "limb_bytes v \<le> ec_bytes c" "0 \<le> bg_sign v" "bg_count v \<noteq> 0"
    and rs: "phy_bigint_reserve (bg_count v + 1) (v, c) = (st, v1, c1)"
  shows "st \<noteq> PHY_OK \<Longrightarrow> grow_failed v c st (v1, c1)"
    "st = PHY_OK \<Longrightarrow> moved 0 v c v1 c1 \<and> bg_count v1 = bg_count v \<and> bg_count v + 1 \<le> capacity v1 \<and> ctx_ok c1 \<and>
       nval (bg_limbs v1) (bg_count v) = magv v \<and> bg_sign v1 = 1 \<and> base ^ (bg_count v - 1) \<le> magv v \<and>
       capacity v1 \<le> max (capacity v) (max 4 (2 * (bg_count v + 1)))"
proof -
  note res = reserve_spec [OF ok v(1,2), of "bg_count v + 1", unfolded rs]
  show "grow_failed v c st (v1, c1)" if "st \<noteq> PHY_OK"
    using res that by (auto intro: moved_mono shortage_mono)
  assume okst: "st = PHY_OK"
  then have r: "moved 0 v c v1 c1" "bg_count v1 = bg_count v" "bg_count v + 1 \<le> capacity v1" "bg_sign v1 = bg_sign v"
    "capacity v1 \<le> max (capacity v) (max 1 (2 * (bg_count v + 1)))" "\<forall>i < bg_count v. bg_limbs v1 ! i = bg_limbs v ! i"
    using res by simp_all
  have "bg_sign v = 1" using v(1,3,4) by (auto simp: phy_bigint_shallow_valid_def)
  then have f6: "bg_sign v1 = 1" using r(4) by simp
  have f7: "base ^ (bg_count v - 1) \<le> magv v"
    using v(1,4) nval_top [of "bg_count v" "bg_limbs v"] by (simp add: magv_def phy_bigint_shallow_valid_def)
  have f5: "nval (bg_limbs v1) (bg_count v) = magv v"
    unfolding magv_def by (rule nval_cong) (use r(6) in blast)
  have f8: "capacity v1 \<le> max (capacity v) (max 4 (2 * (bg_count v + 1)))"
    using r(5) by (rule order_trans) simp
  have f4: "ctx_ok c1" using moved_handle [OF r(1)] by blast
  show "moved 0 v c v1 c1 \<and> bg_count v1 = bg_count v \<and> bg_count v + 1 \<le> capacity v1 \<and> ctx_ok c1 \<and>
       nval (bg_limbs v1) (bg_count v) = magv v \<and> bg_sign v1 = 1 \<and> base ^ (bg_count v - 1) \<le> magv v \<and>
       capacity v1 \<le> max (capacity v) (max 4 (2 * (bg_count v + 1)))"
    by (rule conjI [OF r(1) conjI [OF r(2) conjI [OF r(3) conjI [OF f4 conjI [OF f5 conjI [OF f6 conjI [OF f7 f8]]]]]]])
qed

text \<open>Inside the limits a step can only fail for the step limit or the cancel callback.\<close>

lemma shortage_steps:
  assumes "spent j c c1" "shortage k 0 0 c1 st" "j + k \<le> k'"
  shows "shortage k' m b c st"
proof -
  have "ctx_ok c1" "same_env c c1" "ec_steps c1 \<le> ec_steps c + j" using spentD [OF assms(1)] by simp_all
  then show ?thesis
    using assms(2,3) by (auto simp: shortage_def ctx_ok_def same_env_def)
qed

lemma small_step_failed:
  assumes "moved 0 v c v1 c1" "step_failed k c1 st c2" "length ys = capacity v1" "k \<le> bg_count v"
  shows "grow_failed v c st (v1\<lparr>bg_limbs := ys\<rparr>, c2)"
proof -
  have sp: "stepping k c1 c2" "shortage k 0 0 c1 st" using assms(2) by (simp_all add: step_failed_def)
  have "moved (0 + k) v c (v1\<lparr>bg_limbs := ys\<rparr>) c2" by (rule moved_stepping [OF assms(1) sp(1)]) (simp_all add: assms(3))
  moreover have "shortage (bg_count v) (max 2 (bg_count v + 1)) (max 16 (8 * (bg_count v + 1))) c st"
    using assms(1,4) by (intro shortage_steps [OF _ sp(2)]) (auto simp: moved_def)
  ultimately show ?thesis using assms(4) by (auto intro: moved_mono)
qed

lemma multiply_small_spec:
  assumes ok: "ctx_ok c" and v: "phy_bigint_shallow_valid c v" "limb_bytes v \<le> ec_bytes c" "0 \<le> bg_sign v" and f: "f \<noteq> 0"
  shows "outcome (multiply_small_in_place f (v, c)) (grown (unat f * magv v) v c) (grow_failed v c)"
proof (cases "bg_count v = 0 \<or> f = 1")
  case True
  then have "unat f * magv v = magv v" by (auto simp: magv_def)
  then show ?thesis
    using True v moved_refl [OF ok v(1)] by (auto simp: multiply_small_in_place_def grown_def)
next
  case False
  note False' = False
  then have n0: "bg_count v \<noteq> 0" by simp
  obtain st v1 c1 where rs: "phy_bigint_reserve (bg_count v + 1) (v, c) = (st, v1, c1)" by (metis prod_cases3)
  note rv = reserve_for_carry [OF ok v n0 rs]
  show ?thesis
  proof (cases "st = PHY_OK")
    case False
    then show ?thesis using rv(1)
      unfolding multiply_small_in_place_def prod.case if_not_P [OF False'] if_not_P [OF f] rs by simp
  next
    case True
    then have r: "moved 0 v c v1 c1" "bg_count v1 = bg_count v" "bg_count v + 1 \<le> capacity v1" "ctx_ok c1"
      "nval (bg_limbs v1) (bg_count v) = magv v" "bg_sign v1 = 1" "base ^ (bg_count v - 1) \<le> magv v"
      "capacity v1 \<le> max (capacity v) (max 4 (2 * (bg_count v + 1)))" using rv(2) by blast+
    obtain s2 ys carry c2 where lp: "for_each [0..<bg_count v] (mul_small_limb f) (bg_limbs v1, 0, c1) = (s2, ys, carry, c2)"
      by (metis prod_cases4)
    define w where "w = (if carry \<noteq> 0 then v1\<lparr>bg_limbs := ys[bg_count v := low32 carry], bg_count := bg_count v + 1\<rparr>
        else v1\<lparr>bg_limbs := ys\<rparr>)"
    have eq: "multiply_small_in_place f (v, c) =
        (if s2 \<noteq> PHY_OK then (s2, v1\<lparr>bg_limbs := ys\<rparr>, c2) else (PHY_OK, w, c2))"
      unfolding multiply_small_in_place_def prod.case if_not_P [OF False'] if_not_P [OF f] rs r(2) lp w_def
      using True by simp
    have "bg_count v \<le> length (bg_limbs v1)" using r(3) by simp
    note loop = mul_small_loop [OF r(4) this, of f, unfolded lp]
    show ?thesis
    proof (cases "s2 = PHY_OK")
      case False
      then show ?thesis using loop small_step_failed [OF r(1), of "bg_count v" s2 c2 ys] unfolding eq by simp
    next
      case ok2: True
      have y: "length ys = capacity v1" "stepping (bg_count v) c1 c2" "unat carry < base"
        "nval ys (bg_count v) + unat carry * base ^ bg_count v = unat f * magv v" using loop ok2 r(5) by simp_all
      have "1 * magv v \<le> unat f * magv v" using f by (intro mult_le_mono1) (simp add: Suc_le_eq unat_gt_0)
      then have low: "base ^ (bg_count v - 1) \<le> unat f * magv v" using r(7) by linarith
      have n1: "0 < bg_count v" using n0 by simp
      note co = carry_out [OF r(1) y(2,1) r(2) n1 r(3) y(3,4) low, folded w_def]
      have "grown (unat f * magv v) v c (w, c2)"
        using co(1-4) r(6,8) unfolding grown_def prod.case co(5) [OF disjI1 [OF r(6)]] by simp
      then show ?thesis using ok2 unfolding eq by simp
    qed
  qed
qed

lemma add_small_loop_spec:
  assumes "ctx_ok c" "i \<le> n" "n \<le> length xs" "unat carry < base"
  shows "outcome (add_small_loop n i (xs, carry, c))
    (\<lambda>(ys, carry', c'). length ys = length xs \<and> stepping (n - i) c c' \<and> unat carry' < base \<and>
       nval ys n + unat carry' * base ^ n = nval xs n + unat carry * base ^ i)
    (\<lambda>st (ys, carry', c'). length ys = length xs \<and> step_failed (n - i) c st c')"
  using assms
proof (induction "n - i" arbitrary: i xs carry c)
  case 0
  then show ?case by (subst add_small_loop.simps) simp
next
  case (Suc k)
  have i: "i < n" "i < length xs" using Suc by simp_all
  show ?case
  proof (cases "carry = 0")
    case True
    then show ?thesis using Suc.prems by (subst add_small_loop.simps) simp
  next
    case False
    obtain s c1 where step: "phy_exact_step 1 c = (s, c1)" by fastforce
    note st1 = step_one [OF Suc.prems(1), unfolded step]
    let ?p = "wide (xs ! i) + carry"
    have p: "unat ?p = unat (xs ! i) + unat carry"
      using unat_add_u64 [of "wide (xs ! i)" carry] unat_limb [of "xs ! i"] Suc.prems(4) by (simp add: base_def)
    have "unat ?p < 2 * base" using p unat_limb [of "xs ! i"] Suc.prems(4) by linarith
    then have hb: "unat (high32 ?p) < base" using high32_less [of ?p 2] by (simp add: base_def)
    let ?zs = "xs[i := low32 ?p]"
    have eq: "add_small_loop n i (xs, carry, c) = (if s \<noteq> PHY_OK then (s, xs, carry, c1)
        else add_small_loop n (Suc i) (?zs, high32 ?p, c1))"
      using False i by (subst add_small_loop.simps) (simp add: step [unfolded One_nat_def] Let_def)
    show ?thesis
    proof (cases "s = PHY_OK")
      case False
      then show ?thesis using st1 step_failed_mono [of 1 c s c1 "n - i"] i unfolding eq by simp
    next
      case True
      then have s1: "stepping 1 c c1" using st1 by simp
      have "nval ?zs n + unat (xs ! i) * base ^ i = nval xs n + unat (low32 ?p) * base ^ i"
        using nval_update [OF i] .
      moreover have "unat ?p * base ^ i = unat (low32 ?p) * base ^ i + unat (high32 ?p) * base ^ Suc i" by (rule split_acc)
      ultimately have v: "nval ?zs n + unat (high32 ?p) * base ^ Suc i = nval xs n + unat carry * base ^ i"
        unfolding p by (simp add: distrib_right)
      have k: "k = n - Suc i" "Suc i \<le> n" "n - i = 1 + (n - Suc i)" using Suc.hyps(2) i by simp_all
      have "n \<le> length ?zs" using Suc.prems(3) by simp
      from Suc.hyps(1) [OF k(1) stepping_ok [OF s1] k(2) this hb]
      show ?thesis unfolding eq if_not_P [OF not_not [THEN iffD2, OF True]]
      proof (rule outcome_mono, goal_cases)
        case (1 t)
        then show ?case using stepping_trans [OF s1] v unfolding k(3) by auto
      next
        case (2 st t)
        then show ?case using step_failed_back [OF s1] unfolding k(3) by auto
      qed
    qed
  qed
qed

lemma add_small_spec:
  assumes ok: "ctx_ok c" and v: "phy_bigint_shallow_valid c v" "limb_bytes v \<le> ec_bytes c" "0 \<le> bg_sign v"
  shows "outcome (add_small_in_place a (v, c)) (grown (magv v + unat a) v c) (grow_failed v c)"
proof -
  consider (zero) "a = 0" | (empty) "a \<noteq> 0" "bg_count v = 0" | (loop) "a \<noteq> 0" "bg_count v \<noteq> 0" by blast
  then show ?thesis
  proof cases
    case zero
    then show ?thesis using v moved_refl [OF ok v(1)] by (simp add: add_small_in_place_def grown_def)
  next
    case empty
    have eq: "add_small_in_place a (v, c) = phy_bigint_assign_u64 (wide a) 1 (v, c)"
      using empty by (simp add: add_small_in_place_def)
    show ?thesis unfolding eq
    proof (rule outcome_mono [OF assign_u64_spec [OF ok v(1,2)]], simp, goal_cases)
      case (1 t)
      obtain v' c' where t: "t = (v', c')" by (cases t)
      have m: "moved 0 v c v' c'" "phy_bigint_shallow_valid c' v'" "ival v' = int (unat a)" "capacity v' \<le> max (capacity v) 4"
        using 1 by (simp_all add: t)
      have "0 \<le> bg_sign v'" "int (magv v') = int (unat a)"
        using sign_of_nonneg [OF m(2)] m(3) by (metis of_nat_0_le_iff)+
      then have "0 \<le> bg_sign v'" "magv v' = unat a" by (simp_all only: of_nat_eq_iff)
      moreover have "magv v = 0" using empty by (simp add: magv_def)
      ultimately show ?case using m empty by (auto simp: t grown_def)
    next
      case (2 st t)
      then show ?case using empty shortage_mono [of 0 2 16 c st 0 "max 2 (bg_count v + 1)" "max 16 (8 * (bg_count v + 1))"]
        by (cases t) simp
    qed
  next
    case loop
    obtain st v1 c1 where rs: "phy_bigint_reserve (bg_count v + 1) (v, c) = (st, v1, c1)" by (metis prod_cases3)
    note rv = reserve_for_carry [OF ok v loop(2) rs]
    show ?thesis
    proof (cases "st = PHY_OK")
      case False
      then show ?thesis using rv(1)
        unfolding add_small_in_place_def prod.case if_not_P [OF loop(1)] if_not_P [OF loop(2)] rs by simp
    next
      case True
      then have r: "moved 0 v c v1 c1" "bg_count v1 = bg_count v" "bg_count v + 1 \<le> capacity v1" "ctx_ok c1"
        "nval (bg_limbs v1) (bg_count v) = magv v" "bg_sign v1 = 1" "base ^ (bg_count v - 1) \<le> magv v"
        "capacity v1 \<le> max (capacity v) (max 4 (2 * (bg_count v + 1)))" using rv(2) by blast+
      obtain s2 ys carry c2 where lp: "add_small_loop (bg_count v) 0 (bg_limbs v1, wide a, c1) = (s2, ys, carry, c2)"
        by (metis prod_cases4)
      define w where "w = (if carry \<noteq> 0 then v1\<lparr>bg_limbs := ys[bg_count v := low32 carry], bg_count := bg_count v + 1\<rparr>
          else v1\<lparr>bg_limbs := ys\<rparr>)"
      have eq: "add_small_in_place a (v, c) =
          (if s2 \<noteq> PHY_OK then (s2, v1\<lparr>bg_limbs := ys\<rparr>, c2) else (PHY_OK, w, c2))"
        unfolding add_small_in_place_def prod.case if_not_P [OF loop(1)] if_not_P [OF loop(2)] rs r(2) lp w_def
        using True by simp
      have "bg_count v \<le> length (bg_limbs v1)" using r(3) by simp
      note lo = add_small_loop_spec [OF r(4) le0 this, of "wide a", unfolded lp, simplified]
      show ?thesis
      proof (cases "s2 = PHY_OK")
        case False
        then show ?thesis using lo small_step_failed [OF r(1), of "bg_count v" s2 c2 ys] unfolding eq by simp
      next
        case ok2: True
        have y: "length ys = capacity v1" "stepping (bg_count v) c1 c2" "unat carry < base"
          "nval ys (bg_count v) + unat carry * base ^ bg_count v = magv v + unat a" using lo ok2 r(5) by simp_all
        have low: "base ^ (bg_count v - 1) \<le> magv v + unat a" using r(7) by simp
        have n1: "0 < bg_count v" using loop(2) by simp
        note co = carry_out [OF r(1) y(2,1) r(2) n1 r(3) y(3,4) low, folded w_def]
        have "grown (magv v + unat a) v c (w, c2)"
          using co(1-4) r(6,8) unfolding grown_def prod.case co(5) [OF disjI1 [OF r(6)]] by simp
        then show ?thesis using ok2 unfolding eq by simp
      qed
    qed
  qed
qed

section \<open>Digit strings\<close>

text \<open>The decimal value of a digit string, and what a text denotes.\<close>

definition dec_value :: "string \<Rightarrow> nat" where
  "dec_value ds = foldl (\<lambda>a ch. 10 * a + unat (digit_value ch)) 0 ds"

definition read_number :: "string \<Rightarrow> int option" where
  "read_number text =
     (case read_sign text of (sign, ds) \<Rightarrow>
      if ds = [] \<or> \<not> list_all digit_char ds then None else Some (sign * int (dec_value ds)))"

lemma dec_value_Nil [simp]: "dec_value [] = 0"
  by (simp add: dec_value_def)

lemma dec_value_snoc: "dec_value (ds @ [ch]) = 10 * dec_value ds + unat (digit_value ch)"
  by (simp add: dec_value_def)

lemma digit_range: "digit_char ch \<Longrightarrow> (of_char ch :: nat) - 48 < 10"
  unfolding digit_char_def by arith

lemma unat_digit: "digit_char ch \<Longrightarrow> unat (digit_value ch) = of_char ch - 48"
  using digit_range [of ch] by (simp add: digit_value_def unsigned_of_nat take_bit_nat_eq_self)

lemma digit_less: "digit_char ch \<Longrightarrow> unat (digit_value ch) < 10"
  using digit_range [of ch] by (simp add: unat_digit)

lemma dec_value_bound: "list_all digit_char ds \<Longrightarrow> dec_value ds < 10 ^ length ds"
proof (induction ds rule: rev_induct)
  case (snoc ch ds)
  then have "unat (digit_value ch) < 10" "dec_value ds < 10 ^ length ds" using digit_less by simp_all
  then have "10 * dec_value ds + unat (digit_value ch) < 10 * (dec_value ds + 1)" by simp
  also have "\<dots> \<le> 10 * 10 ^ length ds" using \<open>dec_value ds < 10 ^ length ds\<close> by (intro mult_le_mono2) simp
  finally show ?case by (simp add: dec_value_snoc)
qed simp

text \<open>A number of \<open>i\<close> digits has at most \<open>i div 9 + 1\<close> limbs, since \<open>10 ^ 9 < 2 ^ 32\<close>.\<close>

lemma ten_power_base: "10 ^ i \<le> base ^ (i div 9 + 1)"
proof -
  have "(10 :: nat) ^ i = (10 ^ 9) ^ (i div 9) * 10 ^ (i mod 9)"
    by (simp only: power_mult [symmetric] power_add [symmetric]) simp
  also have "\<dots> \<le> base ^ (i div 9) * base ^ 1"
  proof (rule mult_le_mono)
    show "((10 :: nat) ^ 9) ^ (i div 9) \<le> base ^ (i div 9)" by (rule power_mono) (simp_all add: base_def)
    have "(10 :: nat) ^ (i mod 9) \<le> 10 ^ 9" by (rule power_increasing) simp_all
    then show "(10 :: nat) ^ (i mod 9) \<le> base ^ 1" by (simp add: base_def)
  qed
  finally show ?thesis by (simp add: mult.commute)
qed

lemma count_bound:
  assumes "phy_bigint_shallow_valid c v" "magv v < 10 ^ i"
  shows "bg_count v \<le> i div 9 + 1"
proof (rule ccontr)
  assume "\<not> bg_count v \<le> i div 9 + 1"
  then have "0 < bg_count v" "i div 9 + 1 \<le> bg_count v - 1" by simp_all
  then have "base ^ (i div 9 + 1) \<le> base ^ (bg_count v - 1)" "base ^ (bg_count v - 1) \<le> magv v"
    using assms(1) nval_top [of "bg_count v" "bg_limbs v"] power_increasing [of "i div 9 + 1" "bg_count v - 1" base]
    by (simp_all add: magv_def phy_bigint_shallow_valid_def)
  then show False using ten_power_base [of i] assms(2) by linarith
qed

section \<open>The digit loop\<close>

definition digit_limbs :: "nat \<Rightarrow> nat" where
  "digit_limbs n = n div 9 + 1"

definition reading :: "nat \<Rightarrow> nat \<Rightarrow> string \<Rightarrow> phy_bigint \<Rightarrow> phy_exact_context \<Rightarrow> phy_bigint \<times> phy_exact_context \<Rightarrow> bool" where
  "reading n k ds t c st \<longleftrightarrow> (case st of (t', c') \<Rightarrow> moved (2 * digit_limbs n * k) t c t' c' \<and>
     phy_bigint_shallow_valid c' t' \<and> 0 \<le> bg_sign t' \<and> magv t' = dec_value (take k ds) \<and>
     capacity t' \<le> 2 * (digit_limbs n + 1))"

text \<open>One of the two small operations inside the loop.\<close>

lemma small_in_loop:
  assumes t: "capacity t = 0" and m: "moved k t c v c1" "phy_bigint_shallow_valid c1 v" "capacity v \<le> 2 * (L + 1)"
    and cnt: "bg_count v \<le> L" "1 \<le> L" and K: "k + L \<le> K"
    and f: "outcome r (grown x v c1) (grow_failed v c1)"
  shows "outcome r (\<lambda>(v', c'). moved (k + L) t c v' c' \<and> phy_bigint_shallow_valid c' v' \<and> 0 \<le> bg_sign v' \<and>
      magv v' = x \<and> capacity v' \<le> 2 * (L + 1))
    (\<lambda>st (v', c'). moved K t c v' c' \<and> shortage K (L + 1) (16 * (L + 1)) c st)"
proof (rule outcome_mono [OF f], goal_cases)
  case (1 s)
  obtain v' c' where s: "s = (v', c')" by (cases s)
  have g: "moved (bg_count v) v c1 v' c'" "phy_bigint_shallow_valid c' v'" "0 \<le> bg_sign v'" "magv v' = x"
    "capacity v' \<le> max (capacity v) (max 4 (2 * (bg_count v + 1)))" using 1 by (simp_all add: s grown_def)
  have "max (capacity v) (max 4 (2 * (bg_count v + 1))) \<le> 2 * (L + 1)" using m(3) cnt by simp
  then have "capacity v' \<le> 2 * (L + 1)" using g(5) by linarith
  then show ?case using g(2-4) moved_mono [OF moved_trans [OF m(1) g(1)], of "k + L"] cnt(1) by (simp add: s)
next
  case (2 st s)
  obtain v' c' where s: "s = (v', c')" by (cases s)
  have g: "moved (bg_count v) v c1 v' c'" "shortage (bg_count v) (max 2 (bg_count v + 1)) (max 16 (8 * (bg_count v + 1))) c1 st"
    using 2(2) by (simp_all add: s)
  have "ec_bytes c1 \<le> ec_bytes c + 8 * (L + 1)" using m(1,3) t by (simp add: moved_def)
  moreover have "max 16 (8 * (bg_count v + 1)) \<le> 8 * (L + 1)" "max 2 (bg_count v + 1) \<le> L + 1" using cnt by simp_all
  ultimately have "shortage K (L + 1) (16 * (L + 1)) c st"
    by (intro shortage_back [OF _ g(2)]) (use m(1) cnt K in \<open>auto simp: moved_def\<close>)
  then show ?case using moved_mono [OF moved_trans [OF m(1) g(1)], of K] cnt K by (simp add: s)
qed

lemma read_digits_spec:
  assumes ok: "ctx_ok c" and t: "phy_bigint_shallow_valid c t" "t = fresh c" and ds: "list_all digit_char ds"
  defines "n \<equiv> length ds"
  shows "outcome (for_each ds read_digit (t, c)) (reading n n ds t c)
    (\<lambda>st (t', c'). moved (2 * digit_limbs n * n) t c t' c' \<and>
       shortage (2 * digit_limbs n * n) (digit_limbs n + 1) (16 * (digit_limbs n + 1)) c st)"
proof -
  let ?L = "digit_limbs n" and ?K = "2 * digit_limbs n * n"
  let ?E = "\<lambda>st (t', c'). moved ?K t c t' c' \<and> shortage ?K (?L + 1) (16 * (?L + 1)) c st"
  have t0: "capacity t = 0" using t(2) by simp
  have "outcome (for_each ds read_digit (t, c)) (reading n (length ds) ds t c) ?E"
  proof (rule outcome_for_each)
    show "reading n 0 ds t c (t, c)"
      using t moved_refl [OF ok t(1)] by (simp add: reading_def magv_def valid_sign [OF t(1)])
    fix k st assume k: "k < length ds" and I: "reading n k ds t c st"
    obtain v c1 where st: "st = (v, c1)" by (cases st)
    have i: "moved (2 * ?L * k) t c v c1" "phy_bigint_shallow_valid c1 v" "0 \<le> bg_sign v" "magv v = dec_value (take k ds)"
      "capacity v \<le> 2 * (?L + 1)" using I by (simp_all add: reading_def st)
    have L1: "1 \<le> ?L" by (simp add: digit_limbs_def)
    have lim: "j div 9 + 1 \<le> ?L" if "j \<le> n" for j using div_le_mono [OF that, of 9] by (simp add: digit_limbs_def)
    have dk: "list_all digit_char (take k ds)" "digit_char (ds ! k)"
      using ds k by (auto simp: list_all_length)
    have mv: "magv v < 10 ^ k" using dec_value_bound [OF dk(1)] i(4) k by simp
    have cv: "bg_count v \<le> ?L" using count_bound [OF i(2) mv] lim [of k] k by (simp add: n_def)
    have Kk: "2 * ?L * k + ?L + ?L \<le> ?K"
      using k mult_le_mono2 [of "Suc k" n "2 * ?L"] by (simp add: n_def algebra_simps)
    have bv: "limb_bytes v \<le> ec_bytes c1" using i(1) t0 by (simp add: moved_def)
    have ok1: "ctx_ok c1" using moved_handle [OF i(1)] by blast
    have "outcome (multiply_small_in_place 10 (v, c1)) (grown (unat (10 :: u32) * magv v) v c1) (grow_failed v c1)"
      by (rule multiply_small_spec [OF ok1 i(2) bv i(3)]) simp
    then have g1: "outcome (multiply_small_in_place 10 (v, c1)) (grown (10 * magv v) v c1) (grow_failed v c1)" by simp
    have K1: "2 * ?L * k + ?L \<le> ?K" using Kk by linarith
    note o1 = small_in_loop [OF t0 i(1,2,5) cv L1 K1 g1]
    show "outcome (read_digit (ds ! k) st) (reading n (Suc k) ds t c) ?E"
      unfolding read_digit_def st outcome_andthen
    proof (rule outcome_mono [OF o1], goal_cases)
      case (1 s)
      obtain w c2 where s: "s = (w, c2)" by (cases s)
      have w: "moved (2 * ?L * k + ?L) t c w c2" "phy_bigint_shallow_valid c2 w" "0 \<le> bg_sign w"
        "magv w = 10 * magv v" "capacity w \<le> 2 * (?L + 1)" using 1 by (simp_all add: s)
      have "magv w < 10 ^ Suc k" using w(4) mv by simp
      then have cw: "bg_count w \<le> ?L" using count_bound [OF w(2)] lim [of "Suc k"] k unfolding n_def by (meson Suc_leI le_trans)
      have bw: "limb_bytes w \<le> ec_bytes c2" using w(1) t0 by (simp add: moved_def)
      have ok2: "ctx_ok c2" using moved_handle [OF w(1)] by blast
      note o2 = small_in_loop [OF t0 w(1,2,5) cw L1 Kk add_small_spec [OF ok2 w(2) bw w(3), of "digit_value (ds ! k)"]]
      have val: "magv w + unat (digit_value (ds ! k)) = dec_value (take (Suc k) ds)"
        using w(4) i(4) k by (simp add: take_Suc_conv_app_nth dec_value_snoc)
      have steps: "2 * ?L * k + ?L + ?L = 2 * ?L * Suc k" by simp
      show ?case unfolding s
        by (rule outcome_mono [OF o2 [unfolded val steps]]) (auto simp: reading_def)
    qed
  qed
  then show ?thesis by (simp add: n_def)
qed

lemma read_body_spec:
  assumes ok: "ctx_ok c" and t: "phy_bigint_shallow_valid c t" "t = fresh c" and ds: "list_all digit_char ds"
    and sg: "sign = 1 \<or> sign = - 1"
  defines "n \<equiv> length ds"
  shows "outcome (read_body ds sign (t, c)) (built_value (2 * digit_limbs n * n) (sign * int (dec_value ds)) t c)
    (build_failed (2 * digit_limbs n * n) (digit_limbs n + 1) (16 * (digit_limbs n + 1)) t c)"
proof -
  obtain st v c1 where r: "for_each ds read_digit (t, c) = (st, v, c1)" by (metis prod_cases3)
  note sp = read_digits_spec [OF ok t ds, unfolded r]
  show ?thesis
  proof (cases "st = PHY_OK")
    case False
    then show ?thesis using sp by (simp add: read_body_def r build_failed_def n_def)
  next
    case True
    then have v: "moved (2 * digit_limbs n * n) t c v c1" "phy_bigint_shallow_valid c1 v" "magv v = dec_value ds"
      using sp by (simp_all add: reading_def n_def)
    note re = resigned_spec [OF v(2) sg]
    have "moved (2 * digit_limbs n * n) t c (resigned v sign) c1"
      using v(1) re(3,4) by (simp add: moved_def)
    then show ?thesis using True re(1,2) v(3) by (simp add: read_body_def r built_value_def)
  qed
qed

interpretation read_op: transactional "\<lambda>c. list_all digit_char ds \<and> (sign = 1 \<or> sign = - 1)" "read_body ds sign"
    "sign * int (dec_value ds)" "2 * digit_limbs (length ds) * length ds" "digit_limbs (length ds) + 1"
    "16 * (digit_limbs (length ds) + 1)"
  for ds sign
proof (unfold_locales, goal_cases)
  case (2 c t)
  then show ?case using read_body_spec [of c t ds sign] unfolding built_value_def build_failed_def by simp
qed simp

section \<open>The operation\<close>

lemma read_sign_cases: "read_sign text = (sign, ds) \<Longrightarrow> (sign = 1 \<or> sign = - 1) \<and> length ds \<le> length text"
  by (auto simp: read_sign_def split: list.splits if_splits)

lemma read_spec:
  fixes str :: string
  assumes ok: "ctx_ok c" and v: "phy_bigint_shallow_valid c v" "limb_bytes v \<le> ec_bytes c"
  defines "n \<equiv> length (snd (read_sign str))"
  defines "K \<equiv> 2 * digit_limbs n * n"
  shows "outcome (phy_bigint_read (Some str) (v, c))
    (\<lambda>(v', c'). moved K v (begun c) v' c' \<and> phy_bigint_shallow_valid c' v' \<and> read_number str = Some (ival v'))
    (\<lambda>st (v', c'). v' = v \<and> moved K v (begun c) v c' \<and>
       (if read_number str = None then st = PHY_ERR_PARSE
        else shortage K (digit_limbs n + 1) (16 * (digit_limbs n + 1)) (begun c) st))"
proof -
  obtain sign ds where rs: "read_sign str = (sign, ds)" by fastforce
  have sg: "sign = 1 \<or> sign = - 1" using read_sign_cases [OF rs] by simp
  show ?thesis
  proof (cases "ds = [] \<or> \<not> list_all digit_char ds")
    case True
    have e: "phy_exact_operation_end (entered c) PHY_ERR_PARSE = (PHY_ERR_PARSE, begun c)"
      using begun_ok [OF ok] by (simp add: end_eq)
    have "phy_bigint_read (Some str) (v, c) = (PHY_ERR_PARSE, v, begun c)"
      using True v(1) by (simp add: phy_bigint_read_def begin_eq [OF ok] rs e)
    moreover have "moved K v (begun c) v (begun c)"
      by (rule moved_refl [OF begun_ok [OF ok]]) (use v(1) shallow_valid_env [OF begun_env(1)] in blast)
    ultimately show ?thesis using True by (simp add: read_number_def rs)
  next
    case False
    then have "list_all digit_char ds" by simp
    have wr: "with_result (read_body ds sign) (v, c) = settle v (andthen (phy_bigint_init (null_bigint, entered c)) (read_body ds sign))"
      by (simp add: with_result_def begin_temporary_def begin_eq [OF ok] andthen_def)
    have eq: "phy_bigint_read (Some str) (v, c) = with_result (read_body ds sign) (v, c)"
      unfolding wr using False v(1) by (simp add: phy_bigint_read_def begin_eq [OF ok] rs)
    have rn: "read_number str = Some (sign * int (dec_value ds))" using False by (simp add: read_number_def rs)
    have nd: "n = length ds" by (simp add: n_def rs)
    show ?thesis unfolding eq K_def nd
      by (rule outcome_mono [OF read_op.transaction [OF _ ok v]]) (use False sg rn in auto)
  qed
qed

end
