(* ===== verification/BigintWrite.thy ===== *)
theory BigintWrite
  imports BigintRead
begin

text \<open>
  Correctness of \<open>phy_bigint_write\<close>: the chunked digits are the canonical decimal text, the
  reported size is exact, and nothing is left charged. Reading the text back gives the value.
\<close>

section \<open>Division in place\<close>

definition same_block :: "phy_bigint \<Rightarrow> phy_bigint \<Rightarrow> bool" where
  "same_block v v' \<longleftrightarrow> capacity v' = capacity v \<and> bg_owner v' = bg_owner v \<and> bg_live v' = bg_live v"

lemma same_block_trans: "same_block u v \<Longrightarrow> same_block v w \<Longrightarrow> same_block u w"
  by (simp add: same_block_def)

lemma count_le:
  assumes "phy_bigint_shallow_valid c a" "phy_bigint_shallow_valid c' b" "magv a \<le> magv b"
  shows "bg_count a \<le> bg_count b"
proof (rule ccontr)
  assume "\<not> bg_count a \<le> bg_count b"
  then have "magv b < magv a"
    unfolding magv_def using assms(1) by (intro nval_count_less) (auto simp: phy_bigint_shallow_valid_def)
  then show False using assms(3) by simp
qed

lemma div_in_place_loop:
  assumes ok: "ctx_ok c" and n: "n \<le> length xs" and s0: "small \<noteq> 0"
  shows "outcome (for_each (rev [0..<n]) (div_in_place_limb small) (xs, 0, c))
    (\<lambda>(ys, carry, c'). length ys = length xs \<and> stepping n c c' \<and> unat carry < unat small \<and>
       nval xs n = unat small * nval ys n + unat carry)
    (\<lambda>st (ys, carry, c'). length ys = length xs \<and> step_failed n c st c')"
proof -
  let ?D = "nval xs" and ?m = "unat small"
  let ?I = "\<lambda>k (ys :: u32 list, carry :: u64, c'). length ys = length xs \<and> stepping k c c' \<and> unat carry < ?m \<and>
      ?D n + ?m * nval ys (n - k) = ?D (n - k) + base ^ (n - k) * unat carry + ?m * nval ys n \<and>
      (\<forall>q < n - k. ys ! q = xs ! q)"
  let ?E = "\<lambda>st (ys :: u32 list, carry :: u64, c'). length ys = length xs \<and> step_failed n c st c'"
  have sm: "0 < ?m" using s0 by (simp add: unat_gt_0)
  have "outcome (for_each (rev [0..<n]) (div_in_place_limb small) (xs, 0, c)) (?I (length (rev [0..<n]))) ?E"
  proof (rule outcome_for_each)
    show "?I 0 (xs, 0, c)" using ok sm by simp
    fix k st assume k: "k < length (rev [0..<n])" and I: "?I k st"
    obtain ys carry c' where st: "st = (ys, carry, c')" by (cases st)
    obtain s c1 where step: "phy_exact_step 1 c' = (s, c1)" by fastforce
    have sp: "outcome (s, c1) (stepping (Suc k) c) (step_failed n c)"
      using step_in_loop [of k c c' n] I k step by (simp add: st)
    define j where "j = n - Suc k"
    have j: "n - k = Suc j" "n - Suc k = j" "j < n" "j < length ys" using k n I by (auto simp: j_def st)
    have idx: "rev [0..<n] ! k = j" using k by (simp add: rev_nth j_def)
    let ?cur = "join32 carry (ys ! j)"
    let ?q = "low32 (?cur div wide small)" and ?r = "?cur mod wide small"
    have cb: "unat carry < ?m" and old: "?D n + ?m * nval ys (Suc j) = ?D (Suc j) + base ^ Suc j * unat carry + ?m * nval ys n"
      and same: "\<forall>q < Suc j. ys ! q = xs ! q" using I unfolding st prod.case j(1) by simp_all
    have x: "ys ! j = xs ! j" using same by simp
    note bal = div_balance [OF cb j(3,4) old x]
    have eq: "div_in_place_limb small (rev [0..<n] ! k) st = (if s \<noteq> PHY_OK then (s, ys, carry, c1)
        else (PHY_OK, ys[j := ?q], ?r, c1))"
      unfolding st div_in_place_limb_def prod.case step Let_def idx ..
    have "?I (Suc k) (ys[j := ?q], ?r, c1)" if "s = PHY_OK"
      unfolding prod.case j(2) using sp bal I that same by (simp add: st)
    then show "outcome (div_in_place_limb small (rev [0..<n] ! k) st) (?I (Suc k)) ?E"
      unfolding eq using sp I by (simp add: st)
  qed
  then show ?thesis by (rule outcome_mono) (auto simp: add.commute)
qed

lemma divide_small_spec:
  assumes ok: "ctx_ok c" and v: "phy_bigint_shallow_valid c v" "0 \<le> bg_sign v" and d: "d \<noteq> 0"
  shows "outcome (divide_small_in_place d (v, c))
    (\<lambda>(x, v', c'). stepping (bg_count v) c c' \<and> phy_bigint_shallow_valid c' v' \<and> 0 \<le> bg_sign v' \<and> same_block v v' \<and>
       magv v' = magv v div unat d \<and> unat x = magv v mod unat d)
    (\<lambda>st (x, v', c'). step_failed (bg_count v) c st c' \<and> same_block v v')"
proof -
  let ?n = "bg_count v"
  have cap: "?n \<le> length (bg_limbs v)" using v(1) by (simp add: phy_bigint_shallow_valid_def)
  obtain s ys carry c1 where lp: "for_each (rev [0..<?n]) (div_in_place_limb d) (bg_limbs v, 0, c) = (s, ys, carry, c1)"
    by (metis prod_cases4)
  note loop = div_in_place_loop [OF ok cap d, unfolded lp]
  let ?w = "v\<lparr>bg_limbs := ys\<rparr>"
  let ?u = "phy_bigint_normalize ?w"
  have eq: "divide_small_in_place d (v, c) = (if s \<noteq> PHY_OK then (s, 0, ?w, c1) else (PHY_OK, low32 carry, ?u, c1))"
    unfolding divide_small_in_place_def prod.case lp ..
  show ?thesis
  proof (cases "s = PHY_OK")
    case False
    then show ?thesis using loop unfolding eq by (simp add: same_block_def)
  next
    case True
    then have y: "length ys = length (bg_limbs v)" "stepping ?n c c1" "unat carry < unat d"
      "magv v = unat d * nval ys ?n + unat carry" using loop by (simp_all add: magv_def)
    have e: "same_env c c1" using y(2) by (simp add: stepping_def spent_def)
    have hw: "phy_bigint_handle_valid c1 ?w" "bg_count ?w \<le> capacity ?w" "capacity ?w \<le> max_limbs (ec_limits c1)"
      using v(1) e y(1) handle_valid_env [OF e, of ?w]
      by (simp_all add: phy_bigint_shallow_valid_def phy_bigint_handle_valid_def same_env_def)
    have "bg_sign ?w = 1 \<or> bg_sign ?w = - 1 \<or> magv ?w = 0"
      using v by (auto simp: phy_bigint_shallow_valid_def magv_def split: if_splits)
    from normalize_valid(1) [OF hw this] have uv: "phy_bigint_shallow_valid c1 ?u" .
    have us: "0 \<le> bg_sign ?u" using v(2) by (simp add: phy_bigint_normalize_def Let_def)
    have "magv ?u = nval ys ?n" unfolding normalize_magv by (simp add: magv_def)
    then have m: "magv ?u = magv v div unat d" using y(3,4) by simp
    have "unat (low32 carry) = unat carry"
      unfolding unat_low32 using y(3) unat_u32_bound [of d] by simp
    then have "unat (low32 carry) = magv v mod unat d" using y(3,4) by simp
    moreover have "same_block v ?u" using y(1) by (simp add: same_block_def)
    ultimately show ?thesis unfolding eq using True uv us m y(2) by simp
  qed
qed

section \<open>Chunks\<close>

fun chunk_value :: "u32 list \<Rightarrow> nat" where
  "chunk_value [] = 0"
| "chunk_value (x # xs) = unat x + 10 ^ 9 * chunk_value xs"

definition chunks_of :: "nat \<Rightarrow> u32 list \<Rightarrow> bool" where
  "chunks_of m ds \<longleftrightarrow> chunk_value ds = m \<and> list_all (\<lambda>x. unat x < 10 ^ 9) ds \<and>
     (m \<noteq> 0 \<longrightarrow> ds \<noteq> [] \<and> last ds \<noteq> 0) \<and> (m = 0 \<longrightarrow> ds = [])"

lemma chunks_of_Cons:
  assumes ds: "chunks_of (m div 10 ^ 9) ds" and x: "unat x = m mod 10 ^ 9" and m: "m \<noteq> 0"
  shows "chunks_of m (x # ds)"
proof -
  have v: "chunk_value (x # ds) = m" using ds x by (simp add: chunks_of_def)
  have "x \<noteq> 0" if "m div 10 ^ 9 = 0"
  proof
    assume "x = 0"
    then have "m mod 10 ^ 9 = 0" using x by simp
    then show False using that m div_mult_mod_eq [of m "10 ^ 9"] by simp
  qed
  then have "last (x # ds) \<noteq> 0" using ds by (cases "m div 10 ^ 9 = 0") (auto simp: chunks_of_def)
  then show ?thesis using v ds x m by (simp add: chunks_of_def)
qed

lemma chunk_loop_spec:
  assumes "ctx_ok c" "phy_bigint_shallow_valid c t" "0 \<le> bg_sign t" "bg_count t \<le> n"
    and "magv t < (10 ^ 9) ^ (limit - length chunks)" "length chunks \<le> limit"
  shows "outcome (chunk_loop limit chunks (t, c))
    (\<lambda>(cs, t', c'). stepping (n * (limit - length chunks)) c c' \<and> same_block t t' \<and>
       (\<exists>ds. cs = chunks @ ds \<and> chunks_of (magv t) ds \<and> length cs \<le> limit))
    (\<lambda>st (cs, t', c'). step_failed (n * (limit - length chunks)) c st c' \<and> same_block t t')"
  using assms
proof (induction "limit - length chunks" arbitrary: chunks t c)
  case 0
  then have "magv t = 0" by simp
  then have "bg_count t = 0" using valid_sign [OF 0(3)] by simp
  then show ?case using 0 \<open>magv t = 0\<close>
    by (subst chunk_loop.simps) (simp add: same_block_def chunks_of_def)
next
  case (Suc k)
  show ?case
  proof (cases "bg_count t = 0")
    case True
    then have "magv t = 0" by (simp add: magv_def)
    then show ?thesis using True Suc.prems(1,6)
      by (subst chunk_loop.simps) (simp add: same_block_def chunks_of_def)
  next
    case False
    let ?B = "1000000000 :: u32"
    obtain s x t1 c1 where dv: "divide_small_in_place ?B (t, c) = (s, x, t1, c1)" by (metis prod_cases4)
    note d = divide_small_spec [OF Suc.prems(1-3), of ?B, unfolded dv]
    have lim: "\<not> limit \<le> length chunks" using Suc.hyps(2) by simp
    have eq: "chunk_loop limit chunks (t, c) =
        (if s = PHY_OK then chunk_loop limit (chunks @ [x]) (t1, c1) else (s, chunks, t1, c1))"
      using False lim by (subst chunk_loop.simps) (simp add: dv)
    have nk: "n * (limit - length chunks) = n + n * (limit - length (chunks @ [x]))"
      using Suc.hyps(2) by (metis diff_Suc_eq_diff_pred length_append_singleton Suc_diff_Suc lim linorder_not_le mult_Suc_right)
    have nle: "bg_count t \<le> n * (limit - length chunks)" unfolding nk using Suc.prems(4) by simp
    show ?thesis
    proof (cases "s = PHY_OK")
      case False
      then show ?thesis using d step_failed_mono [OF _ nle] unfolding eq by simp
    next
      case True
      then have t1: "stepping (bg_count t) c c1" "phy_bigint_shallow_valid c1 t1" "0 \<le> bg_sign t1" "same_block t t1"
        "magv t1 = magv t div 10 ^ 9" "unat x = magv t mod 10 ^ 9" using d by simp_all
      have sn: "stepping n c c1" using stepping_mono [OF t1(1) Suc.prems(4)] .
      have c1: "ctx_ok c1" using stepping_ok [OF sn] .
      have k: "k = limit - length (chunks @ [x])" "length (chunks @ [x]) \<le> limit" using Suc.hyps(2) by simp_all
      have m1: "magv t1 < (10 ^ 9) ^ (limit - length (chunks @ [x]))"
        using Suc.prems(5) unfolding t1(5) k(1) [symmetric] Suc.hyps(2) [symmetric]
        by (simp add: div_less_iff_less_mult mult.commute)
      have "bg_count t1 \<le> bg_count t" by (rule count_le [OF t1(2) Suc.prems(2)]) (simp add: t1(5))
      then have n1: "bg_count t1 \<le> n" using Suc.prems(4) by simp
      have m0: "magv t \<noteq> 0" using False valid_sign [OF Suc.prems(2)] by simp
      note ih = Suc.hyps(1) [OF k(1) c1 t1(2,3) n1 m1 k(2)]
      show ?thesis unfolding eq if_P [OF True]
      proof (rule outcome_mono [OF ih], goal_cases)
        case (1 r)
        obtain cs t' c' where r: "r = (cs, t', c')" by (cases r)
        from 1 obtain ds where h: "stepping (n * (limit - length (chunks @ [x]))) c1 c'" "same_block t1 t'"
          "cs = (chunks @ [x]) @ ds" "chunks_of (magv t1) ds" "length cs \<le> limit" by (auto simp: r)
        have "chunks_of (magv t) (x # ds)" by (rule chunks_of_Cons [OF h(4) [unfolded t1(5)] t1(6) m0])
        moreover have "cs = chunks @ (x # ds)" using h(3) by simp
        ultimately show ?case unfolding r prod.case nk
          using stepping_trans [OF sn h(1)] same_block_trans [OF t1(4) h(2)] h(5) by blast
      next
        case (2 st r)
        then show ?case unfolding nk
          using step_failed_back [OF sn] same_block_trans [OF t1(4)] by (cases r) auto
      qed
    qed
  qed
qed

section \<open>The text of the digits\<close>

lemma digit_of_number: "d < 10 \<Longrightarrow> digit_char (char_of (48 + d)) \<and> unat (digit_value (char_of (48 + d))) = d"
proof -
  assume d: "d < (10 :: nat)"
  then have c: "(of_char (char_of (48 + d) :: char) :: nat) = 48 + d" by (simp add: of_char_of)
  then have "digit_char (char_of (48 + d))" using d by (simp add: digit_char_def)
  then show ?thesis using c unat_digit by simp
qed

lemma dec_value_append: "dec_value (xs @ ys) = dec_value xs * 10 ^ length ys + dec_value ys"
proof (induction ys rule: rev_induct)
  case (snoc y ys)
  have "dec_value (xs @ ys @ [y]) = 10 * dec_value (xs @ ys) + unat (digit_value y)"
    using dec_value_snoc [of "xs @ ys" y] by simp
  then show ?case using snoc by (simp add: dec_value_snoc algebra_simps)
qed simp

lemma low_digits_spec:
  "list_all digit_char (low_digits x) \<and> dec_value (rev (low_digits x)) = unat x \<and>
   length (low_digits x) = decimal_digits_u32 x \<and> low_digits x \<noteq> [] \<and>
   (x \<noteq> 0 \<longrightarrow> last (low_digits x) \<noteq> CHR ''0'')"
proof (induction x rule: low_digits.induct)
  case (1 x)
  let ?d = "char_of (48 + unat (x mod 10)) :: char"
  have d10: "unat (x mod 10) < 10" by (simp add: unat_mod)
  have d: "digit_char ?d" "unat (digit_value ?d) = unat (x mod 10)" using digit_of_number [OF d10] by simp_all
  have u: "unat (x div 10) = unat x div 10" "unat (x mod 10) = unat x mod 10" by (simp_all add: unat_div unat_mod)
  have ten: "10 \<le> x \<longleftrightarrow> x div 10 \<noteq> 0"
  proof -
    have "x div 10 \<noteq> 0 \<longleftrightarrow> unat x div 10 \<noteq> 0" unfolding u(1) [symmetric] by (simp add: unat_eq_0)
    then show ?thesis by (simp add: word_le_nat_alt div_eq_0_iff not_less)
  qed
  show ?case
  proof (cases "x div 10 = 0")
    case True
    then have no: "\<not> 10 \<le> x" using ten by simp
    have ld: "low_digits x = [?d]" "decimal_digits_u32 x = 1"
      unfolding low_digits.simps [of x] decimal_digits_u32.simps [of x] if_not_P [OF no] using True by simp_all
    have small: "unat x mod 10 = unat x"
    proof -
      have "unat x div 10 = 0" using True u(1) by simp
      then show ?thesis by simp
    qed
    have "?d \<noteq> CHR ''0''" if "x \<noteq> 0"
    proof
      assume "?d = CHR ''0''"
      then have "unat (digit_value (CHR ''0'')) = unat x" using d(2) u(2) small by simp
      moreover have "unat (digit_value (CHR ''0'')) = 0" by (simp add: digit_value_def)
      ultimately show False using that by (simp add: unat_eq_0)
    qed
    then show ?thesis using ld d u(2) small dec_value_snoc [of "[]" ?d] by simp
  next
    case False
    then have yes: "10 \<le> x" using ten by simp
    have ld: "low_digits x = ?d # low_digits (x div 10)" "decimal_digits_u32 x = Suc (decimal_digits_u32 (x div 10))"
      unfolding low_digits.simps [of x] decimal_digits_u32.simps [of x] if_P [OF yes] using False by simp_all
    note ih = 1 [OF False]
    have "dec_value (rev (low_digits x)) = 10 * unat (x div 10) + unat (x mod 10)"
      using ih d(2) by (simp add: ld dec_value_snoc)
    then show ?thesis using ih ld d False by (simp add: u)
  qed
qed

lemma zeros_value: "dec_value (replicate k (CHR ''0'')) = 0"
proof (induction k)
  case (Suc k)
  have "unat (digit_value (CHR ''0'')) = 0" by (simp add: digit_value_def)
  then show ?case using Suc dec_value_snoc [of "replicate k (CHR ''0'')" "CHR ''0''"]
    by (simp flip: replicate_append_same)
qed simp

lemma emit_spec:
  "list_all digit_char (emit_u32 x w)" "dec_value (emit_u32 x w) = unat x"
  "length (emit_u32 x w) = max w (decimal_digits_u32 x)"
proof -
  have z: "digit_char (CHR ''0'')" by (simp add: digit_char_def)
  show "list_all digit_char (emit_u32 x w)"
    using low_digits_spec [of x] z by (auto simp: emit_u32_def Let_def list_all_iff)
  show "dec_value (emit_u32 x w) = unat x"
    using low_digits_spec [of x] by (simp add: emit_u32_def Let_def dec_value_append zeros_value)
  show "length (emit_u32 x w) = max w (decimal_digits_u32 x)"
    using low_digits_spec [of x] by (auto simp: emit_u32_def Let_def)
qed

lemma digits_le: "unat x < 10 ^ k \<Longrightarrow> 0 < k \<Longrightarrow> decimal_digits_u32 x \<le> k"
proof (induction k arbitrary: x)
  case (Suc k)
  show ?case
  proof (cases "10 \<le> x")
    case False
    show ?thesis unfolding decimal_digits_u32.simps [of x] if_not_P [OF False] by simp
  next
    case True
    then have u: "10 \<le> unat x" by (simp add: word_le_nat_alt)
    then have "0 < k" using Suc.prems(1) by (cases k) auto
    moreover have "unat (x div 10) < 10 ^ k" using Suc.prems(1) by (simp add: unat_div)
    ultimately have "decimal_digits_u32 (x div 10) \<le> k" using Suc.IH by simp
    then show ?thesis using True by (subst decimal_digits_u32.simps) simp
  qed
qed simp

lemma emit_nine: "unat x < 10 ^ 9 \<Longrightarrow> length (emit_u32 x 9) = 9"
  using digits_le [of x 9] emit_spec(3) [of x 9] by simp

lemma chunks_text_value:
  "list_all (\<lambda>x. unat x < 10 ^ 9) xs \<Longrightarrow>
    dec_value (concat (map (\<lambda>x. emit_u32 x 9) (rev xs))) = chunk_value xs \<and>
    length (concat (map (\<lambda>x. emit_u32 x 9) (rev xs))) = 9 * length xs"
proof (induction xs)
  case (Cons x xs)
  then show ?case
    using emit_nine [of x] by (simp add: dec_value_append emit_spec(2))
qed simp

lemma chunk_value_snoc: "chunk_value (xs @ [y]) = chunk_value xs + (10 ^ 9) ^ length xs * unat y"
  by (induction xs) (simp_all add: algebra_simps)

section \<open>The canonical text\<close>

text \<open>The reference: the shortest decimal representation.\<close>

fun decimal_nat :: "nat \<Rightarrow> string" where
  "decimal_nat m = (if m < 10 then [char_of (48 + m)] else decimal_nat (m div 10) @ [char_of (48 + m mod 10)])"

declare decimal_nat.simps [simp del]

definition decimal_text :: "int \<Rightarrow> string" where
  "decimal_text i = (if i < 0 then ''-'' else []) @ decimal_nat (nat \<bar>i\<bar>)"

lemma char_of_digit: "digit_char ch \<Longrightarrow> char_of (48 + unat (digit_value ch)) = ch"
proof -
  assume "digit_char ch"
  then have "48 + unat (digit_value ch) = (of_char ch :: nat)"
    using unat_digit [of ch] by (simp add: digit_char_def)
  then show ?thesis by (metis char_of_char)
qed

text \<open>A digit string without a leading zero is the canonical text of its value.\<close>

lemma canonical_digits:
  "list_all digit_char ds \<Longrightarrow> ds \<noteq> [] \<Longrightarrow> hd ds \<noteq> CHR ''0'' \<Longrightarrow> ds = decimal_nat (dec_value ds) \<and> 0 < dec_value ds"
proof (induction ds rule: rev_induct)
  case (snoc ch ds)
  let ?d = "unat (digit_value ch)"
  have ch: "digit_char ch" "?d < 10" "char_of (48 + ?d) = ch" using snoc.prems(1) digit_less char_of_digit by simp_all
  show ?case
  proof (cases "ds = []")
    case True
    have "?d \<noteq> 0"
    proof
      assume "?d = 0"
      then have "char_of (48 :: nat) = ch" using ch(3) by simp
      moreover have "of_char (CHR ''0'') = (48 :: nat)" by simp
      then have "char_of (48 :: nat) = CHR ''0''" by (metis char_of_char)
      ultimately show False using snoc.prems(3) True by simp
    qed
    then show ?thesis using True ch dec_value_snoc [of "[]" ch] by (simp add: decimal_nat.simps)
  next
    case False
    then have "ds = decimal_nat (dec_value ds)" "0 < dec_value ds" using snoc by simp_all
    moreover from this have "\<not> 10 * dec_value ds + ?d < 10" by simp
    ultimately show ?thesis using ch by (subst decimal_nat.simps) (simp add: dec_value_snoc)
  qed
qed simp

lemma chunk_text_canonical:
  assumes cs: "chunks_of m cs" and m: "m \<noteq> 0"
  shows "chunk_text b cs = (if b then ''-'' else []) @ decimal_nat m"
    "length (chunk_text b cs) = (if b then 1 else 0) + decimal_digits_u32 (last cs) + (length cs - 1) * 9"
proof -
  have ne: "cs \<noteq> []" "last cs \<noteq> 0" "chunk_value cs = m" "list_all (\<lambda>x. unat x < 10 ^ 9) cs"
    using cs m by (simp_all add: chunks_of_def)
  let ?top = "emit_u32 (last cs) (decimal_digits_u32 (last cs))"
  let ?low = "concat (map (\<lambda>x. emit_u32 x 9) (rev (butlast cs)))"
  have bl: "list_all (\<lambda>x. unat x < 10 ^ 9) (butlast cs)" using ne(4) by (auto simp: list_all_iff dest: in_set_butlastD)
  note lo = chunks_text_value [OF bl]
  have split: "cs = butlast cs @ [last cs]" using ne(1) by simp
  have val: "dec_value (?top @ ?low) = m"
  proof -
    have "dec_value (?top @ ?low) = unat (last cs) * 10 ^ (9 * length (butlast cs)) + chunk_value (butlast cs)"
      using lo by (simp add: dec_value_append emit_spec(2))
    also have "\<dots> = chunk_value (butlast cs @ [last cs])"
      unfolding chunk_value_snoc power_mult by simp
    finally show ?thesis using split ne(3) by simp
  qed
  have top: "?top = rev (low_digits (last cs))"
    using low_digits_spec [of "last cs"] by (simp add: emit_u32_def Let_def)
  have "hd ?top \<noteq> CHR ''0''" "?top \<noteq> []"
    using low_digits_spec [of "last cs"] ne(2) unfolding top by (simp_all add: hd_rev)
  then have hd: "hd (?top @ ?low) \<noteq> CHR ''0''" "?top @ ?low \<noteq> []" by simp_all
  have "list_all digit_char (?top @ ?low)" using emit_spec(1) by (auto simp: list_all_iff)
  from canonical_digits [OF this hd(2,1)] have "?top @ ?low = decimal_nat m" unfolding val by simp
  then show "chunk_text b cs = (if b then ''-'' else []) @ decimal_nat m" by (simp add: chunk_text_def)
  show "length (chunk_text b cs) = (if b then 1 else 0) + decimal_digits_u32 (last cs) + (length cs - 1) * 9"
    using lo emit_spec(3) [of "last cs"] by (simp add: chunk_text_def)
qed

text \<open>The canonical text reads back.\<close>

lemma decimal_nat_digits: "list_all digit_char (decimal_nat m) \<and> dec_value (decimal_nat m) = m \<and> decimal_nat m \<noteq> []"
proof (induction m rule: decimal_nat.induct)
  case (1 m)
  show ?case
  proof (cases "m < 10")
    case True
    then show ?thesis
      using digit_of_number [OF True] dec_value_snoc [of "[]" "char_of (48 + m)"] by (simp add: decimal_nat.simps)
  next
    case False
    then show ?thesis
      using 1 digit_of_number [of "m mod 10"] by (subst (1 2 3) decimal_nat.simps) (simp add: dec_value_snoc)
  qed
qed

lemma read_decimal_text: "read_number (decimal_text i) = Some i"
proof -
  let ?ds = "decimal_nat (nat \<bar>i\<bar>)"
  note d = decimal_nat_digits [of "nat \<bar>i\<bar>"]
  have hd: "hd ?ds \<noteq> CHR ''+''" "hd ?ds \<noteq> CHR ''-''"
  proof -
    have "digit_char (hd ?ds)" using d by (simp add: list_all_iff)
    then show "hd ?ds \<noteq> CHR ''+''" "hd ?ds \<noteq> CHR ''-''" by (auto simp: digit_char_def)
  qed
  show ?thesis
  proof (cases "i < 0")
    case True
    then show ?thesis using d by (simp add: read_number_def decimal_text_def read_sign_def)
  next
    case False
    have "read_sign ?ds = (1, ?ds)" using hd d by (cases ?ds) (simp_all add: read_sign_def)
    then show ?thesis using d False by (simp add: read_number_def decimal_text_def)
  qed
qed

section \<open>The operation\<close>

lemma close_one:
  assumes ok: "ctx_ok c" and m: "moved k (fresh c) (opened 1 c) t c2"
  shows "\<exists>c5. phy_exact_operation_end (snd (phy_bigint_destroy t c2)) st = (st, c5) \<and> spent k (begun c) c5 \<and>
    ec_bytes c5 = ec_bytes c"
proof -
  have t: "phy_bigint_handle_valid c2 t" "spent k (opened 1 c) c2" "ec_bytes c2 = ec_bytes c + limb_bytes t"
    using m by (simp_all add: moved_def)
  have "spent k ((entered c)\<lparr>ec_values := ec_values c + length [t]\<rparr>) c2" using t(2) by (simp add: opened_def)
  from release_exit [OF ok this, of st] t show ?thesis
    by (auto simp: phy_bigint_is_initialized_def)
qed

lemma temp_alloc_spec:
  assumes "ctx_ok c" "b \<noteq> 0"
  shows "outcome (phy_exact_temp_alloc b c) (\<lambda>(blk, c'). blk \<and> spent 0 c c' \<and> ec_bytes c' = ec_bytes c + b)
    (\<lambda>st (blk, c'). \<not> blk \<and> spent 0 c c' \<and> ec_bytes c' = ec_bytes c \<and> shortage 0 0 b c st)"
proof (cases "max_bytes (ec_limits c) - ec_bytes c < b")
  case True
  then show ?thesis using assms
    by (auto simp: phy_exact_temp_alloc_def phy_exact_context_is_valid_def ctx_ok_def charge_def shortage_def spent_def same_env_def)
next
  case False
  then have fit: "ec_bytes c + b \<le> max_bytes (ec_limits c)" using assms by (simp add: ctx_ok_def)
  show ?thesis
  proof (cases "ec_alloc c (ec_allocs c) b")
    case True
    then show ?thesis using assms False fit
      by (simp add: phy_exact_temp_alloc_def phy_exact_context_is_valid_def ctx_ok_def charge_def phy_alloc_def spent_def same_env_def)
  next
    case bad: False
    then show ?thesis using assms False fit
      by (auto simp: phy_exact_temp_alloc_def phy_exact_context_is_valid_def ctx_ok_def charge_def phy_alloc_def
          discharge_def shortage_def spent_def same_env_def)
  qed
qed

lemma temp_free_spec:
  assumes "ctx_ok c" "b \<noteq> 0" "b \<le> ec_bytes c"
  shows "ec_bytes (phy_exact_temp_free c True b) = ec_bytes c - b" "spent 0 c (phy_exact_temp_free c True b)"
  using assms by (auto simp: phy_exact_temp_free_def phy_exact_context_is_valid_def ctx_ok_def discharge_def spent_def same_env_def)

lemma moved_same:
  assumes "moved j v c t c1" "spent k c1 c2" "ec_bytes c2 = ec_bytes c1" "same_block t t'"
  shows "moved (j + k) v c t' c2"
  using moved_stepping [OF assms(1), of k c2 t'] assms(2-4) by (simp add: stepping_def same_block_def)

lemma chunk_room: "magv v < (10 ^ 9) ^ chunk_capacity v"
proof -
  let ?n = "bg_count v"
  have "magv v < base ^ ?n" unfolding magv_def by (rule nval_bound)
  also have "\<dots> \<le> (10 ^ 10) ^ ?n" by (rule power_mono) (simp_all add: base_def)
  also have "\<dots> = 10 ^ (10 * ?n)" by (simp only: power_mult)
  also have "\<dots> \<le> 10 ^ (9 * chunk_capacity v)"
  proof (rule power_increasing)
    have "9 * ((?n * 10 + 8) div 9) + (?n * 10 + 8) mod 9 = ?n * 10 + 8" by simp
    moreover have "(?n * 10 + 8) mod 9 < 9" by simp
    ultimately show "10 * ?n \<le> 9 * chunk_capacity v" by (simp add: chunk_capacity_def)
  qed simp
  also have "\<dots> = (10 ^ 9) ^ chunk_capacity v" by (simp only: power_mult)
  finally show ?thesis .
qed

definition chunked :: "phy_bigint \<Rightarrow> phy_bigint \<Rightarrow> phy_exact_context \<Rightarrow>
    phy_status \<times> u32 list \<times> bool \<times> nat \<times> phy_bigint \<times> phy_exact_context \<Rightarrow> bool" where
  "chunked v t c r \<longleftrightarrow> (case r of (st, chunks, blk, bytes, t', c') \<Rightarrow>
     spent (bg_count v * chunk_capacity v) c c' \<and> same_block t t' \<and> bytes \<le> 4 * chunk_capacity v \<and> (blk \<longrightarrow> bytes \<noteq> 0) \<and>
     ec_bytes c' = ec_bytes c + (if blk then bytes else 0) \<and>
     (if st = PHY_OK then chunks_of (magv v) chunks \<and> length chunks \<le> chunk_capacity v
      else shortage (bg_count v * chunk_capacity v) 0 (4 * chunk_capacity v) c st))"

lemma write_chunks_spec:
  assumes ok: "ctx_ok c" and v: "bg_count v \<le> PHY_EXACT_MAX_LIMBS_CEILING" "magv v \<noteq> 0"
    and t: "phy_bigint_shallow_valid c t" "0 \<le> bg_sign t" "magv t = magv v" "bg_count t = bg_count v"
  shows "chunked v t c (write_chunks v (t, c))"
proof -
  let ?l = "chunk_capacity v" and ?K = "bg_count v * chunk_capacity v"
  have l: "?l \<noteq> 0" "?l * 4 \<noteq> 0" by (simp_all add: chunk_capacity_def)
  have big: "\<not> (SIZE_MAX - 2) div 10 < bg_count v" "\<not> SIZE_MAX div 4 < ?l"
    using v(1) by (simp_all add: SIZE_MAX_def PHY_EXACT_MAX_LIMBS_CEILING_def chunk_capacity_def)
  obtain s0 blk c1 where al: "phy_exact_temp_alloc (?l * 4) c = (s0, blk, c1)" by (metis prod_cases3)
  note a = temp_alloc_spec [OF ok l(2), unfolded al]
  obtain s1 cs t1 c2 where lp: "chunk_loop ?l [] (t, c1) = (s1, cs, t1, c2)" by (metis prod_cases4)
  have eq: "write_chunks v (t, c) = (if s0 \<noteq> PHY_OK then (s0, [], blk, ?l * 4, t, c1)
      else (if s1 = PHY_OK \<and> cs = [] then PHY_ERR_CORRUPT_DOCUMENT else s1, cs, blk, ?l * 4, t1, c2))"
    unfolding write_chunks_def prod.case if_not_P [OF big(1)] if_not_P [OF big(2)] Let_def al lp ..
  show ?thesis
  proof (cases "s0 = PHY_OK")
    case False
    then have f: "\<not> blk" "spent 0 c c1" "ec_bytes c1 = ec_bytes c" "shortage 0 0 (?l * 4) c s0" using a by simp_all
    have "shortage ?K 0 (4 * ?l) c s0" by (rule shortage_mono [OF f(4)]) simp_all
    moreover have "spent ?K c c1" by (rule spent_mono [OF f(2)]) simp
    ultimately show ?thesis using f False unfolding eq chunked_def by (simp add: same_block_def)
  next
    case True
    then have c1: "blk" "spent 0 c c1" "ec_bytes c1 = ec_bytes c + ?l * 4" using a by simp_all
    have ok1: "ctx_ok c1" and e1: "same_env c c1" using spentD [OF c1(2)] by simp_all
    have t1: "phy_bigint_shallow_valid c1 t" using t(1) shallow_valid_env [OF e1] by blast
    have "magv t < (10 ^ 9) ^ (?l - length [])" using chunk_room [of v] t(3) by simp
    note loop = chunk_loop_spec [OF ok1 t1 t(2) eq_imp_le [OF t(4)] this, unfolded lp, simplified]
    show ?thesis
    proof (cases "s1 = PHY_OK")
      case False
      then have f: "step_failed ?K c1 s1 c2" "same_block t t1" using loop by simp_all
      then have sp: "spent ?K c1 c2" "ec_bytes c2 = ec_bytes c1" "shortage ?K 0 0 c1 s1"
        by (simp_all add: step_failed_def stepping_def)
      have "shortage ?K 0 (4 * ?l) c s1" by (rule shortage_steps [OF c1(2) sp(3)]) simp
      then show ?thesis using True False f(2) c1 spent_trans [OF c1(2) sp(1)] sp(2) l
        unfolding eq chunked_def by simp
    next
      case ok2: True
      then have g: "stepping ?K c1 c2" "same_block t t1" "chunks_of (magv v) cs" "length cs \<le> ?l" using loop t(3) by simp_all
      have "cs \<noteq> []" using g(3) v(2) by (simp add: chunks_of_def)
      moreover have "spent ?K c1 c2" "ec_bytes c2 = ec_bytes c1" using g(1) by (simp_all add: stepping_def)
      ultimately show ?thesis using True ok2 g(2-4) c1 spent_trans [OF c1(2)] l
        unfolding eq chunked_def by simp
    qed
  qed
qed

definition written ::
  "int \<Rightarrow> nat \<Rightarrow> nat \<Rightarrow> nat \<Rightarrow> nat \<Rightarrow> string option \<Rightarrow> phy_exact_context \<Rightarrow>
   phy_status \<times> string option \<times> nat \<times> phy_exact_context \<Rightarrow> bool" where
  "written i K m b bufsize buffer c r \<longleftrightarrow> (case r of (st, buffer', req, c') \<Rightarrow>
     spent K (begun c) c' \<and> ec_bytes c' = ec_bytes c \<and>
     (let text = decimal_text i in
      if st = PHY_OK then req = length text + 1 \<and> (buffer \<noteq> None \<longrightarrow> req \<le> bufsize) \<and> buffer' = map_option (store_text text) buffer
      else buffer' = buffer \<and>
        (if req = length text + 1 then st = PHY_ERR_MEMORY_LIMIT \<and> buffer \<noteq> None \<and> bufsize < req
         else req = 0 \<and> shortage K m b (begun c) st)))"

lemma write_spec:
  assumes ok: "ctx_ok c" and v: "phy_bigint_shallow_valid c v"
  shows "written (ival v) (bg_count v * chunk_capacity v) (bg_count v) (8 * bg_count v + 4 * chunk_capacity v)
    bufsize buffer c (phy_bigint_write v bufsize (buffer, required, c))"
proof (cases "bg_count v = 0")
  case True
  let ?s = "if buffer \<noteq> None \<and> bufsize < 2 then PHY_ERR_MEMORY_LIMIT else PHY_OK"
  have iv: "ival v = 0" using True valid_sign [OF v] by simp
  have z: "decimal_text (ival v) = ''0''" unfolding iv
  proof -
    have "of_char (CHR ''0'') = (48 :: nat)" by simp
    then have "char_of (48 :: nat) = CHR ''0''" by (metis char_of_char)
    then show "decimal_text 0 = ''0''" by (simp add: decimal_text_def decimal_nat.simps)
  qed
  have e: "phy_exact_operation_end (entered c) st = (st, begun c)" for st
    using begun_ok [OF ok] by (simp add: end_eq)
  have "phy_bigint_write v bufsize (buffer, required, c) =
      (?s, if ?s = PHY_OK then map_option (store_text ''0'') buffer else buffer, 2, begun c)"
    using v True by (simp add: phy_bigint_write_def begin_eq [OF ok] e Let_def)
  then show ?thesis unfolding written_def z using begun_ok [OF ok] by (auto simp: Let_def)
next
  case False
  let ?n = "bg_count v" and ?l = "chunk_capacity v" and ?c1 = "opened 1 c"
  let ?K = "bg_count v * chunk_capacity v" and ?b = "8 * bg_count v + 4 * chunk_capacity v"
  have ok1: "ctx_ok ?c1" by (rule opened_ok [OF ok])
  have fr: "phy_bigint_shallow_valid ?c1 (fresh c)" by (rule fresh_valid [OF ok]) simp
  have v1: "phy_bigint_shallow_valid ?c1 v" using v shallow_valid_env [OF opened_env(1)] by blast
  have m0: "magv v \<noteq> 0" using False valid_sign [OF v] by simp
  have ceil: "?n \<le> PHY_EXACT_MAX_LIMBS_CEILING" using v ok by (simp add: phy_bigint_shallow_valid_def ctx_ok_def)
  have init: "phy_bigint_init (null_bigint, entered c) = (PHY_OK, fresh c, ?c1)"
    using begun_ok [OF ok] by (simp add: init_eq fresh_def opened_def begun_def)
  have op: "shortage k m b ?c1 st = shortage k m b (begun c) st" for k m b st
    unfolding opened_def shortage_counters ..
  obtain s1 t c2 where cp: "copy_payload v True (fresh c, ?c1) = (s1, t, c2)" by (metis prod_cases3)
  have fb: "limb_bytes (fresh c) \<le> ec_bytes ?c1" by simp
  note copy = copy_payload_spec [OF ok1 fr fb v1, of True, unfolded cp]
  have m1: "moved 0 (fresh c) ?c1 t c2" using copy by (auto split: if_splits)
  obtain s2 cs blk bytes t2 c3 where
    wc: "(if s1 = PHY_OK then write_chunks v (t, c2) else (s1, [], False, 0, t, c2)) = (s2, cs, blk, bytes, t2, c3)"
    by (metis prod_cases6)
  let ?c4 = "if blk then phy_exact_temp_free c3 blk bytes else c3"
  have ch: "spent ?K c2 c3 \<and> same_block t t2 \<and> (blk \<longrightarrow> bytes \<noteq> 0) \<and> ec_bytes c3 = ec_bytes c2 + (if blk then bytes else 0) \<and>
      (if s2 = PHY_OK then chunks_of (magv v) cs \<and> length cs \<le> ?l else shortage ?K ?n ?b (begun c) s2)"
  proof (cases "s1 = PHY_OK")
    case bad: False
    then have "spent ?K c2 c2" using moved_handle [OF m1] by (simp add: spent_def same_env_def)
    moreover have "shortage ?K ?n ?b (begun c) s1" using copy bad op by (auto intro: shortage_mono)
    ultimately show ?thesis using wc bad by (auto simp: same_block_def)
  next
    case True
    then have t: "phy_bigint_shallow_valid c2 t" "ival t = \<bar>ival v\<bar>" "bg_count t = ?n" "magv t = magv v"
      "capacity t \<le> max 1 (2 * ?n)" using copy by simp_all
    have "0 \<le> bg_sign t" using sign_of_nonneg [OF t(1)] t(2) by simp
    moreover have "ctx_ok c2" using moved_handle [OF m1] by blast
    ultimately have "chunked v t c2 (s2, cs, blk, bytes, t2, c3)"
      using write_chunks_spec [of c2 v t] ceil m0 t(1,3,4) wc True by simp
    moreover have "shortage ?K ?n ?b (begun c) s2" if "shortage ?K 0 (4 * ?l) c2 s2"
    proof -
      have "max 1 (2 * ?n) = 2 * ?n" using False by simp
      then have "ec_bytes c2 \<le> ec_bytes ?c1 + 8 * ?n" using m1 t(5) by (simp add: moved_def)
      then have "shortage ?K ?n ?b ?c1 s2"
        by (intro shortage_back [OF _ that]) (use m1 in \<open>auto simp: moved_def\<close>)
      then show ?thesis unfolding op .
    qed
    ultimately show ?thesis by (simp add: chunked_def)
  qed
  have c4: "spent ?K c2 ?c4" "ec_bytes ?c4 = ec_bytes c2"
  proof -
    have c3: "ctx_ok c3" using ch by (simp add: spent_def)
    show "spent ?K c2 ?c4"
      using ch temp_free_spec(2) [OF c3, of bytes] spent_trans [of ?K c2 c3 0] by auto
    show "ec_bytes ?c4 = ec_bytes c2" using ch temp_free_spec(1) [OF c3, of bytes] by auto
  qed
  have ch2: "same_block t t2" using ch by blast
  have "moved ?K (fresh c) ?c1 t2 ?c4" using moved_same [OF m1 c4 ch2] by simp
  note close = close_one [OF ok this]
  let ?lead = "decimal_digits_u32 (last cs)" and ?sb = "if bg_sign v < 0 then 1 else 0 :: nat"
  let ?s3 = "if s2 = PHY_OK \<and> (SIZE_MAX - ?sb - ?lead - 1) div 9 < length cs - 1 then PHY_ERR_MEMORY_LIMIT else s2"
  let ?need = "if ?s3 = PHY_OK then ?sb + ?lead + (length cs - 1) * 9 + 1 else 0"
  let ?s4 = "if ?s3 = PHY_OK \<and> buffer \<noteq> None \<and> bufsize < ?need then PHY_ERR_MEMORY_LIMIT else ?s3"
  obtain c5 where c5: "phy_exact_operation_end (snd (phy_bigint_destroy t2 ?c4)) ?s4 = (?s4, c5)"
    "spent ?K (begun c) c5" "ec_bytes c5 = ec_bytes c" using close by blast
  have an: "andthen (phy_bigint_init (null_bigint, entered c)) (copy_payload v True) = (s1, t, c2)"
    unfolding andthen_def init prod.case if_P [OF refl] cp ..
  have nv: "\<not> (\<not> phy_bigint_shallow_valid c v)" "\<not> PHY_OK \<noteq> PHY_OK" using v by simp_all
  have eq: "phy_bigint_write v bufsize (buffer, required, c) =
      (?s4, if ?s4 = PHY_OK then map_option (store_text (chunk_text (bg_sign v < 0) cs)) buffer else buffer, ?need, c5)"
    unfolding phy_bigint_write_def prod.case if_not_P [OF nv(1)] begin_eq [OF ok] if_not_P [OF nv(2)]
      if_not_P [OF False] an wc Let_def c5(1) ..
  show ?thesis
  proof (cases "s2 = PHY_OK")
    case bad: False
    then have "?s3 = s2" "?need = 0" "?s4 = s2" by simp_all
    then show ?thesis unfolding eq written_def using c5(2,3) bad ch by (simp add: Let_def)
  next
    case True
    then have cs: "chunks_of (magv v) cs" "length cs \<le> ?l" using ch by simp_all
    note ctx = chunk_text_canonical [OF cs(1) m0, of "bg_sign v < 0"]
    have sgn: "bg_sign v < 0 \<longleftrightarrow> ival v < 0" "nat \<bar>ival v\<bar> = magv v" using valid_sign [OF v] by simp_all
    have dt: "chunk_text (bg_sign v < 0) cs = decimal_text (ival v)"
      unfolding decimal_text_def sgn(2) ctx(1) using sgn(1) by simp
    have "unat (last cs) < 10 ^ 9" using cs(1) m0 by (auto simp: chunks_of_def list_all_iff)
    then have "?lead \<le> 9" using digits_le [of "last cs" 9] by simp
    moreover have "length cs - 1 \<le> 1165087" using cs(2) ceil by (simp add: chunk_capacity_def PHY_EXACT_MAX_LIMBS_CEILING_def)
    ultimately have nov: "\<not> (SIZE_MAX - ?sb - ?lead - 1) div 9 < length cs - 1"
      unfolding SIZE_MAX_def by (cases "bg_sign v < 0"; simp add: not_less less_eq_div_iff_mult_less_eq; linarith)
    then have s3: "?s3 = PHY_OK" using True by simp
    have need: "?need = length (decimal_text (ival v)) + 1" using s3 ctx(2) unfolding dt by simp
    show ?thesis unfolding eq written_def using c5(2,3) s3 need dt by (auto simp: Let_def)
  qed
qed

end
