(* ===== verification/ExactHistory.thy ===== *)
theory ExactHistory
  imports BigintPow BigintWrite
begin

text \<open>
  Histories of an exact-number context: the states a caller can reach from
  \<open>phy_exact_context_create\<close> by creating, destroying and operating on integers, each call
  with any operands and any outcome. The list holds the live handles; an output may be one
  of its own inputs. One invariant over all of them: valid handles and balanced books.
\<close>

section \<open>Histories\<close>

type_synonym exact_state = "phy_exact_context \<times> phy_bigint list"

text \<open>The state after an operation that wrote the handle \<open>k\<close>.\<close>

definition stored :: "phy_bigint list \<Rightarrow> nat \<Rightarrow> phy_status \<times> phy_bigint \<times> phy_exact_context \<Rightarrow> exact_state" where
  "stored vs k res = (case res of (st, out, c) \<Rightarrow> (c, vs[k := out]))"

definition stored_two ::
  "phy_bigint list \<Rightarrow> nat \<Rightarrow> nat \<Rightarrow> phy_status \<times> phy_bigint \<times> phy_bigint \<times> phy_exact_context \<Rightarrow> exact_state" where
  "stored_two vs i j res = (case res of (st, q, r, c) \<Rightarrow> (c, vs[i := q, j := r]))"

definition added_value :: "phy_bigint list \<Rightarrow> phy_status \<times> phy_bigint \<times> phy_exact_context \<Rightarrow> exact_state" where
  "added_value vs res = (case res of (st, v, c) \<Rightarrow> (c, vs @ [v]))"

text \<open>Caller limits are \<open>size_t\<close> values.\<close>

definition sized_limits :: "phy_exact_limits option \<Rightarrow> bool" where
  "sized_limits limits \<longleftrightarrow> (case limits of None \<Rightarrow> True | Some l \<Rightarrow> max_limbs l \<le> SIZE_MAX \<and> max_bytes l \<le> SIZE_MAX)"

text \<open>One call that neither initialises nor destroys a handle of the caller.\<close>

inductive exact_op :: "exact_state \<Rightarrow> exact_state \<Rightarrow> bool" where
  cancel: "exact_op (c, vs) (phy_exact_set_cancel c f, vs)"
| set: "k < length vs \<Longrightarrow> - (2 ^ 63) \<le> i \<Longrightarrow> i < 2 ^ 63 \<Longrightarrow>
    exact_op (c, vs) (stored vs k (phy_bigint_set_i64 i (vs ! k, c)))"
| copy: "k < length vs \<Longrightarrow> s < length vs \<Longrightarrow>
    exact_op (c, vs) (stored vs k (phy_bigint_copy (vs ! s) (s = k) (vs ! k, c)))"
| read: "k < length vs \<Longrightarrow> exact_op (c, vs) (stored vs k (phy_bigint_read str (vs ! k, c)))"
| add: "k < length vs \<Longrightarrow> l < length vs \<Longrightarrow> r < length vs \<Longrightarrow>
    exact_op (c, vs) (stored vs k (phy_bigint_add (vs ! l) (vs ! r) (vs ! k, c)))"
| subtract: "k < length vs \<Longrightarrow> l < length vs \<Longrightarrow> r < length vs \<Longrightarrow>
    exact_op (c, vs) (stored vs k (phy_bigint_subtract (vs ! l) (vs ! r) (vs ! k, c)))"
| negate: "k < length vs \<Longrightarrow> s < length vs \<Longrightarrow>
    exact_op (c, vs) (stored vs k (phy_bigint_negate (vs ! s) (vs ! k, c)))"
| multiply: "k < length vs \<Longrightarrow> l < length vs \<Longrightarrow> r < length vs \<Longrightarrow>
    exact_op (c, vs) (stored vs k (phy_bigint_multiply (vs ! l) (vs ! r) (vs ! k, c)))"
| pow: "k < length vs \<Longrightarrow> s < length vs \<Longrightarrow>
    exact_op (c, vs) (stored vs k (phy_bigint_pow_u32 (vs ! s) e (vs ! k, c)))"
| divmod: "i < length vs \<Longrightarrow> j < length vs \<Longrightarrow> l < length vs \<Longrightarrow> r < length vs \<Longrightarrow>
    exact_op (c, vs) (stored_two vs i j (phy_bigint_divmod (vs ! l) (vs ! r) (i = j) (vs ! i, vs ! j, c)))"
| divide_exact: "k < length vs \<Longrightarrow> l < length vs \<Longrightarrow> r < length vs \<Longrightarrow>
    exact_op (c, vs) (stored vs k (phy_bigint_divide_exact (vs ! l) (vs ! r) (vs ! k, c)))"
| gcd: "k < length vs \<Longrightarrow> l < length vs \<Longrightarrow> r < length vs \<Longrightarrow>
    phy_bigint_gcd (vs ! l) (vs ! r) (vs ! k, c) = Some res \<Longrightarrow> exact_op (c, vs) (stored vs k res)"
| mod_u32: "s < length vs \<Longrightarrow> phy_bigint_mod_u32 (vs ! s) m (x, c) = (st, y, c') \<Longrightarrow>
    exact_op (c, vs) (c', vs)"
| to_text: "s < length vs \<Longrightarrow>
    phy_bigint_write (vs ! s) n (buffer, required, c) = (st, buffer', required', c') \<Longrightarrow> exact_op (c, vs) (c', vs)"

inductive exact_run :: "exact_state \<Rightarrow> bool" where
  create: "sized_limits limits \<Longrightarrow> phy_exact_context_create limits identity alloc = Some c \<Longrightarrow> exact_run (c, [])"
| init: "exact_run (c, vs) \<Longrightarrow> exact_run (added_value vs (phy_bigint_init (v, c)))"
| destroy: "exact_run (c, us @ v # ws) \<Longrightarrow> exact_run (snd (phy_bigint_destroy v c), us @ ws)"
| call: "exact_run s \<Longrightarrow> exact_op s s' \<Longrightarrow> exact_run s'"

section \<open>The invariant\<close>

definition exact_inv :: "exact_state \<Rightarrow> bool" where
  "exact_inv st \<longleftrightarrow> (case st of (c, vs) \<Rightarrow>
     ctx_ok c \<and> max_bytes (ec_limits c) \<le> SIZE_MAX \<and> ec_depth c = 0 \<and> (\<forall>v \<in> set vs. phy_bigint_shallow_valid c v) \<and>
     ec_values c = length vs \<and> ec_bytes c = sizeof_exact_context + sum_list (map limb_bytes vs))"

lemma inv_nth:
  assumes "exact_inv (c, vs)" "k < length vs"
  shows "ctx_ok c" "phy_bigint_shallow_valid c (vs ! k)" "limb_bytes (vs ! k) \<le> ec_bytes c"
proof -
  show "ctx_ok c" "phy_bigint_shallow_valid c (vs ! k)" using assms by (simp_all add: exact_inv_def)
  have "limb_bytes (vs ! k) \<le> sum_list (map limb_bytes vs)"
    using elem_le_sum_list [of k "map limb_bytes vs"] assms(2) by simp
  then show "limb_bytes (vs ! k) \<le> ec_bytes c" using assms(1) by (simp add: exact_inv_def)
qed

lemma total_update:
  "k < length vs \<Longrightarrow> sum_list (map limb_bytes (vs[k := v])) + limb_bytes (vs ! k) = sum_list (map limb_bytes vs) + limb_bytes v"
proof (induction vs arbitrary: k)
  case (Cons w vs)
  then show ?case by (cases k) auto
qed simp

lemma inv_two:
  assumes "exact_inv (c, vs)" "i < length vs" "j < length vs" "i \<noteq> j"
  shows "limb_bytes (vs ! i) + limb_bytes (vs ! j) \<le> ec_bytes c"
proof -
  have "vs[i := null_bigint] ! j = vs ! j" using assms(4) by simp
  then have "limb_bytes (vs ! j) \<le> sum_list (map limb_bytes (vs[i := null_bigint]))"
    using elem_le_sum_list [of j "map limb_bytes (vs[i := null_bigint])"] assms(3) by simp
  moreover have "sum_list (map limb_bytes (vs[i := null_bigint])) + limb_bytes (vs ! i) = sum_list (map limb_bytes vs)"
    using total_update [OF assms(2), of null_bigint] by (simp add: null_bigint_def)
  ultimately show ?thesis using assms(1) by (simp add: exact_inv_def)
qed

text \<open>What an operation on one output does to the books.\<close>

lemma inv_moved:
  assumes inv: "exact_inv (c, vs)" and k: "k < length vs"
    and m: "moved n (vs ! k) (begun c) out c'" and v: "phy_bigint_shallow_valid c' out"
  shows "exact_inv (c', vs[k := out])"
proof -
  have sp: "spent n (begun c) c'" "ec_bytes c' + limb_bytes (vs ! k) = ec_bytes c + limb_bytes out"
    using m by (simp_all add: moved_def)
  have e: "same_env c c'" using same_env_trans [OF begun_env(1) spentD(1) [OF sp(1)]] .
  have "\<forall>w \<in> insert out (set vs). phy_bigint_shallow_valid c' w"
    using inv v shallow_valid_env [OF e] by (simp add: exact_inv_def)
  then have val: "\<forall>w \<in> set (vs[k := out]). phy_bigint_shallow_valid c' w"
    using set_update_subset_insert [of vs k out] by blast
  note total_update [OF k, of out]
  then show ?thesis
    using inv sp val spentD [OF sp(1)] e by (simp add: exact_inv_def same_env_def)
qed

lemma inv_outcome:
  assumes inv: "exact_inv (c, vs)" and k: "k < length vs"
    and o1: "outcome res (\<lambda>(out, c'). moved n (vs ! k) (begun c) out c' \<and> phy_bigint_shallow_valid c' out \<and> Q out c')
      (\<lambda>st (out, c'). out = vs ! k \<and> moved n (vs ! k) (begun c) (vs ! k) c' \<and> E st c')"
  shows "exact_inv (stored vs k res)"
proof -
  obtain st out c' where r: "res = (st, out, c')" by (cases res)
  have m: "moved n (vs ! k) (begun c) out c'" using o1 by (auto simp: r split: if_splits)
  then have "spent n (begun c) c'" by (simp add: moved_def)
  then have "same_env c c'" using same_env_trans [OF begun_env(1)] spentD(1) by blast
  from shallow_valid_env [OF this] have e: "phy_bigint_shallow_valid c' (vs ! k)" using inv_nth(2) [OF inv k] by blast
  have "phy_bigint_shallow_valid c' out"
  proof (cases "st = PHY_OK")
    case True
    then show ?thesis using o1 by (simp add: r)
  next
    case False
    then have "out = vs ! k" using o1 by (simp add: r)
    then show ?thesis using e by simp
  qed
  from inv_moved [OF inv k m this] show ?thesis by (simp add: stored_def r)
qed

lemma inv_settled: "exact_inv (c, vs) \<Longrightarrow> k < length vs \<Longrightarrow> settled (vs ! k) c Q E res \<Longrightarrow> exact_inv (stored vs k res)"
  unfolding settled_def
  by (rule inv_outcome [where Q = "\<lambda>v c'. Q c' v" and E = "\<lambda>st c'. E st"]) (auto elim!: outcome_mono)

text \<open>A query leaves the values alone.\<close>

lemma inv_spent:
  assumes "exact_inv (c, vs)" "spent n (begun c) c'" "ec_bytes c' = ec_bytes c"
  shows "exact_inv (c', vs)"
proof -
  have e: "same_env c c'" using same_env_trans [OF begun_env(1) spentD(1) [OF assms(2)]] .
  show ?thesis
    using assms(1,3) spentD [OF assms(2)] shallow_valid_env [OF e] by (simp add: exact_inv_def)
qed

lemma stored_same: "k < length vs \<Longrightarrow> stored vs k (st, vs ! k, c) = (c, vs)"
  by (simp add: stored_def)

section \<open>Every operation keeps the invariant\<close>

lemma resolved_limits:
  assumes "sized_limits limits"
  shows "max_bytes (resolve_limits limits) \<le> SIZE_MAX" "max_limbs (resolve_limits limits) \<le> PHY_EXACT_MAX_LIMBS_CEILING"
  using assms
  by (auto simp: resolve_limits_def sized_limits_def phy_exact_limits_defaults_def SIZE_MAX_def Let_def
      PHY_EXACT_MAX_LIMBS_CEILING_def split: option.splits)

lemma inv_create:
  assumes "sized_limits limits" "phy_exact_context_create limits identity alloc = Some c"
  shows "exact_inv (c, [])"
  using assms resolved_limits [OF assms(1)]
  by (auto simp: phy_exact_context_create_def exact_inv_def ctx_ok_def Let_def split: if_splits)

lemma inv_init: "exact_inv (c, vs) \<Longrightarrow> exact_inv (added_value vs (phy_bigint_init (v, c)))"
proof -
  assume inv: "exact_inv (c, vs)"
  then have ok: "ctx_ok c" by (simp add: exact_inv_def)
  have e: "same_env c (with_value c)" by simp
  show ?thesis
    using inv fresh_valid [OF ok e] shallow_valid_env [OF e] ok
    by (simp add: init_eq added_value_def exact_inv_def)
qed

lemma inv_destroy: "exact_inv (c, us @ v # ws) \<Longrightarrow> exact_inv (snd (phy_bigint_destroy v c), us @ ws)"
proof -
  assume inv: "exact_inv (c, us @ v # ws)"
  then have v: "phy_bigint_handle_valid c v" "limb_bytes v \<le> ec_bytes c"
    by (simp_all add: exact_inv_def phy_bigint_shallow_valid_def)
  let ?c = "c\<lparr>ec_bytes := ec_bytes c - limb_bytes v, ec_values := ec_values c - 1\<rparr>"
  have e: "same_env c ?c" by (simp add: same_env_def)
  have "exact_inv (?c, us @ ws)"
    using inv shallow_valid_env [OF e] by (auto simp: exact_inv_def ctx_ok_def)
  then show ?thesis by (simp add: destroy_eq [OF v])
qed

lemma cancel_valid: "phy_bigint_shallow_valid (c\<lparr>ec_cancel := f\<rparr>) v \<longleftrightarrow> phy_bigint_shallow_valid c v"
  by (simp add: phy_bigint_shallow_valid_def phy_bigint_handle_valid_def phy_exact_context_is_valid_def)

lemma inv_cancel: "exact_inv (c, vs) \<Longrightarrow> exact_inv (phy_exact_set_cancel c f, vs)"
  by (simp add: exact_inv_def phy_exact_set_cancel_def cancel_valid ctx_ok_def)

lemma inv_set:
  assumes "exact_inv (c, vs)" "k < length vs"
  shows "exact_inv (stored vs k (phy_bigint_set_i64 i (vs ! k, c)))"
proof -
  note v = inv_nth [OF assms]
  show ?thesis
    using inv_outcome [OF assms assign_op.transaction [OF _ v(1) v(2,3)]] v(2)
    by (simp add: phy_bigint_set_i64_def)
qed

lemma inv_copy:
  assumes "exact_inv (c, vs)" "k < length vs" "s < length vs"
  shows "exact_inv (stored vs k (phy_bigint_copy (vs ! s) (s = k) (vs ! k, c)))"
proof (cases "s = k")
  case False
  note v = inv_nth [OF assms(1,2)] and w = inv_nth [OF assms(1,3)]
  show ?thesis
    using inv_outcome [OF assms(1,2) copy_op.transaction [OF w(2) v(1) v(2,3), of False]] v(2) w(2) False
    by (simp add: phy_bigint_copy_def compatible2_iff)
next
  case True
  note v = inv_nth [OF assms(1,2)]
  have "phy_bigint_copy (vs ! s) (s = k) (vs ! k, c) = (PHY_OK, vs ! k, begun c)"
    using v True begun_ok [OF v(1)] by (simp add: phy_bigint_copy_def compatible2_iff begin_eq end_eq)
  moreover have "exact_inv (begun c, vs)"
    by (rule inv_spent [OF assms(1), of 0]) (use begun_ok [OF v(1)] in \<open>simp_all add: spent_def\<close>)
  ultimately show ?thesis using assms(2) by (simp add: stored_same)
qed

lemma inv_read:
  assumes "exact_inv (c, vs)" "k < length vs"
  shows "exact_inv (stored vs k (phy_bigint_read str (vs ! k, c)))"
proof (cases str)
  case None
  then show ?thesis using assms by (simp add: phy_bigint_read_def stored_same)
next
  case (Some str1)
  note v = inv_nth [OF assms]
  show ?thesis unfolding Some
    by (rule inv_outcome [OF assms, OF outcome_mono [OF read_spec [OF v]]]) auto
qed

lemma inv_binary:
  assumes "exact_inv (c, vs)" "k < length vs" "l < length vs" "r < length vs"
  shows "exact_inv (stored vs k (phy_bigint_add (vs ! l) (vs ! r) (vs ! k, c)))"
    "exact_inv (stored vs k (phy_bigint_subtract (vs ! l) (vs ! r) (vs ! k, c)))"
    "exact_inv (stored vs k (phy_bigint_multiply (vs ! l) (vs ! r) (vs ! k, c)))"
    "exact_inv (stored vs k (phy_bigint_divide_exact (vs ! l) (vs ! r) (vs ! k, c)))"
    "phy_bigint_gcd (vs ! l) (vs ! r) (vs ! k, c) = Some res \<Longrightarrow> exact_inv (stored vs k res)"
proof -
  note v = inv_nth [OF assms(1,2)] and a = inv_nth(2) [OF assms(1,3)] and b = inv_nth(2) [OF assms(1,4)]
  show "exact_inv (stored vs k (phy_bigint_add (vs ! l) (vs ! r) (vs ! k, c)))"
    using inv_outcome [OF assms(1,2) add_op.transaction [OF _ v(1) v(2,3), of "vs ! l" "vs ! r" "bg_sign (vs ! r)"]] a b v(2)
    by (simp add: phy_bigint_add_def compatible3_iff)
  show "exact_inv (stored vs k (phy_bigint_subtract (vs ! l) (vs ! r) (vs ! k, c)))"
    using inv_outcome [OF assms(1,2) add_op.transaction [OF _ v(1) v(2,3), of "vs ! l" "vs ! r" "- bg_sign (vs ! r)"]] a b v(2)
    by (simp add: phy_bigint_subtract_def compatible3_iff)
  show "exact_inv (stored vs k (phy_bigint_multiply (vs ! l) (vs ! r) (vs ! k, c)))"
    by (rule inv_outcome [OF assms(1,2) multiply_spec [OF v(1) a b v(2,3)]])
  show "exact_inv (stored vs k (phy_bigint_divide_exact (vs ! l) (vs ! r) (vs ! k, c)))"
    by (rule inv_settled [OF assms(1,2) divide_exact_spec [OF v(1) a b v(2,3)]])
  show "phy_bigint_gcd (vs ! l) (vs ! r) (vs ! k, c) = Some res \<Longrightarrow> exact_inv (stored vs k res)"
    using gcd_spec [OF v(1) a b v(2,3)] inv_settled [OF assms(1,2)] by auto
qed

lemma inv_unary:
  assumes "exact_inv (c, vs)" "k < length vs" "s < length vs"
  shows "exact_inv (stored vs k (phy_bigint_negate (vs ! s) (vs ! k, c)))"
    "exact_inv (stored vs k (phy_bigint_pow_u32 (vs ! s) e (vs ! k, c)))"
proof -
  note v = inv_nth [OF assms(1,2)] and a = inv_nth(2) [OF assms(1,3)]
  show "exact_inv (stored vs k (phy_bigint_negate (vs ! s) (vs ! k, c)))"
    using inv_outcome [OF assms(1,2) negate_op.transaction [OF a v(1) v(2,3)]] a v(2)
    by (simp add: phy_bigint_negate_def compatible2_iff)
  show "exact_inv (stored vs k (phy_bigint_pow_u32 (vs ! s) e (vs ! k, c)))"
    by (rule inv_settled [OF assms(1,2) pow_spec [OF v(1) a v(2,3)]])
qed

lemma inv_two_outputs:
  assumes inv: "exact_inv (c, vs)" and ij: "i < length vs" "j < length vs" "i \<noteq> j"
    and sp: "spent n (begun c) c'" and q: "phy_bigint_shallow_valid c' q" and r: "phy_bigint_shallow_valid c' r"
    and by': "ec_bytes c' + limb_bytes (vs ! i) + limb_bytes (vs ! j) = ec_bytes c + limb_bytes q + limb_bytes r"
  shows "exact_inv (c', vs[i := q, j := r])"
proof -
  have e: "same_env c c'" using same_env_trans [OF begun_env(1) spentD(1) [OF sp]] .
  have "\<forall>w \<in> insert r (insert q (set vs)). phy_bigint_shallow_valid c' w"
    using inv q r shallow_valid_env [OF e] by (simp add: exact_inv_def)
  moreover have "set (vs[i := q, j := r]) \<subseteq> insert r (insert q (set vs))"
    using set_update_subset_insert [of "vs[i := q]" j r] set_update_subset_insert [of vs i q] by blast
  ultimately have val: "\<forall>w \<in> set (vs[i := q, j := r]). phy_bigint_shallow_valid c' w" by blast
  have "sum_list (map limb_bytes (vs[i := q, j := r])) + limb_bytes (vs ! j) = sum_list (map limb_bytes (vs[i := q])) + limb_bytes r"
    using total_update [of j "vs[i := q]" r] ij by simp
  moreover note total_update [OF ij(1), of q]
  ultimately show ?thesis
    using inv by' val spentD [OF sp] e by (simp add: exact_inv_def same_env_def)
qed

lemma inv_divmod:
  assumes inv: "exact_inv (c, vs)" and ij: "i < length vs" "j < length vs" and lr: "l < length vs" "r < length vs"
  shows "exact_inv (stored_two vs i j (phy_bigint_divmod (vs ! l) (vs ! r) (i = j) (vs ! i, vs ! j, c)))"
proof -
  note a = inv_nth(2) [OF inv lr(1)] and d = inv_nth(2) [OF inv lr(2)] and q = inv_nth [OF inv ij(1)] and w = inv_nth [OF inv ij(2)]
  consider "i = j" | "i \<noteq> j" "ival (vs ! r) = 0" | "i \<noteq> j" "ival (vs ! r) \<noteq> 0" by blast
  then show ?thesis
  proof cases
    case 1
    then show ?thesis using inv ij by (simp add: phy_bigint_divmod_def stored_two_def)
  next
    case 2
    then show ?thesis using inv ij divmod_by_zero [OF a d 2(2) q(2) w(2)] by (simp add: stored_two_def)
  next
    case 3
    obtain st x y c' where res: "phy_bigint_divmod (vs ! l) (vs ! r) False (vs ! i, vs ! j, c) = (st, x, y, c')"
      by (metis prod_cases4)
    note dm = divmod_spec [OF q(1) a d 3(2) q(2) w(2) inv_two [OF inv ij 3(1)], unfolded divmod_done_def res]
    have sp: "spent (max_steps (ec_limits c)) (begun c) c'" using dm by (auto split: if_splits)
    have e: "same_env c c'" using same_env_trans [OF begun_env(1) spentD(1) [OF sp]] .
    have "exact_inv (c', vs[i := x, j := y])"
    proof (cases "st = PHY_OK")
      case True
      then show ?thesis using dm by (intro inv_two_outputs [OF inv ij 3(1) sp]) simp_all
    next
      case False
      then have "x = vs ! i" "y = vs ! j" "ec_bytes c' = ec_bytes c" using dm by simp_all
      then show ?thesis using inv_spent [OF inv sp] by simp
    qed
    then show ?thesis using 3(1) by (simp add: stored_two_def res)
  qed
qed

lemma inv_mod:
  assumes inv: "exact_inv (c, vs)" "s < length vs" and r: "phy_bigint_mod_u32 (vs ! s) m (x, c) = (st, y, c')"
  shows "exact_inv (c', vs)"
proof (cases "m = 0")
  case True
  then show ?thesis using inv r inv_nth(2) [OF inv] by (simp add: phy_bigint_mod_u32_def)
next
  case False
  have "spent (bg_count (vs ! s)) (begun c) c'" "ec_bytes c' = ec_bytes c"
    using mod_u32_spec [OF inv_nth(1,2) [OF inv] False, of x, unfolded r] by (simp_all split: if_splits)
  then show ?thesis by (rule inv_spent [OF inv(1)])
qed

lemma inv_write:
  assumes inv: "exact_inv (c, vs)" "s < length vs" and r: "phy_bigint_write (vs ! s) n (b, q, c) = (st, b', q', c')"
  shows "exact_inv (c', vs)"
  using write_spec [OF inv_nth(1,2) [OF inv], of n b q, unfolded r] inv_spent [OF inv(1)]
  by (auto simp: written_def)

lemma exact_op_inv: "exact_op s s' \<Longrightarrow> exact_inv s \<Longrightarrow> exact_inv s'"
proof (induction rule: exact_op.induct)
  case cancel
  then show ?case by (rule inv_cancel)
next
  case set
  then show ?case by (simp add: inv_set)
next
  case copy
  then show ?case by (simp add: inv_copy)
next
  case read
  then show ?case by (simp add: inv_read)
next
  case add
  then show ?case by (simp add: inv_binary)
next
  case subtract
  then show ?case by (simp add: inv_binary)
next
  case negate
  then show ?case by (simp add: inv_unary)
next
  case multiply
  then show ?case by (simp add: inv_binary)
next
  case pow
  then show ?case by (simp add: inv_unary)
next
  case divmod
  then show ?case by (simp add: inv_divmod)
next
  case divide_exact
  then show ?case by (simp add: inv_binary)
next
  case gcd
  then show ?case using inv_binary(5) by blast
next
  case mod_u32
  then show ?case using inv_mod by blast
next
  case to_text
  then show ?case using inv_write by blast
qed

lemma exact_run_inv: "exact_run st \<Longrightarrow> exact_inv st"
proof (induction rule: exact_run.induct)
  case create
  then show ?case by (rule inv_create)
next
  case init
  then show ?case by (simp add: inv_init)
next
  case destroy
  then show ?case by (simp add: inv_destroy)
next
  case call
  then show ?case using exact_op_inv by blast
qed

text \<open>An operation neither adds nor removes handles.\<close>

lemma exact_op_length: "exact_op s s' \<Longrightarrow> length (snd s') = length (snd s)"
  by (induction rule: exact_op.induct) (auto simp: stored_def stored_two_def split: prod.splits)

end
