(* ===== verification/ExactLinks.thy ===== *)
theory ExactLinks
  imports ExactHistory
begin

text \<open>
  The doubly linked list of live values, in histories of a context whose handles have addresses:
  initialisation and destruction keep it well formed, in whatever order values come and go, so
  the code's own consistency check passes and destroying the context ends with nothing left.
\<close>

section \<open>Segments\<close>

text \<open>
  The addresses \<open>xs\<close> from \<open>a\<close> on, where \<open>a\<close> is entered from \<open>p\<close> and the last, \<open>q\<close>, leads to \<open>e\<close>.
\<close>

primrec segment :: "value_links \<Rightarrow> nat \<Rightarrow> nat \<Rightarrow> nat list \<Rightarrow> nat \<Rightarrow> nat \<Rightarrow> bool" where
  "segment m p a [] q e \<longleftrightarrow> p = q \<and> a = e"
| "segment m p a (x # xs) q e \<longleftrightarrow> a = x \<and> x \<noteq> 0 \<and> lk_previous m x = p \<and> segment m x (lk_next m x) xs q e"

definition linked :: "value_links \<Rightarrow> nat list \<Rightarrow> bool" where
  "linked m xs \<longleftrightarrow> distinct xs \<and> (\<exists>q. segment m 0 (lk_values m) xs q 0)"

lemma segment_append: "segment m p a (xs @ ys) q e \<longleftrightarrow> (\<exists>r f. segment m p a xs r f \<and> segment m r f ys q e)"
  by (induction xs arbitrary: p a) auto

lemma segment_cong:
  "(\<And>x. x \<in> set xs \<Longrightarrow> lk_previous m' x = lk_previous m x \<and> lk_next m' x = lk_next m x) \<Longrightarrow>
    segment m p a xs q e = segment m' p a xs q e"
  by (induction xs arbitrary: p a) auto

lemma segment_last: "segment m p a xs q e \<Longrightarrow> q = (if xs = [] then p else last xs)"
  by (induction xs arbitrary: p a) auto

lemma segment_zero: "segment m p a xs q e \<Longrightarrow> 0 \<notin> set xs"
  by (induction xs arbitrary: p a) auto

lemma segment_first: "segment m p a xs q e \<Longrightarrow> a = (if xs = [] then e else hd xs)"
  by (cases xs) auto

text \<open>Another end, and another entry.\<close>

lemma segment_end:
  assumes "segment m p a xs q e" "xs \<noteq> []" "distinct xs" "lk_next m' q = e'"
    and "\<And>x. x \<in> set xs \<Longrightarrow> lk_previous m' x = lk_previous m x" "\<And>x. x \<in> set xs \<Longrightarrow> x \<noteq> q \<Longrightarrow> lk_next m' x = lk_next m x"
  shows "segment m' p a xs q e'"
  using assms
proof (induction xs arbitrary: p a)
  case (Cons x xs)
  show ?case
  proof (cases "xs = []")
    case True
    then show ?thesis using Cons.prems by auto
  next
    case False
    have "q = last xs" using segment_last [OF Cons.prems(1)] False by simp
    then have "x \<noteq> q" using Cons.prems(3) False by auto
    then show ?thesis using Cons.IH [of x "lk_next m x"] Cons.prems False by simp
  qed
qed simp

lemma segment_entry:
  assumes "segment m p a xs q e" "xs \<noteq> []" "distinct xs" "lk_previous m' a = p'"
    and "\<And>x. x \<in> set xs \<Longrightarrow> x \<noteq> a \<Longrightarrow> lk_previous m' x = lk_previous m x" "\<And>x. x \<in> set xs \<Longrightarrow> lk_next m' x = lk_next m x"
  shows "segment m' p' a xs q e"
proof (cases xs)
  case (Cons x ys)
  have "segment m' x (lk_next m x) ys q e = segment m x (lk_next m x) ys q e"
    by (rule segment_cong [symmetric]) (use assms Cons in auto)
  then show ?thesis using assms Cons by simp
qed (use assms in simp)

section \<open>Linking and unlinking\<close>

lemma linked_none: "linked no_values []"
  by (simp add: linked_def no_values_def)

lemma link_linked:
  assumes l: "linked m xs" and a: "a \<noteq> 0" "a \<notin> set xs"
  shows "linked (link_value a m) (a # xs)"
proof -
  obtain q where q: "distinct xs" "segment m 0 (lk_values m) xs q 0" using l by (auto simp: linked_def)
  have h: "lk_values m = (if xs = [] then 0 else hd xs)" by (rule segment_first [OF q(2)])
  have "\<exists>q. segment (link_value a m) a (lk_values m) xs q 0"
  proof (cases "xs = []")
    case True
    then show ?thesis using h by simp
  next
    case False
    then have "lk_values m \<noteq> 0" "lk_values m \<noteq> a" "lk_values m \<in> set xs"
      using h segment_zero [OF q(2)] a by (metis hd_in_set)+
    then have "segment (link_value a m) a (lk_values m) xs q 0"
      by (intro segment_entry [OF q(2) False q(1)]) (use a in \<open>auto simp: link_value_def Let_def\<close>)
    then show ?thesis by blast
  qed
  moreover have "lk_values (link_value a m) = a" "lk_next (link_value a m) a = lk_values m"
    by (simp_all add: link_value_def Let_def)
  moreover have "lk_previous (link_value a m) a = 0"
  proof -
    have "lk_values m \<noteq> a" using h a by (cases xs) auto
    then show ?thesis by (simp add: link_value_def Let_def)
  qed
  ultimately show ?thesis using q(1) a by (simp add: linked_def)
qed

lemma unlink_linked:
  assumes l: "linked m (us @ a # ws)"
  shows "linked (unlink_value a m) (us @ ws)"
proof -
  obtain q where d: "distinct (us @ a # ws)" and q: "segment m 0 (lk_values m) (us @ a # ws) q 0" using l by (auto simp: linked_def)
  obtain r where r: "segment m 0 (lk_values m) us r a" "lk_previous m a = r" "a \<noteq> 0" "segment m a (lk_next m a) ws q 0"
    using q by (auto simp: segment_append)
  have p: "r = (if us = [] then 0 else last us)" and n: "lk_next m a = (if ws = [] then 0 else hd ws)"
    using segment_last [OF r(1)] segment_first [OF r(4)] by auto
  have z: "0 \<notin> set us" "0 \<notin> set ws" using segment_zero [OF r(1)] segment_zero [OF r(4)] by auto
  let ?m = "unlink_value a m" and ?n = "lk_next m a"
  have rin: "us \<noteq> [] \<Longrightarrow> r \<in> set us \<and> r \<noteq> 0" using p z(1) by (metis last_in_set)
  have nin: "ws \<noteq> [] \<Longrightarrow> ?n \<in> set ws \<and> ?n \<noteq> 0" using n z(2) by (metis hd_in_set)
  have "a \<notin> set us" "a \<notin> set ws" using d by simp_all
  then have ra: "r \<noteq> a" "?n \<noteq> a" using p n r(3) rin nin by metis+
  have prev: "lk_previous ?m x = (if x = ?n \<and> ?n \<noteq> 0 then r else if x = a then 0 else lk_previous m x)" for x
    using ra r(2) by (auto simp: unlink_value_def Let_def)
  have nxt: "lk_next ?m x = (if x = r \<and> r \<noteq> 0 then ?n else if x = a then 0 else lk_next m x)" for x
    using ra r(2) by (auto simp: unlink_value_def Let_def)
  have prev': "lk_previous ?m x = lk_previous m x" if "x \<noteq> a" "x \<noteq> ?n \<or> ?n = 0" for x
  proof -
    have "\<not> (x = ?n \<and> ?n \<noteq> 0)" using that(2) by blast
    then show ?thesis by (simp only: prev [of x] that(1) if_False)
  qed
  have nxt': "lk_next ?m x = lk_next m x" if "x \<noteq> a" "x \<noteq> r \<or> r = 0" for x
  proof -
    have "\<not> (x = r \<and> r \<noteq> 0)" using that(2) by blast
    then show ?thesis by (simp only: nxt [of x] that(1) if_False)
  qed
  have hd': "lk_values ?m = (if r = 0 then ?n else lk_values m)"
    using ra r(2) by (auto simp: unlink_value_def Let_def)
  have rs: "r = 0 \<or> r \<in> set us" using rin p by (cases "us = []") auto
  have ns: "?n = 0 \<or> ?n \<in> set ws"
  proof (cases "ws = []")
    case True
    then show ?thesis using n by simp
  next
    case False
    then show ?thesis using nin by blast
  qed
  have dis: "set us \<inter> set ws = {}" "a \<notin> set us" "a \<notin> set ws" using d by auto
  have 1: "segment ?m 0 (lk_values ?m) us r ?n"
  proof (cases "us = []")
    case True
    then show ?thesis using p hd' by simp
  next
    case False
    have "segment ?m 0 (lk_values m) us r ?n"
    proof (rule segment_end [OF r(1) False])
      show "distinct us" using d by simp
      show "lk_next ?m r = ?n" using rin [OF False] nxt by simp
      fix x assume x: "x \<in> set us"
      then have "x \<notin> set ws" "x \<noteq> a" using dis by auto
      moreover from this have "x \<noteq> ?n \<or> ?n = 0" using ns by metis
      ultimately show "lk_previous ?m x = lk_previous m x" "x \<noteq> r \<Longrightarrow> lk_next ?m x = lk_next m x"
        by (auto intro!: prev' nxt')
    qed
    then show ?thesis using hd' rin [OF False] by simp
  qed
  have 2: "\<exists>q. segment ?m r ?n ws q 0"
  proof (cases "ws = []")
    case True
    then show ?thesis using n by simp
  next
    case False
    have "segment ?m r ?n ws q 0"
    proof (rule segment_entry [OF r(4) False])
      show "distinct ws" using d by simp
      show "lk_previous ?m ?n = r" using nin [OF False] prev by simp
      fix x assume x: "x \<in> set ws"
      then have "x \<notin> set us" "x \<noteq> a" using dis by auto
      moreover from this have "x \<noteq> r \<or> r = 0" using rs by metis
      ultimately show "lk_next ?m x = lk_next m x" "x \<noteq> ?n \<Longrightarrow> lk_previous ?m x = lk_previous m x"
        by (auto intro!: prev' nxt')
    qed
    then show ?thesis by blast
  qed
  show ?thesis using d 1 2 by (auto simp: linked_def segment_append)
qed

section \<open>Histories with addresses\<close>

text \<open>
  An operation initialises and destroys temporaries of its own, at addresses no live value has.
  How many there are and in which order they go differs from one operation to the next: a history
  allows every sequence that leaves none behind. \<open>K\<close> are the addresses of the caller's handles,
  \<open>T\<close> those of the temporaries that are live.
\<close>

inductive temporaries :: "nat set \<Rightarrow> value_links \<Rightarrow> nat set \<Rightarrow> value_links \<Rightarrow> bool" for K m where
  none: "temporaries K m {} m"
| init: "temporaries K m T m1 \<Longrightarrow> a \<noteq> 0 \<Longrightarrow> a \<notin> K \<Longrightarrow> a \<notin> T \<Longrightarrow> temporaries K m (insert a T) (link_value a m1)"
| destroy: "temporaries K m T m1 \<Longrightarrow> a \<in> T \<Longrightarrow> temporaries K m (T - {a}) (unlink_value a m1)"

text \<open>The state of the context, the addresses of its live handles, and the links.\<close>

inductive linked_run :: "exact_state \<Rightarrow> nat list \<Rightarrow> value_links \<Rightarrow> bool" where
  create: "sized_limits limits \<Longrightarrow> phy_exact_context_create limits identity alloc = Some c \<Longrightarrow> linked_run (c, []) [] no_values"
| init: "linked_run (c, vs) as m \<Longrightarrow> a \<noteq> 0 \<Longrightarrow> a \<notin> set as \<Longrightarrow> bigint_init_at a (v, c, m) = (st, v', c', m') \<Longrightarrow>
    linked_run (c', vs @ [v']) (as @ [a]) m'"
| destroy: "linked_run (c, us @ v # ws) (as @ a # bs) m \<Longrightarrow> length us = length as \<Longrightarrow>
    bigint_destroy_at a (v, c, m) = (v', c', m') \<Longrightarrow> linked_run (c', us @ ws) (as @ bs) m'"
| call: "linked_run s as m \<Longrightarrow> exact_op s s' \<Longrightarrow> temporaries (set as) m {} m' \<Longrightarrow> linked_run s' as m'"

text \<open>The object at an address.\<close>

definition object_at :: "nat list \<Rightarrow> phy_bigint list \<Rightarrow> nat \<Rightarrow> phy_bigint" where
  "object_at as vs a = (case map_of (zip as vs) a of None \<Rightarrow> null_bigint | Some v \<Rightarrow> v)"

lemma object_at_map: "length as = length vs \<Longrightarrow> distinct as \<Longrightarrow> map (object_at as vs) as = vs"
  by (intro nth_equalityI) (simp_all add: object_at_def map_of_zip_nth)

lemma object_at_none: "length as = length vs \<Longrightarrow> a \<notin> set as \<Longrightarrow> object_at as vs a = null_bigint"
  by (simp add: object_at_def option.case_eq_if map_of_zip_is_None [THEN iffD2])

lemma temporaries_linked:
  assumes "temporaries K m T m1" "linked m xs" "set xs = K"
  shows "\<exists>ys. linked m1 ys \<and> set ys = K \<union> T \<and> K \<inter> T = {}"
  using assms
proof (induction rule: temporaries.induct)
  case none
  then show ?case by auto
next
  case (init T m1 a)
  then obtain ys where "linked m1 ys" "set ys = K \<union> T" "K \<inter> T = {}" by blast
  then show ?case using init.hyps link_linked [of m1 ys a] by (intro exI [of _ "a # ys"]) auto
next
  case (destroy T m1 a)
  then obtain ys where y: "linked m1 ys" "set ys = K \<union> T" "K \<inter> T = {}" by blast
  then obtain us ws where e: "ys = us @ a # ws" using destroy.hyps(2) split_list [of a ys] by auto
  then have "linked (unlink_value a m1) (us @ ws)" "distinct ys" using unlink_linked y(1) by (auto simp: linked_def)
  then show ?case using y e destroy.hyps(2) by (intro exI [of _ "us @ ws"]) auto
qed

definition linked_inv :: "exact_state \<Rightarrow> nat list \<Rightarrow> value_links \<Rightarrow> bool" where
  "linked_inv s as m \<longleftrightarrow> exact_inv s \<and> length as = length (snd s) \<and> distinct as \<and> (\<exists>ys. linked m ys \<and> set ys = set as)"

lemma linked_run_inv: "linked_run s as m \<Longrightarrow> linked_inv s as m"
proof (induction rule: linked_run.induct)
  case (create limits identity alloc c)
  then show ?case using inv_create [OF create] linked_none by (auto simp: linked_inv_def)
next
  case (init c vs as m a v st v' c' m')
  obtain ys where y: "linked m ys" "set ys = set as" "exact_inv (c, vs)" using init.IH by (auto simp: linked_inv_def)
  have ok: "ctx_ok c" using y(3) by (simp add: exact_inv_def)
  have e: "(c', vs @ [v']) = added_value vs (phy_bigint_init (v, c))" "m' = link_value a m"
    using init.hyps(4) by (simp_all add: bigint_init_at_def init_eq [OF ok] added_value_def)
  have "linked (link_value a m) (a # ys)" using link_linked [OF y(1) init.hyps(2)] init.hyps(3) y(2) by simp
  moreover have "exact_inv (c', vs @ [v'])" using inv_init [OF y(3), of v] unfolding e(1) .
  ultimately show ?case using init.IH init.hyps(3) y(2) e(2)
    by (auto simp: linked_inv_def intro!: exI [of _ "a # ys"])
next
  case (destroy c us v ws as a bs m v' c' m')
  obtain ys where y: "linked m ys" "set ys = set (as @ a # bs)" "exact_inv (c, us @ v # ws)" "distinct (as @ a # bs)"
    using destroy.IH by (auto simp: linked_inv_def)
  obtain xs zs where e: "ys = xs @ a # zs" using y(2) split_list [of a ys] by auto
  have "phy_bigint_handle_valid c v" using y(3) by (simp add: exact_inv_def phy_bigint_shallow_valid_def)
  then have d: "c' = snd (phy_bigint_destroy v c)" "m' = unlink_value a m"
    using destroy.hyps(3) by (auto simp: bigint_destroy_at_def split: prod.splits)
  have "linked m' (xs @ zs)" "distinct ys" using unlink_linked y(1) e d by (auto simp: linked_def)
  then have "linked m' (xs @ zs) \<and> set (xs @ zs) = set (as @ bs)" using y(2,4) e by auto
  then show ?case using inv_destroy [OF y(3)] destroy.IH d(1) unfolding linked_inv_def by auto
next
  case (call s as m s' m')
  then obtain ys where "linked m ys" "set ys = set as" by (auto simp: linked_inv_def)
  from temporaries_linked [OF call.hyps(3) this] show ?case
    using call.IH exact_op_inv [OF call.hyps(2)] exact_op_length [OF call.hyps(2)] by (auto simp: linked_inv_def)
qed

text \<open>Every history has addresses.\<close>

lemma exact_run_linked: "exact_run s \<Longrightarrow> \<exists>as m. linked_run s as m"
proof (induction rule: exact_run.induct)
  case create
  then show ?case using linked_run.create by blast
next
  case (init c vs v)
  then obtain as m where r: "linked_run (c, vs) as m" by blast
  have ok: "ctx_ok c" using linked_run_inv [OF r] by (simp add: linked_inv_def exact_inv_def)
  define a where "a = Suc (sum_list as)"
  have "a \<noteq> 0" "a \<notin> set as" using member_le_sum_list [of a as] by (auto simp: a_def)
  from linked_run.init [OF r this, of v] show ?case by (auto simp: bigint_init_at_def init_eq [OF ok] added_value_def)
next
  case (destroy c us v ws)
  then obtain as m where r: "linked_run (c, us @ v # ws) as m" by blast
  have "length as = length (us @ v # ws)" using linked_run_inv [OF r] by (simp add: linked_inv_def)
  then have k: "length us < length as" by simp
  obtain xs a zs where e: "as = xs @ a # zs" "length us = length xs"
    by (rule that [OF id_take_nth_drop [OF k]]) (use k in simp)
  obtain v' c' m' where d: "bigint_destroy_at a (v, c, m) = (v', c', m')" by (metis prod_cases3)
  then have "c' = snd (phy_bigint_destroy v c)" by (auto simp: bigint_destroy_at_def split: prod.splits)
  then show ?case using linked_run.destroy [OF r [unfolded e(1)] e(2) d] by blast
next
  case (call s s')
  then show ?case using linked_run.call [OF _ _ temporaries.none] by blast
qed

section \<open>The walks\<close>

lemma validate_walk_ok:
  assumes "segment m p a xs q 0" "\<forall>x \<in> set xs. phy_bigint_shallow_valid c (obj x)" "max_limbs (ec_limits c) \<le> PHY_EXACT_MAX_LIMBS_CEILING"
    and "n + length xs \<le> ec_values c" "b + sum_list (map (\<lambda>x. limb_bytes (obj x)) xs) \<le> SIZE_MAX"
  shows "validate_walk c m obj p a n b = Some (n + length xs, b + sum_list (map (\<lambda>x. limb_bytes (obj x)) xs))"
  using assms
proof (induction xs arbitrary: p a n b)
  case Nil
  then show ?case by (simp add: validate_walk.simps)
next
  case (Cons x xs)
  then have "capacity (obj x) \<le> PHY_EXACT_MAX_LIMBS_CEILING" by (simp add: phy_bigint_shallow_valid_def)
  then have cb: "checked_bytes (capacity (obj x)) 4 = Some (capacity (obj x) * 4)" by (rule checked_bytes_limbs)
  have own: "bg_owner (obj x) = ec_id c" using Cons.prems(2) by (simp add: phy_bigint_shallow_valid_def phy_bigint_handle_valid_def)
  show ?case using Cons.prems Cons.IH [of x "lk_next m x" "Suc n" "b + capacity (obj x) * 4"] cb own
    by (subst validate_walk.simps) simp
qed

lemma destroy_walk_ok:
  assumes "segment m p a xs q 0" "distinct xs" "sum_list (map (\<lambda>x. limb_bytes (obj x)) xs) \<le> ec_bytes c"
  shows "destroy_walk a (c, m, obj) = Some (c\<lparr>ec_bytes := ec_bytes c - sum_list (map (\<lambda>x. limb_bytes (obj x)) xs)\<rparr>,
    m\<lparr>lk_previous := (\<lambda>x. if x \<in> set xs then 0 else lk_previous m x), lk_next := (\<lambda>x. if x \<in> set xs then 0 else lk_next m x)\<rparr>,
    \<lambda>x. if x \<in> set xs then null_bigint else obj x)"
  using assms
proof (induction xs arbitrary: p a c m obj)
  case Nil
  then show ?case by (simp add: destroy_walk.simps)
next
  case (Cons x xs)
  let ?m = "m\<lparr>lk_previous := (lk_previous m)(x := 0), lk_next := (lk_next m)(x := 0)\<rparr>" and ?obj = "obj(x := null_bigint)"
  let ?c = "if bg_limbs (obj x) \<noteq> [] then discharge c (limb_bytes (obj x)) else c"
  have x: "a = x" "x \<noteq> 0" "x \<notin> set xs" using Cons.prems by simp_all
  have c: "?c = c\<lparr>ec_bytes := ec_bytes c - limb_bytes (obj x)\<rparr>" using Cons.prems(3) by (simp add: discharge_def)
  have same: "map (\<lambda>y. limb_bytes (?obj y)) xs = map (\<lambda>y. limb_bytes (obj y)) xs" using x(3) by auto
  have "segment ?m x (lk_next m x) xs q 0 = segment m x (lk_next m x) xs q 0"
    by (rule segment_cong) (use x(3) in auto)
  then have "segment ?m x (lk_next m x) xs q 0" using Cons.prems(1) by simp
  note ih = Cons.IH [OF this, of ?obj ?c]
  have "sum_list (map (\<lambda>y. limb_bytes (?obj y)) xs) \<le> ec_bytes ?c" using Cons.prems(3) unfolding same c by simp
  note r = ih [OF _ this]
  have e: "(\<lambda>y. if y \<in> set xs then 0 else lk_previous ?m y) = (\<lambda>y. if y \<in> set (x # xs) then 0 else lk_previous m y)"
    "(\<lambda>y. if y \<in> set xs then 0 else lk_next ?m y) = (\<lambda>y. if y \<in> set (x # xs) then 0 else lk_next m y)"
    "(\<lambda>y. if y \<in> set xs then null_bigint else ?obj y) = (\<lambda>y. if y \<in> set (x # xs) then null_bigint else obj y)"
    by (simp_all add: fun_eq_iff)
  have b: "?c\<lparr>ec_bytes := ec_bytes ?c - sum_list (map (\<lambda>y. limb_bytes (?obj y)) xs)\<rparr> =
      c\<lparr>ec_bytes := ec_bytes c - sum_list (map (\<lambda>x. limb_bytes (obj x)) (x # xs))\<rparr>"
    unfolding same c by simp
  have mm: "?m\<lparr>lk_previous := F, lk_next := G\<rparr> = m\<lparr>lk_previous := F, lk_next := G\<rparr>" for F G by simp
  have "distinct xs" using Cons.prems(2) by simp
  note r [OF this, unfolded e b mm]
  moreover have "destroy_walk a (c, m, obj) = destroy_walk (lk_next m x) (?c, ?m, ?obj)"
    using x by (subst destroy_walk.simps) simp
  ultimately show ?case by (simp only:)
qed

lemma total_at:
  assumes "length as = length vs" "distinct as" "distinct ys" "set ys = set as"
  shows "sum_list (map (\<lambda>x. limb_bytes (object_at as vs x)) ys) = sum_list (map limb_bytes vs)" "length ys = length vs"
    "set (map (object_at as vs) ys) = set vs"
proof -
  let ?f = "\<lambda>x. limb_bytes (object_at as vs x)"
  have "sum_list (map ?f ys) = sum_list (map ?f as)"
    using assms(2-4) by (simp add: sum_list_distinct_conv_sum_set)
  also have "\<dots> = sum_list (map limb_bytes (map (object_at as vs) as))" by (simp add: o_def)
  finally show "sum_list (map ?f ys) = sum_list (map limb_bytes vs)" unfolding object_at_map [OF assms(1,2)] .
  show "length ys = length vs" using assms by (metis distinct_card)
  show "set (map (object_at as vs) ys) = set vs" using assms(4) object_at_map [OF assms(1,2)] by (metis set_map)
qed

lemma linked_validate:
  assumes "linked_inv (c, vs) as m"
  shows "phy_exact_validate c m (object_at as vs) = PHY_OK"
proof -
  obtain ys where y: "linked m ys" "set ys = set as" and a: "length as = length vs" "distinct as" and inv: "exact_inv (c, vs)"
    using assms by (auto simp: linked_inv_def)
  obtain q where q: "segment m 0 (lk_values m) ys q 0" "distinct ys" using y(1) by (auto simp: linked_def)
  note t = total_at [OF a q(2) y(2)]
  have "\<forall>x \<in> set ys. phy_bigint_shallow_valid c (object_at as vs x)"
    using inv t(3) by (auto simp: exact_inv_def)
  from validate_walk_ok [OF q(1) this, of 0 sizeof_exact_context] show ?thesis
    using inv t by (simp add: phy_exact_validate_def exact_inv_def ctx_ok_def phy_exact_context_is_valid_def)
qed

lemma linked_destroy:
  assumes "linked_inv (c, vs) as m"
  shows "\<exists>c' m'. phy_exact_context_destroy (c, m, object_at as vs) = Some (c', m', \<lambda>_. null_bigint) \<and>
    ec_bytes c' = sizeof_exact_context \<and> ec_values c' = 0 \<and> \<not> phy_exact_context_is_valid c' \<and> lk_values m' = 0"
proof -
  obtain ys where y: "linked m ys" "set ys = set as" and a: "length as = length vs" "distinct as" and inv: "exact_inv (c, vs)"
    using assms by (auto simp: linked_inv_def)
  obtain q where q: "segment m 0 (lk_values m) ys q 0" "distinct ys" using y(1) by (auto simp: linked_def)
  note t = total_at [OF a q(2) y(2)]
  have o: "(\<lambda>x. if x \<in> set ys then null_bigint else object_at as vs x) = (\<lambda>_. null_bigint)"
    using object_at_none [OF a(1)] y(2) by (auto simp: fun_eq_iff)
  have "phy_exact_context_is_valid c" using inv by (simp add: exact_inv_def ctx_ok_def phy_exact_context_is_valid_def)
  then show ?thesis using destroy_walk_ok [OF q, of "object_at as vs" c] inv t
    by (simp add: phy_exact_context_destroy_def o exact_inv_def phy_exact_context_is_valid_def)
qed

end
