(* ===== verification/ExactDemo.thy ===== *)
theory ExactDemo
  imports ExactLinks "HOL-Library.Code_Target_Nat"
begin

text \<open>
  A small concrete history of an exact-number context, on which the witnesses of the
  properties evaluate: three integers under the default limits.
\<close>

section \<open>A history for the witnesses\<close>

definition demo_init :: "exact_state \<Rightarrow> exact_state" where
  "demo_init st = (case st of (c, vs) \<Rightarrow> added_value vs (phy_bigint_init (null_bigint, c)))"

definition demo_set :: "nat \<Rightarrow> int \<Rightarrow> exact_state \<Rightarrow> exact_state" where
  "demo_set k i st = (case st of (c, vs) \<Rightarrow> stored vs k (phy_bigint_set_i64 i (vs ! k, c)))"

text \<open>Three integers under the default limits: a number of two limbs, one of one limb, zero.\<close>

definition demo_exact :: exact_state where
  "demo_exact = demo_set 1 (- 12) (demo_set 0 9999999999 (demo_init (demo_init (demo_init
     (the (phy_exact_context_create None 7 (\<lambda>_ _. True)), [])))))"

lemma demo_init_run: "exact_run st \<Longrightarrow> exact_run (demo_init st)"
  by (cases st) (simp add: demo_init_def exact_run.init)

lemma demo_set_op:
  assumes "k < length (snd st)" "- (2 ^ 63) \<le> i" "i < 2 ^ 63"
  shows "exact_op st (demo_set k i st)"
proof (cases st)
  case (Pair c vs)
  then show ?thesis using exact_op.set [of k vs i c] assms unfolding demo_set_def by simp
qed

lemma demo_set_run:
  assumes "exact_run st" "k < length (snd st)" "- (2 ^ 63) \<le> i" "i < 2 ^ 63"
  shows "exact_run (demo_set k i st)"
  by (rule exact_run.call [OF assms(1) demo_set_op [OF assms(2-4)]])

lemma length_demo [simp]: "length (snd (demo_init st)) = Suc (length (snd st))" "length (snd (demo_set k i st)) = length (snd st)"
  by (auto simp: demo_init_def demo_set_def added_value_def stored_def split: prod.splits)

lemma demo_exact_run: "exact_run (fst demo_exact, snd demo_exact)"
proof -
  let ?c = "the (phy_exact_context_create None 7 (\<lambda>_ _. True))"
  have "phy_exact_context_create None 7 (\<lambda>_ _. True) = Some ?c"
    by (simp add: phy_exact_context_create_def resolve_limits_def phy_exact_limits_defaults_def sizeof_exact_context_def
        PHY_EXACT_MAX_LIMBS_CEILING_def Let_def)
  then have "exact_run (?c, [])" by (rule exact_run.create [of None, rotated]) (simp add: sized_limits_def)
  then have "exact_run demo_exact"
    unfolding demo_exact_def by (intro demo_set_run demo_init_run) simp_all
  then show ?thesis by simp
qed

lemma demo_exact_length: "length (snd demo_exact) = 3"
  by (simp add: demo_exact_def)

text \<open>
  The same calls at the addresses 16, 32 and 48, each assignment with its temporary at 64; then the
  second integer is destroyed, which stands between the other two in the list.
\<close>

definition demo_links :: value_links where
  "demo_links = unlink_value 64 (link_value 64 (unlink_value 64 (link_value 64
     (link_value 48 (link_value 32 (link_value 16 no_values))))))"

lemma init_linked:
  assumes "linked_run st as m" "a \<noteq> 0" "a \<notin> set as"
  shows "linked_run (demo_init st) (as @ [a]) (link_value a m)"
proof (cases st)
  case (Pair c vs)
  have ok: "ctx_ok c" using linked_run_inv [OF assms(1)] Pair by (simp add: linked_inv_def exact_inv_def)
  show ?thesis using linked_run.init [OF assms(1) [unfolded Pair] assms(2,3), of null_bigint]
    by (simp add: Pair demo_init_def added_value_def bigint_init_at_def init_eq [OF ok])
qed

lemma set_linked:
  assumes "linked_run st as m" "k < length (snd st)" "- (2 ^ 63) \<le> i" "i < 2 ^ 63" "a \<noteq> 0" "a \<notin> set as"
  shows "linked_run (demo_set k i st) as (unlink_value a (link_value a m))"
proof -
  have "temporaries (set as) m (insert a {} - {a}) (unlink_value a (link_value a m))"
    by (intro temporaries.intros) (use assms(5,6) in auto)
  then have t: "temporaries (set as) m {} (unlink_value a (link_value a m))" by simp
  show ?thesis by (rule linked_run.call [OF assms(1) demo_set_op [OF assms(2-4)] t])
qed

lemma demo_linked: "linked_run demo_exact [16, 32, 48] demo_links"
proof -
  let ?c = "the (phy_exact_context_create None 7 (\<lambda>_ _. True))"
  have "phy_exact_context_create None 7 (\<lambda>_ _. True) = Some ?c"
    by (simp add: phy_exact_context_create_def resolve_limits_def phy_exact_limits_defaults_def sizeof_exact_context_def
        PHY_EXACT_MAX_LIMBS_CEILING_def Let_def)
  then have 0: "linked_run (?c, []) [] no_values" by (rule linked_run.create [of None, rotated]) (simp add: sized_limits_def)
  have 1: "linked_run (demo_init (?c, [])) [16] (link_value 16 no_values)" using init_linked [OF 0, of 16] by simp
  have 2: "linked_run (demo_init (demo_init (?c, []))) [16, 32] (link_value 32 (link_value 16 no_values))"
    using init_linked [OF 1, of 32] by simp
  have 3: "linked_run (demo_init (demo_init (demo_init (?c, [])))) [16, 32, 48] (link_value 48 (link_value 32 (link_value 16 no_values)))"
    using init_linked [OF 2, of 48] by simp
  show ?thesis unfolding demo_exact_def demo_links_def
    by (intro set_linked 3) simp_all
qed

text \<open>After the destruction of the second integer.\<close>

definition demo_less :: "phy_exact_context \<times> value_links" where
  "demo_less = snd (bigint_destroy_at 32 (snd demo_exact ! 1, fst demo_exact, demo_links))"

lemma demo_less_linked: "linked_run (fst demo_less, [snd demo_exact ! 0, snd demo_exact ! 2]) [16, 48] (snd demo_less)"
proof -
  have v: "snd demo_exact = [snd demo_exact ! 0] @ snd demo_exact ! 1 # [snd demo_exact ! 2]"
    using demo_exact_length by (intro nth_equalityI) (auto simp: less_Suc_eq numeral_3_eq_3 numeral_2_eq_2)
  have s: "demo_exact = (fst demo_exact, [snd demo_exact ! 0] @ snd demo_exact ! 1 # [snd demo_exact ! 2])"
    using v by (metis prod.collapse)
  have "linked_run (fst demo_exact, [snd demo_exact ! 0] @ snd demo_exact ! 1 # [snd demo_exact ! 2]) ([16] @ 32 # [48]) demo_links"
    using demo_linked s by (metis append_Cons append_Nil)
  from linked_run.destroy [OF this] show ?thesis
    by (cases "bigint_destroy_at 32 (snd demo_exact ! 1, fst demo_exact, demo_links)") (simp add: demo_less_def)
qed

end
