(* ===== verification/BigintProperties.thy ===== *)
theory BigintProperties
  imports ExactDemo
begin

text \<open>
  The properties of the exact integers, stated on every state of every history of a context,
  with the operands and the output picked from the live handles by position (so an output
  may be one of its inputs).
\<close>

section \<open>Histories\<close>

text \<open>
  C5. In every history of a context, whatever each call returned and whatever temporaries it linked
  and unlinked, the code's own consistency check succeeds: the walk along \<open>next\<close> meets every live
  handle once, each with the \<open>previous\<close> it was reached from, all of them valid, and their number and
  bytes are those the context counts. No operation is left open; and destroying the context ends,
  with every object zeroed, every limb array given back and the list empty.
\<close>

theorem exact_history_consistent:
  assumes "linked_run (c, vs) as m"
  shows "phy_exact_validate c m (object_at as vs) = PHY_OK \<and> ec_depth c = 0 \<and>
    (\<exists>c' m'. phy_exact_context_destroy (c, m, object_at as vs) = Some (c', m', \<lambda>_. null_bigint) \<and>
      ec_bytes c' = sizeof_exact_context \<and> ec_values c' = 0 \<and> \<not> phy_exact_context_is_valid c' \<and> lk_values m' = 0)"
  using linked_validate linked_destroy linked_run_inv [OF assms] by (auto simp: linked_inv_def exact_inv_def)

theorem exact_history_consistent_witness:
  "phy_exact_validate (fst demo_less) (snd demo_less) (object_at [16, 48] [snd demo_exact ! 0, snd demo_exact ! 2]) = PHY_OK \<and>
   lk_values (snd demo_less) = 48 \<and> lk_next (snd demo_less) 48 = 16 \<and> lk_previous (snd demo_less) 16 = 48 \<and>
   lk_next (snd demo_less) 16 = 0 \<and> lk_previous (snd demo_less) 48 = 0"
proof -
  have "lk_values (snd demo_less) = 48" "lk_next (snd demo_less) 48 = 16" "lk_previous (snd demo_less) 16 = 48"
   "lk_next (snd demo_less) 16 = 0" "lk_previous (snd demo_less) 48 = 0" by code_simp+
  then show ?thesis using exact_history_consistent [OF demo_less_linked] by simp
qed

section \<open>Ring operations\<close>

text \<open>
  C15. Addition and subtraction are exact; when they fail the output is untouched and the cause
  is a limit below the stated bound, a failed allocation, or the cancel callback.
\<close>

theorem bigint_add_exact:
  assumes run: "exact_run (c, vs)" and k: "k < length vs" "l < length vs" "r < length vs"
  defines "n \<equiv> max (bg_count (vs ! l)) (bg_count (vs ! r))"
  shows "outcome (phy_bigint_add (vs ! l) (vs ! r) (vs ! k, c))
      (\<lambda>(out, c'). ival out = ival (vs ! l) + ival (vs ! r))
      (\<lambda>st (out, c'). out = vs ! k \<and> shortage n (n + 1) (8 * (n + 1)) (begun c) st) \<and>
    outcome (phy_bigint_subtract (vs ! l) (vs ! r) (vs ! k, c))
      (\<lambda>(out, c'). ival out = ival (vs ! l) - ival (vs ! r))
      (\<lambda>st (out, c'). out = vs ! k \<and> shortage n (n + 1) (8 * (n + 1)) (begun c) st)"
proof
  note inv = exact_run_inv [OF run]
  note v = inv_nth [OF inv k(1)] and a = inv_nth(2) [OF inv k(2)] and b = inv_nth(2) [OF inv k(3)]
  note op = add_op.transaction [OF _ v(1) v(2,3), of "vs ! l" "vs ! r"]
  have b1: "bg_sign (vs ! r) * int (magv (vs ! r)) = ival (vs ! r)" by (simp add: ival_def)
  show "outcome (phy_bigint_add (vs ! l) (vs ! r) (vs ! k, c))
      (\<lambda>(out, c'). ival out = ival (vs ! l) + ival (vs ! r))
      (\<lambda>st (out, c'). out = vs ! k \<and> shortage n (n + 1) (8 * (n + 1)) (begun c) st)"
    using outcome_mono [OF op [of "bg_sign (vs ! r)"]] a b v(2) b1
    by (simp add: phy_bigint_add_def compatible3_iff n_def) (auto elim!: outcome_mono)
  show "outcome (phy_bigint_subtract (vs ! l) (vs ! r) (vs ! k, c))
      (\<lambda>(out, c'). ival out = ival (vs ! l) - ival (vs ! r))
      (\<lambda>st (out, c'). out = vs ! k \<and> shortage n (n + 1) (8 * (n + 1)) (begun c) st)"
    using outcome_mono [OF op [of "- bg_sign (vs ! r)"]] a b v(2) b1
    by (simp add: phy_bigint_subtract_def compatible3_iff n_def) (auto elim!: outcome_mono)
qed

theorem bigint_add_exact_witness:
  "outcome (phy_bigint_add (snd demo_exact ! 0) (snd demo_exact ! 1) (snd demo_exact ! 1, fst demo_exact))
     (\<lambda>(out, c). ival out = 9999999987) (\<lambda>st s. False)"
proof -
  let ?r = "phy_bigint_add (snd demo_exact ! 0) (snd demo_exact ! 1) (snd demo_exact ! 1, fst demo_exact)"
  have "fst ?r = PHY_OK" "ival (snd demo_exact ! 0) + ival (snd demo_exact ! 1) = 9999999987" by code_simp+
  then show ?thesis
    using conjunct1 [OF bigint_add_exact [OF demo_exact_run, of 1 0 1]] by (cases ?r) (auto simp: demo_exact_length)
qed

text \<open>
  C7. Multiplication is exact for any operands, an output that is one of them included; a
  failure leaves the output as it was and has a cause, and the limb demand is sharp: a product
  that fits the limb limit never fails on that limit.
\<close>

theorem bigint_multiply_exact:
  assumes run: "exact_run (c, vs)" and k: "k < length vs" "l < length vs" "r < length vs"
  defines "m \<equiv> bg_count (vs ! l)" and "n \<equiv> bg_count (vs ! r)"
  shows "outcome (phy_bigint_multiply (vs ! l) (vs ! r) (vs ! k, c))
      (\<lambda>(out, c'). ival out = ival (vs ! l) * ival (vs ! r))
      (\<lambda>st (out, c'). out = vs ! k \<and>
         shortage (m * n) (product_limbs (vs ! l) (vs ! r)) (8 * (m + n)) (begun c) st)"
proof -
  note inv = exact_run_inv [OF run]
  note v = inv_nth [OF inv k(1)] and a = inv_nth(2) [OF inv k(2)] and b = inv_nth(2) [OF inv k(3)]
  show ?thesis unfolding m_def n_def
    by (rule outcome_mono [OF multiply_spec [OF v(1) a b v(2,3)]]) auto
qed

theorem bigint_multiply_exact_witness:
  "outcome (phy_bigint_multiply (snd demo_exact ! 0) (snd demo_exact ! 1) (snd demo_exact ! 0, fst demo_exact))
     (\<lambda>(out, c). ival out = - 119999999988) (\<lambda>st s. False)"
proof -
  let ?r = "phy_bigint_multiply (snd demo_exact ! 0) (snd demo_exact ! 1) (snd demo_exact ! 0, fst demo_exact)"
  have "fst ?r = PHY_OK" "ival (snd demo_exact ! 0) * ival (snd demo_exact ! 1) = - 119999999988" by code_simp+
  then show ?thesis
    using bigint_multiply_exact [OF demo_exact_run, of 0 0 1] by (cases ?r) (auto simp: demo_exact_length)
qed

text \<open>
  C30. Powers are exact for every 32-bit exponent; a failure leaves the output as it was and is
  a limit, a failed allocation or a cancel.
\<close>

theorem bigint_pow_exact:
  assumes run: "exact_run (c, vs)" and k: "k < length vs" "s < length vs"
  shows "outcome (phy_bigint_pow_u32 (vs ! s) e (vs ! k, c))
      (\<lambda>(out, c'). ival out = ival (vs ! s) ^ unat e)
      (\<lambda>st (out, c'). out = vs ! k \<and> resource_failure c st)"
proof -
  note inv = exact_run_inv [OF run]
  note v = inv_nth [OF inv k(1)] and a = inv_nth(2) [OF inv k(2)]
  show ?thesis
    by (rule outcome_mono [OF pow_spec [OF v(1) a v(2,3), unfolded settled_def]]) auto
qed

theorem bigint_pow_exact_witness:
  "outcome (phy_bigint_pow_u32 (snd demo_exact ! 1) 3 (snd demo_exact ! 2, fst demo_exact))
     (\<lambda>(out, c). ival out = (- 12) ^ 3) (\<lambda>st s. False)"
proof -
  let ?r = "phy_bigint_pow_u32 (snd demo_exact ! 1) 3 (snd demo_exact ! 2, fst demo_exact)"
  have "fst ?r = PHY_OK" "ival (snd demo_exact ! 1) = - 12" by code_simp+
  then show ?thesis
    using bigint_pow_exact [OF demo_exact_run, of 2 1 3] by (cases ?r) (auto simp: demo_exact_length)
qed

section \<open>Division\<close>

text \<open>
  C6. Division truncates toward zero: for a non-zero divisor and two different outputs the
  quotient and remainder are those of signed division, the remainder with the sign of the
  dividend, also when the outputs are the operands; on a failure both outputs are as before.
  A zero divisor is a domain error and one output for both results an invalid argument, with
  nothing changed.
\<close>

theorem bigint_divmod_truncates:
  assumes run: "exact_run (c, vs)" and k: "i < length vs" "j < length vs" "l < length vs" "r < length vs"
  shows "if i = j then phy_bigint_divmod (vs ! l) (vs ! r) (i = j) (vs ! i, vs ! j, c) = (PHY_ERR_INVALID_ARGUMENT, vs ! i, vs ! j, c)
    else if ival (vs ! r) = 0 then phy_bigint_divmod (vs ! l) (vs ! r) (i = j) (vs ! i, vs ! j, c) = (PHY_ERR_DOMAIN, vs ! i, vs ! j, c)
    else outcome (phy_bigint_divmod (vs ! l) (vs ! r) (i = j) (vs ! i, vs ! j, c))
      (\<lambda>(q, rem, c'). ival q = ival (vs ! l) sdiv ival (vs ! r) \<and> ival rem = ival (vs ! l) smod ival (vs ! r))
      (\<lambda>st (q, rem, c'). q = vs ! i \<and> rem = vs ! j \<and> resource_failure c st)"
proof -
  note inv = exact_run_inv [OF run]
  note a = inv_nth(2) [OF inv k(3)] and d = inv_nth(2) [OF inv k(4)] and q = inv_nth [OF inv k(1)] and w = inv_nth [OF inv k(2)]
  consider "i = j" | "i \<noteq> j" "ival (vs ! r) = 0" | "i \<noteq> j" "ival (vs ! r) \<noteq> 0" by blast
  then show ?thesis
  proof cases
    case 1
    then show ?thesis by (simp add: phy_bigint_divmod_def)
  next
    case 2
    then show ?thesis using divmod_by_zero [OF a d 2(2) q(2) w(2)] by simp
  next
    case 3
    have "outcome (phy_bigint_divmod (vs ! l) (vs ! r) False (vs ! i, vs ! j, c))
      (\<lambda>(q, rem, c'). ival q = ival (vs ! l) sdiv ival (vs ! r) \<and> ival rem = ival (vs ! l) smod ival (vs ! r))
      (\<lambda>st (q, rem, c'). q = vs ! i \<and> rem = vs ! j \<and> resource_failure c st)"
      by (rule outcome_mono [OF divmod_spec [OF q(1) a d 3(2) q(2) w(2) inv_two [OF inv k(1,2) 3(1)], unfolded divmod_done_def]]) auto
    then show ?thesis using 3 by simp
  qed
qed

theorem bigint_divmod_truncates_witness:
  "outcome (phy_bigint_divmod (snd demo_exact ! 1) (snd demo_exact ! 0) False (snd demo_exact ! 2, snd demo_exact ! 1, fst demo_exact))
     (\<lambda>(q, r, c). ival q = 0 \<and> ival r = - 12) (\<lambda>st s. False)"
proof -
  let ?r = "phy_bigint_divmod (snd demo_exact ! 1) (snd demo_exact ! 0) False (snd demo_exact ! 2, snd demo_exact ! 1, fst demo_exact)"
  have "fst ?r = PHY_OK" "ival (snd demo_exact ! 0) = 9999999999" "ival (snd demo_exact ! 1) = - 12" by code_simp+
  then show ?thesis
    using bigint_divmod_truncates [OF demo_exact_run, of 2 1 1 0]
    by (cases ?r) (auto simp: demo_exact_length signed_divide_int_def signed_modulo_int_def)
qed

text \<open>
  C31. Exact division succeeds only on a multiple of a non-zero divisor and then gives the
  quotient; on a multiple it fails only for lack of resources, on anything else with a domain
  error or for lack of resources, and a failure leaves the output as it was.
\<close>

theorem bigint_divide_exact_functional:
  assumes run: "exact_run (c, vs)" and k: "k < length vs" "l < length vs" "r < length vs"
  shows "outcome (phy_bigint_divide_exact (vs ! l) (vs ! r) (vs ! k, c))
      (\<lambda>(out, c'). ival (vs ! r) \<noteq> 0 \<and> ival (vs ! l) = ival out * ival (vs ! r))
      (\<lambda>st (out, c'). out = vs ! k \<and>
         (resource_failure c st \<or> st = PHY_ERR_DOMAIN \<and> \<not> (ival (vs ! r) \<noteq> 0 \<and> ival (vs ! r) dvd ival (vs ! l))))"
proof -
  note inv = exact_run_inv [OF run]
  note v = inv_nth [OF inv k(1)] and a = inv_nth(2) [OF inv k(2)] and b = inv_nth(2) [OF inv k(3)]
  show ?thesis
    by (rule outcome_mono [OF divide_exact_spec [OF v(1) a b v(2,3), unfolded settled_def]]) (auto split: if_splits)
qed

theorem bigint_divide_exact_functional_witness:
  "outcome (phy_bigint_divide_exact (snd demo_exact ! 1) (snd demo_exact ! 1) (snd demo_exact ! 2, fst demo_exact))
     (\<lambda>(out, c). ival out = 1) (\<lambda>st s. False)"
proof -
  let ?r = "phy_bigint_divide_exact (snd demo_exact ! 1) (snd demo_exact ! 1) (snd demo_exact ! 2, fst demo_exact)"
  have "fst ?r = PHY_OK" "ival (snd demo_exact ! 1) = - 12" by code_simp+
  then show ?thesis
    using bigint_divide_exact_functional [OF demo_exact_run, of 2 1 1] by (cases ?r) (auto simp: demo_exact_length)
qed

text \<open>
  C16. The greatest common divisor loop ends on every input, and a successful call writes the
  greatest common divisor of the operands (zero for two zeros).
\<close>

theorem bigint_gcd_returns:
  assumes run: "exact_run (c, vs)" and k: "k < length vs" "l < length vs" "r < length vs"
  shows "\<exists>res. phy_bigint_gcd (vs ! l) (vs ! r) (vs ! k, c) = Some res \<and>
    outcome res (\<lambda>(out, c'). ival out = gcd (ival (vs ! l)) (ival (vs ! r)))
      (\<lambda>st (out, c'). out = vs ! k \<and> resource_failure c st)"
proof -
  note inv = exact_run_inv [OF run]
  note v = inv_nth [OF inv k(1)] and a = inv_nth(2) [OF inv k(2)] and b = inv_nth(2) [OF inv k(3)]
  obtain res where res: "phy_bigint_gcd (vs ! l) (vs ! r) (vs ! k, c) = Some res"
    "settled (vs ! k) c (\<lambda>_ v. ival v = gcd (ival (vs ! l)) (ival (vs ! r))) (resource_failure c) res"
    using gcd_spec [OF v(1) a b v(2,3)] by blast
  show ?thesis
    by (intro exI conjI, rule res(1), rule outcome_mono [OF res(2) [unfolded settled_def]]) auto
qed

theorem bigint_gcd_returns_witness:
  "\<exists>st out c. phy_bigint_gcd (snd demo_exact ! 1) (snd demo_exact ! 2) (snd demo_exact ! 1, fst demo_exact) = Some (st, out, c) \<and>
     (if st = PHY_OK then ival out = 12 else out = snd demo_exact ! 1)"
proof -
  have "ival (snd demo_exact ! 1) = - 12" "ival (snd demo_exact ! 2) = 0" by code_simp+
  then show ?thesis
    using bigint_gcd_returns [OF demo_exact_run, of 1 1 2] by (auto simp: demo_exact_length split: if_splits)
qed

text \<open>
  C32. The residue modulo a 32-bit number is the least non-negative one, also for a negative
  integer; a failure stores nothing.
\<close>

theorem bigint_mod_u32_euclidean:
  assumes run: "exact_run (c, vs)" and k: "s < length vs" and m: "m \<noteq> 0"
  shows "outcome (phy_bigint_mod_u32 (vs ! s) m (x, c))
      (\<lambda>(y, c'). int (unat y) = ival (vs ! s) mod int (unat m))
      (\<lambda>st (y, c'). y = x \<and> shortage (bg_count (vs ! s)) 0 0 (begun c) st)"
proof -
  note inv = exact_run_inv [OF run]
  show ?thesis
    by (rule outcome_mono [OF mod_u32_spec [OF inv_nth(1,2) [OF inv k] m]]) auto
qed

theorem bigint_mod_u32_euclidean_witness:
  "outcome (phy_bigint_mod_u32 (snd demo_exact ! 1) 1000 (0, fst demo_exact)) (\<lambda>(y, c). int (unat y) = 988) (\<lambda>st s. False)"
proof -
  let ?r = "phy_bigint_mod_u32 (snd demo_exact ! 1) 1000 (0, fst demo_exact)"
  have "fst ?r = PHY_OK" "ival (snd demo_exact ! 1) = - 12" by code_simp+
  then show ?thesis
    using bigint_mod_u32_euclidean [OF demo_exact_run, of 1 1000 0] by (cases ?r) (auto simp: demo_exact_length)
qed

end
