(* ===== verification/BigintTextProperties.thy ===== *)
theory BigintTextProperties
  imports ExactDemo
begin

text \<open>
  The properties of the exact integers that face the outside: decimal text, 64-bit machine
  integers, order and bit length, on every state of every history of a context.
\<close>

section \<open>Text\<close>

text \<open>A canonical text has no terminator inside, so a stored text ends at its own.\<close>

lemma stored_text: "takeWhile (\<lambda>ch. ch \<noteq> CHR 0x00) (store_text (decimal_text i) buffer) = decimal_text i"
proof -
  have nul: "\<not> digit_char (CHR 0x00)" by (simp add: digit_char_def)
  have "list_all digit_char (decimal_nat (nat \<bar>i\<bar>))" using decimal_nat_digits by blast
  then have "\<forall>ch \<in> set (decimal_text i). ch \<noteq> CHR 0x00"
    using nul by (auto simp: decimal_text_def list_all_iff)
  then show ?thesis by (simp add: store_text_def takeWhile_append)
qed

text \<open>
  C29. Reading accepts exactly an optional sign followed by one or more decimal digits and
  gives the number they denote; any other text is a parse error. A failure keeps the old value,
  and a well-formed text fails only for lack of resources.
\<close>

theorem bigint_read_functional:
  fixes str :: string
  assumes run: "exact_run (c, vs)" and k: "k < length vs"
  defines "n \<equiv> length (snd (read_sign str))"
  shows "outcome (phy_bigint_read (Some str) (vs ! k, c))
      (\<lambda>(out, c'). read_number str = Some (ival out))
      (\<lambda>st (out, c'). out = vs ! k \<and>
         (if read_number str = None then st = PHY_ERR_PARSE
          else shortage (2 * digit_limbs n * n) (digit_limbs n + 1) (16 * (digit_limbs n + 1)) (begun c) st))"
  unfolding n_def
  by (rule outcome_mono [OF read_spec [OF inv_nth [OF exact_run_inv [OF run] k]]]) auto

theorem bigint_read_functional_witness:
  "outcome (phy_bigint_read (Some ''-40'') (snd demo_exact ! 0, fst demo_exact)) (\<lambda>(out, c). ival out = - 40) (\<lambda>st s. False) \<and>
   fst (phy_bigint_read (Some ''4x'') (snd demo_exact ! 0, fst demo_exact)) = PHY_ERR_PARSE"
proof
  let ?r = "phy_bigint_read (Some ''-40'') (snd demo_exact ! 0, fst demo_exact)"
  have "fst ?r = PHY_OK" "read_number ''-40'' = Some (- 40)" by code_simp+
  then show "outcome ?r (\<lambda>(out, c). ival out = - 40) (\<lambda>st s. False)"
    using bigint_read_functional [OF demo_exact_run, of 0 "''-40''"] by (cases ?r) (auto simp: demo_exact_length)
  show "fst (phy_bigint_read (Some ''4x'') (snd demo_exact ! 0, fst demo_exact)) = PHY_ERR_PARSE" by code_simp
qed

text \<open>
  C28. Writing produces the canonical decimal text (a minus sign for a negative number, no
  leading zero) with its terminator, and reports the exact number of bytes needed, also to a
  caller that passes no buffer; a buffer that is too small is a memory-limit error that still
  reports the size, and no failure touches the buffer.
\<close>

theorem bigint_write_canonical:
  assumes run: "exact_run (c, vs)" and s: "s < length vs"
    and r: "phy_bigint_write (vs ! s) bufsize (buffer, required, c) = (st, buffer', required', c')"
  shows "if st = PHY_OK then required' = length (decimal_text (ival (vs ! s))) + 1 \<and> (buffer \<noteq> None \<longrightarrow> required' \<le> bufsize) \<and>
      buffer' = map_option (store_text (decimal_text (ival (vs ! s)))) buffer
    else buffer' = buffer \<and>
      (if required' = length (decimal_text (ival (vs ! s))) + 1 then st = PHY_ERR_MEMORY_LIMIT \<and> buffer \<noteq> None \<and> bufsize < required'
       else required' = 0 \<and> resource_failure c st)"
proof -
  note inv = inv_nth [OF exact_run_inv [OF run] s]
  have "resource_failure (begun c) = resource_failure c" using resource_env [OF begun_env(1)] by blast
  from shortage_resource [where c = "begun c", unfolded this] show ?thesis
    using write_spec [OF inv(1,2), of bufsize buffer required, unfolded r]
    by (auto simp: written_def Let_def split: if_splits)
qed

theorem bigint_write_canonical_witness:
  "\<exists>st b n c. phy_bigint_write (snd demo_exact ! 1) 5 (Some ''abcde'', 0, fst demo_exact) = (st, b, n, c) \<and>
     (if st = PHY_OK then b = Some (''-12'' @ [CHR 0x00] @ ''e'') \<and> n = 4 else b = Some ''abcde'')"
proof -
  let ?r = "phy_bigint_write (snd demo_exact ! 1) 5 (Some ''abcde'', 0, fst demo_exact)"
  have v: "ival (snd demo_exact ! 1) = - 12" and t: "decimal_text (- 12) = ''-12''" by code_simp+
  obtain st b n c where r: "?r = (st, b, n, c)" by (metis prod_cases4)
  show ?thesis
    using bigint_write_canonical [OF demo_exact_run _ r] v t r by (simp add: demo_exact_length store_text_def split: if_splits)
qed

text \<open>Writing zero, evaluated.\<close>

lemma demo_write: "phy_bigint_write (snd demo_exact ! 2) 3 (Some ''abc'', 0, fst demo_exact) =
  (PHY_OK, Some (''0'' @ [CHR 0x00] @ ''c''), 2, fst demo_exact)"
proof -
  have v: "phy_bigint_shallow_valid (fst demo_exact) (snd demo_exact ! 2)" "bg_count (snd demo_exact ! 2) = 0"
    "ec_depth (fst demo_exact) = 0" "phy_exact_context_is_valid (fst demo_exact)" "ec_steps (fst demo_exact) = 0" by code_simp+
  have "(fst demo_exact)\<lparr>ec_depth := 0, ec_steps := 0\<rparr> = fst demo_exact" using v(3,5) by simp
  then show ?thesis using v
    by (simp add: phy_bigint_write_def phy_exact_operation_begin_def phy_exact_operation_end_def store_text_def
        phy_exact_context_is_valid_def)
qed

text \<open>
  C17. Text round trip: what a successful write leaves in the buffer, read back up to its
  terminator into any handle, is the number that was written; the reading can only fail for
  lack of resources.
\<close>

theorem bigint_text_roundtrip:
  assumes run: "exact_run (c, vs)" and k: "s < length vs" "k < length vs"
    and r: "phy_bigint_write (vs ! s) bufsize (Some buffer, required, c) = (PHY_OK, Some buffer', required', c')"
  shows "outcome (phy_bigint_read (Some (takeWhile (\<lambda>ch. ch \<noteq> CHR 0x00) buffer')) (vs ! k, c'))
      (\<lambda>(out, c''). ival out = ival (vs ! s)) (\<lambda>st (out, c''). out = vs ! k \<and> resource_failure c' st)"
proof -
  note inv = exact_run_inv [OF run]
  let ?t = "decimal_text (ival (vs ! s))"
  have "buffer' = store_text ?t buffer"
    using write_spec [OF inv_nth(1,2) [OF inv k(1)], of bufsize "Some buffer" required, unfolded r] by (simp add: written_def Let_def)
  then have b: "takeWhile (\<lambda>ch. ch \<noteq> CHR 0x00) buffer' = ?t" by (simp add: stored_text)
  have rf: "resource_failure (begun c') = resource_failure c'" using resource_env [OF begun_env(1)] by blast
  note inv' = inv_nth [OF inv_write [OF inv k(1) r] k(2)]
  show ?thesis unfolding b
    by (rule outcome_mono [OF read_spec [OF inv']])
      (auto simp: read_decimal_text rf [symmetric] intro: shortage_resource)
qed

theorem bigint_text_roundtrip_witness:
  "outcome (phy_bigint_read (Some ''0'') (snd demo_exact ! 1, fst demo_exact)) (\<lambda>(out, c). ival out = 0) (\<lambda>st s. False)"
proof -
  have v: "ival (snd demo_exact ! 2) = 0" and ok: "fst (phy_bigint_read (Some ''0'') (snd demo_exact ! 1, fst demo_exact)) = PHY_OK"
    by code_simp+
  from bigint_text_roundtrip [OF demo_exact_run _ _ demo_write, of 1] show ?thesis
    using v ok by (cases "phy_bigint_read (Some ''0'') (snd demo_exact ! 1, fst demo_exact)") (auto simp: demo_exact_length)
qed

section \<open>Machine integers, order and size\<close>

text \<open>
  C33. A 64-bit integer stored into a handle is read back exactly, the least one included, and
  an exact integer converts to 64 bits exactly when it is in range.
\<close>

theorem bigint_i64_roundtrip:
  assumes run: "exact_run (c, vs)" and k: "k < length vs" and i: "- (2 ^ 63) \<le> i" "i < 2 ^ 63"
  shows "outcome (phy_bigint_set_i64 i (vs ! k, c))
      (\<lambda>(out, c'). ival out = i \<and> phy_bigint_try_i64 c' out = Some i)
      (\<lambda>st (out, c'). out = vs ! k \<and> shortage 0 2 16 (begun c) st) \<and>
    phy_bigint_try_i64 c (vs ! k) =
      (if - (2 ^ 63) \<le> ival (vs ! k) \<and> ival (vs ! k) < 2 ^ 63 then Some (ival (vs ! k)) else None)"
proof
  note v = inv_nth [OF exact_run_inv [OF run] k]
  let ?s = "if i < 0 then - 1 else if 0 < i then 1 else 0 :: int"
  have m: "(if ?s = 0 then 1 else ?s) * int (unat (magnitude_i64 i)) = i" using magnitude_i64_spec [OF i] by simp
  have eq: "phy_bigint_set_i64 i (vs ! k, c) = with_result (phy_bigint_assign_u64 (magnitude_i64 i) ?s) (vs ! k, c)"
    using v(2) by (simp add: phy_bigint_set_i64_def)
  have s: "?s = 0 \<or> ?s = 1 \<or> ?s = - 1" by simp
  show "outcome (phy_bigint_set_i64 i (vs ! k, c))
      (\<lambda>(out, c'). ival out = i \<and> phy_bigint_try_i64 c' out = Some i)
      (\<lambda>st (out, c'). out = vs ! k \<and> shortage 0 2 16 (begun c) st)"
    unfolding eq
  proof (rule outcome_mono [OF assign_op.transaction [OF s v(1) v(2,3), of "magnitude_i64 i", unfolded m]], goal_cases)
    case (1 r)
    then show ?case using try_i64_spec i by (cases r) auto
  qed auto
  show "phy_bigint_try_i64 c (vs ! k) =
      (if - (2 ^ 63) \<le> ival (vs ! k) \<and> ival (vs ! k) < 2 ^ 63 then Some (ival (vs ! k)) else None)"
    by (rule try_i64_spec [OF v(2)])
qed

theorem bigint_i64_roundtrip_witness:
  "outcome (phy_bigint_set_i64 (- 9223372036854775808) (snd demo_exact ! 2, fst demo_exact))
     (\<lambda>(out, c). phy_bigint_try_i64 c out = Some (- 9223372036854775808)) (\<lambda>st s. False)"
proof -
  let ?r = "phy_bigint_set_i64 (- 9223372036854775808) (snd demo_exact ! 2, fst demo_exact)"
  have "fst ?r = PHY_OK" by code_simp
  then show ?thesis
    using conjunct1 [OF bigint_i64_roundtrip [OF demo_exact_run, of 2 "- 9223372036854775808"]]
    by (cases ?r) (auto simp: demo_exact_length)
qed

text \<open>C34. Comparison is the order of the integers, comparison of magnitudes that of their absolute values.\<close>

theorem bigint_compare_order:
  assumes run: "exact_run (c, vs)" and k: "l < length vs" "r < length vs"
  shows "phy_bigint_compare c (vs ! l) (vs ! r) = sgn (ival (vs ! l) - ival (vs ! r)) \<and>
    phy_bigint_compare_abs c (vs ! l) (vs ! r) = sgn (\<bar>ival (vs ! l)\<bar> - \<bar>ival (vs ! r)\<bar>)"
proof -
  note a = inv_nth(2) [OF exact_run_inv [OF run] k(1)] and b = inv_nth(2) [OF exact_run_inv [OF run] k(2)]
  show ?thesis using compare_spec [OF a b] compare_abs_spec [OF a b] valid_sign [OF a] valid_sign [OF b] by simp
qed

theorem bigint_compare_order_witness:
  "phy_bigint_compare (fst demo_exact) (snd demo_exact ! 1) (snd demo_exact ! 2) = - 1 \<and>
   phy_bigint_compare_abs (fst demo_exact) (snd demo_exact ! 1) (snd demo_exact ! 2) = 1"
proof -
  have "ival (snd demo_exact ! 1) = - 12" "ival (snd demo_exact ! 2) = 0" by code_simp+
  then show ?thesis using bigint_compare_order [OF demo_exact_run, of 1 2] by (simp add: demo_exact_length)
qed

text \<open>C35. The bit length is the length of the binary numeral of the absolute value, zero for zero.\<close>

theorem bigint_bit_length_bounds:
  assumes run: "exact_run (c, vs)" and k: "k < length vs"
  defines "b \<equiv> phy_bigint_bit_length c (vs ! k)"
  shows "if ival (vs ! k) = 0 then b = 0 else 0 < b \<and> 2 ^ (b - 1) \<le> \<bar>ival (vs ! k)\<bar> \<and> \<bar>ival (vs ! k)\<bar> < 2 ^ b"
proof (cases "ival (vs ! k) = 0")
  note v = inv_nth(2) [OF exact_run_inv [OF run] k]
  case True
  then show ?thesis using valid_sign [OF v] by (simp add: b_def phy_bigint_bit_length_def)
next
  note v = inv_nth(2) [OF exact_run_inv [OF run] k]
  case False
  note s = bit_length_spec [OF v False, folded b_def]
  have "int (2 ^ (b - 1)) \<le> int (magv (vs ! k))" "int (magv (vs ! k)) < int (2 ^ b)"
    using s by (simp_all only: of_nat_le_iff of_nat_less_iff)
  then show ?thesis using False s valid_sign [OF v] by simp
qed

theorem bigint_bit_length_bounds_witness:
  "0 < phy_bigint_bit_length (fst demo_exact) (snd demo_exact ! 1)"
proof -
  have "ival (snd demo_exact ! 1) \<noteq> 0" by code_simp
  then show ?thesis using bigint_bit_length_bounds [OF demo_exact_run, of 1] by (simp add: demo_exact_length)
qed

end
