(* ===== verification/BigRat.thy ===== *)
theory BigRat
  imports BigintGcd BigintText BigintPow
begin

text \<open>
  The canonical arbitrary-precision rationals of \<open>src/exact/rational.c\<close>. A rational owns two
  integers of one context; every operation works on temporaries and swaps the result into its
  output at the end. A run is an option, because the greatest common divisor of the integers
  is: \<open>None\<close> would be a call that does not return.
\<close>

section \<open>Runs\<close>

type_synonym 's run = "(phy_status \<times> 's) option"

text \<open>Steps in order, each only while the status is \<open>PHY_OK\<close>.\<close>

fun run_steps :: "('s \<Rightarrow> 's run) list \<Rightarrow> 's \<Rightarrow> 's run" where
  "run_steps [] s = Some (PHY_OK, s)"
| "run_steps (f # fs) s = (case f s of None \<Rightarrow> None
     | Some (status, s') \<Rightarrow> if status = PHY_OK then run_steps fs s' else Some (status, s'))"

text \<open>A step that always returns.\<close>

definition always :: "('s \<Rightarrow> phy_status \<times> 's) \<Rightarrow> 's \<Rightarrow> 's run" where
  "always f s = Some (f s)"

section \<open>Values\<close>

record phy_bigrat =
  br_num :: phy_bigint
  br_den :: phy_bigint
  br_live :: bool

definition null_bigrat :: phy_bigrat where
  "null_bigrat = \<lparr>br_num = null_bigint, br_den = null_bigint, br_live = False\<rparr>"

text \<open>The denominator is one limb holding one.\<close>

definition is_one :: "phy_bigint \<Rightarrow> bool" where
  "is_one v \<longleftrightarrow> bg_count v = 1 \<and> bg_limbs v ! 0 = 1"

definition rational_valid_shallow :: "phy_exact_context \<Rightarrow> phy_bigrat \<Rightarrow> bool" where
  "rational_valid_shallow c r \<longleftrightarrow> br_live r \<and> phy_bigint_shallow_valid c (br_num r) \<and>
     phy_bigint_shallow_valid c (br_den r) \<and> bg_owner (br_num r) = bg_owner (br_den r) \<and>
     0 < bg_sign (br_den r) \<and> \<not> (bg_count (br_num r) = 0 \<and> \<not> is_one (br_den r))"

text \<open>\<open>rational_context\<close>: the owner of a valid rational, \<open>None\<close> for the null pointer.\<close>

definition rational_context :: "phy_exact_context \<Rightarrow> phy_bigrat \<Rightarrow> nat option" where
  "rational_context c r = (if rational_valid_shallow c r then Some (bg_owner (br_num r)) else None)"

definition rat_compatible2 :: "phy_exact_context \<Rightarrow> phy_bigrat \<Rightarrow> phy_bigrat \<Rightarrow> bool" where
  "rat_compatible2 c l r \<longleftrightarrow> rational_context c l \<noteq> None \<and> rational_context c r = rational_context c l"

definition rat_compatible3 :: "phy_exact_context \<Rightarrow> phy_bigrat \<Rightarrow> phy_bigrat \<Rightarrow> phy_bigrat \<Rightarrow> bool" where
  "rat_compatible3 c l r out \<longleftrightarrow> rat_compatible2 c l r \<and> rational_context c out = rational_context c l"

definition rat_swap_payload :: "phy_bigrat \<Rightarrow> phy_bigrat \<Rightarrow> phy_bigrat \<times> phy_bigrat" where
  "rat_swap_payload l r =
     (case phy_bigint_swap_payload (br_num l) (br_num r) of (ln, rn) \<Rightarrow>
      case phy_bigint_swap_payload (br_den l) (br_den r) of (ld, rd) \<Rightarrow>
        (l\<lparr>br_num := ln, br_den := ld\<rparr>, r\<lparr>br_num := rn, br_den := rd\<rparr>))"

section \<open>Life cycle\<close>

definition phy_bigrat_init :: "phy_bigrat \<times> phy_exact_context \<Rightarrow> phy_status \<times> phy_bigrat \<times> phy_exact_context" where
  "phy_bigrat_init st =
     (case st of (r, c) \<Rightarrow>
      if \<not> phy_exact_context_is_valid c then (PHY_ERR_INVALID_ARGUMENT, r, c)
      else case phy_bigint_init (null_bigint, c) of (status1, num, c1) \<Rightarrow>
      case (if status1 = PHY_OK then phy_bigint_init (null_bigint, c1) else (status1, null_bigint, c1)) of
        (status2, den, c2) \<Rightarrow>
      case (if status2 = PHY_OK then phy_bigint_assign_u64 1 1 (den, c2) else (status2, den, c2)) of
        (status3, den1, c3) \<Rightarrow>
      if status3 \<noteq> PHY_OK then (status3, null_bigrat, release [den1, num] c3)
      else (PHY_OK, \<lparr>br_num = num, br_den = den1, br_live = True\<rparr>, c3))"

definition phy_bigrat_destroy :: "phy_bigrat \<Rightarrow> phy_exact_context \<Rightarrow> phy_bigrat \<times> phy_exact_context" where
  "phy_bigrat_destroy r c =
     (if \<not> br_live r then (r, c)
      else (null_bigrat, snd (phy_bigint_destroy (br_num r) (snd (phy_bigint_destroy (br_den r) c)))))"

definition phy_bigrat_validate :: "phy_exact_context \<Rightarrow> phy_bigrat \<Rightarrow> phy_status" where
  "phy_bigrat_validate c r = (if rational_valid_shallow c r then PHY_OK else PHY_ERR_CORRUPT_DOCUMENT)"

text \<open>\<open>commit\<close>: the temporary is destroyed in every case.\<close>

definition rat_commit :: "phy_bigrat \<Rightarrow> phy_bigrat \<Rightarrow> phy_status \<Rightarrow> phy_exact_context \<Rightarrow> phy_bigrat \<times> phy_exact_context" where
  "rat_commit destination temporary status c =
     (case (if status = PHY_OK then rat_swap_payload destination temporary else (destination, temporary)) of
        (destination', temporary') \<Rightarrow> (destination', snd (phy_bigrat_destroy temporary' c)))"

section \<open>Temporaries of an operation\<close>

text \<open>
  The temporaries: the rationals (one of them becomes the result) and the integers, in the
  order of their declaration in the code, with the context.
\<close>

type_synonym work = "phy_bigrat list \<times> phy_bigint list \<times> phy_exact_context"

definition on_int ::
  "nat \<Rightarrow> (phy_bigrat list \<Rightarrow> phy_bigint list \<Rightarrow> phy_bigint \<times> phy_exact_context \<Rightarrow> (phy_bigint \<times> phy_exact_context) run) \<Rightarrow>
   work \<Rightarrow> work run" where
  "on_int k f w = (case w of (rs, ts, c) \<Rightarrow>
     map_option (\<lambda>(status, v, c'). (status, rs, ts[k := v], c')) (f rs ts (ts ! k, c)))"

definition on_num ::
  "nat \<Rightarrow> (phy_bigrat list \<Rightarrow> phy_bigint list \<Rightarrow> phy_bigint \<times> phy_exact_context \<Rightarrow> (phy_bigint \<times> phy_exact_context) run) \<Rightarrow>
   work \<Rightarrow> work run" where
  "on_num k f w = (case w of (rs, ts, c) \<Rightarrow>
     map_option (\<lambda>(status, v, c'). (status, rs[k := (rs ! k)\<lparr>br_num := v\<rparr>], ts, c')) (f rs ts (br_num (rs ! k), c)))"

definition on_den ::
  "nat \<Rightarrow> (phy_bigrat list \<Rightarrow> phy_bigint list \<Rightarrow> phy_bigint \<times> phy_exact_context \<Rightarrow> (phy_bigint \<times> phy_exact_context) run) \<Rightarrow>
   work \<Rightarrow> work run" where
  "on_den k f w = (case w of (rs, ts, c) \<Rightarrow>
     map_option (\<lambda>(status, v, c'). (status, rs[k := (rs ! k)\<lparr>br_den := v\<rparr>], ts, c')) (f rs ts (br_den (rs ! k), c)))"

definition on_rat ::
  "nat \<Rightarrow> (phy_bigrat list \<Rightarrow> phy_bigint list \<Rightarrow> phy_bigrat \<times> phy_exact_context \<Rightarrow> (phy_bigrat \<times> phy_exact_context) run) \<Rightarrow>
   work \<Rightarrow> work run" where
  "on_rat k f w = (case w of (rs, ts, c) \<Rightarrow>
     map_option (\<lambda>(status, r, c'). (status, rs[k := r], ts, c')) (f rs ts (rs ! k, c)))"

definition init_rat :: "nat \<Rightarrow> work \<Rightarrow> work run" where
  "init_rat k = on_rat k (\<lambda>rs ts. always phy_bigrat_init)"

definition init_int :: "nat \<Rightarrow> work \<Rightarrow> work run" where
  "init_int k = on_int k (\<lambda>rs ts. always phy_bigint_init)"

text \<open>Operation begin over zeroed temporaries, then their initialisation in order.\<close>

definition begin_work :: "nat \<Rightarrow> nat \<Rightarrow> phy_exact_context \<Rightarrow> work run" where
  "begin_work m n c =
     (case phy_exact_operation_begin c of (status, c0) \<Rightarrow>
      let w = (replicate m null_bigrat, replicate n null_bigint, c0)
      in if status \<noteq> PHY_OK then Some (status, w)
         else run_steps (map init_rat [0..<m] @ map init_int [0..<n]) w)"

definition work_run :: "nat \<Rightarrow> nat \<Rightarrow> (work \<Rightarrow> work run) list \<Rightarrow> phy_exact_context \<Rightarrow> work run" where
  "work_run m n fs c = (case begin_work m n c of None \<Rightarrow> None
     | Some (status, w) \<Rightarrow> if status = PHY_OK then run_steps fs w else Some (status, w))"

text \<open>
  The tail: on success the first rational is committed to the output, otherwise it is
  destroyed if it was initialised; then the integers are destroyed in reverse order.
\<close>

definition rat_finish ::
  "phy_bigrat \<Rightarrow> phy_status \<times> work \<Rightarrow> phy_status \<times> phy_bigrat \<times> phy_exact_context" where
  "rat_finish out r = (case r of (status, rs, ts, c) \<Rightarrow>
     case (if status = PHY_OK then rat_commit out (hd rs) status c
           else (out, if br_live (hd rs) then snd (phy_bigrat_destroy (hd rs) c) else c)) of (out', c1) \<Rightarrow>
     case phy_exact_operation_end (release (rev ts) c1) status of (status', c2) \<Rightarrow> (status', out', c2))"

text \<open>The tail of an operation that only destroys: a rational temporary that was not the result.\<close>

definition rat_close :: "phy_bigrat list \<Rightarrow> phy_bigint list \<Rightarrow> phy_exact_context \<Rightarrow> phy_exact_context" where
  "rat_close rs ts c = release (rev ts) (fold (\<lambda>r c. if br_live r then snd (phy_bigrat_destroy r c) else c) rs c)"

section \<open>Normal form\<close>

text \<open>
  \<open>normalize_in_place\<close>: a negative denominator moves its sign, zero becomes 0/1, anything
  else is divided by the greatest common divisor (slot 0; reduced parts in slots 1 and 2).
\<close>

definition move_sign :: "work \<Rightarrow> work run" where
  "move_sign w = (case w of (rs, ts, c) \<Rightarrow>
     if bg_sign (br_den (hd rs)) < 0 then
       run_steps [on_den 0 (\<lambda>rs ts. always (phy_bigint_negate (br_den (rs ! 0)))),
                  on_num 0 (\<lambda>rs ts. always (phy_bigint_negate (br_num (rs ! 0))))] w
     else Some (PHY_OK, w))"

definition take_reduced :: "work \<Rightarrow> work run" where
  "take_reduced w = (case w of (rs, ts, c) \<Rightarrow>
     case phy_bigint_swap_payload (br_num (rs ! 0)) (ts ! 1) of (num, t1) \<Rightarrow>
     case phy_bigint_swap_payload (br_den (rs ! 0)) (ts ! 2) of (den, t2) \<Rightarrow>
       Some (PHY_OK, rs[0 := (rs ! 0)\<lparr>br_num := num, br_den := den\<rparr>], ts[1 := t1, 2 := t2], c))"

definition reduce_steps :: "(work \<Rightarrow> work run) list" where
  "reduce_steps =
    [init_int 0, init_int 1, init_int 2,
     on_int 0 (\<lambda>rs ts. phy_bigint_gcd (br_num (rs ! 0)) (br_den (rs ! 0))),
     on_int 1 (\<lambda>rs ts. always (phy_bigint_divide_exact (br_num (rs ! 0)) (ts ! 0))),
     on_int 2 (\<lambda>rs ts. always (phy_bigint_divide_exact (br_den (rs ! 0)) (ts ! 0))),
     take_reduced]"

definition normalize_in_place :: "phy_bigrat \<times> phy_exact_context \<Rightarrow> (phy_bigrat \<times> phy_exact_context) run" where
  "normalize_in_place st = (case st of (r, c) \<Rightarrow>
     if \<not> phy_bigint_shallow_valid c (br_num r) \<or> \<not> phy_bigint_shallow_valid c (br_den r) \<or>
        bg_owner (br_num r) \<noteq> bg_owner (br_den r) then Some (PHY_ERR_INVALID_ARGUMENT, r, c)
     else if bg_count (br_den r) = 0 then Some (PHY_ERR_DOMAIN, r, c)
     else case move_sign ([r], [], c) of None \<Rightarrow> None
     | Some (status, rs, ts, c1) \<Rightarrow>
       if status \<noteq> PHY_OK then Some (status, hd rs, c1)
       else if bg_count (br_num (hd rs)) = 0 then
         map_option (\<lambda>(status', rs', ts', c'). (status', hd rs', c'))
           (on_den 0 (\<lambda>rs ts. always (phy_bigint_set_i64 1)) (rs, ts, c1))
       else map_option (\<lambda>(status', rs', ts', c'). (status', hd rs', release (rev ts') c'))
              (run_steps reduce_steps (rs, replicate 3 null_bigint, c1)))"

definition normalize_rat :: "work \<Rightarrow> work run" where
  "normalize_rat = on_rat 0 (\<lambda>rs ts. normalize_in_place)"

end
