(* ===== verification/BigRatOps.thy ===== *)
theory BigRatOps
  imports BigRat
begin

text \<open>
  The public operations on the rationals of \<open>src/exact/rational.c\<close>, in the order of the file:
  assignment, text, arithmetic, comparison and access. Rational temporaries are numbered from
  zero, integer temporaries by their declaration in the code.
\<close>

section \<open>Assignment\<close>

definition phy_bigrat_set_i64 ::
  "int \<Rightarrow> int \<Rightarrow> phy_bigrat \<times> phy_exact_context \<Rightarrow> (phy_bigrat \<times> phy_exact_context) run" where
  "phy_bigrat_set_i64 numerator denominator st = (case st of (out, c) \<Rightarrow>
     if rational_context c out = None then Some (PHY_ERR_INVALID_ARGUMENT, out, c)
     else map_option (rat_finish out) (work_run 1 0
       [on_num 0 (\<lambda>rs ts. always (phy_bigint_set_i64 numerator)),
        on_den 0 (\<lambda>rs ts. always (phy_bigint_set_i64 denominator)),
        normalize_rat] c))"

definition phy_bigrat_read ::
  "string option \<Rightarrow> string option \<Rightarrow> phy_bigrat \<times> phy_exact_context \<Rightarrow> (phy_bigrat \<times> phy_exact_context) run" where
  "phy_bigrat_read numerator denominator st = (case st of (out, c) \<Rightarrow>
     if rational_context c out = None \<or> numerator = None \<or> denominator = None
     then Some (PHY_ERR_INVALID_ARGUMENT, out, c)
     else map_option (rat_finish out) (work_run 1 0
       [on_num 0 (\<lambda>rs ts. always (phy_bigint_read numerator)),
        on_den 0 (\<lambda>rs ts. always (phy_bigint_read denominator)),
        normalize_rat] c))"

definition copy_parts :: "phy_bigrat \<Rightarrow> (work \<Rightarrow> work run) list" where
  "copy_parts source =
     [on_num 0 (\<lambda>rs ts. always (phy_bigint_copy (br_num source) False)),
      on_den 0 (\<lambda>rs ts. always (phy_bigint_copy (br_den source) False))]"

text \<open>\<open>same\<close>: whether source and destination are one handle.\<close>

definition phy_bigrat_copy ::
  "phy_bigrat \<Rightarrow> bool \<Rightarrow> phy_bigrat \<times> phy_exact_context \<Rightarrow> (phy_bigrat \<times> phy_exact_context) run" where
  "phy_bigrat_copy source same st = (case st of (out, c) \<Rightarrow>
     if \<not> rat_compatible2 c source out then Some (PHY_ERR_INVALID_ARGUMENT, out, c)
     else if same then
       (case phy_exact_operation_begin c of (status, c0) \<Rightarrow>
        case phy_exact_operation_end c0 PHY_OK of (status1, c1) \<Rightarrow> Some (status1, out, c1))
     else map_option (rat_finish out) (work_run 1 0 (copy_parts source) c))"

definition phy_bigrat_set_bigint ::
  "phy_bigint \<Rightarrow> phy_bigrat \<times> phy_exact_context \<Rightarrow> (phy_bigrat \<times> phy_exact_context) run" where
  "phy_bigrat_set_bigint integer st = (case st of (out, c) \<Rightarrow>
     if \<not> phy_bigint_is_initialized c integer \<or> rational_context c out \<noteq> Some (bg_owner integer)
     then Some (PHY_ERR_INVALID_ARGUMENT, out, c)
     else map_option (rat_finish out) (work_run 1 0
       [on_num 0 (\<lambda>rs ts. always (phy_bigint_copy integer False))] c))"

section \<open>Text\<close>

text \<open>The two writes into the block of \<open>need\<close> bytes, each of them overwritten.\<close>

definition write_block ::
  "phy_bigrat \<Rightarrow> nat \<Rightarrow> nat \<Rightarrow> string \<times> phy_exact_context \<Rightarrow> phy_status \<times> string \<times> phy_exact_context" where
  "write_block v need num_required st = (case st of (block, c) \<Rightarrow>
     case phy_bigint_write (br_num v) need (Some block, 0, c) of (status, block1, ignored, c1) \<Rightarrow>
     if status = PHY_OK \<and> \<not> is_one (br_den v) then
       (let block2 = (the block1)[num_required - 1 := CHR ''/''] in
        case phy_bigint_write (br_den v) (need - num_required) (Some (drop num_required block2), 0, c1) of
          (status2, rest, ignored2, c2) \<Rightarrow> (status2, take num_required block2 @ the rest, c2))
     else (status, the block1, c1))"

definition phy_bigrat_write ::
  "phy_bigrat \<Rightarrow> nat \<Rightarrow> string option \<times> nat \<times> phy_exact_context \<Rightarrow> phy_status \<times> string option \<times> nat \<times> phy_exact_context" where
  "phy_bigrat_write v bufsize st = (case st of (buffer, required, c) \<Rightarrow>
     if rational_context c v = None then (PHY_ERR_INVALID_ARGUMENT, buffer, required, c)
     else case phy_exact_operation_begin c of (status, c0) \<Rightarrow>
     case (if status = PHY_OK then phy_bigint_write (br_num v) 0 (None, 0, c0) else (status, None, 0, c0)) of
       (status1, none1, num_required, c1) \<Rightarrow>
     case (if status1 = PHY_OK \<and> \<not> is_one (br_den v) then phy_bigint_write (br_den v) 0 (None, 0, c1)
           else (status1, None, 0, c1)) of
       (status2, none2, den_required, c2) \<Rightarrow>
     let status3 = (if status2 = PHY_OK \<and> \<not> is_one (br_den v) \<and> SIZE_MAX - den_required < num_required
                    then PHY_ERR_MEMORY_LIMIT else status2);
         need = (if is_one (br_den v) then num_required else num_required + den_required);
         required' = (if status3 = PHY_OK then need else required);
         status4 = (if status3 = PHY_OK \<and> buffer \<noteq> None \<and> bufsize < need then PHY_ERR_MEMORY_LIMIT else status3)
     in case (if status4 = PHY_OK \<and> buffer \<noteq> None then phy_exact_temp_alloc need c2 else (status4, False, c2)) of
       (status5, block, c3) \<Rightarrow>
     case (if status5 = PHY_OK \<and> block then write_block v need num_required (replicate need (CHR 0x00), c3)
           else (status5, [], c3)) of
       (status6, bytes, c4) \<Rightarrow>
     let buffer' = (if status6 = PHY_OK \<and> block then map_option (\<lambda>b. take need bytes @ drop need b) buffer else buffer);
         c5 = (if block then phy_exact_temp_free c4 block need else c4)
     in case phy_exact_operation_end c5 status6 of (status7, c6) \<Rightarrow> (status7, buffer', required', c6))"

section \<open>Arithmetic\<close>

text \<open>Integers: gcd, left scale, right scale, left term, right term.\<close>

definition add_steps :: "phy_bigrat \<Rightarrow> phy_bigrat \<Rightarrow> (work \<Rightarrow> work run) list" where
  "add_steps left right =
     [on_int 0 (\<lambda>rs ts. phy_bigint_gcd (br_den left) (br_den right)),
      on_int 1 (\<lambda>rs ts. always (phy_bigint_divide_exact (br_den right) (ts ! 0))),
      on_int 2 (\<lambda>rs ts. always (phy_bigint_divide_exact (br_den left) (ts ! 0))),
      on_int 3 (\<lambda>rs ts. always (phy_bigint_multiply (br_num left) (ts ! 1))),
      on_int 4 (\<lambda>rs ts. always (phy_bigint_multiply (br_num right) (ts ! 2))),
      on_num 0 (\<lambda>rs ts. always (phy_bigint_add (ts ! 3) (ts ! 4))),
      on_den 0 (\<lambda>rs ts. always (phy_bigint_multiply (br_den left) (ts ! 1))),
      normalize_rat]"

definition phy_bigrat_add ::
  "phy_bigrat \<Rightarrow> phy_bigrat \<Rightarrow> phy_bigrat \<times> phy_exact_context \<Rightarrow> (phy_bigrat \<times> phy_exact_context) run" where
  "phy_bigrat_add left right st = (case st of (out, c) \<Rightarrow>
     if \<not> rat_compatible3 c left right out then Some (PHY_ERR_INVALID_ARGUMENT, out, c)
     else map_option (rat_finish out) (work_run 1 5 (add_steps left right) c))"

definition phy_bigrat_negate ::
  "phy_bigrat \<Rightarrow> phy_bigrat \<times> phy_exact_context \<Rightarrow> (phy_bigrat \<times> phy_exact_context) run" where
  "phy_bigrat_negate v st = (case st of (out, c) \<Rightarrow>
     if \<not> rat_compatible2 c v out then Some (PHY_ERR_INVALID_ARGUMENT, out, c)
     else map_option (rat_finish out) (work_run 1 0
       [on_num 0 (\<lambda>rs ts. always (phy_bigint_negate (br_num v))),
        on_den 0 (\<lambda>rs ts. always (phy_bigint_copy (br_den v) False))] c))"

text \<open>An operation that uses a rational temporary as an operand of another one.\<close>

definition through ::
  "phy_bigrat \<Rightarrow> work run \<Rightarrow> (phy_bigrat list \<Rightarrow> phy_bigrat \<times> phy_exact_context \<Rightarrow> (phy_bigrat \<times> phy_exact_context) run) \<Rightarrow>
   (phy_bigrat \<times> phy_exact_context) run" where
  "through out r f = (case r of None \<Rightarrow> None | Some (status, rs, ts, c) \<Rightarrow>
     map_option (\<lambda>(status1, out', c1).
         case phy_exact_operation_end (rat_close rs ts c1) status1 of (status2, c2) \<Rightarrow> (status2, out', c2))
       (if status = PHY_OK then f rs (out, c) else Some (status, out, c)))"

definition phy_bigrat_subtract ::
  "phy_bigrat \<Rightarrow> phy_bigrat \<Rightarrow> phy_bigrat \<times> phy_exact_context \<Rightarrow> (phy_bigrat \<times> phy_exact_context) run" where
  "phy_bigrat_subtract left right st = (case st of (out, c) \<Rightarrow>
     if \<not> rat_compatible3 c left right out then Some (PHY_ERR_INVALID_ARGUMENT, out, c)
     else through out (work_run 1 0 [on_rat 0 (\<lambda>rs ts. phy_bigrat_negate right)] c)
            (\<lambda>rs. phy_bigrat_add left (rs ! 0)))"

text \<open>Integers: gcds, reduced numerators and denominators, left before right.\<close>

definition multiply_steps :: "phy_bigrat \<Rightarrow> phy_bigrat \<Rightarrow> (work \<Rightarrow> work run) list" where
  "multiply_steps left right =
     [on_int 0 (\<lambda>rs ts. phy_bigint_gcd (br_num left) (br_den right)),
      on_int 1 (\<lambda>rs ts. phy_bigint_gcd (br_num right) (br_den left)),
      on_int 2 (\<lambda>rs ts. always (phy_bigint_divide_exact (br_num left) (ts ! 0))),
      on_int 5 (\<lambda>rs ts. always (phy_bigint_divide_exact (br_den right) (ts ! 0))),
      on_int 3 (\<lambda>rs ts. always (phy_bigint_divide_exact (br_num right) (ts ! 1))),
      on_int 4 (\<lambda>rs ts. always (phy_bigint_divide_exact (br_den left) (ts ! 1))),
      on_num 0 (\<lambda>rs ts. always (phy_bigint_multiply (ts ! 2) (ts ! 3))),
      on_den 0 (\<lambda>rs ts. always (phy_bigint_multiply (ts ! 4) (ts ! 5))),
      normalize_rat]"

definition phy_bigrat_multiply ::
  "phy_bigrat \<Rightarrow> phy_bigrat \<Rightarrow> phy_bigrat \<times> phy_exact_context \<Rightarrow> (phy_bigrat \<times> phy_exact_context) run" where
  "phy_bigrat_multiply left right st = (case st of (out, c) \<Rightarrow>
     if \<not> rat_compatible3 c left right out then Some (PHY_ERR_INVALID_ARGUMENT, out, c)
     else map_option (rat_finish out) (work_run 1 6 (multiply_steps left right) c))"

definition phy_bigrat_reciprocal ::
  "phy_bigrat \<Rightarrow> phy_bigrat \<times> phy_exact_context \<Rightarrow> (phy_bigrat \<times> phy_exact_context) run" where
  "phy_bigrat_reciprocal v st = (case st of (out, c) \<Rightarrow>
     if \<not> rat_compatible2 c v out then Some (PHY_ERR_INVALID_ARGUMENT, out, c)
     else if bg_count (br_num v) = 0 then Some (PHY_ERR_DOMAIN, out, c)
     else map_option (rat_finish out) (work_run 1 0
       [on_num 0 (\<lambda>rs ts. always (phy_bigint_copy (br_den v) False)),
        on_den 0 (\<lambda>rs ts. always (phy_bigint_copy (br_num v) False)),
        normalize_rat] c))"

definition phy_bigrat_divide ::
  "phy_bigrat \<Rightarrow> phy_bigrat \<Rightarrow> phy_bigrat \<times> phy_exact_context \<Rightarrow> (phy_bigrat \<times> phy_exact_context) run" where
  "phy_bigrat_divide dividend divisor st = (case st of (out, c) \<Rightarrow>
     if \<not> rat_compatible3 c dividend divisor out then Some (PHY_ERR_INVALID_ARGUMENT, out, c)
     else through out (work_run 1 0 [on_rat 0 (\<lambda>rs ts. phy_bigrat_reciprocal divisor)] c)
            (\<lambda>rs. phy_bigrat_multiply dividend (rs ! 0)))"

text \<open>The magnitude of an \<open>int32_t\<close> exponent, computed in 64 bits.\<close>

definition exponent_magnitude :: "int \<Rightarrow> u32" where
  "exponent_magnitude exponent = word_of_int (if exponent < 0 then - exponent else exponent)"

definition phy_bigrat_pow_i32 ::
  "phy_bigrat \<Rightarrow> int \<Rightarrow> phy_bigrat \<times> phy_exact_context \<Rightarrow> (phy_bigrat \<times> phy_exact_context) run" where
  "phy_bigrat_pow_i32 root exponent st = (case st of (out, c) \<Rightarrow>
     if \<not> rat_compatible2 c root out then Some (PHY_ERR_INVALID_ARGUMENT, out, c)
     else if exponent < 0 \<and> bg_count (br_num root) = 0 then Some (PHY_ERR_DOMAIN, out, c)
     else
       let magnitude = exponent_magnitude exponent;
           upper = (if 0 \<le> exponent then br_num root else br_den root);
           lower = (if 0 \<le> exponent then br_den root else br_num root)
       in map_option (rat_finish out) (work_run 1 0
            [on_num 0 (\<lambda>rs ts. always (phy_bigint_pow_u32 upper magnitude)),
             on_den 0 (\<lambda>rs ts. always (phy_bigint_pow_u32 lower magnitude)),
             normalize_rat] c))"

section \<open>Comparison and access\<close>

definition phy_bigrat_compare ::
  "phy_bigrat \<Rightarrow> phy_bigrat \<Rightarrow> int \<times> phy_exact_context \<Rightarrow> (int \<times> phy_exact_context) run" where
  "phy_bigrat_compare left right st = (case st of (comparison, c) \<Rightarrow>
     if \<not> rat_compatible2 c left right then Some (PHY_ERR_INVALID_ARGUMENT, comparison, c)
     else map_option (\<lambda>(status, rs, ts, c1).
         let comparison' = (if status = PHY_OK then phy_bigint_compare c1 (ts ! 0) (ts ! 1) else comparison)
         in case phy_exact_operation_end (release (rev ts) c1) status of (status', c2) \<Rightarrow> (status', comparison', c2))
       (work_run 0 2
         [on_int 0 (\<lambda>rs ts. always (phy_bigint_multiply (br_num left) (br_den right))),
          on_int 1 (\<lambda>rs ts. always (phy_bigint_multiply (br_num right) (br_den left)))] c))"

definition phy_bigrat_sign :: "phy_exact_context \<Rightarrow> phy_bigrat \<Rightarrow> int" where
  "phy_bigrat_sign c v = (if rational_valid_shallow c v then bg_sign (br_num v) else 0)"

definition phy_bigrat_swap :: "phy_exact_context \<Rightarrow> phy_bigrat \<times> phy_bigrat \<Rightarrow> phy_status \<times> phy_bigrat \<times> phy_bigrat" where
  "phy_bigrat_swap c st = (case st of (l, r) \<Rightarrow>
     if \<not> rat_compatible2 c l r then (PHY_ERR_INVALID_ARGUMENT, l, r) else (PHY_OK, rat_swap_payload l r))"

definition phy_bigrat_numerator :: "phy_exact_context \<Rightarrow> phy_bigrat \<Rightarrow> phy_bigint option" where
  "phy_bigrat_numerator c v = (if rational_valid_shallow c v then Some (br_num v) else None)"

definition phy_bigrat_denominator :: "phy_exact_context \<Rightarrow> phy_bigrat \<Rightarrow> phy_bigint option" where
  "phy_bigrat_denominator c v = (if rational_valid_shallow c v then Some (br_den v) else None)"

text \<open>Both parts, or \<open>None\<close> where the C function returns \<open>false\<close>.\<close>

definition phy_bigrat_try_i64 :: "phy_exact_context \<Rightarrow> phy_bigrat \<Rightarrow> (int \<times> int) option" where
  "phy_bigrat_try_i64 c v =
     (if \<not> rational_valid_shallow c v then None
      else case phy_bigint_try_i64 c (br_num v) of None \<Rightarrow> None
           | Some n \<Rightarrow> map_option (Pair n) (phy_bigint_try_i64 c (br_den v)))"

end
