(* ===== verification/BigRatLaws.thy ===== *)
theory BigRatLaws
  imports BigRatOps BigintRead "HOL-Library.Multiset"
begin

text \<open>
  How the temporaries of the operations on rationals account for bytes and live values, the
  Hoare rules for the steps, and what the operations on integers contribute to them.
\<close>

section \<open>Owned values\<close>

definition slot_ok :: "phy_exact_context \<Rightarrow> phy_bigint \<Rightarrow> bool" where
  "slot_ok c v \<longleftrightarrow> v = null_bigint \<or> (phy_bigint_handle_valid c v \<and> capacity v \<le> max_limbs (ec_limits c))"

definition live_count :: "phy_bigint list \<Rightarrow> nat" where
  "live_count vs = length (filter bg_live vs)"

definition owns :: "phy_exact_context \<Rightarrow> phy_bigint list \<Rightarrow> bool" where
  "owns c vs \<longleftrightarrow> total_bytes vs \<le> ec_bytes c \<and> live_count vs \<le> ec_values c"

text \<open>\<open>shifted c us c' us'\<close>: the values \<open>us\<close> became \<open>us'\<close>, and nothing else changed hands.\<close>

definition shifted :: "phy_exact_context \<Rightarrow> phy_bigint list \<Rightarrow> phy_exact_context \<Rightarrow> phy_bigint list \<Rightarrow> bool" where
  "shifted c us c' us' \<longleftrightarrow> same_env c c' \<and> ctx_ok c' \<and> ec_depth c' = ec_depth c \<and>
     ec_values c' + live_count us = ec_values c + live_count us' \<and>
     ec_bytes c' + total_bytes us = ec_bytes c + total_bytes us' \<and> (\<forall>v \<in> set us'. slot_ok c' v)"

lemma live_simps [simp]:
  "live_count [] = 0" "live_count (v # vs) = (if bg_live v then 1 else 0) + live_count vs"
  "live_count (us @ vs) = live_count us + live_count vs" "live_count (rev vs) = live_count vs"
  by (simp_all add: live_count_def rev_filter [symmetric])

lemma total_rev: "total_bytes (rev vs) = total_bytes vs"
  by (simp add: rev_map [symmetric] sum_list_rev)

lemma null_slot [simp]: "\<not> bg_live null_bigint" "limb_bytes null_bigint = 0" "slot_ok c null_bigint" "ival null_bigint = 0"
  by (simp_all add: null_bigint_def slot_ok_def ival_def)

lemma handle_live: "phy_bigint_handle_valid c v \<Longrightarrow> bg_live v"
  by (simp add: phy_bigint_handle_valid_def)

lemma shallow_slot: "phy_bigint_shallow_valid c v \<Longrightarrow> slot_ok c v \<and> bg_live v \<and> phy_bigint_handle_valid c v"
  using handle_live by (auto simp: slot_ok_def phy_bigint_shallow_valid_def)

lemma slot_env: "same_env c c' \<Longrightarrow> slot_ok c' v \<longleftrightarrow> slot_ok c v"
  using handle_valid_env [of c c' v] by (auto simp: slot_ok_def same_env_def)

lemma shiftedD:
  assumes "shifted c us c' us'"
  shows "same_env c c'" "ctx_ok c'" "ec_depth c' = ec_depth c" "\<forall>v \<in> set us'. slot_ok c' v"
  using assms by (simp_all add: shifted_def)

lemma shifted_owns: "shifted c us c' us' \<Longrightarrow> owns c us \<Longrightarrow> owns c' us'"
  by (simp add: shifted_def owns_def)

lemma shifted_frame:
  assumes "shifted c0 u0 c (as @ us @ bs)" "shifted c us c' us'"
  shows "shifted c0 u0 c' (as @ us' @ bs)"
proof -
  note a = assms(1) [unfolded shifted_def] and b = assms(2) [unfolded shifted_def]
  have e: "same_env c c'" using b by simp
  have "\<forall>v \<in> set (as @ us' @ bs). slot_ok c' v" using a b slot_env [OF e] by auto
  moreover have "same_env c0 c'" using a b same_env_trans by blast
  moreover have "ec_values c' + live_count u0 = ec_values c0 + live_count (as @ us' @ bs)" using a b by simp
  moreover have "ec_bytes c' + total_bytes u0 = ec_bytes c0 + total_bytes (as @ us' @ bs)" using a b by simp
  ultimately show ?thesis using a b by (simp add: shifted_def)
qed

lemma shifted_trans: "shifted c us c1 vs \<Longrightarrow> shifted c1 vs c2 ws \<Longrightarrow> shifted c us c2 ws"
  using shifted_frame [of c us c1 "[]" vs "[]" c2 ws] by simp

lemma shifted_refl: "ctx_ok c \<Longrightarrow> \<forall>v \<in> set us. slot_ok c v \<Longrightarrow> shifted c us c us"
  by (simp add: shifted_def)

lemma moved_shifted: "moved k v c v' c' \<Longrightarrow> phy_bigint_shallow_valid c v \<Longrightarrow> shifted c [v] c' [v']"
  using shallow_slot [of c v] handle_live [of c' v']
  by (auto simp: moved_def shifted_def slot_ok_def dest: spentD)

section \<open>Releasing\<close>

lemma release_slots:
  assumes "\<forall>v \<in> set vs. slot_ok c v" "total_bytes vs \<le> ec_bytes c"
  shows "release vs c = c\<lparr>ec_bytes := ec_bytes c - total_bytes vs, ec_values := ec_values c - live_count vs\<rparr>"
  using assms
proof (induction vs arbitrary: c)
  case (Cons v vs)
  show ?case
  proof (cases "v = null_bigint")
    case True
    then show ?thesis using Cons
      by (simp add: phy_bigint_is_initialized_def phy_bigint_handle_valid_def null_bigint_def)
  next
    case False
    let ?c = "c\<lparr>ec_bytes := ec_bytes c - limb_bytes v, ec_values := ec_values c - 1\<rparr>"
    have v: "phy_bigint_handle_valid c v" using Cons.prems(1) False by (simp add: slot_ok_def)
    have "phy_bigint_destroy v c = (null_bigint, ?c)" using Cons.prems v by (intro destroy_eq) auto
    moreover have "\<forall>v \<in> set vs. slot_ok ?c v"
      using Cons.prems(1) by (simp add: slot_ok_def phy_bigint_handle_valid_def phy_exact_context_is_valid_def)
    moreover have "total_bytes vs \<le> ec_bytes ?c" using Cons.prems(2) by simp
    ultimately show ?thesis using Cons.IH [of ?c] v handle_live [OF v]
      by (simp add: phy_bigint_is_initialized_def)
  qed
qed simp

lemma release_shifted:
  assumes ok: "ctx_ok c" and vs: "\<forall>v \<in> set vs. slot_ok c v" "owns c vs"
  shows "shifted c vs (release vs c) []"
proof -
  let ?c = "c\<lparr>ec_bytes := ec_bytes c - total_bytes vs, ec_values := ec_values c - live_count vs\<rparr>"
  have "ctx_ok ?c" using ok by (simp add: ctx_ok_def le_diff_conv trans_le_add1)
  then have "shifted c vs ?c []" using vs(2) by (simp add: shifted_def owns_def same_env_def)
  then show ?thesis using release_slots [of vs c] vs by (simp add: owns_def)
qed

text \<open>A plain destroy of a handle that may be null is a release of it.\<close>

lemma destroy_release: "snd (phy_bigint_destroy v c) = release [v] c"
  by (simp add: phy_bigint_destroy_def phy_bigint_is_initialized_def)

lemma release_append: "release vs (release us c) = release (us @ vs) c"
  by (induction us arbitrary: c) simp_all

definition parts :: "phy_bigrat \<Rightarrow> phy_bigint list" where
  "parts r = [br_num r, br_den r]"

lemma rat_destroy_release:
  "br_live r \<or> r = null_bigrat \<Longrightarrow> snd (phy_bigrat_destroy r c) = release (rev (parts r)) c"
  by (auto simp: phy_bigrat_destroy_def parts_def destroy_release null_bigrat_def phy_bigint_is_initialized_def
      phy_bigint_handle_valid_def null_bigint_def simp del: release.simps)
    (simp_all add: phy_bigint_is_initialized_def phy_bigint_handle_valid_def null_bigint_def)

text \<open>The end of an operation whose temporaries are \<open>vs\<close>.\<close>

lemma end_shifted:
  assumes ok: "ctx_ok c" and sh: "shifted (entered c) u c1 (u' @ vs)" and ow: "owns c u"
    and ws: "mset ws = mset vs"
  shows "\<exists>c3. phy_exact_operation_end (release ws c1) st = (st, c3) \<and> shifted (begun c) u c3 u'"
proof -
  have perm: "set ws = set vs" "total_bytes ws = total_bytes vs" "live_count ws = live_count vs"
    using mset_eq_setD [OF ws] arg_cong [OF ws, of "\<lambda>m. sum_mset (image_mset limb_bytes m)"]
      arg_cong [OF ws, of "\<lambda>m. size (filter_mset bg_live m)"]
    by (simp_all add: live_count_def sum_mset_sum_list flip: mset_map mset_filter)
  have "owns (entered c) u" using ow by (simp add: owns_def)
  from shifted_owns [OF sh this] have o1: "owns c1 vs" by (simp add: owns_def)
  have s1: "\<forall>v \<in> set ws. slot_ok c1 v" using shiftedD(4) [OF sh] perm(1) by simp
  have o2: "owns c1 ws" using o1 perm by (simp add: owns_def)
  let ?c2 = "release ws c1"
  have r: "shifted c1 ws ?c2 []" by (rule release_shifted [OF shiftedD(2) [OF sh] s1 o2])
  have r': "shifted c1 vs ?c2 []" using r perm by (simp add: shifted_def)
  have "shifted (entered c) u ?c2 u'" using shifted_frame [OF sh [folded append_Nil2 [of "u' @ vs", unfolded append_assoc]] r'] by simp
  then have f: "same_env (begun c) ?c2" "ctx_ok ?c2" "ec_depth ?c2 = Suc (ec_depth c)"
    "ec_values ?c2 + live_count u = ec_values c + live_count u'" "ec_bytes ?c2 + total_bytes u = ec_bytes c + total_bytes u'"
    "\<forall>v \<in> set u'. slot_ok ?c2 v" by (simp_all add: shifted_def same_env_def)
  let ?c3 = "?c2\<lparr>ec_depth := ec_depth ?c2 - 1\<rparr>"
  have e: "same_env ?c2 ?c3" by (simp add: same_env_def)
  have "shifted (begun c) u ?c3 u'"
    using f same_env_trans [OF f(1) e] slot_env [OF e] by (simp add: shifted_def)
  then show ?thesis using f(2,3) by (simp add: end_eq)
qed

end
