(* ===== verification/BigRatSteps.thy ===== *)
theory BigRatSteps
  imports BigRatLaws Complex_Main
begin

text \<open>
  Hoare rules for the steps on temporaries: an assertion gives the value of every temporary
  (none while it is not initialised), a step replaces one of them, and a failed step leaves
  temporaries that can be released.
\<close>

section \<open>Runs\<close>

definition run_ok :: "'s run \<Rightarrow> ('s \<Rightarrow> bool) \<Rightarrow> (phy_status \<Rightarrow> 's \<Rightarrow> bool) \<Rightarrow> bool" where
  "run_ok r Q E \<longleftrightarrow> (case r of None \<Rightarrow> False | Some x \<Rightarrow> outcome x Q E)"

lemma run_ok_some [simp]: "run_ok (Some x) Q E = outcome x Q E"
  by (simp add: run_ok_def)

lemma run_ok_always [simp]: "run_ok (always f s) Q E = outcome (f s) Q E"
  by (simp add: always_def)

lemma run_ok_mono:
  "run_ok r Q E \<Longrightarrow> (\<And>s. Q s \<Longrightarrow> Q' s) \<Longrightarrow> (\<And>st s. st \<noteq> PHY_OK \<Longrightarrow> E st s \<Longrightarrow> E' st s) \<Longrightarrow> run_ok r Q' E'"
  by (cases r) (auto simp: run_ok_def split: if_splits option.splits)

lemma run_okE:
  assumes "run_ok r Q E"
  obtains st s where "r = Some (st, s)" "st = PHY_OK \<Longrightarrow> Q s" "st \<noteq> PHY_OK \<Longrightarrow> E st s"
  using assms by (cases r) (auto simp: run_ok_def split: if_splits)

lemma run_steps_Cons:
  assumes "run_ok (f w) Q E" "\<And>w'. Q w' \<Longrightarrow> run_ok (run_steps fs w') R E"
  shows "run_ok (run_steps (f # fs) w) R E"
  using assms(1)
proof (rule run_okE)
  fix st s assume "f w = Some (st, s)" "st = PHY_OK \<Longrightarrow> Q s" "st \<noteq> PHY_OK \<Longrightarrow> E st s"
  then show ?thesis using assms(2) by (cases "st = PHY_OK") simp_all
qed

lemma run_steps_append:
  assumes "run_ok (run_steps fs w) Q E" "\<And>w'. Q w' \<Longrightarrow> run_ok (run_steps gs w') R E"
  shows "run_ok (run_steps (fs @ gs) w) R E"
  using assms(1)
proof (induction fs arbitrary: w)
  case Nil
  then show ?case using assms(2) by simp
next
  case (Cons f fs)
  obtain s w' where f: "f w = Some (s, w')" using Cons.prems by (cases "f w") (auto simp: run_ok_def)
  then show ?case using Cons by (cases "s = PHY_OK") auto
qed

section \<open>Assertions\<close>

definition pair :: "phy_bigrat \<Rightarrow> int \<times> int" where
  "pair r = (ival (br_num r), ival (br_den r))"

definition slot_value :: "phy_bigint \<Rightarrow> int option" where
  "slot_value v = (if bg_live v then Some (ival v) else None)"

definition slot_pair :: "phy_bigrat \<Rightarrow> (int \<times> int) option" where
  "slot_pair r = (if br_live r then Some (pair r) else None)"

definition int_slot :: "phy_exact_context \<Rightarrow> phy_bigint \<Rightarrow> bool" where
  "int_slot c v \<longleftrightarrow> v = null_bigint \<or> phy_bigint_shallow_valid c v"

definition live_rat :: "phy_exact_context \<Rightarrow> phy_bigrat \<Rightarrow> bool" where
  "live_rat c r \<longleftrightarrow> br_live r \<and> phy_bigint_shallow_valid c (br_num r) \<and> phy_bigint_shallow_valid c (br_den r)"

definition rat_slot :: "phy_exact_context \<Rightarrow> phy_bigrat \<Rightarrow> bool" where
  "rat_slot c r \<longleftrightarrow> r = null_bigrat \<or> live_rat c r"

definition flat :: "phy_bigrat list \<Rightarrow> phy_bigint list \<Rightarrow> phy_bigint list" where
  "flat rs ts = concat (map parts rs) @ ts"

text \<open>
  \<open>c0\<close> and \<open>u0\<close>: the context and the values at the start; \<open>ps\<close> and \<open>xs\<close>: what the rational
  and the integer temporaries are worth.
\<close>

definition worth ::
  "phy_exact_context \<Rightarrow> phy_bigint list \<Rightarrow> (int \<times> int) option list \<Rightarrow> int option list \<Rightarrow> work \<Rightarrow> bool" where
  "worth c0 u0 ps xs w \<longleftrightarrow> (case w of (rs, ts, c) \<Rightarrow>
     owns c0 u0 \<and> ec_depth c0 \<noteq> 0 \<and> shifted c0 u0 c (flat rs ts) \<and> (\<forall>v \<in> set ts. int_slot c v) \<and>
     (\<forall>r \<in> set rs. rat_slot c r) \<and> map slot_pair rs = ps \<and> map slot_value ts = xs)"

definition dirty :: "phy_exact_context \<Rightarrow> phy_bigint list \<Rightarrow> nat \<Rightarrow> work \<Rightarrow> bool" where
  "dirty c0 u0 m w \<longleftrightarrow> (case w of (rs, ts, c) \<Rightarrow>
     shifted c0 u0 c (flat rs ts) \<and> (\<forall>r \<in> set rs. br_live r \<or> r = null_bigrat) \<and> length rs = m)"

lemma int_slot_env: "same_env c c' \<Longrightarrow> int_slot c' v \<longleftrightarrow> int_slot c v"
  using shallow_valid_env [of c c' v] by (auto simp: int_slot_def)

lemma live_rat_env: "same_env c c' \<Longrightarrow> live_rat c' r \<longleftrightarrow> live_rat c r"
  using shallow_valid_env [of c c'] by (auto simp: live_rat_def)

lemma rat_slot_env: "same_env c c' \<Longrightarrow> rat_slot c' r \<longleftrightarrow> rat_slot c r"
  using live_rat_env [of c c' r] by (auto simp: rat_slot_def)

lemma worth_lengths: "worth c0 u0 ps xs (rs, ts, c) \<Longrightarrow> length rs = length ps \<and> length ts = length xs"
  by (auto simp: worth_def)

lemma worth_dirty: "worth c0 u0 ps xs w \<Longrightarrow> dirty c0 u0 (length ps) w"
  by (auto simp: worth_def dirty_def rat_slot_def live_rat_def split: prod.splits)

text \<open>What a step may rely on: the context, the validity and the value of a temporary.\<close>

definition ready :: "phy_exact_context \<Rightarrow> phy_bigint \<Rightarrow> bool" where
  "ready c v \<longleftrightarrow> ctx_ok c \<and> ec_depth c \<noteq> 0 \<and> phy_bigint_shallow_valid c v \<and> limb_bytes v \<le> ec_bytes c"

lemma member_total: "v \<in> set vs \<Longrightarrow> limb_bytes v \<le> total_bytes vs"
  by (induction vs) auto

lemma worth_context:
  assumes "worth c0 u0 ps xs (rs, ts, c)"
  shows "ctx_ok c" "ec_depth c = ec_depth c0" "ec_depth c \<noteq> 0" "same_env c0 c"
    "v \<in> set (flat rs ts) \<Longrightarrow> limb_bytes v \<le> ec_bytes c"
proof -
  have sh: "shifted c0 u0 c (flat rs ts)" and ow: "owns c0 u0" using assms by (simp_all add: worth_def)
  show "ctx_ok c" "ec_depth c = ec_depth c0" "ec_depth c \<noteq> 0" "same_env c0 c"
    using assms shiftedD [OF sh] by (simp_all add: worth_def)
  show "limb_bytes v \<le> ec_bytes c" if "v \<in> set (flat rs ts)"
    using member_total [OF that] shifted_owns [OF sh ow] by (simp add: owns_def)
qed

lemma worth_int:
  assumes a: "worth c0 u0 ps xs (rs, ts, c)" and k: "k < length xs" "xs ! k = Some x"
  shows "ready c (ts ! k)" "phy_bigint_shallow_valid c (ts ! k)" "ival (ts ! k) = x"
proof -
  have l: "k < length ts" using worth_lengths [OF a] k by simp
  have m: "ts ! k \<in> set ts" using l by simp
  have "slot_value (ts ! k) = Some x" using a k l by (auto simp: worth_def)
  then have v: "bg_live (ts ! k)" "ival (ts ! k) = x" by (auto simp: slot_value_def split: if_splits)
  have "int_slot c (ts ! k)" using a m by (simp add: worth_def)
  then show s: "phy_bigint_shallow_valid c (ts ! k)" using v(1) by (auto simp: int_slot_def)
  have "ts ! k \<in> set (flat rs ts)" using m by (simp add: flat_def)
  then show "ready c (ts ! k)" using worth_context [OF a] s by (auto simp: ready_def)
  show "ival (ts ! k) = x" by (rule v(2))
qed

lemma flat_split:
  "k < length rs \<Longrightarrow> flat (rs[k := r]) ts = concat (map parts (take k rs)) @ parts r @ concat (map parts (drop (Suc k) rs)) @ ts"
  by (simp add: flat_def upd_conv_take_nth_drop)

lemma flat_parts: "k < length rs \<Longrightarrow> flat rs ts = concat (map parts (take k rs)) @ parts (rs ! k) @ concat (map parts (drop (Suc k) rs)) @ ts"
  using flat_split [of k rs "rs ! k" ts] by simp

lemma flat_int: "k < length ts \<Longrightarrow> flat rs (ts[k := v]) = (concat (map parts rs) @ take k ts) @ [v] @ drop (Suc k) ts"
  by (simp add: flat_def upd_conv_take_nth_drop)

lemma worth_rat:
  assumes a: "worth c0 u0 ps xs (rs, ts, c)" and k: "k < length ps" "ps ! k = Some p"
  shows "ready c (br_num (rs ! k))" "ready c (br_den (rs ! k))" "live_rat c (rs ! k)" "pair (rs ! k) = p"
proof -
  have l: "k < length rs" using worth_lengths [OF a] k by simp
  have "slot_pair (rs ! k) = Some p" using a k l by (auto simp: worth_def)
  then have v: "br_live (rs ! k)" "pair (rs ! k) = p" by (auto simp: slot_pair_def split: if_splits)
  have "rs ! k \<in> set rs" using l by simp
  then have "rat_slot c (rs ! k)" using a by (simp add: worth_def)
  then show s: "live_rat c (rs ! k)" using v(1) by (auto simp: rat_slot_def null_bigrat_def)
  show "pair (rs ! k) = p" by (rule v(2))
  have "br_num (rs ! k) \<in> set (flat rs ts)" "br_den (rs ! k) \<in> set (flat rs ts)"
    using flat_parts [OF l] by (auto simp: parts_def)
  then show "ready c (br_num (rs ! k))" "ready c (br_den (rs ! k))"
    using worth_context [OF a] s by (auto simp: ready_def live_rat_def)
qed

section \<open>Steps\<close>

text \<open>An operation on an integer handle computes \<open>x\<close> or fails with \<open>E\<close>.\<close>

definition computes ::
  "phy_exact_context \<Rightarrow> (phy_bigint \<times> phy_exact_context \<Rightarrow> (phy_bigint \<times> phy_exact_context) run) \<Rightarrow> phy_bigint \<Rightarrow> int \<Rightarrow>
   (phy_status \<Rightarrow> bool) \<Rightarrow> bool" where
  "computes c f v x E \<longleftrightarrow> run_ok (f (v, c))
     (\<lambda>(v', c'). shifted c [v] c' [v'] \<and> phy_bigint_shallow_valid c' v' \<and> ival v' = x)
     (\<lambda>st (v', c'). shifted c [v] c' [v'] \<and> E st)"

text \<open>The same for a rational handle.\<close>

definition computes_rat ::
  "phy_exact_context \<Rightarrow> (phy_bigrat \<times> phy_exact_context \<Rightarrow> (phy_bigrat \<times> phy_exact_context) run) \<Rightarrow> phy_bigrat \<Rightarrow>
   (int \<times> int) \<Rightarrow> (phy_status \<Rightarrow> bool) \<Rightarrow> bool" where
  "computes_rat c f r p E \<longleftrightarrow> run_ok (f (r, c))
     (\<lambda>(r', c'). shifted c (parts r) c' (parts r') \<and> live_rat c' r' \<and> pair r' = p)
     (\<lambda>st (r', c'). shifted c (parts r) c' (parts r') \<and> (br_live r' \<or> r' = null_bigrat) \<and> E st)"

lemma step_int:
  assumes a: "worth c0 u0 ps xs w" and k: "k < length xs"
    and f: "\<And>rs ts c. worth c0 u0 ps xs (rs, ts, c) \<Longrightarrow> computes c (f rs ts) (ts ! k) x E"
  shows "run_ok (on_int k f w) (worth c0 u0 ps (xs[k := Some x])) (\<lambda>st w. dirty c0 u0 (length ps) w \<and> E st)"
proof -
  obtain rs ts c where w: "w = (rs, ts, c)" by (cases w)
  note a = a [unfolded w]
  have l: "k < length ts" using worth_lengths [OF a] k by simp
  obtain st v' c' where r: "f rs ts (ts ! k, c) = Some (st, v', c')"
    and o1: "shifted c [ts ! k] c' [v']" "st = PHY_OK \<Longrightarrow> phy_bigint_shallow_valid c' v' \<and> ival v' = x" "st \<noteq> PHY_OK \<Longrightarrow> E st"
    using f [OF a] by (auto simp: computes_def run_ok_def split: if_splits option.splits)
  have sh: "shifted c0 u0 c (flat rs ts)" using a by (simp add: worth_def)
  have "shifted c0 u0 c' (flat rs (ts[k := v']))"
    unfolding flat_int [OF l] by (rule shifted_frame [OF _ o1(1)]) (use sh flat_int [OF l, of rs "ts ! k"] in simp)
  moreover have e: "same_env c c'" using shiftedD [OF o1(1)] by simp
  moreover have "slot_value v' = Some x \<and> int_slot c' v'" if "st = PHY_OK"
    using o1(2) [OF that] shallow_slot [of c' v'] by (simp add: slot_value_def int_slot_def)
  ultimately show ?thesis
    using a o1(3) set_update_subset_insert [of ts k v'] int_slot_env [OF e] rat_slot_env [OF e]
    by (auto simp: w on_int_def r worth_def dirty_def map_update rat_slot_def live_rat_def)
qed

lemma step_rat:
  assumes a: "worth c0 u0 ps xs w" and k: "k < length ps"
    and f: "\<And>rs ts c. worth c0 u0 ps xs (rs, ts, c) \<Longrightarrow> computes_rat c (f rs ts) (rs ! k) p E"
  shows "run_ok (on_rat k f w) (worth c0 u0 (ps[k := Some p]) xs) (\<lambda>st w. dirty c0 u0 (length ps) w \<and> E st)"
proof -
  obtain rs ts c where w: "w = (rs, ts, c)" by (cases w)
  note a = a [unfolded w]
  have l: "k < length rs" using worth_lengths [OF a] k by simp
  obtain st v' c' where r: "f rs ts (rs ! k, c) = Some (st, v', c')"
    and o1: "shifted c (parts (rs ! k)) c' (parts v')" "st = PHY_OK \<Longrightarrow> live_rat c' v' \<and> pair v' = p"
      "st \<noteq> PHY_OK \<Longrightarrow> E st" "br_live v' \<or> v' = null_bigrat"
    using f [OF a] by (auto simp: computes_rat_def run_ok_def live_rat_def split: if_splits option.splits)
  have sh: "shifted c0 u0 c (flat rs ts)" using a by (simp add: worth_def)
  have sh': "shifted c0 u0 c' (flat (rs[k := v']) ts)"
    unfolding flat_split [OF l] by (rule shifted_frame [OF _ o1(1)]) (use sh flat_parts [OF l, of ts] in simp)
  have e: "same_env c c'" using shiftedD [OF o1(1)] by simp
  have "slot_pair v' = Some p \<and> rat_slot c' v'" if "st = PHY_OK"
    using o1(2) [OF that] by (simp add: slot_pair_def rat_slot_def live_rat_def)
  then show ?thesis
    using a o1(3,4) sh' set_update_subset_insert [of rs k v'] int_slot_env [OF e] rat_slot_env [OF e]
    by (auto simp: w on_rat_def r worth_def dirty_def map_update rat_slot_def live_rat_def)
qed

text \<open>A step on one part of a rational is a step on the rational.\<close>

lemma on_num_rat: "on_num k f = on_rat k (\<lambda>rs ts (r, c). map_option (\<lambda>(st, v, c'). (st, r\<lparr>br_num := v\<rparr>, c')) (f rs ts (br_num r, c)))"
  by (auto simp: on_num_def on_rat_def fun_eq_iff option.map_comp intro!: option.map_cong)

lemma on_den_rat: "on_den k f = on_rat k (\<lambda>rs ts (r, c). map_option (\<lambda>(st, v, c'). (st, r\<lparr>br_den := v\<rparr>, c')) (f rs ts (br_den r, c)))"
  by (auto simp: on_den_def on_rat_def fun_eq_iff option.map_comp intro!: option.map_cong)

lemma step_num:
  assumes a: "worth c0 u0 ps xs w" and k: "k < length ps" "ps ! k = Some (n, d)"
    and f: "\<And>rs ts c. worth c0 u0 ps xs (rs, ts, c) \<Longrightarrow> computes c (f rs ts) (br_num (rs ! k)) x E"
  shows "run_ok (on_num k f w) (worth c0 u0 (ps[k := Some (x, d)]) xs) (\<lambda>st w. dirty c0 u0 (length ps) w \<and> E st)"
  unfolding on_num_rat
proof (rule step_rat [OF a k(1)])
  fix rs ts c assume a: "worth c0 u0 ps xs (rs, ts, c)"
  let ?r = "rs ! k"
  note r = worth_rat [OF a k]
  have d: "phy_bigint_shallow_valid c (br_den ?r)" "ival (br_den ?r) = d" using r(3,4) by (simp_all add: live_rat_def pair_def)
  show "computes_rat c (\<lambda>(r, c). map_option (\<lambda>(st, v, c'). (st, r\<lparr>br_num := v\<rparr>, c')) (f rs ts (br_num r, c))) ?r (x, d) E"
    unfolding computes_rat_def
  proof -
    obtain st v' c' where res: "f rs ts (br_num ?r, c) = Some (st, v', c')"
      and o1: "shifted c [br_num ?r] c' [v']" "st = PHY_OK \<Longrightarrow> phy_bigint_shallow_valid c' v' \<and> ival v' = x" "st \<noteq> PHY_OK \<Longrightarrow> E st"
      using f [OF a] by (auto simp: computes_def run_ok_def split: if_splits option.splits)
    have e: "same_env c c'" using shiftedD [OF o1(1)] by simp
    have "shifted c (parts ?r) c (parts ?r)"
      using r(3) shallow_slot worth_context(1) [OF a] by (intro shifted_refl) (auto simp: live_rat_def parts_def)
    then have "shifted c (parts ?r) c' (parts (?r\<lparr>br_num := v'\<rparr>))"
      using shifted_frame [of c "parts ?r" c "[]" "[br_num ?r]" "[br_den ?r]" c' "[v']"] o1(1) by (simp add: parts_def)
    then show "run_ok (case (?r, c) of (r, c) \<Rightarrow> map_option (\<lambda>(st, v, c'). (st, r\<lparr>br_num := v\<rparr>, c')) (f rs ts (br_num r, c)))
     (\<lambda>(r', c'). shifted c (parts ?r) c' (parts r') \<and> live_rat c' r' \<and> pair r' = (x, d))
     (\<lambda>st (r', c'). shifted c (parts ?r) c' (parts r') \<and> (br_live r' \<or> r' = null_bigrat) \<and> E st)"
      using res o1(2,3) r(3) d shallow_valid_env [OF e] by (auto simp: live_rat_def pair_def)
  qed
qed

lemma step_den:
  assumes a: "worth c0 u0 ps xs w" and k: "k < length ps" "ps ! k = Some (n, d)"
    and f: "\<And>rs ts c. worth c0 u0 ps xs (rs, ts, c) \<Longrightarrow> computes c (f rs ts) (br_den (rs ! k)) x E"
  shows "run_ok (on_den k f w) (worth c0 u0 (ps[k := Some (n, x)]) xs) (\<lambda>st w. dirty c0 u0 (length ps) w \<and> E st)"
  unfolding on_den_rat
proof (rule step_rat [OF a k(1)])
  fix rs ts c assume a: "worth c0 u0 ps xs (rs, ts, c)"
  let ?r = "rs ! k"
  note r = worth_rat [OF a k]
  have d: "phy_bigint_shallow_valid c (br_num ?r)" "ival (br_num ?r) = n" using r(3,4) by (simp_all add: live_rat_def pair_def)
  show "computes_rat c (\<lambda>(r, c). map_option (\<lambda>(st, v, c'). (st, r\<lparr>br_den := v\<rparr>, c')) (f rs ts (br_den r, c))) ?r (n, x) E"
    unfolding computes_rat_def
  proof -
    obtain st v' c' where res: "f rs ts (br_den ?r, c) = Some (st, v', c')"
      and o1: "shifted c [br_den ?r] c' [v']" "st = PHY_OK \<Longrightarrow> phy_bigint_shallow_valid c' v' \<and> ival v' = x" "st \<noteq> PHY_OK \<Longrightarrow> E st"
      using f [OF a] by (auto simp: computes_def run_ok_def split: if_splits option.splits)
    have e: "same_env c c'" using shiftedD [OF o1(1)] by simp
    have "shifted c (parts ?r) c (parts ?r)"
      using r(3) shallow_slot worth_context(1) [OF a] by (intro shifted_refl) (auto simp: live_rat_def parts_def)
    then have "shifted c (parts ?r) c' (parts (?r\<lparr>br_den := v'\<rparr>))"
      using shifted_frame [of c "parts ?r" c "[br_num ?r]" "[br_den ?r]" "[]" c' "[v']"] o1(1) by (simp add: parts_def)
    then show "run_ok (case (?r, c) of (r, c) \<Rightarrow> map_option (\<lambda>(st, v, c'). (st, r\<lparr>br_den := v\<rparr>, c')) (f rs ts (br_den r, c)))
     (\<lambda>(r', c'). shifted c (parts ?r) c' (parts r') \<and> live_rat c' r' \<and> pair r' = (n, x))
     (\<lambda>st (r', c'). shifted c (parts ?r) c' (parts r') \<and> (br_live r' \<or> r' = null_bigrat) \<and> E st)"
      using res o1(2,3) r(3) d shallow_valid_env [OF e] by (auto simp: live_rat_def pair_def)
  qed
qed

end
