(* ===== verification/BigRatSpec.thy ===== *)
theory BigRatSpec
  imports BigRatSteps
begin

text \<open>
  What the steps on temporaries compute: the operations on integers used inside an operation
  on rationals, and the initialisation of the temporaries.
\<close>

section \<open>Steps on integers\<close>

lemma computes_moved:
  assumes r: "ready c v"
    and o1: "f (v, c) = Some res" "outcome res (\<lambda>(v', c'). moved k v (begun c) v' c' \<and> phy_bigint_shallow_valid c' v' \<and> ival v' = x)
      (\<lambda>st (v', c'). v' = v \<and> moved k v (begun c) v c' \<and> E st)"
  shows "computes c f v x E"
proof -
  have b: "begun c = c" "phy_bigint_shallow_valid c v" using r by (simp_all add: ready_def)
  show ?thesis unfolding computes_def o1(1) run_ok_some
    by (rule outcome_mono [OF o1(2)]) (auto simp: b(1) dest: moved_shifted [OF _ b(2)])
qed

lemma computes_settled:
  assumes "ready c v" "f (v, c) = Some res" "settled v c (\<lambda>_ w. ival w = x) E res"
  shows "computes c f v x E"
proof (rule computes_moved [where f = f and res = res and k = "max_steps (ec_limits c)"])
  show "ready c v" "f (v, c) = Some res" by (rule assms)+
qed (use assms(3) in \<open>simp add: settled_def\<close>)

lemma resources: "same_env c c' \<Longrightarrow> resource_failure c' = resource_failure c"
  using resource_env by blast

lemma begun_resource: "shortage k m b (begun c) st \<Longrightarrow> resource_failure c st"
  using shortage_resource [of k m b "begun c" st] resource_env [of c "begun c" st] by simp

lemma readyD: "ready c v \<Longrightarrow> ctx_ok c" "ready c v \<Longrightarrow> phy_bigint_shallow_valid c v" "ready c v \<Longrightarrow> limb_bytes v \<le> ec_bytes c"
  by (simp_all add: ready_def)

lemma computes_gcd:
  assumes r: "ready c v" and l: "phy_bigint_shallow_valid c a" "phy_bigint_shallow_valid c b"
  shows "computes c (phy_bigint_gcd a b) v (gcd (ival a) (ival b)) (resource_failure c)"
  using gcd_spec [OF readyD(1) [OF r] l readyD(2,3) [OF r]] computes_settled [OF r] by blast

lemma computes_divide_exact:
  assumes r: "ready c v" and l: "phy_bigint_shallow_valid c a" "phy_bigint_shallow_valid c b"
    and d: "ival b \<noteq> 0" "ival b dvd ival a"
  shows "computes c (always (phy_bigint_divide_exact a b)) v (ival a div ival b) (resource_failure c)"
proof (rule computes_settled [OF r])
  show "always (phy_bigint_divide_exact a b) (v, c) = Some (phy_bigint_divide_exact a b (v, c))" by (simp add: always_def)
  show "settled v c (\<lambda>_ w. ival w = ival a div ival b) (resource_failure c) (phy_bigint_divide_exact a b (v, c))"
    using divide_exact_spec [OF readyD(1) [OF r] l readyD(2,3) [OF r]] d unfolding settled_def
    by (elim outcome_mono) auto
qed

lemma computes_multiply:
  assumes r: "ready c v" and l: "phy_bigint_shallow_valid c a" "phy_bigint_shallow_valid c b"
  shows "computes c (always (phy_bigint_multiply a b)) v (ival a * ival b) (resource_failure c)"
proof (rule computes_moved [OF r])
  show "always (phy_bigint_multiply a b) (v, c) = Some (phy_bigint_multiply a b (v, c))" by (rule always_def)
  show "outcome (phy_bigint_multiply a b (v, c))
      (\<lambda>(v', c'). moved (bg_count a * bg_count b) v (begun c) v' c' \<and> phy_bigint_shallow_valid c' v' \<and> ival v' = ival a * ival b)
      (\<lambda>st (v', c'). v' = v \<and> moved (bg_count a * bg_count b) v (begun c) v c' \<and> resource_failure c st)"
    by (rule outcome_mono [OF multiply_spec [OF readyD(1) [OF r] l readyD(2,3) [OF r]]]) (auto dest: begun_resource)
qed

text \<open>The transactional operations, nested.\<close>

lemma computes_transaction:
  assumes r: "ready c v" and f: "\<And>s. f s = Some (g s)"
    and o1: "outcome (g (v, c)) (\<lambda>(v', c'). moved k v (begun c) v' c' \<and> phy_bigint_shallow_valid c' v' \<and> ival v' = x)
      (\<lambda>st (v', c'). v' = v \<and> moved k v (begun c) v c' \<and> shortage k m b (begun c) st)"
  shows "computes c f v x (resource_failure c)"
proof (rule computes_moved [OF r])
  show "f (v, c) = Some (g (v, c))" by (rule f)
  show "outcome (g (v, c)) (\<lambda>(v', c'). moved k v (begun c) v' c' \<and> phy_bigint_shallow_valid c' v' \<and> ival v' = x)
      (\<lambda>st (v', c'). v' = v \<and> moved k v (begun c) v c' \<and> resource_failure c st)"
    by (rule outcome_mono [OF o1]) (auto dest: begun_resource)
qed

lemma computes_add:
  assumes r: "ready c v" and l: "phy_bigint_shallow_valid c a" "phy_bigint_shallow_valid c b"
  shows "computes c (always (phy_bigint_add a b)) v (ival a + ival b) (resource_failure c)"
proof -
  have b1: "bg_sign b * int (magv b) = ival b" by (simp add: ival_def)
  note op = add_op.transaction [of c a b "bg_sign b" v, unfolded b1]
  have "phy_bigint_add a b (v, c) = with_result (add_signed a b (bg_sign b)) (v, c)"
    using l readyD(2) [OF r] by (simp add: phy_bigint_add_def compatible3_iff)
  with op l readyD [OF r] show ?thesis by (intro computes_transaction [OF r always_def]) simp
qed

lemma computes_negate:
  assumes r: "ready c v" and l: "phy_bigint_shallow_valid c a"
  shows "computes c (always (phy_bigint_negate a)) v (- ival a) (resource_failure c)"
proof -
  have "phy_bigint_negate a (v, c) = with_result (negate_body a) (v, c)"
    using l readyD(2) [OF r] by (simp add: phy_bigint_negate_def compatible2_iff)
  with negate_op.transaction [OF l readyD [OF r]] show ?thesis
    by (intro computes_transaction [OF r always_def]) simp
qed

lemma computes_copy:
  assumes r: "ready c v" and l: "phy_bigint_shallow_valid c a"
  shows "computes c (always (phy_bigint_copy a False)) v (ival a) (resource_failure c)"
proof -
  have "phy_bigint_copy a False (v, c) = with_result (copy_payload a False) (v, c)"
    using l readyD(2) [OF r] by (simp add: phy_bigint_copy_def compatible2_iff)
  with copy_op.transaction [OF l readyD [OF r], of False] show ?thesis
    by (intro computes_transaction [OF r always_def]) simp
qed

lemma computes_set:
  assumes r: "ready c v" and i: "- (2 ^ 63) \<le> i" "i < 2 ^ 63"
  shows "computes c (always (phy_bigint_set_i64 i)) v i (resource_failure c)"
proof -
  let ?s = "if i < 0 then - 1 else if 0 < i then 1 else 0 :: int"
  have m: "(if ?s = 0 then 1 else ?s) * int (unat (magnitude_i64 i)) = i" using magnitude_i64_spec [OF i] by simp
  have s: "?s = 0 \<or> ?s = 1 \<or> ?s = - 1" by simp
  have "phy_bigint_set_i64 i (v, c) = with_result (phy_bigint_assign_u64 (magnitude_i64 i) ?s) (v, c)"
    using readyD(2) [OF r] by (simp add: phy_bigint_set_i64_def)
  with assign_op.transaction [OF s readyD [OF r], of "magnitude_i64 i", unfolded m] show ?thesis
    by (intro computes_transaction [OF r always_def]) simp
qed

lemma computes_pow:
  assumes r: "ready c v" and l: "phy_bigint_shallow_valid c a"
  shows "computes c (always (phy_bigint_pow_u32 a n)) v (ival a ^ unat n) (resource_failure c)"
  by (rule computes_settled [OF r _ pow_spec [OF readyD(1) [OF r] l readyD(2,3) [OF r]]]) (rule always_def)

lemma computes_read:
  assumes r: "ready c v"
  shows "computes c (always (phy_bigint_read (Some str))) v (the (read_number str))
    (\<lambda>st. if read_number str = None then st = PHY_ERR_PARSE else resource_failure c st)"
  by (rule computes_moved [OF r always_def], rule outcome_mono [OF read_spec [OF readyD [OF r], of str]])
    (auto split: if_splits dest: begun_resource)

section \<open>Opening and closing\<close>

lemma swap_handles:
  "phy_bigint_handle_valid c v \<Longrightarrow> phy_bigint_handle_valid c w \<Longrightarrow> phy_bigint_swap_payload v w = (w, v)"
  by (cases v; cases w) (simp add: phy_bigint_swap_payload_def phy_bigint_handle_valid_def)

lemma swap_rats: "live_rat c r \<Longrightarrow> live_rat c s \<Longrightarrow> rat_swap_payload r s = (s, r)"
  by (cases r; cases s) (simp add: rat_swap_payload_def live_rat_def swap_handles [of c] phy_bigint_shallow_valid_def)

lemma fresh_slot: "ctx_ok c \<Longrightarrow> same_env c c' \<Longrightarrow> slot_ok c' (fresh c)"
  using fresh_valid shallow_slot by blast

lemma fresh_values [simp]: "bg_live (fresh c)" "limb_bytes (fresh c) = 0" "ival (fresh c) = 0"
  by (simp_all add: fresh_def null_bigint_def ival_def)

lemma computes_init: "ctx_ok c \<Longrightarrow> computes c (always phy_bigint_init) null_bigint 0 (resource_failure c)"
  using fresh_valid [of c "with_value c"] fresh_slot [of c "with_value c"]
  by (simp add: computes_def init_eq shifted_def)

lemma computes_rat_init:
  assumes ok: "ctx_ok c"
  shows "computes_rat c (always phy_bigrat_init) null_bigrat (0, 1) (resource_failure c)"
proof -
  let ?c1 = "with_value c" and ?c2 = "with_value (with_value c)" and ?f = "fresh c"
  have ok2: "ctx_ok ?c1" "ctx_ok ?c2" using ok by simp_all
  have e2: "same_env c ?c2" by (simp add: same_env_def)
  have f1: "fresh ?c1 = ?f" by (simp add: fresh_def)
  have fv: "phy_bigint_shallow_valid ?c2 ?f" by (rule fresh_valid [OF ok e2])
  obtain st d c3 where as1: "phy_bigint_assign_u64 1 1 (?f, ?c2) = (st, d, c3)" by (metis prod_cases3)
  note spec = assign_u64_spec [OF ok2(2) fv, of 1 1, unfolded as1]
  have mv: "moved 0 ?f ?c2 d c3" using spec by (auto split: if_splits)
  have sh3: "shifted ?c2 [?f] c3 [d]" by (rule moved_shifted [OF mv fv])
  have "shifted c [null_bigint, null_bigint] ?c2 [?f, ?f]"
    using ok fresh_slot [OF ok e2] e2 by (simp add: shifted_def)
  then have sh: "shifted c [null_bigint, null_bigint] c3 [?f, d]"
    using shifted_frame [of c "[null_bigint, null_bigint]" ?c2 "[?f]" "[?f]" "[]" c3 "[d]"] sh3 by simp
  have nul: "parts null_bigrat = [null_bigint, null_bigint]" by (simp add: parts_def null_bigrat_def)
  have eq: "phy_bigrat_init (null_bigrat, c) =
    (if st \<noteq> PHY_OK then (st, null_bigrat, release [d, ?f] c3) else (PHY_OK, \<lparr>br_num = ?f, br_den = d, br_live = True\<rparr>, c3))"
    using ok ok2 by (simp add: phy_bigrat_init_def phy_exact_context_is_valid_def ctx_ok_def init_eq f1 as1 [simplified] del: release.simps)
  show ?thesis
  proof (cases "st = PHY_OK")
    case True
    have "same_env c c3" using shiftedD(1) [OF sh] .
    then have "phy_bigint_shallow_valid c3 ?f" by (rule fresh_valid [OF ok])
    then show ?thesis using True spec sh unfolding computes_rat_def run_ok_always eq nul
      by (simp add: parts_def live_rat_def pair_def)
  next
    case False
    have "owns c [null_bigint, null_bigint]" by (simp add: owns_def)
    from shifted_owns [OF sh this] have ow: "owns c3 [d, ?f]" by (simp add: owns_def)
    have "\<forall>v \<in> set [d, ?f]. slot_ok c3 v" using shiftedD(4) [OF sh] by simp
    from release_shifted [OF shiftedD(2) [OF sh] this ow]
    have "shifted c3 [?f, d] (release [d, ?f] c3) [null_bigint, null_bigint]"
      by (simp add: shifted_def)
    from shifted_trans [OF sh this] have "shifted c [null_bigint, null_bigint] (release [d, ?f] c3) [null_bigint, null_bigint]" .
    moreover have "resource_failure c st"
      using spec False shortage_resource [of 0 2 16 ?c2 st] resource_env [OF e2] by auto
    ultimately show ?thesis using False unfolding computes_rat_def run_ok_always eq nul by (simp add: nul)
  qed
qed

lemma worth_none:
  assumes "worth c0 u0 ps xs (rs, ts, c)"
  shows "k < length xs \<Longrightarrow> xs ! k = None \<Longrightarrow> ts ! k = null_bigint" "k < length ps \<Longrightarrow> ps ! k = None \<Longrightarrow> rs ! k = null_bigrat"
proof -
  have i: "int_slot c v" if "v \<in> set ts" for v using assms that by (simp add: worth_def)
  have r: "rat_slot c r" if "r \<in> set rs" for r using assms that by (simp add: worth_def)
  have xs: "xs = map slot_value ts" and ps: "ps = map slot_pair rs" using assms by (auto simp: worth_def)
  show "ts ! k = null_bigint" if "k < length xs" "xs ! k = None"
    using that i [of "ts ! k"] shallow_slot [of c "ts ! k"] unfolding xs
    by (auto simp: int_slot_def slot_value_def split: if_splits)
  show "rs ! k = null_bigrat" if "k < length ps" "ps ! k = None"
    using that r [of "rs ! k"] unfolding ps by (auto simp: rat_slot_def live_rat_def slot_pair_def split: if_splits)
qed

lemma step_init_int:
  assumes "worth c0 u0 ps xs w" "k < length xs" "xs ! k = None"
  shows "run_ok (init_int k w) (worth c0 u0 ps (xs[k := Some 0])) (\<lambda>st w. dirty c0 u0 (length ps) w \<and> resource_failure c0 st)"
  unfolding init_int_def
proof (rule step_int [OF assms(1,2)])
  fix rs ts c assume a: "worth c0 u0 ps xs (rs, ts, c)"
  have "ts ! k = null_bigint" by (rule worth_none(1) [OF a assms(2,3)])
  then show "computes c (always phy_bigint_init) (ts ! k) 0 (resource_failure c0)"
    using computes_init [OF worth_context(1) [OF a]] resources [OF worth_context(4) [OF a]] by simp
qed

lemma step_init_rat:
  assumes "worth c0 u0 ps xs w" "k < length ps" "ps ! k = None"
  shows "run_ok (init_rat k w) (worth c0 u0 (ps[k := Some (0, 1)]) xs) (\<lambda>st w. dirty c0 u0 (length ps) w \<and> resource_failure c0 st)"
  unfolding init_rat_def
proof (rule step_rat [OF assms(1,2)])
  fix rs ts c assume a: "worth c0 u0 ps xs (rs, ts, c)"
  have "rs ! k = null_bigrat" by (rule worth_none(2) [OF a assms(2,3)])
  then show "computes_rat c (always phy_bigrat_init) (rs ! k) (0, 1) (resource_failure c0)"
    using computes_rat_init [OF worth_context(1) [OF a]] resources [OF worth_context(4) [OF a]] by simp
qed

end
