(* ===== verification/BigRatNormal.thy ===== *)
theory BigRatNormal
  imports BigRatSpec
begin

text \<open>
  Opening and closing an operation on rationals, and the normal form every result is brought
  into.
\<close>

section \<open>Opening\<close>

lemma init_rats:
  assumes "worth c0 u0 (replicate i (Some (0, 1)) @ replicate n None) xs w"
  shows "run_ok (run_steps (map init_rat [i..<i + n]) w) (worth c0 u0 (replicate (i + n) (Some (0, 1))) xs)
    (\<lambda>st w. dirty c0 u0 (i + n) w \<and> resource_failure c0 st)"
  using assms
proof (induction n arbitrary: i w)
  case (Suc n)
  have eq: "map init_rat [i..<i + Suc n] = init_rat i # map init_rat [Suc i..<Suc i + n]"
    by (simp add: upt_conv_Cons del: upt_Suc)
  have upd: "(replicate i (Some (0, 1)) @ replicate (Suc n) None)[i := Some (0 :: int, 1 :: int)] =
      replicate (Suc i) (Some (0, 1)) @ replicate n None"
    by (simp add: list_update_append replicate_append_same)
  have s: "run_ok (init_rat i w) (worth c0 u0 (replicate (Suc i) (Some (0, 1)) @ replicate n None) xs)
      (\<lambda>st w. dirty c0 u0 (i + Suc n) w \<and> resource_failure c0 st)"
    using step_init_rat [OF Suc.prems, of i] unfolding upd by (simp add: nth_append)
  show ?case unfolding eq
    by (rule run_steps_Cons, rule s) (use Suc.IH [of "Suc i"] in simp)
qed simp

lemma init_ints:
  assumes "worth c0 u0 ps (replicate i (Some 0) @ replicate n None) w"
  shows "run_ok (run_steps (map init_int [i..<i + n]) w) (worth c0 u0 ps (replicate (i + n) (Some 0)))
    (\<lambda>st w. dirty c0 u0 (length ps) w \<and> resource_failure c0 st)"
  using assms
proof (induction n arbitrary: i w)
  case (Suc n)
  have eq: "map init_int [i..<i + Suc n] = init_int i # map init_int [Suc i..<Suc i + n]"
    by (simp add: upt_conv_Cons del: upt_Suc)
  have upd: "(replicate i (Some 0) @ replicate (Suc n) None)[i := Some (0 :: int)] = replicate (Suc i) (Some 0) @ replicate n None"
    by (simp add: list_update_append replicate_append_same)
  have s: "run_ok (init_int i w) (worth c0 u0 ps (replicate (Suc i) (Some 0) @ replicate n None))
      (\<lambda>st w. dirty c0 u0 (length ps) w \<and> resource_failure c0 st)"
    using step_init_int [OF Suc.prems, of i] unfolding upd by (simp add: nth_append)
  show ?case unfolding eq
    by (rule run_steps_Cons, rule s) (use Suc.IH [of "Suc i"] in simp)
qed simp

lemma flat_null: "set (flat (replicate m null_bigrat) (replicate n null_bigint)) \<subseteq> {null_bigint}"
  by (auto simp: flat_def parts_def null_bigrat_def)

lemma null_totals: "set vs \<subseteq> {null_bigint} \<Longrightarrow> total_bytes vs = 0 \<and> live_count vs = 0"
  by (induction vs) auto

lemma worth_begin:
  "ctx_ok c \<Longrightarrow> worth (entered c) [] (replicate m None) (replicate n None) (replicate m null_bigrat, replicate n null_bigint, entered c)"
  using null_totals [OF flat_null, of m n] flat_null [of m n] begun_ok [of c]
  by (auto simp: worth_def owns_def shifted_def int_slot_def rat_slot_def slot_pair_def slot_value_def map_replicate_const)
    (auto simp: null_bigrat_def subset_iff)

lemma work_run_ok:
  assumes ok: "ctx_ok c"
    and fs: "\<And>w. worth (entered c) [] (replicate m (Some (0, 1))) (replicate n (Some 0)) w \<Longrightarrow>
      run_ok (run_steps fs w) Q (\<lambda>st w. dirty (entered c) [] m w \<and> E st)"
    and E: "\<And>st. resource_failure c st \<Longrightarrow> E st"
  shows "run_ok (work_run m n fs c) Q (\<lambda>st w. dirty (entered c) [] m w \<and> E st)"
proof -
  let ?w = "(replicate m null_bigrat, replicate n null_bigint, entered c)" and ?c0 = "entered c"
  have rf: "resource_failure ?c0 = resource_failure c" by (rule resources) (simp add: same_env_def begun_def)
  have w: "worth ?c0 [] (replicate 0 (Some (0, 1)) @ replicate m None) (replicate n None) ?w" using worth_begin [OF ok] by simp
  have r: "run_ok (run_steps (map init_rat [0..<m]) ?w) (worth ?c0 [] (replicate m (Some (0, 1))) (replicate 0 (Some 0) @ replicate n None))
      (\<lambda>st w. dirty ?c0 [] m w \<and> resource_failure c st)"
    using init_rats [OF w] by (simp add: rf)
  have i: "run_ok (run_steps (map init_int [0..<n]) w') (worth ?c0 [] (replicate m (Some (0, 1))) (replicate n (Some 0)))
      (\<lambda>st w. dirty ?c0 [] m w \<and> resource_failure c st)"
    if "worth ?c0 [] (replicate m (Some (0, 1))) (replicate 0 (Some 0) @ replicate n None) w'" for w'
    using init_ints [OF that] by (simp add: rf)
  have "begin_work m n c = run_steps (map init_rat [0..<m] @ map init_int [0..<n]) ?w"
    by (simp add: begin_work_def begin_eq [OF ok])
  then have b: "run_ok (begin_work m n c) (worth ?c0 [] (replicate m (Some (0, 1))) (replicate n (Some 0)))
      (\<lambda>st w. dirty ?c0 [] m w \<and> resource_failure c st)"
    using run_steps_append [OF r i] by simp
  then obtain st w where res: "begin_work m n c = Some (st, w)"
    "st = PHY_OK \<Longrightarrow> worth ?c0 [] (replicate m (Some (0, 1))) (replicate n (Some 0)) w"
    "st \<noteq> PHY_OK \<Longrightarrow> dirty ?c0 [] m w \<and> resource_failure c st" using run_okE [OF b] by blast
  show ?thesis
    using fs [of w] res(2,3) E [of st] by (cases "st = PHY_OK") (simp_all add: work_run_def res(1))
qed

section \<open>Closing\<close>

text \<open>The contract of an operation with one output: transactional, and the books balance.\<close>

definition rat_settled ::
  "phy_bigrat \<Rightarrow> phy_exact_context \<Rightarrow> (int \<times> int) \<Rightarrow> (phy_status \<Rightarrow> bool) \<Rightarrow> (phy_bigrat \<times> phy_exact_context) run \<Rightarrow> bool" where
  "rat_settled out c p E r \<longleftrightarrow> run_ok r
     (\<lambda>(out', c'). shifted (begun c) (parts out) c' (parts out') \<and> live_rat c' out' \<and> pair out' = p)
     (\<lambda>st (out', c'). out' = out \<and> shifted (begun c) (parts out) c' (parts out) \<and> E st)"

definition owned :: "phy_exact_context \<Rightarrow> phy_bigrat \<Rightarrow> bool" where
  "owned c r \<longleftrightarrow> live_rat c r \<and> owns c (parts r)"

lemma live_slots: "live_rat c r \<Longrightarrow> \<forall>v \<in> set (parts r). slot_ok c v"
  using shallow_slot by (auto simp: live_rat_def parts_def)

lemma shifted_prefix:
  assumes "shifted c u c' vs" "\<forall>v \<in> set ws. slot_ok c v"
  shows "shifted c (ws @ u) c' (ws @ vs)"
  using assms slot_env [of c c'] by (auto simp: shifted_def)

lemma close_work:
  assumes ok: "ctx_ok c" and out: "owned c out" and sh: "shifted (entered c) [] c1 (flat [t] ts)"
  shows "\<exists>c3. phy_exact_operation_end (release (rev (parts t) @ rev ts) c1) st = (st, c3) \<and>
      shifted (begun c) (parts out) c3 (parts out)"
    and "\<exists>c3. phy_exact_operation_end (release (rev (parts out) @ rev ts) c1) st = (st, c3) \<and>
      shifted (begun c) (parts out) c3 (parts t)"
proof -
  have o1: "owns c (parts out)" "live_rat c out" using out by (simp_all add: owned_def)
  have e: "same_env c (entered c)" by (simp add: same_env_def begun_def)
  have "\<forall>v \<in> set (parts out). slot_ok (entered c) v" using live_slots [OF o1(2)] slot_env [OF e] by blast
  from shifted_prefix [OF sh this] have s: "shifted (entered c) (parts out) c1 (parts out @ (parts t @ ts))"
    by (simp add: flat_def)
  then have s': "shifted (entered c) (parts out) c1 (parts t @ (parts out @ ts))"
    by (auto simp: shifted_def)
  show "\<exists>c3. phy_exact_operation_end (release (rev (parts t) @ rev ts) c1) st = (st, c3) \<and>
      shifted (begun c) (parts out) c3 (parts out)"
    by (rule end_shifted [OF ok s o1(1)]) simp
  show "\<exists>c3. phy_exact_operation_end (release (rev (parts out) @ rev ts) c1) st = (st, c3) \<and>
      shifted (begun c) (parts out) c3 (parts t)"
    by (rule end_shifted [OF ok s' o1(1)]) simp
qed

lemma release_null: "release (rev (parts null_bigrat)) c = c"
  by (simp add: parts_def null_bigrat_def phy_bigint_is_initialized_def phy_bigint_handle_valid_def null_bigint_def)

lemma finish_ok:
  assumes ok: "ctx_ok c" and out: "owned c out"
    and run: "run_ok r (\<lambda>w. \<exists>xs. worth (entered c) [] [Some p] xs w) (\<lambda>st w. dirty (entered c) [] 1 w \<and> E st)"
  shows "rat_settled out c p E (map_option (rat_finish out) r)"
proof -
  obtain st w where r: "r = Some (st, w)" "st = PHY_OK \<Longrightarrow> \<exists>xs. worth (entered c) [] [Some p] xs w"
    "st \<noteq> PHY_OK \<Longrightarrow> dirty (entered c) [] 1 w \<and> E st" using run_okE [OF run] by blast
  have "dirty (entered c) [] 1 w" using r(2,3) worth_dirty [of "entered c" "[]" "[Some p]" _ w] by (cases "st = PHY_OK") auto
  then obtain t ts c1 where w: "w = ([t], ts, c1)" and sh: "shifted (entered c) [] c1 (flat [t] ts)"
    and t: "br_live t \<or> t = null_bigrat"
    by (cases w) (auto simp: dirty_def length_Suc_conv)
  show ?thesis
  proof (cases "st = PHY_OK")
    case True
    then obtain xs where g: "worth (entered c) [] [Some p] xs ([t], ts, c1)" using r(2) w by blast
    have p: "live_rat c1 t" "pair t = p" using worth_rat(3,4) [OF g, of 0 p] by simp_all
    have e: "same_env c c1" using shiftedD(1) [OF sh] by (auto simp: same_env_def begun_def)
    have lo: "live_rat c1 out" using out live_rat_env [OF e] by (simp add: owned_def)
    have cm: "rat_commit out t PHY_OK c1 = (t, release (rev (parts out)) c1)"
      using rat_destroy_release [of out c1] lo by (simp add: rat_commit_def swap_rats [OF lo p(1)] live_rat_def)
    obtain c3 where c3: "phy_exact_operation_end (release (rev (parts out) @ rev ts) c1) st = (st, c3)"
      "shifted (begun c) (parts out) c3 (parts t)" using close_work(2) [OF ok out sh] by blast
    have "rat_finish out (st, [t], ts, c1) = (st, t, c3)"
      using c3(1) True by (simp add: rat_finish_def cm release_append)
    moreover have "live_rat c3 t"
    proof -
      have "same_env c c3" using shiftedD(1) [OF c3(2)] by (auto simp: same_env_def begun_def split: if_splits)
      then have "same_env c1 c3" using e by (simp add: same_env_def)
      then show ?thesis using p(1) live_rat_env by blast
    qed
    ultimately show ?thesis using True c3(2) p(2) by (simp add: rat_settled_def r(1) w)
  next
    case False
    have d: "(if br_live t then snd (phy_bigrat_destroy t c1) else c1) = release (rev (parts t)) c1"
      using t rat_destroy_release [of t c1] release_null by (cases "br_live t") (auto simp del: release.simps)
    obtain c3 where c3: "phy_exact_operation_end (release (rev (parts t) @ rev ts) c1) st = (st, c3)"
      "shifted (begun c) (parts out) c3 (parts out)" using close_work(1) [OF ok out sh] by blast
    have "rat_finish out (st, [t], ts, c1) = (st, out, c3)"
      unfolding rat_finish_def prod.case list.sel if_not_P [OF False] d release_append c3(1) ..
    then show ?thesis using False c3(2) r(3) by (simp add: rat_settled_def r(1) w)
  qed
qed

section \<open>Normal form\<close>

lemma worth_owned:
  assumes a: "worth c0 u0 ps xs (rs, ts, c)" and k: "k < length ps" "ps ! k = Some p"
  shows "owned c (rs ! k)"
proof -
  have l: "k < length rs" using worth_lengths [OF a] k by simp
  have "owns c (flat rs ts)" using a shifted_owns by (auto simp: worth_def)
  then have "owns c (parts (rs ! k))" unfolding flat_parts [OF l] by (simp add: owns_def)
  then show ?thesis using worth_rat(3) [OF a k] by (simp add: owned_def)
qed

lemma sign_value: "phy_bigint_shallow_valid c v \<Longrightarrow> (bg_sign v < 0 \<longleftrightarrow> ival v < 0) \<and> (0 < bg_sign v \<longleftrightarrow> 0 < ival v) \<and>
    (bg_count v = 0 \<longleftrightarrow> ival v = 0)"
  using valid_sign [of c v] by (auto simp: sgn_if split: if_splits)

text \<open>The steps on the one rational temporary.\<close>

lemma step_num0:
  assumes "worth c0 u0 [Some (n, d)] xs w"
    and "\<And>rs ts c. worth c0 u0 [Some (n, d)] xs (rs, ts, c) \<Longrightarrow> computes c (f rs ts) (br_num (rs ! 0)) x E"
  shows "run_ok (on_num 0 f w) (worth c0 u0 [Some (x, d)] xs) (\<lambda>st w. dirty c0 u0 1 w \<and> E st)"
  using step_num [of c0 u0 "[Some (n, d)]" xs w 0 n d f x E] assms by simp

lemma step_den0:
  assumes "worth c0 u0 [Some (n, d)] xs w"
    and "\<And>rs ts c. worth c0 u0 [Some (n, d)] xs (rs, ts, c) \<Longrightarrow> computes c (f rs ts) (br_den (rs ! 0)) x E"
  shows "run_ok (on_den 0 f w) (worth c0 u0 [Some (n, x)] xs) (\<lambda>st w. dirty c0 u0 1 w \<and> E st)"
  using step_den [of c0 u0 "[Some (n, d)]" xs w 0 n d f x E] assms by simp

lemma move_sign_ok:
  assumes a: "worth c0 u0 [Some (n, d)] xs w" and d: "d \<noteq> 0"
  shows "run_ok (move_sign w) (worth c0 u0 [Some (sgn d * n, \<bar>d\<bar>)] xs) (\<lambda>st w. dirty c0 u0 1 w \<and> resource_failure c0 st)"
proof -
  obtain rs ts c where w: "w = (rs, ts, c)" by (cases w)
  have l: "rs \<noteq> []" using worth_lengths [OF a [unfolded w]] by auto
  note r = worth_rat [OF a [unfolded w], of 0 "(n, d)", simplified]
  have s: "bg_sign (br_den (hd rs)) < 0 \<longleftrightarrow> d < 0"
    using r(3,4) sign_value [of c "br_den (rs ! 0)"] l by (simp add: live_rat_def pair_def hd_conv_nth)
  have rf: "resource_failure c1 = resource_failure c0" if "worth c0 u0 ps xs (rs1, ts1, c1)" for ps xs rs1 ts1 c1
    using resources [OF worth_context(4) [OF that]] .
  show ?thesis
  proof (cases "d < 0")
    case False
    then show ?thesis using a d s by (simp add: move_sign_def w)
  next
    case True
    have s1: "run_ok (on_den 0 (\<lambda>rs ts. always (phy_bigint_negate (br_den (rs ! 0)))) w) (worth c0 u0 [Some (n, - d)] xs)
        (\<lambda>st w. dirty c0 u0 1 w \<and> resource_failure c0 st)"
    proof (rule step_den0 [OF a])
      fix rs ts c assume b: "worth c0 u0 [Some (n, d)] xs (rs, ts, c)"
      note r = worth_rat [OF b, of 0 "(n, d)", simplified]
      show "computes c (always (phy_bigint_negate (br_den (rs ! 0)))) (br_den (rs ! 0)) (- d) (resource_failure c0)"
        using computes_negate [OF r(2), of "br_den (rs ! 0)"] r(3,4) rf [OF b] by (simp add: live_rat_def pair_def)
    qed
    have s2: "run_ok (on_num 0 (\<lambda>rs ts. always (phy_bigint_negate (br_num (rs ! 0)))) w') (worth c0 u0 [Some (- n, - d)] xs)
        (\<lambda>st w. dirty c0 u0 1 w \<and> resource_failure c0 st)" if b: "worth c0 u0 [Some (n, - d)] xs w'" for w'
    proof (rule step_num0 [OF b])
      fix rs ts c assume b: "worth c0 u0 [Some (n, - d)] xs (rs, ts, c)"
      note r = worth_rat [OF b, of 0 "(n, - d)", simplified]
      show "computes c (always (phy_bigint_negate (br_num (rs ! 0)))) (br_num (rs ! 0)) (- n) (resource_failure c0)"
        using computes_negate [OF r(1), of "br_num (rs ! 0)"] r(3,4) rf [OF b] by (simp add: live_rat_def pair_def)
    qed
    have "run_ok (run_steps [on_num 0 (\<lambda>rs ts. always (phy_bigint_negate (br_num (rs ! 0))))] w') (worth c0 u0 [Some (- n, - d)] xs)
        (\<lambda>st w. dirty c0 u0 1 w \<and> resource_failure c0 st)" if "worth c0 u0 [Some (n, - d)] xs w'" for w'
      by (rule run_steps_Cons, rule s2 [OF that]) simp
    with s1 have "run_ok (run_steps [on_den 0 (\<lambda>rs ts. always (phy_bigint_negate (br_den (rs ! 0)))),
         on_num 0 (\<lambda>rs ts. always (phy_bigint_negate (br_num (rs ! 0))))] w) (worth c0 u0 [Some (- n, - d)] xs)
        (\<lambda>st w. dirty c0 u0 1 w \<and> resource_failure c0 st)" by (rule run_steps_Cons)
    then show ?thesis using True s by (simp add: move_sign_def w)
  qed
qed

lemma take_reduced_ok:
  assumes a: "worth c0 u0 [Some (n, d)] [Some g, Some x, Some y] w"
  shows "run_ok (take_reduced w) (worth c0 u0 [Some (x, y)] [Some g, Some n, Some d]) E"
proof -
  obtain rs ts c where w0: "w = (rs, ts, c)" by (cases w)
  have "length rs = 1" "length ts = 3" using worth_lengths [OF a [unfolded w0]] by simp_all
  then obtain r t0 t1 t2 where "rs = [r]" "ts = [t0, t1, t2]" by (auto simp: length_Suc_conv numeral_3_eq_3)
  then have w: "w = ([r], [t0, t1, t2], c)" using w0 by simp
  note a = a [unfolded w]
  have r: "live_rat c r" "pair r = (n, d)" using worth_rat(3,4) [OF a, of 0] by simp_all
  have t: "phy_bigint_shallow_valid c t0" "phy_bigint_shallow_valid c t1" "phy_bigint_shallow_valid c t2"
    "ival t0 = g" "ival t1 = x" "ival t2 = y"
    using worth_int(2,3) [OF a, of 0 g] worth_int(2,3) [OF a, of 1 x] worth_int(2,3) [OF a, of 2 y] by simp_all
  have sw: "phy_bigint_swap_payload (br_num r) t1 = (t1, br_num r)" "phy_bigint_swap_payload (br_den r) t2 = (t2, br_den r)"
    using r(1) t(2,3) by (auto simp: live_rat_def phy_bigint_shallow_valid_def intro: swap_handles [of c])
  have eq: "take_reduced w = Some (PHY_OK, [r\<lparr>br_num := t1, br_den := t2\<rparr>], [t0, br_num r, br_den r], c)"
    by (simp add: take_reduced_def w sw numeral_2_eq_2)
  have "bg_live (br_num r)" "bg_live (br_den r)" "bg_live t0" "bg_live t1" "bg_live t2"
    using r(1) t(1-3) shallow_slot by (auto simp: live_rat_def)
  then show ?thesis
    using a r t unfolding eq run_ok_some
    by (auto simp: worth_def flat_def parts_def shifted_def int_slot_def rat_slot_def live_rat_def slot_pair_def slot_value_def pair_def)
qed

text \<open>The steps on the integer temporaries of the reduction.\<close>

lemma reduce_ok:
  assumes a: "worth c0 u0 [Some (n, d)] [None, None, None] w" and nz: "n \<noteq> 0" "0 < d"
  defines "g \<equiv> gcd n d"
  shows "run_ok (run_steps reduce_steps w) (worth c0 u0 [Some (n div g, d div g)] [Some g, Some n, Some d])
    (\<lambda>st w. dirty c0 u0 1 w \<and> resource_failure c0 st)"
proof -
  let ?E = "\<lambda>st w. dirty c0 u0 1 w \<and> resource_failure c0 st" and ?p = "[Some (n, d)]"
  have g: "g \<noteq> 0" "g dvd n" "g dvd d" using nz by (simp_all add: g_def)
  have rf: "resource_failure c = resource_failure c0" if "worth c0 u0 ps xs (rs, ts, c)" for ps xs rs ts c
    using resources [OF worth_context(4) [OF that]] .
  have rat: "phy_bigint_shallow_valid c (br_num (rs ! 0)) \<and> phy_bigint_shallow_valid c (br_den (rs ! 0)) \<and>
      ival (br_num (rs ! 0)) = n \<and> ival (br_den (rs ! 0)) = d" if "worth c0 u0 ?p xs (rs, ts, c)" for xs rs ts c
    using worth_rat(3,4) [OF that, of 0 "(n, d)"] by (simp add: live_rat_def pair_def)
  have i0: "run_ok (init_int 0 w) (worth c0 u0 ?p [Some 0, None, None]) ?E"
    using step_init_int [OF a, of 0] by simp
  have i1: "run_ok (init_int 1 w) (worth c0 u0 ?p [Some 0, Some 0, None]) ?E"
    if "worth c0 u0 ?p [Some 0, None, None] w" for w using step_init_int [OF that, of 1] by simp
  have i2: "run_ok (init_int 2 w) (worth c0 u0 ?p [Some 0, Some 0, Some 0]) ?E"
    if "worth c0 u0 ?p [Some 0, Some 0, None] w" for w using step_init_int [OF that, of 2] by simp
  have s3: "run_ok (on_int 0 (\<lambda>rs ts. phy_bigint_gcd (br_num (rs ! 0)) (br_den (rs ! 0))) w)
      (worth c0 u0 ?p [Some g, Some 0, Some 0]) ?E" if b: "worth c0 u0 ?p [Some 0, Some 0, Some 0] w" for w
  proof -
    have "computes c (phy_bigint_gcd (br_num (rs ! 0)) (br_den (rs ! 0))) (ts ! 0) g (resource_failure c0)"
      if b: "worth c0 u0 ?p [Some 0, Some 0, Some 0] (rs, ts, c)" for rs ts c
      using computes_gcd [OF worth_int(1) [OF b, of 0 0], of "br_num (rs ! 0)" "br_den (rs ! 0)"] rat [OF b] rf [OF b]
      by (simp add: g_def)
    from step_int [OF b, of 0, OF _ this] show ?thesis by simp
  qed
  have s4: "run_ok (on_int 1 (\<lambda>rs ts. always (phy_bigint_divide_exact (br_num (rs ! 0)) (ts ! 0))) w)
      (worth c0 u0 ?p [Some g, Some (n div g), Some 0]) ?E" if b: "worth c0 u0 ?p [Some g, Some 0, Some 0] w" for w
  proof -
    have "computes c (always (phy_bigint_divide_exact (br_num (rs ! 0)) (ts ! 0))) (ts ! 1) (n div g) (resource_failure c0)"
      if b: "worth c0 u0 ?p [Some g, Some 0, Some 0] (rs, ts, c)" for rs ts c
      using computes_divide_exact [OF worth_int(1) [OF b, of 1 0], of "br_num (rs ! 0)" "ts ! 0"] worth_int(2,3) [OF b, of 0 g]
        rat [OF b] rf [OF b] g by simp
    from step_int [OF b, of 1, OF _ this] show ?thesis by simp
  qed
  have s5: "run_ok (on_int 2 (\<lambda>rs ts. always (phy_bigint_divide_exact (br_den (rs ! 0)) (ts ! 0))) w)
      (worth c0 u0 ?p [Some g, Some (n div g), Some (d div g)]) ?E"
    if b: "worth c0 u0 ?p [Some g, Some (n div g), Some 0] w" for w
  proof -
    have "computes c (always (phy_bigint_divide_exact (br_den (rs ! 0)) (ts ! 0))) (ts ! 2) (d div g) (resource_failure c0)"
      if b: "worth c0 u0 ?p [Some g, Some (n div g), Some 0] (rs, ts, c)" for rs ts c
      using computes_divide_exact [OF worth_int(1) [OF b, of 2 0], of "br_den (rs ! 0)" "ts ! 0"] worth_int(2,3) [OF b, of 0 g]
        rat [OF b] rf [OF b] g by simp
    from step_int [OF b, of 2, OF _ this] show ?thesis by simp
  qed
  show ?thesis unfolding reduce_steps_def
    by (rule run_steps_Cons, rule i0, rule run_steps_Cons, erule i1, rule run_steps_Cons, erule i2,
        rule run_steps_Cons, erule s3, rule run_steps_Cons, erule s4, rule run_steps_Cons, erule s5,
        rule run_steps_Cons, erule take_reduced_ok) simp
qed

lemma normal_pair:
  assumes "d \<noteq> 0"
  shows "quotient_of (Fract n d) = (if n = 0 then (0, 1)
      else (sgn d * n div gcd (sgn d * n) \<bar>d\<bar>, \<bar>d\<bar> div gcd (sgn d * n) \<bar>d\<bar>))"
proof -
  have "gcd (sgn d * n) \<bar>d\<bar> = gcd n d" using assms by (cases "d < 0") simp_all
  moreover have "x div - gcd n d = - x div gcd n d" for x
    by (metis div_minus_minus minus_minus)
  ultimately show ?thesis using assms
    by (cases "0 < d") (auto simp: quotient_of_Fract Rat.normalize_def Let_def)
qed

text \<open>The rational steps leave the integer temporaries alone.\<close>

lemma move_sign_ints:
  assumes "move_sign (rs, ts, c) = Some (st, rs', ts', c')"
  shows "ts' = ts"
  using assms by (auto simp: move_sign_def on_den_def on_num_def always_def split: if_splits prod.splits option.splits)

lemma drop_ints:
  assumes "shifted c u c1 (parts t @ ts)" "owns c u"
  shows "shifted c u (release (rev ts) c1) (parts t)"
proof -
  have "\<forall>v \<in> set (rev ts). slot_ok c1 v" using shiftedD(4) [OF assms(1)] by simp
  moreover have "owns c1 (rev ts)" using shifted_owns [OF assms] by (simp add: owns_def total_rev)
  ultimately have "shifted c1 (rev ts) (release (rev ts) c1) []" by (rule release_shifted [OF shiftedD(2) [OF assms(1)]])
  then have "shifted c1 ts (release (rev ts) c1) []" by (simp add: shifted_def total_rev)
  from shifted_frame [of c u c1 "parts t" ts "[]", simplified, OF assms(1) this] show ?thesis by simp
qed

definition normalized :: "phy_exact_context \<Rightarrow> phy_bigrat \<Rightarrow> int \<times> int \<Rightarrow> (phy_status \<Rightarrow> bool) \<Rightarrow> (phy_bigrat \<times> phy_exact_context) run \<Rightarrow> bool" where
  "normalized c r p E x \<longleftrightarrow> run_ok x
     (\<lambda>(r', c'). shifted c (parts r) c' (parts r') \<and> live_rat c' r' \<and> pair r' = p)
     (\<lambda>st (r', c'). shifted c (parts r) c' (parts r') \<and> (br_live r' \<or> r' = null_bigrat) \<and> E st)"

text \<open>The last phase, whichever it is, ends in the normal form once its integers are dropped.\<close>

lemma leave_normal:
  assumes ow: "owns c (parts r)" and x: "run_ok x (worth c (parts r) [Some p] xs) (\<lambda>st w. dirty c (parts r) 1 w \<and> E st)"
  shows "normalized c r p E (map_option (\<lambda>(st, rs, ts, c1). (st, hd rs, release (rev ts) c1)) x)"
proof -
  obtain st w where x: "x = Some (st, w)" "st = PHY_OK \<Longrightarrow> worth c (parts r) [Some p] xs w"
    "st \<noteq> PHY_OK \<Longrightarrow> dirty c (parts r) 1 w \<and> E st" using run_okE [OF x] by blast
  have "dirty c (parts r) 1 w" using x(2,3) worth_dirty [of c "parts r" "[Some p]" xs w] by (cases "st = PHY_OK") auto
  then obtain t ts c1 where w: "w = ([t], ts, c1)" and sh: "shifted c (parts r) c1 (parts t @ ts)" and t: "br_live t \<or> t = null_bigrat"
    by (cases w) (auto simp: dirty_def length_Suc_conv flat_def)
  note d = drop_ints [OF sh ow]
  have e: "same_env c1 (release (rev ts) c1)"
    using shiftedD(1) [OF sh] shiftedD(1) [OF d] by (simp add: same_env_def)
  show ?thesis
  proof (cases "st = PHY_OK")
    case True
    note g = worth_rat(3,4) [OF x(2) [OF True, unfolded w], of 0 p, simplified]
    then show ?thesis using d live_rat_env [OF e] True by (simp add: normalized_def x(1) w)
  next
    case False
    then show ?thesis using d t x(3) by (simp add: normalized_def x(1) w)
  qed
qed

lemma normalize_zero:
  assumes ok: "ctx_ok c" and r: "live_rat c r" and p: "ival (br_den r) = 0"
  shows "computes_rat c normalize_in_place r q (\<lambda>st. st = PHY_ERR_DOMAIN)"
proof -
  have v: "phy_bigint_shallow_valid c (br_num r)" "phy_bigint_shallow_valid c (br_den r)" "br_live r"
    "bg_owner (br_num r) = bg_owner (br_den r)"
    using r by (auto simp: live_rat_def phy_bigint_shallow_valid_def phy_bigint_handle_valid_def)
  have "bg_count (br_den r) = 0" using sign_value [OF v(2)] p by simp
  then show ?thesis using v shifted_refl [OF ok live_slots [OF r]] by (simp add: computes_rat_def normalize_in_place_def)
qed

lemma normalize_ok:
  assumes ok: "ctx_ok c" "ec_depth c \<noteq> 0" and r: "owned c r" and p: "pair r = (n, d)"
  shows "computes_rat c normalize_in_place r (quotient_of (Fract n d))
    (\<lambda>st. if d = 0 then st = PHY_ERR_DOMAIN else resource_failure c st)"
proof -
  have lr: "live_rat c r" and ow: "owns c (parts r)" using r by (simp_all add: owned_def)
  then have v: "phy_bigint_shallow_valid c (br_num r)" "phy_bigint_shallow_valid c (br_den r)" "br_live r"
    "bg_owner (br_num r) = bg_owner (br_den r)"
    by (auto simp: live_rat_def phy_bigint_shallow_valid_def phy_bigint_handle_valid_def)
  have ds: "bg_count (br_den r) = 0 \<longleftrightarrow> d = 0" using sign_value [OF v(2)] p by (simp add: pair_def)
  have refl: "shifted c (parts r) c (parts r)" by (rule shifted_refl [OF ok(1) live_slots [OF lr]])
  show ?thesis
  proof (cases "d = 0")
    case True
    then show ?thesis using v ds refl by (simp add: computes_rat_def normalize_in_place_def)
  next
    case False
    let ?n = "sgn d * n" and ?d = "\<bar>d\<bar>" and ?u = "parts r" and ?F = "resource_failure c"
    have w0: "worth c ?u [Some (n, d)] [] ([r], [], c)"
      using ok lr ow refl p by (simp add: worth_def flat_def rat_slot_def slot_pair_def live_rat_def)
    note ms = move_sign_ok [OF w0 False]
    obtain st rs ts c1 where m: "move_sign ([r], [], c) = Some (st, rs, ts, c1)"
      using ms by (rule run_okE) (metis prod_cases3)
    have ts: "ts = []" by (rule move_sign_ints [OF m])
    have eq: "normalize_in_place (r, c) =
      (if st \<noteq> PHY_OK then Some (st, hd rs, c1)
       else if bg_count (br_num (hd rs)) = 0 then
         map_option (\<lambda>(status', rs', ts', c'). (status', hd rs', c')) (on_den 0 (\<lambda>rs ts. always (phy_bigint_set_i64 1)) (rs, ts, c1))
       else map_option (\<lambda>(status', rs', ts', c'). (status', hd rs', release (rev ts') c'))
              (run_steps reduce_steps (rs, replicate 3 null_bigint, c1)))"
      using v False ds by (simp add: normalize_in_place_def m)
    have "normalized c r (quotient_of (Fract n d)) ?F (normalize_in_place (r, c))"
    proof (cases "st = PHY_OK")
      case False
      then show ?thesis using leave_normal [OF ow ms] unfolding eq m ts by (simp add: normalized_def)
    next
      case True
      then have w1: "worth c ?u [Some (?n, ?d)] [] (rs, [], c1)" using ms by (simp add: m ts)
      then have l: "length rs = 1" using worth_lengths [OF w1] by simp
      have nz: "bg_count (br_num (hd rs)) = 0 \<longleftrightarrow> n = 0"
        using worth_rat(3,4) [OF w1, of 0 "(?n, ?d)"] sign_value [of c1 "br_num (rs ! 0)"] l False
        by (cases rs) (auto simp: live_rat_def pair_def sgn_if)
      show ?thesis
      proof (cases "n = 0")
        case True
        have "run_ok (on_den 0 (\<lambda>rs ts. always (phy_bigint_set_i64 1)) (rs, [], c1)) (worth c ?u [Some (?n, 1)] [])
            (\<lambda>st w. dirty c ?u 1 w \<and> ?F st)"
        proof (rule step_den0 [OF w1])
          fix rs ts c1 assume b: "worth c ?u [Some (?n, ?d)] [] (rs, ts, c1)"
          show "computes c1 (always (phy_bigint_set_i64 1)) (br_den (rs ! 0)) 1 ?F"
            using computes_set [OF worth_rat(2) [OF b, of 0 "(?n, ?d)"], of 1] resources [OF worth_context(4) [OF b]] by simp
        qed
        from leave_normal [OF ow this] show ?thesis
          using True \<open>st = PHY_OK\<close> nz False unfolding eq ts normal_pair [OF \<open>d \<noteq> 0\<close>]
          by (simp add: on_den_def always_def option.map_comp comp_def split_beta)
      next
        case nz': False
        have w2: "worth c ?u [Some (?n, ?d)] [None, None, None] (rs, replicate 3 null_bigint, c1)"
          using w1 by (simp add: worth_def flat_def numeral_3_eq_3 int_slot_def slot_value_def shifted_def)
        have "?n \<noteq> 0" "0 < ?d" using nz' False by (simp_all add: sgn_if)
        from leave_normal [OF ow reduce_ok [OF w2 this]] show ?thesis
          using nz nz' \<open>st = PHY_OK\<close> unfolding eq normal_pair [OF False] by simp
      qed
    qed
    then show ?thesis using False by (simp add: normalized_def computes_rat_def)
  qed
qed

end
