(* ===== verification/BigRatArith.thy ===== *)
theory BigRatArith
  imports BigRatNormal
begin

text \<open>
  The specification of the operations on rationals: every one is transactional and its result
  is the canonical pair of the exact rational number.
\<close>

section \<open>Rational numbers\<close>

definition rval :: "phy_bigrat \<Rightarrow> rat" where
  "rval r = Fract (ival (br_num r)) (ival (br_den r))"

lemma is_one_iff:
  assumes "phy_bigint_shallow_valid c v" "0 < ival v"
  shows "is_one v \<longleftrightarrow> ival v = 1"
proof -
  have s: "bg_sign v = 1" "bg_count v \<noteq> 0" "int (magv v) = ival v" using valid_sign [OF assms(1)] assms(2) by auto
  have top: "bg_limbs v ! (bg_count v - 1) \<noteq> 0" using assms(1) s(2) by (simp add: phy_bigint_shallow_valid_def)
  show ?thesis
  proof (cases "bg_count v = 1")
    case True
    then have "magv v = unat (bg_limbs v ! 0)" by (simp add: magv_def nval_def)
    moreover have "ival v = 1 \<longleftrightarrow> magv v = 1" using s(3) by linarith
    moreover have "bg_limbs v ! 0 = 1 \<longleftrightarrow> unat (bg_limbs v ! 0) = 1" by (simp add: word_unat_eq_iff)
    ultimately have "ival v = 1 \<longleftrightarrow> bg_limbs v ! 0 = 1" by metis
    then show ?thesis using True by (simp add: is_one_def)
  next
    case False
    then have "base ^ (bg_count v - 1) \<le> magv v"
      using top s(2) nval_top [of "bg_count v" "bg_limbs v"] by (simp add: magv_def)
    moreover have "base ^ 1 \<le> base ^ (bg_count v - 1)" using False s(2) by (intro power_increasing) (auto simp: base_def)
    ultimately have "1 < magv v" by (simp add: base_def)
    then show ?thesis using False s(3) by (simp add: is_one_def)
  qed
qed

lemma rational_valid_iff:
  "rational_valid_shallow c r \<longleftrightarrow> live_rat c r \<and> 0 < ival (br_den r) \<and> (ival (br_num r) = 0 \<longrightarrow> ival (br_den r) = 1)"
proof (cases "live_rat c r")
  case True
  then have v: "phy_bigint_shallow_valid c (br_num r)" "phy_bigint_shallow_valid c (br_den r)" "br_live r"
    "bg_owner (br_num r) = bg_owner (br_den r)"
    by (auto simp: live_rat_def phy_bigint_shallow_valid_def phy_bigint_handle_valid_def)
  have s: "bg_count (br_num r) = 0 \<longleftrightarrow> ival (br_num r) = 0" using sign_value [OF v(1)] by (elim conjE)
  have t: "0 < bg_sign (br_den r) \<longleftrightarrow> 0 < ival (br_den r)" using sign_value [OF v(2)] by (elim conjE)
  have "rational_valid_shallow c r \<longleftrightarrow> 0 < ival (br_den r) \<and> (ival (br_num r) = 0 \<longrightarrow> is_one (br_den r))"
    using v by (simp add: rational_valid_shallow_def s t)
  then show ?thesis using True is_one_iff [OF v(2)] by (cases "0 < ival (br_den r)") simp_all
next
  case False
  then show ?thesis by (auto simp: rational_valid_shallow_def live_rat_def)
qed

lemma context_iff: "rational_context c r = (if rational_valid_shallow c r then Some (ec_id c) else None)"
proof -
  have "rational_valid_shallow c r \<Longrightarrow> bg_owner (br_num r) = ec_id c"
    unfolding rational_valid_shallow_def phy_bigint_shallow_valid_def phy_bigint_handle_valid_def by blast
  then show ?thesis by (simp add: rational_context_def)
qed

lemma rat_compatible_iff:
  "rat_compatible2 c l r \<longleftrightarrow> rational_valid_shallow c l \<and> rational_valid_shallow c r"
  "rat_compatible3 c l r out \<longleftrightarrow> rational_valid_shallow c l \<and> rational_valid_shallow c r \<and> rational_valid_shallow c out"
  by (auto simp: rat_compatible2_def rat_compatible3_def context_iff)

text \<open>A canonical pair makes a valid rational, worth the rational number.\<close>

lemma canonical_valid:
  assumes "live_rat c r" "pair r = quotient_of q"
  shows "rational_valid_shallow c r" "rval r = q"
proof -
  have q: "quotient_of q = (ival (br_num r), ival (br_den r))" using assms(2) by (simp add: pair_def)
  have d: "0 < ival (br_den r)" by (rule quotient_of_denom_pos [OF q])
  have "coprime (ival (br_num r)) (ival (br_den r))" by (rule quotient_of_coprime [OF q])
  then have "ival (br_num r) = 0 \<longrightarrow> ival (br_den r) = 1" using d by auto
  then show "rational_valid_shallow c r" using assms(1) d by (simp add: rational_valid_iff)
  show "rval r = q" using quotient_of_div [OF q] by (simp add: rval_def Fract_of_int_quotient)
qed

section \<open>Stages of an operation\<close>

text \<open>One rational temporary worth \<open>p\<close>, integer temporaries worth \<open>ys\<close>.\<close>

definition stage :: "phy_exact_context \<Rightarrow> int \<times> int \<Rightarrow> int list \<Rightarrow> work \<Rightarrow> bool" where
  "stage c p ys w \<longleftrightarrow> worth (entered c) [] [Some p] (map Some ys) w"

definition failed :: "phy_exact_context \<Rightarrow> (phy_status \<Rightarrow> bool) \<Rightarrow> phy_status \<Rightarrow> work \<Rightarrow> bool" where
  "failed c E st w \<longleftrightarrow> dirty (entered c) [] 1 w \<and> E st"

lemma stage_eq: "stage c p ys = worth (entered c) [] [Some p] (map Some ys)"
  by (simp add: fun_eq_iff stage_def)

lemma failed_eq: "failed c E = (\<lambda>st w. dirty (entered c) [] 1 w \<and> E st)"
  by (simp add: fun_eq_iff failed_def)

lemma entered_env: "same_env c (entered c)"
  by (simp add: same_env_def begun_def)

lemma stage_env: "stage c p ys (rs, ts, c1) \<Longrightarrow> same_env c c1"
  unfolding stage_def using same_env_trans [OF entered_env worth_context(4)] .

lemma stage_values:
  assumes "stage c p ys (rs, ts, c1)" "j < length ys"
  shows "phy_bigint_shallow_valid c1 (ts ! j) \<and> ival (ts ! j) = ys ! j"
  using worth_int(2,3) [OF assms(1) [unfolded stage_def], of j "ys ! j"] assms(2) by simp

text \<open>A step that puts \<open>ys ! k\<close> into the integer \<open>k\<close>.\<close>

lemma stage_int:
  assumes a: "stage c p xs w" and k: "k < length xs" "ys = xs[k := ys ! k]"
    and f: "\<And>rs ts c1. same_env c c1 \<Longrightarrow> (\<And>j. j < length xs \<Longrightarrow> phy_bigint_shallow_valid c1 (ts ! j) \<and> ival (ts ! j) = xs ! j) \<Longrightarrow>
      ready c1 (ts ! k) \<Longrightarrow> computes c1 (f rs ts) (ts ! k) (ys ! k) (resource_failure c1)"
  shows "run_ok (on_int k f w) (stage c p ys) (failed c (resource_failure c))"
proof -
  have "computes c1 (f rs ts) (ts ! k) (ys ! k) (resource_failure c)" if "worth (entered c) [] [Some p] (map Some xs) (rs, ts, c1)" for rs ts c1
  proof -
    note b = that [folded stage_def]
    have "ready c1 (ts ! k)" using worth_int(1) [OF that, of k "xs ! k"] k by simp
    then show ?thesis using f [OF stage_env [OF b] stage_values [OF b]] resources [OF stage_env [OF b]] by simp
  qed
  then have "run_ok (on_int k f w) (worth (entered c) [] [Some p] ((map Some xs)[k := Some (ys ! k)]))
      (\<lambda>st w. dirty (entered c) [] (length [Some p]) w \<and> resource_failure c st)"
    using k(1) by (intro step_int [OF a [unfolded stage_def]]) simp_all
  moreover have "(map Some xs)[k := Some (ys ! k)] = map Some ys" using k(2) by (metis map_update)
  ultimately show ?thesis by (simp add: stage_eq failed_eq)
qed

lemma stage_num:
  assumes a: "stage c (n, d) xs w"
    and f: "\<And>rs ts c1. same_env c c1 \<Longrightarrow> (\<And>j. j < length xs \<Longrightarrow> phy_bigint_shallow_valid c1 (ts ! j) \<and> ival (ts ! j) = xs ! j) \<Longrightarrow>
      ready c1 (br_num (rs ! 0)) \<Longrightarrow> computes c1 (f rs ts) (br_num (rs ! 0)) x E"
  shows "run_ok (on_num 0 f w) (stage c (x, d) xs) (failed c E)"
proof -
  have "computes c1 (f rs ts) (br_num (rs ! 0)) x E" if "worth (entered c) [] [Some (n, d)] (map Some xs) (rs, ts, c1)" for rs ts c1
    using f [OF stage_env [OF that [folded stage_def]] stage_values [OF that [folded stage_def]]] worth_rat(1) [OF that, of 0 "(n, d)"]
    by simp
  then have "run_ok (on_num 0 f w) (worth (entered c) [] [Some (x, d)] (map Some xs)) (\<lambda>st w. dirty (entered c) [] 1 w \<and> E st)"
    by (rule step_num0 [OF a [unfolded stage_def]])
  then show ?thesis by (simp add: stage_eq failed_eq)
qed

lemma stage_den:
  assumes a: "stage c (n, d) xs w"
    and f: "\<And>rs ts c1. same_env c c1 \<Longrightarrow> (\<And>j. j < length xs \<Longrightarrow> phy_bigint_shallow_valid c1 (ts ! j) \<and> ival (ts ! j) = xs ! j) \<Longrightarrow>
      ready c1 (br_den (rs ! 0)) \<Longrightarrow> computes c1 (f rs ts) (br_den (rs ! 0)) x E"
  shows "run_ok (on_den 0 f w) (stage c (n, x) xs) (failed c E)"
proof -
  have "computes c1 (f rs ts) (br_den (rs ! 0)) x E" if "worth (entered c) [] [Some (n, d)] (map Some xs) (rs, ts, c1)" for rs ts c1
    using f [OF stage_env [OF that [folded stage_def]] stage_values [OF that [folded stage_def]]] worth_rat(2) [OF that, of 0 "(n, d)"]
    by simp
  then have "run_ok (on_den 0 f w) (worth (entered c) [] [Some (n, x)] (map Some xs)) (\<lambda>st w. dirty (entered c) [] 1 w \<and> E st)"
    by (rule step_den0 [OF a [unfolded stage_def]])
  then show ?thesis by (simp add: stage_eq failed_eq)
qed

lemma stage_normalize:
  assumes a: "stage c (n, d) xs w"
  shows "run_ok (normalize_rat w) (stage c (quotient_of (Fract n d)) xs)
    (failed c (\<lambda>st. if d = 0 then st = PHY_ERR_DOMAIN else resource_failure c st))"
proof -
  have "computes_rat c1 normalize_in_place (rs ! 0) (quotient_of (Fract n d))
      (\<lambda>st. if d = 0 then st = PHY_ERR_DOMAIN else resource_failure c st)"
    if b: "worth (entered c) [] [Some (n, d)] (map Some xs) (rs, ts, c1)" for rs ts c1
    using normalize_ok [OF worth_context(1,3) [OF b] worth_owned [OF b, of 0 "(n, d)"]] worth_rat(4) [OF b, of 0 "(n, d)"]
      resources [OF stage_env [of c "(n, d)" xs rs ts c1]] b by (simp add: stage_def cong: if_cong)
  then have "run_ok (normalize_rat w) (worth (entered c) [] ([Some (n, d)][0 := Some (quotient_of (Fract n d))]) (map Some xs))
      (\<lambda>st w. dirty (entered c) [] (length [Some (n, d)]) w \<and> (if d = 0 then st = PHY_ERR_DOMAIN else resource_failure c st))"
    unfolding normalize_rat_def by (intro step_rat [OF a [unfolded stage_def]]) simp_all
  then show ?thesis by (simp add: stage_eq failed_eq)
qed

text \<open>A zero denominator never gets past the normal form.\<close>

lemma stage_normalize_zero:
  assumes a: "stage c (n, 0) xs w"
  shows "run_ok (normalize_rat w) (stage c p xs) (failed c (\<lambda>st. st = PHY_ERR_DOMAIN))"
proof -
  have "computes_rat c1 normalize_in_place (rs ! 0) p (\<lambda>st. st = PHY_ERR_DOMAIN)"
    if b: "worth (entered c) [] [Some (n, 0)] (map Some xs) (rs, ts, c1)" for rs ts c1
    using worth_rat(3,4) [OF b, of 0 "(n, 0)"] by (intro normalize_zero worth_context(1) [OF b]) (simp_all add: pair_def)
  then have "run_ok (normalize_rat w) (worth (entered c) [] ([Some (n, 0)][0 := Some p]) (map Some xs))
      (\<lambda>st w. dirty (entered c) [] (length [Some (n, 0 :: int)]) w \<and> st = PHY_ERR_DOMAIN)"
    unfolding normalize_rat_def by (intro step_rat [OF a [unfolded stage_def]]) simp_all
  then show ?thesis by (simp add: stage_eq failed_eq)
qed

lemma failed_mono: "failed c E st w \<Longrightarrow> (\<And>st. E st \<Longrightarrow> E' st) \<Longrightarrow> failed c E' st w"
  by (auto simp: failed_def)

text \<open>An operation with one rational temporary.\<close>

lemma rat_operation:
  assumes ok: "ctx_ok c" and out: "owned c out"
    and fs: "\<And>w. stage c (0, 1) (replicate n 0) w \<Longrightarrow> run_ok (run_steps fs w) (\<lambda>w. \<exists>ys. stage c p ys w) (failed c E)"
    and E: "\<And>st. resource_failure c st \<Longrightarrow> E st"
  shows "rat_settled out c p E (map_option (rat_finish out) (work_run 1 n fs c))"
proof (rule finish_ok [OF ok out work_run_ok [OF ok _ E]])
  fix w assume "worth (entered c) [] (replicate 1 (Some (0, 1))) (replicate n (Some 0)) w"
  then have "stage c (0, 1) (replicate n 0) w" by (simp add: stage_def)
  from fs [OF this] show "run_ok (run_steps fs w) (\<lambda>w. \<exists>xs. worth (entered c) [] [Some p] xs w) (\<lambda>st w. dirty (entered c) [] 1 w \<and> E st)"
    by (rule run_ok_mono) (auto simp: stage_def failed_def)
qed

end
