(* ===== verification/BigRatOpsSpec.thy ===== *)
theory BigRatOpsSpec
  imports BigRatArith
begin

text \<open>
  The specification of every operation on rationals: transactional, and on success the output
  is the canonical pair of the exact result.
\<close>

section \<open>Reading operands\<close>

definition operand :: "phy_exact_context \<Rightarrow> phy_bigrat \<Rightarrow> bool" where
  "operand c r \<longleftrightarrow> rational_valid_shallow c r"

lemma operandD:
  assumes "operand c r"
  shows "phy_bigint_shallow_valid c (br_num r)" "phy_bigint_shallow_valid c (br_den r)" "0 < ival (br_den r)"
    "live_rat c r" "bg_count (br_num r) = 0 \<longleftrightarrow> ival (br_num r) = 0"
  using assms sign_value [of c "br_num r"] by (auto simp: operand_def rational_valid_iff live_rat_def)

lemma operand_parts:
  assumes "operand c r" "same_env c c1"
  shows "phy_bigint_shallow_valid c1 (br_num r)" "phy_bigint_shallow_valid c1 (br_den r)"
  using operandD(1,2) [OF assms(1)] shallow_valid_env [OF assms(2)] by simp_all

lemma quotient_pair: "quotient_of (Fract n d) = quotient_of q \<Longrightarrow> Fract n d = q"
  by (metis quotient_of_inject)

text \<open>The last step, and the computation of a part, packaged for sequences of steps.\<close>

lemma stage_done: "stage c p ys w \<Longrightarrow> run_ok (run_steps [] w) (\<lambda>w. \<exists>ys. stage c p ys w) E"
  by auto

lemma normalize_last:
  assumes "stage c (n, d) xs w" "d \<noteq> 0" "Fract n d = q"
  shows "run_ok (run_steps [normalize_rat] w) (\<lambda>w. \<exists>ys. stage c (quotient_of q) ys w) (failed c (resource_failure c))"
proof (rule run_steps_Cons)
  show "run_ok (normalize_rat w) (stage c (quotient_of q) xs) (failed c (resource_failure c))"
    using stage_normalize [OF assms(1)] assms(2,3) by simp
qed (rule stage_done)

lemma computes_mono: "computes c f v x E \<Longrightarrow> (\<And>st. E st \<Longrightarrow> E' st) \<Longrightarrow> computes c f v x E'"
  unfolding computes_def by (erule run_ok_mono) auto

section \<open>Addition and multiplication\<close>

lemma add_spec:
  assumes ok: "ctx_ok c" and l: "operand c l" and r: "operand c r" and out: "owned c out" "operand c out"
  shows "rat_settled out c (quotient_of (rval l + rval r)) (resource_failure c) (phy_bigrat_add l r (out, c))"
proof -
  define ln ld rn rd where "ln = ival (br_num l)" and "ld = ival (br_den l)" and "rn = ival (br_num r)" and "rd = ival (br_den r)"
  note vals = this [symmetric]
  define g where "g = gcd ld rd"
  let ?F = "failed c (resource_failure c)"
  note lv = operand_parts [OF l] and rv = operand_parts [OF r]
  have pos: "0 < ld" "0 < rd" using operandD(3) [OF l] operandD(3) [OF r] by (simp_all add: vals)
  then have g: "g \<noteq> 0" "g dvd ld" "g dvd rd" "0 < g" by (simp_all add: g_def)
  let ?a = "rd div g" and ?b = "ld div g"
  have s0: "run_ok (on_int 0 (\<lambda>rs ts. phy_bigint_gcd (br_den l) (br_den r)) w) (stage c (0, 1) [g, 0, 0, 0, 0]) ?F"
    if "stage c (0, 1) [0, 0, 0, 0, 0] w" for w
    by (rule stage_int [OF that]) (use computes_gcd [OF _ lv(2) rv(2)] in \<open>simp_all add: g_def vals\<close>)
  have s1: "run_ok (on_int 1 (\<lambda>rs ts. always (phy_bigint_divide_exact (br_den r) (ts ! 0))) w) (stage c (0, 1) [g, ?a, 0, 0, 0]) ?F"
    if "stage c (0, 1) [g, 0, 0, 0, 0] w" for w
  proof (rule stage_int [OF that], goal_cases)
    case (3 rs ts c1)
    then show ?case using computes_divide_exact [OF 3(3) rv(2) [OF 3(1)], of "ts ! 0"] 3(2) [of 0] g by (simp add: vals)
  qed simp_all
  have s2: "run_ok (on_int 2 (\<lambda>rs ts. always (phy_bigint_divide_exact (br_den l) (ts ! 0))) w) (stage c (0, 1) [g, ?a, ?b, 0, 0]) ?F"
    if "stage c (0, 1) [g, ?a, 0, 0, 0] w" for w
  proof (rule stage_int [OF that], goal_cases)
    case (3 rs ts c1)
    then show ?case using computes_divide_exact [OF 3(3) lv(2) [OF 3(1)], of "ts ! 0"] 3(2) [of 0] g by (simp add: vals)
  qed simp_all
  have s3: "run_ok (on_int 3 (\<lambda>rs ts. always (phy_bigint_multiply (br_num l) (ts ! 1))) w) (stage c (0, 1) [g, ?a, ?b, ln * ?a, 0]) ?F"
    if "stage c (0, 1) [g, ?a, ?b, 0, 0] w" for w
  proof (rule stage_int [OF that], goal_cases)
    case (3 rs ts c1)
    then show ?case using computes_multiply [OF 3(3) lv(1) [OF 3(1)], of "ts ! 1"] 3(2) [of 1] by (simp add: vals)
  qed simp_all
  have s4: "run_ok (on_int 4 (\<lambda>rs ts. always (phy_bigint_multiply (br_num r) (ts ! 2))) w)
      (stage c (0, 1) [g, ?a, ?b, ln * ?a, rn * ?b]) ?F" if "stage c (0, 1) [g, ?a, ?b, ln * ?a, 0] w" for w
  proof (rule stage_int [OF that], goal_cases)
    case (3 rs ts c1)
    then show ?case using computes_multiply [OF 3(3) rv(1) [OF 3(1)], of "ts ! 2"] 3(2) [of 2] by (simp add: vals)
  qed simp_all
  let ?ys = "[g, ?a, ?b, ln * ?a, rn * ?b]" and ?n = "ln * ?a + rn * ?b"
  have s5: "run_ok (on_num 0 (\<lambda>rs ts. always (phy_bigint_add (ts ! 3) (ts ! 4))) w) (stage c (?n, 1) ?ys) ?F"
    if "stage c (0, 1) ?ys w" for w
  proof (rule stage_num [OF that], goal_cases)
    case (1 rs ts c1)
    then show ?case using computes_add [OF 1(3), of "ts ! 3" "ts ! 4"] 1(2) [of 3] 1(2) [of 4] resources [OF 1(1)] by simp
  qed
  have s6: "run_ok (on_den 0 (\<lambda>rs ts. always (phy_bigint_multiply (br_den l) (ts ! 1))) w) (stage c (?n, ld * ?a) ?ys) ?F"
    if "stage c (?n, 1) ?ys w" for w
  proof (rule stage_den [OF that], goal_cases)
    case (1 rs ts c1)
    then show ?case using computes_multiply [OF 1(3) lv(2) [OF 1(1)], of "ts ! 1"] 1(2) [of 1] resources [OF 1(1)] by (simp add: vals)
  qed
  have nz: "ld * ?a \<noteq> 0" using pos g by (auto simp: dvd_div_eq_0_iff)
  have "Fract ?n (ld * ?a) = rval l + rval r"
  proof -
    obtain x y where xy: "ld = g * x" "rd = g * y" using g(2,3) by (elim dvdE)
    then have "x \<noteq> 0" "y \<noteq> 0" using pos by auto
    then show ?thesis using g(1) by (simp add: rval_def vals xy eq_rat algebra_simps)
  qed
  note last = normalize_last [OF _ nz this]
  have steps: "run_ok (run_steps (add_steps l r) w) (\<lambda>w. \<exists>ys. stage c (quotient_of (rval l + rval r)) ys w) ?F"
    if w: "stage c (0, 1) (replicate 5 0) w" for w
    unfolding add_steps_def
    by (rule run_steps_Cons, rule s0, use w in \<open>simp add: eval_nat_numeral\<close>, rule run_steps_Cons, erule s1, rule run_steps_Cons, erule s2,
        rule run_steps_Cons, erule s3, rule run_steps_Cons, erule s4, rule run_steps_Cons, erule s5,
        rule run_steps_Cons, erule s6, erule last)
  have "phy_bigrat_add l r (out, c) = map_option (rat_finish out) (work_run 1 5 (add_steps l r) c)"
    using l r out by (simp add: phy_bigrat_add_def rat_compatible_iff operand_def)
  then show ?thesis using rat_operation [OF ok out(1) steps] by simp
qed

lemma multiply_rat_spec:
  assumes ok: "ctx_ok c" and l: "operand c l" and r: "operand c r" and out: "owned c out" "operand c out"
  shows "rat_settled out c (quotient_of (rval l * rval r)) (resource_failure c) (phy_bigrat_multiply l r (out, c))"
proof -
  define ln ld rn rd where "ln = ival (br_num l)" and "ld = ival (br_den l)" and "rn = ival (br_num r)" and "rd = ival (br_den r)"
  note vals = this [symmetric]
  define g h where "g = gcd ln rd" and "h = gcd rn ld"
  let ?F = "failed c (resource_failure c)"
  note lv = operand_parts [OF l] and rv = operand_parts [OF r]
  have pos: "0 < ld" "0 < rd" using operandD(3) [OF l] operandD(3) [OF r] by (simp_all add: vals)
  then have g: "g \<noteq> 0" "g dvd ln" "g dvd rd" "h \<noteq> 0" "h dvd rn" "h dvd ld" by (simp_all add: g_def h_def)
  let ?a = "ln div g" and ?b = "rn div h" and ?c = "ld div h" and ?d = "rd div g"
  have s0: "run_ok (on_int 0 (\<lambda>rs ts. phy_bigint_gcd (br_num l) (br_den r)) w) (stage c (0, 1) [g, 0, 0, 0, 0, 0]) ?F"
    if "stage c (0, 1) [0, 0, 0, 0, 0, 0] w" for w
    by (rule stage_int [OF that]) (use computes_gcd [OF _ lv(1) rv(2)] in \<open>simp_all add: g_def vals\<close>)
  have s1: "run_ok (on_int 1 (\<lambda>rs ts. phy_bigint_gcd (br_num r) (br_den l)) w) (stage c (0, 1) [g, h, 0, 0, 0, 0]) ?F"
    if "stage c (0, 1) [g, 0, 0, 0, 0, 0] w" for w
    by (rule stage_int [OF that]) (use computes_gcd [OF _ rv(1) lv(2)] in \<open>simp_all add: h_def vals\<close>)
  have s2: "run_ok (on_int 2 (\<lambda>rs ts. always (phy_bigint_divide_exact (br_num l) (ts ! 0))) w) (stage c (0, 1) [g, h, ?a, 0, 0, 0]) ?F"
    if "stage c (0, 1) [g, h, 0, 0, 0, 0] w" for w
  proof (rule stage_int [OF that], goal_cases)
    case (3 rs ts c1)
    then show ?case using computes_divide_exact [OF 3(3) lv(1) [OF 3(1)], of "ts ! 0"] 3(2) [of 0] g by (simp add: vals)
  qed simp_all
  have s3: "run_ok (on_int 5 (\<lambda>rs ts. always (phy_bigint_divide_exact (br_den r) (ts ! 0))) w) (stage c (0, 1) [g, h, ?a, 0, 0, ?d]) ?F"
    if "stage c (0, 1) [g, h, ?a, 0, 0, 0] w" for w
  proof (rule stage_int [OF that], goal_cases)
    case (3 rs ts c1)
    then show ?case using computes_divide_exact [OF 3(3) rv(2) [OF 3(1)], of "ts ! 0"] 3(2) [of 0] g by (simp add: vals)
  qed simp_all
  have s4: "run_ok (on_int 3 (\<lambda>rs ts. always (phy_bigint_divide_exact (br_num r) (ts ! 1))) w) (stage c (0, 1) [g, h, ?a, ?b, 0, ?d]) ?F"
    if "stage c (0, 1) [g, h, ?a, 0, 0, ?d] w" for w
  proof (rule stage_int [OF that], goal_cases)
    case (3 rs ts c1)
    then show ?case using computes_divide_exact [OF 3(3) rv(1) [OF 3(1)], of "ts ! 1"] 3(2) [of 1] g by (simp add: vals)
  qed simp_all
  have s5: "run_ok (on_int 4 (\<lambda>rs ts. always (phy_bigint_divide_exact (br_den l) (ts ! 1))) w) (stage c (0, 1) [g, h, ?a, ?b, ?c, ?d]) ?F"
    if "stage c (0, 1) [g, h, ?a, ?b, 0, ?d] w" for w
  proof (rule stage_int [OF that], goal_cases)
    case (3 rs ts c1)
    then show ?case using computes_divide_exact [OF 3(3) lv(2) [OF 3(1)], of "ts ! 1"] 3(2) [of 1] g by (simp add: vals)
  qed simp_all
  let ?ys = "[g, h, ?a, ?b, ?c, ?d]"
  have s6: "run_ok (on_num 0 (\<lambda>rs ts. always (phy_bigint_multiply (ts ! 2) (ts ! 3))) w) (stage c (?a * ?b, 1) ?ys) ?F"
    if "stage c (0, 1) ?ys w" for w
  proof (rule stage_num [OF that], goal_cases)
    case (1 rs ts c1)
    then show ?case using computes_multiply [OF 1(3), of "ts ! 2" "ts ! 3"] 1(2) [of 2] 1(2) [of 3] resources [OF 1(1)] by simp
  qed
  have s7: "run_ok (on_den 0 (\<lambda>rs ts. always (phy_bigint_multiply (ts ! 4) (ts ! 5))) w) (stage c (?a * ?b, ?c * ?d) ?ys) ?F"
    if "stage c (?a * ?b, 1) ?ys w" for w
  proof (rule stage_den [OF that], goal_cases)
    case (1 rs ts c1)
    then show ?case using computes_multiply [OF 1(3), of "ts ! 4" "ts ! 5"] 1(2) [of 4] 1(2) [of 5] resources [OF 1(1)] by simp
  qed
  have nz: "?c * ?d \<noteq> 0" using pos g by (auto simp: dvd_div_eq_0_iff)
  have "Fract (?a * ?b) (?c * ?d) = rval l * rval r"
  proof -
    obtain x y z u where xy: "ln = g * x" "rd = g * y" "rn = h * z" "ld = h * u" using g(2,3,5,6) by (elim dvdE)
    then have "y \<noteq> 0" "u \<noteq> 0" using pos by auto
    then show ?thesis using g(1,4) by (simp add: rval_def vals xy eq_rat algebra_simps)
  qed
  note last = normalize_last [OF _ nz this]
  have steps: "run_ok (run_steps (multiply_steps l r) w) (\<lambda>w. \<exists>ys. stage c (quotient_of (rval l * rval r)) ys w) ?F"
    if w: "stage c (0, 1) (replicate 6 0) w" for w
    unfolding multiply_steps_def
    by (rule run_steps_Cons, rule s0, use w in \<open>simp add: eval_nat_numeral\<close>, rule run_steps_Cons, erule s1, rule run_steps_Cons, erule s2,
        rule run_steps_Cons, erule s3, rule run_steps_Cons, erule s4, rule run_steps_Cons, erule s5,
        rule run_steps_Cons, erule s6, rule run_steps_Cons, erule s7, erule last)
  have "phy_bigrat_multiply l r (out, c) = map_option (rat_finish out) (work_run 1 6 (multiply_steps l r) c)"
    using l r out by (simp add: phy_bigrat_multiply_def rat_compatible_iff operand_def)
  then show ?thesis using rat_operation [OF ok out(1) steps] by simp
qed

section \<open>Operations on the two parts\<close>

lemma two_parts:
  assumes ok: "ctx_ok c" and out: "owned c out"
    and f: "\<And>c1 v. same_env c c1 \<Longrightarrow> ready c1 v \<Longrightarrow> computes c1 f v x E"
    and g: "\<And>c1 v. same_env c c1 \<Longrightarrow> ready c1 v \<Longrightarrow> computes c1 g v y E"
    and E: "\<And>st. resource_failure c st \<Longrightarrow> E st"
  shows "rat_settled out c (x, y) E
    (map_option (rat_finish out) (work_run 1 0 [on_num 0 (\<lambda>rs ts. f), on_den 0 (\<lambda>rs ts. g)] c))"
    and "(y = 0 \<Longrightarrow> E PHY_ERR_DOMAIN) \<Longrightarrow> rat_settled out c (quotient_of (Fract x y)) E
      (map_option (rat_finish out) (work_run 1 0 [on_num 0 (\<lambda>rs ts. f), on_den 0 (\<lambda>rs ts. g), normalize_rat] c))"
proof -
  have s0: "run_ok (on_num 0 (\<lambda>rs ts. f) w) (stage c (x, 1) []) (failed c E)" if "stage c (0, 1) [] w" for w
    by (rule stage_num [OF that]) (rule f)
  have s1: "run_ok (on_den 0 (\<lambda>rs ts. g) w) (stage c (x, y) []) (failed c E)" if "stage c (x, 1) [] w" for w
    by (rule stage_den [OF that]) (rule g)
  have steps: "run_ok (run_steps [on_num 0 (\<lambda>rs ts. f), on_den 0 (\<lambda>rs ts. g)] w) (\<lambda>w. \<exists>ys. stage c (x, y) ys w) (failed c E)"
    if w: "stage c (0, 1) (replicate 0 0) w" for w
    by (rule run_steps_Cons, rule s0, use w in simp, rule run_steps_Cons, erule s1, erule stage_done)
  show "rat_settled out c (x, y) E (map_option (rat_finish out) (work_run 1 0 [on_num 0 (\<lambda>rs ts. f), on_den 0 (\<lambda>rs ts. g)] c))"
    by (rule rat_operation [OF ok out steps E])
  assume z: "y = 0 \<Longrightarrow> E PHY_ERR_DOMAIN"
  have s2: "run_ok (normalize_rat w) (stage c (quotient_of (Fract x y)) []) (failed c E)" if "stage c (x, y) [] w" for w
    by (rule run_ok_mono [OF stage_normalize [OF that]]) (use z E in \<open>auto elim!: failed_mono split: if_splits\<close>)
  have steps: "run_ok (run_steps [on_num 0 (\<lambda>rs ts. f), on_den 0 (\<lambda>rs ts. g), normalize_rat] w)
      (\<lambda>w. \<exists>ys. stage c (quotient_of (Fract x y)) ys w) (failed c E)" if w: "stage c (0, 1) (replicate 0 0) w" for w
    by (rule run_steps_Cons, rule s0, use w in simp, rule run_steps_Cons, erule s1, rule run_steps_Cons, erule s2, erule stage_done)
  show "rat_settled out c (quotient_of (Fract x y)) E
      (map_option (rat_finish out) (work_run 1 0 [on_num 0 (\<lambda>rs ts. f), on_den 0 (\<lambda>rs ts. g), normalize_rat] c))"
    by (rule rat_operation [OF ok out steps E])
qed

lemma two_parts_zero:
  assumes ok: "ctx_ok c" and out: "owned c out"
    and f: "\<And>c1 v. same_env c c1 \<Longrightarrow> ready c1 v \<Longrightarrow> computes c1 f v x E"
    and g: "\<And>c1 v. same_env c c1 \<Longrightarrow> ready c1 v \<Longrightarrow> computes c1 g v 0 E"
    and E: "\<And>st. resource_failure c st \<Longrightarrow> E st" "E PHY_ERR_DOMAIN"
  shows "rat_settled out c p E
      (map_option (rat_finish out) (work_run 1 0 [on_num 0 (\<lambda>rs ts. f), on_den 0 (\<lambda>rs ts. g), normalize_rat] c))"
proof -
  have s0: "run_ok (on_num 0 (\<lambda>rs ts. f) w) (stage c (x, 1) []) (failed c E)" if "stage c (0, 1) [] w" for w
    by (rule stage_num [OF that]) (rule f)
  have s1: "run_ok (on_den 0 (\<lambda>rs ts. g) w) (stage c (x, 0) []) (failed c E)" if "stage c (x, 1) [] w" for w
    by (rule stage_den [OF that]) (rule g)
  have s2: "run_ok (normalize_rat w) (stage c p []) (failed c E)" if "stage c (x, 0) [] w" for w
    by (rule run_ok_mono [OF stage_normalize_zero [OF that]]) (use E in \<open>auto elim!: failed_mono\<close>)
  have steps: "run_ok (run_steps [on_num 0 (\<lambda>rs ts. f), on_den 0 (\<lambda>rs ts. g), normalize_rat] w)
      (\<lambda>w. \<exists>ys. stage c p ys w) (failed c E)" if w: "stage c (0, 1) (replicate 0 0) w" for w
    by (rule run_steps_Cons, rule s0, use w in simp, rule run_steps_Cons, erule s1, rule run_steps_Cons, erule s2, erule stage_done)
  show ?thesis by (rule rat_operation [OF ok out steps E(1)])
qed

text \<open>The same with the operations on integers.\<close>

lemma env_computes:
  assumes "same_env c c1" "computes c1 f v x (resource_failure c1)" "x = y"
  shows "computes c1 f v y (resource_failure c)"
  using assms resources [OF assms(1)] by simp

lemma set_rat_spec:
  assumes ok: "ctx_ok c" and out: "owned c out" "operand c out"
    and n: "- (2 ^ 63) \<le> n" "n < 2 ^ 63" and d: "- (2 ^ 63) \<le> d" "d < 2 ^ 63"
  shows "d \<noteq> 0 \<Longrightarrow> rat_settled out c (quotient_of (Fract n d)) (resource_failure c) (phy_bigrat_set_i64 n d (out, c))"
    and "d = 0 \<Longrightarrow> rat_settled out c p (\<lambda>st. resource_failure c st \<or> st = PHY_ERR_DOMAIN) (phy_bigrat_set_i64 n d (out, c))"
proof -
  have eq: "phy_bigrat_set_i64 n d (out, c) = map_option (rat_finish out) (work_run 1 0
       [on_num 0 (\<lambda>rs ts. always (phy_bigint_set_i64 n)), on_den 0 (\<lambda>rs ts. always (phy_bigint_set_i64 d)), normalize_rat] c)"
    using out by (simp add: phy_bigrat_set_i64_def context_iff operand_def)
  have set: "computes c1 (always (phy_bigint_set_i64 i)) v i (resource_failure c)"
    if "same_env c c1" "ready c1 v" "- (2 ^ 63) \<le> i" "i < 2 ^ 63" for c1 v i
    by (rule env_computes [OF that(1) computes_set [OF that(2-4)] refl])
  show "rat_settled out c (quotient_of (Fract n d)) (resource_failure c) (phy_bigrat_set_i64 n d (out, c))" if "d \<noteq> 0"
    unfolding eq by (rule two_parts(2) [OF ok out(1)]) (use that n d in \<open>auto intro: set\<close>)
  show "rat_settled out c p (\<lambda>st. resource_failure c st \<or> st = PHY_ERR_DOMAIN) (phy_bigrat_set_i64 n d (out, c))" if "d = 0"
    unfolding eq by (rule two_parts_zero [OF ok out(1)]) (use that n d in \<open>auto intro: computes_mono [OF set]\<close>)
qed

lemma copy_rat_spec:
  assumes ok: "ctx_ok c" and r: "operand c r" and out: "owned c out" "operand c out"
  shows "rat_settled out c (pair r) (resource_failure c) (phy_bigrat_copy r False (out, c))"
proof -
  note rv = operand_parts [OF r]
  have eq: "phy_bigrat_copy r False (out, c) = map_option (rat_finish out) (work_run 1 0 (copy_parts r) c)"
    using out r by (simp add: phy_bigrat_copy_def rat_compatible_iff operand_def)
  show ?thesis unfolding eq copy_parts_def pair_def
    by (rule two_parts(1) [OF ok out(1)])
      (auto intro: env_computes [OF _ computes_copy [OF _ rv(1)] refl] env_computes [OF _ computes_copy [OF _ rv(2)] refl])
qed

lemma negate_rat_spec:
  assumes ok: "ctx_ok c" and r: "operand c r" and out: "owned c out" "operand c out"
  shows "rat_settled out c (- fst (pair r), snd (pair r)) (resource_failure c) (phy_bigrat_negate r (out, c))"
proof -
  note rv = operand_parts [OF r]
  have eq: "phy_bigrat_negate r (out, c) = map_option (rat_finish out) (work_run 1 0
       [on_num 0 (\<lambda>rs ts. always (phy_bigint_negate (br_num r))), on_den 0 (\<lambda>rs ts. always (phy_bigint_copy (br_den r) False))] c)"
    using out r by (simp add: phy_bigrat_negate_def rat_compatible_iff operand_def)
  show ?thesis unfolding eq pair_def fst_conv snd_conv
    by (rule two_parts(1) [OF ok out(1)])
      (auto intro: env_computes [OF _ computes_negate [OF _ rv(1)] refl] env_computes [OF _ computes_copy [OF _ rv(2)] refl])
qed

lemma reciprocal_spec:
  assumes ok: "ctx_ok c" and r: "operand c r" and out: "owned c out" "operand c out"
  shows "if rval r = 0 then phy_bigrat_reciprocal r (out, c) = Some (PHY_ERR_DOMAIN, out, c)
    else rat_settled out c (quotient_of (inverse (rval r))) (resource_failure c) (phy_bigrat_reciprocal r (out, c))"
proof -
  note rv = operand_parts [OF r] and rd = operandD [OF r]
  have z: "rval r = 0 \<longleftrightarrow> ival (br_num r) = 0" using rd(3) by (simp add: rval_def eq_rat Zero_rat_def)
  show ?thesis
  proof (cases "rval r = 0")
    case True
    then show ?thesis using z r out rd(5) by (simp add: phy_bigrat_reciprocal_def rat_compatible_iff operand_def)
  next
    case False
    have eq: "phy_bigrat_reciprocal r (out, c) = map_option (rat_finish out) (work_run 1 0
        [on_num 0 (\<lambda>rs ts. always (phy_bigint_copy (br_den r) False)),
         on_den 0 (\<lambda>rs ts. always (phy_bigint_copy (br_num r) False)), normalize_rat] c)"
      using out r z False rd(5) by (simp add: phy_bigrat_reciprocal_def rat_compatible_iff operand_def)
    have iv: "inverse (rval r) = Fract (ival (br_den r)) (ival (br_num r))" by (simp add: rval_def)
    have "rat_settled out c (quotient_of (inverse (rval r))) (resource_failure c) (phy_bigrat_reciprocal r (out, c))"
      unfolding eq iv
      by (rule two_parts(2) [OF ok out(1)])
        (use z False in \<open>auto intro: env_computes [OF _ computes_copy [OF _ rv(1)] refl] env_computes [OF _ computes_copy [OF _ rv(2)] refl]\<close>)
    then show ?thesis using False by simp
  qed
qed

end
