(* ===== verification/BigRatFieldSpec.thy ===== *)
theory BigRatFieldSpec
  imports BigRatOpsSpec
begin

text \<open>
  The operations on rationals that use other operations on rationals, powers, comparison, and
  assignment from an integer.
\<close>

section \<open>Powers\<close>

lemma exponent_magnitude_nat:
  "- (2 ^ 31) \<le> e \<Longrightarrow> e < 2 ^ 31 \<Longrightarrow> unat (exponent_magnitude e) = nat \<bar>e\<bar>"
  by (simp add: exponent_magnitude_def unat_eq_nat_uint uint_word_of_int)

lemma pow_rat_spec:
  assumes ok: "ctx_ok c" and r: "operand c r" and out: "owned c out" "operand c out"
    and e: "- (2 ^ 31) \<le> e" "e < 2 ^ 31"
  shows "if e < 0 \<and> rval r = 0 then phy_bigrat_pow_i32 r e (out, c) = Some (PHY_ERR_DOMAIN, out, c)
    else rat_settled out c (quotient_of (rval r powi e)) (resource_failure c) (phy_bigrat_pow_i32 r e (out, c))"
proof -
  note rv = operand_parts [OF r] and rd = operandD [OF r]
  define m where "m = exponent_magnitude e"
  have m: "unat m = nat \<bar>e\<bar>" using exponent_magnitude_nat [OF e] by (simp add: m_def)
  have z: "rval r = 0 \<longleftrightarrow> ival (br_num r) = 0" using rd(3) by (simp add: rval_def eq_rat Zero_rat_def)
  let ?u = "if 0 \<le> e then br_num r else br_den r" and ?l = "if 0 \<le> e then br_den r else br_num r"
  show ?thesis
  proof (cases "e < 0 \<and> rval r = 0")
    case True
    then show ?thesis using z r out rd(5) by (simp add: phy_bigrat_pow_i32_def rat_compatible_iff operand_def)
  next
    case False
    have eq: "phy_bigrat_pow_i32 r e (out, c) = map_option (rat_finish out) (work_run 1 0
        [on_num 0 (\<lambda>rs ts. always (phy_bigint_pow_u32 ?u m)), on_den 0 (\<lambda>rs ts. always (phy_bigint_pow_u32 ?l m)), normalize_rat] c)"
      using out r z False rd(5) by (auto simp: phy_bigrat_pow_i32_def rat_compatible_iff operand_def Let_def m_def)
    have pw: "Fract a b ^ k = Fract (a ^ k) (b ^ k)" for a b k by (induction k) (simp_all add: One_rat_def)
    have iv: "rval r powi e = Fract (ival ?u ^ nat \<bar>e\<bar>) (ival ?l ^ nat \<bar>e\<bar>)"
      by (simp add: power_int_def rval_def pw)
    have nz: "ival ?l ^ nat \<bar>e\<bar> \<noteq> 0" using False z rd(3) by auto
    have "rat_settled out c (quotient_of (rval r powi e)) (resource_failure c) (phy_bigrat_pow_i32 r e (out, c))"
      unfolding eq iv
    proof (rule two_parts(2) [OF ok out(1)], goal_cases)
      case (1 c1 v)
      have "phy_bigint_shallow_valid c1 ?u" using rv [OF 1(1)] by simp
      from computes_pow [OF 1(2) this, of m] show ?case unfolding m by (rule env_computes [OF 1(1) _ refl])
    next
      case (2 c1 v)
      have "phy_bigint_shallow_valid c1 ?l" using rv [OF 2(1)] by simp
      from computes_pow [OF 2(2) this, of m] show ?case unfolding m by (rule env_computes [OF 2(1) _ refl])
    qed (use nz in auto)
    then show ?thesis unfolding if_not_P [OF False] .
  qed
qed

section \<open>From an integer\<close>

lemma set_bigint_spec:
  assumes ok: "ctx_ok c" and v: "phy_bigint_shallow_valid c v" and out: "owned c out" "operand c out"
  shows "rat_settled out c (ival v, 1) (resource_failure c) (phy_bigrat_set_bigint v (out, c))"
proof -
  let ?f = "\<lambda>rs ts. always (phy_bigint_copy v False)"
  have eq: "phy_bigrat_set_bigint v (out, c) = map_option (rat_finish out) (work_run 1 0 [on_num 0 ?f] c)"
    using out v by (simp add: phy_bigrat_set_bigint_def context_iff operand_def phy_bigint_is_initialized_def
        phy_bigint_shallow_valid_def phy_bigint_handle_valid_def)
  have s0: "run_ok (on_num 0 ?f w) (stage c (ival v, 1) []) (failed c (resource_failure c))" if "stage c (0, 1) [] w" for w
  proof (rule stage_num [OF that])
    fix c1 and rs :: "phy_bigrat list" assume "same_env c c1" "ready c1 (br_num (rs ! 0))"
    then show "computes c1 (always (phy_bigint_copy v False)) (br_num (rs ! 0)) (ival v) (resource_failure c)"
      using env_computes [OF _ computes_copy refl] shallow_valid_env v by blast
  qed
  have "run_ok (run_steps [on_num 0 ?f] w) (\<lambda>w. \<exists>ys. stage c (ival v, 1) ys w) (failed c (resource_failure c))"
    if w: "stage c (0, 1) (replicate 0 0) w" for w
    by (rule run_steps_Cons, rule s0, use w in simp, erule stage_done)
  then show ?thesis unfolding eq using rat_operation [OF ok out(1)] by blast
qed

section \<open>Through a temporary\<close>

lemma settled_computes_rat:
  assumes "rat_settled r c p E (f (r, c))" "ec_depth c \<noteq> 0" "live_rat c r"
  shows "computes_rat c f r p E"
proof -
  have "begun c = c" using assms(2) by simp
  then show ?thesis
    using assms(1,3) unfolding rat_settled_def computes_rat_def
    by (elim run_ok_mono) (auto simp: live_rat_def)
qed

lemma owned_later:
  assumes "owned c out" "shifted (entered c) [] c1 vs"
  shows "owned c1 out"
proof -
  have e: "same_env c c1" using shiftedD(1) [OF assms(2)] same_env_trans [OF entered_env] by blast
  show ?thesis using assms live_rat_env [OF e] by (auto simp: owned_def owns_def shifted_def)
qed

lemma rat_valid_env: "same_env c c1 \<Longrightarrow> rational_valid_shallow c1 r \<longleftrightarrow> rational_valid_shallow c r"
  using live_rat_env [of c c1 r] by (simp add: rational_valid_iff)

lemma operand_env: "same_env c c1 \<Longrightarrow> operand c r \<Longrightarrow> operand c1 r"
  by (simp add: operand_def rat_valid_env)

lemma stage_unique: "stage c p ys w \<Longrightarrow> stage c q ys w \<Longrightarrow> p = q"
  by (auto simp: stage_def worth_def split: prod.splits)

lemma run_never:
  assumes "run_ok r (Q (0 :: int)) E" "run_ok r (Q 1) E" "\<And>s. Q 0 s \<Longrightarrow> Q 1 s \<Longrightarrow> False"
  shows "run_ok r (\<lambda>s. False) E"
  using assms by (cases r) (auto simp: run_ok_def split: if_splits)

text \<open>
  What follows the work of a temporary: with \<open>good\<close>, the temporary is worth \<open>p\<close>; without it,
  the work cannot have succeeded.
\<close>

lemma through_from:
  assumes ok: "ctx_ok c" and out: "owned c out" "operand c out"
    and W: "run_ok run (\<lambda>w. good \<and> stage c p [] w) (failed c E)"
    and g: "\<And>c1 t. good \<Longrightarrow> same_env c c1 \<Longrightarrow> ctx_ok c1 \<Longrightarrow> owned c1 out \<Longrightarrow> operand c1 out \<Longrightarrow> live_rat c1 t \<Longrightarrow>
      pair t = p \<Longrightarrow> rat_settled out c1 q E (g t (out, c1))"
  shows "rat_settled out c q E (through out run (\<lambda>rs. g (rs ! 0)))"
proof -
  let ?F = "failed c E"
  from run_okE [OF W] obtain st w where r: "run = Some (st, w)" "st = PHY_OK \<Longrightarrow> good \<and> stage c p [] w"
    "st \<noteq> PHY_OK \<Longrightarrow> ?F st w" unfolding failed_eq by blast
  obtain rs ts c1 where w: "w = (rs, ts, c1)" by (cases w)
  have "dirty (entered c) [] 1 w" using r(2,3) worth_dirty [of "entered c" "[]" "[Some p]" "[]" w] by (cases "st = PHY_OK") (auto simp: stage_def failed_def)
  then have sh: "shifted (entered c) [] c1 (flat rs ts)" "length rs = 1" "\<forall>r \<in> set rs. br_live r \<or> r = null_bigrat"
    by (simp_all add: dirty_def w)
  then obtain t where t: "rs = [t]" by (auto simp: length_Suc_conv)
  have sh': "shifted (entered c) [] c1 (parts t @ ts)" using sh(1) by (simp add: t flat_def)
  have e1: "same_env c c1" using shiftedD(1) [OF sh'] same_env_trans [OF entered_env] by blast
  have d1: "ec_depth c1 \<noteq> 0" "ctx_ok c1" using shiftedD(2,3) [OF sh'] by simp_all
  have so: "\<forall>v \<in> set (parts out). slot_ok (entered c) v"
    using live_slots out(1) slot_env [OF entered_env] by (auto simp: owned_def)
  have o1: "owned c1 out" by (rule owned_later [OF out(1) sh'])
  define res where "res = (if st = PHY_OK then g t (out, c1) else Some (st, out, c1))"
  have inner: "run_ok res (\<lambda>(out', c2). shifted c1 (parts out) c2 (parts out') \<and> live_rat c2 out' \<and> pair out' = q)
     (\<lambda>st (out', c2). out' = out \<and> shifted c1 (parts out) c2 (parts out') \<and> E st)"
  proof (cases "st = PHY_OK")
    case True
    note a = worth_rat(3,4) [OF conjunct2 [OF r(2) [OF True, unfolded w t stage_def]], of 0 p, simplified]
    have "begun c1 = c1" using d1(1) by simp
    then show ?thesis
      using g [OF conjunct1 [OF r(2) [OF True]] e1 d1(2) o1 operand_env [OF e1 out(2)] a] True
      unfolding rat_settled_def res_def by (simp, elim run_ok_mono) auto
  next
    case False
    then show ?thesis
      using r(3) shifted_refl [OF d1(2)] live_slots o1 by (auto simp: res_def failed_def owned_def)
  qed
  then obtain st2 out' c2 where i: "res = Some (st2, out', c2)" "shifted c1 (parts out) c2 (parts out')"
    "st2 = PHY_OK \<Longrightarrow> live_rat c2 out' \<and> pair out' = q" "st2 \<noteq> PHY_OK \<Longrightarrow> out' = out \<and> E st2"
    by (rule run_okE) (auto split: prod.splits if_splits)
  have "shifted (entered c) (parts out) c2 (parts out' @ (parts t @ ts))"
    using shifted_frame [of "entered c" "parts out" c1 "[]" "parts out" "parts t @ ts", simplified] shifted_prefix [OF sh' so] i(2) by simp
  then obtain c3 where c3: "phy_exact_operation_end (release (rev (parts t) @ rev ts) c2) st2 = (st2, c3)"
    "shifted (begun c) (parts out) c3 (parts out')"
    using end_shifted [OF ok, of "parts out" c2 "parts out'" "parts t @ ts" "rev (parts t) @ rev ts" st2] out(1) by (auto simp: owned_def)
  have cl: "rat_close [t] ts c2 = release (rev (parts t) @ rev ts) c2"
  proof (cases "br_live t")
    case True
    then show ?thesis using rat_destroy_release [of t c2] by (simp add: rat_close_def release_append)
  next
    case False
    then have "t = null_bigrat" using sh(3) t by simp
    then show ?thesis using False release_null [of c2] release_append [of "rev ts" "rev (parts null_bigrat)" c2]
      by (simp add: rat_close_def)
  qed
  have eq: "through out (run) (\<lambda>rs. g (rs ! 0)) = Some (st2, out', c3)"
    unfolding through_def r(1) w t option.case prod.case nth_Cons_0 res_def [symmetric] i(1) option.map cl c3(1) ..
  have "live_rat c3 out'" if "st2 = PHY_OK"
  proof -
    have "same_env c1 c2" "same_env c c3" using shiftedD(1) [OF i(2)] shiftedD(1) [OF c3(2)] same_env_trans [OF begun_env(1)] by blast+
    then have "same_env c2 c3" using e1 by (simp add: same_env_def)
    then show ?thesis using i(3) [OF that] live_rat_env by blast
  qed
  then show ?thesis using i(3,4) c3(2) unfolding rat_settled_def eq by auto
qed

text \<open>
  The temporary gets the value \<open>p\<close> from \<open>f\<close>, then \<open>g\<close> writes the output, reading it.
\<close>

lemma on_rat_work:
  assumes ok: "ctx_ok c" and E: "\<And>st. resource_failure c st \<Longrightarrow> E st"
    and f: "\<And>c1 t. same_env c c1 \<Longrightarrow> ctx_ok c1 \<Longrightarrow> ec_depth c1 \<noteq> 0 \<Longrightarrow> owned c1 t \<Longrightarrow> operand c1 t \<Longrightarrow>
      computes_rat c1 f t p E"
  shows "run_ok (work_run 1 0 [on_rat 0 (\<lambda>rs ts. f)] c) (stage c p []) (failed c E)"
proof -
  let ?F = "failed c E"
  have s: "run_ok (run_steps [on_rat 0 (\<lambda>rs ts. f)] w) (stage c p []) ?F" if w: "stage c (0, 1) [] w" for w
  proof (rule run_steps_Cons)
    have "computes_rat c1 f (rs ! 0) p E" if b: "worth (entered c) [] [Some (0, 1)] (map Some []) (rs, ts, c1)" for rs ts c1
    proof (rule f)
      show "same_env c c1" using stage_env [of c "(0, 1)" "[]" rs ts c1] b by (simp add: stage_def)
      show "ctx_ok c1" "ec_depth c1 \<noteq> 0" using worth_context [OF b] by simp_all
      show "owned c1 (rs ! 0)" using worth_owned [OF b, of 0 "(0, 1)"] by simp
      show "operand c1 (rs ! 0)" using worth_rat(3,4) [OF b, of 0 "(0, 1)"] by (simp add: operand_def rational_valid_iff pair_def)
    qed
    then have "run_ok (on_rat 0 (\<lambda>rs ts. f) w) (worth (entered c) [] ([Some (0, 1)][0 := Some p]) (map Some []))
        (\<lambda>st w. dirty (entered c) [] (length [Some (0 :: int, 1 :: int)]) w \<and> E st)"
      by (intro step_rat [OF w [unfolded stage_def]]) simp_all
    then show "run_ok (on_rat 0 (\<lambda>rs ts. f) w) (stage c p []) ?F" by (simp add: stage_eq failed_eq)
  qed simp
  show ?thesis unfolding stage_eq failed_eq
    by (rule work_run_ok [OF ok]) (use s E in \<open>simp_all add: stage_eq failed_eq\<close>)
qed

lemma through_spec:
  assumes ok: "ctx_ok c" and out: "owned c out" "operand c out"
    and f: "\<And>c1 t. same_env c c1 \<Longrightarrow> ctx_ok c1 \<Longrightarrow> ec_depth c1 \<noteq> 0 \<Longrightarrow> owned c1 t \<Longrightarrow> operand c1 t \<Longrightarrow>
      computes_rat c1 f t p (resource_failure c)"
    and g: "\<And>c1 t. same_env c c1 \<Longrightarrow> ctx_ok c1 \<Longrightarrow> owned c1 out \<Longrightarrow> operand c1 out \<Longrightarrow> live_rat c1 t \<Longrightarrow> pair t = p \<Longrightarrow>
      rat_settled out c1 q (resource_failure c) (g t (out, c1))"
  shows "rat_settled out c q (resource_failure c) (through out (work_run 1 0 [on_rat 0 (\<lambda>rs ts. f)] c) (\<lambda>rs. g (rs ! 0)))"
  by (rule through_from [where good = True and p = p, OF ok out]) (use on_rat_work [OF ok _ f] g in simp_all)

text \<open>A temporary that never gets a value.\<close>

lemma through_never:
  assumes ok: "ctx_ok c" and out: "owned c out" "operand c out" and E: "\<And>st. resource_failure c st \<Longrightarrow> E st"
    and f: "\<And>c1 t p. same_env c c1 \<Longrightarrow> ctx_ok c1 \<Longrightarrow> owned c1 t \<Longrightarrow> operand c1 t \<Longrightarrow> computes_rat c1 f t p E"
  shows "rat_settled out c q E (through out (work_run 1 0 [on_rat 0 (\<lambda>rs ts. f)] c) (\<lambda>rs. g (rs ! 0)))"
proof (rule through_from [where good = False and p = "(0, 1)", OF ok out])
  have "run_ok (work_run 1 0 [on_rat 0 (\<lambda>rs ts. f)] c) (stage c (i, 1) []) (failed c E)" for i
    by (rule on_rat_work [OF ok E]) (use f in blast)+
  then have "run_ok (work_run 1 0 [on_rat 0 (\<lambda>rs ts. f)] c) (\<lambda>w. False) (failed c E)"
    by (intro run_never [where Q = "\<lambda>i. stage c (i, 1) []"]) (auto dest: stage_unique)
  then show "run_ok (work_run 1 0 [on_rat 0 (\<lambda>rs ts. f)] c) (\<lambda>w. False \<and> stage c (0, 1) [] w) (failed c E)" by simp
qed simp

lemma subtract_rat_spec:
  assumes ok: "ctx_ok c" and l: "operand c l" and r: "operand c r" and out: "owned c out" "operand c out"
  shows "rat_settled out c (quotient_of (rval l - rval r)) (resource_failure c) (phy_bigrat_subtract l r (out, c))"
proof -
  have eq: "phy_bigrat_subtract l r (out, c) =
      through out (work_run 1 0 [on_rat 0 (\<lambda>rs ts. phy_bigrat_negate r)] c) (\<lambda>rs. phy_bigrat_add l (rs ! 0))"
    using l r out by (simp add: phy_bigrat_subtract_def rat_compatible_iff operand_def)
  show ?thesis unfolding eq
  proof (rule through_spec [where p = "(- fst (pair r), snd (pair r))", OF ok out], goal_cases)
    case (1 c1 t)
    then show ?case
      using settled_computes_rat [where f = "phy_bigrat_negate r", OF negate_rat_spec [OF 1(2) operand_env [OF 1(1) r] 1(4,5)] 1(3)] resources [OF 1(1)]
      by (simp add: owned_def)
  next
    case (2 c1 t)
    have p: "ival (br_num t) = - ival (br_num r)" "ival (br_den t) = ival (br_den r)" using 2(6) by (simp_all add: pair_def)
    have t: "operand c1 t" using 2(5) p operandD(3) [OF r] r by (auto simp: operand_def rational_valid_iff)
    have v: "rval t = - rval r" by (simp add: rval_def p)
    show ?case using add_spec [OF 2(2) operand_env [OF 2(1) l] t 2(3,4)] resources [OF 2(1)] v by simp
  qed
qed

lemma divide_rat_spec:
  assumes ok: "ctx_ok c" and l: "operand c l" and r: "operand c r" and out: "owned c out" "operand c out"
    and nz: "rval r \<noteq> 0"
  shows "rat_settled out c (quotient_of (rval l / rval r)) (resource_failure c) (phy_bigrat_divide l r (out, c))"
proof -
  have eq: "phy_bigrat_divide l r (out, c) =
      through out (work_run 1 0 [on_rat 0 (\<lambda>rs ts. phy_bigrat_reciprocal r)] c) (\<lambda>rs. phy_bigrat_multiply l (rs ! 0))"
    using l r out by (simp add: phy_bigrat_divide_def rat_compatible_iff operand_def)
  show ?thesis unfolding eq
  proof (rule through_spec [where p = "quotient_of (inverse (rval r))", OF ok out], goal_cases)
    case (1 c1 t)
    have "rat_settled t c1 (quotient_of (inverse (rval r))) (resource_failure c1) (phy_bigrat_reciprocal r (t, c1))"
      using reciprocal_spec [OF 1(2) operand_env [OF 1(1) r] 1(4,5)] nz by simp
    from settled_computes_rat [where f = "phy_bigrat_reciprocal r", OF this 1(3)] 1(4) show ?case using resources [OF 1(1)] by (simp add: owned_def)
  next
    case (2 c1 t)
    note t = canonical_valid [OF 2(5,6)]
    show ?case using multiply_rat_spec [OF 2(2) operand_env [OF 2(1) l] _ 2(3,4), of t] resources [OF 2(1)] t
      by (simp add: operand_def divide_inverse)
  qed
qed

lemma divide_rat_zero:
  assumes ok: "ctx_ok c" and l: "operand c l" and r: "operand c r" and out: "owned c out" "operand c out"
    and z: "rval r = 0"
  shows "rat_settled out c p (\<lambda>st. resource_failure c st \<or> st = PHY_ERR_DOMAIN) (phy_bigrat_divide l r (out, c))"
proof -
  have eq: "phy_bigrat_divide l r (out, c) =
      through out (work_run 1 0 [on_rat 0 (\<lambda>rs ts. phy_bigrat_reciprocal r)] c) (\<lambda>rs. phy_bigrat_multiply l (rs ! 0))"
    using l r out by (simp add: phy_bigrat_divide_def rat_compatible_iff operand_def)
  show ?thesis unfolding eq
  proof (rule through_never [OF ok out], goal_cases)
    case (2 c1 t p)
    have "phy_bigrat_reciprocal r (t, c1) = Some (PHY_ERR_DOMAIN, t, c1)"
      using reciprocal_spec [OF 2(2) operand_env [OF 2(1) r] 2(3,4)] z by simp
    moreover have "shifted c1 (parts t) c1 (parts t)"
      using shifted_refl [OF 2(2)] live_slots 2(3) by (auto simp: owned_def)
    ultimately show ?case using 2(3) by (simp add: computes_rat_def owned_def live_rat_def)
  qed simp
qed

end
