(* ===== verification/BigRatText.thy ===== *)
theory BigRatText
  imports BigRatFieldSpec BigintWrite
begin

text \<open>
  Comparison of rationals and their decimal text: numerator, and a slash and the denominator
  unless the rational is an integer.
\<close>

section \<open>Comparison\<close>

lemma fraction_order:
  assumes "0 < b" "0 < (d :: int)"
  shows "Fract a b < Fract c d \<longleftrightarrow> a * d < c * b" "Fract a b = Fract c d \<longleftrightarrow> a * d = c * b"
  using assms by (simp_all add: less_rat eq_rat mult.assoc [symmetric] mult_less_cancel_right)

lemma compare_rat_spec:
  assumes ok: "ctx_ok c" and l: "operand c l" and r: "operand c r"
  shows "run_ok (phy_bigrat_compare l r (k0, c))
    (\<lambda>(k, c'). shifted (begun c) [] c' [] \<and> k = (if rval l < rval r then - 1 else if rval l = rval r then 0 else 1))
    (\<lambda>st (k, c'). shifted (begun c) [] c' [] \<and> k = k0 \<and> resource_failure c st)"
proof -
  define x y where "x = ival (br_num l) * ival (br_den r)" and "y = ival (br_num r) * ival (br_den l)"
  let ?fs = "[on_int 0 (\<lambda>rs ts. always (phy_bigint_multiply (br_num l) (br_den r))),
      on_int 1 (\<lambda>rs ts. always (phy_bigint_multiply (br_num r) (br_den l)))]"
  let ?F = "\<lambda>st w. dirty (entered c) [] 0 w \<and> resource_failure c st"
  note lv = operand_parts [OF l] and rv = operand_parts [OF r]
  have env: "same_env c c1" if "worth (entered c) [] [] xs (rs, ts, c1)" for xs rs ts c1
    using same_env_trans [OF entered_env worth_context(4) [OF that]] .
  have s0: "run_ok (hd ?fs w) (worth (entered c) [] [] [Some x, Some 0]) ?F"
    if w: "worth (entered c) [] [] [Some 0, Some 0] w" for w
  proof -
    have "computes c1 (always (phy_bigint_multiply (br_num l) (br_den r))) (ts ! 0) x (resource_failure c)"
      if b: "worth (entered c) [] [] [Some 0, Some 0] (rs, ts, c1)" for rs ts c1
      using computes_multiply [OF worth_int(1) [OF b, of 0 0] lv(1) [OF env [OF b]] rv(2) [OF env [OF b]]] resources [OF env [OF b]]
      by (simp add: x_def)
    then show ?thesis using step_int [OF w, of 0 "\<lambda>rs ts. always (phy_bigint_multiply (br_num l) (br_den r))" x "resource_failure c"] by simp
  qed
  have s1: "run_ok (hd (tl ?fs) w) (worth (entered c) [] [] [Some x, Some y]) ?F"
    if w: "worth (entered c) [] [] [Some x, Some 0] w" for w
  proof -
    have "computes c1 (always (phy_bigint_multiply (br_num r) (br_den l))) (ts ! 1) y (resource_failure c)"
      if b: "worth (entered c) [] [] [Some x, Some 0] (rs, ts, c1)" for rs ts c1
      using computes_multiply [OF worth_int(1) [OF b, of 1 0] rv(1) [OF env [OF b]] lv(2) [OF env [OF b]]] resources [OF env [OF b]]
      by (simp add: y_def)
    then show ?thesis using step_int [OF w, of 1 "\<lambda>rs ts. always (phy_bigint_multiply (br_num r) (br_den l))" y "resource_failure c"] by simp
  qed
  have steps: "run_ok (run_steps ?fs w) (worth (entered c) [] [] [Some x, Some y]) ?F"
    if w: "worth (entered c) [] [] [Some 0, Some 0] w" for w
    by (rule run_steps_Cons, rule s0 [OF w, unfolded list.sel], rule run_steps_Cons, erule s1 [unfolded list.sel]) simp
  have "run_ok (work_run 0 2 ?fs c) (worth (entered c) [] [] [Some x, Some y]) ?F"
    by (rule work_run_ok [OF ok]) (use steps in \<open>simp_all add: numeral_2_eq_2\<close>)
  from run_okE [OF this] obtain st w where r0: "work_run 0 2 ?fs c = Some (st, w)"
    "st = PHY_OK \<Longrightarrow> worth (entered c) [] [] [Some x, Some y] w" "st \<noteq> PHY_OK \<Longrightarrow> ?F st w" by blast
  obtain rs ts c1 where w: "w = (rs, ts, c1)" by (cases w)
  have "dirty (entered c) [] 0 w" using r0(2,3) worth_dirty [of "entered c" "[]" "[]" _ w] by (cases "st = PHY_OK") auto
  then have sh: "shifted (entered c) [] c1 ([] @ ts)" by (auto simp: dirty_def w flat_def)
  obtain c3 where c3: "phy_exact_operation_end (release (rev ts) c1) st = (st, c3)" "shifted (begun c) [] c3 []"
    using end_shifted [OF ok sh _ mset_rev, of st] by (auto simp: owns_def)
  have eq: "phy_bigrat_compare l r (k0, c) = Some (st, if st = PHY_OK then phy_bigint_compare c1 (ts ! 0) (ts ! 1) else k0, c3)"
  proof -
    have "\<not> \<not> rat_compatible2 c l r" using l r by (simp add: rat_compatible_iff operand_def)
    then show ?thesis
      unfolding phy_bigrat_compare_def prod.case r0(1) option.map w Let_def c3(1) by (simp only: if_False)
  qed
  show ?thesis
  proof (cases "st = PHY_OK")
    case True
    note b = r0(2) [OF True, unfolded w]
    have "phy_bigint_compare c1 (ts ! 0) (ts ! 1) = sgn (x - y)"
      using compare_spec [of c1 "ts ! 0" "ts ! 1"] worth_int(2,3) [OF b, of 0 x] worth_int(2,3) [OF b, of 1 y] by simp
    moreover have "rval l < rval r \<longleftrightarrow> x < y" "rval l = rval r \<longleftrightarrow> x = y"
      using fraction_order operandD(3) [OF l] operandD(3) [OF r] by (simp_all add: rval_def x_def y_def)
    ultimately show ?thesis using True c3(2) unfolding eq run_ok_some by (simp add: sgn_if)
  next
    case False
    then show ?thesis using r0(3) c3(2) unfolding eq run_ok_some by simp
  qed
qed

section \<open>Reading\<close>

lemma computes_read_none:
  assumes r: "ready c v" and n: "read_number str = None"
  shows "computes c (always (phy_bigint_read (Some str))) v x (\<lambda>st. st = PHY_ERR_PARSE)"
  by (rule computes_moved [OF r always_def], rule outcome_mono [OF read_spec [OF readyD [OF r], of str]])
    (use n in \<open>auto split: if_splits\<close>)

lemma run_steps_never: "run_ok (f w) (\<lambda>s. False) E \<Longrightarrow> run_ok (run_steps (f # fs) w) Q E"
  by (rule run_steps_Cons [where Q = "\<lambda>s. False"]) simp_all

lemma read_rat_spec:
  assumes ok: "ctx_ok c" and out: "owned c out" "operand c out"
  shows "case (read_number s, read_number t) of
      (Some n, Some d) \<Rightarrow> if d = 0 then rat_settled out c p (\<lambda>st. resource_failure c st \<or> st = PHY_ERR_DOMAIN) (phy_bigrat_read (Some s) (Some t) (out, c))
        else rat_settled out c (quotient_of (Fract n d)) (resource_failure c) (phy_bigrat_read (Some s) (Some t) (out, c))
    | _ \<Rightarrow> rat_settled out c p (\<lambda>st. resource_failure c st \<or> st = PHY_ERR_PARSE) (phy_bigrat_read (Some s) (Some t) (out, c))"
proof -
  let ?f = "always (phy_bigint_read (Some s))" and ?g = "always (phy_bigint_read (Some t))"
  let ?E = "\<lambda>st. resource_failure c st \<or> st = PHY_ERR_PARSE"
  have eq: "phy_bigrat_read (Some s) (Some t) (out, c) = map_option (rat_finish out) (work_run 1 0
       [on_num 0 (\<lambda>rs ts. ?f), on_den 0 (\<lambda>rs ts. ?g), normalize_rat] c)"
    using out by (simp add: phy_bigrat_read_def context_iff operand_def)
  have rd: "computes c1 (always (phy_bigint_read (Some str))) v (the (read_number str)) ?E"
    if "same_env c c1" "ready c1 v" for str c1 v
    by (rule computes_mono [OF computes_read [OF that(2)]]) (auto simp: resources [OF that(1)] split: if_splits)
  have rd': "computes c1 (always (phy_bigint_read (Some str))) v n (resource_failure c)"
    if "same_env c c1" "ready c1 v" "read_number str = Some n" for str c1 v n
    using computes_read [OF that(2), of str] by (simp add: resources [OF that(1)] that(3))
  have rn: "computes c1 (always (phy_bigint_read (Some str))) v x ?E"
    if "same_env c c1" "ready c1 v" "read_number str = None" for str c1 v x
    by (rule computes_mono [OF computes_read_none [OF that(2,3)]]) simp
  show ?thesis
  proof (cases "read_number s = None \<or> read_number t = None")
    case False
    then obtain n d where nd: "read_number s = Some n" "read_number t = Some d" by auto
    have "rat_settled out c (quotient_of (Fract n d)) (resource_failure c) (phy_bigrat_read (Some s) (Some t) (out, c))" if "d \<noteq> 0"
      unfolding eq by (rule two_parts(2) [OF ok out(1)]) (use that nd in \<open>auto intro: rd'\<close>)
    moreover have "rat_settled out c p (\<lambda>st. resource_failure c st \<or> st = PHY_ERR_DOMAIN) (phy_bigrat_read (Some s) (Some t) (out, c))" if "d = 0"
      unfolding eq by (rule two_parts_zero [OF ok out(1)]) (use that nd in \<open>auto intro: computes_mono [OF rd']\<close>)
    ultimately show ?thesis by (simp add: nd)
  next
    case none: True
    have steps: "run_ok (run_steps [on_num 0 (\<lambda>rs ts. ?f), on_den 0 (\<lambda>rs ts. ?g), normalize_rat] w) (\<lambda>w. \<exists>ys. stage c p ys w) (failed c ?E)"
      if w: "stage c (0, 1) (replicate 0 0) w" for w
    proof (cases "read_number s = None")
      case True
      have s0: "run_ok (on_num 0 (\<lambda>rs ts. ?f) w) (stage c (x, 1) []) (failed c ?E)" for x
        using w by (intro stage_num [where xs = "[]"]) (auto intro: rn [OF _ _ True])
      show ?thesis
        by (rule run_steps_never, rule run_never [where Q = "\<lambda>x. stage c (x, 1) []", OF s0 s0]) (auto dest: stage_unique)
    next
      case False
      then have t: "read_number t = None" using none by (elim disjE) contradiction
      let ?n = "the (read_number s)"
      have s0: "run_ok (on_num 0 (\<lambda>rs ts. ?f) w) (stage c (?n, 1) []) (failed c ?E)"
        using w by (intro stage_num [where xs = "[]"]) (auto intro: rd)
      have s1: "run_ok (on_den 0 (\<lambda>rs ts. ?g) w') (stage c (?n, x) []) (failed c ?E)" if "stage c (?n, 1) [] w'" for w' x
        by (rule stage_den [OF that]) (rule rn [OF _ _ t])
      show ?thesis
      proof (rule run_steps_Cons, rule s0, rule run_steps_never)
        fix w' assume "stage c (?n, 1) [] w'"
        from s1 [OF this] show "run_ok (on_den 0 (\<lambda>rs ts. ?g) w') (\<lambda>s. False) (failed c ?E)"
          by (intro run_never [where Q = "\<lambda>x. stage c (?n, x) []"]) (auto dest: stage_unique)
      qed
    qed
    have "rat_settled out c p ?E (phy_bigrat_read (Some s) (Some t) (out, c))"
      unfolding eq using rat_operation [OF ok out(1) steps] by blast
    then show ?thesis using none by (auto split: option.splits)
  qed
qed

end
