(* ===== verification/BigRatWrite.thy ===== *)
theory BigRatWrite
  imports BigRatText
begin

text \<open>
  Writing a rational: the size is found by two dry runs, the text is composed in a block and
  copied into the caller's buffer only when everything succeeded.
\<close>

section \<open>The text\<close>

definition rat_text :: "phy_bigrat \<Rightarrow> string" where
  "rat_text r = decimal_text (ival (br_num r)) @
     (if ival (br_den r) = 1 then [] else ''/'' @ decimal_text (ival (br_den r)))"

text \<open>\<open>rests n c c'\<close>: only steps were spent, and \<open>n\<close> more bytes are charged.\<close>

definition rests :: "nat \<Rightarrow> phy_exact_context \<Rightarrow> phy_exact_context \<Rightarrow> bool" where
  "rests n c c' \<longleftrightarrow> (\<exists>k. spent k c c') \<and> ec_bytes c' = ec_bytes c + n"

lemma rests_refl: "ctx_ok c \<Longrightarrow> rests 0 c c"
  by (auto simp: rests_def intro: spent_refl)

lemma rests_trans: "rests m c c1 \<Longrightarrow> rests n c1 c2 \<Longrightarrow> rests (m + n) c c2"
  unfolding rests_def using spent_trans by fastforce

lemma restsD:
  assumes "rests n c c'"
  shows "same_env c c'" "ctx_ok c'" "ec_depth c' = ec_depth c" "ec_bytes c' = ec_bytes c + n"
  using assms by (auto simp: rests_def dest: spentD)

lemma nested_write:
  assumes c: "ctx_ok c" "ec_depth c \<noteq> 0" and v: "phy_bigint_shallow_valid c v"
    and w: "phy_bigint_write v n (buffer, q, c) = (st, buffer', req, c')"
  shows "rests 0 c c'"
    "st = PHY_OK \<Longrightarrow> req = length (decimal_text (ival v)) + 1 \<and> buffer' = map_option (store_text (decimal_text (ival v))) buffer"
    "st \<noteq> PHY_OK \<Longrightarrow> resource_failure c st"
proof -
  have b: "begun c = c" using c(2) by simp
  note s = write_spec [OF c(1) v, of n buffer q, unfolded w written_def prod.case Let_def b]
  show "rests 0 c c'" using s by (auto simp: rests_def)
  show "st = PHY_OK \<Longrightarrow> req = length (decimal_text (ival v)) + 1 \<and> buffer' = map_option (store_text (decimal_text (ival v))) buffer"
    using s by simp
  show "st \<noteq> PHY_OK \<Longrightarrow> resource_failure c st"
    using s by (auto split: if_splits dest: shortage_resource simp: resource_failure_def)
qed

section \<open>The block\<close>

lemma write_block_spec:
  assumes c: "ctx_ok c" "ec_depth c \<noteq> 0" and v: "operand c v"
    and len: "need = length (rat_text v) + 1" "nr = length (decimal_text (ival (br_num v))) + 1"
    and w: "write_block v need nr (block, c) = (st, bytes, c')"
  shows "rests 0 c c'" "st \<noteq> PHY_OK \<Longrightarrow> resource_failure c st"
    "st = PHY_OK \<Longrightarrow> take need bytes = rat_text v @ [CHR 0x00]"
proof -
  let ?n = "decimal_text (ival (br_num v))" and ?d = "decimal_text (ival (br_den v))"
  note vd = operandD [OF v]
  have one: "is_one (br_den v) \<longleftrightarrow> ival (br_den v) = 1" by (rule is_one_iff [OF vd(2,3)])
  obtain s1 b1 q1 c1 where w1: "phy_bigint_write (br_num v) need (Some block, 0, c) = (s1, b1, q1, c1)"
    by (metis prod_cases4)
  note n1 = nested_write [OF c vd(1) w1]
  have r1: "ctx_ok c1" "ec_depth c1 \<noteq> 0" using restsD [OF n1(1)] c by simp_all
  have v1: "phy_bigint_shallow_valid c1 (br_den v)" using vd(2) shallow_valid_env [OF restsD(1) [OF n1(1)]] by blast
  have all: "rests 0 c c' \<and> (st \<noteq> PHY_OK \<longrightarrow> resource_failure c st) \<and>
    (st = PHY_OK \<longrightarrow> take need bytes = rat_text v @ [CHR 0x00])"
  proof (cases "s1 = PHY_OK \<and> \<not> is_one (br_den v)")
    case False
    then have "st = s1" "bytes = the b1" "c' = c1" using w by (auto simp: write_block_def w1)
    then show ?thesis using n1 False one by (auto simp: len rat_text_def store_text_def)
  next
    case True
    let ?b2 = "(the b1)[nr - 1 := CHR ''/'']"
    obtain s2 b3 q2 c2 where w2: "phy_bigint_write (br_den v) (need - nr) (Some (drop nr ?b2), 0, c1) = (s2, b3, q2, c2)" by (metis prod_cases4)
    note n2 = nested_write [OF r1 v1 w2]
    have st: "st = s2" "bytes = take nr ?b2 @ the b3" "c' = c2"
      using w True by (simp_all add: write_block_def w1 Let_def w2 [unfolded One_nat_def])
    have "the b1 = ?n @ [CHR 0x00] @ drop (length ?n + 1) block" using n1(2) True by (simp add: store_text_def)
    then have b2: "take nr ?b2 = ?n @ [CHR ''/'']" by (simp add: len(2) list_update_append)
    have "take need bytes = rat_text v @ [CHR 0x00]" if "s2 = PHY_OK"
    proof -
      have "the b3 = ?d @ [CHR 0x00] @ drop (length ?d + 1) (drop nr ?b2)"
        using n2(2) [OF that] by (simp add: store_text_def)
      then show ?thesis unfolding st(2) b2 using True one by (simp add: len(1) rat_text_def)
    qed
    moreover have "rests 0 c c'" using rests_trans [OF n1(1) n2(1)] st(3) by simp
    ultimately show ?thesis using n2(3) st(1) resources [OF restsD(1) [OF n1(1)]] by auto
  qed
  show "rests 0 c c'" "st \<noteq> PHY_OK \<Longrightarrow> resource_failure c st"
    "st = PHY_OK \<Longrightarrow> take need bytes = rat_text v @ [CHR 0x00]" using all by simp_all
qed

section \<open>The operation\<close>

text \<open>The dry run over both parts.\<close>

lemma dry_run:
  assumes c: "ctx_ok c" "ec_depth c \<noteq> 0" and v: "operand c v"
    and w1: "phy_bigint_write (br_num v) 0 (None, 0, c) = (s1, x1, nr, c1)"
    and w2: "(if s1 = PHY_OK \<and> \<not> is_one (br_den v) then phy_bigint_write (br_den v) 0 (None, 0, c1) else (s1, None, 0, c1)) = (s2, x2, dr, c2)"
  shows "rests 0 c c2" "s2 \<noteq> PHY_OK \<Longrightarrow> resource_failure c s2"
    "s2 = PHY_OK \<Longrightarrow> nr = length (decimal_text (ival (br_num v))) + 1 \<and>
      (if is_one (br_den v) then nr else nr + dr) = length (rat_text v) + 1"
proof -
  note vd = operandD [OF v]
  have one: "is_one (br_den v) \<longleftrightarrow> ival (br_den v) = 1" by (rule is_one_iff [OF vd(2,3)])
  note n1 = nested_write [OF c vd(1) w1]
  have r1: "ctx_ok c1" "ec_depth c1 \<noteq> 0" using restsD [OF n1(1)] c by simp_all
  have v1: "phy_bigint_shallow_valid c1 (br_den v)" using vd(2) shallow_valid_env [OF restsD(1) [OF n1(1)]] by blast
  have all: "rests 0 c c2 \<and> (s2 \<noteq> PHY_OK \<longrightarrow> resource_failure c s2) \<and>
    (s2 = PHY_OK \<longrightarrow> nr = length (decimal_text (ival (br_num v))) + 1 \<and>
      (if is_one (br_den v) then nr else nr + dr) = length (rat_text v) + 1)"
  proof (cases "s1 = PHY_OK \<and> \<not> is_one (br_den v)")
    case False
    then show ?thesis using w2 n1 one by (auto simp: rat_text_def)
  next
    case True
    then have "phy_bigint_write (br_den v) 0 (None, 0, c1) = (s2, x2, dr, c2)" using w2 by simp
    note n2 = nested_write [OF r1 v1 this]
    show ?thesis
      using rests_trans [OF n1(1) n2(1)] n1(2) n2(2,3) True one resources [OF restsD(1) [OF n1(1)]] by (auto simp: rat_text_def)
  qed
  show "rests 0 c c2" "s2 \<noteq> PHY_OK \<Longrightarrow> resource_failure c s2"
    "s2 = PHY_OK \<Longrightarrow> nr = length (decimal_text (ival (br_num v))) + 1 \<and>
      (if is_one (br_den v) then nr else nr + dr) = length (rat_text v) + 1" using all by blast+
qed

definition rat_written :: "phy_bigrat \<Rightarrow> nat \<Rightarrow> string option \<Rightarrow> nat \<Rightarrow> phy_exact_context \<Rightarrow>
    phy_status \<times> string option \<times> nat \<times> phy_exact_context \<Rightarrow> bool" where
  "rat_written v bufsize buffer required c res \<longleftrightarrow> (case res of (st, buffer', req, c') \<Rightarrow>
     (\<exists>k. spent k (begun c) c') \<and> ec_bytes c' = ec_bytes c \<and>
     (if st = PHY_OK then req = length (rat_text v) + 1 \<and> (buffer \<noteq> None \<longrightarrow> req \<le> bufsize) \<and>
        buffer' = map_option (store_text (rat_text v)) buffer
      else buffer' = buffer \<and> resource_failure c st \<and> (req = required \<or> req = length (rat_text v) + 1)))"

lemma rests_exit:
  assumes ok: "ctx_ok c" and r: "rests 0 (entered c) c1"
  shows "\<exists>c2. phy_exact_operation_end c1 st = (st, c2) \<and> (\<exists>k. spent k (begun c) c2) \<and> ec_bytes c2 = ec_bytes c"
proof -
  obtain k where k: "spent k (entered c) c1" "ec_bytes c1 = ec_bytes c" using r by (auto simp: rests_def)
  let ?c2 = "c1\<lparr>ec_depth := ec_depth c1 - 1\<rparr>"
  have "phy_exact_operation_end c1 st = (st, ?c2)" using restsD [OF r] by (simp add: end_eq)
  moreover have "spent k (begun c) ?c2" using k(1) by (auto simp: spent_def same_env_def)
  ultimately show ?thesis using k(2) by auto
qed

lemma write_rat_spec:
  assumes ok: "ctx_ok c" and v: "operand c v"
  shows "rat_written v bufsize buffer required c (phy_bigrat_write v bufsize (buffer, required, c))"
proof -
  let ?c0 = "entered c" and ?len = "length (rat_text v) + 1"
  have c0: "ctx_ok ?c0" "ec_depth ?c0 \<noteq> 0" using begun_ok [OF ok] by simp_all
  have v0: "operand ?c0 v" by (rule operand_env [OF entered_env v])
  have rf: "resource_failure ?c0 = resource_failure c" by (rule resources [OF entered_env])
  obtain s1 x1 nr c1 where w1: "phy_bigint_write (br_num v) 0 (None, 0, ?c0) = (s1, x1, nr, c1)" by (metis prod_cases4)
  obtain s2 x2 dr c2 where
    w2: "(if s1 = PHY_OK \<and> \<not> is_one (br_den v) then phy_bigint_write (br_den v) 0 (None, 0, c1) else (s1, None, 0, c1)) = (s2, x2, dr, c2)"
    by (metis prod_cases4)
  note dry = dry_run [OF c0 v0 w1 w2]
  define s3 need req s4 where "s3 = (if s2 = PHY_OK \<and> \<not> is_one (br_den v) \<and> SIZE_MAX - dr < nr then PHY_ERR_MEMORY_LIMIT else s2)"
    and "need = (if is_one (br_den v) then nr else nr + dr)" and "req = (if s3 = PHY_OK then need else required)"
    and "s4 = (if s3 = PHY_OK \<and> buffer \<noteq> None \<and> bufsize < need then PHY_ERR_MEMORY_LIMIT else s3)"
  obtain s5 blk c3 where al: "(if s4 = PHY_OK \<and> buffer \<noteq> None then phy_exact_temp_alloc need c2 else (s4, False, c2)) = (s5, blk, c3)"
    by (metis prod_cases3)
  obtain s6 bytes c4 where wb: "(if s5 = PHY_OK \<and> blk then write_block v need nr (replicate need (CHR 0x00), c3) else (s5, [], c3)) = (s6, bytes, c4)"
    by (metis prod_cases3)
  define buffer' c5 where "buffer' = (if s6 = PHY_OK \<and> blk then map_option (\<lambda>b. take need bytes @ drop need b) buffer else buffer)"
    and "c5 = (if blk then phy_exact_temp_free c4 blk need else c4)"
  have s3: "s3 \<noteq> PHY_OK \<Longrightarrow> resource_failure c s3" using dry(2) rf by (auto simp: s3_def resource_failure_def)
  have need: "s3 = PHY_OK \<Longrightarrow> need = ?len \<and> nr = length (decimal_text (ival (br_num v))) + 1" using dry(3) by (auto simp: s3_def need_def split: if_splits)
  have s4: "s4 \<noteq> PHY_OK \<Longrightarrow> resource_failure c s4" using s3 by (auto simp: s4_def resource_failure_def)
  have s4ok: "s4 = PHY_OK \<Longrightarrow> s3 = PHY_OK \<and> (buffer \<noteq> None \<longrightarrow> need \<le> bufsize)" by (auto simp: s4_def split: if_splits)
  have c2: "ctx_ok c2" "same_env c c2" "ec_depth c2 \<noteq> 0" "ec_bytes c2 = ec_bytes c"
    using restsD [OF dry(1)] c0(2) same_env_trans [OF entered_env] by auto
  have c3: "rests (if blk then need else 0) c2 c3" "s5 \<noteq> PHY_OK \<Longrightarrow> resource_failure c s5 \<and> \<not> blk"
    "s5 = PHY_OK \<Longrightarrow> s4 = PHY_OK \<and> (blk \<longleftrightarrow> buffer \<noteq> None)"
  proof -
    have "rests (if blk then need else 0) c2 c3 \<and> (s5 \<noteq> PHY_OK \<longrightarrow> resource_failure c s5 \<and> \<not> blk) \<and>
      (s5 = PHY_OK \<longrightarrow> s4 = PHY_OK \<and> (blk \<longleftrightarrow> buffer \<noteq> None))"
    proof (cases "s4 = PHY_OK \<and> buffer \<noteq> None")
      case False
      then have "s5 = s4" "\<not> blk" "c3 = c2" using al by auto
      then show ?thesis using rests_refl [OF c2(1)] s4 False by auto
    next
      case True
      then have a: "phy_exact_temp_alloc need c2 = (s5, blk, c3)" using al by simp
      have "need \<noteq> 0" using need s4ok True by simp
      from temp_alloc_spec [OF c2(1) this, unfolded a] True resources [OF c2(2)] show ?thesis
        by (auto simp: rests_def dest: shortage_resource split: if_splits)
    qed
    then show "rests (if blk then need else 0) c2 c3" "s5 \<noteq> PHY_OK \<Longrightarrow> resource_failure c s5 \<and> \<not> blk"
      "s5 = PHY_OK \<Longrightarrow> s4 = PHY_OK \<and> (blk \<longleftrightarrow> buffer \<noteq> None)" by simp_all
  qed
  have e3: "same_env c c3" "ctx_ok c3" "ec_depth c3 \<noteq> 0"
    using restsD [OF c3(1)] c2(3) same_env_trans [OF c2(2)] by auto
  have c4: "rests 0 c3 c4" "s6 \<noteq> PHY_OK \<Longrightarrow> resource_failure c s6"
    "s6 = PHY_OK \<Longrightarrow> s5 = PHY_OK \<and> (blk \<longrightarrow> take need bytes = rat_text v @ [CHR 0x00])"
  proof -
    have "rests 0 c3 c4 \<and> (s6 \<noteq> PHY_OK \<longrightarrow> resource_failure c s6) \<and>
      (s6 = PHY_OK \<longrightarrow> s5 = PHY_OK \<and> (blk \<longrightarrow> take need bytes = rat_text v @ [CHR 0x00]))"
    proof (cases "s5 = PHY_OK \<and> blk")
      case False
      then have "s6 = s5" "c4 = c3" using wb by auto
      then show ?thesis using rests_refl [OF e3(2)] c3(2) False by auto
    next
      case True
      then have w: "write_block v need nr (replicate need (CHR 0x00), c3) = (s6, bytes, c4)" using wb by simp
      have "s3 = PHY_OK" using c3(3) s4ok True by simp
      from write_block_spec [OF e3(2,3) operand_env [OF e3(1) v] _ _ w] need [OF this] show ?thesis
        using True resources [OF e3(1)] by simp
    qed
    then show "rests 0 c3 c4" "s6 \<noteq> PHY_OK \<Longrightarrow> resource_failure c s6"
      "s6 = PHY_OK \<Longrightarrow> s5 = PHY_OK \<and> (blk \<longrightarrow> take need bytes = rat_text v @ [CHR 0x00])" by simp_all
  qed
  have "rests 0 c2 c5"
  proof (cases blk)
    case False
    then show ?thesis using rests_trans [OF c3(1) c4(1)] by (simp add: c5_def)
  next
    case True
    have r4: "rests need c2 c4" using rests_trans [OF c3(1) c4(1)] True by simp
    have "need \<noteq> 0" using c3(2,3) s4ok need True by (cases "s5 = PHY_OK") auto
    note f = temp_free_spec [OF restsD(2) [OF r4] this]
    show ?thesis using f restsD(4) [OF r4] r4 True spent_trans by (fastforce simp: rests_def c5_def)
  qed
  from rests_trans [OF dry(1) this] have "rests 0 ?c0 c5" by simp
  from rests_exit [OF ok this] obtain c6 where c6: "phy_exact_operation_end c5 s6 = (s6, c6)"
    "\<exists>k. spent k (begun c) c6" "ec_bytes c6 = ec_bytes c" by blast
  have nc: "\<not> rational_context c v = None" "PHY_OK = PHY_OK" using v by (simp_all add: context_iff operand_def)
  have eq: "phy_bigrat_write v bufsize (buffer, required, c) = (s6, buffer', req, c6)"
    unfolding phy_bigrat_write_def prod.case if_not_P [OF nc(1)] begin_eq [OF ok] if_P [OF nc(2)] w1 w2 Let_def
      s3_def [symmetric] need_def [symmetric] req_def [symmetric] s4_def [symmetric] al wb
      buffer'_def [symmetric] c5_def [symmetric] c6(1) ..
  show ?thesis
  proof (cases "s6 = PHY_OK")
    case True
    then have k: "s5 = PHY_OK" "s4 = PHY_OK" "s3 = PHY_OK" "blk \<longleftrightarrow> buffer \<noteq> None" "need \<le> bufsize \<or> buffer = None" using c4(3) c3(3) s4ok by auto
    then have b: "buffer' = map_option (store_text (rat_text v)) buffer"
      using c4(3) need True by (cases buffer) (simp_all add: buffer'_def store_text_def)
    show ?thesis unfolding eq rat_written_def using True k b c6(2,3) need by (auto simp: req_def)
  next
    case False
    then show ?thesis unfolding eq rat_written_def using c6(2,3) c4(2) need by (auto simp: buffer'_def req_def)
  qed
qed

end
