(* ===== verification/BigRatMachine.thy ===== *)
theory BigRatMachine
  imports BigRatWrite ExactHistory
begin

text \<open>
  The interface of the exact rationals as a machine: the calls a client can make, what the code
  does with each, and the abstract machine over rational numbers that it refines. Handles are
  named by their position in the list of live rationals; an output may be one of the operands.
\<close>

section \<open>Calls\<close>

datatype rat_call =
    Init
  | Destroy nat
  | Set_i64 nat int int
  | Read nat string string
  | Copy nat nat
  | From_integer nat nat
  | Negate nat nat
  | Reciprocal nat nat
  | Add nat nat nat
  | Subtract nat nat nat
  | Multiply nat nat nat
  | Divide nat nat nat
  | Power nat nat int
  | Swap nat nat
  | Compare nat nat
  | Write nat nat

type_synonym rat_state = "phy_exact_context \<times> phy_bigrat list"

definition put :: "phy_bigrat list \<Rightarrow> nat \<Rightarrow> (phy_bigrat \<times> phy_exact_context) run \<Rightarrow> rat_state run" where
  "put rs k r = map_option (\<lambda>(st, out, c). (st, c, rs[k := out])) r"

text \<open>The call on the handles; \<open>From_integer k s\<close> passes the numerator of the rational \<open>s\<close>.\<close>

fun perform :: "rat_call \<Rightarrow> rat_state \<Rightarrow> rat_state run" where
  "perform Init (c, rs) = (case phy_bigrat_init (null_bigrat, c) of (st, r, c') \<Rightarrow>
     Some (st, c', if st = PHY_OK then rs @ [r] else rs))"
| "perform (Destroy k) (c, rs) = Some (PHY_OK, snd (phy_bigrat_destroy (rs ! k) c), take k rs @ drop (Suc k) rs)"
| "perform (Set_i64 k n d) (c, rs) = put rs k (phy_bigrat_set_i64 n d (rs ! k, c))"
| "perform (Read k s t) (c, rs) = put rs k (phy_bigrat_read (Some s) (Some t) (rs ! k, c))"
| "perform (Copy k s) (c, rs) = put rs k (phy_bigrat_copy (rs ! s) (s = k) (rs ! k, c))"
| "perform (From_integer k s) (c, rs) = put rs k (phy_bigrat_set_bigint (br_num (rs ! s)) (rs ! k, c))"
| "perform (Negate k s) (c, rs) = put rs k (phy_bigrat_negate (rs ! s) (rs ! k, c))"
| "perform (Reciprocal k s) (c, rs) = put rs k (phy_bigrat_reciprocal (rs ! s) (rs ! k, c))"
| "perform (Add k l r) (c, rs) = put rs k (phy_bigrat_add (rs ! l) (rs ! r) (rs ! k, c))"
| "perform (Subtract k l r) (c, rs) = put rs k (phy_bigrat_subtract (rs ! l) (rs ! r) (rs ! k, c))"
| "perform (Multiply k l r) (c, rs) = put rs k (phy_bigrat_multiply (rs ! l) (rs ! r) (rs ! k, c))"
| "perform (Divide k l r) (c, rs) = put rs k (phy_bigrat_divide (rs ! l) (rs ! r) (rs ! k, c))"
| "perform (Power k s e) (c, rs) = put rs k (phy_bigrat_pow_i32 (rs ! s) e (rs ! k, c))"
| "perform (Swap i j) (c, rs) = (case phy_bigrat_swap c (rs ! i, rs ! j) of (st, l, r) \<Rightarrow> Some (st, c, rs[i := l, j := r]))"
| "perform (Compare l r) (c, rs) = map_option (\<lambda>(st, k, c'). (st, c', rs)) (phy_bigrat_compare (rs ! l) (rs ! r) (0, c))"
| "perform (Write s n) (c, rs) = (case phy_bigrat_write (rs ! s) n (None, 0, c) of (st, b, q, c') \<Rightarrow> Some (st, c', rs))"

text \<open>The abstract machine: the rational numbers, \<open>None\<close> where there is no result.\<close>

fun effect :: "rat_call \<Rightarrow> rat list \<Rightarrow> rat list option" where
  "effect Init qs = Some (qs @ [0])"
| "effect (Destroy k) qs = Some (take k qs @ drop (Suc k) qs)"
| "effect (Set_i64 k n d) qs = (if d = 0 then None else Some (qs[k := Fract n d]))"
| "effect (Read k s t) qs = (case (read_number s, read_number t) of
     (Some n, Some d) \<Rightarrow> if d = 0 then None else Some (qs[k := Fract n d]) | _ \<Rightarrow> None)"
| "effect (Copy k s) qs = Some (qs[k := qs ! s])"
| "effect (From_integer k s) qs = Some (qs[k := of_int (fst (quotient_of (qs ! s)))])"
| "effect (Negate k s) qs = Some (qs[k := - (qs ! s)])"
| "effect (Reciprocal k s) qs = (if qs ! s = 0 then None else Some (qs[k := inverse (qs ! s)]))"
| "effect (Add k l r) qs = Some (qs[k := qs ! l + qs ! r])"
| "effect (Subtract k l r) qs = Some (qs[k := qs ! l - qs ! r])"
| "effect (Multiply k l r) qs = Some (qs[k := qs ! l * qs ! r])"
| "effect (Divide k l r) qs = (if qs ! r = 0 then None else Some (qs[k := qs ! l / qs ! r]))"
| "effect (Power k s e) qs = (if e < 0 \<and> qs ! s = 0 then None else Some (qs[k := qs ! s powi e]))"
| "effect (Swap i j) qs = Some (qs[i := qs ! j, j := qs ! i])"
| "effect (Compare l r) qs = Some qs"
| "effect (Write s n) qs = Some qs"

text \<open>The handles are live, and the integers are in the range of their C types.\<close>

fun callable :: "rat_call \<Rightarrow> nat \<Rightarrow> bool" where
  "callable Init n = True"
| "callable (Destroy k) n = (k < n)"
| "callable (Set_i64 k a b) n = (k < n \<and> - (2 ^ 63) \<le> a \<and> a < 2 ^ 63 \<and> - (2 ^ 63) \<le> b \<and> b < 2 ^ 63)"
| "callable (Read k s t) n = (k < n)"
| "callable (Copy k s) n = (k < n \<and> s < n)"
| "callable (From_integer k s) n = (k < n \<and> s < n)"
| "callable (Negate k s) n = (k < n \<and> s < n)"
| "callable (Reciprocal k s) n = (k < n \<and> s < n)"
| "callable (Add k l r) n = (k < n \<and> l < n \<and> r < n)"
| "callable (Subtract k l r) n = (k < n \<and> l < n \<and> r < n)"
| "callable (Multiply k l r) n = (k < n \<and> l < n \<and> r < n)"
| "callable (Divide k l r) n = (k < n \<and> l < n \<and> r < n)"
| "callable (Power k s e) n = (k < n \<and> s < n \<and> - (2 ^ 31) \<le> e \<and> e < 2 ^ 31)"
| "callable (Swap i j) n = (i < n \<and> j < n)"
| "callable (Compare l r) n = (l < n \<and> r < n)"
| "callable (Write s b) n = (s < n)"

inductive rat_run :: "rat_state \<Rightarrow> bool" where
  create: "sized_limits limits \<Longrightarrow> phy_exact_context_create limits identity alloc = Some c \<Longrightarrow> rat_run (c, [])"
| cancel: "rat_run (c, rs) \<Longrightarrow> rat_run (phy_exact_set_cancel c f, rs)"
| call: "rat_run (c, rs) \<Longrightarrow> callable f (length rs) \<Longrightarrow> perform f (c, rs) = Some (st, s) \<Longrightarrow> rat_run s"

section \<open>The invariant\<close>

definition canonical :: "phy_exact_context \<Rightarrow> phy_bigrat \<Rightarrow> bool" where
  "canonical c r \<longleftrightarrow> live_rat c r \<and> pair r = quotient_of (rval r)"

abbreviation all_parts :: "phy_bigrat list \<Rightarrow> phy_bigint list" where
  "all_parts rs \<equiv> concat (map parts rs)"

definition rat_inv :: "rat_state \<Rightarrow> bool" where
  "rat_inv s \<longleftrightarrow> (case s of (c, rs) \<Rightarrow> exact_inv (c, all_parts rs) \<and> (\<forall>r \<in> set rs. canonical c r))"

lemma canonicalI: "live_rat c r \<Longrightarrow> pair r = quotient_of q \<Longrightarrow> canonical c r \<and> rval r = q"
  using canonical_valid(2) [of c r q] by (simp add: canonical_def)

lemma canonical_operand: "canonical c r \<Longrightarrow> operand c r"
  using canonical_valid(1) by (auto simp: canonical_def operand_def)

lemma canonical_env: "same_env c c' \<Longrightarrow> canonical c' r \<longleftrightarrow> canonical c r"
  by (simp add: canonical_def live_rat_env)

lemma live_all: "\<forall>v \<in> set vs. phy_bigint_shallow_valid c v \<Longrightarrow> live_count vs = length vs"
  using shallow_slot by (induction vs) auto

lemma inv_now:
  assumes inv: "exact_inv (c, as @ us @ bs)" and sh: "shifted c us c' us'"
    and v: "\<forall>v \<in> set us'. phy_bigint_shallow_valid c' v"
  shows "exact_inv (c', as @ us' @ bs)"
proof -
  note e = shiftedD(1) [OF sh]
  have us: "live_count us = length us" using inv by (intro live_all [of us c]) (simp add: exact_inv_def)
  note us' = live_all [OF v]
  show ?thesis
    using inv sh v e us us' shallow_valid_env [OF e] by (auto simp: exact_inv_def shifted_def same_env_def)
qed

lemma inv_begun: "exact_inv (c, vs) \<Longrightarrow> exact_inv (begun c, vs)"
proof -
  assume inv: "exact_inv (c, vs)"
  then have "ctx_ok c" by (simp add: exact_inv_def)
  then show ?thesis using begun_ok by (intro inv_spent [OF inv, of 0]) (simp_all add: spent_def)
qed

lemma inv_shifted:
  assumes "exact_inv (c, as @ us @ bs)" "shifted (begun c) us c' us'" "\<forall>v \<in> set us'. phy_bigint_shallow_valid c' v"
  shows "exact_inv (c', as @ us' @ bs)"
  using inv_now [OF inv_begun [OF assms(1)] assms(2,3)] .

lemma parts_split: "k < length rs \<Longrightarrow> all_parts rs = all_parts (take k rs) @ parts (rs ! k) @ all_parts (drop (Suc k) rs)"
  using flat_parts [of k rs "[]"] by (simp add: flat_def)

lemma parts_update: "k < length rs \<Longrightarrow> all_parts (rs[k := r]) = all_parts (take k rs) @ parts r @ all_parts (drop (Suc k) rs)"
  using flat_split [of k rs r "[]"] by (simp add: flat_def)

lemma rat_invD:
  assumes inv: "rat_inv (c, rs)"
  shows "ctx_ok c" "k < length rs \<Longrightarrow> canonical c (rs ! k)" "k < length rs \<Longrightarrow> operand c (rs ! k)"
    "k < length rs \<Longrightarrow> owned c (rs ! k)"
proof -
  show "ctx_ok c" using inv by (simp add: rat_inv_def exact_inv_def)
  show c: "canonical c (rs ! k)" if "k < length rs" using inv that by (simp add: rat_inv_def)
  show "operand c (rs ! k)" if "k < length rs" using canonical_operand [OF c [OF that]] .
  show "owned c (rs ! k)" if k: "k < length rs"
  proof -
    have i: "exact_inv (c, all_parts (take k rs) @ parts (rs ! k) @ all_parts (drop (Suc k) rs))"
      using inv parts_split [OF k] by (simp add: rat_inv_def)
    then have "live_count (parts (rs ! k)) = length (parts (rs ! k))"
      by (intro live_all [of _ c]) (simp add: exact_inv_def)
    then show ?thesis using c [OF k] i by (simp add: owned_def canonical_def owns_def exact_inv_def)
  qed
qed

text \<open>A call refines the abstract machine.\<close>

definition refines :: "rat_call \<Rightarrow> rat_state \<Rightarrow> rat_state run \<Rightarrow> bool" where
  "refines f s r \<longleftrightarrow> run_ok r
     (\<lambda>s'. rat_inv s' \<and> effect f (map rval (snd s)) = Some (map rval (snd s')))
     (\<lambda>st s'. rat_inv s' \<and> snd s' = snd s \<and>
        (resource_failure (fst s) st \<or>
         effect f (map rval (snd s)) = None \<and> (st = PHY_ERR_DOMAIN \<or> st = PHY_ERR_PARSE)))"

lemma refines_put:
  assumes inv: "rat_inv (c, rs)" and k: "k < length rs"
    and r: "run_ok r
      (\<lambda>(out', c'). shifted (begun c) (parts (rs ! k)) c' (parts out') \<and> live_rat c' out' \<and> pair out' = quotient_of q \<and>
         effect f (map rval rs) = Some ((map rval rs)[k := q]))
      (\<lambda>st (out', c'). out' = rs ! k \<and> shifted (begun c) (parts (rs ! k)) c' (parts (rs ! k)) \<and>
         (resource_failure c st \<or> effect f (map rval rs) = None \<and> (st = PHY_ERR_DOMAIN \<or> st = PHY_ERR_PARSE)))"
  shows "refines f (c, rs) (put rs k r)"
proof -
  have i: "exact_inv (c, all_parts (take k rs) @ parts (rs ! k) @ all_parts (drop (Suc k) rs))"
    using inv parts_split [OF k] by (simp add: rat_inv_def)
  have step: "rat_inv (c', rs[k := r'])" if "shifted (begun c) (parts (rs ! k)) c' (parts r')" "canonical c' r'" for c' r'
  proof -
    have e: "same_env c c'" using shiftedD(1) [OF that(1)] same_env_trans [OF begun_env(1)] by blast
    have "exact_inv (c', all_parts (rs[k := r']))" unfolding parts_update [OF k]
      by (rule inv_shifted [OF i that(1)]) (use that(2) in \<open>auto simp: canonical_def live_rat_def parts_def\<close>)
    then show ?thesis
      using inv that(2) canonical_env [OF e] set_update_subset_insert [of rs k r'] by (auto simp: rat_inv_def)
  qed
  let ?bad = "\<lambda>st. resource_failure c st \<or> effect f (map rval rs) = None \<and> (st = PHY_ERR_DOMAIN \<or> st = PHY_ERR_PARSE)"
  obtain st out c' where res: "r = Some (st, out, c')" and sh: "shifted (begun c) (parts (rs ! k)) c' (parts out)"
    and good: "st = PHY_OK \<Longrightarrow> live_rat c' out \<and> pair out = quotient_of q \<and> effect f (map rval rs) = Some ((map rval rs)[k := q])"
    and bad: "st \<noteq> PHY_OK \<Longrightarrow> out = rs ! k \<and> ?bad st"
    using r by (rule run_okE) (auto split: prod.splits if_splits)
  show ?thesis
  proof (cases "st = PHY_OK")
    case True
    have "canonical c' out" "rval out = q" using canonicalI [of c' out q] good [OF True] by simp_all
    then show ?thesis using step [OF sh] good [OF True] True by (simp add: refines_def put_def res map_update)
  next
    case False
    have e: "same_env c c'" using shiftedD(1) [OF sh] same_env_trans [OF begun_env(1)] by blast
    have "canonical c' (rs ! k)" using rat_invD(2) [OF inv k] canonical_env [OF e] by simp
    then have "rat_inv (c', rs)" using step [of c' "rs ! k"] sh bad [OF False] by simp
    then show ?thesis using bad [OF False] False by (simp add: refines_def put_def res)
  qed
qed

end
