(* ===== verification/BigRatRefine.thy ===== *)
theory BigRatRefine
  imports BigRatMachine
begin

text \<open>
  Every call on the exact rationals refines the abstract machine, and every history keeps the
  invariant.
\<close>

section \<open>Calls with one output\<close>

lemma live_pair: "canonical c r \<Longrightarrow> pair r = quotient_of (rval r)"
  by (simp add: canonical_def)

lemma negated_pair:
  assumes "p = quotient_of q"
  shows "(- fst p, snd p) = quotient_of (- q)"
  using assms by (simp add: rat_uminus_code Let_def case_prod_beta)

lemma refines_one:
  assumes inv: "rat_inv (c, rs)" and k: "k < length rs"
    and r: "rat_settled (rs ! k) c (quotient_of q) (resource_failure c) r"
    and ok: "effect f (map rval rs) = Some ((map rval rs)[k := q])"
  shows "refines f (c, rs) (put rs k r)"
  by (rule refines_put [OF inv k run_ok_mono [OF r [unfolded rat_settled_def]]]) (use ok in auto)

lemma refines_none:
  assumes inv: "rat_inv (c, rs)" and k: "k < length rs"
    and r: "\<And>p. rat_settled (rs ! k) c p (\<lambda>st. resource_failure c st \<or> st = e) r" and e: "e = PHY_ERR_DOMAIN \<or> e = PHY_ERR_PARSE"
    and none: "effect f (map rval rs) = None"
  shows "refines f (c, rs) (put rs k r)"
proof -
  have "run_ok r (\<lambda>s. False) (\<lambda>st (out', c'). out' = rs ! k \<and> shifted (begun c) (parts (rs ! k)) c' (parts (rs ! k)) \<and>
      (resource_failure c st \<or> st = e))"
    using r [of "(0, 0)"] r [of "(1, 0)"] unfolding rat_settled_def
    by (intro run_never [where Q = "\<lambda>i s. case s of (out', c') \<Rightarrow> shifted (begun c) (parts (rs ! k)) c' (parts out') \<and> live_rat c' out' \<and> pair out' = (i, 0)"])
      auto
  then show ?thesis
    by (rule refines_put [OF inv k, OF run_ok_mono]) (use e none in auto)
qed

lemma refines_refused:
  assumes inv: "rat_inv (c, rs)" and k: "k < length rs"
    and e: "e = PHY_ERR_DOMAIN \<or> e = PHY_ERR_PARSE" and none: "effect f (map rval rs) = None"
  shows "refines f (c, rs) (put rs k (Some (e, rs ! k, c)))"
  using assms by (auto simp: refines_def put_def)

text \<open>The calls in the order of the code.\<close>

lemma refines_set:
  assumes inv: "rat_inv (c, rs)" and f: "callable (Set_i64 k n d) (length rs)"
  shows "refines (Set_i64 k n d) (c, rs) (perform (Set_i64 k n d) (c, rs))"
proof (cases "d = 0")
  case True
  have k: "k < length rs" using f by simp
  show ?thesis unfolding perform.simps
    by (rule refines_none [OF inv k, where e = PHY_ERR_DOMAIN]) (use True f set_rat_spec(2) [OF rat_invD(1,4,3) [OF inv]] k in simp_all)
next
  case False
  have k: "k < length rs" using f by simp
  show ?thesis unfolding perform.simps
    by (rule refines_one [OF inv k, of "Fract n d"]) (use False f set_rat_spec(1) [OF rat_invD(1,4,3) [OF inv]] k in simp_all)
qed

lemma refines_read:
  assumes inv: "rat_inv (c, rs)" and f: "callable (Read k s t) (length rs)"
  shows "refines (Read k s t) (c, rs) (perform (Read k s t) (c, rs))"
proof -
  have k: "k < length rs" using f by simp
  note spec = read_rat_spec [OF rat_invD(1) [OF inv] rat_invD(4,3) [OF inv k], where s = s and t = t]
  show ?thesis
  proof (cases "\<exists>n d. read_number s = Some n \<and> read_number t = Some d")
    case True
    then obtain n d where nd: "read_number s = Some n" "read_number t = Some d" by blast
    show ?thesis
    proof (cases "d = 0")
      case True
      show ?thesis unfolding perform.simps
        by (rule refines_none [OF inv k, where e = PHY_ERR_DOMAIN]) (use True spec nd in simp_all)
    next
      case False
      show ?thesis unfolding perform.simps
        by (rule refines_one [OF inv k, of "Fract n d"]) (use False spec nd in simp_all)
    qed
  next
    case False
    have "rat_settled (rs ! k) c p (\<lambda>st. resource_failure c st \<or> st = PHY_ERR_PARSE) (phy_bigrat_read (Some s) (Some t) (rs ! k, c))" for p
      using spec [of p] False by (cases "read_number s"; cases "read_number t") simp_all
    moreover have "effect (Read k s t) (map rval rs) = None"
      using False by (cases "read_number s"; cases "read_number t") simp_all
    ultimately show ?thesis unfolding perform.simps
      by (intro refines_none [OF inv k, where e = PHY_ERR_PARSE]) simp_all
  qed
qed

lemma refines_copy:
  assumes inv: "rat_inv (c, rs)" and f: "callable (Copy k s) (length rs)"
  shows "refines (Copy k s) (c, rs) (perform (Copy k s) (c, rs))"
proof (cases "s = k")
  case False
  have k: "k < length rs" and s: "s < length rs" using f by simp_all
  show ?thesis unfolding perform.simps
    by (rule refines_one [OF inv k, of "rval (rs ! s)"])
      (use False copy_rat_spec [OF rat_invD(1) [OF inv] rat_invD(3) [OF inv s] rat_invD(4,3) [OF inv k]] s
        live_pair [OF rat_invD(2) [OF inv s]] in simp_all)
next
  case True
  have k: "k < length rs" using f by simp
  note v = rat_invD [OF inv] rat_invD(3) [OF inv k]
  have eq: "phy_bigrat_copy (rs ! s) (s = k) (rs ! k, c) = Some (PHY_OK, rs ! k, begun c)"
    using v(5) True begun_ok [OF v(1)]
    by (simp add: phy_bigrat_copy_def rat_compatible_iff operand_def begin_eq [OF v(1)] end_eq)
  have "shifted (begun c) (parts (rs ! k)) (begun c) (parts (rs ! k))"
    using begun_ok [OF v(1)] live_slots rat_invD(4) [OF inv k] slot_env [OF begun_env(1)]
    by (intro shifted_refl) (auto simp: owned_def)
  moreover have "live_rat (begun c) (rs ! k)"
    using rat_invD(4) [OF inv k] live_rat_env [OF begun_env(1)] by (simp add: owned_def)
  ultimately show ?thesis unfolding perform.simps eq
    using True k live_pair [OF rat_invD(2) [OF inv k]]
    by (intro refines_put [OF inv k, of _ "rval (rs ! k)"]) simp
qed

lemma refines_integer:
  assumes inv: "rat_inv (c, rs)" and f: "callable (From_integer k s) (length rs)"
  shows "refines (From_integer k s) (c, rs) (perform (From_integer k s) (c, rs))"
proof -
  have k: "k < length rs" and s: "s < length rs" using f by simp_all
  have "fst (quotient_of (rval (rs ! s))) = ival (br_num (rs ! s))"
    using live_pair [OF rat_invD(2) [OF inv s]] by (simp add: pair_def flip: live_pair [OF rat_invD(2) [OF inv s]])
  then show ?thesis unfolding perform.simps
    using set_bigint_spec [OF rat_invD(1) [OF inv] operandD(1) [OF rat_invD(3) [OF inv s]] rat_invD(4,3) [OF inv k]] s
    by (intro refines_one [OF inv k, of "of_int (ival (br_num (rs ! s)))"]) simp_all
qed

lemma refines_unary:
  assumes inv: "rat_inv (c, rs)" and k: "k < length rs" and s: "s < length rs"
  shows "refines (Negate k s) (c, rs) (perform (Negate k s) (c, rs))"
    "refines (Reciprocal k s) (c, rs) (perform (Reciprocal k s) (c, rs))"
    "- (2 ^ 31) \<le> e \<Longrightarrow> e < 2 ^ 31 \<Longrightarrow> refines (Power k s e) (c, rs) (perform (Power k s e) (c, rs))"
proof -
  note c = rat_invD(1) [OF inv] and v = rat_invD(3) [OF inv s] and o1 = rat_invD(4,3) [OF inv k]
  show "refines (Negate k s) (c, rs) (perform (Negate k s) (c, rs))" unfolding perform.simps
    by (rule refines_one [OF inv k, of "- rval (rs ! s)"])
      (use negate_rat_spec [OF c v o1] s negated_pair [OF live_pair [OF rat_invD(2) [OF inv s]]] in simp_all)
  show "refines (Reciprocal k s) (c, rs) (perform (Reciprocal k s) (c, rs))"
  proof (cases "rval (rs ! s) = 0")
    case True
    then show ?thesis using reciprocal_spec [OF c v o1] refines_refused [OF inv k, of PHY_ERR_DOMAIN "Reciprocal k s"] s by simp
  next
    case False
    then show ?thesis unfolding perform.simps
      using reciprocal_spec [OF c v o1] s by (intro refines_one [OF inv k, of "inverse (rval (rs ! s))"]) simp_all
  qed
  assume e: "- (2 ^ 31) \<le> e" "e < 2 ^ 31"
  note pw = pow_rat_spec [OF c v o1 e]
  show "refines (Power k s e) (c, rs) (perform (Power k s e) (c, rs))"
  proof (cases "e < 0 \<and> rval (rs ! s) = 0")
    case True
    have "effect (Power k s e) (map rval rs) = None" by (simp only: effect.simps nth_map [OF s] if_P [OF True])
    then show ?thesis unfolding perform.simps pw [unfolded if_P [OF True]]
      by (intro refines_refused [OF inv k]) simp_all
  next
    case False
    show ?thesis unfolding perform.simps
      by (rule refines_one [OF inv k pw [unfolded if_not_P [OF False]]]) (simp only: effect.simps nth_map [OF s] if_not_P [OF False])
  qed
qed

lemma refines_binary:
  assumes inv: "rat_inv (c, rs)" and k: "k < length rs" and l: "l < length rs" and r: "r < length rs"
  shows "refines (Add k l r) (c, rs) (perform (Add k l r) (c, rs))"
    "refines (Subtract k l r) (c, rs) (perform (Subtract k l r) (c, rs))"
    "refines (Multiply k l r) (c, rs) (perform (Multiply k l r) (c, rs))"
    "refines (Divide k l r) (c, rs) (perform (Divide k l r) (c, rs))"
proof -
  note c = rat_invD(1) [OF inv] and x = rat_invD(3) [OF inv l] and y = rat_invD(3) [OF inv r] and o1 = rat_invD(4,3) [OF inv k]
  show "refines (Add k l r) (c, rs) (perform (Add k l r) (c, rs))" unfolding perform.simps
    by (rule refines_one [OF inv k add_spec [OF c x y o1]]) (use l r in simp)
  show "refines (Subtract k l r) (c, rs) (perform (Subtract k l r) (c, rs))" unfolding perform.simps
    by (rule refines_one [OF inv k subtract_rat_spec [OF c x y o1]]) (use l r in simp)
  show "refines (Multiply k l r) (c, rs) (perform (Multiply k l r) (c, rs))" unfolding perform.simps
    by (rule refines_one [OF inv k multiply_rat_spec [OF c x y o1]]) (use l r in simp)
  show "refines (Divide k l r) (c, rs) (perform (Divide k l r) (c, rs))" unfolding perform.simps
  proof (cases "rval (rs ! r) = 0")
    case True
    show "refines (Divide k l r) (c, rs) (put rs k (phy_bigrat_divide (rs ! l) (rs ! r) (rs ! k, c)))"
      by (rule refines_none [OF inv k divide_rat_zero [OF c x y o1 True]]) (use True r in simp_all)
  next
    case False
    show "refines (Divide k l r) (c, rs) (put rs k (phy_bigrat_divide (rs ! l) (rs ! r) (rs ! k, c)))"
      by (rule refines_one [OF inv k divide_rat_spec [OF c x y o1 False]]) (use False l r in simp)
  qed
qed

section \<open>The other calls\<close>

lemma inv_canonical: "same_env c c' \<Longrightarrow> \<forall>r \<in> set rs. canonical c r \<Longrightarrow> \<forall>r \<in> set rs. canonical c' r"
  using canonical_env by blast

lemma init_failed: "phy_bigrat_init (null_bigrat, c) = (st, r, c') \<Longrightarrow> st \<noteq> PHY_OK \<Longrightarrow> r = null_bigrat"
  by (auto simp: phy_bigrat_init_def split: prod.splits if_splits)

lemma refines_init:
  assumes inv: "rat_inv (c, rs)"
  shows "refines Init (c, rs) (perform Init (c, rs))"
proof -
  note ok = rat_invD(1) [OF inv]
  obtain st r c' where res: "phy_bigrat_init (null_bigrat, c) = (st, r, c')" by (metis prod_cases3)
  note spec = computes_rat_init [OF ok, unfolded computes_rat_def run_ok_always res]
  have nul: "parts null_bigrat = [null_bigint, null_bigint]" by (simp add: parts_def null_bigrat_def)
  have sh: "shifted c [null_bigint, null_bigint] c' (parts r)" using spec nul by (auto split: if_splits)
  note e = shiftedD(1) [OF sh]
  have i: "exact_inv (c, all_parts rs @ [] @ [])" "\<forall>r \<in> set rs. canonical c' r"
    using inv inv_canonical [OF e, of rs] by (auto simp: rat_inv_def)
  show ?thesis
  proof (cases "st = PHY_OK")
    case True
    have r: "live_rat c' r" "pair r = quotient_of 0" using spec True by simp_all
    have "shifted c [] c' (parts r)" using sh by (simp add: shifted_def)
    from inv_now [OF i(1) this] r(1) have "exact_inv (c', all_parts (rs @ [r]))" by (simp add: live_rat_def parts_def)
    then show ?thesis using True canonicalI [OF r] i(2) by (simp add: refines_def res rat_inv_def)
  next
    case False
    have "shifted c [] c' []" using sh init_failed [OF res False] nul by (simp add: shifted_def)
    from inv_now [OF i(1) this] have "exact_inv (c', all_parts rs)" by simp
    then show ?thesis using False spec i(2) by (simp add: refines_def res rat_inv_def)
  qed
qed

lemma refines_destroy:
  assumes inv: "rat_inv (c, rs)" and k: "k < length rs"
  shows "refines (Destroy k) (c, rs) (perform (Destroy k) (c, rs))"
proof -
  note v = rat_invD(1) [OF inv] rat_invD(4) [OF inv k]
  let ?r = "rs ! k" and ?rs = "take k rs @ drop (Suc k) rs"
  let ?c = "release (rev (parts ?r)) c"
  have d: "snd (phy_bigrat_destroy ?r c) = ?c" using v(2) by (intro rat_destroy_release) (simp add: owned_def live_rat_def)
  have "shifted c (rev (parts ?r)) ?c []"
    using v live_slots by (intro release_shifted) (auto simp: owned_def owns_def total_rev)
  then have sh: "shifted c (parts ?r) ?c []" by (simp add: shifted_def total_rev)
  have "exact_inv (c, all_parts (take k rs) @ parts ?r @ all_parts (drop (Suc k) rs))"
    using inv parts_split [OF k] by (simp add: rat_inv_def)
  from inv_now [OF this sh] have "exact_inv (?c, all_parts ?rs)" by simp
  moreover have "\<forall>r \<in> set ?rs. canonical ?c r"
    using inv inv_canonical [OF shiftedD(1) [OF sh]] by (auto simp: rat_inv_def dest: in_set_takeD in_set_dropD)
  ultimately show ?thesis by (simp add: refines_def d rat_inv_def take_map drop_map)
qed

lemma mset_all_parts: "mset (all_parts rs) = sum_mset (image_mset (\<lambda>r. mset (parts r)) (mset rs))"
  by (induction rs) simp_all

lemma total_mset:
  assumes "mset us = mset vs"
  shows "total_bytes us = total_bytes vs"
proof -
  have "total_bytes ws = sum_mset (image_mset limb_bytes (mset ws))" for ws by (induction ws) simp_all
  then show ?thesis using assms by simp
qed

lemma refines_swap:
  assumes inv: "rat_inv (c, rs)" and i: "i < length rs" and j: "j < length rs"
  shows "refines (Swap i j) (c, rs) (perform (Swap i j) (c, rs))"
proof -
  note a = rat_invD [OF inv]
  have s: "phy_bigrat_swap c (rs ! i, rs ! j) = (PHY_OK, rs ! j, rs ! i)"
    using a(3) [OF i] a(3) [OF j] swap_rats [of c "rs ! i" "rs ! j"] a(4) [OF i] a(4) [OF j]
    by (simp add: phy_bigrat_swap_def rat_compatible_iff operand_def owned_def)
  let ?rs = "rs[i := rs ! j, j := rs ! i]"
  have m: "mset ?rs = mset rs" by (rule mset_swap [OF j i])
  have "mset (all_parts ?rs) = mset (all_parts rs)" unfolding mset_all_parts m ..
  note t = mset_eq_setD [OF this] mset_eq_length [OF this] total_mset [OF this]
  have "rat_inv (c, ?rs)" using inv t mset_eq_setD [OF m] by (simp add: rat_inv_def exact_inv_def)
  then show ?thesis using i j by (simp add: refines_def s map_update)
qed

lemma refines_queries:
  assumes inv: "rat_inv (c, rs)"
  shows "l < length rs \<Longrightarrow> r < length rs \<Longrightarrow> refines (Compare l r) (c, rs) (perform (Compare l r) (c, rs))"
    "l < length rs \<Longrightarrow> refines (Write l n) (c, rs) (perform (Write l n) (c, rs))"
proof -
  note a = rat_invD [OF inv]
  have i: "exact_inv (c, all_parts rs @ [] @ [])" using inv by (simp add: rat_inv_def)
  have keep: "rat_inv (c', rs)" if "shifted (begun c) [] c' []" for c'
  proof -
    have "same_env c c'" using shiftedD(1) [OF that] same_env_trans [OF begun_env(1)] by blast
    from inv_canonical [OF this, of rs] show ?thesis using inv_shifted [OF i that] inv by (simp add: rat_inv_def)
  qed
  show "refines (Compare l r) (c, rs) (perform (Compare l r) (c, rs))" if l: "l < length rs" and r: "r < length rs"
  proof -
    obtain st k c' where res: "phy_bigrat_compare (rs ! l) (rs ! r) (0, c) = Some (st, k, c')"
      "shifted (begun c) [] c' []" "st \<noteq> PHY_OK \<Longrightarrow> resource_failure c st"
      using compare_rat_spec [OF a(1) a(3) [OF l] a(3) [OF r], of 0] by (rule run_okE) (auto split: prod.splits if_splits)
    then show ?thesis using keep by (simp add: refines_def)
  qed
  show "refines (Write l n) (c, rs) (perform (Write l n) (c, rs))" if l: "l < length rs"
  proof -
    obtain st b q c' where res: "phy_bigrat_write (rs ! l) n (None, 0, c) = (st, b, q, c')" by (metis prod_cases4)
    note spec = write_rat_spec [OF a(1) a(3) [OF l], of n None 0, unfolded res rat_written_def prod.case]
    then obtain k where k: "spent k (begun c) c'" "ec_bytes c' = ec_bytes c" by blast
    have "same_env c c'" by (rule same_env_trans [OF begun_env(1) spentD(1) [OF k(1)]])
    from inv_canonical [OF this, of rs] have "rat_inv (c', rs)"
      using inv inv_spent [OF _ k, of "all_parts rs"] by (simp add: rat_inv_def)
    then show ?thesis using spec by (auto simp: refines_def res)
  qed
qed

section \<open>Histories\<close>

lemma refines_call:
  assumes inv: "rat_inv (c, rs)" and f: "callable f (length rs)"
  shows "refines f (c, rs) (perform f (c, rs))"
proof (cases f)
  case Init then show ?thesis using refines_init [OF inv] by simp
next
  case Destroy then show ?thesis using refines_destroy [OF inv] f by simp
next
  case Set_i64 then show ?thesis using refines_set [OF inv] f by blast
next
  case Read then show ?thesis using refines_read [OF inv] f by blast
next
  case Copy then show ?thesis using refines_copy [OF inv] f by blast
next
  case From_integer then show ?thesis using refines_integer [OF inv] f by blast
next
  case Negate then show ?thesis using refines_unary(1) [OF inv] f by simp
next
  case Reciprocal then show ?thesis using refines_unary(2) [OF inv] f by simp
next
  case Add then show ?thesis using refines_binary(1) [OF inv] f by simp
next
  case Subtract then show ?thesis using refines_binary(2) [OF inv] f by simp
next
  case Multiply then show ?thesis using refines_binary(3) [OF inv] f by simp
next
  case Divide then show ?thesis using refines_binary(4) [OF inv] f by simp
next
  case (Power k s e) then show ?thesis using refines_unary(3) [OF inv, of k s e] f by simp
next
  case Swap then show ?thesis using refines_swap [OF inv] f by simp
next
  case Compare then show ?thesis using refines_queries(1) [OF inv] f by simp
next
  case Write then show ?thesis using refines_queries(2) [OF inv] f by simp
qed

lemma rat_run_inv: "rat_run s \<Longrightarrow> rat_inv s"
proof (induction rule: rat_run.induct)
  case (create limits identity alloc c)
  then show ?case using inv_create [OF create] by (simp add: rat_inv_def)
next
  case (cancel c rs f)
  then show ?case using inv_cancel [of c "all_parts rs" f]
    by (simp add: rat_inv_def canonical_def live_rat_def phy_exact_set_cancel_def cancel_valid)
next
  case (call c rs f st s)
  show ?case using refines_call [OF call.IH call.hyps(2)] call.hyps(3)
    by (auto simp: refines_def split: if_splits)
qed

end
