(* ===== verification/BigRatDemo.thy ===== *)
theory BigRatDemo
  imports BigRatRefine "HOL-Library.Code_Target_Nat"
begin

text \<open>
  A small concrete history of exact rationals, on which the witnesses of the properties
  evaluate: two rationals, one and zero.
\<close>

section \<open>A history for the witnesses\<close>

definition rat_start :: rat_state where
  "rat_start = (the (phy_exact_context_create None 7 (\<lambda>_ _. True)), [])"

fun performed :: "rat_call list \<Rightarrow> rat_state \<Rightarrow> rat_state run" where
  "performed [] s = Some (PHY_OK, s)"
| "performed (f # fs) s = (case perform f s of None \<Rightarrow> None
     | Some (st, s') \<Rightarrow> if st = PHY_OK then performed fs s' else Some (st, s'))"

definition rat_demo :: rat_state where
  "rat_demo = snd (the (performed [Init, Init, Set_i64 0 1 1] rat_start))"

lemma rat_start_run: "rat_run rat_start"
  unfolding rat_start_def
  by (rule rat_run.create [of None 7 "\<lambda>_ _. True"])
    (simp_all add: sized_limits_def phy_exact_context_create_def resolve_limits_def phy_exact_limits_defaults_def
      sizeof_exact_context_def PHY_EXACT_MAX_LIMBS_CEILING_def Let_def)

lemma rat_demo_performed: "map_option fst (performed [Init, Init, Set_i64 0 1 1] rat_start) = Some PHY_OK"
  by code_simp

text \<open>A successful sequence of calls follows the abstract machine.\<close>

lemma performed_step:
  assumes "performed (f # fs) (c, rs) = Some (PHY_OK, s)" "rat_run (c, rs)" "callable f (length rs)"
  obtains c' rs' where "performed fs (c', rs') = Some (PHY_OK, s)" "rat_run (c', rs')"
    "effect f (map rval rs) = Some (map rval rs')" "length rs' = length (the (effect f (map rval rs)))"
proof -
  obtain c' rs' where p: "perform f (c, rs) = Some (PHY_OK, c', rs')" "performed fs (c', rs') = Some (PHY_OK, s)"
    using assms(1) by (auto split: option.splits prod.splits if_splits)
  have e: "effect f (map rval rs) = Some (map rval rs')"
    using refines_call [OF rat_run_inv [OF assms(2)] assms(3)] by (simp add: refines_def p(1))
  show ?thesis using that [OF p(2) rat_run.call [OF assms(2,3) p(1)] e] e by simp
qed

lemma rat_demo_values: "rat_run rat_demo \<and> map rval (snd rat_demo) = [1, 0]"
proof -
  let ?c = "fst rat_start"
  obtain s where s: "performed [Init, Init, Set_i64 0 1 1] (?c, []) = Some (PHY_OK, s)"
    using rat_demo_performed by (auto simp: rat_start_def)
  obtain c1 rs1 where 1: "performed [Init, Set_i64 0 1 1] (c1, rs1) = Some (PHY_OK, s)" "rat_run (c1, rs1)" "map rval rs1 = [0]"
    by (rule performed_step [OF s]) (use rat_start_run in \<open>simp_all add: rat_start_def\<close>)
  obtain c2 rs2 where 2: "performed [Set_i64 0 1 1] (c2, rs2) = Some (PHY_OK, s)" "rat_run (c2, rs2)" "map rval rs2 = [0, 0]"
    by (rule performed_step [OF 1(1,2)]) (use 1(3) in auto)
  have l: "length rs2 = 2" using arg_cong [OF 2(3), of length] by simp
  obtain c3 rs3 where 3: "performed [] (c3, rs3) = Some (PHY_OK, s)" "rat_run (c3, rs3)" "map rval rs3 = [1, 0]"
    by (rule performed_step [OF 2(1,2)]) (use 2(3) l in \<open>auto simp: One_rat_def\<close>)
  have d: "rat_demo = (c3, rs3)" using s 3(1) by (simp add: rat_demo_def rat_start_def)
  show ?thesis unfolding d using 3(2,3) by simp
qed

lemma rat_demo_run: "rat_run (fst rat_demo, snd rat_demo)"
  using rat_demo_values by simp

lemma rat_demo_length: "length (snd rat_demo) = 2"
  using arg_cong [OF conjunct2 [OF rat_demo_values], of length] by simp

lemma rat_demo_nth: "rval (snd rat_demo ! 0) = 1" "rval (snd rat_demo ! 1) = 0"
  using conjunct2 [OF rat_demo_values] rat_demo_length
  by (metis nth_Cons_0 nth_map zero_less_numeral) (metis One_nat_def lessI nth_Cons_0 nth_Cons_Suc nth_map numeral_2_eq_2 rat_demo_length conjunct2 [OF rat_demo_values])

lemma rat_demo_parts:
  "ival (br_num (snd rat_demo ! 0)) = 1" "ival (br_den (snd rat_demo ! 0)) = 1"
  "ival (br_num (snd rat_demo ! 1)) = 0" "ival (br_den (snd rat_demo ! 1)) = 1"
proof -
  note c = rat_invD(2) [OF rat_run_inv [OF rat_demo_run]]
  have "pair (snd rat_demo ! 0) = quotient_of 1" "pair (snd rat_demo ! 1) = quotient_of 0"
    using c [of 0] c [of 1] rat_demo_length rat_demo_nth by (simp_all add: canonical_def)
  then show "ival (br_num (snd rat_demo ! 0)) = 1" "ival (br_den (snd rat_demo ! 0)) = 1"
    "ival (br_num (snd rat_demo ! 1)) = 0" "ival (br_den (snd rat_demo ! 1)) = 1"
    by (simp_all add: pair_def)
qed

end
