(* ===== verification/BigRatProperties.thy ===== *)
theory BigRatProperties
  imports BigRatDemo
begin

text \<open>
  The properties of the exact rationals, on every state of every history of a context: the
  calls refine the arithmetic of the rational numbers, the representation is canonical, order
  and text.
\<close>

section \<open>Refinement and representation\<close>

text \<open>
  C2. Every call on the exact rationals returns, and a successful one does what the abstract
  machine does to the rational numbers the handles stand for, with any sharing between operands
  and output. A call that fails leaves every handle as it was, and it fails only for lack of
  resources, or with a domain or parse error where the abstract machine has no result.
\<close>

theorem rational_calls_refine:
  assumes run: "rat_run (c, rs)" and f: "callable f (length rs)"
  shows "\<exists>st c' rs'. perform f (c, rs) = Some (st, c', rs') \<and> rat_run (c', rs') \<and>
    (if st = PHY_OK then effect f (map rval rs) = Some (map rval rs')
     else rs' = rs \<and> (resource_failure c st \<or>
       effect f (map rval rs) = None \<and> (st = PHY_ERR_DOMAIN \<or> st = PHY_ERR_PARSE)))"
proof -
  note r = refines_call [OF rat_run_inv [OF run] f]
  then obtain st c' rs' where p: "perform f (c, rs) = Some (st, c', rs')" by (auto simp: refines_def run_ok_def split: option.splits)
  show ?thesis using r rat_run.call [OF run f p] by (auto simp: refines_def p split: if_splits)
qed

theorem rational_calls_refine_witness:
  "\<exists>st c rs. perform (Subtract 1 1 0) rat_demo = Some (st, c, rs) \<and>
     (if st = PHY_OK then map rval rs = [1, - 1] else rs = snd rat_demo \<and> resource_failure (fst rat_demo) st)"
proof -
  have "map rval (snd rat_demo) = [1, 0]" using rat_demo_values by simp
  then show ?thesis
    using rational_calls_refine [OF rat_demo_run, of "Subtract 1 1 0"] rat_demo_length by (auto split: if_splits)
qed

text \<open>
  C8. The rationals of a history are well formed: the code's validation accepts each of them, the
  denominator is positive, and numerator and denominator are the lowest terms of the value; so
  rationals with the same value have the same numerator and denominator.
\<close>

theorem rational_history_canonical:
  assumes run: "rat_run (c, rs)"
  shows "list_all (\<lambda>r. phy_bigrat_validate c r = PHY_OK \<and> 0 < ival (br_den r) \<and> coprime (ival (br_num r)) (ival (br_den r)) \<and>
      quotient_of (rval r) = (ival (br_num r), ival (br_den r))) rs"
proof -
  have inv: "rat_inv (c, rs)" by (rule rat_run_inv [OF run])
  have "phy_bigrat_validate c r = PHY_OK \<and> 0 < ival (br_den r) \<and> coprime (ival (br_num r)) (ival (br_den r)) \<and>
      quotient_of (rval r) = (ival (br_num r), ival (br_den r))" if "r \<in> set rs" for r
  proof -
    have r: "canonical c r" using inv that by (simp add: rat_inv_def)
    then have q: "quotient_of (rval r) = (ival (br_num r), ival (br_den r))" by (simp add: canonical_def pair_def)
    show ?thesis
      using canonical_operand [OF r] quotient_of_denom_pos [OF q] quotient_of_coprime [OF q] q
      by (simp add: phy_bigrat_validate_def operand_def)
  qed
  then show ?thesis by (simp add: list_all_iff)
qed

theorem rational_history_canonical_witness:
  "phy_bigrat_validate (fst rat_demo) (snd rat_demo ! 1) = PHY_OK \<and> ival (br_num (snd rat_demo ! 1)) = 0 \<and>
   ival (br_den (snd rat_demo ! 1)) = 1"
proof -
  have "snd rat_demo ! 1 \<in> set (snd rat_demo)" using rat_demo_length by simp
  then show ?thesis
    using rational_history_canonical [OF rat_demo_run] unfolding list_all_iff
    by (auto simp: rat_demo_parts [unfolded One_nat_def])
qed

section \<open>Order\<close>

text \<open>
  C37. Comparison by cross multiplication decides the order of the rational numbers; a failure
  is a lack of resources and leaves the result of the caller alone.
\<close>

theorem rational_compare_order:
  assumes run: "rat_run (c, rs)" and k: "l < length rs" "r < length rs"
  shows "\<exists>st k c'. phy_bigrat_compare (rs ! l) (rs ! r) (k0, c) = Some (st, k, c') \<and>
    (if st = PHY_OK then k = (if rval (rs ! l) < rval (rs ! r) then - 1 else if rval (rs ! l) = rval (rs ! r) then 0 else 1)
     else k = k0 \<and> resource_failure c st)"
proof -
  note inv = rat_invD [OF rat_run_inv [OF run]]
  show ?thesis
    using compare_rat_spec [OF inv(1) inv(3) [OF k(1)] inv(3) [OF k(2)], of k0]
    by (auto simp: run_ok_def split: option.splits if_splits)
qed

theorem rational_compare_order_witness:
  "\<exists>st k c. phy_bigrat_compare (snd rat_demo ! 1) (snd rat_demo ! 0) (7, fst rat_demo) = Some (st, k, c) \<and>
     k = (if st = PHY_OK then - 1 else 7)"
  using rational_compare_order [OF rat_demo_run, of 1 0 7] rat_demo_length rat_demo_nth by (auto split: if_splits)

section \<open>Text\<close>

text \<open>
  C18. Writing a rational produces the canonical text, numerator, slash and denominator, without
  slash and denominator for an integer, closed by its terminator, and reports the bytes needed;
  a buffer that is too small or any lack of resources leaves the buffer as it was.
\<close>

theorem rational_write_canonical:
  assumes run: "rat_run (c, rs)" and s: "s < length rs"
    and w: "phy_bigrat_write (rs ! s) bufsize (buffer, required, c) = (st, buffer', required', c')"
  shows "if st = PHY_OK then required' = length (rat_text (rs ! s)) + 1 \<and> (buffer \<noteq> None \<longrightarrow> required' \<le> bufsize) \<and>
      buffer' = map_option (store_text (rat_text (rs ! s))) buffer
    else buffer' = buffer \<and> resource_failure c st \<and> (required' = required \<or> required' = length (rat_text (rs ! s)) + 1)"
proof -
  note inv = rat_invD [OF rat_run_inv [OF run]]
  show ?thesis
    by (rule conjunct2 [OF conjunct2 [OF write_rat_spec [OF inv(1) inv(3) [OF s], of bufsize buffer required, unfolded w rat_written_def prod.case]]])
qed

theorem rational_write_canonical_witness:
  "\<exists>st b n c. phy_bigrat_write (snd rat_demo ! 1) 4 (Some ''abcd'', 0, fst rat_demo) = (st, b, n, c) \<and>
     b = Some (if st = PHY_OK then ''0'' @ [CHR 0x00] @ ''cd'' else ''abcd'')"
proof -
  obtain st b n c where w: "phy_bigrat_write (snd rat_demo ! 1) 4 (Some ''abcd'', 0, fst rat_demo) = (st, b, n, c)" by (metis prod_cases4)
  have "decimal_text 0 = ''0''" by code_simp
  then have "rat_text (snd rat_demo ! 1) = ''0''" by (simp add: rat_text_def rat_demo_parts [unfolded One_nat_def])
  then show ?thesis using rational_write_canonical [OF rat_demo_run _ w] rat_demo_length w
    by (auto simp: store_text_def split: if_splits)
qed

text \<open>
  C36. Round trips: the parts of a rational written in decimal and read back, into any handle,
  give the rational again, and so do the 64-bit parts, where the rational has them; the reading
  and the assignment fail only for lack of resources.
\<close>

theorem rational_parts_roundtrip:
  assumes run: "rat_run (c, rs)" and k: "k < length rs" "s < length rs"
  shows "(\<exists>st out c'. phy_bigrat_read (Some (decimal_text (ival (br_num (rs ! s))))) (Some (decimal_text (ival (br_den (rs ! s))))) (rs ! k, c) =
      Some (st, out, c') \<and> (if st = PHY_OK then pair out = pair (rs ! s) else out = rs ! k \<and> resource_failure c st)) \<and>
    (\<forall>n d. phy_bigrat_try_i64 c (rs ! s) = Some (n, d) \<longrightarrow>
      (\<exists>st out c'. phy_bigrat_set_i64 n d (rs ! k, c) = Some (st, out, c') \<and>
        (if st = PHY_OK then pair out = pair (rs ! s) else out = rs ! k \<and> resource_failure c st)))"
proof -
  note inv = rat_invD [OF rat_run_inv [OF run]]
  let ?r = "rs ! s"
  note c = inv(1) and o1 = inv(4,3) [OF k(1)] and v = inv(2,3) [OF k(2)]
  have d: "ival (br_den ?r) \<noteq> 0" using operandD(3) [OF v(2)] by simp
  have p: "quotient_of (Fract (ival (br_num ?r)) (ival (br_den ?r))) = pair ?r"
    using live_pair [OF v(1)] by (simp add: rval_def)
  have settled: "\<exists>st out c'. w = Some (st, out, c') \<and> (if st = PHY_OK then pair out = pair ?r else out = rs ! k \<and> resource_failure c st)"
    if "rat_settled (rs ! k) c (pair ?r) (resource_failure c) w" for w
    using that by (auto simp: rat_settled_def run_ok_def split: option.splits if_splits)
  have n: "- (2 ^ 63) \<le> n \<and> n < 2 ^ 63 \<and> - (2 ^ 63) \<le> e \<and> e < 2 ^ 63 \<and> n = ival (br_num ?r) \<and> e = ival (br_den ?r)"
    if "phy_bigrat_try_i64 c ?r = Some (n, e)" for n e
    using that try_i64_spec [OF operandD(1) [OF v(2)]] try_i64_spec [OF operandD(2) [OF v(2)]]
    by (auto simp: phy_bigrat_try_i64_def split: if_splits option.splits)
  let ?n = "decimal_text (ival (br_num ?r))" and ?d = "decimal_text (ival (br_den ?r))"
  have "rat_settled (rs ! k) c (pair ?r) (resource_failure c) (phy_bigrat_read (Some ?n) (Some ?d) (rs ! k, c))"
    using read_rat_spec [OF c o1, where s = ?n and t = ?d] d p by (simp add: read_decimal_text)
  note r = settled [OF this]
  have w: "\<exists>st out c'. phy_bigrat_set_i64 x y (rs ! k, c) = Some (st, out, c') \<and>
      (if st = PHY_OK then pair out = pair ?r else out = rs ! k \<and> resource_failure c st)"
    if "phy_bigrat_try_i64 c ?r = Some (x, y)" for x y
    using n [OF that] d by (intro settled) (use set_rat_spec(1) [OF c o1, of x y] p in simp)
  show ?thesis using r w by blast
qed

theorem rational_parts_roundtrip_witness:
  "\<exists>st out c. phy_bigrat_read (Some ''0'') (Some ''1'') (snd rat_demo ! 0, fst rat_demo) = Some (st, out, c) \<and>
     (if st = PHY_OK then pair out = (0, 1) else out = snd rat_demo ! 0 \<and> resource_failure (fst rat_demo) st)"
proof -
  have "decimal_text 0 = ''0''" "decimal_text 1 = ''1''" by code_simp+
  then have p: "decimal_text (ival (br_num (snd rat_demo ! 1))) = ''0''" "decimal_text (ival (br_den (snd rat_demo ! 1))) = ''1''"
    "pair (snd rat_demo ! 1) = (0, 1)"
    by (simp_all add: pair_def rat_demo_parts [unfolded One_nat_def])
  have k: "0 < length (snd rat_demo)" "1 < length (snd rat_demo)" using rat_demo_length by simp_all
  show ?thesis by (rule conjunct1 [OF rational_parts_roundtrip [OF rat_demo_run k], unfolded p])
qed

end
