(* ===== verification/Gaussian.thy ===== *)
theory Gaussian
  imports BigRatOps
begin

text \<open>
  The exact Gaussian rationals of \<open>src/exact/gaussian.c\<close>: two rationals of one context. An
  operation fills a fresh temporary and swaps both parts into its output at the end. The
  operations are over the pair of the output and the context; operands are passed by value.
\<close>

section \<open>Values\<close>

record phy_gaussian =
  ga_real :: phy_bigrat
  ga_imag :: phy_bigrat
  ga_live :: bool

definition null_gaussian :: phy_gaussian where
  "null_gaussian = \<lparr>ga_real = null_bigrat, ga_imag = null_bigrat, ga_live = False\<rparr>"

text \<open>The owner of a valid value, \<open>None\<close> for the null pointer.\<close>

definition gaussian_context :: "phy_exact_context \<Rightarrow> phy_gaussian \<Rightarrow> nat option" where
  "gaussian_context c v =
     (if \<not> ga_live v \<or> phy_bigrat_validate c (ga_real v) \<noteq> PHY_OK \<or> phy_bigrat_validate c (ga_imag v) \<noteq> PHY_OK \<or>
         bg_owner (br_num (ga_real v)) \<noteq> bg_owner (br_num (ga_imag v))
      then None else Some (bg_owner (br_num (ga_real v))))"

definition gaussian_compatible :: "phy_exact_context \<Rightarrow> phy_gaussian \<Rightarrow> phy_gaussian \<Rightarrow> phy_gaussian \<Rightarrow> bool" where
  "gaussian_compatible c left right out \<longleftrightarrow> gaussian_context c left \<noteq> None \<and>
     gaussian_context c right = gaussian_context c left \<and> gaussian_context c out = gaussian_context c left"

section \<open>Life cycle\<close>

definition phy_gaussian_init :: "phy_gaussian \<times> phy_exact_context \<Rightarrow> phy_status \<times> phy_gaussian \<times> phy_exact_context" where
  "phy_gaussian_init st = (case st of (v, c) \<Rightarrow>
     if \<not> phy_exact_context_is_valid c then (PHY_ERR_INVALID_ARGUMENT, v, c)
     else case phy_bigrat_init (null_bigrat, c) of (status1, re, c1) \<Rightarrow>
     case (if status1 = PHY_OK then phy_bigrat_init (null_bigrat, c1) else (status1, null_bigrat, c1)) of
       (status2, im, c2) \<Rightarrow>
     if status2 \<noteq> PHY_OK then
       (status2, null_gaussian, snd (phy_bigrat_destroy re (snd (phy_bigrat_destroy im c2))))
     else (PHY_OK, \<lparr>ga_real = re, ga_imag = im, ga_live = True\<rparr>, c2))"

definition phy_gaussian_destroy :: "phy_gaussian \<Rightarrow> phy_exact_context \<Rightarrow> phy_gaussian \<times> phy_exact_context" where
  "phy_gaussian_destroy v c =
     (if \<not> ga_live v then (v, c)
      else (null_gaussian, snd (phy_bigrat_destroy (ga_real v) (snd (phy_bigrat_destroy (ga_imag v) c)))))"

definition phy_gaussian_validate :: "phy_exact_context \<Rightarrow> phy_gaussian \<Rightarrow> phy_status" where
  "phy_gaussian_validate c v = (if gaussian_context c v \<noteq> None then PHY_OK else PHY_ERR_CORRUPT_DOCUMENT)"

text \<open>\<open>gaussian_commit\<close>: both parts are exchanged or none is.\<close>

definition gaussian_commit ::
  "phy_exact_context \<Rightarrow> phy_gaussian \<times> phy_gaussian \<Rightarrow> phy_status \<times> phy_gaussian \<times> phy_gaussian" where
  "gaussian_commit c st = (case st of (t, out) \<Rightarrow>
     case phy_bigrat_swap c (ga_real t, ga_real out) of (status1, tr, our) \<Rightarrow>
     if status1 \<noteq> PHY_OK then (status1, t\<lparr>ga_real := tr\<rparr>, out\<lparr>ga_real := our\<rparr>)
     else case phy_bigrat_swap c (ga_imag t, ga_imag out) of (status2, ti, oui) \<Rightarrow>
     if status2 \<noteq> PHY_OK then
       (case phy_bigrat_swap c (tr, our) of (rollback, tr2, our2) \<Rightarrow>
          (if rollback \<noteq> PHY_OK then PHY_ERR_CORRUPT_DOCUMENT else status2,
           t\<lparr>ga_real := tr2, ga_imag := ti\<rparr>, out\<lparr>ga_real := our2, ga_imag := oui\<rparr>))
     else (PHY_OK, t\<lparr>ga_real := tr, ga_imag := ti\<rparr>, out\<lparr>ga_real := our, ga_imag := oui\<rparr>))"

section \<open>Transactions\<close>

type_synonym gaussian_fill = "phy_gaussian \<times> phy_exact_context \<Rightarrow> (phy_gaussian \<times> phy_exact_context) run"

definition gaussian_transaction :: "gaussian_fill \<Rightarrow> gaussian_fill" where
  "gaussian_transaction fill st = (case st of (out, c) \<Rightarrow>
     if gaussian_context c out = None then Some (PHY_ERR_INVALID_ARGUMENT, out, c)
     else case phy_exact_operation_begin c of (status0, c0) \<Rightarrow>
     case (if status0 = PHY_OK then phy_gaussian_init (null_gaussian, c0) else (status0, null_gaussian, c0)) of
       (status1, t1, c1) \<Rightarrow>
     map_option (\<lambda>(status2, t2, c2).
         case (if status2 = PHY_OK then gaussian_commit c2 (t2, out) else (status2, t2, out)) of
           (status3, t3, out') \<Rightarrow>
         case phy_exact_operation_end (snd (phy_gaussian_destroy t3 c2)) status3 of
           (status4, c4) \<Rightarrow> (status4, out', c4))
       (if status1 = PHY_OK then fill (t1, c1) else Some (status1, t1, c1)))"

text \<open>
  Local rationals: initialised in order after the ones at hand, destroyed in reverse order at
  the end, whatever the status.
\<close>

definition with_locals :: "nat \<Rightarrow> (work \<Rightarrow> work run) list \<Rightarrow> work \<Rightarrow> work run" where
  "with_locals n fs w = (case w of (rs, ts, c) \<Rightarrow>
     map_option (\<lambda>(status, rs', ts', c').
         (status, take (length rs) rs', ts', fold (\<lambda>r c. snd (phy_bigrat_destroy r c)) (rev (drop (length rs) rs')) c'))
       (run_steps (map init_rat [length rs..<length rs + n] @ fs) (rs @ replicate n null_bigrat, ts, c)))"

text \<open>A fill works on the two parts of the temporary and on \<open>n\<close> locals from number 2 on.\<close>

definition fill_with :: "nat \<Rightarrow> (work \<Rightarrow> work run) list \<Rightarrow> gaussian_fill" where
  "fill_with n fs st = (case st of (t, c) \<Rightarrow>
     map_option (\<lambda>(status, rs, ts, c'). (status, t\<lparr>ga_real := rs ! 0, ga_imag := rs ! 1\<rparr>, c'))
       (with_locals n fs ([ga_real t, ga_imag t], [], c)))"

section \<open>Assignment\<close>

definition fill_i64 :: "int \<Rightarrow> int \<Rightarrow> int \<Rightarrow> int \<Rightarrow> gaussian_fill" where
  "fill_i64 real_numerator real_denominator imaginary_numerator imaginary_denominator =
     fill_with 0 [on_rat 0 (\<lambda>rs ts. phy_bigrat_set_i64 real_numerator real_denominator),
                  on_rat 1 (\<lambda>rs ts. phy_bigrat_set_i64 imaginary_numerator imaginary_denominator)]"

definition phy_gaussian_set_i64 :: "int \<Rightarrow> int \<Rightarrow> int \<Rightarrow> int \<Rightarrow> gaussian_fill" where
  "phy_gaussian_set_i64 real_numerator real_denominator imaginary_numerator imaginary_denominator =
     gaussian_transaction (fill_i64 real_numerator real_denominator imaginary_numerator imaginary_denominator)"

definition fill_text :: "string option \<Rightarrow> string option \<Rightarrow> string option \<Rightarrow> string option \<Rightarrow> gaussian_fill" where
  "fill_text real_numerator real_denominator imaginary_numerator imaginary_denominator =
     fill_with 0 [on_rat 0 (\<lambda>rs ts. phy_bigrat_read real_numerator real_denominator),
                  on_rat 1 (\<lambda>rs ts. phy_bigrat_read imaginary_numerator imaginary_denominator)]"

definition phy_gaussian_read :: "string option \<Rightarrow> string option \<Rightarrow> string option \<Rightarrow> string option \<Rightarrow> gaussian_fill" where
  "phy_gaussian_read real_numerator real_denominator imaginary_numerator imaginary_denominator st =
     (if real_numerator = None \<or> real_denominator = None \<or> imaginary_numerator = None \<or> imaginary_denominator = None
      then Some (PHY_ERR_INVALID_ARGUMENT, st)
      else gaussian_transaction (fill_text real_numerator real_denominator imaginary_numerator imaginary_denominator) st)"

definition fill_copy :: "phy_gaussian \<Rightarrow> gaussian_fill" where
  "fill_copy source =
     fill_with 0 [on_rat 0 (\<lambda>rs ts. phy_bigrat_copy (ga_real source) False),
                  on_rat 1 (\<lambda>rs ts. phy_bigrat_copy (ga_imag source) False)]"

definition phy_gaussian_copy :: "phy_gaussian \<Rightarrow> gaussian_fill" where
  "phy_gaussian_copy source st = (case st of (out, c) \<Rightarrow>
     if \<not> gaussian_compatible c source source out then Some (PHY_ERR_INVALID_ARGUMENT, out, c)
     else gaussian_transaction (fill_copy source) (out, c))"

section \<open>Ring operations\<close>

definition fill_add :: "phy_gaussian \<Rightarrow> phy_gaussian \<Rightarrow> gaussian_fill" where
  "fill_add left right =
     fill_with 0 [on_rat 0 (\<lambda>rs ts. phy_bigrat_add (ga_real left) (ga_real right)),
                  on_rat 1 (\<lambda>rs ts. phy_bigrat_add (ga_imag left) (ga_imag right))]"

definition phy_gaussian_add :: "phy_gaussian \<Rightarrow> phy_gaussian \<Rightarrow> gaussian_fill" where
  "phy_gaussian_add left right st = (case st of (out, c) \<Rightarrow>
     if \<not> gaussian_compatible c left right out then Some (PHY_ERR_INVALID_ARGUMENT, out, c)
     else gaussian_transaction (fill_add left right) (out, c))"

definition fill_negate :: "phy_gaussian \<Rightarrow> gaussian_fill" where
  "fill_negate v =
     fill_with 0 [on_rat 0 (\<lambda>rs ts. phy_bigrat_negate (ga_real v)),
                  on_rat 1 (\<lambda>rs ts. phy_bigrat_negate (ga_imag v))]"

definition phy_gaussian_negate :: "phy_gaussian \<Rightarrow> gaussian_fill" where
  "phy_gaussian_negate v st = (case st of (out, c) \<Rightarrow>
     if \<not> gaussian_compatible c v v out then Some (PHY_ERR_INVALID_ARGUMENT, out, c)
     else gaussian_transaction (fill_negate v) (out, c))"

definition fill_subtract :: "phy_gaussian \<Rightarrow> phy_gaussian \<Rightarrow> gaussian_fill" where
  "fill_subtract left right =
     fill_with 0 [on_rat 0 (\<lambda>rs ts. phy_bigrat_subtract (ga_real left) (ga_real right)),
                  on_rat 1 (\<lambda>rs ts. phy_bigrat_subtract (ga_imag left) (ga_imag right))]"

definition phy_gaussian_subtract :: "phy_gaussian \<Rightarrow> phy_gaussian \<Rightarrow> gaussian_fill" where
  "phy_gaussian_subtract left right st = (case st of (out, c) \<Rightarrow>
     if \<not> gaussian_compatible c left right out then Some (PHY_ERR_INVALID_ARGUMENT, out, c)
     else gaussian_transaction (fill_subtract left right) (out, c))"

text \<open>Locals: ac, bd, ad, bc.\<close>

definition fill_multiply :: "phy_gaussian \<Rightarrow> phy_gaussian \<Rightarrow> gaussian_fill" where
  "fill_multiply left right =
     fill_with 4 [on_rat 2 (\<lambda>rs ts. phy_bigrat_multiply (ga_real left) (ga_real right)),
                  on_rat 3 (\<lambda>rs ts. phy_bigrat_multiply (ga_imag left) (ga_imag right)),
                  on_rat 4 (\<lambda>rs ts. phy_bigrat_multiply (ga_real left) (ga_imag right)),
                  on_rat 5 (\<lambda>rs ts. phy_bigrat_multiply (ga_imag left) (ga_real right)),
                  on_rat 0 (\<lambda>rs ts. phy_bigrat_subtract (rs ! 2) (rs ! 3)),
                  on_rat 1 (\<lambda>rs ts. phy_bigrat_add (rs ! 4) (rs ! 5))]"

definition phy_gaussian_multiply :: "phy_gaussian \<Rightarrow> phy_gaussian \<Rightarrow> gaussian_fill" where
  "phy_gaussian_multiply left right st = (case st of (out, c) \<Rightarrow>
     if \<not> gaussian_compatible c left right out then Some (PHY_ERR_INVALID_ARGUMENT, out, c)
     else gaussian_transaction (fill_multiply left right) (out, c))"

section \<open>Norm and division\<close>

definition swap_rat_step :: "nat \<Rightarrow> nat \<Rightarrow> work \<Rightarrow> work run" where
  "swap_rat_step i j w = (case w of (rs, ts, c) \<Rightarrow>
     case phy_bigrat_swap c (rs ! i, rs ! j) of (status, l, r) \<Rightarrow> Some (status, rs[i := l, j := r], ts, c))"

text \<open>Locals after the output: the square of the real part, of the imaginary part, the norm.\<close>

definition norm_into :: "phy_gaussian \<Rightarrow> phy_bigrat \<times> phy_exact_context \<Rightarrow> (phy_bigrat \<times> phy_exact_context) run" where
  "norm_into v st = (case st of (out, c) \<Rightarrow>
     map_option (\<lambda>(status, rs, ts, c'). (status, rs ! 0, c'))
       (with_locals 3 [on_rat 1 (\<lambda>rs ts. phy_bigrat_multiply (ga_real v) (ga_real v)),
                       on_rat 2 (\<lambda>rs ts. phy_bigrat_multiply (ga_imag v) (ga_imag v)),
                       on_rat 3 (\<lambda>rs ts. phy_bigrat_add (rs ! 1) (rs ! 2)),
                       swap_rat_step 3 0] ([out], [], c)))"

definition phy_gaussian_norm :: "phy_gaussian \<Rightarrow> phy_bigrat \<times> phy_exact_context \<Rightarrow> (phy_bigrat \<times> phy_exact_context) run" where
  "phy_gaussian_norm v st = (case st of (out, c) \<Rightarrow>
     if gaussian_context c v = None \<or> phy_bigrat_validate c out \<noteq> PHY_OK \<or>
        gaussian_context c v \<noteq> Some (bg_owner (br_num out))
     then Some (PHY_ERR_INVALID_ARGUMENT, out, c)
     else case phy_exact_operation_begin c of (status, c0) \<Rightarrow>
     map_option (\<lambda>(status1, out', c1). case phy_exact_operation_end c1 status1 of (status2, c2) \<Rightarrow> (status2, out', c2))
       (if status = PHY_OK then norm_into v (out, c0) else Some (status, out, c0)))"

definition refuse_zero :: "nat \<Rightarrow> work \<Rightarrow> work run" where
  "refuse_zero k w = (case w of (rs, ts, c) \<Rightarrow>
     Some (if phy_bigrat_sign c (rs ! k) = 0 then PHY_ERR_DOMAIN else PHY_OK, w))"

text \<open>Locals: the norm and the negated imaginary part.\<close>

definition fill_reciprocal :: "phy_gaussian \<Rightarrow> gaussian_fill" where
  "fill_reciprocal v =
     fill_with 2 [on_rat 2 (\<lambda>rs ts. norm_into v),
                  refuse_zero 2,
                  on_rat 3 (\<lambda>rs ts. phy_bigrat_negate (ga_imag v)),
                  on_rat 0 (\<lambda>rs ts. phy_bigrat_divide (ga_real v) (rs ! 2)),
                  on_rat 1 (\<lambda>rs ts. phy_bigrat_divide (rs ! 3) (rs ! 2))]"

definition phy_gaussian_reciprocal :: "phy_gaussian \<Rightarrow> gaussian_fill" where
  "phy_gaussian_reciprocal v st = (case st of (out, c) \<Rightarrow>
     if \<not> gaussian_compatible c v v out then Some (PHY_ERR_INVALID_ARGUMENT, out, c)
     else gaussian_transaction (fill_reciprocal v) (out, c))"

definition phy_gaussian_divide :: "phy_gaussian \<Rightarrow> phy_gaussian \<Rightarrow> gaussian_fill" where
  "phy_gaussian_divide dividend divisor st = (case st of (out, c) \<Rightarrow>
     if \<not> gaussian_compatible c dividend divisor out then Some (PHY_ERR_INVALID_ARGUMENT, out, c)
     else case phy_exact_operation_begin c of (status0, c0) \<Rightarrow>
     case (if status0 = PHY_OK then phy_gaussian_init (null_gaussian, c0) else (status0, null_gaussian, c0)) of
       (status1, r1, c1) \<Rightarrow>
     case (if status1 = PHY_OK then phy_gaussian_reciprocal divisor (r1, c1) else Some (status1, r1, c1)) of
       None \<Rightarrow> None
     | Some (status2, r2, c2) \<Rightarrow>
     map_option (\<lambda>(status3, out', c3).
         case phy_exact_operation_end (snd (phy_gaussian_destroy r2 c3)) status3 of (status4, c4) \<Rightarrow> (status4, out', c4))
       (if status2 = PHY_OK then phy_gaussian_multiply dividend r2 (out, c2) else Some (status2, out, c2)))"

section \<open>Conjugation and powers\<close>

definition fill_conjugate :: "phy_gaussian \<Rightarrow> gaussian_fill" where
  "fill_conjugate v =
     fill_with 0 [on_rat 0 (\<lambda>rs ts. phy_bigrat_copy (ga_real v) False),
                  on_rat 1 (\<lambda>rs ts. phy_bigrat_negate (ga_imag v))]"

definition phy_gaussian_conjugate :: "phy_gaussian \<Rightarrow> gaussian_fill" where
  "phy_gaussian_conjugate v st = (case st of (out, c) \<Rightarrow>
     if \<not> gaussian_compatible c v v out then Some (PHY_ERR_INVALID_ARGUMENT, out, c)
     else gaussian_transaction (fill_conjugate v) (out, c))"

text \<open>The loop of the power: the result, the current square and the context.\<close>

function gaussian_pow_loop ::
  "u32 \<Rightarrow> phy_gaussian \<times> phy_gaussian \<times> phy_exact_context \<Rightarrow> (phy_gaussian \<times> phy_gaussian \<times> phy_exact_context) run" where
  "gaussian_pow_loop remaining st = (case st of (res, factor, c) \<Rightarrow>
     if remaining = 0 then Some (PHY_OK, res, factor, c)
     else case (if and remaining 1 \<noteq> 0 then phy_gaussian_multiply res factor (res, c) else Some (PHY_OK, res, c)) of
       None \<Rightarrow> None
     | Some (status1, res1, c1) \<Rightarrow>
       if status1 \<noteq> PHY_OK then Some (status1, res1, factor, c1)
       else
         let rest = drop_bit 1 remaining in
         if rest = 0 then Some (PHY_OK, res1, factor, c1)
         else case phy_gaussian_multiply factor factor (factor, c1) of None \<Rightarrow> None
         | Some (status2, factor2, c2) \<Rightarrow>
           if status2 \<noteq> PHY_OK then Some (status2, res1, factor2, c2)
           else gaussian_pow_loop rest (res1, factor2, c2))"
  by pat_completeness auto
termination
proof (relation "measure (\<lambda>(remaining, st). unat remaining)", goal_cases)
  case (2 remaining st)
  have "unat (drop_bit 1 remaining) = unat remaining div 2"
    by (subst unat_drop_bit_eq) (simp add: drop_bit_eq_div)
  then show ?case using 2 by (auto simp: unat_gt_0)
qed simp

declare gaussian_pow_loop.simps [simp del]

definition phy_gaussian_pow_i32 :: "phy_gaussian \<Rightarrow> int \<Rightarrow> gaussian_fill" where
  "phy_gaussian_pow_i32 root exponent st = (case st of (out, c) \<Rightarrow>
     if \<not> gaussian_compatible c root root out then Some (PHY_ERR_INVALID_ARGUMENT, out, c)
     else case phy_exact_operation_begin c of (status0, c0) \<Rightarrow>
     case (if status0 = PHY_OK then phy_gaussian_init (null_gaussian, c0) else (status0, null_gaussian, c0)) of
       (status1, res1, c1) \<Rightarrow>
     case (if status1 = PHY_OK then phy_gaussian_init (null_gaussian, c1) else (status1, null_gaussian, c1)) of
       (status2, factor2, c2) \<Rightarrow>
     case (if status2 = PHY_OK then phy_gaussian_set_i64 1 1 0 1 (res1, c2) else Some (status2, res1, c2)) of
       None \<Rightarrow> None
     | Some (status3, res3, c3) \<Rightarrow>
     case (if status3 \<noteq> PHY_OK then Some (status3, factor2, c3)
           else if exponent < 0 then phy_gaussian_reciprocal root (factor2, c3)
           else phy_gaussian_copy root (factor2, c3)) of
       None \<Rightarrow> None
     | Some (status4, factor4, c4) \<Rightarrow>
     map_option (\<lambda>(status5, res5, factor5, c5).
         case (if status5 = PHY_OK then gaussian_commit c5 (res5, out) else (status5, res5, out)) of
           (status6, res6, out') \<Rightarrow>
         case phy_exact_operation_end (snd (phy_gaussian_destroy res6 (snd (phy_gaussian_destroy factor5 c5)))) status6 of
           (status7, c7) \<Rightarrow> (status7, out', c7))
       (if status4 = PHY_OK then gaussian_pow_loop (exponent_magnitude exponent) (res3, factor4, c4)
        else Some (status4, res3, factor4, c4)))"

section \<open>Access\<close>

definition phy_gaussian_real :: "phy_exact_context \<Rightarrow> phy_gaussian \<Rightarrow> phy_bigrat option" where
  "phy_gaussian_real c v = (if gaussian_context c v \<noteq> None then Some (ga_real v) else None)"

definition phy_gaussian_imaginary :: "phy_exact_context \<Rightarrow> phy_gaussian \<Rightarrow> phy_bigrat option" where
  "phy_gaussian_imaginary c v = (if gaussian_context c v \<noteq> None then Some (ga_imag v) else None)"

end
