(* ===== verification/GaussianLaws.thy ===== *)
theory GaussianLaws
  imports Gaussian BigRatMachine
begin

text \<open>
  The contracts behind the Gaussian rationals: steps over a workspace of rationals, local
  rationals, fills, and the transaction, which replaces both parts of its output or none.
\<close>

section \<open>Workspaces of rationals\<close>

text \<open>The rationals of the workspace are canonical and worth \<open>qs\<close>.\<close>

definition ws :: "phy_exact_context \<Rightarrow> phy_bigint list \<Rightarrow> rat list \<Rightarrow> work \<Rightarrow> bool" where
  "ws c0 u0 qs w \<longleftrightarrow> worth c0 u0 (map (\<lambda>q. Some (quotient_of q)) qs) [] w"

definition ws_failed :: "phy_exact_context \<Rightarrow> phy_bigint list \<Rightarrow> nat \<Rightarrow> (phy_status \<Rightarrow> bool) \<Rightarrow> phy_status \<Rightarrow> work \<Rightarrow> bool" where
  "ws_failed c0 u0 m E st w \<longleftrightarrow> dirty c0 u0 m w \<and> fst (snd w) = [] \<and> E st"

lemma ws_context:
  assumes "ws c0 u0 qs (rs, ts, c)"
  shows "ctx_ok c" "ec_depth c \<noteq> 0" "same_env c0 c" "ts = []" "length rs = length qs"
  using worth_context [OF assms [unfolded ws_def]] worth_lengths [OF assms [unfolded ws_def]] by auto

lemma ws_rat:
  assumes a: "ws c0 u0 qs (rs, ts, c)" and k: "k < length qs"
  shows "operand c (rs ! k)" "owned c (rs ! k)" "rval (rs ! k) = qs ! k" "canonical c (rs ! k)"
proof -
  note b = a [unfolded ws_def]
  have n: "k < length (map (\<lambda>q. Some (quotient_of q)) qs)" "map (\<lambda>q. Some (quotient_of q)) qs ! k = Some (quotient_of (qs ! k))"
    using k by simp_all
  note v = worth_rat(3,4) [OF b n]
  show "operand c (rs ! k)" "rval (rs ! k) = qs ! k" using canonical_valid [OF v] by (simp_all add: operand_def)
  then show "canonical c (rs ! k)" using v by (simp add: canonical_def)
  show "owned c (rs ! k)" by (rule worth_owned [OF b n])
qed

text \<open>A step that assigns one rational by an operation with its own contract.\<close>

lemma rat_step:
  assumes a: "ws c0 u0 qs w" and k: "k < length qs"
    and f: "\<And>rs c. ws c0 u0 qs (rs, [], c) \<Longrightarrow> computes_rat c (f rs []) (rs ! k) (quotient_of q) E"
  shows "run_ok (on_rat k f w) (ws c0 u0 (qs[k := q])) (ws_failed c0 u0 (length qs) E)"
proof -
  have r: "run_ok (on_rat k f w) (worth c0 u0 ((map (\<lambda>q. Some (quotient_of q)) qs)[k := Some (quotient_of q)]) [])
      (\<lambda>st w. dirty c0 u0 (length (map (\<lambda>q. Some (quotient_of q)) qs)) w \<and> E st)"
  proof (rule step_rat [OF a [unfolded ws_def]])
    fix rs ts c assume b: "worth c0 u0 (map (\<lambda>q. Some (quotient_of q)) qs) [] (rs, ts, c)"
    then have "ts = []" using worth_lengths [OF b] by simp
    then show "computes_rat c (f rs ts) (rs ! k) (quotient_of q) E" using f b by (simp add: ws_def)
  qed (use k in simp)
  have t: "fst (snd w') = []" if "on_rat k f w = Some (st, w')" for st w'
  proof -
    obtain rs ts c where w: "w = (rs, ts, c)" by (cases w)
    show ?thesis using that ws_context(4) [OF a [unfolded w]] by (auto simp: w on_rat_def)
  qed
  obtain st w' where res: "on_rat k f w = Some (st, w')"
    "st = PHY_OK \<Longrightarrow> worth c0 u0 ((map (\<lambda>q. Some (quotient_of q)) qs)[k := Some (quotient_of q)]) [] w'"
    "st \<noteq> PHY_OK \<Longrightarrow> dirty c0 u0 (length qs) w' \<and> E st"
    using run_okE [OF r, unfolded length_map] by blast
  show ?thesis using res(2,3) t [OF res(1)] by (simp add: res(1) ws_def ws_failed_def map_update)
qed

lemma rat_step_settled:
  assumes a: "ws c0 u0 qs w" and k: "k < length qs"
    and f: "\<And>rs c. ws c0 u0 qs (rs, [], c) \<Longrightarrow> same_env c0 c \<Longrightarrow> ctx_ok c \<Longrightarrow> owned c (rs ! k) \<Longrightarrow> operand c (rs ! k) \<Longrightarrow>
      rat_settled (rs ! k) c (quotient_of q) E (f rs [] (rs ! k, c))"
  shows "run_ok (on_rat k f w) (ws c0 u0 (qs[k := q])) (ws_failed c0 u0 (length qs) E)"
proof (rule rat_step [OF a k])
  fix rs c assume b: "ws c0 u0 qs (rs, [], c)"
  note c = ws_context [OF b] and v = ws_rat [OF b k]
  show "computes_rat c (f rs []) (rs ! k) (quotient_of q) E"
    by (rule settled_computes_rat [where f = "f rs []", OF f [OF b c(3,1) v(2,1)] c(2)]) (use v(2) in \<open>simp add: owned_def\<close>)
qed

text \<open>A step that cannot succeed.\<close>

lemma rat_step_never:
  assumes a: "ws c0 u0 qs w" and k: "k < length qs"
    and f: "\<And>q rs c. ws c0 u0 qs (rs, [], c) \<Longrightarrow> same_env c0 c \<Longrightarrow> ctx_ok c \<Longrightarrow> owned c (rs ! k) \<Longrightarrow> operand c (rs ! k) \<Longrightarrow>
      rat_settled (rs ! k) c (quotient_of q) E (f rs [] (rs ! k, c))"
  shows "run_ok (on_rat k f w) (\<lambda>w. False) (ws_failed c0 u0 (length qs) E)"
proof (rule run_never [where Q = "\<lambda>i. ws c0 u0 (qs[k := of_int i])"])
  show "run_ok (on_rat k f w) (ws c0 u0 (qs[k := of_int 0])) (ws_failed c0 u0 (length qs) E)"
    "run_ok (on_rat k f w) (ws c0 u0 (qs[k := of_int 1])) (ws_failed c0 u0 (length qs) E)"
    by (rule rat_step_settled [where f = f, OF a k], rule f, assumption+)+
  fix w assume "ws c0 u0 (qs[k := of_int 0]) w" "ws c0 u0 (qs[k := of_int 1]) w"
  then show False using ws_rat(3) [of c0 u0 "qs[k := of_int 0]" "fst w" "fst (snd w)" "snd (snd w)" k]
      ws_rat(3) [of c0 u0 "qs[k := of_int 1]" "fst w" "fst (snd w)" "snd (snd w)" k] k by simp
qed

section \<open>Locals\<close>

lemma init_after:
  assumes "worth c0 u0 (ps @ replicate n None) xs w"
  shows "run_ok (run_steps (map init_rat [length ps..<length ps + n]) w) (worth c0 u0 (ps @ replicate n (Some (0, 1))) xs)
    (\<lambda>st w. dirty c0 u0 (length ps + n) w \<and> resource_failure c0 st)"
  using assms
proof (induction n arbitrary: ps w)
  case (Suc n)
  have eq: "map init_rat [length ps..<length ps + Suc n] = init_rat (length ps) # map init_rat [length (ps @ [p])..<length (ps @ [p]) + n]" for p :: "(int \<times> int) option"
    by (simp add: upt_conv_Cons del: upt_Suc)
  have upd: "(ps @ replicate (Suc n) None)[length ps := Some (0 :: int, 1 :: int)] = (ps @ [Some (0, 1)]) @ replicate n None" by simp
  have s: "run_ok (init_rat (length ps) w) (worth c0 u0 ((ps @ [Some (0, 1)]) @ replicate n None) xs)
      (\<lambda>st w. dirty c0 u0 (length ps + Suc n) w \<and> resource_failure c0 st)"
    using step_init_rat [OF Suc.prems, of "length ps"] unfolding upd by simp
  have r: "(ps @ [Some (0 :: int, 1 :: int)]) @ replicate n (Some (0, 1)) = ps @ replicate (Suc n) (Some (0, 1))" by simp
  show ?case unfolding eq [of "Some (0, 1)"]
    by (rule run_steps_Cons, rule s) (use Suc.IH [of "ps @ [Some (0, 1)]"] in \<open>simp add: r\<close>)
qed simp

lemma add_locals:
  assumes "ws c0 u0 qs (rs, [], c)"
  shows "worth c0 u0 (map (\<lambda>q. Some (quotient_of q)) qs @ replicate n None) [] (rs @ replicate n null_bigrat, [], c)"
proof -
  have n: "flat (replicate n null_bigrat) [] = replicate (n + n) null_bigint"
    by (induction n) (simp_all add: flat_def parts_def null_bigrat_def)
  have f: "flat (rs @ replicate n null_bigrat) [] = flat rs [] @ replicate (n + n) null_bigint"
    using n by (simp add: flat_def)
  have t: "total_bytes (replicate m null_bigint) = 0 \<and> live_count (replicate m null_bigint) = 0" for m
    by (rule null_totals) auto
  show ?thesis
    using assms t [of "n + n"] unfolding ws_def worth_def prod.case f
    by (auto simp: shifted_def rat_slot_def slot_pair_def null_bigrat_def)
qed

lemma destroy_all:
  assumes "\<forall>r \<in> set ls. br_live r \<or> r = null_bigrat"
  shows "fold (\<lambda>r c. snd (phy_bigrat_destroy r c)) (rev ls) c = release (rev (concat (map parts ls))) c"
  using assms
proof (induction ls)
  case (Cons l ls)
  have "snd (phy_bigrat_destroy l c') = release (rev (parts l)) c'" for c'
    using Cons.prems by (intro rat_destroy_release) simp
  then show ?case using Cons by (simp add: release_append)
qed simp

lemma drop_locals:
  assumes ow: "owns c0 u0" and d: "dirty c0 u0 (m + n) (rs, [], c)"
  defines "c' \<equiv> fold (\<lambda>r c. snd (phy_bigrat_destroy r c)) (rev (drop m rs)) c"
  shows "dirty c0 u0 m (take m rs, [], c')" "same_env c c'"
proof -
  let ?vs = "concat (map parts (drop m rs))"
  have sh: "shifted c0 u0 c (flat (take m rs) [] @ ?vs)"
  proof -
    have "flat rs [] = flat (take m rs @ drop m rs) []" by simp
    also have "\<dots> = flat (take m rs) [] @ ?vs" unfolding flat_def map_append concat_append by simp
    finally show ?thesis using d by (simp add: dirty_def)
  qed
  have c': "c' = release (rev ?vs) c" unfolding c'_def using d by (intro destroy_all) (auto simp: dirty_def dest: in_set_dropD)
  have o1: "owns c (rev ?vs)" using shifted_owns [OF sh ow] by (simp add: owns_def total_rev)
  have "\<forall>v \<in> set (rev ?vs). slot_ok c v" using shiftedD(4) [OF sh] by simp
  from release_shifted [OF shiftedD(2) [OF sh] this o1] have r: "shifted c ?vs c' []"
    unfolding c' by (simp add: shifted_def total_rev)
  show "same_env c c'" by (rule shiftedD(1) [OF r])
  have "shifted c0 u0 c' (flat (take m rs) [])" using shifted_frame [of c0 u0 c "flat (take m rs) []" ?vs "[]" c' "[]"] sh r by simp
  then show "dirty c0 u0 m (take m rs, [], c')" using d by (auto simp: dirty_def dest: in_set_takeD)
qed

lemma with_locals_ok:
  assumes a: "ws c0 u0 qs (rs, [], c)" and E: "\<And>st. resource_failure c0 st \<Longrightarrow> E st"
    and fs: "\<And>w. ws c0 u0 (qs @ replicate n 0) w \<Longrightarrow> run_ok (run_steps fs w)
      (\<lambda>w. \<exists>ps zs. P ps \<and> length ps = length qs \<and> length zs = n \<and> ws c0 u0 (ps @ zs) w)
      (ws_failed c0 u0 (length qs + n) E)"
  shows "run_ok (with_locals n fs (rs, [], c)) (\<lambda>w. \<exists>ps. P ps \<and> length ps = length qs \<and> ws c0 u0 ps w)
    (ws_failed c0 u0 (length qs) E)"
proof -
  let ?w = "(rs @ replicate n null_bigrat, [], c)" and ?m = "length qs"
  have len: "length rs = ?m" by (rule ws_context(5) [OF a])
  have ow: "owns c0 u0" using a by (simp add: ws_def worth_def)
  have ts: "fst (snd w') = []" if "run_steps (map init_rat ks) w1 = Some (st, w')" "fst (snd w1) = []" for ks w1 st w'
    using that
  proof (induction ks arbitrary: w1)
    case (Cons k ks)
    then show ?case
      by (cases w1) (auto simp: init_rat_def on_rat_def always_def split: option.splits prod.splits if_splits)
  qed simp
  have "run_ok (run_steps (map init_rat [?m..<?m + n]) ?w) (worth c0 u0 (map (\<lambda>q. Some (quotient_of q)) qs @ replicate n (Some (0, 1))) [])
      (\<lambda>st w. dirty c0 u0 (?m + n) w \<and> resource_failure c0 st)"
    using init_after [OF add_locals [OF a, of n]] by simp
  then have i: "run_ok (run_steps (map init_rat [?m..<?m + n]) ?w) (ws c0 u0 (qs @ replicate n 0)) (ws_failed c0 u0 (?m + n) E)"
    using ts [of "[?m..<?m + n]" ?w] E by (auto simp: run_ok_def ws_def ws_failed_def map_replicate split: option.splits if_splits)
  have "run_ok (run_steps (map init_rat [?m..<?m + n] @ fs) ?w)
      (\<lambda>w. \<exists>ps zs. P ps \<and> length ps = ?m \<and> length zs = n \<and> ws c0 u0 (ps @ zs) w) (ws_failed c0 u0 (?m + n) E)"
    by (rule run_steps_append [OF i fs])
  from run_okE [OF this] obtain st w where res: "run_steps (map init_rat [?m..<?m + n] @ fs) ?w = Some (st, w)"
    "st = PHY_OK \<Longrightarrow> \<exists>ps zs. P ps \<and> length ps = ?m \<and> length zs = n \<and> ws c0 u0 (ps @ zs) w"
    "st \<noteq> PHY_OK \<Longrightarrow> ws_failed c0 u0 (?m + n) E st w" by blast
  obtain rs' ts' c' where w: "w = (rs', ts', c')" by (cases w)
  have d: "dirty c0 u0 (?m + n) w" "ts' = []"
  proof -
    have "dirty c0 u0 (?m + n) w \<and> ts' = []"
    proof (cases "st = PHY_OK")
      case True
      then obtain ps zs where "length ps = ?m" "length zs = n" "ws c0 u0 (ps @ zs) w" using res(2) by blast
      then show ?thesis using worth_dirty [of c0 u0 _ "[]" w] ws_context(4) [of c0 u0 "ps @ zs" rs' ts' c'] by (fastforce simp: ws_def w)
    qed (use res(3) in \<open>auto simp: ws_failed_def w\<close>)
    then show "dirty c0 u0 (?m + n) w" "ts' = []" by simp_all
  qed
  let ?c = "fold (\<lambda>r c. snd (phy_bigrat_destroy r c)) (rev (drop ?m rs')) c'"
  note dl = drop_locals [OF ow d(1) [unfolded w d(2)]]
  have eq: "with_locals n fs (rs, [], c) = Some (st, take ?m rs', [], ?c)"
    by (simp add: with_locals_def len res(1) w d(2))
  show ?thesis
  proof (cases "st = PHY_OK")
    case True
    then obtain ps zs where p: "P ps" "length ps = ?m" "length zs = n" "ws c0 u0 (ps @ zs) (rs', [], c')" using res(2) w d(2) by blast
    have sl: "map slot_pair rs' = map (\<lambda>q. Some (quotient_of q)) (ps @ zs)" "\<forall>r \<in> set rs'. rat_slot ?c r" "ec_depth c0 \<noteq> 0"
      using p(4) rat_slot_env [OF dl(2)] by (simp_all add: ws_def worth_def)
    have "map slot_pair (take ?m rs') = map (\<lambda>q. Some (quotient_of q)) ps"
      using arg_cong [OF sl(1), of "take ?m"] p(2) by (simp add: take_map)
    then have "ws c0 u0 ps (take ?m rs', [], ?c)"
      using dl(1) sl(2,3) ow by (auto simp: ws_def worth_def dirty_def dest: in_set_takeD)
    then show ?thesis using p(1,2) True by (auto simp: eq)
  next
    case False
    then show ?thesis using dl(1) res(3) by (simp add: eq ws_failed_def w)
  qed
qed

end
