(* ===== verification/GaussianSpec.thy ===== *)
theory GaussianSpec
  imports GaussianLaws Complex_Main
begin

text \<open>
  The contract of a transaction on Gaussian rationals, and the rules for transactions nested in
  an operation. A Gaussian rational stands for a complex number; \<open>None\<close> is the outcome of an
  operation that cannot succeed.
\<close>

section \<open>Values\<close>

definition cpx :: "rat \<Rightarrow> rat \<Rightarrow> complex" where
  "cpx x y = Complex (of_rat x) (of_rat y)"

definition gval :: "phy_gaussian \<Rightarrow> complex" where
  "gval v = cpx (rval (ga_real v)) (rval (ga_imag v))"

definition gparts :: "phy_gaussian \<Rightarrow> phy_bigint list" where
  "gparts v = parts (ga_real v) @ parts (ga_imag v)"

definition gok :: "phy_exact_context \<Rightarrow> phy_gaussian \<Rightarrow> bool" where
  "gok c v \<longleftrightarrow> ga_live v \<and> canonical c (ga_real v) \<and> canonical c (ga_imag v)"

text \<open>What a failed fill leaves: parts that can be destroyed.\<close>

definition gweak :: "phy_gaussian \<Rightarrow> bool" where
  "gweak v \<longleftrightarrow> ga_live v \<and> (br_live (ga_real v) \<or> ga_real v = null_bigrat) \<and> (br_live (ga_imag v) \<or> ga_imag v = null_bigrat)"

definition gsettled ::
  "phy_gaussian \<Rightarrow> phy_exact_context \<Rightarrow> complex option \<Rightarrow> (phy_status \<Rightarrow> bool) \<Rightarrow> (phy_gaussian \<times> phy_exact_context) run \<Rightarrow> bool" where
  "gsettled out c z E r \<longleftrightarrow> run_ok r
     (\<lambda>(out', c'). shifted (begun c) (gparts out) c' (gparts out') \<and> gok c' out' \<and> z = Some (gval out'))
     (\<lambda>st (out', c'). out' = out \<and> shifted (begun c) (gparts out) c' (gparts out) \<and> E st)"

definition gfilled ::
  "phy_gaussian \<Rightarrow> phy_exact_context \<Rightarrow> complex option \<Rightarrow> (phy_status \<Rightarrow> bool) \<Rightarrow> (phy_gaussian \<times> phy_exact_context) run \<Rightarrow> bool" where
  "gfilled t c z E r \<longleftrightarrow> run_ok r
     (\<lambda>(t', c'). shifted c (gparts t) c' (gparts t') \<and> gok c' t' \<and> z = Some (gval t'))
     (\<lambda>st (t', c'). shifted c (gparts t) c' (gparts t') \<and> gweak t' \<and> E st)"

lemma gok_env: "same_env c c' \<Longrightarrow> gok c' v \<longleftrightarrow> gok c v"
  using canonical_env by (simp add: gok_def)

lemma canonical_live: "canonical c r \<Longrightarrow> br_live r \<and> live_rat c r"
  by (simp add: canonical_def live_rat_def)

lemma gok_weak: "gok c v \<Longrightarrow> gweak v"
  using canonical_live by (auto simp: gok_def gweak_def)

lemma gok_slots: "gok c v \<Longrightarrow> \<forall>w \<in> set (gparts v). slot_ok c w"
  using live_slots canonical_live by (auto simp: gok_def gparts_def)

lemma canonical_owner: "canonical c r \<Longrightarrow> bg_owner (br_num r) = ec_id c \<and> phy_bigrat_validate c r = PHY_OK"
  using canonical_operand [of c r] context_iff [of c r]
  by (simp add: phy_bigrat_validate_def operand_def rational_context_def)

lemma gok_context: "gok c v \<Longrightarrow> gaussian_context c v = Some (ec_id c)"
  by (simp add: gok_def gaussian_context_def canonical_owner [of c])

lemma gok_compatible: "gok c l \<Longrightarrow> gok c r \<Longrightarrow> gok c v \<Longrightarrow> gaussian_compatible c l r v"
  by (simp add: gaussian_compatible_def gok_context)

lemma gdestroy_release: "gweak v \<Longrightarrow> snd (phy_gaussian_destroy v c) = release (rev (gparts v)) c"
  by (simp add: phy_gaussian_destroy_def gweak_def gparts_def rat_destroy_release release_append)

lemma gaussian_commit_ok:
  assumes "gok c t" "gok c v"
  shows "gaussian_commit c (t, v) = (PHY_OK, t\<lparr>ga_real := ga_real v, ga_imag := ga_imag v\<rparr>, v\<lparr>ga_real := ga_real t, ga_imag := ga_imag t\<rparr>)"
proof -
  have "phy_bigrat_swap c (r, s) = (PHY_OK, s, r)" if "canonical c r" "canonical c s" for r s
    using canonical_operand [OF that(1)] canonical_operand [OF that(2)] swap_rats [of c r s] canonical_live that
    by (simp add: phy_bigrat_swap_def rat_compatible_iff operand_def)
  then show ?thesis using assms by (simp add: gaussian_commit_def gok_def)
qed

section \<open>Fills\<close>

lemma start_workspace:
  assumes c: "ctx_ok c" "ec_depth c \<noteq> 0" and t: "gok c t" "owns c (gparts t)"
  shows "ws c (gparts t) [rval (ga_real t), rval (ga_imag t)] ([ga_real t, ga_imag t], [], c)"
proof -
  have r: "canonical c (ga_real t)" "canonical c (ga_imag t)" using t(1) by (simp_all add: gok_def)
  have "shifted c (gparts t) c (gparts t)" by (rule shifted_refl [OF c(1) gok_slots [OF t(1)]])
  then show ?thesis
    using c(2) t(2) canonical_live [OF r(1)] canonical_live [OF r(2)] r
    by (simp add: ws_def worth_def gparts_def flat_def rat_slot_def slot_pair_def canonical_def)
qed

lemma fill_ok:
  assumes c: "ctx_ok c" "ec_depth c \<noteq> 0" and t: "gok c t" "owns c (gparts t)" and E: "\<And>st. resource_failure c st \<Longrightarrow> E st"
    and fs: "\<And>w x y. ws c (gparts t) ([x, y] @ replicate n 0) w \<Longrightarrow> run_ok (run_steps fs w)
      (\<lambda>w. \<exists>x y zs. z = Some (cpx x y) \<and> length zs = n \<and> ws c (gparts t) ([x, y] @ zs) w)
      (ws_failed c (gparts t) (2 + n) E)"
  shows "gfilled t c z E (fill_with n fs (t, c))"
proof -
  let ?qs = "[rval (ga_real t), rval (ga_imag t)]"
  let ?P = "\<lambda>ps. z = Some (cpx (ps ! 0) (ps ! 1))"
  have "run_ok (with_locals n fs ([ga_real t, ga_imag t], [], c))
      (\<lambda>w. \<exists>ps. ?P ps \<and> length ps = length ?qs \<and> ws c (gparts t) ps w) (ws_failed c (gparts t) (length ?qs) E)"
  proof (rule with_locals_ok [OF start_workspace [OF c t] E])
    fix w assume "ws c (gparts t) (?qs @ replicate n 0) w"
    from fs [OF this] show "run_ok (run_steps fs w)
        (\<lambda>w. \<exists>ps zs. ?P ps \<and> length ps = length ?qs \<and> length zs = n \<and> ws c (gparts t) (ps @ zs) w)
        (ws_failed c (gparts t) (length ?qs + n) E)"
    proof (rule run_ok_mono, goal_cases)
      case (1 w)
      then obtain x y zs where "z = Some (cpx x y)" "length zs = n" "ws c (gparts t) ([x, y] @ zs) w" by blast
      then show ?case by (intro exI [of _ "[x, y]"] exI [of _ zs]) simp
    qed (simp add: numeral_2_eq_2)
  qed
  from run_okE [OF this] obtain st w where r: "with_locals n fs ([ga_real t, ga_imag t], [], c) = Some (st, w)"
    "st = PHY_OK \<Longrightarrow> \<exists>ps. ?P ps \<and> length ps = length ?qs \<and> ws c (gparts t) ps w"
    "st \<noteq> PHY_OK \<Longrightarrow> ws_failed c (gparts t) (length ?qs) E st w" by blast
  obtain rs ts c' where w: "w = (rs, ts, c')" by (cases w)
  have eq: "fill_with n fs (t, c) = Some (st, t\<lparr>ga_real := rs ! 0, ga_imag := rs ! 1\<rparr>, c')"
    by (simp add: fill_with_def r(1) w)
  have live: "ga_live t" using t(1) by (simp add: gok_def)
  show ?thesis
  proof (cases "st = PHY_OK")
    case True
    then obtain ps where ps: "?P ps" "length ps = 2" "ws c (gparts t) ps (rs, ts, c')" using r(2) w by auto
    have "length rs = 2" "ts = []" using ws_context(4,5) [OF ps(3)] ps(2) by simp_all
    then obtain x y where rs: "rs = [x, y]" "ts = []" by (auto simp: length_Suc_conv numeral_2_eq_2)
    have "shifted c (gparts t) c' (parts x @ parts y)" using ps(3) by (simp add: ws_def worth_def rs flat_def)
    moreover have "canonical c' x" "canonical c' y" "rval x = ps ! 0" "rval y = ps ! 1"
      using ws_rat(3,4) [OF ps(3), of 0] ws_rat(3,4) [OF ps(3), of 1] ps(2) by (simp_all add: rs)
    ultimately show ?thesis
      using True ps(1) live by (simp add: gfilled_def eq rs gparts_def gok_def gval_def)
  next
    case False
    then have d: "dirty c (gparts t) 2 (rs, ts, c')" "ts = []" "E st" using r(3) by (auto simp: ws_failed_def w numeral_2_eq_2)
    then obtain x y where rs: "rs = [x, y]" by (auto simp: dirty_def length_Suc_conv numeral_2_eq_2)
    show ?thesis using False d live by (simp add: gfilled_def eq rs dirty_def flat_def gparts_def gweak_def)
  qed
qed

section \<open>Transactions\<close>

lemma gaussian_init_ok:
  assumes ok: "ctx_ok c" and r: "phy_gaussian_init (null_gaussian, c) = (st, t, c')"
  shows "if st = PHY_OK then shifted c [] c' (gparts t) \<and> gok c' t \<and> gval t = 0
    else t = null_gaussian \<and> shifted c [] c' [] \<and> resource_failure c st"
proof -
  have nul: "parts null_bigrat = [null_bigint, null_bigint]" by (simp add: parts_def null_bigrat_def)
  have init: "(if st = PHY_OK then shifted c [] c' (parts r) \<and> canonical c' r \<and> rval r = 0
      else r = null_bigrat \<and> shifted c [] c' [] \<and> resource_failure c st)"
    if "ctx_ok c" "phy_bigrat_init (null_bigrat, c) = (st, r, c')" for c st r c'
  proof (cases "st = PHY_OK")
    case True
    note s = computes_rat_init [OF that(1), unfolded computes_rat_def run_ok_always that(2)]
    have "live_rat c' r" "pair r = quotient_of 0" using s True by simp_all
    from canonicalI [OF this] show ?thesis using s True by (simp add: nul shifted_def)
  next
    case False
    note s = computes_rat_init [OF that(1), unfolded computes_rat_def run_ok_always that(2)]
    have "r = null_bigrat"
      using that(2) False by (auto simp: phy_bigrat_init_def split: prod.splits if_splits)
    then show ?thesis using s False by (simp add: nul shifted_def)
  qed
  have cv: "phy_exact_context_is_valid c" using ok by (simp add: phy_exact_context_is_valid_def ctx_ok_def)
  obtain s1 re c1 where r1: "phy_bigrat_init (null_bigrat, c) = (s1, re, c1)" by (metis prod_cases3)
  obtain s2 im c2 where r2: "phy_bigrat_init (null_bigrat, c1) = (s2, im, c2)" by (metis prod_cases3)
  note i1 = init [OF ok r1]
  have ok1: "ctx_ok c1" using i1 shiftedD(2) by (auto split: if_splits)
  note i2 = init [OF ok1 r2]
  have dn: "snd (phy_bigrat_destroy null_bigrat c) = c" for c by (simp add: phy_bigrat_destroy_def null_bigrat_def)
  consider "s1 \<noteq> PHY_OK" | "s1 = PHY_OK" "s2 \<noteq> PHY_OK" | "s1 = PHY_OK" "s2 = PHY_OK" by blast
  then show ?thesis
  proof cases
    case 1
    then show ?thesis using i1 r by (simp add: phy_gaussian_init_def cv r1 dn)
  next
    case 2
    have s: "shifted c [] c1 (parts re)" "canonical c1 re" using i1 2 by simp_all
    have sh: "shifted c [] c2 (parts re)"
      using shifted_frame [of c "[]" c1 "[]" "[]" "parts re" c2 "[]"] s(1) i2 2(2) by simp
    let ?c = "release (rev (parts re)) c2"
    have ow: "owns c2 (rev (parts re))" using shifted_owns [OF sh] by (simp add: owns_def total_rev)
    have "shifted c2 (rev (parts re)) ?c []" using shiftedD [OF sh] ow by (intro release_shifted) simp_all
    then have "shifted c2 (parts re) ?c []" by (simp add: shifted_def total_rev)
    from shifted_trans [OF sh this] have f: "shifted c [] ?c []" .
    have "resource_failure c1 = resource_failure c" by (rule resources [OF shiftedD(1) [OF s(1)]])
    then show ?thesis using f i2 2 r rat_destroy_release [of re c2] canonical_live [OF s(2)]
      by (simp add: phy_gaussian_init_def cv r1 r2 dn)
  next
    case 3
    have s: "shifted c [] c1 (parts re)" "canonical c1 re" "rval re = 0" using i1 3 by simp_all
    have t: "shifted c1 [] c2 (parts im)" "canonical c2 im" "rval im = 0" using i2 3 by simp_all
    have "shifted c [] c2 (parts re @ parts im)"
      using shifted_frame [of c "[]" c1 "parts re" "[]" "[]" c2 "parts im"] s(1) t(1) by simp
    moreover have "canonical c2 re" using s(2) canonical_env [OF shiftedD(1) [OF t(1)]] by simp
    moreover have "st = PHY_OK" "t = \<lparr>ga_real = re, ga_imag = im, ga_live = True\<rparr>" "c' = c2"
      using r 3 by (simp_all add: phy_gaussian_init_def cv r1 r2)
    moreover have "cpx 0 0 = 0" by (simp add: cpx_def zero_complex.code)
    ultimately show ?thesis using s(3) t(2,3) by (simp add: gparts_def gok_def gval_def)
  qed
qed

lemma gparts_update [simp]: "gparts (v\<lparr>ga_real := r, ga_imag := s\<rparr>) = parts r @ parts s"
  by (simp add: gparts_def)

lemma transaction_ok:
  assumes ok: "ctx_ok c" and out: "gok c out" "owns c (gparts out)" and E: "\<And>st. resource_failure c st \<Longrightarrow> E st"
    and fill: "\<And>c1 t. same_env c c1 \<Longrightarrow> ctx_ok c1 \<Longrightarrow> ec_depth c1 \<noteq> 0 \<Longrightarrow> gok c1 t \<Longrightarrow> owns c1 (gparts t) \<Longrightarrow>
      gfilled t c1 z E (fill (t, c1))"
  shows "gsettled out c z E (gaussian_transaction fill (out, c))"
proof -
  let ?c0 = "entered c"
  have c0: "ctx_ok ?c0" using begun_ok [OF ok] by simp
  have nn: "\<not> gaussian_context c out = None" using gok_context [OF out(1)] by simp
  obtain s1 t1 c1 where i: "phy_gaussian_init (null_gaussian, ?c0) = (s1, t1, c1)" by (metis prod_cases3)
  note init = gaussian_init_ok [OF c0 i]
  define fr where "fr = (if s1 = PHY_OK then fill (t1, c1) else Some (s1, t1, c1))"
  have "\<exists>s2 t2 c2. fr = Some (s2, t2, c2) \<and> shifted ?c0 [] c2 (gparts t2) \<and> (gweak t2 \<or> t2 = null_gaussian) \<and>
      (if s2 = PHY_OK then gok c2 t2 \<and> z = Some (gval t2) else E s2)"
  proof (cases "s1 = PHY_OK")
    case False
    have bg_limbs_null: "bg_limbs null_bigint = []" by (simp add: null_bigint_def)
    have "gparts null_gaussian = [null_bigint, null_bigint, null_bigint, null_bigint]"
      by (simp add: gparts_def parts_def null_gaussian_def null_bigrat_def)
    then show ?thesis using False init resources [OF entered_env] E null_slot(1-3)
      by (auto simp: fr_def shifted_def bg_limbs_null)
  next
    case True
    have sh: "shifted ?c0 [] c1 (gparts t1)" and t: "gok c1 t1" using init True by simp_all
    have ow: "owns c1 (gparts t1)" using shifted_owns [OF sh] by (simp add: owns_def)
    have e: "same_env c c1" using same_env_trans [OF entered_env shiftedD(1) [OF sh]] .
    have "ec_depth c1 \<noteq> 0" using shiftedD(3) [OF sh] by simp
    from fill [OF e shiftedD(2) [OF sh] this t ow] obtain s2 t2 c2 where f: "fill (t1, c1) = Some (s2, t2, c2)"
      "shifted c1 (gparts t1) c2 (gparts t2)" "s2 = PHY_OK \<Longrightarrow> gok c2 t2 \<and> z = Some (gval t2)" "s2 \<noteq> PHY_OK \<Longrightarrow> gweak t2 \<and> E s2"
      unfolding gfilled_def by (rule run_okE) (auto split: prod.splits if_splits)
    have "shifted ?c0 [] c2 (gparts t2)" by (rule shifted_trans [OF sh f(2)])
    then show ?thesis using f True gok_weak [of c2 t2] by (auto simp: fr_def)
  qed
  then obtain s2 t2 c2 where f: "fr = Some (s2, t2, c2)" "shifted ?c0 [] c2 (gparts t2)" "gweak t2 \<or> t2 = null_gaussian"
    "s2 = PHY_OK \<Longrightarrow> gok c2 t2 \<and> z = Some (gval t2)" "s2 \<noteq> PHY_OK \<Longrightarrow> E s2" by (auto split: if_splits)
  have so: "\<forall>v \<in> set (gparts out). slot_ok ?c0 v" using gok_slots [OF out(1)] slot_env [OF entered_env] by blast
  have sh: "shifted ?c0 (gparts out) c2 (gparts out @ gparts t2)" using shifted_prefix [OF f(2) so] by simp
  have e2: "same_env c c2" using same_env_trans [OF entered_env shiftedD(1) [OF f(2)]] .
  have des: "snd (phy_gaussian_destroy v c2) = release (rev (gparts v)) c2" if "gweak v \<or> v = null_gaussian" for v
  proof (cases "gweak v")
    case False
    have "release (rev (gparts null_gaussian)) c2 = c2"
      using release_null [of c2] release_append [of "rev (parts null_bigrat)" "rev (parts null_bigrat)" c2]
      by (simp add: gparts_def null_gaussian_def)
    then show ?thesis using False that by (simp add: phy_gaussian_destroy_def null_gaussian_def)
  qed (simp add: gdestroy_release)
  define cm where "cm = (if s2 = PHY_OK then gaussian_commit c2 (t2, out) else (s2, t2, out))"
  obtain s3 t3 out' where cm3: "cm = (s3, t3, out')" by (cases cm)
  have res: "gaussian_transaction fill (out, c) =
    (case phy_exact_operation_end (snd (phy_gaussian_destroy t3 c2)) s3 of (status4, c4) \<Rightarrow> Some (status4, out', c4))"
    by (simp add: gaussian_transaction_def nn begin_eq [OF ok] i fr_def [symmetric] f(1) cm_def [symmetric] cm3 split: prod.splits)
  show ?thesis
  proof (cases "s2 = PHY_OK")
    case False
    then have cm': "s3 = s2" "t3 = t2" "out' = out" using cm3 by (simp_all add: cm_def)
    obtain c3 where "phy_exact_operation_end (release (rev (gparts t2)) c2) s2 = (s2, c3)" "shifted (begun c) (gparts out) c3 (gparts out)"
      using end_shifted [OF ok sh out(2), of "rev (gparts t2)" s2] by auto
    then show ?thesis using False f(5) des [OF f(3)] by (simp add: gsettled_def res cm')
  next
    case True
    have g2: "gok c2 t2" "z = Some (gval t2)" using f(4) [OF True] by simp_all
    have o2: "gok c2 out" using out(1) gok_env [OF e2] by simp
    note cmt = gaussian_commit_ok [OF g2(1) o2]
    have cm': "s3 = PHY_OK" "gparts t3 = gparts out" "gparts out' = gparts t2" "gval out' = gval t2" "gweak t3"
      "\<And>c. gok c t2 \<Longrightarrow> gok c out'"
      using cm3 True o2 g2(1) canonical_live by (auto simp: cm_def cmt gparts_def gval_def gok_def gweak_def)
    have "shifted ?c0 (gparts out) c2 (gparts t2 @ gparts out)" using sh by (auto simp: shifted_def)
    then obtain c3 where c3: "phy_exact_operation_end (release (rev (gparts out)) c2) PHY_OK = (PHY_OK, c3)"
      "shifted (begun c) (gparts out) c3 (gparts t2)"
      using end_shifted [OF ok _ out(2), of c2 "gparts t2" "gparts out" "rev (gparts out)" PHY_OK] by auto
    have "same_env c c3" using same_env_trans [OF begun_env(1) shiftedD(1) [OF c3(2)]] .
    then have "same_env c2 c3" using e2 by (simp add: same_env_def)
    then have "gok c3 out'" using cm'(6) g2(1) gok_env by blast
    then show ?thesis using c3 des [of t3] cm'(1-5) g2(2) by (simp add: gsettled_def res)
  qed
qed

end
