(* ===== verification/GaussianOps.thy ===== *)
theory GaussianOps
  imports GaussianSpec
begin

text \<open>
  The contract of every operation on Gaussian rationals: transactional, and a success gives the
  exact complex number.
\<close>

section \<open>Two independent parts\<close>

text \<open>\<open>None\<close>: the operation on rationals cannot succeed.\<close>

definition rat_may ::
  "phy_bigrat \<Rightarrow> phy_exact_context \<Rightarrow> rat option \<Rightarrow> (phy_status \<Rightarrow> bool) \<Rightarrow> (phy_bigrat \<times> phy_exact_context) run \<Rightarrow> bool" where
  "rat_may out c x E r \<longleftrightarrow> (case x of Some q \<Rightarrow> rat_settled out c (quotient_of q) E r | None \<Rightarrow> \<forall>p. rat_settled out c p E r)"

lemma rat_settled_mono: "rat_settled out c p E r \<Longrightarrow> (\<And>st. E st \<Longrightarrow> E' st) \<Longrightarrow> rat_settled out c p E' r"
  unfolding rat_settled_def by (erule run_ok_mono) auto

lemma step_may:
  assumes a: "ws c0 u0 qs w" and k: "k < length qs"
    and f: "\<And>rs c. ws c0 u0 qs (rs, [], c) \<Longrightarrow> same_env c0 c \<Longrightarrow> ctx_ok c \<Longrightarrow> owned c (rs ! k) \<Longrightarrow> operand c (rs ! k) \<Longrightarrow>
      rat_may (rs ! k) c x E (f rs [] (rs ! k, c))"
  shows "run_ok (on_rat k f w) (\<lambda>w. \<exists>q. x = Some q \<and> ws c0 u0 (qs[k := q]) w) (ws_failed c0 u0 (length qs) E)"
proof (cases x)
  case None
  have "run_ok (on_rat k f w) (\<lambda>w. False) (ws_failed c0 u0 (length qs) E)"
    using f unfolding None rat_may_def option.case by (intro rat_step_never [OF a k]) blast
  then show ?thesis by (rule run_ok_mono) simp_all
next
  case (Some q)
  have "run_ok (on_rat k f w) (ws c0 u0 (qs[k := q])) (ws_failed c0 u0 (length qs) E)"
    using f unfolding Some rat_may_def option.case by (intro rat_step_settled [OF a k]) blast
  then show ?thesis by (rule run_ok_mono) (simp_all add: Some)
qed

definition both :: "rat option \<Rightarrow> rat option \<Rightarrow> complex option" where
  "both x y = (case (x, y) of (Some a, Some b) \<Rightarrow> Some (cpx a b) | _ \<Rightarrow> None)"

lemma two_fill:
  assumes c: "ctx_ok c" "ec_depth c \<noteq> 0" and t: "gok c t" "owns c (gparts t)" and E: "\<And>st. resource_failure c st \<Longrightarrow> E st"
    and f: "\<And>c1 r. same_env c c1 \<Longrightarrow> ctx_ok c1 \<Longrightarrow> owned c1 r \<Longrightarrow> operand c1 r \<Longrightarrow> rat_may r c1 x E (f (r, c1))"
    and g: "\<And>c1 r. same_env c c1 \<Longrightarrow> ctx_ok c1 \<Longrightarrow> owned c1 r \<Longrightarrow> operand c1 r \<Longrightarrow> rat_may r c1 y E (g (r, c1))"
  shows "gfilled t c (both x y) E (fill_with 0 [on_rat 0 (\<lambda>rs ts. f), on_rat 1 (\<lambda>rs ts. g)] (t, c))"
proof (rule fill_ok [OF c t E])
  fix w a b assume w: "ws c (gparts t) ([a, b] @ replicate 0 0) w"
  have s0: "run_ok (on_rat 0 (\<lambda>rs ts. f) w) (\<lambda>w. \<exists>q. x = Some q \<and> ws c (gparts t) [q, b] w) (ws_failed c (gparts t) 2 E)"
    using step_may [of c "gparts t" "[a, b]" w 0 x E "\<lambda>rs ts. f"] w f by (simp add: numeral_2_eq_2)
  have s1: "run_ok (on_rat 1 (\<lambda>rs ts. g) w') (\<lambda>w. \<exists>p. y = Some p \<and> ws c (gparts t) [q, p] w) (ws_failed c (gparts t) 2 E)"
    if "ws c (gparts t) [q, b] w'" for q w'
    using step_may [of c "gparts t" "[q, b]" w' 1 y E "\<lambda>rs ts. g"] that g by (simp add: numeral_2_eq_2)
  show "run_ok (run_steps [on_rat 0 (\<lambda>rs ts. f), on_rat 1 (\<lambda>rs ts. g)] w)
      (\<lambda>w. \<exists>a b zs. both x y = Some (cpx a b) \<and> length zs = 0 \<and> ws c (gparts t) ([a, b] @ zs) w) (ws_failed c (gparts t) (2 + 0) E)"
    unfolding add_0_right
  proof (rule run_steps_Cons, rule s0, elim exE conjE, rule run_steps_Cons, erule s1, elim exE conjE)
    fix w1 q w2 p assume "x = Some q" "y = Some p" "ws c (gparts t) [q, p] w2"
    then show "run_ok (run_steps [] w2)
      (\<lambda>w. \<exists>a b zs. both x y = Some (cpx a b) \<and> length zs = 0 \<and> ws c (gparts t) ([a, b] @ zs) w) (ws_failed c (gparts t) 2 E)"
      by (auto simp: both_def)
  qed
qed

lemma two_parts_op:
  assumes ok: "ctx_ok c" and out: "gok c out" "owns c (gparts out)" and E: "\<And>st. resource_failure c st \<Longrightarrow> E st"
    and f: "\<And>c1 r. same_env c c1 \<Longrightarrow> ctx_ok c1 \<Longrightarrow> owned c1 r \<Longrightarrow> operand c1 r \<Longrightarrow> rat_may r c1 x E (f (r, c1))"
    and g: "\<And>c1 r. same_env c c1 \<Longrightarrow> ctx_ok c1 \<Longrightarrow> owned c1 r \<Longrightarrow> operand c1 r \<Longrightarrow> rat_may r c1 y E (g (r, c1))"
  shows "gsettled out c (both x y) E (gaussian_transaction (fill_with 0 [on_rat 0 (\<lambda>rs ts. f), on_rat 1 (\<lambda>rs ts. g)]) (out, c))"
proof (rule transaction_ok [OF ok out E])
  fix c1 t assume e: "same_env c c1" and c1: "ctx_ok c1" "ec_depth c1 \<noteq> 0" "gok c1 t" "owns c1 (gparts t)"
  have rf: "resource_failure c1 = resource_failure c" by (rule resources [OF e])
  show "gfilled t c1 (both x y) E (fill_with 0 [on_rat 0 (\<lambda>rs ts. f), on_rat 1 (\<lambda>rs ts. g)] (t, c1))"
    by (rule two_fill [OF c1]) (use rf E f g same_env_trans [OF e] in simp_all)
qed

text \<open>An operation on rationals that always has a result.\<close>

lemma rat_may_some:
  assumes "same_env c c1" "rat_settled r c1 (quotient_of q) (resource_failure c1) res" "\<And>st. resource_failure c st \<Longrightarrow> E st"
  shows "rat_may r c1 (Some q) E res"
  using rat_settled_mono [OF assms(2), of E] assms(3) resources [OF assms(1)] by (simp add: rat_may_def)

lemma gok_operand:
  assumes "gok c v" "same_env c c1"
  shows "operand c1 (ga_real v)" "operand c1 (ga_imag v)" "canonical c1 (ga_real v)" "canonical c1 (ga_imag v)"
  using assms canonical_env [OF assms(2)] canonical_operand by (auto simp: gok_def)

section \<open>Assignment and ring operations\<close>

definition ratio :: "int \<Rightarrow> int \<Rightarrow> rat option" where
  "ratio n d = (if d = 0 then None else Some (Fract n d))"

abbreviation undefined_failure :: "phy_exact_context \<Rightarrow> complex option \<Rightarrow> phy_status \<Rightarrow> bool" where
  "undefined_failure c z st \<equiv> resource_failure c st \<or> z = None \<and> (st = PHY_ERR_DOMAIN \<or> st = PHY_ERR_PARSE)"

lemma set_may:
  assumes "same_env c c1" "ctx_ok c1" "owned c1 r" "operand c1 r" "- (2 ^ 63) \<le> n" "n < 2 ^ 63" "- (2 ^ 63) \<le> d" "d < 2 ^ 63"
    and "\<And>st. resource_failure c st \<Longrightarrow> E st" "d = 0 \<Longrightarrow> E PHY_ERR_DOMAIN"
  shows "rat_may r c1 (ratio n d) E (phy_bigrat_set_i64 n d (r, c1))"
proof (cases "d = 0")
  case True
  have "rat_settled r c1 p E (phy_bigrat_set_i64 n d (r, c1))" for p
    by (rule rat_settled_mono [OF set_rat_spec(2) [OF assms(2-8) True]]) (use assms(9,10) True resources [OF assms(1)] in auto)
  then show ?thesis using True by (simp add: rat_may_def ratio_def)
next
  case False
  then show ?thesis
    using rat_may_some [OF assms(1) set_rat_spec(1) [OF assms(2-8) False] assms(9)] by (simp add: ratio_def)
qed

lemma set_gaussian_spec:
  assumes ok: "ctx_ok c" and out: "gok c out" "owns c (gparts out)"
    and r: "\<forall>i \<in> {a, b, p, q}. - (2 ^ 63) \<le> i \<and> i < 2 ^ 63"
  shows "gsettled out c (both (ratio a b) (ratio p q)) (undefined_failure c (both (ratio a b) (ratio p q)))
    (phy_gaussian_set_i64 a b p q (out, c))"
  unfolding phy_gaussian_set_i64_def fill_i64_def
proof (rule two_parts_op [OF ok out], goal_cases)
  case (2 c1 r)
  then show ?case using r by (intro set_may [OF 2]) (auto simp: both_def ratio_def)
next
  case (3 c1 r)
  then show ?case using r by (intro set_may [OF 3]) (auto simp: both_def ratio_def)
qed simp

definition read_ratio :: "string \<Rightarrow> string \<Rightarrow> rat option" where
  "read_ratio s t = (case (read_number s, read_number t) of (Some n, Some d) \<Rightarrow> ratio n d | _ \<Rightarrow> None)"

lemma read_may:
  assumes "same_env c c1" "ctx_ok c1" "owned c1 r" "operand c1 r"
    and E: "\<And>st. resource_failure c st \<Longrightarrow> E st" "read_ratio s t = None \<Longrightarrow> E PHY_ERR_DOMAIN \<and> E PHY_ERR_PARSE"
  shows "rat_may r c1 (read_ratio s t) E (phy_bigrat_read (Some s) (Some t) (r, c1))"
proof -
  note spec = read_rat_spec [OF assms(2-4), where s = s and t = t]
  have w: "rat_settled r c1 p E (phy_bigrat_read (Some s) (Some t) (r, c1))"
    if "rat_settled r c1 p (\<lambda>st. resource_failure c1 st \<or> st = e) (phy_bigrat_read (Some s) (Some t) (r, c1))" "E e" for p e
    by (rule rat_settled_mono [OF that(1)]) (use E(1) that(2) resources [OF assms(1)] in auto)
  consider n d where "read_number s = Some n" "read_number t = Some d" "d \<noteq> 0"
    | n where "read_number s = Some n" "read_number t = Some 0" | "read_number s = None \<or> read_number t = None"
    by (metis option.exhaust)
  then show ?thesis
  proof cases
    case 1
    then have "read_ratio s t = Some (Fract n d)" by (simp add: read_ratio_def ratio_def)
    then show ?thesis using spec 1 rat_may_some [OF assms(1) _ E(1)] by simp
  next
    case 2
    then have n: "read_ratio s t = None" by (simp add: read_ratio_def ratio_def)
    then have "rat_settled r c1 p E (phy_bigrat_read (Some s) (Some t) (r, c1))" for p
      using spec [of p] 2 E(2) by (intro w [of _ PHY_ERR_DOMAIN]) simp_all
    then show ?thesis by (simp add: rat_may_def n)
  next
    case 3
    then have n: "read_ratio s t = None" by (auto simp: read_ratio_def split: option.splits)
    have "rat_settled r c1 p (\<lambda>st. resource_failure c1 st \<or> st = PHY_ERR_PARSE) (phy_bigrat_read (Some s) (Some t) (r, c1))" for p
      using spec [of p] 3 by (cases "read_number s"; cases "read_number t") simp_all
    then have "rat_settled r c1 p E (phy_bigrat_read (Some s) (Some t) (r, c1))" for p
      using E(2) n by (intro w [of _ PHY_ERR_PARSE]) simp_all
    then show ?thesis by (simp add: rat_may_def n)
  qed
qed

lemma read_gaussian_spec:
  assumes ok: "ctx_ok c" and out: "gok c out" "owns c (gparts out)"
  shows "gsettled out c (both (read_ratio s t) (read_ratio u v)) (undefined_failure c (both (read_ratio s t) (read_ratio u v)))
    (phy_gaussian_read (Some s) (Some t) (Some u) (Some v) (out, c))"
proof -
  have eq: "phy_gaussian_read (Some s) (Some t) (Some u) (Some v) (out, c) = gaussian_transaction (fill_text (Some s) (Some t) (Some u) (Some v)) (out, c)"
    by (simp add: phy_gaussian_read_def)
  show ?thesis unfolding eq fill_text_def
  proof (rule two_parts_op [OF ok out], goal_cases)
    case (2 c1 r)
    then show ?case by (intro read_may [OF 2]) (auto simp: both_def)
  next
    case (3 c1 r)
    then show ?case by (intro read_may [OF 3]) (auto simp: both_def split: option.splits)
  qed simp
qed

end
