(* ===== verification/GaussianField.thy ===== *)
theory GaussianField
  imports GaussianOps
begin

text \<open>
  The ring and field operations on Gaussian rationals compute in the complex numbers.
\<close>

section \<open>Copies, sums, negation, conjugation\<close>

lemma cpx_simps:
  "cpx a b + cpx c d = cpx (a + c) (b + d)" "cpx a b - cpx c d = cpx (a - c) (b - d)" "- cpx a b = cpx (- a) (- b)"
  "cnj (cpx a b) = cpx a (- b)" "cpx a b * cpx c d = cpx (a * c - b * d) (a * d + b * c)" "cpx a b = 0 \<longleftrightarrow> a = 0 \<and> b = 0"
  by (simp_all add: cpx_def complex_eq_iff of_rat_add of_rat_diff of_rat_minus of_rat_mult)

lemma both_some [simp]: "both (Some x) (Some y) = Some (cpx x y)"
  by (simp add: both_def)

lemma canonical_pair: "canonical c r \<Longrightarrow> pair r = quotient_of (rval r)"
  by (simp add: canonical_def)

lemma negated_lowest: "pair r = quotient_of q \<Longrightarrow> (- fst (pair r), snd (pair r)) = quotient_of (- q)"
  by (simp add: rat_uminus_code Let_def case_prod_beta)

lemma copy_may:
  assumes "same_env c c1" "ctx_ok c1" "owned c1 r" "operand c1 r" "canonical c v"
  shows "rat_may r c1 (Some (rval v)) (resource_failure c) (phy_bigrat_copy v False (r, c1))"
proof -
  have v: "canonical c1 v" using assms(5) canonical_env [OF assms(1)] by simp
  show ?thesis
    using copy_rat_spec [OF assms(2) canonical_operand [OF v] assms(3,4)] canonical_pair [OF v]
    by (intro rat_may_some [OF assms(1)]) simp_all
qed

lemma negate_may:
  assumes "same_env c c1" "ctx_ok c1" "owned c1 r" "operand c1 r" "canonical c v"
  shows "rat_may r c1 (Some (- rval v)) (resource_failure c) (phy_bigrat_negate v (r, c1))"
proof -
  have v: "canonical c1 v" using assms(5) canonical_env [OF assms(1)] by simp
  show ?thesis
    using negate_rat_spec [OF assms(2) canonical_operand [OF v] assms(3,4)] negated_lowest [OF canonical_pair [OF v]]
    by (intro rat_may_some [OF assms(1)]) simp_all
qed

lemma binary_may:
  assumes "same_env c c1" "ctx_ok c1" "owned c1 r" "operand c1 r" "canonical c v" "canonical c w"
  shows "rat_may r c1 (Some (rval v + rval w)) (resource_failure c) (phy_bigrat_add v w (r, c1))"
    "rat_may r c1 (Some (rval v - rval w)) (resource_failure c) (phy_bigrat_subtract v w (r, c1))"
proof -
  have v: "operand c1 v" "operand c1 w" using assms(5,6) canonical_env [OF assms(1)] canonical_operand by simp_all
  show "rat_may r c1 (Some (rval v + rval w)) (resource_failure c) (phy_bigrat_add v w (r, c1))"
    "rat_may r c1 (Some (rval v - rval w)) (resource_failure c) (phy_bigrat_subtract v w (r, c1))"
    by (rule rat_may_some [OF assms(1) add_spec [OF assms(2) v assms(3,4)]],
        assumption) (rule rat_may_some [OF assms(1) subtract_rat_spec [OF assms(2) v assms(3,4)]], assumption)
qed

lemma gaussian_unary_spec:
  assumes ok: "ctx_ok c" and v: "gok c v" and out: "gok c out" "owns c (gparts out)"
  shows "gsettled out c (Some (gval v)) (resource_failure c) (phy_gaussian_copy v (out, c))"
    "gsettled out c (Some (- gval v)) (resource_failure c) (phy_gaussian_negate v (out, c))"
    "gsettled out c (Some (cnj (gval v))) (resource_failure c) (phy_gaussian_conjugate v (out, c))"
proof -
  have cn: "canonical c (ga_real v)" "canonical c (ga_imag v)" using v by (simp_all add: gok_def)
  note cp = gok_compatible [OF v v out(1)]
  note op = two_parts_op [OF ok out, of "resource_failure c"]
  show "gsettled out c (Some (gval v)) (resource_failure c) (phy_gaussian_copy v (out, c))"
    using op [of "Some (rval (ga_real v))" "phy_bigrat_copy (ga_real v) False" "Some (rval (ga_imag v))" "phy_bigrat_copy (ga_imag v) False"]
      copy_may cn by (simp add: phy_gaussian_copy_def cp fill_copy_def gval_def)
  show "gsettled out c (Some (- gval v)) (resource_failure c) (phy_gaussian_negate v (out, c))"
    using op [of "Some (- rval (ga_real v))" "phy_bigrat_negate (ga_real v)" "Some (- rval (ga_imag v))" "phy_bigrat_negate (ga_imag v)"]
      negate_may cn by (simp add: phy_gaussian_negate_def cp fill_negate_def gval_def cpx_simps)
  show "gsettled out c (Some (cnj (gval v))) (resource_failure c) (phy_gaussian_conjugate v (out, c))"
    using op [of "Some (rval (ga_real v))" "phy_bigrat_copy (ga_real v) False" "Some (- rval (ga_imag v))" "phy_bigrat_negate (ga_imag v)"]
      copy_may negate_may cn by (simp add: phy_gaussian_conjugate_def cp fill_conjugate_def gval_def cpx_simps)
qed

lemma gaussian_sum_spec:
  assumes ok: "ctx_ok c" and l: "gok c l" and r: "gok c r" and out: "gok c out" "owns c (gparts out)"
  shows "gsettled out c (Some (gval l + gval r)) (resource_failure c) (phy_gaussian_add l r (out, c))"
    "gsettled out c (Some (gval l - gval r)) (resource_failure c) (phy_gaussian_subtract l r (out, c))"
proof -
  have cn: "canonical c (ga_real l)" "canonical c (ga_imag l)" "canonical c (ga_real r)" "canonical c (ga_imag r)"
    using l r by (simp_all add: gok_def)
  note cp = gok_compatible [OF l r out(1)]
  note op = two_parts_op [OF ok out, of "resource_failure c"]
  show "gsettled out c (Some (gval l + gval r)) (resource_failure c) (phy_gaussian_add l r (out, c))"
    using op [of "Some (rval (ga_real l) + rval (ga_real r))" "phy_bigrat_add (ga_real l) (ga_real r)"
        "Some (rval (ga_imag l) + rval (ga_imag r))" "phy_bigrat_add (ga_imag l) (ga_imag r)"]
      binary_may(1) cn by (simp add: phy_gaussian_add_def cp fill_add_def gval_def cpx_simps)
  show "gsettled out c (Some (gval l - gval r)) (resource_failure c) (phy_gaussian_subtract l r (out, c))"
    using op [of "Some (rval (ga_real l) - rval (ga_real r))" "phy_bigrat_subtract (ga_real l) (ga_real r)"
        "Some (rval (ga_imag l) - rval (ga_imag r))" "phy_bigrat_subtract (ga_imag l) (ga_imag r)"]
      binary_may(2) cn by (simp add: phy_gaussian_subtract_def cp fill_subtract_def gval_def cpx_simps)
qed

section \<open>Products\<close>

text \<open>A step by an operation that always has a result.\<close>

lemma step_total:
  assumes a: "ws c0 u0 qs w" and k: "k < length qs" "qs' = qs[k := q]" "m = length qs"
    and f: "\<And>rs c. ws c0 u0 qs (rs, [], c) \<Longrightarrow> same_env c0 c \<Longrightarrow> ctx_ok c \<Longrightarrow> owned c (rs ! k) \<Longrightarrow> operand c (rs ! k) \<Longrightarrow>
      rat_settled (rs ! k) c (quotient_of q) (resource_failure c) (f rs [] (rs ! k, c))"
    and E: "\<And>st. resource_failure c0 st \<Longrightarrow> E st"
  shows "run_ok (on_rat k f w) (ws c0 u0 qs') (ws_failed c0 u0 m E)"
  unfolding k(2,3)
proof (rule rat_step_settled [OF a k(1)])
  fix rs c assume b: "ws c0 u0 qs (rs, [], c)" "same_env c0 c" "ctx_ok c" "owned c (rs ! k)" "operand c (rs ! k)"
  show "rat_settled (rs ! k) c (quotient_of q) E (f rs [] (rs ! k, c))"
    by (rule rat_settled_mono [OF f [OF b]]) (use E resources [OF b(2)] in simp)
qed

lemma fill_done:
  assumes "ws c u (x # y # zs) w" "length zs = n" "z = Some (cpx x y)"
  shows "run_ok (run_steps [] w) (\<lambda>w. \<exists>x y zs. z = Some (cpx x y) \<and> length zs = n \<and> ws c u ([x, y] @ zs) w) E"
  using assms by auto

lemma gaussian_multiply_spec:
  assumes ok: "ctx_ok c" and l: "gok c l" and r: "gok c r" and out: "gok c out" "owns c (gparts out)"
  shows "gsettled out c (Some (gval l * gval r)) (resource_failure c) (phy_gaussian_multiply l r (out, c))"
proof -
  let ?E = "resource_failure c"
  define a b p q where "a = rval (ga_real l)" and "b = rval (ga_imag l)" and "p = rval (ga_real r)" and "q = rval (ga_imag r)"
  note vals = a_def b_def p_def q_def
  have eq: "phy_gaussian_multiply l r (out, c) = gaussian_transaction (fill_multiply l r) (out, c)"
    by (simp add: phy_gaussian_multiply_def gok_compatible [OF l r out(1)])
  have v: "gval l * gval r = cpx (a * p - b * q) (a * q + b * p)" by (simp add: gval_def vals cpx_simps)
  show ?thesis unfolding eq v fill_multiply_def
  proof (rule transaction_ok [OF ok out])
    fix c1 t assume e: "same_env c c1" and c1: "ctx_ok c1" "ec_depth c1 \<noteq> 0" "gok c1 t" "owns c1 (gparts t)"
    let ?u = "gparts t"
    have rf: "\<And>st. resource_failure c1 st \<Longrightarrow> ?E st" using resources [OF e] by simp
    have l1: "operand c2 (ga_real l)" "operand c2 (ga_imag l)" and r1: "operand c2 (ga_real r)" "operand c2 (ga_imag r)"
      if "same_env c1 c2" for c2
      using gok_operand [OF l same_env_trans [OF e that]] gok_operand [OF r same_env_trans [OF e that]] by simp_all
    note mul = multiply_rat_spec
    have s2: "run_ok (on_rat 2 (\<lambda>rs ts. phy_bigrat_multiply (ga_real l) (ga_real r)) w) (ws c1 ?u [x, y, a * p, 0, 0, 0]) (ws_failed c1 ?u 6 ?E)"
      if "ws c1 ?u [x, y, 0, 0, 0, 0] w" for x y w
      by (rule step_total [OF that, of 2 _ "a * p"]) (use mul [OF _ l1(1) r1(1)] rf in \<open>simp_all add: vals\<close>)
    have s3: "run_ok (on_rat 3 (\<lambda>rs ts. phy_bigrat_multiply (ga_imag l) (ga_imag r)) w) (ws c1 ?u [x, y, a * p, b * q, 0, 0]) (ws_failed c1 ?u 6 ?E)"
      if "ws c1 ?u [x, y, a * p, 0, 0, 0] w" for x y w
      by (rule step_total [OF that, of 3 _ "b * q"]) (use mul [OF _ l1(2) r1(2)] rf in \<open>simp_all add: vals\<close>)
    have s4: "run_ok (on_rat 4 (\<lambda>rs ts. phy_bigrat_multiply (ga_real l) (ga_imag r)) w) (ws c1 ?u [x, y, a * p, b * q, a * q, 0]) (ws_failed c1 ?u 6 ?E)"
      if "ws c1 ?u [x, y, a * p, b * q, 0, 0] w" for x y w
      by (rule step_total [OF that, of 4 _ "a * q"]) (use mul [OF _ l1(1) r1(2)] rf in \<open>simp_all add: vals\<close>)
    have s5: "run_ok (on_rat 5 (\<lambda>rs ts. phy_bigrat_multiply (ga_imag l) (ga_real r)) w) (ws c1 ?u [x, y, a * p, b * q, a * q, b * p]) (ws_failed c1 ?u 6 ?E)"
      if "ws c1 ?u [x, y, a * p, b * q, a * q, 0] w" for x y w
      by (rule step_total [OF that, of 5 _ "b * p"]) (use mul [OF _ l1(2) r1(1)] rf in \<open>simp_all add: vals\<close>)
    have s0: "run_ok (on_rat 0 (\<lambda>rs ts. phy_bigrat_subtract (rs ! 2) (rs ! 3)) w)
        (ws c1 ?u [a * p - b * q, y, a * p, b * q, a * q, b * p]) (ws_failed c1 ?u 6 ?E)"
      if w: "ws c1 ?u [x, y, a * p, b * q, a * q, b * p] w" for x y w
    proof (rule step_total [OF w, of 0 _ "a * p - b * q"])
      fix rs c2 assume b: "ws c1 ?u [x, y, a * p, b * q, a * q, b * p] (rs, [], c2)" "ctx_ok c2" "owned c2 (rs ! 0)" "operand c2 (rs ! 0)"
      show "rat_settled (rs ! 0) c2 (quotient_of (a * p - b * q)) (resource_failure c2) (phy_bigrat_subtract (rs ! 2) (rs ! 3) (rs ! 0, c2))"
        using subtract_rat_spec [OF b(2) ws_rat(1) [OF b(1), of 2] ws_rat(1) [OF b(1), of 3] b(3,4)] ws_rat(3) [OF b(1), of 2] ws_rat(3) [OF b(1), of 3] by simp
    qed (use rf in simp_all)
    have s1: "run_ok (on_rat 1 (\<lambda>rs ts. phy_bigrat_add (rs ! 4) (rs ! 5)) w)
        (ws c1 ?u [z, a * q + b * p, a * p, b * q, a * q, b * p]) (ws_failed c1 ?u 6 ?E)"
      if w: "ws c1 ?u [z, y, a * p, b * q, a * q, b * p] w" for z y w
    proof (rule step_total [OF w, of 1 _ "a * q + b * p"])
      fix rs c2 assume b: "ws c1 ?u [z, y, a * p, b * q, a * q, b * p] (rs, [], c2)" "ctx_ok c2" "owned c2 (rs ! 1)" "operand c2 (rs ! 1)"
      show "rat_settled (rs ! 1) c2 (quotient_of (a * q + b * p)) (resource_failure c2) (phy_bigrat_add (rs ! 4) (rs ! 5) (rs ! 1, c2))"
        using add_spec [OF b(2) ws_rat(1) [OF b(1), of 4] ws_rat(1) [OF b(1), of 5] b(3,4)] ws_rat(3) [OF b(1), of 4] ws_rat(3) [OF b(1), of 5] by simp
    qed (use rf in simp_all)
    have six: "2 + 4 = (6 :: nat)" by simp
    have four: "[x, y] @ replicate 4 0 = [x, y, 0, 0, 0, 0 :: rat]" for x y by (simp add: eval_nat_numeral)
    show "gfilled t c1 (Some (cpx (a * p - b * q) (a * q + b * p))) ?E
        (fill_with 4 [on_rat 2 (\<lambda>rs ts. phy_bigrat_multiply (ga_real l) (ga_real r)),
                  on_rat 3 (\<lambda>rs ts. phy_bigrat_multiply (ga_imag l) (ga_imag r)),
                  on_rat 4 (\<lambda>rs ts. phy_bigrat_multiply (ga_real l) (ga_imag r)),
                  on_rat 5 (\<lambda>rs ts. phy_bigrat_multiply (ga_imag l) (ga_real r)),
                  on_rat 0 (\<lambda>rs ts. phy_bigrat_subtract (rs ! 2) (rs ! 3)),
                  on_rat 1 (\<lambda>rs ts. phy_bigrat_add (rs ! 4) (rs ! 5))] (t, c1))"
      by (rule fill_ok [OF c1 rf], assumption, unfold six four, rule run_steps_Cons, erule s2, rule run_steps_Cons, erule s3,
          rule run_steps_Cons, erule s4, rule run_steps_Cons, erule s5, rule run_steps_Cons, erule s0, rule run_steps_Cons, erule s1,
          erule fill_done) simp_all
  qed simp
qed

section \<open>The norm\<close>

text \<open>Steps that leave the first rational alone.\<close>

definition keeps_first :: "(work \<Rightarrow> work run) \<Rightarrow> bool" where
  "keeps_first f \<longleftrightarrow> (\<forall>r rs w st w'. f (r # rs, w) = Some (st, w') \<longrightarrow> fst w' \<noteq> [] \<and> hd (fst w') = r)"

lemma keeps_on_rat:
  assumes "0 < k"
  shows "keeps_first (on_rat k f)"
proof -
  obtain j where "k = Suc j" using assms by (cases k) simp_all
  then show ?thesis by (auto simp: keeps_first_def on_rat_def)
qed

lemma keeps_steps:
  assumes "\<forall>f \<in> set fs. keeps_first f" "run_steps fs (r # rs, w) = Some (st, w')"
  shows "fst w' \<noteq> [] \<and> hd (fst w') = r"
  using assms
proof (induction fs arbitrary: rs w)
  case (Cons f fs)
  then obtain s1 w1 where f: "f (r # rs, w) = Some (s1, w1)" by (auto split: option.splits)
  have k: "fst w1 \<noteq> [] \<and> hd (fst w1) = r" using Cons.prems(1) f unfolding keeps_first_def by (metis list.set_intros(1))
  show ?case
  proof (cases "s1 = PHY_OK")
    case True
    obtain rs1 v where "w1 = (r # rs1, v)" using k by (cases w1; cases "fst w1") auto
    then show ?thesis using Cons f True by simp
  next
    case False
    then show ?thesis using Cons.prems(2) f k by simp
  qed
qed auto

lemma run_steps_snoc:
  assumes "run_steps (fs @ [g]) w = Some (st, w')" "st \<noteq> PHY_OK" "\<And>w st w'. g w = Some (st, w') \<Longrightarrow> st \<noteq> PHY_OK \<Longrightarrow> w' = w"
  shows "\<exists>s1. run_steps fs w = Some (s1, w')"
  using assms(1,2)
proof (induction fs arbitrary: w)
  case Nil
  then show ?case using assms(3) [of w st w'] by (auto split: option.splits if_splits)
next
  case (Cons f fs)
  then show ?case by (auto split: option.splits if_splits)
qed

lemma swap_step_failed:
  "swap_rat_step i j w = Some (st, w') \<Longrightarrow> st \<noteq> PHY_OK \<Longrightarrow> w' = w"
  by (auto simp: swap_rat_step_def phy_bigrat_swap_def split: prod.splits if_splits)

lemma swap_step_ok:
  assumes w: "ws c0 u0 [x, y, z, q] w"
  shows "run_ok (swap_rat_step 3 0 w) (ws c0 u0 [q, y, z, x]) E"
proof -
  obtain rs ts c where w0: "w = (rs, ts, c)" by (cases w)
  note a = w [unfolded w0]
  have "length rs = 4" "ts = []" using ws_context(4,5) [OF a] by simp_all
  then obtain r0 r1 r2 r3 where rs: "rs = [r0, r1, r2, r3]" "ts = []" by (auto simp: length_Suc_conv eval_nat_numeral)
  have v: "operand c r0" "operand c r3" "live_rat c r0" "live_rat c r3"
    using ws_rat(1,2) [OF a, of 0] ws_rat(1,2) [OF a, of 3] by (simp_all add: rs owned_def eval_nat_numeral)
  have s: "phy_bigrat_swap c (r3, r0) = (PHY_OK, r0, r3)"
    using v swap_rats [OF v(4,3)] by (simp add: phy_bigrat_swap_def rat_compatible_iff operand_def)
  have eq: "swap_rat_step 3 0 w = Some (PHY_OK, [r3, r1, r2, r0], [], c)"
    by (simp add: swap_rat_step_def w0 rs s eval_nat_numeral)
  show ?thesis using a unfolding eq by (auto simp: ws_def worth_def rs flat_def shifted_def)
qed

lemma norm_into_ok:
  assumes c: "ctx_ok c" "ec_depth c \<noteq> 0" and v: "gok c v" and out: "canonical c out" "owned c out"
  defines "n \<equiv> rval (ga_real v) * rval (ga_real v) + rval (ga_imag v) * rval (ga_imag v)"
  shows "run_ok (norm_into v (out, c)) (\<lambda>(out', c'). shifted c (parts out) c' (parts out') \<and> canonical c' out' \<and> rval out' = n)
    (\<lambda>st (out', c'). out' = out \<and> shifted c (parts out) c' (parts out) \<and> resource_failure c st)"
proof -
  let ?E = "resource_failure c" and ?u = "parts out"
  define a b where "a = rval (ga_real v)" and "b = rval (ga_imag v)"
  let ?fs = "[on_rat 1 (\<lambda>rs ts. phy_bigrat_multiply (ga_real v) (ga_real v)),
     on_rat 2 (\<lambda>rs ts. phy_bigrat_multiply (ga_imag v) (ga_imag v)),
     on_rat 3 (\<lambda>rs ts. phy_bigrat_add (rs ! 1) (rs ! 2))]"
  have "shifted c ?u c ?u" using c(1) live_slots out(2) by (intro shifted_refl) (auto simp: owned_def)
  then have w0: "ws c ?u [rval out] ([out], [], c)"
    using c out canonical_live [OF out(1)]
    by (simp add: ws_def worth_def flat_def owned_def rat_slot_def slot_pair_def canonical_def)
  note mul = multiply_rat_spec
  have o1: "operand c2 (ga_real v)" "operand c2 (ga_imag v)" if "same_env c c2" for c2 using gok_operand [OF v that] by simp_all
  have s1: "run_ok (hd ?fs w) (ws c ?u [x, a * a, 0, 0]) (ws_failed c ?u 4 ?E)" if "ws c ?u [x, 0, 0, 0] w" for x w
    unfolding list.sel by (rule step_total [OF that, of 1 _ "a * a"]) (use mul [OF _ o1(1) o1(1)] in \<open>simp_all add: a_def\<close>)
  have s2: "run_ok (hd (tl ?fs) w) (ws c ?u [x, a * a, b * b, 0]) (ws_failed c ?u 4 ?E)" if "ws c ?u [x, a * a, 0, 0] w" for x w
    unfolding list.sel by (rule step_total [OF that, of 2 _ "b * b"]) (use mul [OF _ o1(2) o1(2)] in \<open>simp_all add: b_def\<close>)
  have s3: "run_ok (hd (tl (tl ?fs)) w) (ws c ?u [x, a * a, b * b, n]) (ws_failed c ?u 4 ?E)" if w: "ws c ?u [x, a * a, b * b, 0] w" for x w
    unfolding list.sel
  proof (rule step_total [OF w, of 3 _ n])
    fix rs c2 assume b: "ws c ?u [x, a * a, b * b, 0] (rs, [], c2)" "ctx_ok c2" "owned c2 (rs ! 3)" "operand c2 (rs ! 3)"
    show "rat_settled (rs ! 3) c2 (quotient_of n) (resource_failure c2) (phy_bigrat_add (rs ! 1) (rs ! 2) (rs ! 3, c2))"
      using add_spec [OF b(2) ws_rat(1) [OF b(1), of 1] ws_rat(1) [OF b(1), of 2] b(3,4)] ws_rat(3) [OF b(1), of 1] ws_rat(3) [OF b(1), of 2]
      by (simp add: n_def a_def b_def)
  qed simp_all
  have steps: "run_ok (run_steps (?fs @ [swap_rat_step 3 0]) w)
      (\<lambda>w. \<exists>ps zs. ps = [n] \<and> length ps = length [rval out] \<and> length zs = 3 \<and> ws c ?u (ps @ zs) w) (ws_failed c ?u (length [rval out] + 3) ?E)"
    if w: "ws c ?u ([rval out] @ replicate 3 0) w" for w
  proof -
    have w: "ws c ?u [rval out, 0, 0, 0] w" using w by (simp add: eval_nat_numeral)
    have m: "length [rval out] + 3 = (4 :: nat)" by simp
    have fin: "run_ok (run_steps [] w') (\<lambda>w. \<exists>ps zs. ps = [n] \<and> length ps = length [rval out] \<and> length zs = 3 \<and> ws c ?u (ps @ zs) w) (ws_failed c ?u 4 ?E)"
      if "ws c ?u [n, a * a, b * b, rval out] w'" for w'
      using that by (auto intro!: exI [of _ "[a * a, b * b, rval out]"])
    show ?thesis unfolding m append_Cons append_Nil
      by (rule run_steps_Cons, rule s1 [OF w, unfolded list.sel], rule run_steps_Cons, erule s2 [unfolded list.sel],
          rule run_steps_Cons, erule s3 [unfolded list.sel], rule run_steps_Cons, erule swap_step_ok, erule fin)
  qed
  from with_locals_ok [OF w0 _ steps] have "run_ok (with_locals 3 (?fs @ [swap_rat_step 3 0]) ([out], [], c))
      (\<lambda>w. \<exists>ps. ps = [n] \<and> length ps = length [rval out] \<and> ws c ?u ps w) (ws_failed c ?u (length [rval out]) ?E)" by simp
  from run_okE [OF this] obtain st w where r: "with_locals 3 (?fs @ [swap_rat_step 3 0]) ([out], [], c) = Some (st, w)"
    "st = PHY_OK \<Longrightarrow> \<exists>ps. ps = [n] \<and> length ps = length [rval out] \<and> ws c ?u ps w"
    "st \<noteq> PHY_OK \<Longrightarrow> ws_failed c ?u (length [rval out]) ?E st w" by blast
  obtain rs ts c' where w: "w = (rs, ts, c')" by (cases w)
  have eq: "norm_into v (out, c) = Some (st, rs ! 0, c')" using r(1) [unfolded w] by (simp add: norm_into_def)
  show ?thesis
  proof (cases "st = PHY_OK")
    case True
    have g: "ws c ?u [n] (rs, ts, c')" using r(2) [OF True] w by blast
    have "length rs = 1" "ts = []" using ws_context(4,5) [OF g] by simp_all
    then obtain y where y: "rs = [y]" "ts = []" by (auto simp: length_Suc_conv)
    have "shifted c ?u c' (parts y)" using g by (simp add: ws_def worth_def y flat_def)
    then show ?thesis using True ws_rat(3,4) [OF g, of 0] by (simp add: eq y)
  next
    case False
    have d: "dirty c ?u 1 (rs, ts, c')" "ts = []" "?E st" using r(3) [OF False] by (auto simp: ws_failed_def w)
    obtain y where y: "rs = [y]" using d(1) by (auto simp: dirty_def length_Suc_conv)
    have "shifted c ?u c' (parts y)" using d by (simp add: dirty_def flat_def y)
    moreover have "y = out"
    proof -
      obtain st1 rs1 ts1 c1 where in1: "run_steps (map init_rat [1..<1 + 3] @ (?fs @ [swap_rat_step 3 0])) ([out] @ replicate 3 null_bigrat, [], c) = Some (st1, rs1, ts1, c1)"
        "st1 = st" "take 1 rs1 = [y]"
        using r(1) by (auto simp: with_locals_def w y simp del: append_Cons append_Nil upt_conv_Cons)
      let ?gs = "map init_rat [1..<1 + 3] @ ?fs"
      have in2: "run_steps (?gs @ [swap_rat_step 3 0]) (out # replicate 3 null_bigrat, [], c) = Some (st, rs1, ts1, c1)"
        using in1(1,2) by simp
      have "\<exists>s1. run_steps ?gs (out # replicate 3 null_bigrat, [], c) = Some (s1, rs1, ts1, c1)"
        by (rule run_steps_snoc [OF in2 False]) (rule swap_step_failed)
      then obtain s1 where "run_steps ?gs (out # replicate 3 null_bigrat, [], c) = Some (s1, rs1, ts1, c1)" ..
      from keeps_steps [OF _ this] have "rs1 \<noteq> [] \<and> hd rs1 = out"
        using keeps_on_rat by (auto simp: init_rat_def)
      then show ?thesis using in1(3) by (cases rs1) simp_all
    qed
    ultimately show ?thesis using False d(3) by (simp add: eq y)
  qed
qed

end
