(* ===== verification/GaussianDivide.thy ===== *)
theory GaussianDivide
  imports GaussianField
begin

text \<open>
  Norm, reciprocal, division and powers of Gaussian rationals: transactions nested in an
  operation that owns temporaries of its own.
\<close>

section \<open>The norm\<close>

lemma gaussian_norm_spec:
  assumes ok: "ctx_ok c" and v: "gok c v" and out: "canonical c out" "owned c out"
  shows "rat_settled out c (quotient_of (rval (ga_real v) * rval (ga_real v) + rval (ga_imag v) * rval (ga_imag v)))
    (resource_failure c) (phy_gaussian_norm v (out, c))"
proof -
  let ?c0 = "entered c" and ?n = "rval (ga_real v) * rval (ga_real v) + rval (ga_imag v) * rval (ga_imag v)"
  have c0: "ctx_ok ?c0" "ec_depth ?c0 \<noteq> 0" using begun_ok [OF ok] by simp_all
  have e: "same_env c ?c0" by (rule entered_env)
  have o0: "gok ?c0 v" "canonical ?c0 out" "owned ?c0 out"
    using v out gok_env [OF e] canonical_env [OF e] live_rat_env [OF e] by (simp_all add: owned_def owns_def)
  have g: "gaussian_context c v \<noteq> None" "phy_bigrat_validate c out = PHY_OK" "gaussian_context c v = Some (bg_owner (br_num out))"
    using gok_context [OF v] canonical_owner [OF out(1)] by simp_all
  obtain st out' c1 where n: "norm_into v (out, ?c0) = Some (st, out', c1)" and sh: "shifted ?c0 (parts out) c1 (parts out')"
    and r: "st = PHY_OK \<Longrightarrow> canonical c1 out' \<and> rval out' = ?n" "st \<noteq> PHY_OK \<Longrightarrow> out' = out \<and> resource_failure ?c0 st"
    using norm_into_ok [OF c0 o0] by (rule run_okE) (auto split: prod.splits if_splits)
  obtain c3 where c3: "phy_exact_operation_end c1 st = (st, c3)" "shifted (begun c) (parts out) c3 (parts out')"
    using end_shifted [OF ok, of "parts out" c1 "parts out'" "[]" "[]" st] sh out(2) by (auto simp: owned_def)
  have eq: "phy_gaussian_norm v (out, c) = Some (st, out', c3)"
    using g by (simp add: phy_gaussian_norm_def begin_eq [OF ok] n c3(1))
  show ?thesis
  proof (cases "st = PHY_OK")
    case True
    have "same_env c1 c3"
      using shiftedD(1) [OF sh] shiftedD(1) [OF c3(2)] entered_env [of c] begun_env(1) [of c] by (auto simp: same_env_def)
    then have "canonical c3 out'" using r(1) [OF True] canonical_env by blast
    then have "live_rat c3 out' \<and> pair out' = quotient_of ?n" using r(1) [OF True] canonical_live canonical_pair by metis
    then show ?thesis using True c3(2) unfolding rat_settled_def eq run_ok_some by simp
  next
    case False
    then show ?thesis using c3(2) r(2) resources [OF e] unfolding rat_settled_def eq run_ok_some by simp
  qed
qed

section \<open>The reciprocal\<close>

lemma refuse_zero_ok:
  assumes a: "ws c0 u0 qs w" and k: "k < length qs"
  shows "run_ok (refuse_zero k w) (\<lambda>w'. qs ! k \<noteq> 0 \<and> ws c0 u0 qs w') (ws_failed c0 u0 (length qs) (\<lambda>st. qs ! k = 0 \<and> st = PHY_ERR_DOMAIN))"
proof -
  obtain rs ts c where w: "w = (rs, ts, c)" by (cases w)
  note a' = a [unfolded w]
  have ts: "ts = []" by (rule ws_context(4) [OF a'])
  have v: "operand c (rs ! k)" "rval (rs ! k) = qs ! k" using ws_rat(1,3) [OF a' [unfolded ts] k] ts by simp_all
  have "phy_bigrat_sign c (rs ! k) = 0 \<longleftrightarrow> ival (br_num (rs ! k)) = 0"
    using operandD [OF v(1)] v(1) sign_value [of c "br_num (rs ! k)"] by (auto simp: phy_bigrat_sign_def operand_def)
  moreover have "rval (rs ! k) = 0 \<longleftrightarrow> ival (br_num (rs ! k)) = 0"
    using operandD(3) [OF v(1)] by (simp add: rval_def eq_rat Zero_rat_def)
  ultimately have s: "phy_bigrat_sign c (rs ! k) = 0 \<longleftrightarrow> qs ! k = 0" using v(2) by simp
  have "dirty c0 u0 (length qs) w" using worth_dirty [of c0 u0 _ "[]" w] a unfolding ws_def by fastforce
  then show ?thesis using a s ts by (simp add: refuse_zero_def w ws_failed_def)
qed

lemma norm_step:
  assumes a: "ws c0 u0 qs w" and k: "k < length qs" and v: "gok c0 v" and E: "\<And>st. resource_failure c0 st \<Longrightarrow> E st"
  shows "run_ok (on_rat k (\<lambda>rs ts. norm_into v) w)
    (ws c0 u0 (qs[k := rval (ga_real v) * rval (ga_real v) + rval (ga_imag v) * rval (ga_imag v)])) (ws_failed c0 u0 (length qs) E)"
proof (rule rat_step [OF a k])
  fix rs c assume b: "ws c0 u0 qs (rs, [], c)"
  note c = ws_context [OF b] and r = ws_rat [OF b k]
  have "gok c v" using v gok_env [OF c(3)] by simp
  from norm_into_ok [OF c(1,2) this r(4,2)] show
    "computes_rat c (norm_into v) (rs ! k) (quotient_of (rval (ga_real v) * rval (ga_real v) + rval (ga_imag v) * rval (ga_imag v))) E"
    unfolding computes_rat_def
    by (rule run_ok_mono) (use E resources [OF c(3)] canonical_live [OF r(4)] in \<open>auto simp: canonical_def\<close>)
qed

lemma gaussian_reciprocal_spec:
  assumes ok: "ctx_ok c" and v: "gok c v" and out: "gok c out" "owns c (gparts out)"
  shows "gsettled out c (if gval v = 0 then None else Some (inverse (gval v)))
    (\<lambda>st. resource_failure c st \<or> gval v = 0 \<and> st = PHY_ERR_DOMAIN) (phy_gaussian_reciprocal v (out, c))"
proof -
  define a b where "a = rval (ga_real v)" and "b = rval (ga_imag v)"
  define n where "n = a * a + b * b"
  let ?E = "\<lambda>st. resource_failure c st \<or> gval v = 0 \<and> st = PHY_ERR_DOMAIN"
  have z: "gval v = 0 \<longleftrightarrow> n = 0"
    by (simp add: gval_def cpx_simps n_def a_def b_def sum_squares_eq_zero_iff)
  have i: "inverse (gval v) = cpx (a / n) (- b / n)" if "n \<noteq> 0"
    by (simp add: gval_def a_def [symmetric] b_def [symmetric] cpx_def n_def complex_inverse power2_eq_square of_rat_divide of_rat_add of_rat_mult of_rat_minus)
  have eq: "phy_gaussian_reciprocal v (out, c) = gaussian_transaction (fill_reciprocal v) (out, c)"
    by (simp add: phy_gaussian_reciprocal_def gok_compatible [OF v v out(1)])
  show ?thesis unfolding eq fill_reciprocal_def
  proof (rule transaction_ok [OF ok out])
    fix c1 t assume e: "same_env c c1" and c1: "ctx_ok c1" "ec_depth c1 \<noteq> 0" "gok c1 t" "owns c1 (gparts t)"
    let ?u = "gparts t" and ?z = "if gval v = 0 then None else Some (inverse (gval v))"
    have rf: "\<And>st. resource_failure c1 st \<Longrightarrow> ?E st" using resources [OF e] by simp
    have v1: "gok c1 v" using v gok_env [OF e] by simp
    have o1: "operand c2 (ga_real v)" "operand c2 (ga_imag v)" "canonical c2 (ga_imag v)" if "same_env c1 c2" for c2
      using gok_operand [OF v1 that] by simp_all
    have s2: "run_ok (on_rat 2 (\<lambda>rs ts. norm_into v) w) (ws c1 ?u [x, y, n, 0]) (ws_failed c1 ?u 4 ?E)" if "ws c1 ?u [x, y, 0, 0] w" for x y w
      using norm_step [OF that, of 2 v ?E] v1 rf by (simp add: a_def b_def n_def eval_nat_numeral)
    have sz: "run_ok (refuse_zero 2 w) (\<lambda>w. n \<noteq> 0 \<and> ws c1 ?u [x, y, n, 0] w) (ws_failed c1 ?u 4 ?E)" if "ws c1 ?u [x, y, n, 0] w" for x y w
      by (rule run_ok_mono [OF refuse_zero_ok [OF that, of 2]]) (use z in \<open>auto simp: ws_failed_def eval_nat_numeral\<close>)
    have s3: "run_ok (on_rat 3 (\<lambda>rs ts. phy_bigrat_negate (ga_imag v)) w) (ws c1 ?u [x, y, n, - b]) (ws_failed c1 ?u 4 ?E)"
      if "ws c1 ?u [x, y, n, 0] w" for x y w
      by (rule step_total [OF that, of 3 _ "- b"])
        (use negate_rat_spec [OF _ o1(2)] negated_lowest [OF canonical_pair [OF o1(3)]] rf in \<open>simp_all add: b_def\<close>)
    have s0: "run_ok (on_rat 0 (\<lambda>rs ts. phy_bigrat_divide (ga_real v) (rs ! 2)) w) (ws c1 ?u [a / n, y, n, - b]) (ws_failed c1 ?u 4 ?E)"
      if nz: "n \<noteq> 0" and w: "ws c1 ?u [x, y, n, - b] w" for x y w
    proof (rule step_total [OF w, of 0 _ "a / n"])
      fix rs c2 assume b: "ws c1 ?u [x, y, n, - b] (rs, [], c2)" "same_env c1 c2" "ctx_ok c2" "owned c2 (rs ! 0)" "operand c2 (rs ! 0)"
      show "rat_settled (rs ! 0) c2 (quotient_of (a / n)) (resource_failure c2) (phy_bigrat_divide (ga_real v) (rs ! 2) (rs ! 0, c2))"
        using divide_rat_spec [OF b(3) o1(1) [OF b(2)] ws_rat(1) [OF b(1), of 2] b(4,5)] ws_rat(3) [OF b(1), of 2] nz by (simp add: a_def)
    qed (use rf in simp_all)
    have s1: "run_ok (on_rat 1 (\<lambda>rs ts. phy_bigrat_divide (rs ! 3) (rs ! 2)) w) (ws c1 ?u [x, - b / n, n, - b]) (ws_failed c1 ?u 4 ?E)"
      if nz: "n \<noteq> 0" and w: "ws c1 ?u [x, y, n, - b] w" for x y w
    proof (rule step_total [OF w, of 1 _ "- b / n"])
      fix rs c2 assume b: "ws c1 ?u [x, y, n, - b] (rs, [], c2)" "same_env c1 c2" "ctx_ok c2" "owned c2 (rs ! 1)" "operand c2 (rs ! 1)"
      show "rat_settled (rs ! 1) c2 (quotient_of (- b / n)) (resource_failure c2) (phy_bigrat_divide (rs ! 3) (rs ! 2) (rs ! 1, c2))"
        using divide_rat_spec [OF b(3) ws_rat(1) [OF b(1), of 3] ws_rat(1) [OF b(1), of 2] b(4,5)]
          ws_rat(3) [OF b(1), of 2] ws_rat(3) [OF b(1), of 3] nz by simp
    qed (use rf in simp_all)
    have four: "2 + 2 = (4 :: nat)" "[x, y] @ replicate 2 0 = [x, y, 0, 0 :: rat]" for x y by (simp_all add: eval_nat_numeral)
    let ?rest = "[on_rat 3 (\<lambda>rs ts. phy_bigrat_negate (ga_imag v)), on_rat 0 (\<lambda>rs ts. phy_bigrat_divide (ga_real v) (rs ! 2)),
        on_rat 1 (\<lambda>rs ts. phy_bigrat_divide (rs ! 3) (rs ! 2))]"
    have fin: "run_ok (run_steps (refuse_zero 2 # ?rest) w)
        (\<lambda>w. \<exists>x y zs. ?z = Some (cpx x y) \<and> length zs = 2 \<and> ws c1 ?u ([x, y] @ zs) w) (ws_failed c1 ?u 4 ?E)"
      if w: "ws c1 ?u [x, y, n, 0] w" for x y w
    proof (cases "n = 0")
      case True
      show ?thesis by (rule run_steps_Cons [where Q = "\<lambda>w. False"], rule run_ok_mono [OF sz [OF w]]) (simp_all add: True)
    next
      case False
      have r: "?z = Some (cpx (a / n) (- b / n))" using z i [OF False] False by simp
      show ?thesis unfolding r
        by (rule run_steps_Cons, rule sz [OF w], erule conjE, rule run_steps_Cons, erule s3, rule run_steps_Cons, erule s0 [OF False],
            rule run_steps_Cons, erule s1 [OF False], erule fill_done) simp_all
    qed
    show "gfilled t c1 ?z ?E (fill_with 2 [on_rat 2 (\<lambda>rs ts. norm_into v), refuse_zero 2,
        on_rat 3 (\<lambda>rs ts. phy_bigrat_negate (ga_imag v)), on_rat 0 (\<lambda>rs ts. phy_bigrat_divide (ga_real v) (rs ! 2)),
        on_rat 1 (\<lambda>rs ts. phy_bigrat_divide (rs ! 3) (rs ! 2))] (t, c1))"
      by (rule fill_ok [OF c1 rf], assumption, unfold four, rule run_steps_Cons, erule s2, erule fin)
  qed simp
qed

end
