(* ===== verification/GaussianPow.thy ===== *)
theory GaussianPow
  imports GaussianDivide
begin

text \<open>
  Division and powers of Gaussian rationals: operations that own Gaussian temporaries and call
  transactions inside.
\<close>

section \<open>Values held by an operation\<close>

text \<open>The output and the temporaries of a running operation, all of them valid.\<close>

definition gheld :: "phy_exact_context \<Rightarrow> phy_bigint list \<Rightarrow> phy_gaussian list \<Rightarrow> phy_exact_context \<Rightarrow> bool" where
  "gheld c0 u0 gs c \<longleftrightarrow> owns c0 u0 \<and> ec_depth c0 \<noteq> 0 \<and> shifted c0 u0 c (concat (map gparts gs)) \<and> (\<forall>g \<in> set gs. gok c g)"

lemma gheldD:
  assumes "gheld c0 u0 gs c"
  shows "ctx_ok c" "ec_depth c \<noteq> 0" "same_env c0 c" "k < length gs \<Longrightarrow> gok c (gs ! k)" "k < length gs \<Longrightarrow> owns c (gparts (gs ! k))"
proof -
  have sh: "shifted c0 u0 c (concat (map gparts gs))" and ow: "owns c0 u0" using assms by (simp_all add: gheld_def)
  show "ctx_ok c" "ec_depth c \<noteq> 0" "same_env c0 c" "k < length gs \<Longrightarrow> gok c (gs ! k)"
    using shiftedD [OF sh] assms by (simp_all add: gheld_def)
  show "owns c (gparts (gs ! k))" if "k < length gs"
    using shifted_owns [OF sh ow] arg_cong [OF id_take_nth_drop [OF that], of "\<lambda>gs. concat (map gparts gs)"]
    by (simp add: owns_def)
qed

lemma gheld_step:
  assumes h: "gheld c0 u0 gs c" and k: "k < length gs" and r: "gsettled (gs ! k) c z E r"
  shows "\<exists>st g c'. r = Some (st, g, c') \<and> gheld c0 u0 (gs[k := g]) c' \<and>
    (if st = PHY_OK then z = Some (gval g) else g = gs ! k \<and> E st)"
proof -
  note d = gheldD [OF h]
  have b: "begun c = c" using d(2) by simp
  obtain st g c' where res: "r = Some (st, g, c')" "shifted c (gparts (gs ! k)) c' (gparts g)"
    "st = PHY_OK \<Longrightarrow> gok c' g \<and> z = Some (gval g)" "st \<noteq> PHY_OK \<Longrightarrow> g = gs ! k \<and> E st"
    using r unfolding gsettled_def b by (rule run_okE) (auto split: prod.splits if_splits)
  have e: "same_env c c'" by (rule shiftedD(1) [OF res(2)])
  have g: "gok c' g" using res(3,4) d(4) [OF k] gok_env [OF e] by (cases "st = PHY_OK") simp_all
  have cc: "concat (map gparts (gs[k := x])) = concat (map gparts (take k gs)) @ gparts x @ concat (map gparts (drop (Suc k) gs))" for x
    using k by (simp add: upd_conv_take_nth_drop)
  have "shifted c0 u0 c (concat (map gparts (take k gs)) @ gparts (gs ! k) @ concat (map gparts (drop (Suc k) gs)))"
    using h cc [of "gs ! k"] by (simp add: gheld_def)
  from shifted_frame [OF this res(2)] have "shifted c0 u0 c' (concat (map gparts (gs[k := g])))" unfolding cc .
  moreover have "\<forall>x \<in> set (gs[k := g]). gok c' x"
    using h g gok_env [OF e] set_update_subset_insert [of gs k g] by (auto simp: gheld_def)
  ultimately have "gheld c0 u0 (gs[k := g]) c'" using h by (simp add: gheld_def)
  then show ?thesis using res by auto
qed

lemma gheld_stepE:
  assumes "gheld c0 u0 gs c" "k < length gs" "gs ! k = v" "gsettled v c z E r" "gs' = (\<lambda>g. gs[k := g])"
  obtains st g c' where "r = Some (st, g, c')" "gheld c0 u0 (gs' g) c'" "st = PHY_OK \<Longrightarrow> z = Some (gval g)"
    "st \<noteq> PHY_OK \<Longrightarrow> g = v \<and> E st"
  using gheld_step [OF assms(1,2), of z E r] assms(3-5) by (auto split: if_splits)

lemma gheld_init:
  assumes h: "gheld c0 u0 gs c" and r: "phy_gaussian_init (null_gaussian, c) = (st, t, c')"
  shows "if st = PHY_OK then gheld c0 u0 (gs @ [t]) c' \<and> gval t = 0
    else t = null_gaussian \<and> gheld c0 u0 gs c' \<and> resource_failure c0 st"
proof -
  note i = gaussian_init_ok [OF gheldD(1) [OF h] r]
  have sh: "shifted c0 u0 c (concat (map gparts gs) @ [])" using h by (simp add: gheld_def)
  have rf: "resource_failure c = resource_failure c0" by (rule resources [OF gheldD(3) [OF h]])
  have f: "shifted c0 u0 c' (concat (map gparts gs) @ us)" if "shifted c [] c' us" for us
    using shifted_frame [of c0 u0 c "concat (map gparts gs)" "[]" "[]" c' us] sh that by simp
  have e: "\<forall>g \<in> set gs. gok c' g" if "shifted c [] c' us" for us
    using h gok_env [OF shiftedD(1) [OF that]] by (simp add: gheld_def)
  show ?thesis
  proof (cases "st = PHY_OK")
    case True
    then show ?thesis using i f [of "gparts t"] e [of "gparts t"] h by (simp add: gheld_def)
  next
    case False
    then show ?thesis using i f [of "[]"] e [of "[]"] h rf by (simp add: gheld_def)
  qed
qed

lemma gheld_drop:
  assumes h: "gheld c0 u0 (gs @ [t]) c"
  shows "gheld c0 u0 gs (snd (phy_gaussian_destroy t c))"
proof -
  let ?c = "release (rev (gparts t)) c"
  have t: "gok c t" "owns c (gparts t)" using gheldD(4,5) [OF h, of "length gs"] by simp_all
  have d: "snd (phy_gaussian_destroy t c) = ?c" by (rule gdestroy_release [OF gok_weak [OF t(1)]])
  have "shifted c (rev (gparts t)) ?c []"
    using gok_slots [OF t(1)] t(2) by (intro release_shifted [OF gheldD(1) [OF h]]) (simp_all add: owns_def total_rev)
  then have r: "shifted c (gparts t) ?c []" by (simp add: shifted_def total_rev)
  have "shifted c0 u0 ?c (concat (map gparts gs))"
    using shifted_frame [of c0 u0 c "concat (map gparts gs)" "gparts t" "[]" ?c "[]"] h r by (simp add: gheld_def)
  then show ?thesis unfolding d using h gok_env [OF shiftedD(1) [OF r]] by (simp add: gheld_def)
qed

lemma destroy_null_gaussian [simp]: "snd (phy_gaussian_destroy null_gaussian c) = c"
  by (simp add: phy_gaussian_destroy_def null_gaussian_def)

lemma gheld_enter:
  assumes ok: "ctx_ok c" and out: "gok c out" "owns c (gparts out)"
  shows "gheld (entered c) (gparts out) [out] (entered c)"
proof -
  have c0: "ctx_ok (entered c)" using begun_ok [OF ok] by simp
  have g: "gok (entered c) out" using out(1) gok_env [OF entered_env] by simp
  show ?thesis using shifted_refl [OF c0 gok_slots [OF g]] g out(2) by (simp add: gheld_def owns_def)
qed

text \<open>Leaving: the operation's outcome, and the contract towards its caller.\<close>

lemma gheld_exit:
  assumes ok: "ctx_ok c" and out: "owns c (gparts out)" and h: "gheld (entered c) (gparts out) [v] c1"
  shows "\<exists>c3. phy_exact_operation_end c1 st = (st, c3) \<and> shifted (begun c) (gparts out) c3 (gparts v) \<and> gok c3 v"
proof -
  have sh: "shifted (entered c) (gparts out) c1 (gparts v @ [])" using h by (simp add: gheld_def)
  obtain c3 where c3: "phy_exact_operation_end c1 st = (st, c3)" "shifted (begun c) (gparts out) c3 (gparts v)"
    using end_shifted [OF ok sh out, of "[]" st] by auto
  have "same_env c1 c3"
    using shiftedD(1) [OF sh] shiftedD(1) [OF c3(2)] entered_env [of c] begun_env(1) [of c] by (auto simp: same_env_def)
  then have "gok c3 v" using gheldD(4) [OF h, of 0] gok_env by auto
  then show ?thesis using c3 by blast
qed

lemma gsettled_exit:
  assumes ok: "ctx_ok c" and out: "owns c (gparts out)" and h: "gheld (entered c) (gparts out) [v] c1"
    and r: "if st = PHY_OK then z = Some (gval v) else v = out \<and> E st"
  shows "gsettled out c z E (Some (case phy_exact_operation_end c1 st of (st4, c4) \<Rightarrow> (st4, v, c4)))"
proof -
  obtain c3 where "phy_exact_operation_end c1 st = (st, c3)" "shifted (begun c) (gparts out) c3 (gparts v)" "gok c3 v"
    using gheld_exit [OF ok out h] by blast
  then show ?thesis using r by (cases "st = PHY_OK") (simp_all add: gsettled_def)
qed

section \<open>Division\<close>

lemma gaussian_divide_spec:
  assumes ok: "ctx_ok c" and l: "gok c l" and r: "gok c r" and out: "gok c out" "owns c (gparts out)"
  shows "gsettled out c (if gval r = 0 then None else Some (gval l / gval r))
    (\<lambda>st. resource_failure c st \<or> gval r = 0 \<and> st = PHY_ERR_DOMAIN) (phy_gaussian_divide l r (out, c))"
proof -
  let ?c0 = "entered c" and ?u = "gparts out" and ?E = "\<lambda>st. resource_failure c st \<or> gval r = 0 \<and> st = PHY_ERR_DOMAIN"
    and ?z = "if gval r = 0 then None else Some (gval l / gval r)"
  note h0 = gheld_enter [OF ok out]
  have rf: "resource_failure c1 = resource_failure c" "gok c1 l" "gok c1 r" if "gheld ?c0 ?u gs c1" for gs c1
  proof -
    have e: "same_env c c1" using same_env_trans [OF entered_env gheldD(3) [OF that]] .
    show "resource_failure c1 = resource_failure c" "gok c1 l" "gok c1 r" using resources [OF e] gok_env [OF e] l r by simp_all
  qed
  obtain s1 t1 c1 where i: "phy_gaussian_init (null_gaussian, ?c0) = (s1, t1, c1)" by (metis prod_cases3)
  note init = gheld_init [OF h0 i]
  have eq: "phy_gaussian_divide l r (out, c) =
    (case (if s1 = PHY_OK then phy_gaussian_reciprocal r (t1, c1) else Some (s1, t1, c1)) of None \<Rightarrow> None
     | Some (status2, r2, c2) \<Rightarrow>
     map_option (\<lambda>(status3, out', c3).
         case phy_exact_operation_end (snd (phy_gaussian_destroy r2 c3)) status3 of (status4, c4) \<Rightarrow> (status4, out', c4))
       (if status2 = PHY_OK then phy_gaussian_multiply l r2 (out, c2) else Some (status2, out, c2)))"
    by (simp add: phy_gaussian_divide_def gok_compatible [OF l r out(1)] begin_eq [OF ok] i)
  show ?thesis
  proof (cases "s1 = PHY_OK")
    case False
    then show ?thesis using gsettled_exit [OF ok out(2), of out c1 s1 ?z ?E] init rf(1) [OF h0] by (simp add: eq)
  next
    case True
    have h1: "gheld ?c0 ?u [out, t1] c1" using init True by simp
    have t1: "gok c1 t1" "owns c1 (gparts t1)" using gheldD(4,5) [OF h1, of 1] by simp_all
    note rs = gaussian_reciprocal_spec [OF gheldD(1) [OF h1] rf(3) [OF h1] t1]
    obtain s2 t2 c2 where r2: "phy_gaussian_reciprocal r (t1, c1) = Some (s2, t2, c2)" "gheld ?c0 ?u [out, t2] c2"
      "s2 = PHY_OK \<Longrightarrow> (if gval r = 0 then None else Some (inverse (gval r))) = Some (gval t2)" "s2 \<noteq> PHY_OK \<Longrightarrow> t2 = t1 \<and> ?E s2"
      by (rule gheld_stepE [where k = 1 and gs' = "\<lambda>g. [out, g]", OF h1 _ _ rs]) (simp_all add: fun_eq_iff rf(1) [OF h1])
    show ?thesis
    proof (cases "s2 = PHY_OK")
      case False
      have "gheld ?c0 ?u [out] (snd (phy_gaussian_destroy t2 c2))" using gheld_drop [of ?c0 ?u "[out]" t2 c2] r2(2) by simp
      then show ?thesis using gsettled_exit [OF ok out(2), of out _ s2 ?z ?E] r2 True False by (simp add: eq)
    next
      case ok2: True
      then have nz: "gval r \<noteq> 0" "gval t2 = inverse (gval r)" using r2(3) by (auto split: if_splits)
      have o2: "gok c2 out" "owns c2 (gparts out)" "gok c2 t2" using gheldD(4,5) [OF r2(2), of 0] gheldD(4) [OF r2(2), of 1] by simp_all
      note ms = gaussian_multiply_spec [OF gheldD(1) [OF r2(2)] rf(2) [OF r2(2)] o2(3,1,2)]
      obtain s3 v c3 where m: "phy_gaussian_multiply l t2 (out, c2) = Some (s3, v, c3)" "gheld ?c0 ?u [v, t2] c3"
        "s3 = PHY_OK \<Longrightarrow> Some (gval l * gval t2) = Some (gval v)" "s3 \<noteq> PHY_OK \<Longrightarrow> v = out \<and> resource_failure c2 s3"
        by (rule gheld_stepE [where k = 0 and gs' = "\<lambda>g. [g, t2]", OF r2(2) _ _ ms]) (simp_all add: fun_eq_iff)
      have "gheld ?c0 ?u [v] (snd (phy_gaussian_destroy t2 c3))" using gheld_drop [of ?c0 ?u "[v]" t2 c3] m(2) by simp
      then show ?thesis using gsettled_exit [OF ok out(2), of v _ s3 ?z ?E] m r2(1) True ok2 nz rf(1) [OF r2(2)]
        by (auto simp: eq divide_inverse split: if_splits)
    qed
  qed
qed

section \<open>Powers\<close>

text \<open>The loop: the result is multiplied by the factor to the remaining exponent.\<close>

lemma square_step: "(if odd n then x * f else x) * (f * f) ^ (n div 2) = x * f ^ n" for x f :: complex
proof -
  have "f ^ n = f ^ (n mod 2) * (f * f) ^ (n div 2)"
    by (simp add: power2_eq_square [symmetric] power_mult [symmetric] power_add [symmetric])
  then show ?thesis by (cases "odd n") (auto simp: odd_iff_mod_2_eq_one mult.assoc)
qed

lemma gaussian_pow_loop_ok:
  assumes "gheld c0 u0 [v, x, f] c"
  shows "\<exists>st y g c'. gaussian_pow_loop n (x, f, c) = Some (st, y, g, c') \<and> gheld c0 u0 [v, y, g] c' \<and>
    (if st = PHY_OK then gval y = gval x * gval f ^ unat n else resource_failure c0 st)"
  using assms
proof (induction "unat n" arbitrary: n x f c rule: less_induct)
  case less
  note h = less.prems
  show ?case
  proof (cases "n = 0")
    case True
    then show ?thesis using h by (simp add: gaussian_pow_loop.simps)
  next
    case False
    let ?z = "if odd (unat n) then gval x * gval f else gval x" and ?rest = "drop_bit 1 n"
    have "unat (and n 1) = unat n mod 2" by (simp add: and_one_eq unat_mod_distrib)
    then have bit: "and n 1 \<noteq> 0 \<longleftrightarrow> odd (unat n)"
      by (metis odd_iff_mod_2_eq_one not_mod_2_eq_1_eq_0 unat_eq_0 zero_neq_one)
    have half: "unat ?rest = unat n div 2" by (subst unat_drop_bit_eq) (simp add: drop_bit_eq_div)
    have pos: "0 < unat n" using False by (simp add: unat_gt_0)
    define r1 where "r1 = (if and n 1 \<noteq> 0 then phy_gaussian_multiply x f (x, c) else Some (PHY_OK, x, c))"
    have "\<exists>s y c1. r1 = Some (s, y, c1) \<and> gheld c0 u0 [v, y, f] c1 \<and> (if s = PHY_OK then gval y = ?z else resource_failure c0 s)"
    proof (cases "and n 1 \<noteq> 0")
      case True
      have g: "gok c x" "owns c (gparts x)" "gok c f" using gheldD(4,5) [OF h, of 1] gheldD(4) [OF h, of 2] by simp_all
      obtain s y c1 where "phy_gaussian_multiply x f (x, c) = Some (s, y, c1)" "gheld c0 u0 [v, y, f] c1"
        "s = PHY_OK \<Longrightarrow> Some (gval x * gval f) = Some (gval y)" "s \<noteq> PHY_OK \<Longrightarrow> y = x \<and> resource_failure c s"
        by (rule gheld_stepE [where k = 1 and gs' = "\<lambda>g. [v, g, f]", OF h _ _ gaussian_multiply_spec [OF gheldD(1) [OF h] g(1,3,1,2)]])
          (simp_all add: fun_eq_iff)
      then show ?thesis using True bit resources [OF gheldD(3) [OF h]] by (auto simp: r1_def)
    next
      case False
      then show ?thesis using h bit by (simp add: r1_def)
    qed
    then obtain s1 y c1 where r1: "r1 = Some (s1, y, c1)" "gheld c0 u0 [v, y, f] c1" "if s1 = PHY_OK then gval y = ?z else resource_failure c0 s1" by blast
    note eq = gaussian_pow_loop.simps [of n "(x, f, c)", unfolded prod.case if_not_P [OF False] r1_def [symmetric] r1(1) option.case Let_def]
    consider "s1 \<noteq> PHY_OK" | "s1 = PHY_OK" "?rest = 0" | "s1 = PHY_OK" "?rest \<noteq> 0" by blast
    then show ?thesis
    proof cases
      case 1
      then show ?thesis using r1 by (simp add: eq)
    next
      case 2
      then have "unat n = 1" using half pos by simp
      then show ?thesis using 2 r1 by (simp add: eq)
    next
      case 3
      have g: "gok c1 f" "owns c1 (gparts f)" using gheldD(4,5) [OF r1(2), of 2] by simp_all
      obtain s2 k c2 where r2: "phy_gaussian_multiply f f (f, c1) = Some (s2, k, c2)" "gheld c0 u0 [v, y, k] c2"
        "s2 = PHY_OK \<Longrightarrow> Some (gval f * gval f) = Some (gval k)" "s2 \<noteq> PHY_OK \<Longrightarrow> k = f \<and> resource_failure c1 s2"
        by (rule gheld_stepE [where k = 2 and gs' = "\<lambda>g. [v, y, g]", OF r1(2) _ _ gaussian_multiply_spec [OF gheldD(1) [OF r1(2)] g(1,1,1,2)]])
          (simp_all add: fun_eq_iff numeral_2_eq_2)
      show ?thesis
      proof (cases "s2 = PHY_OK")
        case False
        then show ?thesis using r2 3 resources [OF gheldD(3) [OF r1(2)]] by (simp add: eq)
      next
        case True
        have lt: "unat ?rest < unat n" using half pos by simp
        have val: "gval x * gval f ^ unat n = gval y * gval k ^ unat ?rest"
          using r1(3) r2(3) 3 True square_step [of "unat n" "gval x" "gval f"] half by simp
        have next_round: "gaussian_pow_loop n (x, f, c) = gaussian_pow_loop ?rest (y, k, c2)" using r2 3 True by (simp add: eq)
        show ?thesis unfolding next_round val by (rule less.hyps [OF lt r2(2)])
      qed
    qed
  qed
qed

lemma powi_magnitude:
  fixes x :: complex
  assumes "- (2 ^ 31) \<le> e" "e < 2 ^ 31"
  shows "(if e < 0 then inverse x else x) ^ unat (exponent_magnitude e) = x powi e"
  using exponent_magnitude_nat [OF assms] by (simp add: power_int_def power_inverse)

lemma gheld_commit:
  assumes h: "gheld c0 u0 [v, x, f] c"
  shows "\<exists>x' v'. gaussian_commit c (x, v) = (PHY_OK, x', v') \<and> gheld c0 u0 [v', x', f] c \<and> gval v' = gval x"
proof -
  have g: "gok c v" "gok c x" using gheldD(4) [OF h, of 0] gheldD(4) [OF h, of 1] by simp_all
  let ?x = "x\<lparr>ga_real := ga_real v, ga_imag := ga_imag v\<rparr>" and ?v = "v\<lparr>ga_real := ga_real x, ga_imag := ga_imag x\<rparr>"
  have p: "gparts ?x = gparts v" "gparts ?v = gparts x" "gok c ?x" "gok c ?v" "gval ?v = gval x"
    using g by (simp_all add: gparts_def gok_def gval_def)
  have "gheld c0 u0 [?v, ?x, f] c"
    using h unfolding gheld_def shifted_def list.map p(1,2) by (auto simp: p(3,4))
  then show ?thesis using gaussian_commit_ok [OF g(2,1)] p(5) by blast
qed

text \<open>A failure inside the power: the two temporaries can be destroyed, the output is untouched.\<close>

definition gbad ::
  "phy_exact_context \<Rightarrow> phy_gaussian \<Rightarrow> (phy_status \<Rightarrow> bool) \<Rightarrow> phy_status \<Rightarrow> phy_gaussian \<Rightarrow> phy_gaussian \<Rightarrow> phy_exact_context \<Rightarrow> bool" where
  "gbad c out E st x f c' \<longleftrightarrow> E st \<and>
     gheld (entered c) (gparts out) [out] (snd (phy_gaussian_destroy x (snd (phy_gaussian_destroy f c'))))"

lemma gheld_two: "gheld c0 u0 [v, x, f] c \<Longrightarrow> gheld c0 u0 [v] (snd (phy_gaussian_destroy x (snd (phy_gaussian_destroy f c))))"
  using gheld_drop [of c0 u0 "[v]" x] gheld_drop [of c0 u0 "[v, x]" f c] by simp

lemma gbadI: "gheld (entered c) (gparts out) [out, x, f] c' \<Longrightarrow> E st \<Longrightarrow> gbad c out E st x f c'"
  using gheld_two by (simp add: gbad_def)

lemma inner_resources:
  assumes "gheld (entered c) u gs c1"
  shows "resource_failure c1 = resource_failure c" "gok c v \<Longrightarrow> gok c1 v"
proof -
  have e: "same_env c c1" using same_env_trans [OF entered_env gheldD(3) [OF assms]] .
  show "resource_failure c1 = resource_failure c" "gok c v \<Longrightarrow> gok c1 v" using resources [OF e] gok_env [OF e] by simp_all
qed

text \<open>The stages of the power: two temporaries, one into the result, the base into the factor.\<close>

lemma pow_temporaries:
  assumes h0: "gheld (entered c) (gparts out) [out] c0" and E: "\<And>st. resource_failure c st \<Longrightarrow> E st"
    and i1: "phy_gaussian_init (null_gaussian, c0) = (s1, x1, c1)"
    and i2: "(if s1 = PHY_OK then phy_gaussian_init (null_gaussian, c1) else (s1, null_gaussian, c1)) = (s2, f2, c2)"
  shows "if s2 = PHY_OK then gheld (entered c) (gparts out) [out, x1, f2] c2 else gbad c out E s2 x1 f2 c2"
proof -
  note n1 = gheld_init [OF h0 i1]
  have rf: "resource_failure (entered c) = resource_failure c" by (rule resources [OF entered_env])
  show ?thesis
  proof (cases "s1 = PHY_OK")
    case False
    then have "s2 = s1" "f2 = null_gaussian" "c2 = c1" "x1 = null_gaussian" using i2 n1 by auto
    then show ?thesis using n1 False rf E by (simp add: gbad_def)
  next
    case True
    have h1: "gheld (entered c) (gparts out) [out, x1] c1" using n1 True by simp
    show ?thesis
      using gheld_init [OF h1, of s2 f2 c2] i2 True rf E gheld_drop [of "entered c" "gparts out" "[out]" x1 c2]
      by (auto simp: gbad_def split: if_splits)
  qed
qed

lemma pow_one:
  assumes h: "gheld (entered c) (gparts out) [out, x, f] c2" and E: "\<And>st. resource_failure c st \<Longrightarrow> E st"
  shows "\<exists>s3 x3 c3. phy_gaussian_set_i64 1 1 0 1 (x, c2) = Some (s3, x3, c3) \<and>
    (if s3 = PHY_OK then gheld (entered c) (gparts out) [out, x3, f] c3 \<and> gval x3 = 1 else gbad c out E s3 x3 f c3)"
proof -
  have g: "gok c2 x" "owns c2 (gparts x)" using gheldD(4,5) [OF h, of 1] by simp_all
  have "both (ratio 1 1) (ratio 0 1) = Some 1"
    by (simp add: ratio_def cpx_def complex_eq_iff rat_number_collapse)
  note st = set_gaussian_spec [OF gheldD(1) [OF h] g, of 1 1 0 1, unfolded this]
  obtain s3 x3 c3 where "phy_gaussian_set_i64 1 1 0 1 (x, c2) = Some (s3, x3, c3)" "gheld (entered c) (gparts out) [out, x3, f] c3"
    "s3 = PHY_OK \<Longrightarrow> Some 1 = Some (gval x3)" "s3 \<noteq> PHY_OK \<Longrightarrow> x3 = x \<and> undefined_failure c2 (Some 1) s3"
    by (rule gheld_stepE [where k = 1 and gs' = "\<lambda>g. [out, g, f]", OF h _ _ st]) (simp_all add: fun_eq_iff)
  then show ?thesis using gbadI E inner_resources(1) [OF h] by auto
qed

lemma pow_factor:
  fixes e :: int
  assumes h: "gheld (entered c) (gparts out) [out, x, f] c3" and r: "gok c r" and E: "\<And>st. resource_failure c st \<Longrightarrow> E st"
    and D: "e < 0 \<Longrightarrow> gval r = 0 \<Longrightarrow> E PHY_ERR_DOMAIN"
  shows "\<exists>s4 f4 c4. (if e < 0 then phy_gaussian_reciprocal r (f, c3) else phy_gaussian_copy r (f, c3)) = Some (s4, f4, c4) \<and>
    (if s4 = PHY_OK then gheld (entered c) (gparts out) [out, x, f4] c4 \<and>
       gval f4 = (if e < 0 then inverse (gval r) else gval r) \<and> \<not> (e < 0 \<and> gval r = 0)
     else gbad c out E s4 x f4 c4)"
proof -
  have g: "gok c3 f" "owns c3 (gparts f)" using gheldD(4,5) [OF h, of 2] by simp_all
  have r3: "gok c3 r" by (rule inner_resources(2) [OF h r])
  show ?thesis
  proof (cases "e < 0")
    case neg: True
    obtain s4 f4 c4 where s: "phy_gaussian_reciprocal r (f, c3) = Some (s4, f4, c4)" "gheld (entered c) (gparts out) [out, x, f4] c4"
      "s4 = PHY_OK \<Longrightarrow> (if gval r = 0 then None else Some (inverse (gval r))) = Some (gval f4)"
      "s4 \<noteq> PHY_OK \<Longrightarrow> f4 = f \<and> (resource_failure c3 s4 \<or> gval r = 0 \<and> s4 = PHY_ERR_DOMAIN)"
      by (rule gheld_stepE [where k = 2 and gs' = "\<lambda>g. [out, x, g]", OF h _ _ gaussian_reciprocal_spec [OF gheldD(1) [OF h] r3 g]])
        (simp_all add: fun_eq_iff numeral_2_eq_2)
    have "s4 \<noteq> PHY_OK \<Longrightarrow> E s4" using s(4) E D neg inner_resources(1) [OF h] by auto
    then show ?thesis using s(1-3) neg gbadI [OF s(2)] by (auto split: if_splits)
  next
    case pos: False
    obtain s4 f4 c4 where s: "phy_gaussian_copy r (f, c3) = Some (s4, f4, c4)" "gheld (entered c) (gparts out) [out, x, f4] c4"
      "s4 = PHY_OK \<Longrightarrow> Some (gval r) = Some (gval f4)" "s4 \<noteq> PHY_OK \<Longrightarrow> f4 = f \<and> resource_failure c3 s4"
      by (rule gheld_stepE [where k = 2 and gs' = "\<lambda>g. [out, x, g]", OF h _ _ gaussian_unary_spec(1) [OF gheldD(1) [OF h] r3 g]])
        (simp_all add: fun_eq_iff numeral_2_eq_2)
    have "s4 \<noteq> PHY_OK \<Longrightarrow> E s4" using s(4) E inner_resources(1) [OF h] by auto
    then show ?thesis using s(1-3) pos gbadI [OF s(2)] by auto
  qed
qed

lemma pow_leave:
  assumes ok: "ctx_ok c" and out: "owns c (gparts out)"
    and r: "if st = PHY_OK then gheld (entered c) (gparts out) [out, x, f] c5 \<and> z = Some (gval x) else gbad c out E st x f c5"
  shows "gsettled out c z E (Some (case (if st = PHY_OK then gaussian_commit c5 (x, out) else (st, x, out)) of
           (status6, res6, out') \<Rightarrow>
         case phy_exact_operation_end (snd (phy_gaussian_destroy res6 (snd (phy_gaussian_destroy f c5)))) status6 of
           (status7, c7) \<Rightarrow> (status7, out', c7)))"
proof (cases "st = PHY_OK")
  case True
  then have h: "gheld (entered c) (gparts out) [out, x, f] c5" "z = Some (gval x)" using r by simp_all
  obtain x' v' where m: "gaussian_commit c5 (x, out) = (PHY_OK, x', v')" "gheld (entered c) (gparts out) [v', x', f] c5" "gval v' = gval x"
    using gheld_commit [OF h(1)] by blast
  show ?thesis using gsettled_exit [OF ok out gheld_two [OF m(2)], of PHY_OK z E] True h(2) m(1,3) by simp
next
  case False
  then show ?thesis using gsettled_exit [OF ok out, of out _ st z E] r by (simp add: gbad_def)
qed

lemma gaussian_pow_spec:
  assumes ok: "ctx_ok c" and r: "gok c r" and out: "gok c out" "owns c (gparts out)" and e: "- (2 ^ 31) \<le> e" "e < 2 ^ 31"
  defines "E \<equiv> \<lambda>st. resource_failure c st \<or> e < 0 \<and> gval r = 0 \<and> st = PHY_ERR_DOMAIN"
  shows "gsettled out c (if e < 0 \<and> gval r = 0 then None else Some (gval r powi e)) E (phy_gaussian_pow_i32 r e (out, c))"
proof -
  let ?c0 = "entered c" and ?u = "gparts out" and ?n = "exponent_magnitude e"
  have E: "\<And>st. resource_failure c st \<Longrightarrow> E st" "e < 0 \<Longrightarrow> gval r = 0 \<Longrightarrow> E PHY_ERR_DOMAIN" by (simp_all add: E_def)
  note h0 = gheld_enter [OF ok out]
  obtain s1 x1 c1 where i1: "phy_gaussian_init (null_gaussian, ?c0) = (s1, x1, c1)" by (metis prod_cases3)
  obtain s2 f2 c2 where i2: "(if s1 = PHY_OK then phy_gaussian_init (null_gaussian, c1) else (s1, null_gaussian, c1)) = (s2, f2, c2)"
    by (metis prod_cases3)
  note g2 = pow_temporaries [OF h0 E(1) i1 i2]
  define r3 where "r3 = (if s2 = PHY_OK then phy_gaussian_set_i64 1 1 0 1 (x1, c2) else Some (s2, x1, c2))"
  obtain s3 x3 c3 where r3: "r3 = Some (s3, x3, c3)"
    "if s3 = PHY_OK then gheld ?c0 ?u [out, x3, f2] c3 \<and> gval x3 = 1 else gbad c out E s3 x3 f2 c3"
    using g2 pow_one [of c out x1 f2 c2 E] E(1) by (cases "s2 = PHY_OK") (auto simp: r3_def)
  define r4 where "r4 = (if s3 \<noteq> PHY_OK then Some (s3, f2, c3) else if e < 0 then phy_gaussian_reciprocal r (f2, c3) else phy_gaussian_copy r (f2, c3))"
  obtain s4 f4 c4 where r4: "r4 = Some (s4, f4, c4)" "if s4 = PHY_OK then gheld ?c0 ?u [out, x3, f4] c4 \<and> gval x3 = 1 \<and>
      gval f4 = (if e < 0 then inverse (gval r) else gval r) \<and> \<not> (e < 0 \<and> gval r = 0) else gbad c out E s4 x3 f4 c4"
  proof (cases "s3 = PHY_OK")
    case False
    then show thesis using that [of s3 f2 c3] r3 by (simp add: r4_def)
  next
    case True
    then show thesis using that pow_factor [of c out x3 f2 c3 r E e] r3(2) r E by (fastforce simp: r4_def)
  qed
  define r5 where "r5 = (if s4 = PHY_OK then gaussian_pow_loop ?n (x3, f4, c4) else Some (s4, x3, f4, c4))"
  obtain s5 x5 f5 c5 where r5: "r5 = Some (s5, x5, f5, c5)" "if s5 = PHY_OK then gheld ?c0 ?u [out, x5, f5] c5 \<and>
      (if e < 0 \<and> gval r = 0 then None else Some (gval r powi e)) = Some (gval x5) else gbad c out E s5 x5 f5 c5"
  proof (cases "s4 = PHY_OK")
    case False
    then show thesis using that r4 by (simp add: r5_def)
  next
    case True
    then obtain s5 x5 f5 c5 where "gaussian_pow_loop ?n (x3, f4, c4) = Some (s5, x5, f5, c5)" "gheld ?c0 ?u [out, x5, f5] c5"
      "if s5 = PHY_OK then gval x5 = gval x3 * gval f4 ^ unat ?n else resource_failure ?c0 s5"
      using gaussian_pow_loop_ok [of ?c0 ?u out x3 f4 c4 ?n] r4(2) by auto
    then show thesis
      using that [of s5 x5 f5 c5] True r4(2) powi_magnitude [OF e, of "gval r"] gbadI [of c out x5 f5 c5 E s5] E(1) resources [OF entered_env]
      by (auto simp: r5_def split: if_splits)
  qed
  have eq: "phy_gaussian_pow_i32 r e (out, c) = Some (case (if s5 = PHY_OK then gaussian_commit c5 (x5, out) else (s5, x5, out)) of
           (status6, res6, out') \<Rightarrow>
         case phy_exact_operation_end (snd (phy_gaussian_destroy res6 (snd (phy_gaussian_destroy f5 c5)))) status6 of
           (status7, c7) \<Rightarrow> (status7, out', c7))"
    by (simp add: phy_gaussian_pow_i32_def gok_compatible [OF r r out(1)] begin_eq [OF ok] i1 i2 r3_def [symmetric] r3(1)
        r4_def [symmetric] r4(1) r5_def [symmetric] r5(1))
  show ?thesis unfolding eq by (rule pow_leave [OF ok out(2) r5(2)])
qed

end
