(* ===== verification/GaussianMachine.thy ===== *)
theory GaussianMachine
  imports GaussianPow BigRatRefine
begin

text \<open>
  The interface of the Gaussian rationals as a machine, and the abstract machine over the
  complex numbers that it refines. The state has Gaussian handles, and rational handles that
  receive norms.
\<close>

section \<open>Calls\<close>

datatype gauss_call =
    G_init
  | G_rational
  | G_destroy nat
  | G_set nat int int int int
  | G_read nat string string string string
  | G_copy nat nat
  | G_negate nat nat
  | G_conjugate nat nat
  | G_add nat nat nat
  | G_subtract nat nat nat
  | G_multiply nat nat nat
  | G_reciprocal nat nat
  | G_divide nat nat nat
  | G_power nat nat int
  | G_norm nat nat

type_synonym gauss_state = "phy_exact_context \<times> phy_gaussian list \<times> phy_bigrat list"

definition gput :: "phy_gaussian list \<Rightarrow> phy_bigrat list \<Rightarrow> nat \<Rightarrow> (phy_gaussian \<times> phy_exact_context) run \<Rightarrow> gauss_state run" where
  "gput gs rs k r = map_option (\<lambda>(st, out, c). (st, c, gs[k := out], rs)) r"

text \<open>\<open>G_norm k s\<close>: the norm of the Gaussian rational \<open>s\<close> into the rational \<open>k\<close>.\<close>

fun gperform :: "gauss_call \<Rightarrow> gauss_state \<Rightarrow> gauss_state run" where
  "gperform G_init (c, gs, rs) = (case phy_gaussian_init (null_gaussian, c) of (st, g, c') \<Rightarrow>
     Some (st, c', if st = PHY_OK then gs @ [g] else gs, rs))"
| "gperform G_rational (c, gs, rs) = (case phy_bigrat_init (null_bigrat, c) of (st, r, c') \<Rightarrow>
     Some (st, c', gs, if st = PHY_OK then rs @ [r] else rs))"
| "gperform (G_destroy k) (c, gs, rs) = Some (PHY_OK, snd (phy_gaussian_destroy (gs ! k) c), take k gs @ drop (Suc k) gs, rs)"
| "gperform (G_set k a b p q) (c, gs, rs) = gput gs rs k (phy_gaussian_set_i64 a b p q (gs ! k, c))"
| "gperform (G_read k s t u v) (c, gs, rs) = gput gs rs k (phy_gaussian_read (Some s) (Some t) (Some u) (Some v) (gs ! k, c))"
| "gperform (G_copy k s) (c, gs, rs) = gput gs rs k (phy_gaussian_copy (gs ! s) (gs ! k, c))"
| "gperform (G_negate k s) (c, gs, rs) = gput gs rs k (phy_gaussian_negate (gs ! s) (gs ! k, c))"
| "gperform (G_conjugate k s) (c, gs, rs) = gput gs rs k (phy_gaussian_conjugate (gs ! s) (gs ! k, c))"
| "gperform (G_add k l r) (c, gs, rs) = gput gs rs k (phy_gaussian_add (gs ! l) (gs ! r) (gs ! k, c))"
| "gperform (G_subtract k l r) (c, gs, rs) = gput gs rs k (phy_gaussian_subtract (gs ! l) (gs ! r) (gs ! k, c))"
| "gperform (G_multiply k l r) (c, gs, rs) = gput gs rs k (phy_gaussian_multiply (gs ! l) (gs ! r) (gs ! k, c))"
| "gperform (G_reciprocal k s) (c, gs, rs) = gput gs rs k (phy_gaussian_reciprocal (gs ! s) (gs ! k, c))"
| "gperform (G_divide k l r) (c, gs, rs) = gput gs rs k (phy_gaussian_divide (gs ! l) (gs ! r) (gs ! k, c))"
| "gperform (G_power k s e) (c, gs, rs) = gput gs rs k (phy_gaussian_pow_i32 (gs ! s) e (gs ! k, c))"
| "gperform (G_norm k s) (c, gs, rs) = map_option (\<lambda>(st, out, c). (st, c, gs, rs[k := out])) (phy_gaussian_norm (gs ! s) (rs ! k, c))"

text \<open>The abstract machine: complex numbers and real numbers.\<close>

definition geffect_one :: "complex list \<Rightarrow> real list \<Rightarrow> nat \<Rightarrow> complex option \<Rightarrow> (complex list \<times> real list) option" where
  "geffect_one zs qs k z = map_option (\<lambda>z. (zs[k := z], qs)) z"

fun geffect :: "gauss_call \<Rightarrow> complex list \<times> real list \<Rightarrow> (complex list \<times> real list) option" where
  "geffect G_init (zs, qs) = Some (zs @ [0], qs)"
| "geffect G_rational (zs, qs) = Some (zs, qs @ [0])"
| "geffect (G_destroy k) (zs, qs) = Some (take k zs @ drop (Suc k) zs, qs)"
| "geffect (G_set k a b p q) (zs, qs) = geffect_one zs qs k (both (ratio a b) (ratio p q))"
| "geffect (G_read k s t u v) (zs, qs) = geffect_one zs qs k (both (read_ratio s t) (read_ratio u v))"
| "geffect (G_copy k s) (zs, qs) = Some (zs[k := zs ! s], qs)"
| "geffect (G_negate k s) (zs, qs) = Some (zs[k := - (zs ! s)], qs)"
| "geffect (G_conjugate k s) (zs, qs) = Some (zs[k := cnj (zs ! s)], qs)"
| "geffect (G_add k l r) (zs, qs) = Some (zs[k := zs ! l + zs ! r], qs)"
| "geffect (G_subtract k l r) (zs, qs) = Some (zs[k := zs ! l - zs ! r], qs)"
| "geffect (G_multiply k l r) (zs, qs) = Some (zs[k := zs ! l * zs ! r], qs)"
| "geffect (G_reciprocal k s) (zs, qs) = (if zs ! s = 0 then None else Some (zs[k := inverse (zs ! s)], qs))"
| "geffect (G_divide k l r) (zs, qs) = (if zs ! r = 0 then None else Some (zs[k := zs ! l / zs ! r], qs))"
| "geffect (G_power k s e) (zs, qs) = (if e < 0 \<and> zs ! s = 0 then None else Some (zs[k := zs ! s powi e], qs))"
| "geffect (G_norm k s) (zs, qs) = Some (zs, qs[k := (cmod (zs ! s))\<^sup>2])"

fun gcallable :: "gauss_call \<Rightarrow> nat \<Rightarrow> nat \<Rightarrow> bool" where
  "gcallable G_init n m = True"
| "gcallable G_rational n m = True"
| "gcallable (G_destroy k) n m = (k < n)"
| "gcallable (G_set k a b p q) n m = (k < n \<and> (\<forall>i \<in> {a, b, p, q}. - (2 ^ 63) \<le> i \<and> i < 2 ^ 63))"
| "gcallable (G_read k s t u v) n m = (k < n)"
| "gcallable (G_copy k s) n m = (k < n \<and> s < n)"
| "gcallable (G_negate k s) n m = (k < n \<and> s < n)"
| "gcallable (G_conjugate k s) n m = (k < n \<and> s < n)"
| "gcallable (G_add k l r) n m = (k < n \<and> l < n \<and> r < n)"
| "gcallable (G_subtract k l r) n m = (k < n \<and> l < n \<and> r < n)"
| "gcallable (G_multiply k l r) n m = (k < n \<and> l < n \<and> r < n)"
| "gcallable (G_reciprocal k s) n m = (k < n \<and> s < n)"
| "gcallable (G_divide k l r) n m = (k < n \<and> l < n \<and> r < n)"
| "gcallable (G_power k s e) n m = (k < n \<and> s < n \<and> - (2 ^ 31) \<le> e \<and> e < 2 ^ 31)"
| "gcallable (G_norm k s) n m = (k < m \<and> s < n)"

inductive gauss_run :: "gauss_state \<Rightarrow> bool" where
  create: "sized_limits limits \<Longrightarrow> phy_exact_context_create limits identity alloc = Some c \<Longrightarrow> gauss_run (c, [], [])"
| cancel: "gauss_run (c, gs, rs) \<Longrightarrow> gauss_run (phy_exact_set_cancel c f, gs, rs)"
| call: "gauss_run (c, gs, rs) \<Longrightarrow> gcallable f (length gs) (length rs) \<Longrightarrow> gperform f (c, gs, rs) = Some (st, s) \<Longrightarrow> gauss_run s"

section \<open>The invariant\<close>

abbreviation gall :: "phy_gaussian list \<Rightarrow> phy_bigint list" where
  "gall gs \<equiv> concat (map gparts gs)"

definition gauss_inv :: "gauss_state \<Rightarrow> bool" where
  "gauss_inv s \<longleftrightarrow> (case s of (c, gs, rs) \<Rightarrow>
     exact_inv (c, gall gs @ all_parts rs) \<and> (\<forall>g \<in> set gs. gok c g) \<and> (\<forall>r \<in> set rs. canonical c r))"

definition gvals :: "gauss_state \<Rightarrow> complex list \<times> real list" where
  "gvals s = (case s of (c, gs, rs) \<Rightarrow> (map gval gs, map (\<lambda>r. of_rat (rval r)) rs))"

lemma gall_split: "k < length gs \<Longrightarrow> gall gs = gall (take k gs) @ gparts (gs ! k) @ gall (drop (Suc k) gs)"
  by (subst id_take_nth_drop [of k gs]) simp_all

lemma gall_update: "k < length gs \<Longrightarrow> gall (gs[k := g]) = gall (take k gs) @ gparts g @ gall (drop (Suc k) gs)"
  by (simp add: upd_conv_take_nth_drop)

lemma owns_part:
  assumes "exact_inv (c, as @ us @ bs)"
  shows "owns c us"
proof -
  have "live_count us = length us" using assms by (intro live_all [of _ c]) (simp add: exact_inv_def)
  then show ?thesis using assms by (simp add: owns_def exact_inv_def)
qed

lemma gok_valid: "gok c g \<Longrightarrow> \<forall>v \<in> set (gparts g). phy_bigint_shallow_valid c v"
  using canonical_live by (auto simp: gok_def gparts_def parts_def live_rat_def)

lemma gauss_invD:
  assumes inv: "gauss_inv (c, gs, rs)"
  shows "ctx_ok c" "k < length gs \<Longrightarrow> gok c (gs ! k)" "k < length gs \<Longrightarrow> owns c (gparts (gs ! k))"
    "k < length rs \<Longrightarrow> canonical c (rs ! k)" "k < length rs \<Longrightarrow> owned c (rs ! k)"
proof -
  have i: "exact_inv (c, gall gs @ all_parts rs)" using inv by (simp add: gauss_inv_def)
  show "ctx_ok c" using i by (simp add: exact_inv_def)
  show "k < length gs \<Longrightarrow> gok c (gs ! k)" using inv by (simp add: gauss_inv_def)
  show cn: "k < length rs \<Longrightarrow> canonical c (rs ! k)" using inv by (simp add: gauss_inv_def)
  show "owns c (gparts (gs ! k))" if "k < length gs"
    using owns_part [of c "gall (take k gs)" "gparts (gs ! k)" "gall (drop (Suc k) gs) @ all_parts rs"] i gall_split [OF that] by simp
  show "owned c (rs ! k)" if k: "k < length rs"
    using owns_part [of c "gall gs @ all_parts (take k rs)" "parts (rs ! k)" "all_parts (drop (Suc k) rs)"] i parts_split [OF k]
      canonical_live [OF cn [OF k]] by (simp add: owned_def)
qed

lemma keep_others:
  assumes "gauss_inv (c, gs, rs)" "same_env c c'"
  shows "\<forall>g \<in> set gs. gok c' g" "\<forall>r \<in> set rs. canonical c' r"
  using assms gok_env [OF assms(2)] canonical_env [OF assms(2)] by (simp_all add: gauss_inv_def)

text \<open>A call refines the abstract machine.\<close>

definition grefines :: "gauss_call \<Rightarrow> gauss_state \<Rightarrow> gauss_state run \<Rightarrow> bool" where
  "grefines f s r \<longleftrightarrow> run_ok r
     (\<lambda>s'. gauss_inv s' \<and> geffect f (gvals s) = Some (gvals s'))
     (\<lambda>st s'. gauss_inv s' \<and> snd s' = snd s \<and>
        (resource_failure (fst s) st \<or> geffect f (gvals s) = None \<and> (st = PHY_ERR_DOMAIN \<or> st = PHY_ERR_PARSE)))"

lemma grefines_put:
  assumes inv: "gauss_inv (c, gs, rs)" and k: "k < length gs" and r: "gsettled (gs ! k) c z E r"
    and ok: "geffect f (gvals (c, gs, rs)) = geffect_one (map gval gs) (snd (gvals (c, gs, rs))) k z"
    and E: "\<And>st. E st \<Longrightarrow> undefined_failure c z st"
  shows "grefines f (c, gs, rs) (gput gs rs k r)"
proof -
  have i: "exact_inv (c, gall (take k gs) @ gparts (gs ! k) @ (gall (drop (Suc k) gs) @ all_parts rs))"
    using inv gall_split [OF k] by (simp add: gauss_inv_def)
  obtain st g c' where res: "r = Some (st, g, c')" and sh: "shifted (begun c) (gparts (gs ! k)) c' (gparts g)"
    and good: "st = PHY_OK \<Longrightarrow> gok c' g \<and> z = Some (gval g)" and bad: "st \<noteq> PHY_OK \<Longrightarrow> g = gs ! k \<and> E st"
    using r unfolding gsettled_def by (rule run_okE) (auto split: prod.splits if_splits)
  have e: "same_env c c'" using same_env_trans [OF begun_env(1) shiftedD(1) [OF sh]] .
  have g: "gok c' g" using good bad gauss_invD(2) [OF inv k] gok_env [OF e] by (cases "st = PHY_OK") simp_all
  have "exact_inv (c', gall (gs[k := g]) @ all_parts rs)"
    using inv_shifted [OF i sh gok_valid [OF g]] gall_update [OF k] by simp
  then have "gauss_inv (c', gs[k := g], rs)"
    using keep_others [OF inv e] g set_update_subset_insert [of gs k g] by (auto simp: gauss_inv_def)
  then show ?thesis
    using good bad ok E by (cases "st = PHY_OK")
      (auto simp: grefines_def gput_def res gvals_def geffect_one_def map_update)
qed

lemma grefines_one:
  assumes inv: "gauss_inv (c, gs, rs)" and k: "k < length gs" and r: "gsettled (gs ! k) c (Some z) (resource_failure c) r"
    and ok: "geffect f (gvals (c, gs, rs)) = Some ((map gval gs)[k := z], snd (gvals (c, gs, rs)))"
  shows "grefines f (c, gs, rs) (gput gs rs k r)"
  by (rule grefines_put [OF inv k r]) (use ok in \<open>simp_all add: geffect_one_def\<close>)

lemma grefines_unary:
  assumes inv: "gauss_inv (c, gs, rs)" and k: "k < length gs" and s: "s < length gs"
  shows "grefines (G_copy k s) (c, gs, rs) (gperform (G_copy k s) (c, gs, rs))"
    "grefines (G_negate k s) (c, gs, rs) (gperform (G_negate k s) (c, gs, rs))"
    "grefines (G_conjugate k s) (c, gs, rs) (gperform (G_conjugate k s) (c, gs, rs))"
    "grefines (G_reciprocal k s) (c, gs, rs) (gperform (G_reciprocal k s) (c, gs, rs))"
    "- (2 ^ 31) \<le> e \<Longrightarrow> e < 2 ^ 31 \<Longrightarrow> grefines (G_power k s e) (c, gs, rs) (gperform (G_power k s e) (c, gs, rs))"
proof -
  note c = gauss_invD(1) [OF inv] and v = gauss_invD(2) [OF inv s] and o1 = gauss_invD(2,3) [OF inv k]
  note u = gaussian_unary_spec [OF c v o1]
  show "grefines (G_copy k s) (c, gs, rs) (gperform (G_copy k s) (c, gs, rs))" unfolding gperform.simps
    by (rule grefines_one [OF inv k u(1)]) (use s in \<open>simp add: gvals_def\<close>)
  show "grefines (G_negate k s) (c, gs, rs) (gperform (G_negate k s) (c, gs, rs))" unfolding gperform.simps
    by (rule grefines_one [OF inv k u(2)]) (use s in \<open>simp add: gvals_def\<close>)
  show "grefines (G_conjugate k s) (c, gs, rs) (gperform (G_conjugate k s) (c, gs, rs))" unfolding gperform.simps
    by (rule grefines_one [OF inv k u(3)]) (use s in \<open>simp add: gvals_def\<close>)
  show "grefines (G_reciprocal k s) (c, gs, rs) (gperform (G_reciprocal k s) (c, gs, rs))" unfolding gperform.simps
    by (rule grefines_put [OF inv k gaussian_reciprocal_spec [OF c v o1]]) (use s in \<open>auto simp: gvals_def geffect_one_def\<close>)
  assume e: "- (2 ^ 31) \<le> e" "e < 2 ^ 31"
  have n: "map gval gs ! s = gval (gs ! s)" using s by simp
  show "grefines (G_power k s e) (c, gs, rs) (gperform (G_power k s e) (c, gs, rs))" unfolding gperform.simps
  proof (rule grefines_put [OF inv k gaussian_pow_spec [OF c v o1 e]])
    show "geffect (G_power k s e) (gvals (c, gs, rs)) = geffect_one (map gval gs) (snd (gvals (c, gs, rs))) k
        (if e < 0 \<and> gval (gs ! s) = 0 then None else Some (gval (gs ! s) powi e))"
      by (simp only: gvals_def prod.case geffect.simps n geffect_one_def snd_conv split: if_split) simp
  qed auto
qed

lemma grefines_binary:
  assumes inv: "gauss_inv (c, gs, rs)" and k: "k < length gs" and l: "l < length gs" and r: "r < length gs"
  shows "grefines (G_add k l r) (c, gs, rs) (gperform (G_add k l r) (c, gs, rs))"
    "grefines (G_subtract k l r) (c, gs, rs) (gperform (G_subtract k l r) (c, gs, rs))"
    "grefines (G_multiply k l r) (c, gs, rs) (gperform (G_multiply k l r) (c, gs, rs))"
    "grefines (G_divide k l r) (c, gs, rs) (gperform (G_divide k l r) (c, gs, rs))"
proof -
  note c = gauss_invD(1) [OF inv] and x = gauss_invD(2) [OF inv l] and y = gauss_invD(2) [OF inv r] and o1 = gauss_invD(2,3) [OF inv k]
  show "grefines (G_add k l r) (c, gs, rs) (gperform (G_add k l r) (c, gs, rs))" unfolding gperform.simps
    by (rule grefines_one [OF inv k gaussian_sum_spec(1) [OF c x y o1]]) (use l r in \<open>simp add: gvals_def\<close>)
  show "grefines (G_subtract k l r) (c, gs, rs) (gperform (G_subtract k l r) (c, gs, rs))" unfolding gperform.simps
    by (rule grefines_one [OF inv k gaussian_sum_spec(2) [OF c x y o1]]) (use l r in \<open>simp add: gvals_def\<close>)
  show "grefines (G_multiply k l r) (c, gs, rs) (gperform (G_multiply k l r) (c, gs, rs))" unfolding gperform.simps
    by (rule grefines_one [OF inv k gaussian_multiply_spec [OF c x y o1]]) (use l r in \<open>simp add: gvals_def\<close>)
  show "grefines (G_divide k l r) (c, gs, rs) (gperform (G_divide k l r) (c, gs, rs))" unfolding gperform.simps
    by (rule grefines_put [OF inv k gaussian_divide_spec [OF c x y o1]]) (use l r in \<open>auto simp: gvals_def geffect_one_def\<close>)
qed

end
