(* ===== verification/GaussianRefine.thy ===== *)
theory GaussianRefine
  imports GaussianMachine
begin

text \<open>
  Every call on the Gaussian rationals refines the abstract machine over the complex numbers,
  and every history keeps the invariant.
\<close>

section \<open>Creation and destruction\<close>

lemma gauss_inv_exact: "gauss_inv (c, gs, rs) \<Longrightarrow> exact_inv (c, gall gs @ all_parts rs)"
  by (simp add: gauss_inv_def)

lemma grefines_init:
  assumes inv: "gauss_inv (c, gs, rs)"
  shows "grefines G_init (c, gs, rs) (gperform G_init (c, gs, rs))"
proof -
  obtain st g c' where res: "phy_gaussian_init (null_gaussian, c) = (st, g, c')" by (metis prod_cases3)
  note spec = gaussian_init_ok [OF gauss_invD(1) [OF inv] res]
  have i: "exact_inv (c, gall gs @ [] @ all_parts rs)" using gauss_inv_exact [OF inv] by simp
  show ?thesis
  proof (cases "st = PHY_OK")
    case True
    have sh: "shifted c [] c' (gparts g)" and g: "gok c' g" "gval g = 0" using spec True by simp_all
    have "gauss_inv (c', gs @ [g], rs)"
      using inv_now [OF i sh gok_valid [OF g(1)]] keep_others [OF inv shiftedD(1) [OF sh]] g by (auto simp: gauss_inv_def)
    then show ?thesis using True g by (simp add: grefines_def res gvals_def)
  next
    case False
    have sh: "shifted c [] c' []" and st: "resource_failure c st" using spec False by simp_all
    have "gauss_inv (c', gs, rs)"
      using inv_now [OF i sh] keep_others [OF inv shiftedD(1) [OF sh]] by (simp add: gauss_inv_def)
    then show ?thesis using False st by (simp add: grefines_def res)
  qed
qed

lemma grefines_rational:
  assumes inv: "gauss_inv (c, gs, rs)"
  shows "grefines G_rational (c, gs, rs) (gperform G_rational (c, gs, rs))"
proof -
  obtain st r c' where res: "phy_bigrat_init (null_bigrat, c) = (st, r, c')" by (metis prod_cases3)
  note spec = computes_rat_init [OF gauss_invD(1) [OF inv], unfolded computes_rat_def run_ok_always res]
  have nul: "parts null_bigrat = [null_bigint, null_bigint]" by (simp add: parts_def null_bigrat_def)
  have sh0: "shifted c [null_bigint, null_bigint] c' (parts r)" using spec nul by (auto split: if_splits)
  have i: "exact_inv (c, (gall gs @ all_parts rs) @ [] @ [])" using gauss_inv_exact [OF inv] by simp
  note keep = keep_others [OF inv shiftedD(1) [OF sh0]]
  show ?thesis
  proof (cases "st = PHY_OK")
    case True
    have r: "live_rat c' r" "pair r = quotient_of 0" using spec True by simp_all
    have "shifted c [] c' (parts r)" using sh0 by (simp add: shifted_def)
    from inv_now [OF i this] r(1) have "exact_inv (c', gall gs @ all_parts (rs @ [r]))" by (simp add: live_rat_def parts_def)
    then have "gauss_inv (c', gs, rs @ [r])" using keep canonicalI [OF r] by (auto simp: gauss_inv_def)
    then show ?thesis using True canonicalI [OF r] by (simp add: grefines_def res gvals_def)
  next
    case False
    have "shifted c [] c' []" using sh0 init_failed [OF res False] nul by (simp add: shifted_def)
    from inv_now [OF i this] have "gauss_inv (c', gs, rs)" using keep by (simp add: gauss_inv_def)
    then show ?thesis using False spec by (simp add: grefines_def res)
  qed
qed

lemma grefines_destroy:
  assumes inv: "gauss_inv (c, gs, rs)" and k: "k < length gs"
  shows "grefines (G_destroy k) (c, gs, rs) (gperform (G_destroy k) (c, gs, rs))"
proof -
  note ok = gauss_invD(1) [OF inv] and g = gauss_invD(2,3) [OF inv k]
  let ?gs = "take k gs @ drop (Suc k) gs" and ?c = "release (rev (gparts (gs ! k))) c"
  have d: "snd (phy_gaussian_destroy (gs ! k) c) = ?c" by (rule gdestroy_release [OF gok_weak [OF g(1)]])
  have "shifted c (rev (gparts (gs ! k))) ?c []"
    using g gok_slots [OF g(1)] ok by (intro release_shifted) (simp_all add: owns_def total_rev)
  then have sh: "shifted c (gparts (gs ! k)) ?c []" by (simp add: shifted_def total_rev)
  have "exact_inv (c, gall (take k gs) @ gparts (gs ! k) @ (gall (drop (Suc k) gs) @ all_parts rs))"
    using gauss_inv_exact [OF inv] gall_split [OF k] by simp
  from inv_now [OF this sh] have "exact_inv (?c, gall ?gs @ all_parts rs)" by simp
  then have "gauss_inv (?c, ?gs, rs)" using keep_others [OF inv shiftedD(1) [OF sh]]
    by (auto simp: gauss_inv_def dest: in_set_takeD in_set_dropD)
  then show ?thesis by (simp add: grefines_def d gvals_def take_map drop_map)
qed

section \<open>Values and norms\<close>

lemma grefines_values:
  assumes inv: "gauss_inv (c, gs, rs)" and k: "k < length gs"
  shows "\<forall>i \<in> {a, b, p, q}. - (2 ^ 63) \<le> i \<and> i < 2 ^ 63 \<Longrightarrow>
      grefines (G_set k a b p q) (c, gs, rs) (gperform (G_set k a b p q) (c, gs, rs))"
    "grefines (G_read k s t u v) (c, gs, rs) (gperform (G_read k s t u v) (c, gs, rs))"
proof -
  note c = gauss_invD(1) [OF inv] and o1 = gauss_invD(2,3) [OF inv k]
  show "grefines (G_set k a b p q) (c, gs, rs) (gperform (G_set k a b p q) (c, gs, rs))"
    if "\<forall>i \<in> {a, b, p, q}. - (2 ^ 63) \<le> i \<and> i < 2 ^ 63" unfolding gperform.simps
    by (rule grefines_put [OF inv k set_gaussian_spec [OF c o1 that]]) (simp_all add: gvals_def)
  show "grefines (G_read k s t u v) (c, gs, rs) (gperform (G_read k s t u v) (c, gs, rs))" unfolding gperform.simps
    by (rule grefines_put [OF inv k read_gaussian_spec [OF c o1]]) (simp_all add: gvals_def)
qed

lemma norm_value: "of_rat (rval (ga_real g) * rval (ga_real g) + rval (ga_imag g) * rval (ga_imag g)) = (cmod (gval g))\<^sup>2"
  by (simp add: gval_def cpx_def cmod_power2 of_rat_add of_rat_mult) (simp add: power2_eq_square)

lemma grefines_norm:
  assumes inv: "gauss_inv (c, gs, rs)" and k: "k < length rs" and s: "s < length gs"
  shows "grefines (G_norm k s) (c, gs, rs) (gperform (G_norm k s) (c, gs, rs))"
proof -
  let ?g = "gs ! s" and ?r = "rs ! k"
  let ?n = "rval (ga_real ?g) * rval (ga_real ?g) + rval (ga_imag ?g) * rval (ga_imag ?g)"
  obtain st out c' where res: "phy_gaussian_norm ?g (?r, c) = Some (st, out, c')"
    and good: "st = PHY_OK \<Longrightarrow> shifted (begun c) (parts ?r) c' (parts out) \<and> live_rat c' out \<and> pair out = quotient_of ?n"
    and bad: "st \<noteq> PHY_OK \<Longrightarrow> out = ?r \<and> shifted (begun c) (parts ?r) c' (parts ?r) \<and> resource_failure c st"
    using gaussian_norm_spec [OF gauss_invD(1) [OF inv] gauss_invD(2) [OF inv s] gauss_invD(4,5) [OF inv k]]
    unfolding rat_settled_def by (rule run_okE) (auto split: prod.splits if_splits)
  have sh: "shifted (begun c) (parts ?r) c' (parts out)" using good bad by (cases "st = PHY_OK") simp_all
  note e = same_env_trans [OF begun_env(1) shiftedD(1) [OF sh]]
  have cn: "canonical c' out"
    using good bad canonicalI [of c' out ?n] gauss_invD(4) [OF inv k] canonical_env [OF e] by (cases "st = PHY_OK") simp_all
  have val: "st = PHY_OK \<Longrightarrow> rval out = ?n" using good canonicalI [of c' out ?n] by simp
  have "exact_inv (c, (gall gs @ all_parts (take k rs)) @ parts ?r @ all_parts (drop (Suc k) rs))"
    using gauss_inv_exact [OF inv] parts_split [OF k] by simp
  from inv_shifted [OF this sh] have "exact_inv (c', gall gs @ all_parts (rs[k := out]))"
    using parts_update [OF k, of out] canonical_live [OF cn] by (simp add: live_rat_def parts_def)
  then have "gauss_inv (c', gs, rs[k := out])"
    using keep_others [OF inv e] cn set_update_subset_insert [of rs k out] by (auto simp: gauss_inv_def)
  then show ?thesis
    using good bad val norm_value [of ?g] s by (cases "st = PHY_OK") (auto simp: grefines_def res gvals_def map_update)
qed

section \<open>Histories\<close>

lemma grefines_call:
  assumes inv: "gauss_inv (c, gs, rs)" and f: "gcallable f (length gs) (length rs)"
  shows "grefines f (c, gs, rs) (gperform f (c, gs, rs))"
proof (cases f)
  case G_init then show ?thesis using grefines_init [OF inv] by simp
next
  case G_rational then show ?thesis using grefines_rational [OF inv] by simp
next
  case G_destroy then show ?thesis using grefines_destroy [OF inv] f by simp
next
  case (G_set k a b p q) then show ?thesis using grefines_values(1) [OF inv, of k a b p q] f by simp
next
  case G_read then show ?thesis using grefines_values(2) [OF inv] f by simp
next
  case G_copy then show ?thesis using grefines_unary(1) [OF inv] f by simp
next
  case G_negate then show ?thesis using grefines_unary(2) [OF inv] f by simp
next
  case G_conjugate then show ?thesis using grefines_unary(3) [OF inv] f by simp
next
  case G_add then show ?thesis using grefines_binary(1) [OF inv] f by simp
next
  case G_subtract then show ?thesis using grefines_binary(2) [OF inv] f by simp
next
  case G_multiply then show ?thesis using grefines_binary(3) [OF inv] f by simp
next
  case G_reciprocal then show ?thesis using grefines_unary(4) [OF inv] f by simp
next
  case G_divide then show ?thesis using grefines_binary(4) [OF inv] f by simp
next
  case G_power then show ?thesis using grefines_unary(5) [OF inv] f by (simp del: gperform.simps)
next
  case G_norm then show ?thesis using grefines_norm [OF inv] f by simp
qed

lemma gauss_run_inv: "gauss_run s \<Longrightarrow> gauss_inv s"
proof (induction rule: gauss_run.induct)
  case (create limits identity alloc c)
  from inv_create [OF this] show ?case by (simp add: gauss_inv_def)
next
  case (cancel c gs rs f)
  have "gok (phy_exact_set_cancel c f) g = gok c g" "canonical (phy_exact_set_cancel c f) r = canonical c r" for g r
    by (simp_all add: gok_def canonical_def live_rat_def phy_exact_set_cancel_def cancel_valid)
  then show ?case using inv_cancel [of c _ f] cancel.IH by (simp add: gauss_inv_def)
next
  case (call c gs rs f st s)
  then show ?case using grefines_call [OF call.IH call.hyps(2)] by (simp add: grefines_def split: if_splits)
qed

end
