(* ===== verification/GaussianDemo.thy ===== *)
theory GaussianDemo
  imports GaussianRefine "HOL-Library.Code_Target_Nat"
begin

text \<open>
  A small concrete history of Gaussian rationals, on which the witnesses of the properties
  evaluate: the imaginary unit, zero, and a rational zero.
\<close>

section \<open>Sequences of calls\<close>

fun gperformed :: "gauss_call list \<Rightarrow> gauss_state \<Rightarrow> gauss_state run" where
  "gperformed [] s = Some (PHY_OK, s)"
| "gperformed (f # fs) s = (case gperform f s of None \<Rightarrow> None
     | Some (st, s') \<Rightarrow> if st = PHY_OK then gperformed fs s' else Some (st, s'))"

text \<open>A successful sequence of calls follows the abstract machine.\<close>

lemma gperformed_step:
  assumes "gperformed (f # fs) (c, gs, rs) = Some (PHY_OK, s)" "gauss_run (c, gs, rs)" "gcallable f (length gs) (length rs)"
  obtains c' gs' rs' where "gperformed fs (c', gs', rs') = Some (PHY_OK, s)" "gauss_run (c', gs', rs')"
    "geffect f (gvals (c, gs, rs)) = Some (gvals (c', gs', rs'))"
proof -
  obtain c' gs' rs' where p: "gperform f (c, gs, rs) = Some (PHY_OK, c', gs', rs')" "gperformed fs (c', gs', rs') = Some (PHY_OK, s)"
    using assms(1) by (auto split: option.splits prod.splits if_splits)
  have "geffect f (gvals (c, gs, rs)) = Some (gvals (c', gs', rs'))"
    using grefines_call [OF gauss_run_inv [OF assms(2)] assms(3)] by (simp add: grefines_def p(1))
  then show ?thesis by (rule that [OF p(2) gauss_run.call [OF assms(2,3) p(1)]])
qed

section \<open>The history\<close>

definition gauss_start :: gauss_state where
  "gauss_start = (the (phy_exact_context_create None 7 (\<lambda>_ _. True)), [], [])"

definition gauss_demo :: gauss_state where
  "gauss_demo = snd (the (gperformed [G_init, G_init, G_rational, G_set 0 0 1 1 1] gauss_start))"

abbreviation demo_ctx :: phy_exact_context where
  "demo_ctx \<equiv> fst gauss_demo"

abbreviation demo_gs :: "phy_gaussian list" where
  "demo_gs \<equiv> fst (snd gauss_demo)"

abbreviation demo_rs :: "phy_bigrat list" where
  "demo_rs \<equiv> snd (snd gauss_demo)"

lemma gauss_start_run: "gauss_run gauss_start"
  unfolding gauss_start_def
  by (rule gauss_run.create [of None 7 "\<lambda>_ _. True"])
    (simp_all add: sized_limits_def phy_exact_context_create_def resolve_limits_def phy_exact_limits_defaults_def
      sizeof_exact_context_def PHY_EXACT_MAX_LIMBS_CEILING_def Let_def)

lemma gauss_demo_performed:
  "map_option fst (gperformed [G_init, G_init, G_rational, G_set 0 0 1 1 1] gauss_start) = Some PHY_OK"
  by code_simp

lemma gvals_length: "gvals (c, gs, rs) = (zs, qs) \<Longrightarrow> length gs = length zs \<and> length rs = length qs"
  by (auto simp: gvals_def)

lemma gauss_demo_values: "gauss_run (demo_ctx, demo_gs, demo_rs) \<and> gvals (demo_ctx, demo_gs, demo_rs) = ([\<i>, 0], [0])"
proof -
  let ?c = "fst gauss_start"
  obtain s where s: "gperformed [G_init, G_init, G_rational, G_set 0 0 1 1 1] (?c, [], []) = Some (PHY_OK, s)"
    using gauss_demo_performed by (auto simp: gauss_start_def)
  obtain c1 gs1 rs1 where 1: "gperformed [G_init, G_rational, G_set 0 0 1 1 1] (c1, gs1, rs1) = Some (PHY_OK, s)"
    "gauss_run (c1, gs1, rs1)" "gvals (c1, gs1, rs1) = ([0], [])"
    by (rule gperformed_step [OF s]) (use gauss_start_run in \<open>simp_all add: gauss_start_def gvals_def\<close>)
  obtain c2 gs2 rs2 where 2: "gperformed [G_rational, G_set 0 0 1 1 1] (c2, gs2, rs2) = Some (PHY_OK, s)"
    "gauss_run (c2, gs2, rs2)" "gvals (c2, gs2, rs2) = ([0, 0], [])"
    by (rule gperformed_step [OF 1(1,2)]) (use 1(3) in simp_all)
  obtain c3 gs3 rs3 where 3: "gperformed [G_set 0 0 1 1 1] (c3, gs3, rs3) = Some (PHY_OK, s)"
    "gauss_run (c3, gs3, rs3)" "gvals (c3, gs3, rs3) = ([0, 0], [0])"
    by (rule gperformed_step [OF 2(1,2)]) (use 2(3) in simp_all)
  have "cpx (Fract 0 1) (Fract 1 1) = \<i>"
    by (simp add: cpx_def imaginary_unit.code rat_number_collapse)
  then have i: "both (ratio 0 1) (ratio 1 1) = Some \<i>" by (simp add: both_def ratio_def)
  obtain c4 gs4 rs4 where 4: "gperformed [] (c4, gs4, rs4) = Some (PHY_OK, s)"
    "gauss_run (c4, gs4, rs4)" "gvals (c4, gs4, rs4) = ([\<i>, 0], [0])"
    by (rule gperformed_step [OF 3(1,2)]) (use 3(3) gvals_length [OF 3(3)] i in \<open>simp_all add: geffect_one_def\<close>)
  have d: "gauss_demo = (c4, gs4, rs4)" using s 4(1) by (simp add: gauss_demo_def gauss_start_def)
  show ?thesis unfolding d using 4(2,3) by simp
qed

lemma gauss_demo_run: "gauss_run (demo_ctx, demo_gs, demo_rs)"
  using gauss_demo_values by simp

lemma gauss_demo_vals: "gvals (demo_ctx, demo_gs, demo_rs) = ([\<i>, 0], [0])"
  using gauss_demo_values by simp

lemma gauss_demo_lengths: "length demo_gs = 2" "length demo_rs = 1"
  using gvals_length [OF gauss_demo_vals] by simp_all

lemma gauss_demo_nth: "gval (demo_gs ! 0) = \<i>" "gval (demo_gs ! 1) = 0"
proof -
  have "map gval demo_gs = [\<i>, 0]" using gauss_demo_vals by (simp add: gvals_def case_prod_beta)
  then have "map gval demo_gs ! 0 = \<i>" "map gval demo_gs ! 1 = 0" by simp_all
  then show "gval (demo_gs ! 0) = \<i>" "gval (demo_gs ! 1) = 0" using gauss_demo_lengths by simp_all
qed

end
