(* ===== verification/GaussianProperties.thy ===== *)
theory GaussianProperties
  imports GaussianDemo
begin

text \<open>
  The properties of the Gaussian rationals, on every state of every history of a context: the
  calls refine the arithmetic of the complex numbers, and the representation is canonical.
\<close>

text \<open>
  C9. Every call on the Gaussian rationals returns, and a successful one does what the abstract
  machine does to the complex numbers the handles stand for, with any sharing between operands
  and output; repeated squaring returns for every 32-bit exponent, negative ones included, and
  norms are squared absolute values. A call that fails leaves every handle as it was, both parts
  of the output together, and it fails only for lack of resources, or with a domain or parse
  error where the abstract machine has no result.
\<close>

theorem gaussian_calls_refine:
  assumes run: "gauss_run (c, gs, rs)" and f: "gcallable f (length gs) (length rs)"
  shows "\<exists>st c' gs' rs'. gperform f (c, gs, rs) = Some (st, c', gs', rs') \<and> gauss_run (c', gs', rs') \<and>
    (if st = PHY_OK then geffect f (map gval gs, map (\<lambda>r. of_rat (rval r)) rs) = Some (map gval gs', map (\<lambda>r. of_rat (rval r)) rs')
     else gs' = gs \<and> rs' = rs \<and> (resource_failure c st \<or>
       geffect f (map gval gs, map (\<lambda>r. of_rat (rval r)) rs) = None \<and> (st = PHY_ERR_DOMAIN \<or> st = PHY_ERR_PARSE)))"
proof -
  note r = grefines_call [OF gauss_run_inv [OF run] f]
  then obtain st c' gs' rs' where p: "gperform f (c, gs, rs) = Some (st, c', gs', rs')"
    by (auto simp: grefines_def run_ok_def split: option.splits)
  show ?thesis using r gauss_run.call [OF run f p] by (auto simp: grefines_def gvals_def p split: if_splits)
qed

theorem gaussian_calls_refine_witness:
  "\<exists>st c gs rs. gperform (G_power 1 0 (- 3)) (demo_ctx, demo_gs, demo_rs) = Some (st, c, gs, rs) \<and>
     (if st = PHY_OK then map gval gs = [\<i>, \<i>] else gs = demo_gs \<and> resource_failure demo_ctx st)"
proof -
  have v: "map gval demo_gs = [\<i>, 0]" using gauss_demo_vals by (simp add: gvals_def case_prod_beta)
  have e: "\<i> powi (- 3) = \<i>" by (simp add: power_int_minus power3_eq_cube)
  have f: "gcallable (G_power 1 0 (- 3)) (length demo_gs) (length demo_rs)" using gauss_demo_lengths by simp
  have g: "geffect (G_power 1 0 (- 3)) (map gval demo_gs, q) = Some ([\<i>, \<i>], q)" for q
    using e by (simp only: v geffect.simps nth_Cons_0 list_update_code One_nat_def) simp
  from gaussian_calls_refine [OF gauss_demo_run f] obtain st c' gs' rs' where
    r: "gperform (G_power 1 0 (- 3)) (demo_ctx, demo_gs, demo_rs) = Some (st, c', gs', rs')"
    and o: "if st = PHY_OK then map gval gs' = [\<i>, \<i>] else gs' = demo_gs \<and> resource_failure demo_ctx st"
    unfolding g by (elim exE conjE) (auto split: if_splits)
  then show ?thesis by blast
qed

text \<open>
  C19. The Gaussian rationals of a history are well formed: the code's validation accepts each of
  them, and both parts are in lowest terms with positive denominators, so equal numbers have equal
  representations.
\<close>

theorem gaussian_history_canonical:
  assumes run: "gauss_run (c, gs, rs)"
  shows "list_all (\<lambda>g. phy_gaussian_validate c g = PHY_OK \<and> gaussian_compatible c g g g \<and>
      quotient_of (rval (ga_real g)) = (ival (br_num (ga_real g)), ival (br_den (ga_real g))) \<and>
      quotient_of (rval (ga_imag g)) = (ival (br_num (ga_imag g)), ival (br_den (ga_imag g)))) gs"
proof -
  have inv: "gauss_inv (c, gs, rs)" by (rule gauss_run_inv [OF run])
  have "phy_gaussian_validate c g = PHY_OK \<and> gaussian_compatible c g g g \<and>
      quotient_of (rval (ga_real g)) = (ival (br_num (ga_real g)), ival (br_den (ga_real g))) \<and>
      quotient_of (rval (ga_imag g)) = (ival (br_num (ga_imag g)), ival (br_den (ga_imag g)))" if "g \<in> set gs" for g
  proof -
    have g: "gok c g" using inv that by (simp add: gauss_inv_def)
    then have "canonical c (ga_real g)" "canonical c (ga_imag g)" by (simp_all add: gok_def)
    then show ?thesis using gok_context [OF g] gok_compatible [OF g g g] live_pair [of c]
      by (simp add: phy_gaussian_validate_def canonical_def pair_def)
  qed
  then show ?thesis by (simp add: list_all_iff)
qed

theorem gaussian_history_canonical_witness:
  "phy_gaussian_validate demo_ctx (demo_gs ! 0) = PHY_OK \<and> gval (demo_gs ! 0) = \<i>"
proof -
  have "demo_gs ! 0 \<in> set demo_gs" using gauss_demo_lengths by simp
  then show ?thesis
    using gaussian_history_canonical [OF gauss_demo_run] gauss_demo_nth unfolding list_all_iff by blast
qed

end
