(* ===== verification/IrModel.thy ===== *)
theory IrModel
  imports Prelude
begin

text \<open>
  The expression graph: \<open>include/phy/ir.h\<close>, \<open>src/ir/ir_internal.h\<close> and the first part of
  \<open>src/ir/ir.c\<close> (kind table, hashes, pools, accessors, contexts). A context pointer is the
  record passed in and returned; handles are indices into its pools, zero is no handle. Sizes
  are those of the 32-bit target, where \<open>size_t\<close> and \<open>uint32_t\<close> have the same range. The
  answers of \<open>phy_alloc\<close> are part of the context, in call order.
\<close>

section \<open>Kinds\<close>

datatype phy_ir_kind =
    PHY_IR_KIND_INVALID
  | PHY_IR_INTEGER
  | PHY_IR_RATIONAL
  | PHY_IR_REAL
  | PHY_IR_SYMBOL
  | PHY_IR_INDEX
  | PHY_IR_ERROR
  | PHY_IR_ADD
  | PHY_IR_MUL
  | PHY_IR_NCMUL
  | PHY_IR_POW
  | PHY_IR_EQUATION
  | PHY_IR_FUNCTION
  | PHY_IR_TENSOR
  | PHY_IR_OPERATOR
  | PHY_IR_DERIVATIVE
  | PHY_IR_WEDGE

fun kind_code :: "phy_ir_kind \<Rightarrow> nat" where
  "kind_code PHY_IR_KIND_INVALID = 0"
| "kind_code PHY_IR_INTEGER = 1"
| "kind_code PHY_IR_RATIONAL = 2"
| "kind_code PHY_IR_REAL = 3"
| "kind_code PHY_IR_SYMBOL = 4"
| "kind_code PHY_IR_INDEX = 5"
| "kind_code PHY_IR_ERROR = 6"
| "kind_code PHY_IR_ADD = 7"
| "kind_code PHY_IR_MUL = 8"
| "kind_code PHY_IR_NCMUL = 9"
| "kind_code PHY_IR_POW = 10"
| "kind_code PHY_IR_EQUATION = 11"
| "kind_code PHY_IR_FUNCTION = 12"
| "kind_code PHY_IR_TENSOR = 13"
| "kind_code PHY_IR_OPERATOR = 14"
| "kind_code PHY_IR_DERIVATIVE = 15"
| "kind_code PHY_IR_WEDGE = 16"

text \<open>The flag column of \<open>kKindInfo\<close>, as the set of flags of each row.\<close>

datatype phy_ir_kind_flag = ATOM | COMMUTATIVE | ASSOCIATIVE | NARY | HEADED

fun phy_ir_kind_flags :: "phy_ir_kind \<Rightarrow> phy_ir_kind_flag list" where
  "phy_ir_kind_flags PHY_IR_KIND_INVALID = []"
| "phy_ir_kind_flags PHY_IR_INTEGER = [ATOM]"
| "phy_ir_kind_flags PHY_IR_RATIONAL = [ATOM]"
| "phy_ir_kind_flags PHY_IR_REAL = [ATOM]"
| "phy_ir_kind_flags PHY_IR_SYMBOL = [ATOM, HEADED]"
| "phy_ir_kind_flags PHY_IR_INDEX = [ATOM, HEADED]"
| "phy_ir_kind_flags PHY_IR_ERROR = [ATOM]"
| "phy_ir_kind_flags PHY_IR_ADD = [NARY, COMMUTATIVE, ASSOCIATIVE]"
| "phy_ir_kind_flags PHY_IR_MUL = [NARY, COMMUTATIVE, ASSOCIATIVE]"
| "phy_ir_kind_flags PHY_IR_NCMUL = [NARY, ASSOCIATIVE]"
| "phy_ir_kind_flags PHY_IR_POW = []"
| "phy_ir_kind_flags PHY_IR_EQUATION = []"
| "phy_ir_kind_flags PHY_IR_FUNCTION = [NARY, HEADED]"
| "phy_ir_kind_flags PHY_IR_TENSOR = [NARY, HEADED]"
| "phy_ir_kind_flags PHY_IR_OPERATOR = [NARY, HEADED]"
| "phy_ir_kind_flags PHY_IR_DERIVATIVE = [NARY]"
| "phy_ir_kind_flags PHY_IR_WEDGE = [NARY, ASSOCIATIVE]"

fun phy_ir_kind_rank :: "phy_ir_kind \<Rightarrow> nat" where
  "phy_ir_kind_rank PHY_IR_KIND_INVALID = 0"
| "phy_ir_kind_rank PHY_IR_INTEGER = 1"
| "phy_ir_kind_rank PHY_IR_RATIONAL = 1"
| "phy_ir_kind_rank PHY_IR_REAL = 2"
| "phy_ir_kind_rank PHY_IR_SYMBOL = 3"
| "phy_ir_kind_rank PHY_IR_INDEX = 4"
| "phy_ir_kind_rank PHY_IR_ERROR = 5"
| "phy_ir_kind_rank PHY_IR_ADD = 6"
| "phy_ir_kind_rank PHY_IR_MUL = 7"
| "phy_ir_kind_rank PHY_IR_NCMUL = 8"
| "phy_ir_kind_rank PHY_IR_POW = 9"
| "phy_ir_kind_rank PHY_IR_EQUATION = 10"
| "phy_ir_kind_rank PHY_IR_FUNCTION = 11"
| "phy_ir_kind_rank PHY_IR_TENSOR = 12"
| "phy_ir_kind_rank PHY_IR_OPERATOR = 13"
| "phy_ir_kind_rank PHY_IR_DERIVATIVE = 14"
| "phy_ir_kind_rank PHY_IR_WEDGE = 15"

datatype phy_ir_variance = PHY_IR_INDEX_LOWER | PHY_IR_INDEX_UPPER

fun variance_code :: "phy_ir_variance \<Rightarrow> nat" where
  "variance_code PHY_IR_INDEX_LOWER = 0"
| "variance_code PHY_IR_INDEX_UPPER = 1"

datatype phy_ir_symmetry = PHY_IR_SYMMETRY_NONE | PHY_IR_SYMMETRY_SYMMETRIC | PHY_IR_SYMMETRY_ANTISYMMETRIC

section \<open>State\<close>

definition PHY_IR_MAX_DEPTH_CEILING :: nat where
  "PHY_IR_MAX_DEPTH_CEILING = 1024"

definition PHY_IR_MAX_CHILDREN_CEILING :: nat where
  "PHY_IR_MAX_CHILDREN_CEILING = 65535"

definition PHY_IR_EXACT_BIG :: nat where
  "PHY_IR_EXACT_BIG = 128"

record phy_ir_limits =
  il_nodes :: nat
  il_depth :: nat
  il_children :: nat
  il_bytes :: nat

record phy_ir_rat =
  rt_num :: int
  rt_den :: int

record phy_ir_big_exact =
  be_num_offset :: nat
  be_num_length :: nat
  be_den_offset :: nat
  be_den_length :: nat

text \<open>
  A node. The members of the union are fields of their own; a member that the kind does not use
  is zero, as in the zeroed prototype. A real is its 64-bit representation.
\<close>

record phy_ir_node =
  nd_kind :: phy_ir_kind
  nd_aux :: nat
  nd_depth :: nat
  nd_child_count :: nat
  nd_hash :: u32
  nd_next :: nat
  nd_head :: nat
  nd_child_offset :: nat
  nd_rational_index :: nat
  nd_index_space :: nat
  nd_integer :: int
  nd_real :: u64

record phy_ir_symbol_record =
  sy_offset :: nat
  sy_length :: nat
  sy_hash :: u32
  sy_assumptions :: u32
  sy_symmetry_head :: nat
  sy_next :: nat

record phy_ir_symmetry_record =
  sm_slot_a :: nat
  sm_slot_b :: nat
  sm_next :: nat
  sm_symmetry :: phy_ir_symmetry

text \<open>A pool: the elements in use, so that \<open>count\<close> is their number, and the capacity.\<close>

record 'a phy_pool =
  pl_data :: "'a list"
  pl_capacity :: nat

abbreviation pl_count :: "'a phy_pool \<Rightarrow> nat" where
  "pl_count p \<equiv> length (pl_data p)"

definition empty_pool :: "'a phy_pool" where
  "empty_pool = \<lparr>pl_data = [], pl_capacity = 0\<rparr>"

record phy_ir_context =
  ic_limits :: phy_ir_limits
  ic_error :: phy_status
  ic_bytes :: nat
  ic_nodes :: "phy_ir_node phy_pool"
  ic_children :: "nat phy_pool"
  ic_rationals :: "phy_ir_rat phy_pool"
  ic_big_exacts :: "phy_ir_big_exact phy_pool"
  ic_exact_text :: "char phy_pool"
  ic_symbols :: "phy_ir_symbol_record phy_pool"
  ic_strings :: "char phy_pool"
  ic_symmetries :: "phy_ir_symmetry_record phy_pool"
  ic_node_buckets :: "nat phy_pool"
  ic_symbol_buckets :: "nat phy_pool"
  ic_scratch :: "nat phy_pool"
  ic_alloc :: "nat \<Rightarrow> nat \<Rightarrow> bool"
  ic_allocs :: nat

text \<open>The sizes the C compiler gives these structures on the target.\<close>

definition sizeof_ir_context :: nat where
  "sizeof_ir_context = 156"

definition sizeof_ir_node :: nat where
  "sizeof_ir_node = 32"

definition sizeof_ir_ref :: nat where
  "sizeof_ir_ref = 4"

definition sizeof_ir_rat :: nat where
  "sizeof_ir_rat = 16"

definition sizeof_ir_big_exact :: nat where
  "sizeof_ir_big_exact = 16"

definition sizeof_ir_symbol_record :: nat where
  "sizeof_ir_symbol_record = 24"

definition sizeof_ir_symmetry_record :: nat where
  "sizeof_ir_symmetry_record = 16"

section \<open>Hashes\<close>

definition FNV_OFFSET :: u32 where
  "FNV_OFFSET = 2166136261"

definition FNV_PRIME :: u32 where
  "FNV_PRIME = 16777619"

text \<open>Bytes are natural numbers below 256; a word is hashed in the little-endian order of both targets.\<close>

definition hash_bytes :: "u32 \<Rightarrow> nat list \<Rightarrow> u32" where
  "hash_bytes seed bytes = foldl (\<lambda>hash b. xor hash (of_nat b) * FNV_PRIME) seed bytes"

definition le_bytes :: "nat \<Rightarrow> nat \<Rightarrow> nat list" where
  "le_bytes n v = map (\<lambda>i. v div 256 ^ i mod 256) [0..<n]"

definition text_bytes :: "string \<Rightarrow> nat list" where
  "text_bytes s = map of_char s"

definition hash_u32 :: "u32 \<Rightarrow> nat \<Rightarrow> u32" where
  "hash_u32 seed v = hash_bytes seed (le_bytes 4 v)"

definition i64_bytes :: "int \<Rightarrow> nat list" where
  "i64_bytes v = le_bytes 8 (nat (v mod 2 ^ 64))"

section \<open>Errors and pools\<close>

definition phy_ir_set_error :: "phy_ir_context \<Rightarrow> phy_status \<Rightarrow> phy_ir_context" where
  "phy_ir_set_error c status = (if ic_error c = PHY_OK then c\<lparr>ic_error := status\<rparr> else c)"

definition ir_charge :: "phy_ir_context \<Rightarrow> nat \<Rightarrow> bool \<times> phy_ir_context" where
  "ir_charge c extra =
     (if il_bytes (ic_limits c) \<le> ic_bytes c \<or> il_bytes (ic_limits c) - ic_bytes c < extra
      then (False, phy_ir_set_error c PHY_ERR_MEMORY_LIMIT)
      else (True, c\<lparr>ic_bytes := ic_bytes c + extra\<rparr>))"

definition ir_discharge :: "phy_ir_context \<Rightarrow> nat \<Rightarrow> phy_ir_context" where
  "ir_discharge c amount = c\<lparr>ic_bytes := ic_bytes c - (if amount \<le> ic_bytes c then amount else ic_bytes c)\<rparr>"

text \<open>\<open>phy_alloc(bytes) != NULL\<close>, the next answer of the environment.\<close>

definition ir_alloc :: "phy_ir_context \<Rightarrow> nat \<Rightarrow> bool \<times> phy_ir_context" where
  "ir_alloc c bytes = (ic_alloc c (ic_allocs c) bytes, c\<lparr>ic_allocs := Suc (ic_allocs c)\<rparr>)"

text \<open>
  The doubling loop of \<open>phy_ir_pool_reserve\<close>. It starts from a positive capacity (16 for an
  empty pool), so the last case of the condition, where C would loop, is never met.
\<close>

function pool_grow :: "nat \<Rightarrow> nat \<Rightarrow> nat" where
  "pool_grow capacity needed =
     (if needed \<le> capacity \<or> capacity = 0 then capacity
      else if SIZE_MAX div 2 < capacity then needed
      else pool_grow (capacity * 2) needed)"
  by pat_completeness auto
termination
  by (relation "measure (\<lambda>(capacity, needed). needed - capacity)") auto

declare pool_grow.simps [simp del]

text \<open>The pool is returned for the caller to put back; the context carries the accounting.\<close>

definition phy_ir_pool_reserve ::
  "phy_ir_context \<Rightarrow> 'a phy_pool \<Rightarrow> nat \<Rightarrow> nat \<Rightarrow> bool \<times> phy_ir_context \<times> 'a phy_pool" where
  "phy_ir_pool_reserve c pool element needed =
     (if needed \<le> pl_capacity pool then (True, c, pool)
      else
        let capacity = pool_grow (if pl_capacity pool \<noteq> 0 then pl_capacity pool else 16) needed in
        if SIZE_MAX div element < capacity then (False, phy_ir_set_error c PHY_ERR_MEMORY_LIMIT, pool)
        else
          let new_bytes = capacity * element; old_bytes = pl_capacity pool * element in
          case ir_charge c new_bytes of (charged, c1) \<Rightarrow>
          if \<not> charged then (False, c1, pool)
          else case ir_alloc c1 new_bytes of (given, c2) \<Rightarrow>
          if \<not> given then (False, phy_ir_set_error (ir_discharge c2 new_bytes) PHY_ERR_OUT_OF_MEMORY, pool)
          else (True, if pl_capacity pool \<noteq> 0 then ir_discharge c2 old_bytes else c2, pool\<lparr>pl_capacity := capacity\<rparr>))"

definition phy_ir_pool_release :: "phy_ir_context \<Rightarrow> 'a phy_pool \<Rightarrow> nat \<Rightarrow> phy_ir_context \<times> 'a phy_pool" where
  "phy_ir_pool_release c pool element =
     (if pl_capacity pool \<noteq> 0 then ir_discharge c (pl_capacity pool * element) else c, empty_pool)"

text \<open>\<open>pool_push\<close>: the index of the new element, \<open>None\<close> for \<open>SIZE_MAX\<close>.\<close>

definition pool_push ::
  "phy_ir_context \<Rightarrow> 'a phy_pool \<Rightarrow> nat \<Rightarrow> 'a \<Rightarrow> nat option \<times> phy_ir_context \<times> 'a phy_pool" where
  "pool_push c pool element x =
     (case phy_ir_pool_reserve c pool element (pl_count pool + 1) of (ok, c1, pool1) \<Rightarrow>
      if \<not> ok then (None, c1, pool1)
      else (Some (pl_count pool1), c1, pool1\<lparr>pl_data := pl_data pool1 @ [x]\<rparr>))"

section \<open>Accessors\<close>

text \<open>A pointer to an element is the element, a null pointer is \<open>None\<close>.\<close>

definition phy_ir_node_at :: "phy_ir_context \<Rightarrow> nat \<Rightarrow> phy_ir_node option" where
  "phy_ir_node_at c ref = (if ref = 0 \<or> pl_count (ic_nodes c) \<le> ref then None else Some (pl_data (ic_nodes c) ! ref))"

definition phy_ir_symbol_at :: "phy_ir_context \<Rightarrow> nat \<Rightarrow> phy_ir_symbol_record option" where
  "phy_ir_symbol_at c s = (if s = 0 \<or> pl_count (ic_symbols c) \<le> s then None else Some (pl_data (ic_symbols c) ! s))"

definition phy_ir_rat_at :: "phy_ir_context \<Rightarrow> nat \<Rightarrow> phy_ir_rat option" where
  "phy_ir_rat_at c index = (if pl_count (ic_rationals c) \<le> index then None else Some (pl_data (ic_rationals c) ! index))"

definition phy_ir_big_exact_at :: "phy_ir_context \<Rightarrow> nat \<Rightarrow> phy_ir_big_exact option" where
  "phy_ir_big_exact_at c index = (if pl_count (ic_big_exacts c) \<le> index then None else Some (pl_data (ic_big_exacts c) ! index))"

text \<open>Elements of an array from an offset on.\<close>

definition array_slice :: "nat \<Rightarrow> nat \<Rightarrow> 'a list \<Rightarrow> 'a list" where
  "array_slice offset n xs = take n (drop offset xs)"

definition phy_ir_children_of :: "phy_ir_context \<Rightarrow> phy_ir_node \<Rightarrow> nat list" where
  "phy_ir_children_of c node =
     (if nd_child_count node = 0 then [] else array_slice (nd_child_offset node) (nd_child_count node) (pl_data (ic_children c)))"

definition phy_ir_last_error :: "phy_ir_context \<Rightarrow> phy_status" where
  "phy_ir_last_error c = ic_error c"

definition phy_ir_clear_error :: "phy_ir_context \<Rightarrow> phy_ir_context" where
  "phy_ir_clear_error c = c\<lparr>ic_error := PHY_OK\<rparr>"

definition phy_ir_node_count :: "phy_ir_context \<Rightarrow> nat" where
  "phy_ir_node_count c = (if 0 < pl_count (ic_nodes c) then pl_count (ic_nodes c) - 1 else 0)"

definition phy_ir_symbol_count :: "phy_ir_context \<Rightarrow> nat" where
  "phy_ir_symbol_count c = (if 0 < pl_count (ic_symbols c) then pl_count (ic_symbols c) - 1 else 0)"

definition phy_ir_bytes_used :: "phy_ir_context \<Rightarrow> nat" where
  "phy_ir_bytes_used c = ic_bytes c"

section \<open>Creation\<close>

definition phy_ir_limits_defaults :: phy_ir_limits where
  "phy_ir_limits_defaults = \<lparr>il_nodes = 200000, il_depth = 256, il_children = 4096, il_bytes = 8 * 1024 * 1024\<rparr>"

definition ir_resolve_limits :: "phy_ir_limits \<Rightarrow> bool \<times> phy_ir_limits" where
  "ir_resolve_limits l =
     (let d = phy_ir_limits_defaults;
          l1 = (if il_nodes l = 0 then l\<lparr>il_nodes := il_nodes d\<rparr> else l);
          l2 = (if il_depth l1 = 0 then l1\<lparr>il_depth := il_depth d\<rparr> else l1);
          l3 = (if il_children l2 = 0 then l2\<lparr>il_children := il_children d\<rparr> else l2);
          l4 = (if il_bytes l3 = 0 then l3\<lparr>il_bytes := il_bytes d\<rparr> else l3);
          l5 = (if PHY_IR_MAX_DEPTH_CEILING < il_depth l4 then l4\<lparr>il_depth := PHY_IR_MAX_DEPTH_CEILING\<rparr> else l4);
          l6 = (if PHY_IR_MAX_CHILDREN_CEILING < il_children l5 then l5\<lparr>il_children := PHY_IR_MAX_CHILDREN_CEILING\<rparr> else l5)
      in (64 * 1024 \<le> il_bytes l6, l6))"

definition buckets_init :: "phy_ir_context \<Rightarrow> nat phy_pool \<Rightarrow> nat \<Rightarrow> bool \<times> phy_ir_context \<times> nat phy_pool" where
  "buckets_init c pool count =
     (case phy_ir_pool_reserve c pool sizeof_ir_ref count of (ok, c1, pool1) \<Rightarrow>
      if \<not> ok then (False, c1, pool1) else (True, c1, pool1\<lparr>pl_data := replicate count 0\<rparr>))"

definition null_node :: phy_ir_node where
  "null_node = \<lparr>nd_kind = PHY_IR_KIND_INVALID, nd_aux = 0, nd_depth = 0, nd_child_count = 0, nd_hash = 0, nd_next = 0,
     nd_head = 0, nd_child_offset = 0, nd_rational_index = 0, nd_index_space = 0, nd_integer = 0, nd_real = 0\<rparr>"

definition null_symbol :: phy_ir_symbol_record where
  "null_symbol = \<lparr>sy_offset = 0, sy_length = 0, sy_hash = 0, sy_assumptions = 0, sy_symmetry_head = 0, sy_next = 0\<rparr>"

definition null_symmetry :: phy_ir_symmetry_record where
  "null_symmetry = \<lparr>sm_slot_a = 0, sm_slot_b = 0, sm_next = 0, sm_symmetry = PHY_IR_SYMMETRY_NONE\<rparr>"

text \<open>
  \<open>phy_ir_context_create\<close>: the zeroed context with its sentinels and empty tables. A failure
  destroys what was allocated, so that nothing is left of it but the null pointer.
\<close>

definition blank_ir_context :: "phy_ir_limits \<Rightarrow> (nat \<Rightarrow> nat \<Rightarrow> bool) \<Rightarrow> phy_ir_context" where
  "blank_ir_context limits alloc =
     \<lparr>ic_limits = limits, ic_error = PHY_OK, ic_bytes = sizeof_ir_context, ic_nodes = empty_pool, ic_children = empty_pool,
      ic_rationals = empty_pool, ic_big_exacts = empty_pool, ic_exact_text = empty_pool, ic_symbols = empty_pool,
      ic_strings = empty_pool, ic_symmetries = empty_pool, ic_node_buckets = empty_pool, ic_symbol_buckets = empty_pool,
      ic_scratch = empty_pool, ic_alloc = alloc, ic_allocs = 1\<rparr>"

definition phy_ir_context_create :: "phy_ir_limits option \<Rightarrow> (nat \<Rightarrow> nat \<Rightarrow> bool) \<Rightarrow> phy_ir_context option" where
  "phy_ir_context_create limits alloc =
     (case ir_resolve_limits (case limits of None \<Rightarrow> \<lparr>il_nodes = 0, il_depth = 0, il_children = 0, il_bytes = 0\<rparr> | Some l \<Rightarrow> l) of
        (valid, resolved) \<Rightarrow>
      if \<not> valid \<or> \<not> alloc 0 sizeof_ir_context then None
      else
        let c = blank_ir_context resolved alloc in
        case pool_push c (ic_nodes c) sizeof_ir_node null_node of (i1, c1, nodes) \<Rightarrow>
        if i1 \<noteq> Some 0 then None
        else case pool_push (c1\<lparr>ic_nodes := nodes\<rparr>) (ic_symbols c1) sizeof_ir_symbol_record null_symbol of (i2, c2, symbols) \<Rightarrow>
        if i2 \<noteq> Some 0 then None
        else case pool_push (c2\<lparr>ic_symbols := symbols\<rparr>) (ic_symmetries c2) sizeof_ir_symmetry_record null_symmetry of (i3, c3, symmetries) \<Rightarrow>
        if i3 \<noteq> Some 0 then None
        else case buckets_init (c3\<lparr>ic_symmetries := symmetries\<rparr>) (ic_node_buckets c3) 256 of (ok4, c4, node_buckets) \<Rightarrow>
        if \<not> ok4 then None
        else case buckets_init (c4\<lparr>ic_node_buckets := node_buckets\<rparr>) (ic_symbol_buckets c4) 128 of (ok5, c5, symbol_buckets) \<Rightarrow>
        if \<not> ok5 then None else Some (c5\<lparr>ic_symbol_buckets := symbol_buckets\<rparr>))"

text \<open>
  \<open>phy_ir_context_destroy\<close>: every pool is released; the record that is freed last is returned
  with what its books then say. The observer it calls first sees the context and changes nothing.
\<close>

definition phy_ir_context_destroy :: "phy_ir_context \<Rightarrow> phy_ir_context" where
  "phy_ir_context_destroy c =
     (let c1 = fst (phy_ir_pool_release c (ic_nodes c) sizeof_ir_node);
          c2 = fst (phy_ir_pool_release c1 (ic_children c) sizeof_ir_ref);
          c3 = fst (phy_ir_pool_release c2 (ic_rationals c) sizeof_ir_rat);
          c4 = fst (phy_ir_pool_release c3 (ic_big_exacts c) sizeof_ir_big_exact);
          c5 = fst (phy_ir_pool_release c4 (ic_exact_text c) 1);
          c6 = fst (phy_ir_pool_release c5 (ic_symbols c) sizeof_ir_symbol_record);
          c7 = fst (phy_ir_pool_release c6 (ic_strings c) 1);
          c8 = fst (phy_ir_pool_release c7 (ic_symmetries c) sizeof_ir_symmetry_record);
          c9 = fst (phy_ir_pool_release c8 (ic_node_buckets c) sizeof_ir_ref);
          c10 = fst (phy_ir_pool_release c9 (ic_symbol_buckets c) sizeof_ir_ref);
          c11 = fst (phy_ir_pool_release c10 (ic_scratch c) sizeof_ir_ref)
      in c11\<lparr>ic_nodes := empty_pool, ic_children := empty_pool, ic_rationals := empty_pool, ic_big_exacts := empty_pool,
           ic_exact_text := empty_pool, ic_symbols := empty_pool, ic_strings := empty_pool, ic_symmetries := empty_pool,
           ic_node_buckets := empty_pool, ic_symbol_buckets := empty_pool, ic_scratch := empty_pool\<rparr>)"

end
