(* ===== verification/IrSymbols.thy ===== *)
theory IrSymbols
  imports IrModel
begin

text \<open>
  Symbols of the expression graph (\<open>src/ir/ir.c\<close>): the intern table of names, assumptions,
  and declared slot symmetries.
\<close>

section \<open>Bucket chains\<close>

text \<open>\<open>hash & (count - 1)\<close>.\<close>

definition bucket_slot :: "u32 \<Rightarrow> nat \<Rightarrow> nat" where
  "bucket_slot hash buckets = and (unat hash) (buckets - 1)"

text \<open>
  The lookup loop over a linked chain: the first handle that matches, zero at the end of the
  chain. No value means that the loop does not end.
\<close>

partial_function (option) find_in_chain :: "(nat \<Rightarrow> bool) \<Rightarrow> (nat \<Rightarrow> nat) \<Rightarrow> nat \<Rightarrow> nat option" where
  "find_in_chain matches link at =
     (if at = 0 then Some 0 else if matches at then Some at else find_in_chain matches link (link at))"

text \<open>The loop of both rehash functions: every record is filed at the head of its new chain.\<close>

definition refile ::
  "('a \<Rightarrow> u32) \<Rightarrow> (nat \<Rightarrow> 'a \<Rightarrow> 'a) \<Rightarrow> 'a list \<times> nat list \<Rightarrow> 'a list \<times> nat list" where
  "refile hash set_next st =
     fold (\<lambda>i (records, table).
       let slot = bucket_slot (hash (records ! i)) (length table)
       in (records[i := set_next (table ! slot) (records ! i)], table[slot := i])) [1..<length (fst st)] st"

section \<open>Names\<close>

abbreviation symbol_record :: "phy_ir_context \<Rightarrow> nat \<Rightarrow> phy_ir_symbol_record" where
  "symbol_record c s \<equiv> pl_data (ic_symbols c) ! s"

definition symbol_rehash :: "phy_ir_context \<Rightarrow> phy_ir_context" where
  "symbol_rehash c =
     (let buckets = pl_count (ic_symbol_buckets c) in
      if pl_count (ic_symbols c) \<le> buckets - buckets div 4 then c
      else case buckets_init c empty_pool (buckets * 2) of (ok, c1, grown) \<Rightarrow>
      if \<not> ok then c1\<lparr>ic_error := ic_error c\<rparr>
      else case refile sy_hash (\<lambda>n r. r\<lparr>sy_next := n\<rparr>) (pl_data (ic_symbols c1), pl_data grown) of (records, table) \<Rightarrow>
      case phy_ir_pool_release c1 (ic_symbol_buckets c1) sizeof_ir_ref of (c2, _) \<Rightarrow>
      c2\<lparr>ic_symbols := (ic_symbols c2)\<lparr>pl_data := records\<rparr>, ic_symbol_buckets := grown\<lparr>pl_data := table\<rparr>\<rparr>)"

text \<open>\<open>phy_ir_intern_n\<close>: \<open>name\<close> is the run of \<open>length\<close> bytes; the handle zero is the failure.\<close>

definition phy_ir_intern_n :: "phy_ir_context \<Rightarrow> string \<Rightarrow> (nat \<times> phy_ir_context) option" where
  "phy_ir_intern_n c name =
     (if name = [] \<or> 4294967295 < length name then Some (0, phy_ir_set_error c PHY_ERR_INVALID_ARGUMENT)
      else
        let hash = hash_bytes FNV_OFFSET (text_bytes name);
            slot = bucket_slot hash (pl_count (ic_symbol_buckets c)) in
        case find_in_chain
          (\<lambda>s. sy_hash (symbol_record c s) = hash \<and> sy_length (symbol_record c s) = length name \<and>
             array_slice (sy_offset (symbol_record c s)) (length name) (pl_data (ic_strings c)) = name)
          (\<lambda>s. sy_next (symbol_record c s)) (pl_data (ic_symbol_buckets c) ! slot) of
          None \<Rightarrow> None
        | Some found \<Rightarrow>
          if found \<noteq> 0 then Some (found, c)
          else case phy_ir_pool_reserve c (ic_strings c) 1 ((pl_count (ic_strings c) + length name + 1) mod (SIZE_MAX + 1)) of (ok, c1, strings) \<Rightarrow>
          if \<not> ok then Some (0, c1)
          else
            let name_offset = pl_count strings;
                c2 = c1\<lparr>ic_strings := strings\<lparr>pl_data := pl_data strings @ name @ [CHR 0x00]\<rparr>\<rparr>;
                record = \<lparr>sy_offset = name_offset, sy_length = length name, sy_hash = hash, sy_assumptions = 0,
                  sy_symmetry_head = 0, sy_next = pl_data (ic_symbol_buckets c2) ! slot\<rparr> in
            case pool_push c2 (ic_symbols c2) sizeof_ir_symbol_record record of (index, c3, symbols) \<Rightarrow>
            (case index of
               None \<Rightarrow> Some (0, c3\<lparr>ic_strings := (ic_strings c3)\<lparr>pl_data := take name_offset (pl_data (ic_strings c3))\<rparr>\<rparr>)
             | Some i \<Rightarrow> Some (i, symbol_rehash (c3\<lparr>ic_symbols := symbols,
                 ic_symbol_buckets := (ic_symbol_buckets c3)\<lparr>pl_data := (pl_data (ic_symbol_buckets c3))[slot := i]\<rparr>\<rparr>))))"

text \<open>A string argument ends at its first zero byte.\<close>

definition c_string :: "string \<Rightarrow> string" where
  "c_string s = takeWhile (\<lambda>ch. ch \<noteq> CHR 0x00) s"

definition phy_ir_intern :: "phy_ir_context \<Rightarrow> string option \<Rightarrow> (nat \<times> phy_ir_context) option" where
  "phy_ir_intern c name =
     (case name of None \<Rightarrow> Some (0, phy_ir_set_error c PHY_ERR_INVALID_ARGUMENT)
      | Some s \<Rightarrow> phy_ir_intern_n c (c_string s))"

definition phy_ir_symbol_name :: "phy_ir_context \<Rightarrow> nat \<Rightarrow> string option" where
  "phy_ir_symbol_name c s =
     (case phy_ir_symbol_at c s of None \<Rightarrow> None
      | Some record \<Rightarrow> Some (c_string (drop (sy_offset record) (pl_data (ic_strings c)))))"

section \<open>Assumptions and symmetries\<close>

definition PHY_IR_ASSUME_POSITIVE :: u32 where
  "PHY_IR_ASSUME_POSITIVE = 2"

definition PHY_IR_ASSUME_NEGATIVE :: u32 where
  "PHY_IR_ASSUME_NEGATIVE = 4"

text \<open>The union of the seven flags.\<close>

definition PHY_IR_ASSUME_ALL :: u32 where
  "PHY_IR_ASSUME_ALL = 127"

abbreviation update_symbol :: "phy_ir_context \<Rightarrow> nat \<Rightarrow> (phy_ir_symbol_record \<Rightarrow> phy_ir_symbol_record) \<Rightarrow> phy_ir_context" where
  "update_symbol c s f \<equiv> c\<lparr>ic_symbols := (ic_symbols c)\<lparr>pl_data := (pl_data (ic_symbols c))[s := f (symbol_record c s)]\<rparr>\<rparr>"

definition phy_ir_assume :: "phy_ir_context \<Rightarrow> nat \<Rightarrow> u32 \<Rightarrow> phy_status \<times> phy_ir_context" where
  "phy_ir_assume c s assumptions =
     (if phy_ir_symbol_at c s = None \<or> and assumptions (not PHY_IR_ASSUME_ALL) \<noteq> 0
      then (PHY_ERR_INVALID_ARGUMENT, phy_ir_set_error c PHY_ERR_INVALID_ARGUMENT)
      else
        let merged = or (sy_assumptions (symbol_record c s)) assumptions in
        if and merged PHY_IR_ASSUME_POSITIVE \<noteq> 0 \<and> and merged PHY_IR_ASSUME_NEGATIVE \<noteq> 0
        then (PHY_ERR_ASSUMPTION, phy_ir_set_error c PHY_ERR_ASSUMPTION)
        else (PHY_OK, update_symbol c s (\<lambda>r. r\<lparr>sy_assumptions := merged\<rparr>)))"

definition phy_ir_assumptions :: "phy_ir_context \<Rightarrow> nat \<Rightarrow> u32" where
  "phy_ir_assumptions c s = (case phy_ir_symbol_at c s of None \<Rightarrow> 0 | Some record \<Rightarrow> sy_assumptions record)"

abbreviation symmetry_record :: "phy_ir_context \<Rightarrow> nat \<Rightarrow> phy_ir_symmetry_record" where
  "symmetry_record c at \<equiv> pl_data (ic_symmetries c) ! at"

text \<open>The walk over the symmetry list of a symbol, to the record of a pair of slots.\<close>

definition find_symmetry :: "phy_ir_context \<Rightarrow> nat \<Rightarrow> nat \<Rightarrow> nat \<Rightarrow> nat option" where
  "find_symmetry c head low high =
     find_in_chain (\<lambda>at. sm_slot_a (symmetry_record c at) = low \<and> sm_slot_b (symmetry_record c at) = high)
       (\<lambda>at. sm_next (symmetry_record c at)) head"

definition phy_ir_declare_symmetry ::
  "phy_ir_context \<Rightarrow> nat \<Rightarrow> nat \<Rightarrow> nat \<Rightarrow> phy_ir_symmetry \<Rightarrow> (phy_status \<times> phy_ir_context) option" where
  "phy_ir_declare_symmetry c s slot_a slot_b symmetry =
     (if phy_ir_symbol_at c s = None \<or> slot_a = slot_b \<or> symmetry = PHY_IR_SYMMETRY_NONE
      then Some (PHY_ERR_INVALID_ARGUMENT, phy_ir_set_error c PHY_ERR_INVALID_ARGUMENT)
      else
        let low = (if slot_a < slot_b then slot_a else slot_b);
            high = (if slot_a < slot_b then slot_b else slot_a) in
        case find_symmetry c (sy_symmetry_head (symbol_record c s)) low high of
          None \<Rightarrow> None
        | Some at \<Rightarrow>
          if at \<noteq> 0 then
            (if sm_symmetry (symmetry_record c at) = symmetry then Some (PHY_OK, c)
             else Some (PHY_ERR_ASSUMPTION, phy_ir_set_error c PHY_ERR_ASSUMPTION))
          else
            let record = \<lparr>sm_slot_a = low, sm_slot_b = high, sm_next = sy_symmetry_head (symbol_record c s), sm_symmetry = symmetry\<rparr> in
            case pool_push c (ic_symmetries c) sizeof_ir_symmetry_record record of (index, c1, symmetries) \<Rightarrow>
            (case index of
               None \<Rightarrow> Some (ic_error c1, c1)
             | Some i \<Rightarrow> Some (PHY_OK, update_symbol (c1\<lparr>ic_symmetries := symmetries\<rparr>) s (\<lambda>r. r\<lparr>sy_symmetry_head := i\<rparr>))))"

definition phy_ir_slot_symmetry :: "phy_ir_context \<Rightarrow> nat \<Rightarrow> nat \<Rightarrow> nat \<Rightarrow> phy_ir_symmetry option" where
  "phy_ir_slot_symmetry c s slot_a slot_b =
     (case phy_ir_symbol_at c s of None \<Rightarrow> Some PHY_IR_SYMMETRY_NONE
      | Some record \<Rightarrow>
        if slot_a = slot_b then Some PHY_IR_SYMMETRY_NONE
        else
          let low = (if slot_a < slot_b then slot_a else slot_b);
              high = (if slot_a < slot_b then slot_b else slot_a) in
          case find_symmetry c (sy_symmetry_head record) low high of
            None \<Rightarrow> None
          | Some at \<Rightarrow> Some (if at \<noteq> 0 then sm_symmetry (symmetry_record c at) else PHY_IR_SYMMETRY_NONE))"

end
