(* ===== verification/IrOrder.thy ===== *)
theory IrOrder
  imports IrModel
begin

text \<open>
  The canonical order of the expression graph (\<open>src/ir/order.c\<close>) and the decimal view of exact
  atoms it reads (\<open>src/ir/ir.c\<close>): three-way comparison of two handles, and heapsort.
\<close>

section \<open>Numbers\<close>

text \<open>\<open>magnitude\<close>, the same in both files: unsigned negation.\<close>

definition ir_magnitude :: "int \<Rightarrow> u64" where
  "ir_magnitude v = (if v < 0 then not (word_of_int v) + 1 else word_of_int v)"

definition ordered_real_key :: "u64 \<Rightarrow> u64" where
  "ordered_real_key bits = (if and bits 0x8000000000000000 \<noteq> 0 then not bits else xor bits 0x8000000000000000)"

text \<open>The high and the low word of a product.\<close>

definition umul64 :: "u64 \<Rightarrow> u64 \<Rightarrow> u64 \<times> u64" where
  "umul64 a b =
     (let a_low = and a 0xffffffff; a_high = drop_bit 32 a;
          b_low = and b 0xffffffff; b_high = drop_bit 32 b;
          low_low = a_low * b_low; low_high = a_low * b_high;
          high_low = a_high * b_low; high_high = a_high * b_high;
          middle = drop_bit 32 low_low + and low_high 0xffffffff + and high_low 0xffffffff
      in (high_high + drop_bit 32 low_high + drop_bit 32 high_low + drop_bit 32 middle,
          or (and low_low 0xffffffff) (push_bit 32 middle)))"

definition compare_exact :: "int \<Rightarrow> int \<Rightarrow> int \<Rightarrow> int \<Rightarrow> int" where
  "compare_exact an ad bn bd =
     (let sign_a = (if 0 < an then 1 else 0) - (if an < 0 then 1 else (0 :: int));
          sign_b = (if 0 < bn then 1 else 0) - (if bn < 0 then 1 else 0) in
      if sign_a \<noteq> sign_b then (if sign_a < sign_b then - 1 else 1)
      else if sign_a = 0 then 0
      else case umul64 (ir_magnitude an) (word_of_int bd) of (left_high, left_low) \<Rightarrow>
      case umul64 (ir_magnitude bn) (word_of_int ad) of (right_high, right_low) \<Rightarrow>
      let result =
        (if left_high \<noteq> right_high then (if left_high < right_high then - 1 else 1)
         else if left_low \<noteq> right_low then (if left_low < right_low then - 1 else 1) else 0)
      in if 0 < sign_a then result else - result)"

definition exact_value :: "phy_ir_context \<Rightarrow> phy_ir_node \<Rightarrow> int \<times> int" where
  "exact_value c node =
     (if nd_kind node = PHY_IR_INTEGER then (nd_integer node, 1)
      else case phy_ir_rat_at c (nd_rational_index node) of None \<Rightarrow> (0, 1) | Some r \<Rightarrow> (rt_num r, rt_den r))"

section \<open>Decimal views\<close>

text \<open>The digit loop of \<open>write_i64_decimal\<close>; it produces the digits in reverse.\<close>

function reverse_digits :: "nat \<Rightarrow> string" where
  "reverse_digits magnitude =
     char_of (48 + magnitude mod 10) # (if magnitude div 10 = 0 then [] else reverse_digits (magnitude div 10))"
  by pat_completeness auto
termination
  by (relation "measure id") auto

declare reverse_digits.simps [simp del]

definition write_i64_decimal :: "int \<Rightarrow> string" where
  "write_i64_decimal v = (if v < 0 then ''-'' else '''') @ rev (reverse_digits (unat (ir_magnitude v)))"

text \<open>Numerator and denominator text; \<open>None\<close> where the function returns false.\<close>

definition phy_ir_exact_decimal_view :: "phy_ir_context \<Rightarrow> nat \<Rightarrow> (string \<times> string) option" where
  "phy_ir_exact_decimal_view c ref =
     (case phy_ir_node_at c ref of None \<Rightarrow> None
      | Some node \<Rightarrow>
        if nd_kind node \<noteq> PHY_IR_INTEGER \<and> nd_kind node \<noteq> PHY_IR_RATIONAL then None
        else if nd_aux node = PHY_IR_EXACT_BIG then
          (case phy_ir_big_exact_at c (nd_rational_index node) of None \<Rightarrow> None
           | Some exact \<Rightarrow>
             let text = pl_data (ic_exact_text c) in
             if length text < be_num_offset exact + be_num_length exact \<or> length text < be_den_offset exact + be_den_length exact
             then None
             else Some (array_slice (be_num_offset exact) (be_num_length exact) text,
               if be_den_length exact = 0 then ''1'' else array_slice (be_den_offset exact) (be_den_length exact) text))
        else if nd_kind node = PHY_IR_INTEGER then Some (write_i64_decimal (nd_integer node), write_i64_decimal 1)
        else
          (case phy_ir_rat_at c (nd_rational_index node) of None \<Rightarrow> None
           | Some r \<Rightarrow> Some (write_i64_decimal (rt_num r), write_i64_decimal (rt_den r))))"

section \<open>Comparison\<close>

text \<open>\<open>memcmp\<close> on two runs of the same length: the sign of the first difference, as bytes.\<close>

fun memcmp :: "string \<Rightarrow> string \<Rightarrow> int" where
  "memcmp (x # xs) (y # ys) =
     (if x = y then memcmp xs ys else if (of_char x :: nat) < of_char y then - 1 else 1)"
| "memcmp [] ys = 0"
| "memcmp xs [] = 0"

definition compare_decimal_magnitude :: "string \<Rightarrow> string \<Rightarrow> int" where
  "compare_decimal_magnitude left right =
     (if length left \<noteq> length right then (if length left < length right then - 1 else 1) else memcmp left right)"

definition leading_minus :: "string \<Rightarrow> bool" where
  "leading_minus s \<longleftrightarrow> s \<noteq> [] \<and> hd s = CHR ''-''"

definition compare_big_exact :: "phy_ir_context \<Rightarrow> nat \<Rightarrow> nat \<Rightarrow> int" where
  "compare_big_exact c left right =
     (case phy_ir_exact_decimal_view c left of None \<Rightarrow> 0
      | Some (an, ad) \<Rightarrow>
      (case phy_ir_exact_decimal_view c right of None \<Rightarrow> 0
       | Some (bn, bd) \<Rightarrow>
         let negative_a = leading_minus an; negative_b = leading_minus bn in
         if negative_a \<noteq> negative_b then (if negative_a then - 1 else 1)
         else
           let ordered = compare_decimal_magnitude (drop (if negative_a then 1 else 0) an) (drop (if negative_b then 1 else 0) bn) in
           if ordered \<noteq> 0 then (if negative_a then - ordered else ordered)
           else let ordered = compare_decimal_magnitude ad bd in if negative_a then ordered else - ordered))"

definition compare_names :: "phy_ir_context \<Rightarrow> nat \<Rightarrow> nat \<Rightarrow> int" where
  "compare_names c a b =
     (if a = b then 0
      else case phy_ir_symbol_at c a of
        None \<Rightarrow> (case phy_ir_symbol_at c b of None \<Rightarrow> 0 | Some _ \<Rightarrow> - 1)
      | Some ra \<Rightarrow>
        (case phy_ir_symbol_at c b of None \<Rightarrow> 1
         | Some rb \<Rightarrow>
           let strings = pl_data (ic_strings c);
               shortest = (if sy_length ra < sy_length rb then sy_length ra else sy_length rb);
               ordered = memcmp (array_slice (sy_offset ra) shortest strings) (array_slice (sy_offset rb) shortest strings) in
           if ordered \<noteq> 0 then (if ordered < 0 then - 1 else 1)
           else if sy_length ra = sy_length rb then 0
           else if sy_length ra < sy_length rb then - 1 else 1))"

text \<open>The exact numbers: promoted atoms are a separate structural order outside the inline ones.\<close>

definition compare_numbers :: "phy_ir_context \<Rightarrow> nat \<Rightarrow> phy_ir_node \<Rightarrow> nat \<Rightarrow> phy_ir_node \<Rightarrow> int" where
  "compare_numbers c a na b nb =
     (let big_a = nd_aux na = PHY_IR_EXACT_BIG; big_b = nd_aux nb = PHY_IR_EXACT_BIG in
      if big_a \<noteq> big_b then
        (case phy_ir_exact_decimal_view c a of None \<Rightarrow> (if big_a then 1 else - 1)
         | Some (an, _) \<Rightarrow>
         (case phy_ir_exact_decimal_view c b of None \<Rightarrow> (if big_a then 1 else - 1)
          | Some (bn, _) \<Rightarrow>
            let negative_a = leading_minus an; negative_b = leading_minus bn in
            if negative_a \<noteq> negative_b then (if negative_a then - 1 else 1)
            else if negative_a then (if big_a then - 1 else 1)
            else if big_a then 1 else - 1))
      else if big_a then compare_big_exact c a b
      else case exact_value c na of (an, ad) \<Rightarrow> case exact_value c nb of (bn, bd) \<Rightarrow> compare_exact an ad bn bd)"

text \<open>The loop over the children, up to the first difference.\<close>

fun compare_children :: "(nat \<Rightarrow> nat \<Rightarrow> int option) \<Rightarrow> nat list \<Rightarrow> nat list \<Rightarrow> int option" where
  "compare_children cmp (x # xs) (y # ys) =
     (case cmp x y of None \<Rightarrow> None
      | Some ordered \<Rightarrow> if ordered \<noteq> 0 then Some ordered else compare_children cmp xs ys)"
| "compare_children cmp [] ys = Some 0"
| "compare_children cmp xs [] = Some 0"

text \<open>
  \<open>phy_ir_compare\<close> recurses once per level. Its first argument here is the number of levels it
  may still go down; no value means that they are used up.
\<close>

fun compare_refs :: "nat \<Rightarrow> phy_ir_context \<Rightarrow> nat \<Rightarrow> nat \<Rightarrow> int option" where
  "compare_refs 0 c a b = None"
| "compare_refs (Suc levels) c a b =
     (if a = b then Some 0
      else case phy_ir_node_at c a of
        None \<Rightarrow> Some (case phy_ir_node_at c b of None \<Rightarrow> 0 | Some _ \<Rightarrow> - 1)
      | Some na \<Rightarrow>
        (case phy_ir_node_at c b of None \<Rightarrow> Some 1
         | Some nb \<Rightarrow>
           if phy_ir_kind_rank (nd_kind na) \<noteq> phy_ir_kind_rank (nd_kind nb)
           then Some (if phy_ir_kind_rank (nd_kind na) < phy_ir_kind_rank (nd_kind nb) then - 1 else 1)
           else if nd_kind na = PHY_IR_INTEGER \<or> nd_kind na = PHY_IR_RATIONAL then Some (compare_numbers c a na b nb)
           else if nd_kind na = PHY_IR_REAL then
             (let key_a = ordered_real_key (nd_real na); key_b = ordered_real_key (nd_real nb) in
              Some ((if key_b < key_a then 1 else 0) - (if key_a < key_b then 1 else 0)))
           else if nd_kind na = PHY_IR_SYMBOL then Some (compare_names c (nd_head na) (nd_head nb))
           else if nd_kind na = PHY_IR_INDEX then
             (let by_name = compare_names c (nd_head na) (nd_head nb) in
              if by_name \<noteq> 0 then Some by_name
              else if nd_aux na \<noteq> nd_aux nb then Some (if nd_aux na < nd_aux nb then - 1 else 1)
              else Some (compare_names c (nd_index_space na) (nd_index_space nb)))
           else if nd_kind na = PHY_IR_ERROR then Some (if nd_aux na < nd_aux nb then - 1 else 1)
           else if nd_kind na \<noteq> nd_kind nb then Some (if kind_code (nd_kind na) < kind_code (nd_kind nb) then - 1 else 1)
           else
             let by_name = (if nd_head na \<noteq> nd_head nb then compare_names c (nd_head na) (nd_head nb) else 0) in
             if by_name \<noteq> 0 then Some by_name
             else if nd_child_count na \<noteq> nd_child_count nb then Some (if nd_child_count na < nd_child_count nb then - 1 else 1)
             else compare_children (compare_refs levels c) (phy_ir_children_of c na) (phy_ir_children_of c nb)))"

text \<open>The stack of the target holds as many levels as the depth ceiling of the graph.\<close>

definition phy_ir_compare :: "phy_ir_context \<Rightarrow> nat \<Rightarrow> nat \<Rightarrow> int option" where
  "phy_ir_compare c a b = compare_refs PHY_IR_MAX_DEPTH_CEILING c a b"

section \<open>Heapsort\<close>

definition swap_at :: "'a list \<Rightarrow> nat \<Rightarrow> nat \<Rightarrow> 'a list" where
  "swap_at xs i j = xs[i := xs ! j, j := xs ! i]"

function sift_down :: "('a \<Rightarrow> 'a \<Rightarrow> int option) \<Rightarrow> 'a list \<Rightarrow> nat \<Rightarrow> nat \<Rightarrow> 'a list option" where
  "sift_down cmp refs root count =
     (let left = 2 * root + 1; right = left + 1 in
      case (if left < count then cmp (refs ! left) (refs ! root) else Some 0) of None \<Rightarrow> None
      | Some x \<Rightarrow>
      let largest = (if 0 < x then left else root) in
      case (if right < count then cmp (refs ! right) (refs ! largest) else Some 0) of None \<Rightarrow> None
      | Some y \<Rightarrow>
      let largest = (if 0 < y then right else largest) in
      if largest = root then Some refs else sift_down cmp (swap_at refs root largest) largest count)"
  by pat_completeness auto
termination
  by (relation "measure (\<lambda>(cmp, refs, root, count). count - root)") (auto split: if_splits)

declare sift_down.simps [simp del]

text \<open>The loop that builds the heap: \<open>for (i = count / 2; i > 0; i--) sift_down(i - 1)\<close>.\<close>

fun build_heap :: "('a \<Rightarrow> 'a \<Rightarrow> int option) \<Rightarrow> 'a list \<Rightarrow> nat \<Rightarrow> 'a list option" where
  "build_heap cmp refs 0 = Some refs"
| "build_heap cmp refs (Suc i) =
     (case sift_down cmp refs i (length refs) of None \<Rightarrow> None | Some refs1 \<Rightarrow> build_heap cmp refs1 i)"

text \<open>The loop that empties it: \<open>for (end = count - 1; end > 0; end--)\<close>.\<close>

fun drain_heap :: "('a \<Rightarrow> 'a \<Rightarrow> int option) \<Rightarrow> 'a list \<Rightarrow> nat \<Rightarrow> 'a list option" where
  "drain_heap cmp refs 0 = Some refs"
| "drain_heap cmp refs (Suc e) =
     (case sift_down cmp (swap_at refs 0 (Suc e)) 0 (Suc e) of None \<Rightarrow> None | Some refs1 \<Rightarrow> drain_heap cmp refs1 e)"

definition heapsort_by :: "('a \<Rightarrow> 'a \<Rightarrow> int option) \<Rightarrow> 'a list \<Rightarrow> 'a list option" where
  "heapsort_by cmp refs =
     (if length refs < 2 then Some refs
      else case build_heap cmp refs (length refs div 2) of None \<Rightarrow> None
      | Some refs1 \<Rightarrow> drain_heap cmp refs1 (length refs - 1))"

definition phy_ir_sort_refs :: "phy_ir_context \<Rightarrow> nat list \<Rightarrow> nat list option" where
  "phy_ir_sort_refs c refs = heapsort_by (phy_ir_compare c) refs"

end
