(* ===== verification/IrBuild.thy ===== *)
theory IrBuild
  imports IrSymbols IrOrder
begin

text \<open>
  Construction of the expression graph (\<open>src/ir/ir.c\<close>): interning of nodes, the builders of
  atoms and of compounds, and the accessors. A builder returns the handle, zero on a failure;
  no value at all would mean that a loop or the comparison did not end.
\<close>

type_synonym built = "(nat \<times> phy_ir_context) option"

section \<open>Interning\<close>

record big_exact_proto =
  bp_num :: string
  bp_den :: string

abbreviation node_at :: "phy_ir_context \<Rightarrow> nat \<Rightarrow> phy_ir_node" where
  "node_at c ref \<equiv> pl_data (ic_nodes c) ! ref"

definition node_rehash :: "phy_ir_context \<Rightarrow> phy_ir_context" where
  "node_rehash c =
     (let buckets = pl_count (ic_node_buckets c) in
      if pl_count (ic_nodes c) \<le> buckets - buckets div 4 then c
      else case buckets_init c empty_pool (buckets * 2) of (ok, c1, grown) \<Rightarrow>
      if \<not> ok then c1\<lparr>ic_error := ic_error c\<rparr>
      else case refile nd_hash (\<lambda>n r. r\<lparr>nd_next := n\<rparr>) (pl_data (ic_nodes c1), pl_data grown) of (nodes, table) \<Rightarrow>
      case phy_ir_pool_release c1 (ic_node_buckets c1) sizeof_ir_ref of (c2, _) \<Rightarrow>
      c2\<lparr>ic_nodes := (ic_nodes c2)\<lparr>pl_data := nodes\<rparr>, ic_node_buckets := grown\<lparr>pl_data := table\<rparr>\<rparr>)"

definition same_payload ::
  "phy_ir_context \<Rightarrow> phy_ir_node \<Rightarrow> phy_ir_node \<Rightarrow> nat list \<Rightarrow> phy_ir_rat option \<Rightarrow> big_exact_proto option \<Rightarrow> bool" where
  "same_payload c stored proto children rat big \<longleftrightarrow>
     nd_kind stored = nd_kind proto \<and> nd_aux stored = nd_aux proto \<and> nd_head stored = nd_head proto \<and>
     nd_child_count stored = nd_child_count proto \<and>
     (if nd_kind stored = PHY_IR_INTEGER then
        (if nd_aux stored = PHY_IR_EXACT_BIG then
           (case (phy_ir_big_exact_at c (nd_rational_index stored), big) of
              (Some held, Some b) \<Rightarrow> be_den_length held = 0 \<and> be_num_length held = length (bp_num b) \<and>
                array_slice (be_num_offset held) (length (bp_num b)) (pl_data (ic_exact_text c)) = bp_num b
            | _ \<Rightarrow> False)
         else nd_integer stored = nd_integer proto)
      else if nd_kind stored = PHY_IR_REAL then nd_real stored = nd_real proto
      else if nd_kind stored = PHY_IR_RATIONAL then
        (if nd_aux stored = PHY_IR_EXACT_BIG then
           (case (phy_ir_big_exact_at c (nd_rational_index stored), big) of
              (Some held, Some b) \<Rightarrow> be_num_length held = length (bp_num b) \<and> be_den_length held = length (bp_den b) \<and>
                array_slice (be_num_offset held) (length (bp_num b)) (pl_data (ic_exact_text c)) = bp_num b \<and>
                array_slice (be_den_offset held) (length (bp_den b)) (pl_data (ic_exact_text c)) = bp_den b
            | _ \<Rightarrow> False)
         else
           (case (phy_ir_rat_at c (nd_rational_index stored), rat) of
              (Some held, Some r) \<Rightarrow> rt_num held = rt_num r \<and> rt_den held = rt_den r
            | _ \<Rightarrow> False))
      else if nd_kind stored = PHY_IR_INDEX then nd_index_space stored = nd_index_space proto
      else nd_child_count stored = 0 \<or>
        array_slice (nd_child_offset stored) (nd_child_count stored) (pl_data (ic_children c)) = take (nd_child_count stored) children)"

text \<open>
  Where the payload that does not fit the node goes, before the node exists: \<open>None\<close> if it could
  not be stored, with the counts put back.
\<close>

definition store_payload ::
  "phy_ir_context \<Rightarrow> phy_ir_node \<Rightarrow> nat list \<Rightarrow> phy_ir_rat option \<Rightarrow> big_exact_proto option \<Rightarrow> phy_ir_node option \<times> phy_ir_context" where
  "store_payload c proto children rat big =
     (case big of
        Some b \<Rightarrow>
          let text_bytes = (length (bp_num b) + length (bp_den b)) mod (SIZE_MAX + 1) in
          if length (bp_num b) = 0 \<or> 4294967295 < length (bp_num b) \<or> 4294967295 < length (bp_den b) \<or>
             text_bytes < length (bp_num b) \<or> 4294967295 < text_bytes \<or> 4294967295 - text_bytes < pl_count (ic_exact_text c)
          then (None, c)
          else (case phy_ir_pool_reserve c (ic_exact_text c) 1 (pl_count (ic_exact_text c) + text_bytes) of (ok, c1, text) \<Rightarrow>
          if \<not> ok then (None, c1)
          else
            let mark = pl_count text;
                record = \<lparr>be_num_offset = mark, be_num_length = length (bp_num b),
                  be_den_offset = mark + length (bp_num b), be_den_length = length (bp_den b)\<rparr>;
                c2 = c1\<lparr>ic_exact_text := text\<lparr>pl_data := pl_data text @ bp_num b @ bp_den b\<rparr>\<rparr> in
            case pool_push c2 (ic_big_exacts c2) sizeof_ir_big_exact record of (index, c3, bigs) \<Rightarrow>
            (case index of
               None \<Rightarrow> (None, c3\<lparr>ic_exact_text := (ic_exact_text c3)\<lparr>pl_data := take mark (pl_data (ic_exact_text c3))\<rparr>\<rparr>)
             | Some i \<Rightarrow> (Some (proto\<lparr>nd_rational_index := i\<rparr>), c3\<lparr>ic_big_exacts := bigs\<rparr>)))
      | None \<Rightarrow>
        (case rat of
           Some r \<Rightarrow>
             (case pool_push c (ic_rationals c) sizeof_ir_rat r of (index, c1, rationals) \<Rightarrow>
              (case index of
                 None \<Rightarrow> (None, c1)
               | Some i \<Rightarrow> (Some (proto\<lparr>nd_rational_index := i\<rparr>), c1\<lparr>ic_rationals := rationals\<rparr>)))
         | None \<Rightarrow>
           if nd_child_count proto = 0 then (Some proto, c)
           else (case phy_ir_pool_reserve c (ic_children c) sizeof_ir_ref (pl_count (ic_children c) + nd_child_count proto) of (ok, c1, pool) \<Rightarrow>
             if \<not> ok then (None, c1)
             else (Some (proto\<lparr>nd_child_offset := pl_count pool\<rparr>),
               c1\<lparr>ic_children := pool\<lparr>pl_data := pl_data pool @ take (nd_child_count proto) children\<rparr>\<rparr>))))"

text \<open>The counts of the payload pools put back to marks taken before.\<close>

definition unwind_payload :: "phy_ir_context \<Rightarrow> phy_ir_context \<Rightarrow> phy_ir_context" where
  "unwind_payload marks c =
     c\<lparr>ic_rationals := (ic_rationals c)\<lparr>pl_data := take (pl_count (ic_rationals marks)) (pl_data (ic_rationals c))\<rparr>,
       ic_big_exacts := (ic_big_exacts c)\<lparr>pl_data := take (pl_count (ic_big_exacts marks)) (pl_data (ic_big_exacts c))\<rparr>,
       ic_exact_text := (ic_exact_text c)\<lparr>pl_data := take (pl_count (ic_exact_text marks)) (pl_data (ic_exact_text c))\<rparr>,
       ic_children := (ic_children c)\<lparr>pl_data := take (pl_count (ic_children marks)) (pl_data (ic_children c))\<rparr>\<rparr>"

definition intern_node ::
  "phy_ir_context \<Rightarrow> phy_ir_node \<Rightarrow> nat list \<Rightarrow> phy_ir_rat option \<Rightarrow> big_exact_proto option \<Rightarrow> built" where
  "intern_node c proto children rat big =
     (let slot = bucket_slot (nd_hash proto) (pl_count (ic_node_buckets c)) in
      case find_in_chain (\<lambda>ref. nd_hash (node_at c ref) = nd_hash proto \<and> same_payload c (node_at c ref) proto children rat big)
        (\<lambda>ref. nd_next (node_at c ref)) (pl_data (ic_node_buckets c) ! slot) of
        None \<Rightarrow> None
      | Some found \<Rightarrow>
        if found \<noteq> 0 then Some (found, c)
        else if il_nodes (ic_limits c) \<le> phy_ir_node_count c then Some (0, phy_ir_set_error c PHY_ERR_NODE_LIMIT)
        else case store_payload c proto children rat big of (stored, c1) \<Rightarrow>
        (case stored of
           None \<Rightarrow> Some (0, c1)
         | Some node \<Rightarrow>
           (case pool_push c1 (ic_nodes c1) sizeof_ir_node (node\<lparr>nd_next := pl_data (ic_node_buckets c1) ! slot\<rparr>) of (index, c2, nodes) \<Rightarrow>
            (case index of
               None \<Rightarrow> Some (0, unwind_payload c c2)
             | Some i \<Rightarrow> Some (i, node_rehash (c2\<lparr>ic_nodes := nodes,
                 ic_node_buckets := (ic_node_buckets c2)\<lparr>pl_data := (pl_data (ic_node_buckets c2))[slot := i]\<rparr>\<rparr>))))))"

section \<open>Atoms\<close>

text \<open>A zeroed prototype of an atom.\<close>

definition atom_proto :: "phy_ir_kind \<Rightarrow> u32 \<Rightarrow> phy_ir_node" where
  "atom_proto kind hash = null_node\<lparr>nd_kind := kind, nd_depth := 1, nd_hash := hash\<rparr>"

definition phy_ir_integer :: "phy_ir_context \<Rightarrow> int \<Rightarrow> built" where
  "phy_ir_integer c v =
     intern_node c ((atom_proto PHY_IR_INTEGER (hash_bytes (hash_u32 FNV_OFFSET (kind_code PHY_IR_INTEGER)) (i64_bytes v)))
       \<lparr>nd_integer := v\<rparr>) [] None None"

function euclid_u64 :: "nat \<Rightarrow> nat \<Rightarrow> nat" where
  "euclid_u64 a b = (if b \<noteq> 0 then euclid_u64 b (a mod b) else a)"
  by pat_completeness auto
termination
  by (relation "measure snd") auto

declare euclid_u64.simps [simp del]

definition phy_ir_rational :: "phy_ir_context \<Rightarrow> int \<Rightarrow> int \<Rightarrow> built" where
  "phy_ir_rational c numerator denominator =
     (if denominator = 0 then Some (0, phy_ir_set_error c PHY_ERR_DOMAIN)
      else if numerator = 0 then phy_ir_integer c 0
      else
        let negative = (numerator < 0) \<noteq> (denominator < 0);
            n0 = unat (ir_magnitude numerator); d0 = unat (ir_magnitude denominator);
            divisor = euclid_u64 n0 d0;
            n = n0 div divisor; d = d0 div divisor;
            limit = (if negative then 2 ^ 63 - 1 + 1 else 2 ^ 63 - 1) in
        if limit < n \<or> 2 ^ 63 - 1 < d then Some (0, phy_ir_set_error c PHY_ERR_OVERFLOW)
        else
          let signed_numerator = (if negative then (if n = 2 ^ 63 - 1 + 1 then - (2 ^ 63) else - int n) else int n) in
          if d = 1 then phy_ir_integer c signed_numerator
          else intern_node c (atom_proto PHY_IR_RATIONAL (hash_bytes (hash_u32 FNV_OFFSET (kind_code PHY_IR_RATIONAL))
                 (i64_bytes signed_numerator @ i64_bytes (int d))))
               [] (Some \<lparr>rt_num = signed_numerator, rt_den = int d\<rparr>) None)"

text \<open>\<open>bits\<close> is the representation of the argument.\<close>

definition phy_ir_real :: "phy_ir_context \<Rightarrow> u64 \<Rightarrow> built" where
  "phy_ir_real c bits =
     (if and (drop_bit 52 bits) 0x7ff = 0x7ff then Some (0, phy_ir_set_error c PHY_ERR_DOMAIN)
      else
        let folded = (if bits = 0x8000000000000000 then 0 else bits) in
        intern_node c ((atom_proto PHY_IR_REAL (hash_bytes (hash_u32 FNV_OFFSET (kind_code PHY_IR_REAL)) (le_bytes 8 (unat folded))))
          \<lparr>nd_real := folded\<rparr>) [] None None)"

definition make_headed_atom :: "phy_ir_context \<Rightarrow> phy_ir_kind \<Rightarrow> nat \<Rightarrow> nat \<Rightarrow> built" where
  "make_headed_atom c kind head aux =
     (case phy_ir_symbol_at c head of
        None \<Rightarrow> Some (0, phy_ir_set_error c PHY_ERR_INVALID_ARGUMENT)
      | Some record \<Rightarrow>
        intern_node c ((atom_proto kind (hash_u32 (hash_u32 (hash_u32 FNV_OFFSET (kind_code kind)) (unat (sy_hash record))) aux))
          \<lparr>nd_aux := aux, nd_head := head\<rparr>) [] None None)"

definition phy_ir_symbol_ref :: "phy_ir_context \<Rightarrow> nat \<Rightarrow> built" where
  "phy_ir_symbol_ref c s = make_headed_atom c PHY_IR_SYMBOL s 0"

definition phy_ir_index_in_space :: "phy_ir_context \<Rightarrow> nat \<Rightarrow> phy_ir_variance \<Rightarrow> nat \<Rightarrow> built" where
  "phy_ir_index_in_space c name variance space =
     (let space_record = (if space = 0 then None else phy_ir_symbol_at c space) in
      case phy_ir_symbol_at c name of
        None \<Rightarrow> Some (0, phy_ir_set_error c PHY_ERR_INVALID_ARGUMENT)
      | Some name_record \<Rightarrow>
        if space \<noteq> 0 \<and> space_record = None then Some (0, phy_ir_set_error c PHY_ERR_INVALID_ARGUMENT)
        else
          let hash = hash_u32 (hash_u32 (hash_u32 (hash_u32 FNV_OFFSET (kind_code PHY_IR_INDEX)) (unat (sy_hash name_record)))
                (variance_code variance)) (case space_record of None \<Rightarrow> 0 | Some r \<Rightarrow> unat (sy_hash r)) in
          intern_node c ((atom_proto PHY_IR_INDEX hash)
            \<lparr>nd_aux := variance_code variance, nd_head := name, nd_index_space := space\<rparr>) [] None None)"

definition phy_ir_index :: "phy_ir_context \<Rightarrow> nat \<Rightarrow> phy_ir_variance \<Rightarrow> built" where
  "phy_ir_index c name variance = phy_ir_index_in_space c name variance 0"

definition phy_ir_error :: "phy_ir_context \<Rightarrow> phy_status \<Rightarrow> built" where
  "phy_ir_error c code =
     (if code = PHY_OK then Some (0, phy_ir_set_error c PHY_ERR_INVALID_ARGUMENT)
      else intern_node c ((atom_proto PHY_IR_ERROR (hash_u32 (hash_u32 FNV_OFFSET (kind_code PHY_IR_ERROR)) (status_code code)))
        \<lparr>nd_aux := status_code code\<rparr>) [] None None)"

section \<open>Compounds\<close>

text \<open>The loop over the operands: the deepest, or the error of a missing one.\<close>

fun deepest_operand :: "phy_ir_context \<Rightarrow> nat list \<Rightarrow> nat \<Rightarrow> nat option" where
  "deepest_operand c [] deepest = Some deepest"
| "deepest_operand c (r # rs) deepest =
     (case phy_ir_node_at c r of None \<Rightarrow> None
      | Some child \<Rightarrow> deepest_operand c rs (if deepest < nd_depth child then nd_depth child else deepest))"

text \<open>\<open>operands_ok\<close>: the depth of the parent, or the error to record.\<close>

definition operands_ok :: "phy_ir_context \<Rightarrow> nat list \<Rightarrow> phy_status + nat" where
  "operands_ok c refs =
     (if il_children (ic_limits c) < length refs then Inl PHY_ERR_TERM_LIMIT
      else case deepest_operand c refs 0 of
        None \<Rightarrow> Inl PHY_ERR_INVALID_ARGUMENT
      | Some deepest \<Rightarrow> if il_depth (ic_limits c) < deepest + 1 then Inl PHY_ERR_DEPTH_LIMIT else Inr (deepest + 1))"

definition compound_hash :: "phy_ir_context \<Rightarrow> phy_ir_kind \<Rightarrow> u32 \<Rightarrow> nat list \<Rightarrow> u32" where
  "compound_hash c kind name_hash children =
     foldl (\<lambda>hash child. hash_u32 hash (unat (nd_hash (node_at c child))))
       (hash_u32 (hash_u32 (hash_u32 FNV_OFFSET (kind_code kind)) (unat name_hash)) (length children)) children"

definition make_compound :: "phy_ir_context \<Rightarrow> phy_ir_kind \<Rightarrow> nat \<Rightarrow> nat list \<Rightarrow> built" where
  "make_compound c kind head children =
     (case operands_ok c children of
        Inl status \<Rightarrow> Some (0, phy_ir_set_error c status)
      | Inr depth \<Rightarrow>
        let headed = HEADED \<in> set (phy_ir_kind_flags kind) in
        if headed \<and> phy_ir_symbol_at c head = None then Some (0, phy_ir_set_error c PHY_ERR_INVALID_ARGUMENT)
        else
          let name_hash = (if headed then sy_hash (symbol_record c head) else 0) in
          intern_node c (null_node\<lparr>nd_kind := kind, nd_depth := depth, nd_child_count := length children,
            nd_head := (if headed then head else 0), nd_hash := compound_hash c kind name_hash children\<rparr>) children None None)"

text \<open>
  Staging: the operands with nested operands of an associative kind opened, one level. The first
  loop of the code only adds up their number and refuses a missing operand.
\<close>

definition absorbed :: "phy_ir_context \<Rightarrow> phy_ir_kind \<Rightarrow> nat \<Rightarrow> bool" where
  "absorbed c kind ref \<longleftrightarrow> ASSOCIATIVE \<in> set (phy_ir_kind_flags kind) \<and> nd_kind (node_at c ref) = kind"

fun staged_total :: "phy_ir_context \<Rightarrow> phy_ir_kind \<Rightarrow> nat list \<Rightarrow> nat \<Rightarrow> nat option" where
  "staged_total c kind [] n = Some n"
| "staged_total c kind (r # rs) n =
     (case phy_ir_node_at c r of None \<Rightarrow> None
      | Some child \<Rightarrow> staged_total c kind rs (n + (if absorbed c kind r then nd_child_count child else 1)))"

fun stage_operands :: "phy_ir_context \<Rightarrow> phy_ir_kind \<Rightarrow> nat list \<Rightarrow> nat list" where
  "stage_operands c kind [] = []"
| "stage_operands c kind (r # rs) =
     (if absorbed c kind r then phy_ir_children_of c (node_at c r) else [r]) @ stage_operands c kind rs"

definition scratch_reserve :: "phy_ir_context \<Rightarrow> nat \<Rightarrow> bool \<times> phy_ir_context" where
  "scratch_reserve c count =
     (case phy_ir_pool_reserve c (ic_scratch c) sizeof_ir_ref count of (ok, c1, pool) \<Rightarrow> (ok, c1\<lparr>ic_scratch := pool\<rparr>))"

definition make_nary :: "phy_ir_context \<Rightarrow> phy_ir_kind \<Rightarrow> nat list \<Rightarrow> built" where
  "make_nary c kind operands =
     (if operands = [] then Some (0, phy_ir_set_error c PHY_ERR_INVALID_ARGUMENT)
      else case staged_total c kind operands 0 of
        None \<Rightarrow> Some (0, phy_ir_set_error c PHY_ERR_INVALID_ARGUMENT)
      | Some n \<Rightarrow>
        if il_children (ic_limits c) < n then Some (0, phy_ir_set_error c PHY_ERR_TERM_LIMIT)
        else case scratch_reserve c n of (ok, c1) \<Rightarrow>
        if \<not> ok then Some (0, c1)
        else case (if COMMUTATIVE \<in> set (phy_ir_kind_flags kind) then phy_ir_sort_refs c1 (stage_operands c1 kind operands)
                   else Some (stage_operands c1 kind operands)) of
          None \<Rightarrow> None
        | Some staged \<Rightarrow>
          if length staged = 1 \<and> ASSOCIATIVE \<in> set (phy_ir_kind_flags kind) then Some (staged ! 0, c1)
          else make_compound c1 kind 0 staged)"

definition phy_ir_add :: "phy_ir_context \<Rightarrow> nat list \<Rightarrow> built" where
  "phy_ir_add c terms = make_nary c PHY_IR_ADD terms"

definition phy_ir_mul :: "phy_ir_context \<Rightarrow> nat list \<Rightarrow> built" where
  "phy_ir_mul c factors = make_nary c PHY_IR_MUL factors"

definition phy_ir_ncmul :: "phy_ir_context \<Rightarrow> nat list \<Rightarrow> built" where
  "phy_ir_ncmul c factors = make_nary c PHY_IR_NCMUL factors"

definition phy_ir_wedge :: "phy_ir_context \<Rightarrow> nat list \<Rightarrow> built" where
  "phy_ir_wedge c factors = make_nary c PHY_IR_WEDGE factors"

definition phy_ir_pow :: "phy_ir_context \<Rightarrow> nat \<Rightarrow> nat \<Rightarrow> built" where
  "phy_ir_pow c base_ref exponent = make_compound c PHY_IR_POW 0 [base_ref, exponent]"

definition phy_ir_equation :: "phy_ir_context \<Rightarrow> nat \<Rightarrow> nat \<Rightarrow> built" where
  "phy_ir_equation c lhs rhs = make_compound c PHY_IR_EQUATION 0 [lhs, rhs]"

definition phy_ir_function :: "phy_ir_context \<Rightarrow> nat \<Rightarrow> nat list \<Rightarrow> built" where
  "phy_ir_function c head args = make_compound c PHY_IR_FUNCTION head args"

definition phy_ir_kind_of :: "phy_ir_context \<Rightarrow> nat \<Rightarrow> phy_ir_kind" where
  "phy_ir_kind_of c ref = (case phy_ir_node_at c ref of None \<Rightarrow> PHY_IR_KIND_INVALID | Some node \<Rightarrow> nd_kind node)"

definition phy_ir_tensor :: "phy_ir_context \<Rightarrow> nat \<Rightarrow> nat list \<Rightarrow> built" where
  "phy_ir_tensor c head indices =
     (if list_ex (\<lambda>i. phy_ir_kind_of c i \<noteq> PHY_IR_INDEX) indices then Some (0, phy_ir_set_error c PHY_ERR_TYPE)
      else make_compound c PHY_IR_TENSOR head indices)"

definition phy_ir_operator :: "phy_ir_context \<Rightarrow> nat \<Rightarrow> nat list \<Rightarrow> built" where
  "phy_ir_operator c head args = make_compound c PHY_IR_OPERATOR head args"

definition phy_ir_derivative :: "phy_ir_context \<Rightarrow> nat \<Rightarrow> nat list \<Rightarrow> built" where
  "phy_ir_derivative c expr vars =
     (if vars = [] then Some (0, phy_ir_set_error c PHY_ERR_INVALID_ARGUMENT)
      else if list_ex (\<lambda>v. phy_ir_kind_of c v \<noteq> PHY_IR_SYMBOL \<and> phy_ir_kind_of c v \<noteq> PHY_IR_INDEX) vars
      then Some (0, phy_ir_set_error c PHY_ERR_TYPE)
      else if il_children (ic_limits c) < length vars + 1 then Some (0, phy_ir_set_error c PHY_ERR_TERM_LIMIT)
      else case scratch_reserve c (length vars + 1) of (ok, c1) \<Rightarrow>
      if \<not> ok then Some (0, c1) else make_compound c1 PHY_IR_DERIVATIVE 0 (expr # vars))"

section \<open>Node accessors\<close>

definition phy_ir_child_count :: "phy_ir_context \<Rightarrow> nat \<Rightarrow> nat" where
  "phy_ir_child_count c ref = (case phy_ir_node_at c ref of None \<Rightarrow> 0 | Some node \<Rightarrow> nd_child_count node)"

definition phy_ir_child :: "phy_ir_context \<Rightarrow> nat \<Rightarrow> nat \<Rightarrow> nat" where
  "phy_ir_child c ref position =
     (case phy_ir_node_at c ref of None \<Rightarrow> 0
      | Some node \<Rightarrow> if nd_child_count node \<le> position then 0 else phy_ir_children_of c node ! position)"

definition phy_ir_head :: "phy_ir_context \<Rightarrow> nat \<Rightarrow> nat" where
  "phy_ir_head c ref = (case phy_ir_node_at c ref of None \<Rightarrow> 0 | Some node \<Rightarrow> nd_head node)"

definition phy_ir_integer_value :: "phy_ir_context \<Rightarrow> nat \<Rightarrow> int option" where
  "phy_ir_integer_value c ref =
     (case phy_ir_node_at c ref of None \<Rightarrow> None
      | Some node \<Rightarrow> if nd_kind node \<noteq> PHY_IR_INTEGER \<or> nd_aux node = PHY_IR_EXACT_BIG then None else Some (nd_integer node))"

definition phy_ir_rational_value :: "phy_ir_context \<Rightarrow> nat \<Rightarrow> (int \<times> int) option" where
  "phy_ir_rational_value c ref =
     (case phy_ir_node_at c ref of None \<Rightarrow> None
      | Some node \<Rightarrow>
        if nd_kind node \<noteq> PHY_IR_RATIONAL \<or> nd_aux node = PHY_IR_EXACT_BIG then None
        else case phy_ir_rat_at c (nd_rational_index node) of None \<Rightarrow> None | Some r \<Rightarrow> Some (rt_num r, rt_den r))"

definition phy_ir_real_value :: "phy_ir_context \<Rightarrow> nat \<Rightarrow> u64 option" where
  "phy_ir_real_value c ref =
     (case phy_ir_node_at c ref of None \<Rightarrow> None | Some node \<Rightarrow> if nd_kind node \<noteq> PHY_IR_REAL then None else Some (nd_real node))"

definition phy_ir_index_variance :: "phy_ir_context \<Rightarrow> nat \<Rightarrow> nat option" where
  "phy_ir_index_variance c ref =
     (case phy_ir_node_at c ref of None \<Rightarrow> None | Some node \<Rightarrow> if nd_kind node \<noteq> PHY_IR_INDEX then None else Some (nd_aux node))"

definition phy_ir_index_space :: "phy_ir_context \<Rightarrow> nat \<Rightarrow> nat" where
  "phy_ir_index_space c ref =
     (case phy_ir_node_at c ref of None \<Rightarrow> 0 | Some node \<Rightarrow> if nd_kind node = PHY_IR_INDEX then nd_index_space node else 0)"

definition phy_ir_error_status :: "phy_ir_context \<Rightarrow> nat \<Rightarrow> nat option" where
  "phy_ir_error_status c ref =
     (case phy_ir_node_at c ref of None \<Rightarrow> None | Some node \<Rightarrow> if nd_kind node \<noteq> PHY_IR_ERROR then None else Some (nd_aux node))"

definition phy_ir_hash :: "phy_ir_context \<Rightarrow> nat \<Rightarrow> u32" where
  "phy_ir_hash c ref = (case phy_ir_node_at c ref of None \<Rightarrow> 0 | Some node \<Rightarrow> nd_hash node)"

definition phy_ir_depth :: "phy_ir_context \<Rightarrow> nat \<Rightarrow> nat" where
  "phy_ir_depth c ref = (case phy_ir_node_at c ref of None \<Rightarrow> 0 | Some node \<Rightarrow> nd_depth node)"

end
