(* ===== verification/IrValidate.thy ===== *)
theory IrValidate
  imports IrBuild
begin

text \<open>
  The integrity check of the expression graph, \<open>phy_ir_validate\<close> of \<open>src/ir/ir.c\<close>: nothing
  orphaned and nothing lost, by counting. A part that ends with \<open>None\<close> is a return of
  \<open>PHY_ERR_CORRUPT_DOCUMENT\<close>.
\<close>

section \<open>Claims\<close>

text \<open>Symbols own their name bytes.\<close>

fun claimed_strings :: "phy_ir_context \<Rightarrow> phy_ir_symbol_record list \<Rightarrow> nat \<Rightarrow> nat option" where
  "claimed_strings c [] claimed = Some claimed"
| "claimed_strings c (r # rs) claimed =
     (if pl_count (ic_strings c) < sy_offset r + sy_length r + 1 then None
      else claimed_strings c rs (claimed + (sy_length r + 1)))"

text \<open>What the nodes so far claim of the pools of children, rationals, promoted atoms and their text.\<close>

record node_claims =
  nc_children :: nat
  nc_rationals :: nat
  nc_bigs :: nat
  nc_text :: nat

definition claim_exact :: "phy_ir_context \<Rightarrow> phy_ir_node \<Rightarrow> node_claims \<Rightarrow> node_claims option" where
  "claim_exact c node n =
     (if (nd_kind node = PHY_IR_INTEGER \<or> nd_kind node = PHY_IR_RATIONAL) \<and> nd_aux node = PHY_IR_EXACT_BIG then
        if nd_rational_index node \<noteq> nc_bigs n then None
        else (case phy_ir_big_exact_at c (nd_rational_index node) of
          None \<Rightarrow> None
        | Some exact \<Rightarrow>
          if be_num_length exact = 0 \<or> be_num_offset exact \<noteq> nc_text n \<or>
             (nd_kind node = PHY_IR_INTEGER) \<noteq> (be_den_length exact = 0) then None
          else
            let text = nc_text n + be_num_length exact in
            if be_den_offset exact \<noteq> text then None
            else
              let text = text + be_den_length exact in
              if pl_count (ic_exact_text c) < text then None
              else Some (n\<lparr>nc_text := text, nc_bigs := nc_bigs n + 1\<rparr>))
      else if nd_kind node = PHY_IR_RATIONAL then
        if pl_count (ic_rationals c) \<le> nd_rational_index node then None
        else Some (n\<lparr>nc_rationals := nc_rationals n + 1\<rparr>)
      else Some n)"

definition claim_node :: "phy_ir_context \<Rightarrow> nat \<Rightarrow> node_claims \<Rightarrow> node_claims option" where
  "claim_node c i n =
     (let node = node_at c i in
      case claim_exact c node n of None \<Rightarrow> None
      | Some n1 \<Rightarrow>
        if nd_kind node = PHY_IR_INDEX \<and> nd_index_space node \<noteq> 0 \<and> phy_ir_symbol_at c (nd_index_space node) = None then None
        else if nd_child_count node = 0 then Some n1
        else if pl_count (ic_children c) < nd_child_offset node + nd_child_count node then None
        else if list_ex (\<lambda>child. child = 0 \<or> i \<le> child) (phy_ir_children_of c node) then None
        else Some (n1\<lparr>nc_children := nc_children n1 + nd_child_count node\<rparr>))"

fun claim_nodes :: "phy_ir_context \<Rightarrow> nat list \<Rightarrow> node_claims \<Rightarrow> node_claims option" where
  "claim_nodes c [] n = Some n"
| "claim_nodes c (i # is) n = (case claim_node c i n of None \<Rightarrow> None | Some n1 \<Rightarrow> claim_nodes c is n1)"

section \<open>Reachability\<close>

text \<open>
  The walk along one chain: \<open>guard\<close> counts its members and stops a looped chain. The last but one
  condition is \<open>filed\<close>, that a member belongs to the chain.
\<close>

function walk_chain :: "nat \<Rightarrow> (nat \<Rightarrow> nat) \<Rightarrow> (nat \<Rightarrow> bool) \<Rightarrow> nat \<Rightarrow> nat \<Rightarrow> nat option" where
  "walk_chain limit link filed guard at =
     (if at = 0 then Some guard
      else if limit \<le> at \<or> limit < guard + 1 then None
      else if \<not> filed at then None
      else walk_chain limit link filed (guard + 1) (link at))"
  by pat_completeness auto
termination
  by (relation "measure (\<lambda>(limit, link, filed, guard, at). limit - guard)") auto

declare walk_chain.simps [simp del]

text \<open>All chains, with the number of members reached.\<close>

fun walk_chains :: "nat \<Rightarrow> (nat \<Rightarrow> nat) \<Rightarrow> (nat \<Rightarrow> nat \<Rightarrow> bool) \<Rightarrow> (nat \<times> nat) list \<Rightarrow> nat \<Rightarrow> nat option" where
  "walk_chains limit link filed [] reached = Some reached"
| "walk_chains limit link filed ((bucket, head) # rest) reached =
     (case walk_chain limit link (filed bucket) 0 head of None \<Rightarrow> None
      | Some n \<Rightarrow> walk_chains limit link filed rest (reached + n))"

section \<open>The check\<close>

definition phy_ir_validate :: "phy_ir_context \<Rightarrow> phy_status" where
  "phy_ir_validate c =
     (let nodes = pl_count (ic_nodes c); symbols = pl_count (ic_symbols c) in
      if claimed_strings c (drop 1 (pl_data (ic_symbols c))) 0 \<noteq> Some (pl_count (ic_strings c)) then PHY_ERR_CORRUPT_DOCUMENT
      else if claim_nodes c [1..<nodes] \<lparr>nc_children = 0, nc_rationals = 0, nc_bigs = 0, nc_text = 0\<rparr> \<noteq>
         Some \<lparr>nc_children = pl_count (ic_children c), nc_rationals = pl_count (ic_rationals c),
           nc_bigs = pl_count (ic_big_exacts c), nc_text = pl_count (ic_exact_text c)\<rparr> then PHY_ERR_CORRUPT_DOCUMENT
      else if walk_chains nodes (\<lambda>r. nd_next (node_at c r))
           (\<lambda>bucket r. bucket_slot (nd_hash (node_at c r)) (pl_count (ic_node_buckets c)) = bucket)
           (enumerate 0 (pl_data (ic_node_buckets c))) 0 \<noteq> Some (nodes - 1) then PHY_ERR_CORRUPT_DOCUMENT
      else if walk_chains symbols (\<lambda>s. sy_next (symbol_record c s))
           (\<lambda>bucket s. bucket_slot (sy_hash (symbol_record c s)) (pl_count (ic_symbol_buckets c)) = bucket)
           (enumerate 0 (pl_data (ic_symbol_buckets c))) 0 \<noteq> Some (symbols - 1) then PHY_ERR_CORRUPT_DOCUMENT
      else if walk_chains (pl_count (ic_symmetries c)) (\<lambda>at. sm_next (symmetry_record c at)) (\<lambda>_ _. True)
           (enumerate 1 (map sy_symmetry_head (drop 1 (pl_data (ic_symbols c))))) 0 \<noteq> Some (pl_count (ic_symmetries c) - 1)
      then PHY_ERR_CORRUPT_DOCUMENT
      else PHY_OK)"

end
