(* ===== verification/IrTable.thy ===== *)
theory IrTable
  imports IrValidate
begin

text \<open>
  Chained tables: the intern tables of symbols and nodes, and the symmetry lists of the symbols.
  Members are filed at the head of their chain in the order of their handles, so that a chain
  lists the handles of its slot downwards. Lookup, rehash and the walk of the integrity check
  are proved for every such table.
\<close>

section \<open>Paths\<close>

primrec path :: "(nat \<Rightarrow> nat) \<Rightarrow> nat \<Rightarrow> nat list \<Rightarrow> bool" where
  "path link at [] \<longleftrightarrow> at = 0"
| "path link at (x # xs) \<longleftrightarrow> at = x \<and> x \<noteq> 0 \<and> path link (link x) xs"

lemma path_cong: "\<forall>x \<in> set xs. link x = link' x \<Longrightarrow> path link at xs = path link' at xs"
  by (induction xs arbitrary: at) auto

lemma find_path:
  "path link at xs \<Longrightarrow> find_in_chain P link at = Some (case List.find P xs of None \<Rightarrow> 0 | Some x \<Rightarrow> x)"
proof (induction xs arbitrary: at)
  case Nil
  then show ?case by (subst find_in_chain.simps) simp
next
  case (Cons x xs)
  then show ?case by (subst find_in_chain.simps) simp
qed

lemma walk_path:
  assumes "path link at xs" "\<forall>x \<in> set xs. x < limit \<and> filed x" "guard + length xs \<le> limit"
  shows "walk_chain limit link filed guard at = Some (guard + length xs)"
  using assms
proof (induction xs arbitrary: at guard)
  case Nil
  then show ?case by (simp add: walk_chain.simps)
next
  case (Cons x xs)
  then show ?case using Cons.IH [of "link x" "guard + 1"] by (subst walk_chain.simps) simp
qed

section \<open>Tables\<close>

definition members :: "(nat \<Rightarrow> nat) \<Rightarrow> nat \<Rightarrow> nat \<Rightarrow> nat list" where
  "members slot n b = rev (filter (\<lambda>i. slot i = b) [1..<n])"

definition chains_ok :: "(nat \<Rightarrow> nat) \<Rightarrow> (nat \<Rightarrow> nat) \<Rightarrow> (nat \<Rightarrow> nat) \<Rightarrow> nat \<Rightarrow> nat set \<Rightarrow> bool" where
  "chains_ok link head slot n B \<longleftrightarrow> (\<forall>b \<in> B. path link (head b) (members slot n b))"

lemma set_members [simp]: "set (members slot n b) = {i. 1 \<le> i \<and> i < n \<and> slot i = b}"
  by (auto simp: members_def)

lemma members_add: "1 \<le> n \<Longrightarrow> members slot (Suc n) b = (if slot n = b then [n] else []) @ members slot n b"
  by (simp add: members_def)

lemma members_cong: "\<forall>i. 1 \<le> i \<and> i < n \<longrightarrow> slot i = slot' i \<Longrightarrow> members slot n b = members slot' n b"
  unfolding members_def by (intro arg_cong [where f = rev] filter_cong) auto

lemma chains_cong:
  assumes "chains_ok link head slot n B"
    and "\<And>i. 1 \<le> i \<Longrightarrow> i < n \<Longrightarrow> link' i = link i" "\<And>b. b \<in> B \<Longrightarrow> head' b = head b" "\<And>i. 1 \<le> i \<Longrightarrow> i < n \<Longrightarrow> slot' i = slot i"
  shows "chains_ok link' head' slot' n B"
  unfolding chains_ok_def
proof
  fix b assume b: "b \<in> B"
  have m: "members slot' n b = members slot n b" by (rule members_cong) (use assms(4) in simp)
  have "path link' (head b) (members slot n b) = path link (head b) (members slot n b)"
    by (rule path_cong) (use assms(2) in simp)
  then show "path link' (head' b) (members slot' n b)" using assms(1) b assms(3) m by (simp add: chains_ok_def)
qed

text \<open>A new member at the head of its chain.\<close>

lemma chains_insert:
  assumes ok: "chains_ok link head slot n B" and n: "1 \<le> n"
    and old: "\<And>i. 1 \<le> i \<Longrightarrow> i < n \<Longrightarrow> link' i = link i" "\<And>i. 1 \<le> i \<Longrightarrow> i < n \<Longrightarrow> slot' i = slot i"
    and new: "slot' n \<in> B" "link' n = head (slot' n)" "\<And>b. b \<in> B \<Longrightarrow> head' b = (if b = slot' n then n else head b)"
  shows "chains_ok link' head' slot' (Suc n) B"
  unfolding chains_ok_def
proof
  fix b assume b: "b \<in> B"
  have "chains_ok link' head slot' n B" by (rule chains_cong [OF ok old(1) _ old(2)]) simp_all
  then have p: "path link' (head b) (members slot' n b)" using b by (simp add: chains_ok_def)
  show "path link' (head' b) (members slot' (Suc n) b)"
    using p new(2) new(3) [OF b] n by (cases "b = slot' n") (simp_all add: members_add)
qed

lemma find_chain:
  assumes "chains_ok link head slot n B" "b \<in> B"
  shows "\<exists>r. find_in_chain P link (head b) = Some r \<and> (r \<noteq> 0 \<longrightarrow> 1 \<le> r \<and> r < n \<and> slot r = b \<and> P r) \<and>
    (r = 0 \<longrightarrow> (\<forall>i. 1 \<le> i \<and> i < n \<and> slot i = b \<longrightarrow> \<not> P i))"
proof -
  let ?xs = "members slot n b"
  have f: "find_in_chain P link (head b) = Some (case List.find P ?xs of None \<Rightarrow> 0 | Some x \<Rightarrow> x)"
    using assms by (intro find_path) (simp add: chains_ok_def)
  show ?thesis
  proof (cases "List.find P ?xs")
    case None
    then have "\<forall>x \<in> set ?xs. \<not> P x" by (simp add: find_None_iff)
    then show ?thesis using f None by auto
  next
    case (Some x)
    then have "x \<in> set ?xs" "P x" by (metis find_Some_iff nth_mem)+
    then show ?thesis using f Some by auto
  qed
qed

lemma walk_member:
  assumes "chains_ok link head slot n B" "b \<in> B" "\<And>i. 1 \<le> i \<Longrightarrow> i < n \<Longrightarrow> slot i = b \<Longrightarrow> filed i"
  shows "walk_chain n link filed 0 (head b) = Some (length (members slot n b))"
proof -
  have "length (members slot n b) \<le> n"
    using length_filter_le [of "\<lambda>i. slot i = b" "[1..<n]"] by (simp add: members_def)
  then show ?thesis
    using walk_path [of link "head b" "members slot n b" n filed 0] assms by (simp add: chains_ok_def)
qed

lemma count_members:
  assumes "\<And>i. 1 \<le> i \<Longrightarrow> i < n \<Longrightarrow> slot i \<in> set bs" "distinct bs"
  shows "sum_list (map (\<lambda>b. length (members slot n b)) bs) = n - 1"
proof -
  have len: "length (members slot n b) = card {i \<in> {1..<n}. slot i = b}" for b
  proof -
    have "length (members slot n b) = card (set (members slot n b))" by (rule distinct_card [symmetric]) (simp add: members_def)
    moreover have "set (members slot n b) = {i \<in> {1..<n}. slot i = b}" by auto
    ultimately show ?thesis by simp
  qed
  have "sum_list (map (\<lambda>b. length (members slot n b)) bs) = (\<Sum>b \<in> set bs. card {i \<in> {1..<n}. slot i = b})"
    using assms(2) len by (simp add: sum_list_distinct_conv_sum_set)
  also have "\<dots> = card (\<Union>b \<in> set bs. {i \<in> {1..<n}. slot i = b})"
    by (subst card_UN_disjoint) auto
  also have "(\<Union>b \<in> set bs. {i \<in> {1..<n}. slot i = b}) = {1..<n}" using assms(1) by auto
  finally show ?thesis by simp
qed

lemma walk_all:
  assumes ok: "chains_ok link head slot n B" and B: "set bs \<subseteq> B"
    and filed: "\<And>b i. 1 \<le> i \<Longrightarrow> i < n \<Longrightarrow> slot i = b \<Longrightarrow> filed b i"
  shows "walk_chains n link filed (map (\<lambda>b. (b, head b)) bs) k = Some (k + sum_list (map (\<lambda>b. length (members slot n b)) bs))"
  using B
proof (induction bs arbitrary: k)
  case (Cons b bs)
  have "walk_chain n link (filed b) 0 (head b) = Some (length (members slot n b))"
    by (rule walk_member [OF ok]) (use Cons.prems filed in auto)
  then show ?case using Cons.IH [of "k + length (members slot n b)"] Cons.prems by simp
qed simp

section \<open>Slots and rehashing\<close>

lemma bucket_slot_less: "0 < n \<Longrightarrow> bucket_slot h n < n"
proof -
  assume n: "0 < n"
  have "int (and (unat h) (n - 1)) \<le> int (n - 1)"
    using AND_upper2 [of "int (n - 1)" "int (unat h)"] by (simp only: of_nat_and_eq)
  then show ?thesis using n by (simp add: bucket_slot_def)
qed

lemma refile_map:
  assumes "\<And>v r. f (set_next v r) = f r"
  shows "map f (fst (refile hash set_next (rs, table))) = map f rs"
proof -
  let ?step = "\<lambda>i (records, table). let slot = bucket_slot (hash (records ! i)) (length table)
       in (records[i := set_next (table ! slot) (records ! i)], table[slot := i])"
  have "map f (fst (fold ?step is st)) = map f (fst st)" for "is" st
  proof (induction "is" arbitrary: st)
    case (Cons i "is")
    obtain records t where st: "st = (records, t)" by (cases st)
    have "map f (records[i := set_next v (records ! i)]) = map f records" for v
      using assms by (cases "i < length records") (simp_all add: map_update list_update_same_conv list_update_beyond)
    then show ?case using Cons.IH by (simp add: st Let_def)
  qed simp
  then show ?thesis unfolding refile_def by simp
qed

lemma refile_length: "length (fst (refile hash set_next (rs, table))) = length rs"
  using refile_map [of "\<lambda>_. ()" set_next hash rs table] by (metis length_map)

lemma refile_ok:
  assumes hash: "\<And>v r. hash (set_next v r) = hash r" and link: "\<And>v r. link (set_next v r) = v"
    and table: "length table = nb" "\<And>b. b < nb \<Longrightarrow> table ! b = 0" "0 < nb" and rs: "rs \<noteq> []"
  shows "length (snd (refile hash set_next (rs, table))) = nb \<and>
    chains_ok (\<lambda>i. link (fst (refile hash set_next (rs, table)) ! i)) (\<lambda>b. snd (refile hash set_next (rs, table)) ! b)
      (\<lambda>i. bucket_slot (hash (rs ! i)) nb) (length rs) {..<nb}"
proof -
  let ?step = "\<lambda>i (records, table). let slot = bucket_slot (hash (records ! i)) (length table)
       in (records[i := set_next (table ! slot) (records ! i)], table[slot := i])"
  let ?slot = "\<lambda>i. bucket_slot (hash (rs ! i)) nb"
  define inv where "inv k st \<longleftrightarrow> length (fst st) = length rs \<and> (\<forall>i < length rs. hash (fst st ! i) = hash (rs ! i)) \<and>
     length (snd st) = nb \<and> chains_ok (\<lambda>i. link (fst st ! i)) (\<lambda>b. snd st ! b) ?slot k {..<nb}" for k st
  have step: "inv (Suc k) (?step k st)" if "inv k st" "1 \<le> k" "k < length rs" for k st
  proof -
    obtain records t where st: "st = (records, t)" by (cases st)
    let ?s = "?slot k"
    have s: "?s < nb" using bucket_slot_less [OF table(3)] .
    have h: "hash (records ! k) = hash (rs ! k)" "length records = length rs" "length t = nb" using that by (simp_all add: inv_def st)
    have ch: "chains_ok (\<lambda>i. link (records ! i)) (\<lambda>b. t ! b) ?slot k {..<nb}" using that by (simp add: inv_def st)
    have "chains_ok (\<lambda>i. link (records[k := set_next (t ! ?s) (records ! k)] ! i)) (\<lambda>b. t[?s := k] ! b) ?slot (Suc k) {..<nb}"
      by (rule chains_insert [OF ch that(2)]) (use s h that(3) link in \<open>auto simp: nth_list_update\<close>)
    then show ?thesis using that h hash by (simp add: inv_def st Let_def nth_list_update)
  qed
  have run: "inv (k + length is) (fold ?step is st)" if "inv k st" "is = [k..<k + length is]" "1 \<le> k" "k + length is \<le> length rs" for "is" k st
    using that
  proof (induction "is" arbitrary: k st)
    case (Cons i "is")
    have i: "i = k" "is = [Suc k..<Suc k + length is]"
      using Cons.prems(2) upt_conv_Cons [of k "k + length (i # is)"] by (auto simp del: upt_Suc)
    have "inv (Suc k) (?step k st)" using step Cons.prems by simp
    from Cons.IH [OF this i(2)] show ?case using Cons.prems(3,4) i(1) by simp
  qed simp
  have start: "inv 1 (rs, table)"
    using table by (simp add: inv_def chains_ok_def members_def)
  have "0 < length rs" using rs by simp
  then have len: "1 + length [1..<length rs] = length rs" by simp
  have "inv (length rs) (fold ?step [1..<length rs] (rs, table))"
    using run [OF start, of "[1..<length rs]", unfolded len] by blast
  moreover have "refile hash set_next (rs, table) = fold ?step [1..<length rs] (rs, table)" by (simp add: refile_def)
  ultimately show ?thesis unfolding inv_def by metis
qed

end
