(* ===== verification/IrPools.thy ===== *)
theory IrPools
  imports IrTable
begin

text \<open>
  The accounting of the expression graph: what a reservation does to the books, on every outcome,
  and the graph proper, which is a context with its accounting erased. A failed call that leaves
  the graph proper alone leaves every node, symbol and chain alone.
\<close>

section \<open>The graph proper\<close>

abbreviation erase :: "'a phy_pool \<Rightarrow> 'a phy_pool" where
  "erase p \<equiv> p\<lparr>pl_capacity := 0\<rparr>"

definition graph :: "phy_ir_context \<Rightarrow> phy_ir_context" where
  "graph c = c\<lparr>ic_error := PHY_OK, ic_bytes := 0, ic_allocs := 0, ic_scratch := empty_pool,
     ic_nodes := erase (ic_nodes c), ic_children := erase (ic_children c), ic_rationals := erase (ic_rationals c),
     ic_big_exacts := erase (ic_big_exacts c), ic_exact_text := erase (ic_exact_text c), ic_symbols := erase (ic_symbols c),
     ic_strings := erase (ic_strings c), ic_symmetries := erase (ic_symmetries c),
     ic_node_buckets := erase (ic_node_buckets c), ic_symbol_buckets := erase (ic_symbol_buckets c)\<rparr>"

lemma erase_eq [simp]: "erase p = erase q \<longleftrightarrow> pl_data p = pl_data q"
  by (cases p; cases q) simp

lemma graph_eq: "graph c = graph c' \<longleftrightarrow>
    ic_limits c = ic_limits c' \<and> ic_alloc c = ic_alloc c' \<and> pl_data (ic_nodes c) = pl_data (ic_nodes c') \<and>
    pl_data (ic_children c) = pl_data (ic_children c') \<and> pl_data (ic_rationals c) = pl_data (ic_rationals c') \<and>
    pl_data (ic_big_exacts c) = pl_data (ic_big_exacts c') \<and> pl_data (ic_exact_text c) = pl_data (ic_exact_text c') \<and>
    pl_data (ic_symbols c) = pl_data (ic_symbols c') \<and> pl_data (ic_strings c) = pl_data (ic_strings c') \<and>
    pl_data (ic_symmetries c) = pl_data (ic_symmetries c') \<and> pl_data (ic_node_buckets c) = pl_data (ic_node_buckets c') \<and>
    pl_data (ic_symbol_buckets c) = pl_data (ic_symbol_buckets c')"
  by (cases c; cases c') (auto simp: graph_def)

lemma graph_error [simp]: "graph (phy_ir_set_error c st) = graph c"
  by (simp add: phy_ir_set_error_def graph_def)

section \<open>Books\<close>

definition ir_books :: "phy_ir_context \<Rightarrow> nat" where
  "ir_books c = 156 + pl_capacity (ic_nodes c) * 32 + pl_capacity (ic_children c) * 4 + pl_capacity (ic_rationals c) * 16 +
     pl_capacity (ic_big_exacts c) * 16 + pl_capacity (ic_exact_text c) + pl_capacity (ic_symbols c) * 24 +
     pl_capacity (ic_strings c) + pl_capacity (ic_symmetries c) * 16 + pl_capacity (ic_node_buckets c) * 4 +
     pl_capacity (ic_symbol_buckets c) * 4 + pl_capacity (ic_scratch c) * 4"

abbreviation fits :: "'a phy_pool \<Rightarrow> bool" where
  "fits p \<equiv> pl_count p \<le> pl_capacity p"

definition books_ok :: "phy_ir_context \<Rightarrow> bool" where
  "books_ok c \<longleftrightarrow> ic_bytes c = ir_books c \<and> ic_bytes c \<le> il_bytes (ic_limits c) \<and> il_bytes (ic_limits c) \<le> SIZE_MAX \<and>
     fits (ic_nodes c) \<and> fits (ic_children c) \<and> fits (ic_rationals c) \<and> fits (ic_big_exacts c) \<and> fits (ic_exact_text c) \<and>
     fits (ic_symbols c) \<and> fits (ic_strings c) \<and> fits (ic_symmetries c) \<and> fits (ic_node_buckets c) \<and>
     fits (ic_symbol_buckets c) \<and> fits (ic_scratch c)"

lemmas ir_sizes = sizeof_ir_context_def sizeof_ir_node_def sizeof_ir_ref_def sizeof_ir_rat_def sizeof_ir_big_exact_def
  sizeof_ir_symbol_record_def sizeof_ir_symmetry_record_def

lemma books_error [simp]: "books_ok (phy_ir_set_error c st) = books_ok c"
  by (simp add: phy_ir_set_error_def books_ok_def ir_books_def)

lemma books_error_update: "books_ok (c\<lparr>ic_error := e\<rparr>) = books_ok c"
  by (simp add: books_ok_def ir_books_def)

lemma error_stays: "ic_error (phy_ir_set_error c st) \<noteq> PHY_OK \<longleftrightarrow> ic_error c \<noteq> PHY_OK \<or> st \<noteq> PHY_OK"
  by (simp add: phy_ir_set_error_def)

section \<open>Reservations\<close>

lemma pool_grow_ge: "0 < capacity \<Longrightarrow> needed \<le> pool_grow capacity needed"
  by (induction capacity needed rule: pool_grow.induct) (subst pool_grow.simps, auto)

lemma pool_grow_mono: "capacity \<le> pool_grow capacity needed"
  by (induction capacity needed rule: pool_grow.induct) (subst pool_grow.simps, auto)

text \<open>The context may change its accounting only.\<close>

definition recounted :: "phy_ir_context \<Rightarrow> phy_ir_context \<Rightarrow> bool" where
  "recounted c c' \<longleftrightarrow> c'\<lparr>ic_error := PHY_OK, ic_bytes := 0, ic_allocs := 0\<rparr> = c\<lparr>ic_error := PHY_OK, ic_bytes := 0, ic_allocs := 0\<rparr>"

lemma ir_reserve_spec:
  assumes "phy_ir_pool_reserve c pool el needed = (ok, c1, p1)"
  shows "recounted c c1" "pl_data p1 = pl_data pool" "pl_capacity pool \<le> pl_capacity p1"
    "ok \<Longrightarrow> needed \<le> pl_capacity p1 \<and> ic_error c1 = ic_error c"
    "\<not> ok \<Longrightarrow> p1 = pool \<and> ic_bytes c1 = ic_bytes c \<and>
       ic_error c1 = (if ic_error c = PHY_OK then ic_error c1 else ic_error c) \<and> ic_error c1 \<noteq> PHY_OK"
    "pl_capacity pool * el \<le> ic_bytes c \<Longrightarrow> ic_bytes c1 + pl_capacity pool * el = ic_bytes c + pl_capacity p1 * el"
    "ic_bytes c \<le> il_bytes (ic_limits c) \<Longrightarrow> ic_bytes c1 \<le> il_bytes (ic_limits c)"
proof -
  let ?start = "if pl_capacity pool \<noteq> 0 then pl_capacity pool else 16"
  have g: "needed \<le> pool_grow ?start needed" "pl_capacity pool \<le> pool_grow ?start needed"
    using pool_grow_ge [of ?start needed] pool_grow_mono [of ?start needed] by auto
  note defs = phy_ir_pool_reserve_def Let_def ir_charge_def ir_alloc_def ir_discharge_def phy_ir_set_error_def recounted_def
  show "recounted c c1" using assms by (auto simp: defs split: if_splits)
  show "pl_data p1 = pl_data pool" using assms by (auto simp: defs split: if_splits)
  show "pl_capacity pool \<le> pl_capacity p1" using assms g by (auto simp: defs split: if_splits)
  show "ok \<Longrightarrow> needed \<le> pl_capacity p1 \<and> ic_error c1 = ic_error c" using assms g by (auto simp: defs split: if_splits)
  show "\<not> ok \<Longrightarrow> p1 = pool \<and> ic_bytes c1 = ic_bytes c \<and>
       ic_error c1 = (if ic_error c = PHY_OK then ic_error c1 else ic_error c) \<and> ic_error c1 \<noteq> PHY_OK"
    using assms by (auto simp: defs split: if_splits)
  show "pl_capacity pool * el \<le> ic_bytes c \<Longrightarrow> ic_bytes c1 + pl_capacity pool * el = ic_bytes c + pl_capacity p1 * el"
    using assms by (auto simp: defs split: if_splits)
  show "ic_bytes c \<le> il_bytes (ic_limits c) \<Longrightarrow> ic_bytes c1 \<le> il_bytes (ic_limits c)"
    using assms by (auto simp: defs split: if_splits)
qed

lemma recounted_fields:
  assumes "recounted c c1"
  shows "ic_limits c1 = ic_limits c" "ic_nodes c1 = ic_nodes c" "ic_children c1 = ic_children c" "ic_rationals c1 = ic_rationals c"
    "ic_big_exacts c1 = ic_big_exacts c" "ic_exact_text c1 = ic_exact_text c" "ic_symbols c1 = ic_symbols c"
    "ic_strings c1 = ic_strings c" "ic_symmetries c1 = ic_symmetries c" "ic_node_buckets c1 = ic_node_buckets c"
    "ic_symbol_buckets c1 = ic_symbol_buckets c" "ic_scratch c1 = ic_scratch c" "ic_alloc c1 = ic_alloc c"
  using assms by (cases c, cases c1, simp add: recounted_def)+

end
