(* ===== verification/IrInv.thy ===== *)
theory IrInv
  imports IrPools "HOL-Library.Sublist"
begin

text \<open>
  What the pools of an expression graph mean, and the invariant of a context: every node has a
  payload that does not depend on where it is stored, payloads and names are unique, hashes and
  depths are those of the payload, the chains hold exactly the members of their slots, and the
  pools hold what the nodes and symbols claim.
\<close>

section \<open>Payloads\<close>

datatype payload =
    P_int int
  | P_rat int int
  | P_bigint string
  | P_bigrat string string
  | P_real u64
  | P_symbol nat
  | P_index nat nat nat
  | P_error nat
  | P_compound phy_ir_kind nat "nat list"

definition is_compound :: "phy_ir_kind \<Rightarrow> bool" where
  "is_compound k \<longleftrightarrow> 6 \<le> phy_ir_kind_rank k"

definition payload_of :: "phy_ir_context \<Rightarrow> phy_ir_node \<Rightarrow> payload" where
  "payload_of c nd =
     (let big = pl_data (ic_big_exacts c) ! nd_rational_index nd; text = pl_data (ic_exact_text c);
          rat = pl_data (ic_rationals c) ! nd_rational_index nd in
      if nd_kind nd = PHY_IR_INTEGER then
        (if nd_aux nd = PHY_IR_EXACT_BIG then P_bigint (array_slice (be_num_offset big) (be_num_length big) text) else P_int (nd_integer nd))
      else if nd_kind nd = PHY_IR_RATIONAL then
        (if nd_aux nd = PHY_IR_EXACT_BIG
         then P_bigrat (array_slice (be_num_offset big) (be_num_length big) text) (array_slice (be_den_offset big) (be_den_length big) text)
         else P_rat (rt_num rat) (rt_den rat))
      else if nd_kind nd = PHY_IR_REAL then P_real (nd_real nd)
      else if nd_kind nd = PHY_IR_SYMBOL then P_symbol (nd_head nd)
      else if nd_kind nd = PHY_IR_INDEX then P_index (nd_head nd) (nd_aux nd) (nd_index_space nd)
      else if nd_kind nd = PHY_IR_ERROR then P_error (nd_aux nd)
      else P_compound (nd_kind nd) (nd_head nd) (phy_ir_children_of c nd))"

abbreviation payload_at :: "phy_ir_context \<Rightarrow> nat \<Rightarrow> payload" where
  "payload_at c i \<equiv> payload_of c (node_at c i)"

text \<open>How a node stores its payload: fields that the kind does not use are zero.\<close>

definition big_stored :: "phy_ir_context \<Rightarrow> phy_ir_node \<Rightarrow> bool" where
  "big_stored c nd \<longleftrightarrow> nd_rational_index nd < pl_count (ic_big_exacts c) \<and>
     (let big = pl_data (ic_big_exacts c) ! nd_rational_index nd in
      be_num_offset big + be_num_length big \<le> pl_count (ic_exact_text c) \<and>
      be_den_offset big + be_den_length big \<le> pl_count (ic_exact_text c) \<and>
      (nd_kind nd = PHY_IR_INTEGER \<longleftrightarrow> be_den_length big = 0))"

definition stored_ok :: "phy_ir_context \<Rightarrow> phy_ir_node \<Rightarrow> bool" where
  "stored_ok c nd \<longleftrightarrow>
     (if nd_kind nd = PHY_IR_INTEGER then nd_head nd = 0 \<and> nd_child_count nd = 0 \<and> (nd_aux nd = 0 \<or> nd_aux nd = PHY_IR_EXACT_BIG \<and> big_stored c nd)
      else if nd_kind nd = PHY_IR_RATIONAL then nd_head nd = 0 \<and> nd_child_count nd = 0 \<and>
        (nd_aux nd = 0 \<and> nd_rational_index nd < pl_count (ic_rationals c) \<or> nd_aux nd = PHY_IR_EXACT_BIG \<and> big_stored c nd)
      else if nd_kind nd = PHY_IR_REAL then nd_head nd = 0 \<and> nd_child_count nd = 0 \<and> nd_aux nd = 0
      else if nd_kind nd = PHY_IR_SYMBOL then nd_child_count nd = 0 \<and> nd_aux nd = 0
      else if nd_kind nd = PHY_IR_INDEX then nd_child_count nd = 0
      else if nd_kind nd = PHY_IR_ERROR then nd_head nd = 0 \<and> nd_child_count nd = 0
      else is_compound (nd_kind nd) \<and> nd_aux nd = 0 \<and>
        (nd_child_count nd \<noteq> 0 \<longrightarrow> nd_child_offset nd + nd_child_count nd \<le> pl_count (ic_children c)))"

abbreviation valid_symbol :: "phy_ir_context \<Rightarrow> nat \<Rightarrow> bool" where
  "valid_symbol c s \<equiv> 1 \<le> s \<and> s < pl_count (ic_symbols c)"

abbreviation valid_ref :: "phy_ir_context \<Rightarrow> nat \<Rightarrow> bool" where
  "valid_ref c i \<equiv> 1 \<le> i \<and> i < pl_count (ic_nodes c)"

definition finite_bits :: "u64 \<Rightarrow> bool" where
  "finite_bits b \<longleftrightarrow> and (drop_bit 52 b) 0x7ff \<noteq> 0x7ff \<and> b \<noteq> 0x8000000000000000"

fun payload_ok :: "phy_ir_context \<Rightarrow> nat \<Rightarrow> payload \<Rightarrow> bool" where
  "payload_ok c i (P_int v) \<longleftrightarrow> - (2 ^ 63) \<le> v \<and> v < 2 ^ 63"
| "payload_ok c i (P_rat n d) \<longleftrightarrow> - (2 ^ 63) \<le> n \<and> n < 2 ^ 63 \<and> 1 < d \<and> d < 2 ^ 63 \<and> coprime n d"
| "payload_ok c i (P_bigint s) \<longleftrightarrow> s \<noteq> []"
| "payload_ok c i (P_bigrat s t) \<longleftrightarrow> s \<noteq> [] \<and> t \<noteq> [] \<and> t \<noteq> ''1''"
| "payload_ok c i (P_real b) \<longleftrightarrow> finite_bits b"
| "payload_ok c i (P_symbol s) \<longleftrightarrow> valid_symbol c s"
| "payload_ok c i (P_index n v s) \<longleftrightarrow> valid_symbol c n \<and> v \<le> 1 \<and> (s = 0 \<or> valid_symbol c s)"
| "payload_ok c i (P_error e) \<longleftrightarrow> 1 \<le> e \<and> e < PHY_STATUS_COUNT"
| "payload_ok c i (P_compound k h cs) \<longleftrightarrow> is_compound k \<and> (if HEADED \<in> set (phy_ir_kind_flags k) then valid_symbol c h else h = 0) \<and>
     (\<forall>x \<in> set cs. 1 \<le> x \<and> x < i) \<and> length cs \<le> il_children (ic_limits c)"

fun payload_hash :: "phy_ir_context \<Rightarrow> payload \<Rightarrow> u32" where
  "payload_hash c (P_int v) = hash_bytes (hash_u32 FNV_OFFSET (kind_code PHY_IR_INTEGER)) (i64_bytes v)"
| "payload_hash c (P_rat n d) = hash_bytes (hash_u32 FNV_OFFSET (kind_code PHY_IR_RATIONAL)) (i64_bytes n @ i64_bytes d)"
| "payload_hash c (P_bigint s) = hash_bytes (hash_u32 FNV_OFFSET (kind_code PHY_IR_INTEGER)) (text_bytes s)"
| "payload_hash c (P_bigrat s t) = hash_bytes (hash_bytes (hash_bytes (hash_u32 FNV_OFFSET (kind_code PHY_IR_RATIONAL)) (text_bytes s))
     (text_bytes ''/'')) (text_bytes t)"
| "payload_hash c (P_real b) = hash_bytes (hash_u32 FNV_OFFSET (kind_code PHY_IR_REAL)) (le_bytes 8 (unat b))"
| "payload_hash c (P_symbol s) = hash_u32 (hash_u32 (hash_u32 FNV_OFFSET (kind_code PHY_IR_SYMBOL)) (unat (sy_hash (symbol_record c s)))) 0"
| "payload_hash c (P_index n v s) = hash_u32 (hash_u32 (hash_u32 (hash_u32 FNV_OFFSET (kind_code PHY_IR_INDEX))
     (unat (sy_hash (symbol_record c n)))) v) (if s = 0 then 0 else unat (sy_hash (symbol_record c s)))"
| "payload_hash c (P_error e) = hash_u32 (hash_u32 FNV_OFFSET (kind_code PHY_IR_ERROR)) e"
| "payload_hash c (P_compound k h cs) = compound_hash c k (if HEADED \<in> set (phy_ir_kind_flags k) then sy_hash (symbol_record c h) else 0) cs"

definition deepest :: "phy_ir_context \<Rightarrow> nat list \<Rightarrow> nat" where
  "deepest c cs = fold (\<lambda>x d. max d (nd_depth (node_at c x))) cs 0"

fun payload_depth :: "phy_ir_context \<Rightarrow> payload \<Rightarrow> nat" where
  "payload_depth c (P_compound k h cs) = deepest c cs + 1"
| "payload_depth c _ = 1"

section \<open>The invariant\<close>

definition sym_name :: "phy_ir_context \<Rightarrow> nat \<Rightarrow> string" where
  "sym_name c s = array_slice (sy_offset (symbol_record c s)) (sy_length (symbol_record c s)) (pl_data (ic_strings c))"

definition symbol_ok :: "phy_ir_context \<Rightarrow> nat \<Rightarrow> bool" where
  "symbol_ok c s \<longleftrightarrow> sy_length (symbol_record c s) \<noteq> 0 \<and>
     sy_offset (symbol_record c s) + sy_length (symbol_record c s) + 1 \<le> pl_count (ic_strings c) \<and>
     sy_hash (symbol_record c s) = hash_bytes FNV_OFFSET (text_bytes (sym_name c s))"

definition symbols_ok :: "phy_ir_context \<Rightarrow> bool" where
  "symbols_ok c \<longleftrightarrow> 1 \<le> pl_count (ic_symbols c) \<and> (\<forall>s. valid_symbol c s \<longrightarrow> symbol_ok c s) \<and>
     inj_on (sym_name c) {s. valid_symbol c s} \<and>
     sum_list (map (\<lambda>r. sy_length r + 1) (drop 1 (pl_data (ic_symbols c)))) = pl_count (ic_strings c)"

definition symbol_table_ok :: "phy_ir_context \<Rightarrow> bool" where
  "symbol_table_ok c \<longleftrightarrow> 0 < pl_count (ic_symbol_buckets c) \<and>
     chains_ok (\<lambda>s. sy_next (symbol_record c s)) (\<lambda>b. pl_data (ic_symbol_buckets c) ! b)
       (\<lambda>s. bucket_slot (sy_hash (symbol_record c s)) (pl_count (ic_symbol_buckets c))) (pl_count (ic_symbols c))
       {..<pl_count (ic_symbol_buckets c)}"

definition symmetries_ok :: "phy_ir_context \<Rightarrow> bool" where
  "symmetries_ok c \<longleftrightarrow> 1 \<le> pl_count (ic_symmetries c) \<and>
     (\<exists>owner. (\<forall>i. 1 \<le> i \<and> i < pl_count (ic_symmetries c) \<longrightarrow> valid_symbol c (owner i)) \<and>
       chains_ok (\<lambda>i. sm_next (symmetry_record c i)) (\<lambda>s. sy_symmetry_head (symbol_record c s)) owner
         (pl_count (ic_symmetries c)) {s. valid_symbol c s})"

definition node_ok :: "phy_ir_context \<Rightarrow> nat \<Rightarrow> bool" where
  "node_ok c i \<longleftrightarrow> stored_ok c (node_at c i) \<and> payload_ok c i (payload_at c i) \<and>
     nd_hash (node_at c i) = payload_hash c (payload_at c i) \<and> nd_depth (node_at c i) = payload_depth c (payload_at c i) \<and>
     nd_depth (node_at c i) \<le> il_depth (ic_limits c)"

definition nodes_ok :: "phy_ir_context \<Rightarrow> bool" where
  "nodes_ok c \<longleftrightarrow> 1 \<le> pl_count (ic_nodes c) \<and> pl_count (ic_nodes c) \<le> il_nodes (ic_limits c) + 1 \<and>
     (\<forall>i. valid_ref c i \<longrightarrow> node_ok c i) \<and> inj_on (payload_at c) {i. valid_ref c i}"

definition node_table_ok :: "phy_ir_context \<Rightarrow> bool" where
  "node_table_ok c \<longleftrightarrow> 0 < pl_count (ic_node_buckets c) \<and>
     chains_ok (\<lambda>i. nd_next (node_at c i)) (\<lambda>b. pl_data (ic_node_buckets c) ! b)
       (\<lambda>i. bucket_slot (nd_hash (node_at c i)) (pl_count (ic_node_buckets c))) (pl_count (ic_nodes c))
       {..<pl_count (ic_node_buckets c)}"

definition claims_ok :: "phy_ir_context \<Rightarrow> bool" where
  "claims_ok c \<longleftrightarrow> claim_nodes c [1..<pl_count (ic_nodes c)] \<lparr>nc_children = 0, nc_rationals = 0, nc_bigs = 0, nc_text = 0\<rparr> =
     Some \<lparr>nc_children = pl_count (ic_children c), nc_rationals = pl_count (ic_rationals c),
       nc_bigs = pl_count (ic_big_exacts c), nc_text = pl_count (ic_exact_text c)\<rparr>"

definition limits_ok :: "phy_ir_context \<Rightarrow> bool" where
  "limits_ok c \<longleftrightarrow> 1 \<le> il_depth (ic_limits c) \<and> il_depth (ic_limits c) \<le> PHY_IR_MAX_DEPTH_CEILING \<and>
     il_children (ic_limits c) \<le> PHY_IR_MAX_CHILDREN_CEILING"

definition graph_ok :: "phy_ir_context \<Rightarrow> bool" where
  "graph_ok c \<longleftrightarrow> limits_ok c \<and> symbols_ok c \<and> symbol_table_ok c \<and> symmetries_ok c \<and> nodes_ok c \<and> node_table_ok c \<and> claims_ok c"

definition ir_inv :: "phy_ir_context \<Rightarrow> bool" where
  "ir_inv c \<longleftrightarrow> graph_ok c \<and> books_ok c"

section \<open>Growth\<close>

text \<open>A node without its place in a chain, a symbol without that and its declarations.\<close>

abbreviation still :: "phy_ir_node \<Rightarrow> phy_ir_node" where
  "still nd \<equiv> nd\<lparr>nd_next := 0\<rparr>"

abbreviation still_symbol :: "phy_ir_symbol_record \<Rightarrow> phy_ir_symbol_record" where
  "still_symbol r \<equiv> r\<lparr>sy_next := 0, sy_assumptions := 0, sy_symmetry_head := 0\<rparr>"

definition grows :: "phy_ir_context \<Rightarrow> phy_ir_context \<Rightarrow> bool" where
  "grows c c' \<longleftrightarrow> ic_limits c' = ic_limits c \<and>
     prefix (map still (pl_data (ic_nodes c))) (map still (pl_data (ic_nodes c'))) \<and>
     prefix (map still_symbol (pl_data (ic_symbols c))) (map still_symbol (pl_data (ic_symbols c'))) \<and>
     prefix (pl_data (ic_children c)) (pl_data (ic_children c')) \<and> prefix (pl_data (ic_rationals c)) (pl_data (ic_rationals c')) \<and>
     prefix (pl_data (ic_big_exacts c)) (pl_data (ic_big_exacts c')) \<and>
     prefix (pl_data (ic_exact_text c)) (pl_data (ic_exact_text c')) \<and> prefix (pl_data (ic_strings c)) (pl_data (ic_strings c'))"

lemma ir_grows_trans: "grows a b \<Longrightarrow> grows b c \<Longrightarrow> grows a c"
  unfolding grows_def by (auto intro: prefix_order.trans)

lemma graph_grows: "graph c' = graph c \<Longrightarrow> grows c c'"
  by (simp add: graph_eq grows_def)

lemma prefix_nth: "prefix xs ys \<Longrightarrow> i < length xs \<Longrightarrow> i < length ys \<and> ys ! i = xs ! i"
  by (auto simp: prefix_def nth_append)

lemma prefix_slice: "prefix xs ys \<Longrightarrow> off + n \<le> length xs \<Longrightarrow> array_slice off n ys = array_slice off n xs"
  by (auto simp: prefix_def array_slice_def)

lemma prefix_length: "prefix xs ys \<Longrightarrow> length xs \<le> length ys"
  by (rule prefix_length_le)

lemma still_fields:
  assumes "still a = still b"
  shows "nd_kind a = nd_kind b" "nd_aux a = nd_aux b" "nd_depth a = nd_depth b" "nd_child_count a = nd_child_count b"
    "nd_hash a = nd_hash b" "nd_head a = nd_head b" "nd_child_offset a = nd_child_offset b"
    "nd_rational_index a = nd_rational_index b" "nd_index_space a = nd_index_space b" "nd_integer a = nd_integer b" "nd_real a = nd_real b"
  using assms by (cases a, cases b, simp)+

lemma grows_node:
  assumes "grows c c'" "i < pl_count (ic_nodes c)"
  shows "i < pl_count (ic_nodes c')" "still (node_at c' i) = still (node_at c i)"
  using prefix_nth [of "map still (pl_data (ic_nodes c))" "map still (pl_data (ic_nodes c'))" i] assms
  by (auto simp: grows_def)

lemma still_symbol_fields:
  assumes "still_symbol a = still_symbol b"
  shows "sy_offset a = sy_offset b" "sy_length a = sy_length b" "sy_hash a = sy_hash b"
  using assms by (cases a, cases b, simp)+

lemma grows_symbol:
  assumes "grows c c'" "s < pl_count (ic_symbols c)"
  shows "s < pl_count (ic_symbols c')" "sy_offset (symbol_record c' s) = sy_offset (symbol_record c s)"
    "sy_length (symbol_record c' s) = sy_length (symbol_record c s)" "sy_hash (symbol_record c' s) = sy_hash (symbol_record c s)"
proof -
  have p: "prefix (map still_symbol (pl_data (ic_symbols c))) (map still_symbol (pl_data (ic_symbols c')))"
    using assms(1) by (simp add: grows_def)
  show l: "s < pl_count (ic_symbols c')" using prefix_length [OF p] assms(2) by simp
  have "still_symbol (symbol_record c' s) = still_symbol (symbol_record c s)" using prefix_nth [OF p, of s] assms(2) l by simp
  from still_symbol_fields [OF this] show "sy_offset (symbol_record c' s) = sy_offset (symbol_record c s)"
    "sy_length (symbol_record c' s) = sy_length (symbol_record c s)" "sy_hash (symbol_record c' s) = sy_hash (symbol_record c s)"
    by simp_all
qed

lemma grows_name:
  assumes "grows c c'" "s < pl_count (ic_symbols c)" "symbol_ok c s"
  shows "sym_name c' s = sym_name c s"
  using grows_symbol [OF assms(1,2)] assms(1,3)
    prefix_slice [of "pl_data (ic_strings c)" "pl_data (ic_strings c')" "sy_offset (symbol_record c s)" "sy_length (symbol_record c s)"]
  by (simp add: sym_name_def symbol_ok_def grows_def)

text \<open>A stored node keeps its payload and stays stored.\<close>

lemma grows_stored:
  assumes g: "grows c c'" and nd: "still nd' = still nd" and st: "stored_ok c nd"
  shows "payload_of c' nd' = payload_of c nd" "stored_ok c' nd'"
proof -
  note f = still_fields [OF nd]
  have p: "prefix (pl_data (ic_children c)) (pl_data (ic_children c'))" "prefix (pl_data (ic_rationals c)) (pl_data (ic_rationals c'))"
    "prefix (pl_data (ic_big_exacts c)) (pl_data (ic_big_exacts c'))" "prefix (pl_data (ic_exact_text c)) (pl_data (ic_exact_text c'))"
    using g by (simp_all add: grows_def)
  note len = p [THEN prefix_length]
  have big: "PHY_IR_EXACT_BIG \<noteq> 0" by (simp add: PHY_IR_EXACT_BIG_def)
  have b: "big_stored c nd \<Longrightarrow> big_stored c' nd' \<and> pl_data (ic_big_exacts c') ! nd_rational_index nd = pl_data (ic_big_exacts c) ! nd_rational_index nd \<and>
      (let big = pl_data (ic_big_exacts c) ! nd_rational_index nd in
       array_slice (be_num_offset big) (be_num_length big) (pl_data (ic_exact_text c')) = array_slice (be_num_offset big) (be_num_length big) (pl_data (ic_exact_text c)) \<and>
       array_slice (be_den_offset big) (be_den_length big) (pl_data (ic_exact_text c')) = array_slice (be_den_offset big) (be_den_length big) (pl_data (ic_exact_text c)))"
    using prefix_nth [OF p(3), of "nd_rational_index nd"] prefix_slice [OF p(4)] len(4) f by (auto simp: big_stored_def Let_def)
  have r: "nd_rational_index nd < pl_count (ic_rationals c) \<Longrightarrow>
      nd_rational_index nd < pl_count (ic_rationals c') \<and> pl_data (ic_rationals c') ! nd_rational_index nd = pl_data (ic_rationals c) ! nd_rational_index nd"
    using prefix_nth [OF p(2)] by blast
  have ch: "(nd_child_count nd \<noteq> 0 \<longrightarrow> nd_child_offset nd + nd_child_count nd \<le> pl_count (ic_children c)) \<Longrightarrow>
      phy_ir_children_of c' nd' = phy_ir_children_of c nd"
    using prefix_slice [OF p(1)] f by (auto simp: phy_ir_children_of_def)
  show "payload_of c' nd' = payload_of c nd"
    using st b r ch f big by (auto simp: payload_of_def stored_ok_def Let_def split: if_splits)
  show "stored_ok c' nd'"
    using st b r len f big by (auto simp: stored_ok_def split: if_splits)
qed

end
