(* ===== verification/IrGrow.thy ===== *)
theory IrGrow
  imports IrInv
begin

text \<open>
  The graph only grows: payloads, hashes, depths and names of what exists do not change when
  nodes or symbols are added, when chains are refiled, or when a symbol gets declarations.
\<close>

section \<open>Payloads under growth\<close>

lemma foldl_cong_set: "(\<And>a x. x \<in> set xs \<Longrightarrow> f a x = g a x) \<Longrightarrow> foldl f a xs = foldl g a xs"
  by (induction xs arbitrary: a) simp_all

lemma fold_cong_set: "(\<And>x. x \<in> set xs \<Longrightarrow> f x = g x) \<Longrightarrow> fold f xs a = fold g xs a"
  by (rule fold_cong) simp_all

lemma grows_counts:
  assumes "grows c c'"
  shows "pl_count (ic_nodes c) \<le> pl_count (ic_nodes c')" "pl_count (ic_symbols c) \<le> pl_count (ic_symbols c')"
    "pl_count (ic_children c) \<le> pl_count (ic_children c')" "pl_count (ic_rationals c) \<le> pl_count (ic_rationals c')"
    "pl_count (ic_big_exacts c) \<le> pl_count (ic_big_exacts c')" "pl_count (ic_exact_text c) \<le> pl_count (ic_exact_text c')"
    "pl_count (ic_strings c) \<le> pl_count (ic_strings c')" "ic_limits c' = ic_limits c"
  using assms by (auto simp: grows_def dest: prefix_length)

lemma grows_payload_ok: "grows c c' \<Longrightarrow> payload_ok c i p \<Longrightarrow> payload_ok c' i p"
  using grows_counts [of c c'] by (cases p) (auto split: if_splits)

lemma grows_node_fields:
  assumes "grows c c'" "i < pl_count (ic_nodes c)"
  shows "nd_hash (node_at c' i) = nd_hash (node_at c i)" "nd_depth (node_at c' i) = nd_depth (node_at c i)"
    "nd_kind (node_at c' i) = nd_kind (node_at c i)"
  using still_fields [OF grows_node(2) [OF assms]] by simp_all

lemma grows_hash:
  assumes g: "grows c c'" and p: "payload_ok c i p" "i \<le> pl_count (ic_nodes c)"
  shows "payload_hash c' p = payload_hash c p"
proof (cases p)
  case (P_compound k h cs)
  have "nd_hash (node_at c' x) = nd_hash (node_at c x)" if "x \<in> set cs" for x
    using grows_node_fields(1) [OF g, of x] that p P_compound by auto
  moreover have "HEADED \<in> set (phy_ir_kind_flags k) \<Longrightarrow> sy_hash (symbol_record c' h) = sy_hash (symbol_record c h)"
    using grows_symbol(4) [OF g] p P_compound by simp
  ultimately show ?thesis unfolding P_compound payload_hash.simps compound_hash_def
    by (auto intro!: foldl_cong_set)
qed (use grows_symbol(4) [OF g] p in auto)

lemma grows_deepest:
  assumes "grows c c'" "\<forall>x \<in> set cs. x < pl_count (ic_nodes c)"
  shows "deepest c' cs = deepest c cs"
  unfolding deepest_def by (rule fold_cong_set) (use grows_node_fields(2) [OF assms(1)] assms(2) in simp)

lemma grows_depth:
  assumes g: "grows c c'" and p: "payload_ok c i p" "i \<le> pl_count (ic_nodes c)"
  shows "payload_depth c' p = payload_depth c p"
proof (cases p)
  case (P_compound k h cs)
  then have "\<forall>x \<in> set cs. x < pl_count (ic_nodes c)" using p by auto
  from grows_deepest [OF g this] show ?thesis using P_compound by simp
qed simp_all

lemma grows_at:
  assumes g: "grows c c'" and i: "valid_ref c i" "node_ok c i"
  shows "valid_ref c' i" "payload_at c' i = payload_at c i" "node_ok c' i"
proof -
  note n = grows_node [OF g, of i] and st = i(2) [unfolded node_ok_def]
  show "valid_ref c' i" using n i by simp
  show p: "payload_at c' i = payload_at c i" using grows_stored(1) [OF g, of "node_at c' i" "node_at c i"] n i st by simp
  have "stored_ok c' (node_at c' i)" using grows_stored(2) [OF g, of "node_at c' i" "node_at c i"] n i st by simp
  then show "node_ok c' i" unfolding node_ok_def p
    using st i grows_payload_ok [OF g] grows_hash [OF g, of i] grows_depth [OF g, of i] grows_node_fields [OF g, of i] grows_counts(8) [OF g]
    by simp
qed

section \<open>Claims under growth\<close>

lemma grows_claim:
  assumes g: "grows c c'" and i: "valid_ref c i" and ok: "claim_node c i n = Some m"
  shows "claim_node c' i n = Some m"
proof -
  note f = still_fields [OF grows_node(2) [OF g, of i]] and k = grows_counts [OF g]
  have b: "phy_ir_big_exact_at c j = Some e \<Longrightarrow> phy_ir_big_exact_at c' j = Some e" for j e
    using prefix_nth [of "pl_data (ic_big_exacts c)" "pl_data (ic_big_exacts c')" j] g
    by (auto simp: phy_ir_big_exact_at_def grows_def split: if_splits)
  have e: "claim_exact c (node_at c i) n = Some l \<Longrightarrow> claim_exact c' (node_at c' i) n = Some l" for l
    using f i k b by (auto simp: claim_exact_def Let_def split: if_splits option.splits)
  have s: "phy_ir_symbol_at c' s = None \<Longrightarrow> phy_ir_symbol_at c s = None" for s
    using k by (auto simp: phy_ir_symbol_at_def split: if_splits)
  have ch: "phy_ir_children_of c' (node_at c' i) = phy_ir_children_of c (node_at c i)"
    if "nd_child_count (node_at c i) \<noteq> 0 \<Longrightarrow> nd_child_offset (node_at c i) + nd_child_count (node_at c i) \<le> pl_count (ic_children c)"
    using prefix_slice [of "pl_data (ic_children c)" "pl_data (ic_children c')"] g f that i
    by (auto simp: phy_ir_children_of_def grows_def)
  obtain l where l: "claim_exact c (node_at c i) n = Some l" using ok by (auto simp: claim_node_def Let_def split: option.splits)
  show ?thesis using ok l e [OF l] s ch f i k
    by (auto simp: claim_node_def Let_def split: if_splits)
qed

lemma grows_claims:
  assumes g: "grows c c'" and i: "\<forall>i \<in> set is. valid_ref c i" and ok: "claim_nodes c is n = Some m"
  shows "claim_nodes c' is n = Some m"
  using i ok
proof (induction "is" arbitrary: n)
  case (Cons i "is")
  then show ?case using grows_claim [OF g, of i] by (auto split: option.splits)
qed simp

lemma claim_nodes_append: "claim_nodes c (is @ js) n = (case claim_nodes c is n of None \<Rightarrow> None | Some m \<Rightarrow> claim_nodes c js m)"
  by (induction "is" arbitrary: n) (auto split: option.splits)

section \<open>What each change keeps\<close>

lemma nodes_keep:
  assumes g: "grows c c'" and n: "pl_count (ic_nodes c') = pl_count (ic_nodes c)" and ok: "nodes_ok c"
  shows "nodes_ok c'"
proof -
  have p: "payload_at c' i = payload_at c i" "node_ok c' i" if "valid_ref c' i" for i
    using grows_at [OF g, of i] ok that n by (auto simp: nodes_ok_def)
  have "inj_on (payload_at c') {i. valid_ref c' i} \<longleftrightarrow> inj_on (payload_at c) {i. valid_ref c' i}"
    by (rule inj_on_cong) (use p in simp)
  then show ?thesis using ok p n grows_counts(8) [OF g] by (simp add: nodes_ok_def)
qed

lemma claims_keep:
  assumes g: "grows c c'" and n: "pl_count (ic_nodes c') = pl_count (ic_nodes c)" "pl_count (ic_children c') = pl_count (ic_children c)"
    "pl_count (ic_rationals c') = pl_count (ic_rationals c)" "pl_count (ic_big_exacts c') = pl_count (ic_big_exacts c)"
    "pl_count (ic_exact_text c') = pl_count (ic_exact_text c)" and ok: "claims_ok c"
  shows "claims_ok c'"
  using grows_claims [OF g _ ok [unfolded claims_ok_def]] n by (simp add: claims_ok_def)

lemma limits_keep: "grows c c' \<Longrightarrow> limits_ok c \<Longrightarrow> limits_ok c'"
  by (simp add: limits_ok_def grows_def)

lemma symbols_keep:
  assumes s: "map still_symbol (pl_data (ic_symbols c')) = map still_symbol (pl_data (ic_symbols c))"
    "pl_data (ic_strings c') = pl_data (ic_strings c)" and ok: "symbols_ok c"
  shows "symbols_ok c'"
proof -
  have n: "pl_count (ic_symbols c') = pl_count (ic_symbols c)" using arg_cong [OF s(1), of length] by simp
  have f: "sy_offset (symbol_record c' i) = sy_offset (symbol_record c i)" "sy_length (symbol_record c' i) = sy_length (symbol_record c i)"
    "sy_hash (symbol_record c' i) = sy_hash (symbol_record c i)" if "i < pl_count (ic_symbols c)" for i
    using still_symbol_fields [of "symbol_record c' i" "symbol_record c i"] arg_cong [OF s(1), of "\<lambda>xs. xs ! i"] that n by simp_all
  have name: "sym_name c' i = sym_name c i" if "valid_symbol c i" for i using f that s(2) by (simp add: sym_name_def)
  have i: "inj_on (sym_name c') {s. valid_symbol c s} \<longleftrightarrow> inj_on (sym_name c) {s. valid_symbol c s}"
    by (rule inj_on_cong) (use name in simp)
  have o': "symbol_ok c' i = symbol_ok c i" if "valid_symbol c i" for i using f name that s(2) by (simp add: symbol_ok_def)
  have "map (\<lambda>r. sy_length r + 1) (pl_data (ic_symbols c')) = map (\<lambda>r. sy_length r + 1) (pl_data (ic_symbols c))"
    using arg_cong [OF s(1), of "map (\<lambda>r. sy_length r + 1)"] by (simp add: o_def)
  then have "map (\<lambda>r. sy_length r + 1) (drop 1 (pl_data (ic_symbols c'))) = map (\<lambda>r. sy_length r + 1) (drop 1 (pl_data (ic_symbols c)))"
    by (simp only: flip: drop_map)
  then show ?thesis using ok n i o' s(2) unfolding symbols_ok_def by simp
qed

lemma graph_ok_eq:
  assumes "graph c' = graph c"
  shows "graph_ok c' \<longleftrightarrow> graph_ok c"
proof -
  have "graph_ok b" if g: "graph b = graph a" and ok: "graph_ok a" for a b
  proof -
    note e = g [unfolded graph_eq] and gr = graph_grows [OF g]
    have "limits_ok b" "symbols_ok b" "nodes_ok b" "claims_ok b"
      using limits_keep [OF gr] symbols_keep [of b a] nodes_keep [OF gr] claims_keep [OF gr] e ok by (simp_all add: graph_ok_def)
    moreover have "symbol_table_ok b" "node_table_ok b" "symmetries_ok b"
      using e ok by (simp_all add: graph_ok_def symbol_table_ok_def node_table_ok_def symmetries_ok_def)
    ultimately show ?thesis by (simp add: graph_ok_def)
  qed
  then show ?thesis using assms by metis
qed

end
