(* ===== verification/IrBooks.thy ===== *)
theory IrBooks
  imports IrGrow
begin

text \<open>
  The books under reservations: a refused reservation changes nothing but the pending error, a
  granted one leaves books that balance for every pool it may be for.
\<close>

section \<open>Refusals\<close>

lemma recounted_graph: "recounted c c1 \<Longrightarrow> graph c1 = graph c"
  using recounted_fields [of c c1] by (simp add: graph_eq)

lemma recounted_books: "recounted c c1 \<Longrightarrow> ic_bytes c1 = ic_bytes c \<Longrightarrow> books_ok c1 = books_ok c"
  using recounted_fields [of c c1] by (simp add: books_ok_def ir_books_def)

text \<open>What a refused step leaves: the same graph, balanced books, and an error.\<close>

definition refused :: "phy_ir_context \<Rightarrow> phy_ir_context \<Rightarrow> bool" where
  "refused c c' \<longleftrightarrow> graph c' = graph c \<and> books_ok c' \<and> ic_error c' \<noteq> PHY_OK"

lemma refused_trans: "refused c c' \<Longrightarrow> graph c = graph c0 \<Longrightarrow> refused c0 c'"
  by (simp add: refused_def)

lemma refused_error: "books_ok c \<Longrightarrow> st \<noteq> PHY_OK \<Longrightarrow> refused c (phy_ir_set_error c st)"
  by (simp add: refused_def error_stays)

lemma reserve_refused:
  assumes "phy_ir_pool_reserve c pool el needed = (False, c1, p1)" "books_ok c"
  shows "refused c c1" "p1 = pool"
proof -
  note s = ir_reserve_spec [OF assms(1)]
  have b: "ic_bytes c1 = ic_bytes c" "p1 = pool" "ic_error c1 \<noteq> PHY_OK" using s(5) by simp_all
  show "p1 = pool" by (fact b)
  show "refused c c1" using recounted_graph [OF s(1)] recounted_books [OF s(1) b(1)] assms(2) b(3) by (simp add: refused_def)
qed

lemma push_refused:
  assumes "pool_push c pool el x = (None, c1, p1)" "books_ok c"
  shows "refused c c1" "p1 = pool"
proof -
  obtain ok c2 p2 where r: "phy_ir_pool_reserve c pool el (pl_count pool + 1) = (ok, c2, p2)" by (metis prod_cases3)
  then have "\<not> ok" "c2 = c1" "p2 = p1" using assms(1) by (auto simp: pool_push_def split: if_splits)
  then show "refused c c1" "p1 = pool" using reserve_refused [OF _ assms(2)] r by simp_all
qed

lemma init_refused:
  assumes "buckets_init c pool n = (False, c1, p1)" "books_ok c"
  shows "refused c c1"
proof -
  obtain ok c2 p2 where r: "phy_ir_pool_reserve c pool sizeof_ir_ref n = (ok, c2, p2)" by (metis prod_cases3)
  then have "\<not> ok" "c2 = c1" using assms(1) by (auto simp: buckets_init_def split: if_splits)
  then show ?thesis using reserve_refused [OF _ assms(2)] r by simp
qed

section \<open>Grants\<close>

text \<open>
  The pool of a granted reservation, with any contents that fit, balances the books again. The
  two parts are what a pool is charged and what it holds.
\<close>

lemma granted:
  assumes "phy_ir_pool_reserve c pool el needed = (True, c1, p1)"
  shows "recounted c c1" "pl_data p1 = pl_data pool" "needed \<le> pl_capacity p1" "ic_error c1 = ic_error c"
    "pl_capacity pool \<le> pl_capacity p1"
  using ir_reserve_spec [OF assms] by simp_all

lemma granted_books:
  assumes b: "books_ok c" and n: "length d \<le> pl_capacity p1"
  shows "phy_ir_pool_reserve c (ic_nodes c) 32 m = (True, c1, p1) \<Longrightarrow> books_ok (c1\<lparr>ic_nodes := p1\<lparr>pl_data := d\<rparr>\<rparr>)"
  using b n ir_reserve_spec(6,7) [of c "ic_nodes c" 32 m True c1 p1] recounted_fields [OF granted(1), of c "ic_nodes c" 32 m c1 p1]
  by (auto simp: books_ok_def ir_books_def)

lemma granted_children:
  assumes b: "books_ok c" and n: "length d \<le> pl_capacity p1"
  shows "phy_ir_pool_reserve c (ic_children c) 4 m = (True, c1, p1) \<Longrightarrow> books_ok (c1\<lparr>ic_children := p1\<lparr>pl_data := d\<rparr>\<rparr>)"
  using b n ir_reserve_spec(6,7) [of c "ic_children c" 4 m True c1 p1] recounted_fields [OF granted(1), of c "ic_children c" 4 m c1 p1]
  by (auto simp: books_ok_def ir_books_def)

lemma granted_rationals:
  assumes b: "books_ok c" and n: "length d \<le> pl_capacity p1"
  shows "phy_ir_pool_reserve c (ic_rationals c) 16 m = (True, c1, p1) \<Longrightarrow> books_ok (c1\<lparr>ic_rationals := p1\<lparr>pl_data := d\<rparr>\<rparr>)"
  using b n ir_reserve_spec(6,7) [of c "ic_rationals c" 16 m True c1 p1] recounted_fields [OF granted(1), of c "ic_rationals c" 16 m c1 p1]
  by (auto simp: books_ok_def ir_books_def)

lemma granted_bigs:
  assumes b: "books_ok c" and n: "length d \<le> pl_capacity p1"
  shows "phy_ir_pool_reserve c (ic_big_exacts c) 16 m = (True, c1, p1) \<Longrightarrow> books_ok (c1\<lparr>ic_big_exacts := p1\<lparr>pl_data := d\<rparr>\<rparr>)"
  using b n ir_reserve_spec(6,7) [of c "ic_big_exacts c" 16 m True c1 p1] recounted_fields [OF granted(1), of c "ic_big_exacts c" 16 m c1 p1]
  by (auto simp: books_ok_def ir_books_def)

lemma granted_text:
  assumes b: "books_ok c" and n: "length d \<le> pl_capacity p1"
  shows "phy_ir_pool_reserve c (ic_exact_text c) 1 m = (True, c1, p1) \<Longrightarrow> books_ok (c1\<lparr>ic_exact_text := p1\<lparr>pl_data := d\<rparr>\<rparr>)"
  using b n ir_reserve_spec(6,7) [of c "ic_exact_text c" 1 m True c1 p1] recounted_fields [OF granted(1), of c "ic_exact_text c" 1 m c1 p1]
  by (auto simp: books_ok_def ir_books_def)

lemma granted_symbols:
  assumes b: "books_ok c" and n: "length d \<le> pl_capacity p1"
  shows "phy_ir_pool_reserve c (ic_symbols c) 24 m = (True, c1, p1) \<Longrightarrow> books_ok (c1\<lparr>ic_symbols := p1\<lparr>pl_data := d\<rparr>\<rparr>)"
  using b n ir_reserve_spec(6,7) [of c "ic_symbols c" 24 m True c1 p1] recounted_fields [OF granted(1), of c "ic_symbols c" 24 m c1 p1]
  by (auto simp: books_ok_def ir_books_def)

lemma granted_strings:
  assumes b: "books_ok c" and n: "length d \<le> pl_capacity p1"
  shows "phy_ir_pool_reserve c (ic_strings c) 1 m = (True, c1, p1) \<Longrightarrow> books_ok (c1\<lparr>ic_strings := p1\<lparr>pl_data := d\<rparr>\<rparr>)"
  using b n ir_reserve_spec(6,7) [of c "ic_strings c" 1 m True c1 p1] recounted_fields [OF granted(1), of c "ic_strings c" 1 m c1 p1]
  by (auto simp: books_ok_def ir_books_def)

lemma granted_symmetries:
  assumes b: "books_ok c" and n: "length d \<le> pl_capacity p1"
  shows "phy_ir_pool_reserve c (ic_symmetries c) 16 m = (True, c1, p1) \<Longrightarrow> books_ok (c1\<lparr>ic_symmetries := p1\<lparr>pl_data := d\<rparr>\<rparr>)"
  using b n ir_reserve_spec(6,7) [of c "ic_symmetries c" 16 m True c1 p1] recounted_fields [OF granted(1), of c "ic_symmetries c" 16 m c1 p1]
  by (auto simp: books_ok_def ir_books_def)

lemma granted_scratch:
  assumes b: "books_ok c" and n: "length d \<le> pl_capacity p1"
  shows "phy_ir_pool_reserve c (ic_scratch c) 4 m = (True, c1, p1) \<Longrightarrow> books_ok (c1\<lparr>ic_scratch := p1\<lparr>pl_data := d\<rparr>\<rparr>)"
  using b n ir_reserve_spec(6,7) [of c "ic_scratch c" 4 m True c1 p1] recounted_fields [OF granted(1), of c "ic_scratch c" 4 m c1 p1]
  by (auto simp: books_ok_def ir_books_def)

lemma push_granted:
  assumes "pool_push c pool el x = (Some i, c1, p1)"
  obtains p where "phy_ir_pool_reserve c pool el (pl_count pool + 1) = (True, c1, p)" "i = pl_count pool"
    "p1 = p\<lparr>pl_data := pl_data pool @ [x]\<rparr>" "length (pl_data pool @ [x]) \<le> pl_capacity p" "recounted c c1" "ic_error c1 = ic_error c"
proof -
  obtain ok c2 p where r: "phy_ir_pool_reserve c pool el (pl_count pool + 1) = (ok, c2, p)" by (metis prod_cases3)
  then have e: "ok" "c2 = c1" "p1 = p\<lparr>pl_data := pl_data p @ [x]\<rparr>" "i = pl_count p"
    using assms by (auto simp: pool_push_def split: if_splits)
  note g = granted [of c pool el "pl_count pool + 1" c1 p]
  show ?thesis using that [of p] r e g by simp
qed

section \<open>New bucket tables\<close>

lemma swap_buckets:
  assumes b: "books_ok c" and i: "buckets_init c empty_pool n = (True, c1, grown)" and n: "0 < n" and d: "length table = n"
  shows "recounted c c1" "ic_error c1 = ic_error c" "pl_data grown = replicate n 0"
    "phy_ir_pool_release c1 (ic_symbol_buckets c1) sizeof_ir_ref = (c2, q) \<Longrightarrow>
      length rs = pl_count (ic_symbols c) \<Longrightarrow>
      books_ok (c2\<lparr>ic_symbols := (ic_symbols c2)\<lparr>pl_data := rs\<rparr>, ic_symbol_buckets := grown\<lparr>pl_data := table\<rparr>\<rparr>)"
    "phy_ir_pool_release c1 (ic_node_buckets c1) sizeof_ir_ref = (c2, q) \<Longrightarrow>
      length ns = pl_count (ic_nodes c) \<Longrightarrow>
      books_ok (c2\<lparr>ic_nodes := (ic_nodes c2)\<lparr>pl_data := ns\<rparr>, ic_node_buckets := grown\<lparr>pl_data := table\<rparr>\<rparr>)"
proof -
  obtain ok c0 and p :: "nat phy_pool" where r: "phy_ir_pool_reserve c empty_pool 4 n = (ok, c0, p)" by (metis prod_cases3)
  then have e: "ok" "c0 = c1" "grown = p\<lparr>pl_data := replicate n 0\<rparr>"
    using i by (auto simp: buckets_init_def ir_sizes split: if_splits)
  have g: "recounted c c1" "n \<le> pl_capacity p" "ic_error c1 = ic_error c" using granted [of c empty_pool 4 n c1 p] r e by simp_all
  have bt: "ic_bytes c1 = ic_bytes c + pl_capacity p * 4" "ic_bytes c1 \<le> il_bytes (ic_limits c)"
    using ir_reserve_spec(6,7) [of c empty_pool 4 n True c1 p] r e b by (simp_all add: empty_pool_def books_ok_def)
  show "recounted c c1" "ic_error c1 = ic_error c" "pl_data grown = replicate n 0" using g e by simp_all
  note f = recounted_fields [OF g(1)]
  have rel: "fst (phy_ir_pool_release c1 q4 sizeof_ir_ref) = c1\<lparr>ic_bytes := ic_bytes c1 - pl_capacity q4 * 4\<rparr>" for q4 :: "nat phy_pool"
    by (simp add: phy_ir_pool_release_def ir_discharge_def ir_sizes)
  have cap: "pl_capacity grown = pl_capacity p" using e by simp
  have n': "n \<le> pl_capacity p" "length table = n" by (fact g d)+
  have bk: "ic_bytes c = ir_books c" "books_ok c" using b by (simp_all add: books_ok_def)
  have fit: "fits (ic_children c1)" "fits (ic_rationals c1)" "fits (ic_big_exacts c1)" "fits (ic_exact_text c1)" "fits (ic_strings c1)"
    "fits (ic_symmetries c1)" "fits (ic_scratch c1)" "fits (ic_nodes c1)" "fits (ic_symbols c1)" "fits (ic_node_buckets c1)"
    "fits (ic_symbol_buckets c1)" "il_bytes (ic_limits c1) \<le> SIZE_MAX" "ic_bytes c1 \<le> il_bytes (ic_limits c1)"
    using b bt(2) by (simp_all add: books_ok_def f)
  show "books_ok (c2\<lparr>ic_symbols := (ic_symbols c2)\<lparr>pl_data := rs\<rparr>, ic_symbol_buckets := grown\<lparr>pl_data := table\<rparr>\<rparr>)"
    if "phy_ir_pool_release c1 (ic_symbol_buckets c1) sizeof_ir_ref = (c2, q)" "length rs = pl_count (ic_symbols c)"
  proof -
    have c2: "c2 = c1\<lparr>ic_bytes := ic_bytes c1 - pl_capacity (ic_symbol_buckets c1) * 4\<rparr>" using rel [of "ic_symbol_buckets c1"] that(1) by simp
    have "ir_books c + pl_capacity p * 4 = ir_books (c2\<lparr>ic_symbols := (ic_symbols c2)\<lparr>pl_data := rs\<rparr>, ic_symbol_buckets := grown\<lparr>pl_data := table\<rparr>\<rparr>) +
        pl_capacity (ic_symbol_buckets c1) * 4"
      by (simp add: ir_books_def c2 f cap)
    then have "ic_bytes c1 - pl_capacity (ic_symbol_buckets c1) * 4 =
        ir_books (c2\<lparr>ic_symbols := (ic_symbols c2)\<lparr>pl_data := rs\<rparr>, ic_symbol_buckets := grown\<lparr>pl_data := table\<rparr>\<rparr>)"
      using bk(1) bt(1) by linarith
    moreover have "length rs \<le> pl_capacity (ic_symbols c1)" using fit(9) that(2) by (simp add: f)
    ultimately show ?thesis using fit n' cap unfolding books_ok_def by (simp add: c2 trans_le_add1 le_diff_conv)
  qed
  show "books_ok (c2\<lparr>ic_nodes := (ic_nodes c2)\<lparr>pl_data := ns\<rparr>, ic_node_buckets := grown\<lparr>pl_data := table\<rparr>\<rparr>)"
    if "phy_ir_pool_release c1 (ic_node_buckets c1) sizeof_ir_ref = (c2, q)" "length ns = pl_count (ic_nodes c)"
  proof -
    have c2: "c2 = c1\<lparr>ic_bytes := ic_bytes c1 - pl_capacity (ic_node_buckets c1) * 4\<rparr>" using rel [of "ic_node_buckets c1"] that(1) by simp
    have "ir_books c + pl_capacity p * 4 = ir_books (c2\<lparr>ic_nodes := (ic_nodes c2)\<lparr>pl_data := ns\<rparr>, ic_node_buckets := grown\<lparr>pl_data := table\<rparr>\<rparr>) +
        pl_capacity (ic_node_buckets c1) * 4"
      by (simp add: ir_books_def c2 f cap)
    then have "ic_bytes c1 - pl_capacity (ic_node_buckets c1) * 4 =
        ir_books (c2\<lparr>ic_nodes := (ic_nodes c2)\<lparr>pl_data := ns\<rparr>, ic_node_buckets := grown\<lparr>pl_data := table\<rparr>\<rparr>)"
      using bk(1) bt(1) by linarith
    moreover have "length ns \<le> pl_capacity (ic_nodes c1)" using fit(8) that(2) by (simp add: f)
    ultimately show ?thesis using fit n' cap unfolding books_ok_def by (simp add: c2 trans_le_add1 le_diff_conv)
  qed
qed

end
