(* ===== verification/IrNames.thy ===== *)
theory IrNames
  imports IrBooks
begin

text \<open>
  Rehashing and the interning of names keep the invariant; a name gets one handle, and keeps it.
\<close>

section \<open>Rehashing\<close>

text \<open>The same graph with its chains filed anew.\<close>

definition refiled :: "phy_ir_context \<Rightarrow> phy_ir_context \<Rightarrow> bool" where
  "refiled c c' \<longleftrightarrow> ic_limits c' = ic_limits c \<and> map still (pl_data (ic_nodes c')) = map still (pl_data (ic_nodes c)) \<and>
     map (\<lambda>r. r\<lparr>sy_next := 0\<rparr>) (pl_data (ic_symbols c')) = map (\<lambda>r. r\<lparr>sy_next := 0\<rparr>) (pl_data (ic_symbols c)) \<and>
     pl_data (ic_children c') = pl_data (ic_children c) \<and> pl_data (ic_rationals c') = pl_data (ic_rationals c) \<and>
     pl_data (ic_big_exacts c') = pl_data (ic_big_exacts c) \<and> pl_data (ic_exact_text c') = pl_data (ic_exact_text c) \<and>
     pl_data (ic_strings c') = pl_data (ic_strings c) \<and> pl_data (ic_symmetries c') = pl_data (ic_symmetries c)"

lemma refiled_still_symbol:
  assumes "refiled c c'"
  shows "map still_symbol (pl_data (ic_symbols c')) = map still_symbol (pl_data (ic_symbols c))"
proof -
  let ?f = "\<lambda>r :: phy_ir_symbol_record. r\<lparr>sy_assumptions := 0, sy_symmetry_head := 0\<rparr>"
  have "map (\<lambda>r. r\<lparr>sy_next := 0\<rparr>) (pl_data (ic_symbols c')) = map (\<lambda>r. r\<lparr>sy_next := 0\<rparr>) (pl_data (ic_symbols c))"
    using assms by (simp add: refiled_def)
  from arg_cong [OF this, of "map ?f"] show ?thesis by (simp add: o_def)
qed

lemma refiled_grows: "refiled c c' \<Longrightarrow> grows c c'"
  using refiled_still_symbol [of c c'] by (simp add: refiled_def grows_def)

lemma refiled_symbol:
  assumes "refiled c c'" "s < pl_count (ic_symbols c)"
  shows "sy_symmetry_head (symbol_record c' s) = sy_symmetry_head (symbol_record c s)" "sy_assumptions (symbol_record c' s) = sy_assumptions (symbol_record c s)"
    "pl_count (ic_symbols c') = pl_count (ic_symbols c)"
proof -
  have m: "map (\<lambda>r. r\<lparr>sy_next := 0\<rparr>) (pl_data (ic_symbols c')) = map (\<lambda>r. r\<lparr>sy_next := 0\<rparr>) (pl_data (ic_symbols c))"
    using assms(1) by (simp add: refiled_def)
  show l: "pl_count (ic_symbols c') = pl_count (ic_symbols c)" using arg_cong [OF m, of length] by simp
  have "(symbol_record c' s)\<lparr>sy_next := 0\<rparr> = (symbol_record c s)\<lparr>sy_next := 0\<rparr>"
    using arg_cong [OF m, of "\<lambda>xs. xs ! s"] assms(2) l by simp
  from arg_cong [OF this, of sy_symmetry_head] arg_cong [OF this, of sy_assumptions]
  show "sy_symmetry_head (symbol_record c' s) = sy_symmetry_head (symbol_record c s)"
    "sy_assumptions (symbol_record c' s) = sy_assumptions (symbol_record c s)" by simp_all
qed

lemma refiled_keep:
  assumes r: "refiled c c'" and ok: "limits_ok c" "symbols_ok c" "symmetries_ok c" "nodes_ok c" "claims_ok c"
  shows "limits_ok c'" "symbols_ok c'" "symmetries_ok c'" "nodes_ok c'" "claims_ok c'"
proof -
  note g = refiled_grows [OF r] and s = refiled_symbol [OF r]
  have n: "pl_count (ic_nodes c') = pl_count (ic_nodes c)"
    using r map_eq_imp_length_eq [of still _ still] unfolding refiled_def by blast
  have sl: "pl_count (ic_symbols c') = pl_count (ic_symbols c)"
    using map_eq_imp_length_eq [OF refiled_still_symbol [OF r]] .
  show "limits_ok c'" by (rule limits_keep [OF g ok(1)])
  show "symbols_ok c'" by (rule symbols_keep [OF refiled_still_symbol [OF r] _ ok(2)]) (use r in \<open>simp add: refiled_def\<close>)
  show "nodes_ok c'" by (rule nodes_keep [OF g n ok(4)])
  show "claims_ok c'" by (rule claims_keep [OF g n _ _ _ _ ok(5)]) (use r in \<open>simp_all add: refiled_def\<close>)
  obtain owner where o: "\<forall>i. 1 \<le> i \<and> i < pl_count (ic_symmetries c) \<longrightarrow> valid_symbol c (owner i)"
    "chains_ok (\<lambda>i. sm_next (symmetry_record c i)) (\<lambda>s. sy_symmetry_head (symbol_record c s)) owner (pl_count (ic_symmetries c)) {s. valid_symbol c s}"
    using ok(3) by (auto simp: symmetries_ok_def)
  have "chains_ok (\<lambda>i. sm_next (symmetry_record c' i)) (\<lambda>s. sy_symmetry_head (symbol_record c' s)) owner
      (pl_count (ic_symmetries c)) {s. valid_symbol c s}"
    by (rule chains_cong [OF o(2)]) (use s r in \<open>auto simp: refiled_def\<close>)
  then show "symmetries_ok c'" using o(1) ok(3) r sl unfolding symmetries_ok_def refiled_def by (auto intro!: exI [of _ owner])
qed

lemma refiled_refl: "graph c' = graph c \<Longrightarrow> refiled c c'"
  by (simp add: graph_eq refiled_def)

lemma symbol_rehash_inv:
  assumes inv: "ir_inv c"
  shows "ir_inv (symbol_rehash c) \<and> refiled c (symbol_rehash c) \<and> ic_error (symbol_rehash c) = ic_error c"
proof -
  let ?nb = "pl_count (ic_symbol_buckets c)"
  have ok: "graph_ok c" "books_ok c" using inv by (simp_all add: ir_inv_def)
  have nb: "0 < ?nb" "pl_data (ic_symbols c) \<noteq> []" using ok(1) by (auto simp: graph_ok_def symbol_table_ok_def symbols_ok_def)
  obtain iok c1 grown where i: "buckets_init c empty_pool (?nb * 2) = (iok, c1, grown)" by (metis prod_cases3)
  consider "pl_count (ic_symbols c) \<le> ?nb - ?nb div 4" | "\<not> pl_count (ic_symbols c) \<le> ?nb - ?nb div 4" "\<not> iok"
    | "\<not> pl_count (ic_symbols c) \<le> ?nb - ?nb div 4" "iok" by blast
  then show ?thesis
  proof cases
    case 1
    then have "symbol_rehash c = c" by (simp add: symbol_rehash_def)
    then show ?thesis using inv refiled_refl [of c c] by simp
  next
    case 2
    then have e: "symbol_rehash c = c1\<lparr>ic_error := ic_error c\<rparr>" using i by (simp add: symbol_rehash_def Let_def)
    have "refused c c1" using init_refused [OF _ ok(2)] i 2 by simp
    then have r: "graph (symbol_rehash c) = graph c" "books_ok (symbol_rehash c)"
      by (simp_all add: e refused_def graph_def books_error_update)
    then show ?thesis using ok graph_ok_eq [OF r(1)] refiled_refl [OF r(1)] by (simp add: ir_inv_def e)
  next
    case 3
    obtain records table where rf: "refile sy_hash (\<lambda>n r. r\<lparr>sy_next := n\<rparr>) (pl_data (ic_symbols c), replicate (?nb * 2) 0) = (records, table)"
      by (metis surj_pair)
    note rm = refile_map [where set_next = "\<lambda>n r. r\<lparr>sy_next := n\<rparr>" and hash = sy_hash and rs = "pl_data (ic_symbols c)"
        and table = "replicate (?nb * 2) 0", unfolded rf fst_conv]
    have len: "length records = pl_count (ic_symbols c)" using rm [of "\<lambda>_. ()"] by (metis length_map)
    have tl: "length table = ?nb * 2" and
      ch: "chains_ok (\<lambda>i. sy_next (records ! i)) (\<lambda>b. table ! b) (\<lambda>i. bucket_slot (sy_hash (pl_data (ic_symbols c) ! i)) (?nb * 2))
        (pl_count (ic_symbols c)) {..<?nb * 2}"
      using refile_ok [where set_next = "\<lambda>n r. r\<lparr>sy_next := n\<rparr>" and hash = sy_hash and rs = "pl_data (ic_symbols c)" and link = sy_next
          and table = "replicate (?nb * 2) 0" and nb = "?nb * 2"] rf nb by simp_all
    have hs: "map sy_hash records = map sy_hash (pl_data (ic_symbols c))" by (rule rm) simp
    have same: "map (\<lambda>r. r\<lparr>sy_next := 0\<rparr>) records = map (\<lambda>r. r\<lparr>sy_next := 0\<rparr>) (pl_data (ic_symbols c))" by (rule rm) simp
    obtain c2 q where rl: "phy_ir_pool_release c1 (ic_symbol_buckets c1) sizeof_ir_ref = (c2, q)" by (metis surj_pair)
    note sw = swap_buckets [OF ok(2) i [unfolded 3(2) [THEN eqTrueI]] _ tl]
    have sw': "recounted c c1" "ic_error c1 = ic_error c" "pl_data grown = replicate (?nb * 2) 0"
      "books_ok (c2\<lparr>ic_symbols := (ic_symbols c2)\<lparr>pl_data := records\<rparr>, ic_symbol_buckets := grown\<lparr>pl_data := table\<rparr>\<rparr>)"
      using sw(1-3) sw(4) [OF _ rl len] nb by simp_all
    note f = recounted_fields [OF sw'(1)]
    let ?c = "c2\<lparr>ic_symbols := (ic_symbols c2)\<lparr>pl_data := records\<rparr>, ic_symbol_buckets := grown\<lparr>pl_data := table\<rparr>\<rparr>"
    have e: "symbol_rehash c = ?c"
      using 3 i rf rl sw'(3) by (simp add: symbol_rehash_def Let_def f)
    have c2: "ic_limits c2 = ic_limits c" "ic_error c2 = ic_error c" "ic_nodes c2 = ic_nodes c" "ic_children c2 = ic_children c"
      "ic_rationals c2 = ic_rationals c" "ic_big_exacts c2 = ic_big_exacts c" "ic_exact_text c2 = ic_exact_text c"
      "ic_strings c2 = ic_strings c" "ic_symmetries c2 = ic_symmetries c" "ic_node_buckets c2 = ic_node_buckets c"
      using rl f sw'(2) by (auto simp: phy_ir_pool_release_def ir_discharge_def split: if_splits)
    have re: "refiled c ?c" using c2 same by (simp add: refiled_def)
    have st: "symbol_table_ok ?c"
    proof -
      have "sy_hash (records ! i) = sy_hash (pl_data (ic_symbols c) ! i)" if "i < pl_count (ic_symbols c)" for i
        using arg_cong [OF hs, of "\<lambda>xs. xs ! i"] that len by simp
      then have "chains_ok (\<lambda>i. sy_next (records ! i)) (\<lambda>b. table ! b) (\<lambda>i. bucket_slot (sy_hash (records ! i)) (?nb * 2))
          (pl_count (ic_symbols c)) {..<?nb * 2}"
        by (intro chains_cong [OF ch]) simp_all
      then show ?thesis using nb tl len by (simp add: symbol_table_ok_def)
    qed
    have "node_table_ok ?c" using ok(1) c2 by (simp add: graph_ok_def node_table_ok_def)
    then have "graph_ok ?c" using refiled_keep [OF re] st ok(1) by (simp add: graph_ok_def)
    then show ?thesis unfolding e using sw'(4) re c2(2) by (simp add: ir_inv_def)
  qed
qed

section \<open>Names\<close>

text \<open>The data of a context with one more symbol.\<close>

definition adds_symbol :: "phy_ir_context \<Rightarrow> string \<Rightarrow> phy_ir_context \<Rightarrow> bool" where
  "adds_symbol c name c' \<longleftrightarrow>
     (let n = pl_count (ic_symbols c); hash = hash_bytes FNV_OFFSET (text_bytes name);
          slot = bucket_slot hash (pl_count (ic_symbol_buckets c)) in
      ic_limits c' = ic_limits c \<and> pl_data (ic_nodes c') = pl_data (ic_nodes c) \<and> pl_data (ic_children c') = pl_data (ic_children c) \<and>
      pl_data (ic_rationals c') = pl_data (ic_rationals c) \<and> pl_data (ic_big_exacts c') = pl_data (ic_big_exacts c) \<and>
      pl_data (ic_exact_text c') = pl_data (ic_exact_text c) \<and> pl_data (ic_symmetries c') = pl_data (ic_symmetries c) \<and>
      pl_data (ic_node_buckets c') = pl_data (ic_node_buckets c) \<and>
      pl_data (ic_strings c') = pl_data (ic_strings c) @ name @ [CHR 0x00] \<and>
      pl_data (ic_symbols c') = pl_data (ic_symbols c) @ [\<lparr>sy_offset = pl_count (ic_strings c), sy_length = length name, sy_hash = hash,
        sy_assumptions = 0, sy_symmetry_head = 0, sy_next = pl_data (ic_symbol_buckets c) ! slot\<rparr>] \<and>
      pl_data (ic_symbol_buckets c') = (pl_data (ic_symbol_buckets c))[slot := n])"

lemma adds_symbol_ok:
  assumes a: "adds_symbol c name c'" and ok: "graph_ok c" and name: "name \<noteq> []" "\<And>s. valid_symbol c s \<Longrightarrow> sym_name c s \<noteq> name"
  shows "graph_ok c'" "grows c c'" "valid_symbol c' (pl_count (ic_symbols c))" "sym_name c' (pl_count (ic_symbols c)) = name"
proof -
  let ?n = "pl_count (ic_symbols c)" and ?nb = "pl_count (ic_symbol_buckets c)"
  note d = a [unfolded adds_symbol_def Let_def]
  have okc: "symbols_ok c" "symbol_table_ok c" "symmetries_ok c" "nodes_ok c" "node_table_ok c" "claims_ok c" "limits_ok c"
    using ok by (simp_all add: graph_ok_def)
  show g: "grows c c'" using d by (simp add: grows_def)
  have n: "1 \<le> ?n" "pl_count (ic_symbols c') = Suc ?n" "0 < ?nb" using okc d by (auto simp: symbols_ok_def symbol_table_ok_def)
  then show "valid_symbol c' ?n" by simp
  have new: "sy_offset (symbol_record c' ?n) = pl_count (ic_strings c)" "sy_length (symbol_record c' ?n) = length name"
    "sy_hash (symbol_record c' ?n) = hash_bytes FNV_OFFSET (text_bytes name)" "sy_symmetry_head (symbol_record c' ?n) = 0"
    "sy_next (symbol_record c' ?n) = pl_data (ic_symbol_buckets c) ! bucket_slot (hash_bytes FNV_OFFSET (text_bytes name)) ?nb"
    using d by simp_all
  have old: "s < ?n \<Longrightarrow> symbol_record c' s = symbol_record c s" for s using d by (simp add: nth_append)
  show nm: "sym_name c' ?n = name" using d new by (simp add: sym_name_def array_slice_def)
  have so: "symbol_ok c s" if "valid_symbol c s" for s using okc(1) that by (simp add: symbols_ok_def)
  have on: "sym_name c' s = sym_name c s" if "valid_symbol c s" for s using grows_name [OF g] so that by simp
  have valid: "valid_symbol c' s \<longleftrightarrow> valid_symbol c s \<or> s = ?n" for s using n by auto
  have s': "symbol_ok c' s" if "valid_symbol c' s" for s
  proof (cases "s = ?n")
    case True
    then show ?thesis using new nm d name(1) by (simp add: symbol_ok_def)
  next
    case False
    then show ?thesis using so [of s] on [of s] old [of s] that n(2) d by (simp add: symbol_ok_def)
  qed
  have "inj_on (sym_name c') {s. valid_symbol c' s}"
  proof -
    have "inj_on (sym_name c') {s. valid_symbol c s} \<longleftrightarrow> inj_on (sym_name c) {s. valid_symbol c s}"
      by (rule inj_on_cong) (use on in simp)
    moreover have "{s. valid_symbol c' s} = insert ?n {s. valid_symbol c s}" using valid by auto
    moreover have "sym_name c' ?n \<notin> sym_name c' ` {s. valid_symbol c s}" using nm on name(2) by fastforce
    ultimately show ?thesis using okc(1) by (simp add: symbols_ok_def)
  qed
  moreover have "drop 1 (pl_data (ic_symbols c')) = drop 1 (pl_data (ic_symbols c)) @ [symbol_record c' ?n]"
    using d n(1) by simp
  ultimately have "symbols_ok c'" using s' n d okc(1) new(2) unfolding symbols_ok_def by simp
  moreover have "symbol_table_ok c'"
  proof -
    have "chains_ok (\<lambda>s. sy_next (symbol_record c' s)) (\<lambda>b. pl_data (ic_symbol_buckets c') ! b)
        (\<lambda>s. bucket_slot (sy_hash (symbol_record c' s)) ?nb) (Suc ?n) {..<?nb}"
      by (rule chains_insert [of "\<lambda>s. sy_next (symbol_record c s)" "\<lambda>b. pl_data (ic_symbol_buckets c) ! b"
            "\<lambda>s. bucket_slot (sy_hash (symbol_record c s)) ?nb"])
        (use okc(2) n old new d bucket_slot_less [OF n(3)] in \<open>auto simp: symbol_table_ok_def\<close>)
    then show ?thesis using n d by (simp add: symbol_table_ok_def)
  qed
  moreover have "symmetries_ok c'"
  proof -
    obtain owner where o: "\<forall>i. 1 \<le> i \<and> i < pl_count (ic_symmetries c) \<longrightarrow> valid_symbol c (owner i)"
      "chains_ok (\<lambda>i. sm_next (symmetry_record c i)) (\<lambda>s. sy_symmetry_head (symbol_record c s)) owner (pl_count (ic_symmetries c)) {s. valid_symbol c s}"
      using okc(3) by (auto simp: symmetries_ok_def)
    have "path (\<lambda>i. sm_next (symmetry_record c' i)) (sy_symmetry_head (symbol_record c' s)) (members owner (pl_count (ic_symmetries c')) s)"
      if "valid_symbol c' s" for s
    proof (cases "s = ?n")
      case True
      have "members owner (pl_count (ic_symmetries c')) ?n = []" using o(1) d by (fastforce simp: members_def filter_empty_conv)
      then show ?thesis using True new(4) by simp
    next
      case False
      then show ?thesis using o(2) that old [of s] n(2) d by (simp add: chains_ok_def)
    qed
    then show ?thesis using o(1) okc(3) d valid unfolding symmetries_ok_def chains_ok_def by (intro conjI exI [of _ owner]) auto
  qed
  moreover have "nodes_ok c'" by (rule nodes_keep [OF g _ okc(4)]) (use d in simp)
  moreover have "claims_ok c'" by (rule claims_keep [OF g _ _ _ _ _ okc(6)]) (use d in simp_all)
  moreover have "node_table_ok c'" using okc(5) d by (simp add: node_table_ok_def)
  ultimately show "graph_ok c'" using limits_keep [OF g okc(7)] by (simp add: graph_ok_def)
qed

text \<open>
  The contract of interning: the handle of the name, which it already had or gets now, or zero
  and the same graph with an error.
\<close>

definition interned :: "phy_ir_context \<Rightarrow> string \<Rightarrow> (nat \<times> phy_ir_context) option \<Rightarrow> bool" where
  "interned c name r \<longleftrightarrow> (\<exists>s c'. r = Some (s, c') \<and> ir_inv c' \<and> grows c c' \<and> map still (pl_data (ic_nodes c')) = map still (pl_data (ic_nodes c)) \<and>
     (if s \<noteq> 0 then valid_symbol c' s \<and> sym_name c' s = name \<and> ic_error c' = ic_error c else refused c c'))"

lemma refused_inv:
  assumes "graph_ok c" "refused c c'"
  shows "ir_inv c'" "grows c c'"
  using assms graph_ok_eq [of c' c] graph_grows [of c' c] by (simp_all add: refused_def ir_inv_def)

lemma refused_interned: "graph_ok c \<Longrightarrow> refused c c' \<Longrightarrow> interned c name (Some (0, c'))"
  using refused_inv [of c c'] by (auto simp: interned_def refused_def graph_eq)

lemma intern_n_spec:
  assumes inv: "ir_inv c" and len: "length name + ic_bytes c < SIZE_MAX"
  shows "interned c name (phy_ir_intern_n c name)"
proof -
  have ok: "graph_ok c" "books_ok c" using inv by (simp_all add: ir_inv_def)
  have ok': "symbol_table_ok c" "symbols_ok c" using ok by (simp_all add: graph_ok_def)
  let ?hash = "hash_bytes FNV_OFFSET (text_bytes name)" and ?n = "pl_count (ic_symbols c)" and ?nb = "pl_count (ic_symbol_buckets c)"
  let ?slot = "bucket_slot ?hash ?nb"
  let ?P = "\<lambda>s. sy_hash (symbol_record c s) = ?hash \<and> sy_length (symbol_record c s) = length name \<and>
             array_slice (sy_offset (symbol_record c s)) (length name) (pl_data (ic_strings c)) = name"
  show ?thesis
  proof (cases "name = []")
    case True
    then have "refused c (phy_ir_set_error c PHY_ERR_INVALID_ARGUMENT)" using refused_error [OF ok(2)] by simp
    then show ?thesis using True refused_interned [OF ok(1)] by (simp add: phy_ir_intern_n_def)
  next
    case False
    have l: "\<not> 4294967295 < length name" using len by (simp add: SIZE_MAX_def)
    have nb: "0 < ?nb" using ok'(1) by (simp add: symbol_table_ok_def)
    have slot: "?slot < ?nb" by (rule bucket_slot_less [OF nb])
    obtain r where f: "find_in_chain ?P (\<lambda>s. sy_next (symbol_record c s)) (pl_data (ic_symbol_buckets c) ! ?slot) = Some r"
      "r \<noteq> 0 \<Longrightarrow> valid_symbol c r \<and> ?P r" "r = 0 \<Longrightarrow> \<forall>i. valid_symbol c i \<and> bucket_slot (sy_hash (symbol_record c i)) ?nb = ?slot \<longrightarrow> \<not> ?P i"
      using find_chain [of "\<lambda>s. sy_next (symbol_record c s)" "\<lambda>b. pl_data (ic_symbol_buckets c) ! b"
          "\<lambda>s. bucket_slot (sy_hash (symbol_record c s)) ?nb" ?n "{..<?nb}" ?slot ?P] ok'(1) slot
      by (auto simp: symbol_table_ok_def)
    show ?thesis
    proof (cases "r = 0")
      case hit: False
      then have "valid_symbol c r" "sym_name c r = name" using f(2) by (simp_all add: sym_name_def)
      moreover have "phy_ir_intern_n c name = Some (r, c)" using f(1) hit l False by (simp add: phy_ir_intern_n_def)
      ultimately show ?thesis using inv hit graph_grows [of c c] by (simp add: interned_def)
    next
      case miss: True
      have fresh: "sym_name c s \<noteq> name" if "valid_symbol c s" for s
      proof
        assume e: "sym_name c s = name"
        have so: "symbol_ok c s" using ok'(2) that by (simp add: symbols_ok_def)
        then have "sy_hash (symbol_record c s) = ?hash" "sy_length (symbol_record c s) = length name"
          using e by (auto simp: symbol_ok_def sym_name_def array_slice_def)
        moreover from this have "?P s" using e by (simp add: sym_name_def)
        ultimately show False using f(3) [OF miss, rule_format, of s] that by simp
      qed
      have wrap: "(pl_count (ic_strings c) + length name + 1) mod (SIZE_MAX + 1) = pl_count (ic_strings c) + length name + 1"
        using ok(2) len by (intro mod_less) (simp add: books_ok_def ir_books_def)
      obtain rok c1 strings where r1: "phy_ir_pool_reserve c (ic_strings c) 1 (pl_count (ic_strings c) + length name + 1) = (rok, c1, strings)"
        by (metis prod_cases3)
      show ?thesis
      proof (cases rok)
        case no: False
        then have "phy_ir_intern_n c name = Some (0, c1)" using f(1) miss l False r1 wrap by (simp add: phy_ir_intern_n_def Let_def)
        moreover have "refused c c1" using reserve_refused(1) [of c "ic_strings c" 1 _ c1 strings] r1 no ok(2) by simp
        ultimately show ?thesis using refused_interned [OF ok(1)] by simp
      next
        case yes: True
        have r1': "phy_ir_pool_reserve c (ic_strings c) 1 (pl_count (ic_strings c) + length name + 1) = (True, c1, strings)"
          using r1 yes by simp
        note g1 = granted [OF r1'] and f1 = recounted_fields [OF granted(1) [OF r1']]
        let ?s = "strings\<lparr>pl_data := pl_data strings @ name @ [CHR 0x00]\<rparr>"
        define c2 where "c2 = c1\<lparr>ic_strings := ?s\<rparr>"
        define entry where "entry = \<lparr>sy_offset = pl_count (ic_strings c), sy_length = length name, sy_hash = ?hash, sy_assumptions = 0,
                  sy_symmetry_head = 0, sy_next = pl_data (ic_symbol_buckets c) ! ?slot\<rparr>"
        have b2: "books_ok c2" unfolding c2_def
          by (rule granted_strings [OF ok(2) _ r1']) (use g1 in simp)
        obtain index c3 symbols where p: "pool_push c2 (ic_symbols c2) sizeof_ir_symbol_record entry = (index, c3, symbols)" by (metis prod_cases3)
        have run: "phy_ir_intern_n c name = (case index of
            None \<Rightarrow> Some (0, c3\<lparr>ic_strings := (ic_strings c3)\<lparr>pl_data := take (pl_count strings) (pl_data (ic_strings c3))\<rparr>\<rparr>)
          | Some i \<Rightarrow> Some (i, symbol_rehash (c3\<lparr>ic_symbols := symbols,
             ic_symbol_buckets := (ic_symbol_buckets c3)\<lparr>pl_data := (pl_data (ic_symbol_buckets c3))[?slot := i]\<rparr>\<rparr>)))"
          using f(1) miss l False r1 wrap yes p g1(2) by (simp add: phy_ir_intern_n_def Let_def c2_def entry_def f1)
        show ?thesis
        proof (cases index)
          case None
          then have rf: "refused c2 c3" using push_refused(1) [OF _ b2] p by simp
          let ?c = "c3\<lparr>ic_strings := (ic_strings c3)\<lparr>pl_data := take (pl_count strings) (pl_data (ic_strings c3))\<rparr>\<rparr>"
          have "refused c ?c" using rf g1(2) f1 by (auto simp: refused_def graph_eq c2_def books_ok_def ir_books_def)
          then show ?thesis using run None refused_interned [OF ok(1)] by simp
        next
          case (Some i)
          obtain q where q: "phy_ir_pool_reserve c2 (ic_symbols c2) 24 (pl_count (ic_symbols c2) + 1) = (True, c3, q)" "i = pl_count (ic_symbols c2)"
            "symbols = q\<lparr>pl_data := pl_data (ic_symbols c2) @ [entry]\<rparr>" "length (pl_data (ic_symbols c2) @ [entry]) \<le> pl_capacity q"
            "recounted c2 c3" "ic_error c3 = ic_error c2"
            using push_granted [OF p [unfolded Some]] by (auto simp: ir_sizes)
          note f3 = recounted_fields [OF q(5)]
          define c4 where "c4 = c3\<lparr>ic_symbols := symbols,
             ic_symbol_buckets := (ic_symbol_buckets c3)\<lparr>pl_data := (pl_data (ic_symbol_buckets c3))[?slot := i]\<rparr>\<rparr>"
          have "books_ok (c3\<lparr>ic_symbols := symbols\<rparr>)" unfolding q(3) by (rule granted_symbols [OF b2 q(4,1)])
          then have b4: "books_ok c4" by (simp add: c4_def books_ok_def ir_books_def)
          have a: "adds_symbol c name c4"
            using q g1(2) by (simp add: adds_symbol_def Let_def c4_def f3 c2_def f1 entry_def)
          note a4 = adds_symbol_ok [OF a ok(1) False fresh]
          have inv4: "ir_inv c4" using a4(1) b4 by (simp add: ir_inv_def)
          note rh = symbol_rehash_inv [OF inv4]
          then have gr: "grows c4 (symbol_rehash c4)" using refiled_grows by blast
          have i: "i = ?n" using q(2) by (simp add: c2_def f1)
          have so: "symbol_ok c4 ?n" using a4 by (simp add: graph_ok_def symbols_ok_def)
          have "ic_error c4 = ic_error c" using q(6) g1(4) by (simp add: c4_def c2_def)
          moreover have "valid_symbol (symbol_rehash c4) ?n" "sym_name (symbol_rehash c4) ?n = name"
            using grows_symbol(1) [OF gr] grows_name [OF gr _ so] a4(3,4) by simp_all
          moreover have "map still (pl_data (ic_nodes (symbol_rehash c4))) = map still (pl_data (ic_nodes c))"
            using rh a by (simp add: refiled_def adds_symbol_def Let_def)
          moreover have "?n \<noteq> 0" "1 \<le> ?n" using ok'(2) by (auto simp: symbols_ok_def)
          moreover have "phy_ir_intern_n c name = Some (?n, symbol_rehash c4)" using run Some i by (simp add: c4_def)
          ultimately show ?thesis
            using rh ir_grows_trans [OF a4(2) gr] unfolding interned_def by (intro exI [of _ ?n] exI [of _ "symbol_rehash c4"]) simp
        qed
      qed
    qed
  qed
qed

end
