(* ===== verification/IrDeclare.thy ===== *)
theory IrDeclare
  imports IrNames
begin

text \<open>Assumptions and slot symmetries keep the invariant, and are what was declared.\<close>

lemma updated_symbol:
  assumes ok: "graph_ok c" and s: "valid_symbol c s"
    and f: "still_symbol (f (symbol_record c s)) = still_symbol (symbol_record c s)" "sy_next (f (symbol_record c s)) = sy_next (symbol_record c s)"
  shows "grows c (update_symbol c s f)" "symbols_ok (update_symbol c s f)" "symbol_table_ok (update_symbol c s f)"
    "nodes_ok (update_symbol c s f)" "claims_ok (update_symbol c s f)" "node_table_ok (update_symbol c s f)" "limits_ok (update_symbol c s f)"
proof -
  let ?c = "update_symbol c s f"
  have m: "map still_symbol (pl_data (ic_symbols ?c)) = map still_symbol (pl_data (ic_symbols c))"
    using f(1) s by (simp add: map_update list_update_same_conv)
  show g: "grows c ?c" using m by (simp add: grows_def)
  show "symbols_ok ?c" by (rule symbols_keep [OF m]) (use ok in \<open>simp_all add: graph_ok_def\<close>)
  show "nodes_ok ?c" by (rule nodes_keep [OF g]) (use ok in \<open>simp_all add: graph_ok_def\<close>)
  show "claims_ok ?c" by (rule claims_keep [OF g]) (use ok in \<open>simp_all add: graph_ok_def\<close>)
  show "limits_ok ?c" by (rule limits_keep [OF g]) (use ok in \<open>simp add: graph_ok_def\<close>)
  show "node_table_ok ?c" using ok by (simp add: graph_ok_def node_table_ok_def)
  have h: "sy_hash (f (symbol_record c s)) = sy_hash (symbol_record c s)" using still_symbol_fields(3) [OF f(1)] .
  have st: "symbol_table_ok c" using ok by (simp add: graph_ok_def)
  have "chains_ok (\<lambda>i. sy_next (symbol_record ?c i)) (\<lambda>b. pl_data (ic_symbol_buckets c) ! b)
      (\<lambda>i. bucket_slot (sy_hash (symbol_record ?c i)) (pl_count (ic_symbol_buckets c))) (pl_count (ic_symbols c)) {..<pl_count (ic_symbol_buckets c)}"
    by (rule chains_cong [where link = "\<lambda>i. sy_next (symbol_record c i)" and head = "\<lambda>b. pl_data (ic_symbol_buckets c) ! b"
          and slot = "\<lambda>i. bucket_slot (sy_hash (symbol_record c i)) (pl_count (ic_symbol_buckets c))"])
      (use st f(2) h s in \<open>auto simp: symbol_table_ok_def nth_list_update\<close>)
  then show "symbol_table_ok ?c" using st by (simp add: symbol_table_ok_def)
qed

lemma assume_inv:
  assumes inv: "ir_inv c" and r: "phy_ir_assume c s a = (st, c')"
  shows "ir_inv c'" "grows c c'" "map still (pl_data (ic_nodes c')) = map still (pl_data (ic_nodes c))"
    "if st = PHY_OK then valid_symbol c s \<and> phy_ir_assumptions c' s = or (phy_ir_assumptions c s) a \<and>
       and (phy_ir_assumptions c' s) PHY_IR_ASSUME_POSITIVE * and (phy_ir_assumptions c' s) PHY_IR_ASSUME_NEGATIVE = 0 else refused c c'"
proof -
  have ok: "graph_ok c" "books_ok c" using inv by (simp_all add: ir_inv_def)
  have v: "phy_ir_symbol_at c s \<noteq> None \<longleftrightarrow> valid_symbol c s" by (auto simp: phy_ir_symbol_at_def)
  have "ir_inv c' \<and> grows c c' \<and> map still (pl_data (ic_nodes c')) = map still (pl_data (ic_nodes c)) \<and>
    (if st = PHY_OK then valid_symbol c s \<and> phy_ir_assumptions c' s = or (phy_ir_assumptions c s) a \<and>
       and (phy_ir_assumptions c' s) PHY_IR_ASSUME_POSITIVE * and (phy_ir_assumptions c' s) PHY_IR_ASSUME_NEGATIVE = 0 else refused c c')"
  proof (cases "st = PHY_OK")
    case False
    then have "refused c c'" using r refused_error [OF ok(2)] by (auto simp: phy_ir_assume_def Let_def split: if_splits)
    then show ?thesis using False refused_inv [OF ok(1)] by (auto simp: refused_def graph_eq)
  next
    case True
    let ?m = "or (sy_assumptions (symbol_record c s)) a"
    have s: "valid_symbol c s" and c': "c' = update_symbol c s (\<lambda>r. r\<lparr>sy_assumptions := ?m\<rparr>)"
      and z: "and ?m PHY_IR_ASSUME_POSITIVE = 0 \<or> and ?m PHY_IR_ASSUME_NEGATIVE = 0"
      using r True v by (auto simp: phy_ir_assume_def Let_def split: if_splits)
    note u = updated_symbol [OF ok(1) s, of "\<lambda>r. r\<lparr>sy_assumptions := ?m\<rparr>", simplified]
    have "symmetries_ok c'"
    proof -
      obtain owner where o: "\<forall>i. 1 \<le> i \<and> i < pl_count (ic_symmetries c) \<longrightarrow> valid_symbol c (owner i)"
        "chains_ok (\<lambda>i. sm_next (symmetry_record c i)) (\<lambda>s. sy_symmetry_head (symbol_record c s)) owner (pl_count (ic_symmetries c)) {s. valid_symbol c s}"
        using ok(1) by (auto simp: graph_ok_def symmetries_ok_def)
      have "chains_ok (\<lambda>i. sm_next (symmetry_record c i)) (\<lambda>s. sy_symmetry_head (symbol_record c' s)) owner (pl_count (ic_symmetries c)) {s. valid_symbol c s}"
        by (rule chains_cong [OF o(2)]) (use s in \<open>auto simp: c' nth_list_update\<close>)
      then show ?thesis using o(1) ok(1) unfolding graph_ok_def symmetries_ok_def by (auto simp: c' intro!: exI [of _ owner])
    qed
    then have "graph_ok c'" using u by (simp add: graph_ok_def c')
    moreover have "books_ok c'" using ok(2) by (simp add: c' books_ok_def ir_books_def)
    moreover have "phy_ir_assumptions c' s = ?m" "phy_ir_assumptions c s = sy_assumptions (symbol_record c s)"
      using s by (simp_all add: c' phy_ir_assumptions_def phy_ir_symbol_at_def)
    ultimately show ?thesis using u(1) s z True by (auto simp: ir_inv_def c')
  qed
  note res = this
  show "ir_inv c'" "grows c c'" "map still (pl_data (ic_nodes c')) = map still (pl_data (ic_nodes c))"
    using res by blast+
  show "if st = PHY_OK then valid_symbol c s \<and> phy_ir_assumptions c' s = or (phy_ir_assumptions c s) a \<and>
       and (phy_ir_assumptions c' s) PHY_IR_ASSUME_POSITIVE * and (phy_ir_assumptions c' s) PHY_IR_ASSUME_NEGATIVE = 0 else refused c c'"
    using res by (elim conjE)
qed

section \<open>Symmetries\<close>

text \<open>The record of a pair of slots in the list of a symbol, or none.\<close>

lemma find_symmetry_ok:
  assumes ok: "graph_ok c" and s: "valid_symbol c s"
  shows "\<exists>r. find_symmetry c (sy_symmetry_head (symbol_record c s)) low high = Some r \<and>
    (r \<noteq> 0 \<longrightarrow> 1 \<le> r \<and> r < pl_count (ic_symmetries c) \<and> sm_slot_a (symmetry_record c r) = low \<and> sm_slot_b (symmetry_record c r) = high)"
proof -
  obtain owner where o: "chains_ok (\<lambda>i. sm_next (symmetry_record c i)) (\<lambda>s. sy_symmetry_head (symbol_record c s)) owner
      (pl_count (ic_symmetries c)) {s. valid_symbol c s}"
    using ok by (auto simp: graph_ok_def symmetries_ok_def)
  from find_chain [OF o, of s "\<lambda>at. sm_slot_a (symmetry_record c at) = low \<and> sm_slot_b (symmetry_record c at) = high"] s
  show ?thesis unfolding find_symmetry_def by auto
qed

lemma declare_symmetry_inv:
  assumes inv: "ir_inv c"
  shows "\<exists>st c'. phy_ir_declare_symmetry c s a b y = Some (st, c') \<and> ir_inv c' \<and> grows c c' \<and>
    map still (pl_data (ic_nodes c')) = map still (pl_data (ic_nodes c)) \<and>
    (if st = PHY_OK then valid_symbol c s else refused c c')"
proof -
  have ok: "graph_ok c" "books_ok c" using inv by (simp_all add: ir_inv_def)
  have rf: ?thesis if "phy_ir_declare_symmetry c s a b y = Some (st, c')" "refused c c'" "st \<noteq> PHY_OK" for st c'
    using that refused_inv [OF ok(1) that(2)] by (auto simp: refused_def graph_eq)
  have v: "phy_ir_symbol_at c s = None \<longleftrightarrow> \<not> valid_symbol c s" by (auto simp: phy_ir_symbol_at_def)
  show ?thesis
  proof (cases "phy_ir_symbol_at c s = None \<or> a = b \<or> y = PHY_IR_SYMMETRY_NONE")
    case True
    have r: "phy_ir_declare_symmetry c s a b y = Some (PHY_ERR_INVALID_ARGUMENT, phy_ir_set_error c PHY_ERR_INVALID_ARGUMENT)"
      using True by (simp only: phy_ir_declare_symmetry_def if_True)
    show ?thesis by (rule rf [OF r]) (use refused_error [OF ok(2)] in simp_all)
  next
    case False
    then have s: "valid_symbol c s" using v by simp
    let ?low = "if a < b then a else b" and ?high = "if a < b then b else a"
    obtain r where f: "find_symmetry c (sy_symmetry_head (symbol_record c s)) ?low ?high = Some r"
      using find_symmetry_ok [OF ok(1) s] by blast
    show ?thesis
    proof (cases "r = 0")
      case hit: False
      show ?thesis
      proof (cases "sm_symmetry (symmetry_record c r) = y")
        case True
        then have "phy_ir_declare_symmetry c s a b y = Some (PHY_OK, c)"
          unfolding phy_ir_declare_symmetry_def if_not_P [OF False] Let_def f using hit by simp
        then show ?thesis using inv s graph_grows [of c c] by simp
      next
        case ne: False
        have "phy_ir_declare_symmetry c s a b y = Some (PHY_ERR_ASSUMPTION, phy_ir_set_error c PHY_ERR_ASSUMPTION)"
          unfolding phy_ir_declare_symmetry_def if_not_P [OF False] Let_def f using hit ne by simp
        from rf [OF this] show ?thesis using refused_error [OF ok(2)] by simp
      qed
    next
      case miss: True
      define entry where "entry = \<lparr>sm_slot_a = ?low, sm_slot_b = ?high, sm_next = sy_symmetry_head (symbol_record c s), sm_symmetry = y\<rparr>"
      obtain index c1 pool where p: "pool_push c (ic_symmetries c) sizeof_ir_symmetry_record entry = (index, c1, pool)" by (metis prod_cases3)
      have run: "phy_ir_declare_symmetry c s a b y = (case index of None \<Rightarrow> Some (ic_error c1, c1)
        | Some i \<Rightarrow> Some (PHY_OK, update_symbol (c1\<lparr>ic_symmetries := pool\<rparr>) s (\<lambda>r. r\<lparr>sy_symmetry_head := i\<rparr>)))"
        unfolding phy_ir_declare_symmetry_def if_not_P [OF False] Let_def f using miss p by (simp add: entry_def)
      show ?thesis
      proof (cases index)
        case None
        then have "refused c c1" using push_refused(1) [OF _ ok(2)] p by simp
        with run None rf [of "ic_error c1" c1] show ?thesis by (simp add: refused_def)
      next
        case (Some i)
        obtain q where q: "phy_ir_pool_reserve c (ic_symmetries c) 16 (pl_count (ic_symmetries c) + 1) = (True, c1, q)" "i = pl_count (ic_symmetries c)"
          "pool = q\<lparr>pl_data := pl_data (ic_symmetries c) @ [entry]\<rparr>" "length (pl_data (ic_symmetries c) @ [entry]) \<le> pl_capacity q" "recounted c c1"
          using push_granted [OF p [unfolded Some]] by (auto simp: ir_sizes)
        note f1 = recounted_fields [OF q(5)]
        let ?c1 = "c1\<lparr>ic_symmetries := pool\<rparr>" and ?up = "\<lambda>r :: phy_ir_symbol_record. r\<lparr>sy_symmetry_head := i\<rparr>"
        let ?c = "update_symbol ?c1 s ?up" and ?u = "update_symbol c s ?up"
        note u = updated_symbol [OF ok(1) s, of ?up, simplified]
        have b1: "books_ok ?c1" unfolding q(3) by (rule granted_symmetries [OF ok(2) q(4,1)])
        have b: "books_ok ?c" using b1 by (simp add: books_ok_def ir_books_def)
        have g: "grows c ?c" using u(1) by (simp add: grows_def f1)
        obtain owner where o: "\<forall>i. 1 \<le> i \<and> i < pl_count (ic_symmetries c) \<longrightarrow> valid_symbol c (owner i)"
          "chains_ok (\<lambda>i. sm_next (symmetry_record c i)) (\<lambda>s. sy_symmetry_head (symbol_record c s)) owner (pl_count (ic_symmetries c)) {s. valid_symbol c s}"
          using ok(1) by (auto simp: graph_ok_def symmetries_ok_def)
        have m: "1 \<le> pl_count (ic_symmetries c)" using ok(1) by (simp add: graph_ok_def symmetries_ok_def)
        have "chains_ok (\<lambda>j. sm_next (symmetry_record ?c j)) (\<lambda>t. sy_symmetry_head (symbol_record ?c t)) (owner(i := s)) (Suc i) {s. valid_symbol c s}"
          by (rule chains_insert [OF o(2) [folded q(2)]])
            (use m q(2,3) s f1 in \<open>auto simp: nth_append entry_def nth_list_update\<close>)
        then have "symmetries_ok ?c" unfolding symmetries_ok_def
          using o(1) q s m f1 by (intro conjI exI [of _ "owner(i := s)"]) (auto simp: less_Suc_eq)
        moreover have "symbols_ok ?c" by (rule symbols_keep [of _ ?u]) (use u f1 in simp_all)
        moreover have "nodes_ok ?c" "claims_ok ?c" "limits_ok ?c"
          using nodes_keep [OF g] claims_keep [OF g] limits_keep [OF g] ok(1) f1 by (simp_all add: graph_ok_def)
        moreover have "symbol_table_ok ?c" "node_table_ok ?c"
          using u(3,6) f1 by (simp_all add: symbol_table_ok_def node_table_ok_def)
        ultimately have "ir_inv ?c" using b by (simp add: ir_inv_def graph_ok_def)
        then show ?thesis using run Some g s f1 by simp
      qed
    qed
  qed
qed

lemma slot_symmetry_returns:
  assumes "ir_inv c"
  shows "\<exists>k. phy_ir_slot_symmetry c s a b = Some k"
proof (cases "valid_symbol c s")
  case True
  have f: "\<exists>r. find_symmetry c (sy_symmetry_head (symbol_record c s)) low high = Some r" for low high
    using find_symmetry_ok [OF _ True] assms unfolding ir_inv_def by blast
  have at: "phy_ir_symbol_at c s = Some (symbol_record c s)" using True by (simp add: phy_ir_symbol_at_def)
  obtain r where "find_symmetry c (sy_symmetry_head (symbol_record c s)) (if a < b then a else b) (if a < b then b else a) = Some r"
    using f by blast
  then show ?thesis unfolding phy_ir_slot_symmetry_def at by (simp add: Let_def)
qed (auto simp: phy_ir_slot_symmetry_def phy_ir_symbol_at_def)

end
