(* ===== verification/IrIntern.thy ===== *)
theory IrIntern
  imports IrDeclare
begin

text \<open>
  Interning of nodes. Every builder calls \<open>intern_node\<close> with the prototype, the hash and the
  depth of one payload; interning then returns the one node that has this payload, or refuses.
\<close>

section \<open>Rehashing\<close>

lemma node_rehash_inv:
  assumes inv: "ir_inv c"
  shows "ir_inv (node_rehash c) \<and> refiled c (node_rehash c) \<and> ic_error (node_rehash c) = ic_error c"
proof -
  let ?nb = "pl_count (ic_node_buckets c)"
  have ok: "graph_ok c" "books_ok c" using inv by (simp_all add: ir_inv_def)
  have nb: "0 < ?nb" "pl_data (ic_nodes c) \<noteq> []" using ok(1) by (auto simp: graph_ok_def node_table_ok_def nodes_ok_def)
  obtain iok c1 grown where i: "buckets_init c empty_pool (?nb * 2) = (iok, c1, grown)" by (metis prod_cases3)
  consider "pl_count (ic_nodes c) \<le> ?nb - ?nb div 4" | "\<not> pl_count (ic_nodes c) \<le> ?nb - ?nb div 4" "\<not> iok"
    | "\<not> pl_count (ic_nodes c) \<le> ?nb - ?nb div 4" "iok" by blast
  then show ?thesis
  proof cases
    case 1
    then have "node_rehash c = c" by (simp add: node_rehash_def)
    then show ?thesis using inv refiled_refl [of c c] by simp
  next
    case 2
    then have e: "node_rehash c = c1\<lparr>ic_error := ic_error c\<rparr>" using i by (simp add: node_rehash_def Let_def)
    have "refused c c1" using init_refused [OF _ ok(2)] i 2 by simp
    then have r: "graph (node_rehash c) = graph c" "books_ok (node_rehash c)"
      by (simp_all add: e refused_def graph_def books_error_update)
    then show ?thesis using ok graph_ok_eq [OF r(1)] refiled_refl [OF r(1)] by (simp add: ir_inv_def e)
  next
    case 3
    obtain records table where rf: "refile nd_hash (\<lambda>n r. r\<lparr>nd_next := n\<rparr>) (pl_data (ic_nodes c), replicate (?nb * 2) 0) = (records, table)"
      by (metis surj_pair)
    note rm = refile_map [where set_next = "\<lambda>n r. r\<lparr>nd_next := n\<rparr>" and hash = nd_hash and rs = "pl_data (ic_nodes c)"
        and table = "replicate (?nb * 2) 0", unfolded rf fst_conv]
    have len: "length records = pl_count (ic_nodes c)" using rm [of "\<lambda>_. ()"] by (metis length_map)
    have tl: "length table = ?nb * 2" and
      ch: "chains_ok (\<lambda>i. nd_next (records ! i)) (\<lambda>b. table ! b) (\<lambda>i. bucket_slot (nd_hash (pl_data (ic_nodes c) ! i)) (?nb * 2))
        (pl_count (ic_nodes c)) {..<?nb * 2}"
      using refile_ok [where set_next = "\<lambda>n r. r\<lparr>nd_next := n\<rparr>" and hash = nd_hash and rs = "pl_data (ic_nodes c)" and link = nd_next
          and table = "replicate (?nb * 2) 0" and nb = "?nb * 2"] rf nb by simp_all
    have hs: "map nd_hash records = map nd_hash (pl_data (ic_nodes c))" by (rule rm) simp
    have same: "map still records = map still (pl_data (ic_nodes c))" by (rule rm) simp
    obtain c2 q where rl: "phy_ir_pool_release c1 (ic_node_buckets c1) sizeof_ir_ref = (c2, q)" by (metis surj_pair)
    note sw = swap_buckets [OF ok(2) i [unfolded 3(2) [THEN eqTrueI]] _ tl]
    have sw': "recounted c c1" "ic_error c1 = ic_error c" "pl_data grown = replicate (?nb * 2) 0"
      "books_ok (c2\<lparr>ic_nodes := (ic_nodes c2)\<lparr>pl_data := records\<rparr>, ic_node_buckets := grown\<lparr>pl_data := table\<rparr>\<rparr>)"
      using sw(1-3) sw(5) [OF _ rl len] nb by simp_all
    note f = recounted_fields [OF sw'(1)]
    let ?c = "c2\<lparr>ic_nodes := (ic_nodes c2)\<lparr>pl_data := records\<rparr>, ic_node_buckets := grown\<lparr>pl_data := table\<rparr>\<rparr>"
    have e: "node_rehash c = ?c"
      using 3 i rf rl sw'(3) by (simp add: node_rehash_def Let_def f)
    have c2: "ic_limits c2 = ic_limits c" "ic_error c2 = ic_error c" "ic_symbols c2 = ic_symbols c" "ic_children c2 = ic_children c"
      "ic_rationals c2 = ic_rationals c" "ic_big_exacts c2 = ic_big_exacts c" "ic_exact_text c2 = ic_exact_text c"
      "ic_strings c2 = ic_strings c" "ic_symmetries c2 = ic_symmetries c" "ic_symbol_buckets c2 = ic_symbol_buckets c"
      using rl f sw'(2) by (auto simp: phy_ir_pool_release_def ir_discharge_def split: if_splits)
    have re: "refiled c ?c" using c2 same by (simp add: refiled_def)
    have st: "node_table_ok ?c"
    proof -
      have "nd_hash (records ! i) = nd_hash (pl_data (ic_nodes c) ! i)" if "i < pl_count (ic_nodes c)" for i
        using arg_cong [OF hs, of "\<lambda>xs. xs ! i"] that len by simp
      then have "chains_ok (\<lambda>i. nd_next (records ! i)) (\<lambda>b. table ! b) (\<lambda>i. bucket_slot (nd_hash (records ! i)) (?nb * 2))
          (pl_count (ic_nodes c)) {..<?nb * 2}"
        by (intro chains_cong [OF ch]) simp_all
      then show ?thesis using nb tl len by (simp add: node_table_ok_def)
    qed
    have "symbol_table_ok ?c" using ok(1) c2 by (simp add: graph_ok_def symbol_table_ok_def)
    then have "graph_ok ?c" using refiled_keep [OF re] st ok(1) by (simp add: graph_ok_def)
    then show ?thesis unfolding e using sw'(4) re c2(2) by (simp add: ir_inv_def)
  qed
qed

section \<open>The normal form\<close>

text \<open>The arguments of \<open>intern_node\<close> for a payload.\<close>

fun proto_of :: "payload \<Rightarrow> phy_ir_node" where
  "proto_of (P_int v) = null_node\<lparr>nd_kind := PHY_IR_INTEGER, nd_integer := v\<rparr>"
| "proto_of (P_rat n d) = null_node\<lparr>nd_kind := PHY_IR_RATIONAL\<rparr>"
| "proto_of (P_bigint s) = null_node\<lparr>nd_kind := PHY_IR_INTEGER, nd_aux := PHY_IR_EXACT_BIG\<rparr>"
| "proto_of (P_bigrat s t) = null_node\<lparr>nd_kind := PHY_IR_RATIONAL, nd_aux := PHY_IR_EXACT_BIG\<rparr>"
| "proto_of (P_real b) = null_node\<lparr>nd_kind := PHY_IR_REAL, nd_real := b\<rparr>"
| "proto_of (P_symbol s) = null_node\<lparr>nd_kind := PHY_IR_SYMBOL, nd_head := s\<rparr>"
| "proto_of (P_index n v s) = null_node\<lparr>nd_kind := PHY_IR_INDEX, nd_aux := v, nd_head := n, nd_index_space := s\<rparr>"
| "proto_of (P_error e) = null_node\<lparr>nd_kind := PHY_IR_ERROR, nd_aux := e\<rparr>"
| "proto_of (P_compound k h cs) = null_node\<lparr>nd_kind := k, nd_head := h, nd_child_count := length cs\<rparr>"

fun arg_children :: "payload \<Rightarrow> nat list" where
  "arg_children (P_compound k h cs) = cs"
| "arg_children _ = []"

fun arg_rat :: "payload \<Rightarrow> phy_ir_rat option" where
  "arg_rat (P_rat n d) = Some \<lparr>rt_num = n, rt_den = d\<rparr>"
| "arg_rat _ = None"

fun arg_big :: "payload \<Rightarrow> big_exact_proto option" where
  "arg_big (P_bigint s) = Some \<lparr>bp_num = s, bp_den = []\<rparr>"
| "arg_big (P_bigrat s t) = Some \<lparr>bp_num = s, bp_den = t\<rparr>"
| "arg_big _ = None"

definition full_proto :: "phy_ir_context \<Rightarrow> payload \<Rightarrow> phy_ir_node" where
  "full_proto c p = (proto_of p)\<lparr>nd_hash := payload_hash c p, nd_depth := payload_depth c p\<rparr>"

definition intern_payload :: "phy_ir_context \<Rightarrow> payload \<Rightarrow> built" where
  "intern_payload c p = intern_node c (full_proto c p) (arg_children p) (arg_rat p) (arg_big p)"

lemma kinds_differ: "is_compound k \<Longrightarrow> k \<noteq> PHY_IR_INTEGER \<and> k \<noteq> PHY_IR_RATIONAL \<and> k \<noteq> PHY_IR_REAL \<and> k \<noteq> PHY_IR_SYMBOL \<and>
    k \<noteq> PHY_IR_INDEX \<and> k \<noteq> PHY_IR_ERROR"
  by (auto simp: is_compound_def)

lemma slice_eq:
  assumes "off + n \<le> length xs"
  shows "array_slice off n xs = s \<longleftrightarrow> n = length s \<and> array_slice off (length s) xs = s"
  using assms by (auto simp: array_slice_def)

text \<open>The fields of a node that its payload decides.\<close>

lemma payload_fields:
  assumes "stored_ok c nd"
  shows "nd_kind nd = nd_kind (proto_of (payload_of c nd))" "nd_aux nd = nd_aux (proto_of (payload_of c nd))"
    "nd_head nd = nd_head (proto_of (payload_of c nd))" "nd_child_count nd = nd_child_count (proto_of (payload_of c nd))"
  using assms by (auto simp: stored_ok_def payload_of_def Let_def null_node_def phy_ir_children_of_def array_slice_def split: if_splits)

text \<open>The payload comparison of the table decides equality of payloads.\<close>

lemma same_payload_iff:
  assumes st: "stored_ok c nd" and ok: "payload_ok c j p"
  shows "same_payload c nd (full_proto c p) (arg_children p) (arg_rat p) (arg_big p) \<longleftrightarrow> payload_of c nd = p"
proof (cases "nd_kind nd = nd_kind (proto_of p) \<and> nd_aux nd = nd_aux (proto_of p) \<and> nd_head nd = nd_head (proto_of p) \<and>
    nd_child_count nd = nd_child_count (proto_of p)")
  case False
  then show ?thesis using payload_fields [OF st] by (auto simp: same_payload_def full_proto_def)
next
  case True
  have big: "PHY_IR_EXACT_BIG \<noteq> 0" by (simp add: PHY_IR_EXACT_BIG_def)
  note defs = same_payload_def full_proto_def payload_of_def null_node_def Let_def
  show ?thesis
  proof (cases p)
    case (P_compound k h cs)
    then have k: "is_compound k" using ok by simp
    show ?thesis
      using True kinds_differ [OF k] P_compound by (simp add: defs phy_ir_children_of_def)
  next
    case (P_bigint s)
    then have "big_stored c nd" using True st big by (simp add: stored_ok_def null_node_def)
    then show ?thesis using True P_bigint
      by (simp add: defs big_stored_def phy_ir_big_exact_at_def slice_eq)
  next
    case (P_bigrat s t)
    then have "big_stored c nd" using True st big by (simp add: stored_ok_def null_node_def)
    then show ?thesis using True P_bigrat
      by (simp add: defs big_stored_def phy_ir_big_exact_at_def slice_eq) blast
  next
    case (P_rat n d)
    then have "nd_rational_index nd < pl_count (ic_rationals c)" using True st big by (simp add: stored_ok_def null_node_def)
    then show ?thesis using True P_rat big by (simp add: defs phy_ir_rat_at_def)
  qed (use True big in \<open>simp_all add: defs\<close>)
qed

section \<open>Storing a payload\<close>

text \<open>What \<open>store_payload\<close> appends, and the node it prepares.\<close>

fun big_text :: "payload \<Rightarrow> string" where
  "big_text (P_bigint s) = s"
| "big_text (P_bigrat s t) = s @ t"
| "big_text _ = []"

definition arg_record :: "phy_ir_context \<Rightarrow> payload \<Rightarrow> phy_ir_big_exact list" where
  "arg_record c p = (case arg_big p of None \<Rightarrow> []
     | Some b \<Rightarrow> [\<lparr>be_num_offset = pl_count (ic_exact_text c), be_num_length = length (bp_num b),
         be_den_offset = pl_count (ic_exact_text c) + length (bp_num b), be_den_length = length (bp_den b)\<rparr>])"

definition stored_node :: "phy_ir_context \<Rightarrow> payload \<Rightarrow> phy_ir_node" where
  "stored_node c p = (full_proto c p)
     \<lparr>nd_rational_index := (if arg_big p \<noteq> None then pl_count (ic_big_exacts c) else if arg_rat p \<noteq> None then pl_count (ic_rationals c) else 0),
      nd_child_offset := (if arg_children p \<noteq> [] then pl_count (ic_children c) else 0)\<rparr>"

definition appends :: "phy_ir_context \<Rightarrow> payload \<Rightarrow> phy_ir_context \<Rightarrow> bool" where
  "appends c p c1 \<longleftrightarrow> ic_limits c1 = ic_limits c \<and> ic_alloc c1 = ic_alloc c \<and> pl_data (ic_symbols c1) = pl_data (ic_symbols c) \<and>
     pl_data (ic_strings c1) = pl_data (ic_strings c) \<and> pl_data (ic_symmetries c1) = pl_data (ic_symmetries c) \<and>
     pl_data (ic_symbol_buckets c1) = pl_data (ic_symbol_buckets c) \<and>
     pl_data (ic_children c1) = pl_data (ic_children c) @ arg_children p \<and>
     pl_data (ic_rationals c1) = pl_data (ic_rationals c) @ (case arg_rat p of None \<Rightarrow> [] | Some r \<Rightarrow> [r]) \<and>
     pl_data (ic_big_exacts c1) = pl_data (ic_big_exacts c) @ arg_record c p \<and>
     pl_data (ic_exact_text c1) = pl_data (ic_exact_text c) @ big_text p"

lemma appends_graph: "graph c2 = graph c1 \<Longrightarrow> appends c p c1 \<Longrightarrow> appends c p c2"
  by (simp add: graph_eq appends_def)

text \<open>Payloads of the three kinds that use a pool.\<close>

lemma store_big:
  assumes b: "books_ok c" and big: "arg_big p = Some b" and ok: "payload_ok c j p" and len: "length (big_text p) + ic_bytes c \<le> SIZE_MAX"
    and run: "store_payload c (full_proto c p) (arg_children p) (arg_rat p) (arg_big p) = (st, c1)"
  shows "if st = None then refused c c1
    else st = Some (stored_node c p) \<and> appends c p c1 \<and> books_ok c1 \<and> ic_error c1 = ic_error c \<and>
      pl_data (ic_nodes c1) = pl_data (ic_nodes c) \<and> pl_data (ic_node_buckets c1) = pl_data (ic_node_buckets c)"
proof -
  let ?num = "bp_num b" and ?den = "bp_den b" and ?t = "pl_count (ic_exact_text c)"
  have t: "big_text p = ?num @ ?den" "arg_children p = []" "arg_rat p = None" and ne: "?num \<noteq> []"
    using big ok by (cases p, auto)+
  have tc: "?t \<le> ic_bytes c" using b by (simp add: books_ok_def ir_books_def)
  have l: "length ?num + length ?den + ?t \<le> SIZE_MAX" using len t tc by simp
  have ws: "(length ?num + length ?den) mod (SIZE_MAX + 1) = length ?num + length ?den" using l by (intro mod_less) simp
  have guard: "\<not> (length ?num = 0 \<or> 4294967295 < length ?num \<or> 4294967295 < length ?den \<or> length ?num + length ?den < length ?num \<or>
      4294967295 < length ?num + length ?den \<or> 4294967295 - (length ?num + length ?den) < ?t)"
    using l ne by (simp add: SIZE_MAX_def)
  obtain rok c2 txp where r: "phy_ir_pool_reserve c (ic_exact_text c) 1 (?t + (length ?num + length ?den)) = (rok, c2, txp)" by (metis prod_cases3)
  show ?thesis
  proof (cases rok)
    case False
    then have "(st, c1) = (None, c2)"
      using run [unfolded store_payload_def big option.case Let_def ws if_not_P [OF guard] r prod.case] by simp
    then have "st = None" "c1 = c2" by simp_all
    then show ?thesis using reserve_refused(1) [of c "ic_exact_text c" 1 _ c2 txp] r False b by simp
  next
    case True
    have r': "phy_ir_pool_reserve c (ic_exact_text c) 1 (?t + (length ?num + length ?den)) = (True, c2, txp)" using r True by simp
    note g = granted [OF r'] and f = recounted_fields [OF granted(1) [OF r']]
    define c3 where "c3 = c2\<lparr>ic_exact_text := txp\<lparr>pl_data := pl_data txp @ ?num @ ?den\<rparr>\<rparr>"
    define entry where "entry = \<lparr>be_num_offset = ?t, be_num_length = length ?num, be_den_offset = ?t + length ?num, be_den_length = length ?den\<rparr>"
    have b3: "books_ok c3" unfolding c3_def by (rule granted_text [OF b _ r']) (use g in simp)
    obtain index c4 bigs where pu: "pool_push c3 (ic_big_exacts c3) sizeof_ir_big_exact entry = (index, c4, bigs)" by (metis prod_cases3)
    have run': "(st, c1) = (case index of
        None \<Rightarrow> (None, c4\<lparr>ic_exact_text := (ic_exact_text c4)\<lparr>pl_data := take (pl_count txp) (pl_data (ic_exact_text c4))\<rparr>\<rparr>)
      | Some i \<Rightarrow> (Some ((full_proto c p)\<lparr>nd_rational_index := i\<rparr>), c4\<lparr>ic_big_exacts := bigs\<rparr>))"
      using run [unfolded store_payload_def big option.case Let_def ws if_not_P [OF guard] r prod.case] True pu g(2)
      by (simp add: c3_def entry_def)
    show ?thesis
    proof (cases index)
      case None
      then have rf: "refused c3 c4" using push_refused(1) [OF _ b3] pu by simp
      let ?c = "c4\<lparr>ic_exact_text := (ic_exact_text c4)\<lparr>pl_data := take (pl_count txp) (pl_data (ic_exact_text c4))\<rparr>\<rparr>"
      have "refused c ?c" using rf g(2) f by (auto simp: refused_def graph_eq c3_def books_ok_def ir_books_def)
      then show ?thesis using run' None by simp
    next
      case (Some i)
      obtain q where q: "phy_ir_pool_reserve c3 (ic_big_exacts c3) 16 (pl_count (ic_big_exacts c3) + 1) = (True, c4, q)" "i = pl_count (ic_big_exacts c3)"
        "bigs = q\<lparr>pl_data := pl_data (ic_big_exacts c3) @ [entry]\<rparr>" "length (pl_data (ic_big_exacts c3) @ [entry]) \<le> pl_capacity q"
        "recounted c3 c4" "ic_error c4 = ic_error c3"
        using push_granted [OF pu [unfolded Some]] by (auto simp: ir_sizes)
      note f4 = recounted_fields [OF q(5)]
      have e: "st = Some ((full_proto c p)\<lparr>nd_rational_index := i\<rparr>)" "c1 = c4\<lparr>ic_big_exacts := bigs\<rparr>" using run' Some by simp_all
      have b4: "books_ok c1" unfolding e q(3) by (rule granted_bigs [OF b3 q(4,1)])
      have "st = Some (stored_node c p)" using e(1) q(2) t by (simp add: stored_node_def big c3_def f full_proto_def)
        (cases p, simp_all add: null_node_def)
      moreover have "appends c p c1"
        using t q(3) g(2) by (simp add: appends_def e(2) f4 c3_def f arg_record_def big entry_def)
      moreover have "ic_error c1 = ic_error c" "pl_data (ic_nodes c1) = pl_data (ic_nodes c)"
        "pl_data (ic_node_buckets c1) = pl_data (ic_node_buckets c)"
        using e(2) q(6) g(4) f f4 by (simp_all add: c3_def)
      ultimately show ?thesis using b4 by simp
    qed
  qed
qed

lemma store_rat:
  assumes b: "books_ok c" and rat: "arg_rat p = Some r"
    and run: "store_payload c (full_proto c p) (arg_children p) (arg_rat p) (arg_big p) = (st, c1)"
  shows "if st = None then refused c c1
    else st = Some (stored_node c p) \<and> appends c p c1 \<and> books_ok c1 \<and> ic_error c1 = ic_error c \<and>
      pl_data (ic_nodes c1) = pl_data (ic_nodes c) \<and> pl_data (ic_node_buckets c1) = pl_data (ic_node_buckets c)"
proof -
  have t: "big_text p = []" "arg_children p = []" "arg_big p = None" using rat by (cases p, auto)+
  obtain index c2 rats where pu: "pool_push c (ic_rationals c) sizeof_ir_rat r = (index, c2, rats)" by (metis prod_cases3)
  have run': "(st, c1) = (case index of None \<Rightarrow> (None, c2)
      | Some i \<Rightarrow> (Some ((full_proto c p)\<lparr>nd_rational_index := i\<rparr>), c2\<lparr>ic_rationals := rats\<rparr>))"
    using run pu t rat by (simp add: store_payload_def)
  show ?thesis
  proof (cases index)
    case None
    then show ?thesis using run' push_refused(1) [OF _ b] pu by simp
  next
    case (Some i)
    obtain q where q: "phy_ir_pool_reserve c (ic_rationals c) 16 (pl_count (ic_rationals c) + 1) = (True, c2, q)" "i = pl_count (ic_rationals c)"
      "rats = q\<lparr>pl_data := pl_data (ic_rationals c) @ [r]\<rparr>" "length (pl_data (ic_rationals c) @ [r]) \<le> pl_capacity q"
      "recounted c c2" "ic_error c2 = ic_error c"
      using push_granted [OF pu [unfolded Some]] by (auto simp: ir_sizes)
    note f = recounted_fields [OF q(5)]
    have e: "st = Some ((full_proto c p)\<lparr>nd_rational_index := i\<rparr>)" "c1 = c2\<lparr>ic_rationals := rats\<rparr>" using run' Some by simp_all
    have b2: "books_ok c1" unfolding e q(3) by (rule granted_rationals [OF b q(4,1)])
    have "st = Some (stored_node c p)" using e(1) q(2) t rat by (simp add: stored_node_def full_proto_def) (cases p, simp_all add: null_node_def)
    moreover have "appends c p c1" using t q(3) rat by (simp add: appends_def e(2) f arg_record_def)
    ultimately show ?thesis using b2 e(2) q(6) f by simp
  qed
qed

lemma store_children:
  assumes b: "books_ok c" and no: "arg_rat p = None" "arg_big p = None"
    and run: "store_payload c (full_proto c p) (arg_children p) (arg_rat p) (arg_big p) = (st, c1)"
  shows "if st = None then refused c c1
    else st = Some (stored_node c p) \<and> appends c p c1 \<and> books_ok c1 \<and> ic_error c1 = ic_error c \<and>
      pl_data (ic_nodes c1) = pl_data (ic_nodes c) \<and> pl_data (ic_node_buckets c1) = pl_data (ic_node_buckets c)"
proof -
  let ?cs = "arg_children p"
  have t: "big_text p = []" "nd_child_count (full_proto c p) = length ?cs" using no by (cases p, auto simp: full_proto_def null_node_def)+
  show ?thesis
  proof (cases "?cs = []")
    case True
    then have "(Some (full_proto c p), c) = (st, c1)" using run no t True by (auto simp: store_payload_def)
    then have "st = Some (full_proto c p)" "c1 = c" by blast+
    moreover have "full_proto c p = stored_node c p" using True no by (simp add: stored_node_def full_proto_def) (cases p, simp_all add: null_node_def)
    ultimately show ?thesis using b t no True by (simp add: appends_def arg_record_def)
  next
    case False
    obtain rok c2 pool where r: "phy_ir_pool_reserve c (ic_children c) 4 (pl_count (ic_children c) + length ?cs) = (rok, c2, pool)"
      by (metis prod_cases3)
    show ?thesis
    proof (cases rok)
      case no': False
      then have "st = None" "c1 = c2" using run r no t False by (simp_all add: store_payload_def ir_sizes)
      then show ?thesis using reserve_refused(1) [of c "ic_children c" 4 _ c2 pool] r no' b by simp
    next
      case True
      have r': "phy_ir_pool_reserve c (ic_children c) 4 (pl_count (ic_children c) + length ?cs) = (True, c2, pool)" using r True by simp
      note g = granted [OF r'] and f = recounted_fields [OF granted(1) [OF r']]
      have e: "st = Some ((full_proto c p)\<lparr>nd_child_offset := pl_count (ic_children c)\<rparr>)"
        "c1 = c2\<lparr>ic_children := pool\<lparr>pl_data := pl_data (ic_children c) @ ?cs\<rparr>\<rparr>"
        using run r' no t False g(2) by (simp_all add: store_payload_def ir_sizes)
      have b1: "books_ok c1" unfolding e by (rule granted_children [OF b _ r']) (use g(3) in simp)
      have "st = Some (stored_node c p)" using e(1) no False by (simp add: stored_node_def full_proto_def) (cases p, simp_all add: null_node_def)
      moreover have "appends c p c1" using t no by (simp add: appends_def e(2) f arg_record_def)
      ultimately show ?thesis using b1 e(2) g(4) f by simp
    qed
  qed
qed

lemma store_payload_spec:
  assumes b: "books_ok c" and ok: "payload_ok c j p" and len: "length (big_text p) + ic_bytes c \<le> SIZE_MAX"
    and run: "store_payload c (full_proto c p) (arg_children p) (arg_rat p) (arg_big p) = (st, c1)"
  shows "if st = None then refused c c1
    else st = Some (stored_node c p) \<and> appends c p c1 \<and> books_ok c1 \<and> ic_error c1 = ic_error c \<and>
      pl_data (ic_nodes c1) = pl_data (ic_nodes c) \<and> pl_data (ic_node_buckets c1) = pl_data (ic_node_buckets c)"
proof (cases "arg_big p")
  case (Some b)
  from store_big [OF assms(1) this ok len run] show ?thesis .
next
  case big: None
  show ?thesis
  proof (cases "arg_rat p")
    case (Some r)
    from store_rat [OF b this run] show ?thesis .
  next
    case None
    from store_children [OF b this big run] show ?thesis .
  qed
qed

end
