(* ===== verification/IrNodes.thy ===== *)
theory IrNodes
  imports IrIntern
begin

text \<open>
  The contract of \<open>intern_node\<close>: the one handle of a payload, or zero with the graph as it was
  and an error recorded.
\<close>

section \<open>One more node\<close>

definition adds_node :: "phy_ir_context \<Rightarrow> payload \<Rightarrow> phy_ir_context \<Rightarrow> bool" where
  "adds_node c p c' \<longleftrightarrow>
     (let slot = bucket_slot (payload_hash c p) (pl_count (ic_node_buckets c)) in
      appends c p c' \<and>
      pl_data (ic_nodes c') = pl_data (ic_nodes c) @ [(stored_node c p)\<lparr>nd_next := pl_data (ic_node_buckets c) ! slot\<rparr>] \<and>
      pl_data (ic_node_buckets c') = (pl_data (ic_node_buckets c))[slot := pl_count (ic_nodes c)])"

lemma stored_node_fields:
  "nd_hash (stored_node c p) = payload_hash c p" "nd_depth (stored_node c p) = payload_depth c p"
  by (simp_all add: stored_node_def full_proto_def)

lemma stored_node_payload:
  assumes a: "appends c p c'" and ok: "payload_ok c j p"
  shows "payload_of c' ((stored_node c p)\<lparr>nd_next := x\<rparr>) = p" "stored_ok c' ((stored_node c p)\<lparr>nd_next := x\<rparr>)"
proof -
  have big: "PHY_IR_EXACT_BIG \<noteq> 0" by (simp add: PHY_IR_EXACT_BIG_def)
  note d = a [unfolded appends_def]
  note defs = payload_of_def stored_ok_def stored_node_def full_proto_def null_node_def Let_def
  have "payload_of c' ((stored_node c p)\<lparr>nd_next := x\<rparr>) = p \<and> stored_ok c' ((stored_node c p)\<lparr>nd_next := x\<rparr>)"
  proof (cases p)
    case (P_compound k h cs)
    then have k: "is_compound k" using ok by simp
    show ?thesis using d P_compound kinds_differ [OF k] k
      by (simp add: defs phy_ir_children_of_def array_slice_def)
  next
    case (P_bigint s)
    then show ?thesis using d big ok by (simp add: defs arg_record_def big_stored_def array_slice_def)
  next
    case (P_bigrat s t)
    then show ?thesis using d big ok by (simp add: defs arg_record_def big_stored_def array_slice_def)
  next
    case (P_rat n m)
    then show ?thesis using d big by (simp add: defs)
  qed (use d big in \<open>simp_all add: defs\<close>)
  then show "payload_of c' ((stored_node c p)\<lparr>nd_next := x\<rparr>) = p" "stored_ok c' ((stored_node c p)\<lparr>nd_next := x\<rparr>)" by simp_all
qed

lemma claim_added:
  assumes a: "adds_node c p c'" and ok: "payload_ok c (pl_count (ic_nodes c)) p"
  shows "claim_node c' (pl_count (ic_nodes c)) \<lparr>nc_children = pl_count (ic_children c), nc_rationals = pl_count (ic_rationals c),
       nc_bigs = pl_count (ic_big_exacts c), nc_text = pl_count (ic_exact_text c)\<rparr> =
     Some \<lparr>nc_children = pl_count (ic_children c'), nc_rationals = pl_count (ic_rationals c'),
       nc_bigs = pl_count (ic_big_exacts c'), nc_text = pl_count (ic_exact_text c')\<rparr>"
proof -
  have big: "PHY_IR_EXACT_BIG \<noteq> 0" by (simp add: PHY_IR_EXACT_BIG_def)
  note d = a [unfolded adds_node_def Let_def appends_def]
  note defs = claim_node_def claim_exact_def stored_node_def full_proto_def null_node_def Let_def
  show ?thesis
  proof (cases p)
    case (P_compound k h cs)
    then have k: "is_compound k" using ok by simp
    have "\<not> list_ex (\<lambda>child. child = 0 \<or> pl_count (ic_nodes c) \<le> child) cs" using ok P_compound by (auto simp: list_ex_iff)
    then show ?thesis using d P_compound kinds_differ [OF k]
      by (simp add: defs phy_ir_children_of_def array_slice_def arg_record_def)
  next
    case (P_bigint s)
    then show ?thesis using d big ok by (simp add: defs arg_record_def phy_ir_big_exact_at_def)
  next
    case (P_bigrat s t)
    then show ?thesis using d big ok by (simp add: defs arg_record_def phy_ir_big_exact_at_def)
  next
    case (P_rat n m)
    then show ?thesis using d big by (simp add: defs arg_record_def)
  next
    case (P_index n v s)
    then show ?thesis using d big ok by (auto simp: defs phy_ir_symbol_at_def arg_record_def)
  qed (use d big in \<open>simp_all add: defs arg_record_def\<close>)
qed

lemma adds_node_grows: "adds_node c p c' \<Longrightarrow> grows c c'"
  by (simp add: adds_node_def Let_def appends_def grows_def)

lemma adds_node_ok:
  assumes a: "adds_node c p c'" and ok: "graph_ok c" and p: "payload_ok c (pl_count (ic_nodes c)) p"
    and depth: "payload_depth c p \<le> il_depth (ic_limits c)" and room: "pl_count (ic_nodes c) \<le> il_nodes (ic_limits c)"
    and fresh: "\<And>i. valid_ref c i \<Longrightarrow> payload_at c i \<noteq> p"
  shows "graph_ok c'" "valid_ref c' (pl_count (ic_nodes c))" "payload_at c' (pl_count (ic_nodes c)) = p"
proof -
  let ?n = "pl_count (ic_nodes c)" and ?nb = "pl_count (ic_node_buckets c)"
  let ?slot = "bucket_slot (payload_hash c p) ?nb"
  note g = adds_node_grows [OF a] and d = a [unfolded adds_node_def Let_def appends_def]
  have app: "appends c p c'" using a by (simp add: adds_node_def Let_def)
  have okc: "symbols_ok c" "symbol_table_ok c" "symmetries_ok c" "nodes_ok c" "node_table_ok c" "claims_ok c" "limits_ok c"
    using ok by (simp_all add: graph_ok_def)
  have n: "1 \<le> ?n" "pl_count (ic_nodes c') = Suc ?n" "0 < ?nb" using okc d by (auto simp: nodes_ok_def node_table_ok_def)
  then show valid: "valid_ref c' ?n" by simp
  have new: "node_at c' ?n = (stored_node c p)\<lparr>nd_next := pl_data (ic_node_buckets c) ! ?slot\<rparr>" using d by simp
  have old: "i < ?n \<Longrightarrow> node_at c' i = node_at c i" for i using d by (simp add: nth_append)
  show pn: "payload_at c' ?n = p" unfolding new by (rule stored_node_payload(1) [OF app p])
  have "node_ok c' ?n" unfolding node_ok_def pn
    using stored_node_payload(2) [OF app p] grows_payload_ok [OF g p] grows_hash [OF g p] grows_depth [OF g p] depth d
    by (simp add: new stored_node_fields)
  moreover have at: "payload_at c' i = payload_at c i" "node_ok c' i" if "valid_ref c i" for i
    using grows_at [OF g that] okc(4) that by (auto simp: nodes_ok_def)
  moreover have vi: "valid_ref c' i \<longleftrightarrow> valid_ref c i \<or> i = ?n" for i using n by auto
  moreover have "inj_on (payload_at c') {i. valid_ref c' i}"
  proof -
    have "inj_on (payload_at c') {i. valid_ref c i} \<longleftrightarrow> inj_on (payload_at c) {i. valid_ref c i}"
      by (rule inj_on_cong) (use at in simp)
    moreover have "{i. valid_ref c' i} = insert ?n {i. valid_ref c i}" using vi by auto
    moreover have "payload_at c' ?n \<notin> payload_at c' ` {i. valid_ref c i}" using pn at fresh by fastforce
    ultimately show ?thesis using okc(4) by (simp add: nodes_ok_def)
  qed
  ultimately have "nodes_ok c'" unfolding nodes_ok_def using n room d by auto
  moreover have "node_table_ok c'"
  proof -
    have "chains_ok (\<lambda>i. nd_next (node_at c' i)) (\<lambda>b. pl_data (ic_node_buckets c') ! b)
        (\<lambda>i. bucket_slot (nd_hash (node_at c' i)) ?nb) (Suc ?n) {..<?nb}"
      by (rule chains_insert [of "\<lambda>i. nd_next (node_at c i)" "\<lambda>b. pl_data (ic_node_buckets c) ! b"
            "\<lambda>i. bucket_slot (nd_hash (node_at c i)) ?nb"])
        (use okc(5) n old d bucket_slot_less [OF n(3)] in \<open>auto simp: node_table_ok_def new stored_node_fields nth_list_update\<close>)
    then show ?thesis using n d by (simp add: node_table_ok_def)
  qed
  moreover have "claims_ok c'"
  proof -
    have l: "[1..<pl_count (ic_nodes c')] = [1..<?n] @ [?n]" using n by simp
    have "claim_nodes c' [1..<?n] \<lparr>nc_children = 0, nc_rationals = 0, nc_bigs = 0, nc_text = 0\<rparr> =
        Some \<lparr>nc_children = pl_count (ic_children c), nc_rationals = pl_count (ic_rationals c),
         nc_bigs = pl_count (ic_big_exacts c), nc_text = pl_count (ic_exact_text c)\<rparr>"
      by (rule grows_claims [OF g]) (use okc(6) in \<open>simp_all add: claims_ok_def\<close>)
    then show ?thesis unfolding claims_ok_def l claim_nodes_append using claim_added [OF a p] by simp
  qed
  moreover have "symbols_ok c'" by (rule symbols_keep [OF _ _ okc(1)]) (use d in simp_all)
  moreover have "symbol_table_ok c'" "symmetries_ok c'" using okc(2,3) d by (simp_all add: symbol_table_ok_def symmetries_ok_def)
  ultimately show "graph_ok c'" using limits_keep [OF g okc(7)] by (simp add: graph_ok_def)
qed

section \<open>The contract\<close>

definition node_interned :: "phy_ir_context \<Rightarrow> payload \<Rightarrow> built \<Rightarrow> bool" where
  "node_interned c p r \<longleftrightarrow> (\<exists>ref c'. r = Some (ref, c') \<and> ir_inv c' \<and> grows c c' \<and>
     map still_symbol (pl_data (ic_symbols c')) = map still_symbol (pl_data (ic_symbols c)) \<and>
     (if ref \<noteq> 0 then valid_ref c' ref \<and> payload_at c' ref = p \<and> ic_error c' = ic_error c else refused c c'))"

lemma refused_node_interned: "graph_ok c \<Longrightarrow> refused c c' \<Longrightarrow> node_interned c p (Some (0, c'))"
  using refused_inv [of c c'] by (auto simp: node_interned_def refused_def graph_eq)

lemma unwind_refused:
  assumes a: "appends c p c1" and s: "pl_data (ic_nodes c1) = pl_data (ic_nodes c)" "pl_data (ic_node_buckets c1) = pl_data (ic_node_buckets c)"
    and r: "refused c1 c2"
  shows "refused c (unwind_payload c c2)"
  using assms by (auto simp: appends_def refused_def graph_eq unwind_payload_def books_ok_def ir_books_def)

lemma intern_payload_spec:
  assumes inv: "ir_inv c" and p: "payload_ok c (pl_count (ic_nodes c)) p" and depth: "payload_depth c p \<le> il_depth (ic_limits c)"
    and len: "length (big_text p) + ic_bytes c \<le> SIZE_MAX"
  shows "node_interned c p (intern_payload c p)"
proof -
  have ok: "graph_ok c" "books_ok c" using inv by (simp_all add: ir_inv_def)
  have ok': "node_table_ok c" "nodes_ok c" using ok by (simp_all add: graph_ok_def)
  let ?n = "pl_count (ic_nodes c)" and ?nb = "pl_count (ic_node_buckets c)" and ?hash = "payload_hash c p"
  let ?slot = "bucket_slot ?hash ?nb"
  let ?same = "\<lambda>i. same_payload c (node_at c i) (full_proto c p) (arg_children p) (arg_rat p) (arg_big p)"
  let ?P = "\<lambda>i. nd_hash (node_at c i) = ?hash \<and> ?same i"
  have h: "nd_hash (full_proto c p) = ?hash" by (simp add: full_proto_def)
  have same: "?same i \<longleftrightarrow> payload_at c i = p" if "valid_ref c i" for i
    by (rule same_payload_iff [OF _ p]) (use ok'(2) that in \<open>simp add: nodes_ok_def node_ok_def\<close>)
  have nb: "0 < ?nb" "1 \<le> ?n" using ok' by (simp_all add: node_table_ok_def nodes_ok_def)
  have slot: "?slot < ?nb" by (rule bucket_slot_less [OF nb(1)])
  obtain r where f: "find_in_chain ?P (\<lambda>i. nd_next (node_at c i)) (pl_data (ic_node_buckets c) ! ?slot) = Some r"
    "r \<noteq> 0 \<Longrightarrow> valid_ref c r \<and> ?P r" "r = 0 \<Longrightarrow> \<forall>i. valid_ref c i \<and> bucket_slot (nd_hash (node_at c i)) ?nb = ?slot \<longrightarrow> \<not> ?P i"
    using find_chain [of "\<lambda>i. nd_next (node_at c i)" "\<lambda>b. pl_data (ic_node_buckets c) ! b"
        "\<lambda>i. bucket_slot (nd_hash (node_at c i)) ?nb" ?n "{..<?nb}" ?slot ?P] ok'(1) slot
    by (auto simp: node_table_ok_def)
  show ?thesis
  proof (cases "r = 0")
    case hit: False
    then have "valid_ref c r" "payload_at c r = p" using f(2) same by blast+
    moreover have "intern_payload c p = Some (r, c)" using f(1) hit by (simp add: intern_payload_def intern_node_def h Let_def)
    ultimately show ?thesis using inv hit graph_grows [of c c] by (simp add: node_interned_def)
  next
    case miss: True
    have fresh: "payload_at c i \<noteq> p" if "valid_ref c i" for i
    proof
      assume e: "payload_at c i = p"
      have "node_ok c i" using ok'(2) that by (simp add: nodes_ok_def)
      then have "nd_hash (node_at c i) = ?hash" using e by (simp add: node_ok_def)
      then show False using f(3) [OF miss, rule_format, of i] same [OF that] e that by simp
    qed
    show ?thesis
    proof (cases "il_nodes (ic_limits c) \<le> phy_ir_node_count c")
      case True
      then have "intern_payload c p = Some (0, phy_ir_set_error c PHY_ERR_NODE_LIMIT)"
        using f(1) miss by (simp add: intern_payload_def intern_node_def h Let_def)
      then show ?thesis using refused_node_interned [OF ok(1)] refused_error [OF ok(2)] by simp
    next
      case room: False
      obtain st c1 where sp: "store_payload c (full_proto c p) (arg_children p) (arg_rat p) (arg_big p) = (st, c1)" by (metis surj_pair)
      note s = store_payload_spec [OF ok(2) p len sp]
      show ?thesis
      proof (cases st)
        case None
        then have "intern_payload c p = Some (0, c1)" using f(1) miss room sp by (simp add: intern_payload_def intern_node_def h Let_def)
        then show ?thesis using s None refused_node_interned [OF ok(1)] by simp
      next
        case (Some nd)
        then have s': "nd = stored_node c p" "appends c p c1" "books_ok c1" "ic_error c1 = ic_error c"
          "pl_data (ic_nodes c1) = pl_data (ic_nodes c)" "pl_data (ic_node_buckets c1) = pl_data (ic_node_buckets c)"
          using s by simp_all
        define entry where "entry = (stored_node c p)\<lparr>nd_next := pl_data (ic_node_buckets c) ! ?slot\<rparr>"
        obtain index c2 nodes where pu: "pool_push c1 (ic_nodes c1) sizeof_ir_node entry = (index, c2, nodes)" by (metis prod_cases3)
        have run: "intern_payload c p = (case index of None \<Rightarrow> Some (0, unwind_payload c c2)
            | Some i \<Rightarrow> Some (i, node_rehash (c2\<lparr>ic_nodes := nodes,
                 ic_node_buckets := (ic_node_buckets c2)\<lparr>pl_data := (pl_data (ic_node_buckets c2))[?slot := i]\<rparr>\<rparr>)))"
          using f(1) miss room sp Some pu s'(1,6) by (simp add: intern_payload_def intern_node_def h Let_def entry_def)
        show ?thesis
        proof (cases index)
          case None
          then have "refused c1 c2" using push_refused(1) [OF _ s'(3)] pu by simp
          then show ?thesis using run None unwind_refused [OF s'(2,5,6)] refused_node_interned [OF ok(1)] by simp
        next
          case (Some i)
          obtain q where q: "phy_ir_pool_reserve c1 (ic_nodes c1) 32 (pl_count (ic_nodes c1) + 1) = (True, c2, q)" "i = pl_count (ic_nodes c1)"
            "nodes = q\<lparr>pl_data := pl_data (ic_nodes c1) @ [entry]\<rparr>" "length (pl_data (ic_nodes c1) @ [entry]) \<le> pl_capacity q"
            "recounted c1 c2" "ic_error c2 = ic_error c1"
            using push_granted [OF pu [unfolded Some]] by (auto simp: ir_sizes)
          note f2 = recounted_fields [OF q(5)]
          define c4 where "c4 = c2\<lparr>ic_nodes := nodes,
             ic_node_buckets := (ic_node_buckets c2)\<lparr>pl_data := (pl_data (ic_node_buckets c2))[?slot := i]\<rparr>\<rparr>"
          have "books_ok (c2\<lparr>ic_nodes := nodes\<rparr>)" unfolding q(3) by (rule granted_books [OF s'(3) q(4,1)])
          then have b4: "books_ok c4" by (simp add: c4_def books_ok_def ir_books_def)
          have i: "i = ?n" using q(2) s'(5) by simp
          have "appends c p c4" using s'(2) by (simp add: appends_def c4_def f2)
          then have a: "adds_node c p c4" using q(3) i s'(5,6) by (simp add: adds_node_def Let_def c4_def f2 entry_def)
          have "?n \<le> il_nodes (ic_limits c)" using room nb(2) by (auto simp: phy_ir_node_count_def split: if_splits)
          note a4 = adds_node_ok [OF a ok(1) p depth this fresh]
          have inv4: "ir_inv c4" using a4(1) b4 by (simp add: ir_inv_def)
          have rh: "ir_inv (node_rehash c4)" "refiled c4 (node_rehash c4)" "ic_error (node_rehash c4) = ic_error c4"
            using node_rehash_inv [OF inv4] by simp_all
          note gr = refiled_grows [OF rh(2)] and g4 = adds_node_grows [OF a]
          have nk: "node_ok c4 ?n" using a4 by (simp add: graph_ok_def nodes_ok_def)
          have "valid_ref (node_rehash c4) ?n" "payload_at (node_rehash c4) ?n = p"
            using grows_at(1,2) [OF gr a4(2) nk] a4(3) by simp_all
          moreover have "ic_error (node_rehash c4) = ic_error c" using rh(3) q(6) s'(4) by (simp add: c4_def)
          moreover have "map still_symbol (pl_data (ic_symbols (node_rehash c4))) = map still_symbol (pl_data (ic_symbols c))"
            using refiled_still_symbol [OF rh(2)] a by (simp add: adds_node_def Let_def appends_def)
          moreover have "intern_payload c p = Some (?n, node_rehash c4)" using run Some i by (simp add: c4_def)
          moreover have "?n \<noteq> 0" using nb(2) by linarith
          ultimately show ?thesis
            using rh(1) ir_grows_trans [OF g4 gr] unfolding node_interned_def by (intro exI [of _ ?n] exI [of _ "node_rehash c4"]) (simp add: Suc_le_eq)
        qed
      qed
    qed
  qed
qed

end
