(* ===== verification/IrSort.thy ===== *)
theory IrSort
  imports IrOrder "HOL-Library.Multiset"
begin

text \<open>
  Heapsort over a three-way comparison that may fail: what \<open>src/ir/order.c\<close> relies on is a
  locale, the loops are proved in it once. The comparison is total on a set and decides a linear
  order there.
\<close>

section \<open>Swaps\<close>

lemma swap_at_length [simp]: "length (swap_at xs i j) = length xs"
  by (simp add: swap_at_def)

lemma swap_at_nth: "i < length xs \<Longrightarrow> j < length xs \<Longrightarrow> k < length xs \<Longrightarrow>
    swap_at xs i j ! k = (if k = i then xs ! j else if k = j then xs ! i else xs ! k)"
  by (auto simp: swap_at_def nth_list_update)

lemma swap_at_mset: "i < length xs \<Longrightarrow> j < length xs \<Longrightarrow> mset (swap_at xs i j) = mset xs"
  unfolding swap_at_def by (rule mset_swap)

lemma swap_at_drop: "i < n \<Longrightarrow> j < n \<Longrightarrow> drop n (swap_at xs i j) = drop n xs"
  by (simp add: swap_at_def)

section \<open>The interface\<close>

locale comparison =
  fixes cmp :: "'a \<Rightarrow> 'a \<Rightarrow> int option" and S :: "'a set" and le :: "'a \<Rightarrow> 'a \<Rightarrow> bool"
  assumes returns: "x \<in> S \<Longrightarrow> y \<in> S \<Longrightarrow> \<exists>k. cmp x y = Some k \<and> (0 < k \<longleftrightarrow> \<not> le x y)"
    and total: "x \<in> S \<Longrightarrow> y \<in> S \<Longrightarrow> le x y \<or> le y x"
    and trans: "x \<in> S \<Longrightarrow> y \<in> S \<Longrightarrow> z \<in> S \<Longrightarrow> le x y \<Longrightarrow> le y z \<Longrightarrow> le x z"
    and antisym: "x \<in> S \<Longrightarrow> y \<in> S \<Longrightarrow> le x y \<Longrightarrow> le y x \<Longrightarrow> x = y"
begin

lemma refl: "x \<in> S \<Longrightarrow> le x x"
  using total by blast

text \<open>A heap from the node \<open>k\<close> on, over the first \<open>n\<close> elements, and one with a hole at \<open>r\<close>.\<close>

definition heap_from :: "nat \<Rightarrow> nat \<Rightarrow> 'a list \<Rightarrow> bool" where
  "heap_from k n xs \<longleftrightarrow> (\<forall>i j. k \<le> i \<and> (j = 2 * i + 1 \<or> j = 2 * i + 2) \<and> j < n \<longrightarrow> le (xs ! j) (xs ! i))"

definition heap_except :: "nat \<Rightarrow> nat \<Rightarrow> nat \<Rightarrow> 'a list \<Rightarrow> bool" where
  "heap_except k n r xs \<longleftrightarrow>
     (\<forall>i j. k \<le> i \<and> i \<noteq> r \<and> (j = 2 * i + 1 \<or> j = 2 * i + 2) \<and> j < n \<longrightarrow> le (xs ! j) (xs ! i)) \<and>
     (\<forall>i j. k \<le> i \<and> (r = 2 * i + 1 \<or> r = 2 * i + 2) \<and> (j = 2 * r + 1 \<or> j = 2 * r + 2) \<and> j < n \<longrightarrow> le (xs ! j) (xs ! i))"

lemma heap_swap:
  assumes h: "heap_except k n r xs" and n: "n \<le> length xs" "set xs \<subseteq> S" and r: "k \<le> r" "r < n"
    and m: "m = 2 * r + 1 \<or> m = 2 * r + 2" "m < n"
    and up: "le (xs ! r) (xs ! m)" "\<And>j. j = 2 * r + 1 \<or> j = 2 * r + 2 \<Longrightarrow> j < n \<Longrightarrow> le (xs ! j) (xs ! m)"
  shows "heap_except k n m (swap_at xs r m)"
proof -
  have nth: "i < n \<Longrightarrow> swap_at xs r m ! i = (if i = r then xs ! m else if i = m then xs ! r else xs ! i)" for i
    using n r m by (intro swap_at_nth) simp_all
  show ?thesis unfolding heap_except_def
  proof (intro conjI allI impI, goal_cases)
    case (1 i j)
    then have ij: "k \<le> i" "i \<noteq> m" "j = 2 * i + 1 \<or> j = 2 * i + 2" "j < n" "i < n" by auto
    show ?case
    proof (cases "i = r")
      case True
      then show ?thesis using ij up m nth by auto
    next
      case False
      then have "j \<noteq> m" using ij m by auto
      show ?thesis
      proof (cases "j = r")
        case True
        then have "le (xs ! m) (xs ! i)" using h ij m unfolding heap_except_def by blast
        then show ?thesis using True False ij nth \<open>j \<noteq> m\<close> by simp
      next
        case neq: False
        have "le (xs ! j) (xs ! i)" using h ij False unfolding heap_except_def by blast
        then show ?thesis using neq False ij nth \<open>j \<noteq> m\<close> by simp
      qed
    qed
  next
    case (2 i j)
    then have ij: "i = r" "j = 2 * m + 1 \<or> j = 2 * m + 2" "j < n" using m by auto
    have "k \<le> m" "m \<noteq> r" "j \<noteq> r" "j \<noteq> m" using m r ij by auto
    then have "le (xs ! j) (xs ! m)" using h ij unfolding heap_except_def by blast
    then show ?case using ij r nth \<open>j \<noteq> r\<close> \<open>j \<noteq> m\<close> by simp
  qed
qed

lemma sift_down_ok:
  assumes "heap_except k n r xs" "n \<le> length xs" "set xs \<subseteq> S" "k \<le> r" "r < n"
  shows "\<exists>ys. sift_down cmp xs r n = Some ys \<and> mset ys = mset xs \<and> drop n ys = drop n xs \<and> heap_from k n ys"
  using assms
proof (induction "n - r" arbitrary: xs r rule: less_induct)
  case less
  note h = less.prems
  let ?l = "2 * r + 1" and ?r = "2 * r + 2"
  have S: "i < n \<Longrightarrow> xs ! i \<in> S" for i using h(2,3) nth_mem [of i xs] by auto
  have compared: "\<exists>x. (if j < n then cmp (xs ! j) (xs ! i) else Some 0) = Some x \<and> (0 < x \<longleftrightarrow> j < n \<and> \<not> le (xs ! j) (xs ! i))"
    if "i < n" for i j
    using returns [OF S S, of j i] that by (cases "j < n") simp_all
  obtain x where x: "(if ?l < n then cmp (xs ! ?l) (xs ! r) else Some 0) = Some x"
    "0 < x \<longleftrightarrow> ?l < n \<and> \<not> le (xs ! ?l) (xs ! r)"
    using compared [OF h(5), of ?l] by blast
  define a where "a = (if 0 < x then ?l else r)"
  have a: "a < n" "a = r \<or> a = ?l" "le (xs ! r) (xs ! a)" "?l < n \<Longrightarrow> le (xs ! ?l) (xs ! a)"
    using x(2) h(5) total [OF S S, of r ?l] refl [OF S] by (auto simp: a_def)
  obtain y where y: "(if ?r < n then cmp (xs ! ?r) (xs ! a) else Some 0) = Some y"
    "0 < y \<longleftrightarrow> ?r < n \<and> \<not> le (xs ! ?r) (xs ! a)"
    using compared [OF a(1), of ?r] by blast
  define m where "m = (if 0 < y then ?r else a)"
  have ay: "0 < y \<Longrightarrow> le (xs ! a) (xs ! ?r)" using y(2) total [OF S S, of a ?r] a(1) by auto
  have m: "m < n" "m = r \<or> m = ?l \<or> m = ?r" "?r < n \<Longrightarrow> le (xs ! ?r) (xs ! m)"
    using y(2) a refl [OF S] by (auto simp: m_def)
  have am: "le (xs ! a) (xs ! m)" using ay a(1) refl [OF S] by (simp add: m_def)
  have up: "le (xs ! r) (xs ! m)" "?l < n \<Longrightarrow> le (xs ! ?l) (xs ! m)"
    using trans [OF S S S a(3) am] trans [OF S S S a(4) am] h(5) a(1) m(1) by simp_all
  have step: "sift_down cmp xs r n = (if m = r then Some xs else sift_down cmp (swap_at xs r m) m n)"
    using x(1) y(1) by (subst sift_down.simps) (simp add: Let_def a_def m_def split: if_splits)
  show ?case
  proof (cases "m = r")
    case True
    have "heap_from k n xs" unfolding heap_from_def
    proof (intro allI impI)
      fix i j assume "k \<le> i \<and> (j = 2 * i + 1 \<or> j = 2 * i + 2) \<and> j < n"
      then show "le (xs ! j) (xs ! i)" using h(1) up(2) m(3) True unfolding heap_except_def by (cases "i = r") auto
    qed
    then show ?thesis using True step by simp
  next
    case False
    have mm: "m = ?l \<or> m = ?r" using m False by simp
    have "heap_except k n m (swap_at xs r m)"
      by (rule heap_swap [OF h mm m(1) up(1)]) (use up(2) m(3) in auto)
    moreover have "mset (swap_at xs r m) = mset xs" "drop n (swap_at xs r m) = drop n xs"
      using h m by (simp_all add: swap_at_mset swap_at_drop)
    moreover from this have "set (swap_at xs r m) \<subseteq> S" using h(3) mset_eq_setD by metis
    ultimately show ?thesis
      using less.hyps [of m "swap_at xs r m"] False step h m mm by auto
  qed
qed

section \<open>Building the heap\<close>

lemma build_heap_ok:
  assumes "heap_from k (length xs) xs" "set xs \<subseteq> S" "k \<le> length xs div 2"
  shows "\<exists>ys. build_heap cmp xs k = Some ys \<and> mset ys = mset xs \<and> heap_from 0 (length xs) ys"
  using assms
proof (induction k arbitrary: xs)
  case (Suc k)
  have "heap_except k (length xs) k xs" using Suc.prems(1) unfolding heap_from_def heap_except_def by auto
  then obtain ys where ys: "sift_down cmp xs k (length xs) = Some ys" "mset ys = mset xs" "heap_from k (length xs) ys"
    using sift_down_ok [of k "length xs" k xs] Suc.prems(2,3) by fastforce
  note l = mset_eq_length [OF ys(2)] and st = mset_eq_setD [OF ys(2)]
  show ?case using Suc.IH [of ys] Suc.prems(2,3) ys l st by simp
qed simp

lemma heap_top: "heap_from 0 n xs \<Longrightarrow> n \<le> length xs \<Longrightarrow> set xs \<subseteq> S \<Longrightarrow> i < n \<Longrightarrow> le (xs ! i) (xs ! 0)"
proof (induction i rule: less_induct)
  case (less i)
  have S: "j < n \<Longrightarrow> xs ! j \<in> S" for j using less.prems(2,3) nth_mem [of j xs] by auto
  show ?case
  proof (cases "i = 0")
    case True
    then show ?thesis using refl [OF S] less.prems(4) by simp
  next
    case False
    define p where "p = (i - 1) div 2"
    have p: "i = 2 * p + 1 \<or> i = 2 * p + 2" "p < i" using False unfolding p_def by presburger+
    have "le (xs ! i) (xs ! p)" using less.prems(1,4) p unfolding heap_from_def by blast
    moreover have "le (xs ! p) (xs ! 0)" using less.IH [OF p(2)] less.prems p(2) by simp
    ultimately show ?thesis
      by (rule trans [OF S S S, rotated 3]) (use less.prems(4) p(2) in simp_all)
  qed
qed

section \<open>Emptying it\<close>

definition drained :: "nat \<Rightarrow> 'a list \<Rightarrow> bool" where
  "drained e xs \<longleftrightarrow> heap_from 0 (Suc e) xs \<and> sorted_wrt le (drop (Suc e) xs) \<and>
     (\<forall>x \<in> set (take (Suc e) xs). \<forall>y \<in> set (drop (Suc e) xs). le x y)"

lemma take_mset:
  fixes xs ys :: "'a list"
  assumes "mset ys = mset xs" "drop n ys = drop n xs"
  shows "set (take n ys) = set (take n xs)"
proof -
  have "mset (take n zs) + mset (drop n zs) = mset zs" for zs :: "'a list" by (metis append_take_drop_id mset_append)
  from this [of ys] this [of xs] have "mset (take n ys) = mset (take n xs)" using assms by (metis add_right_cancel)
  then show ?thesis by (rule mset_eq_setD)
qed

lemma swap_drained:
  assumes d: "drained (Suc e) xs" and n: "Suc e < length xs" "set xs \<subseteq> S"
  defines "ys \<equiv> swap_at xs 0 (Suc e)"
  shows "heap_except 0 (Suc e) 0 ys" "sorted_wrt le (drop (Suc e) ys)"
    "\<forall>x \<in> set (take (Suc e) ys). \<forall>y \<in> set (drop (Suc e) ys). le x y"
proof -
  have h: "heap_from 0 (Suc (Suc e)) xs" and so: "sorted_wrt le (drop (Suc (Suc e)) xs)"
    and le: "\<And>x y. x \<in> set (take (Suc (Suc e)) xs) \<Longrightarrow> y \<in> set (drop (Suc (Suc e)) xs) \<Longrightarrow> le x y"
    using d by (auto simp: drained_def)
  have nth: "i < length xs \<Longrightarrow> ys ! i = (if i = 0 then xs ! Suc e else if i = Suc e then xs ! 0 else xs ! i)" for i
    unfolding ys_def using n by (intro swap_at_nth) auto
  have len: "length ys = length xs" by (simp add: ys_def)
  have S: "i < length xs \<Longrightarrow> xs ! i \<in> S" for i using n(2) by auto
  have top: "i < Suc (Suc e) \<Longrightarrow> le (xs ! i) (xs ! 0)" for i using heap_top [OF h _ n(2)] n(1) by simp
  show "heap_except 0 (Suc e) 0 ys" using h n nth unfolding heap_except_def heap_from_def by auto
  have drop: "drop (Suc e) ys = xs ! 0 # drop (Suc (Suc e)) xs"
    using n(1) nth [of "Suc e"] len swap_at_drop [of 0 "Suc (Suc e)" "Suc e" xs]
    by (simp add: ys_def flip: Cons_nth_drop_Suc)
  have 0: "xs ! 0 \<in> set (take (Suc (Suc e)) xs)" using n(1) by (auto simp: in_set_conv_nth intro!: exI [of _ 0])
  show "sorted_wrt le (drop (Suc e) ys)" unfolding drop using so le [OF 0] by simp
  have le0: "le x (xs ! 0)" "x \<in> set (take (Suc (Suc e)) xs)" if x: "x \<in> set (take (Suc e) ys)" for x
  proof -
    from x obtain i where "i < Suc e" "x = ys ! i" using n(1) len by (auto simp: in_set_conv_nth)
    then have "x = xs ! (if i = 0 then Suc e else i)" using nth [of i] n(1) by auto
    then obtain j where "j < Suc (Suc e)" "x = xs ! j" using \<open>i < Suc e\<close> by (metis less_Suc_eq)
    then show "le x (xs ! 0)" "x \<in> set (take (Suc (Suc e)) xs)" using top n(1) by (auto simp: in_set_conv_nth)
  qed
  then show "\<forall>x \<in> set (take (Suc e) ys). \<forall>y \<in> set (drop (Suc e) ys). le x y" unfolding drop using le by auto
qed

lemma drain_heap_ok:
  assumes "drained e xs" "e < length xs" "set xs \<subseteq> S"
  shows "\<exists>ys. drain_heap cmp xs e = Some ys \<and> mset ys = mset xs \<and> sorted_wrt le ys"
  using assms
proof (induction e arbitrary: xs)
  case 0
  then obtain x zs where "xs = x # zs" by (cases xs) auto
  then show ?case using 0 by (simp add: drained_def)
next
  case (Suc e)
  let ?ys = "swap_at xs 0 (Suc e)"
  note sw = swap_drained [OF Suc.prems]
  have m: "mset ?ys = mset xs" using Suc.prems(2) by (intro swap_at_mset) auto
  then have s: "set ?ys \<subseteq> S" using Suc.prems(3) mset_eq_setD by metis
  obtain zs where zs: "sift_down cmp ?ys 0 (Suc e) = Some zs" "mset zs = mset ?ys" "drop (Suc e) zs = drop (Suc e) ?ys"
    "heap_from 0 (Suc e) zs"
    using sift_down_ok [OF sw(1)] Suc.prems(2) s by auto
  have "drained e zs" using zs sw(2,3) take_mset [OF zs(2,3)] by (simp add: drained_def)
  moreover have "e < length zs" "set zs \<subseteq> S"
    using Suc.prems(2) mset_eq_length [OF zs(2)] mset_eq_setD [OF zs(2)] s by simp_all
  ultimately show ?case using Suc.IH [of zs] zs m by auto
qed

section \<open>The sort\<close>

theorem heapsort_sorts:
  assumes "set xs \<subseteq> S"
  shows "\<exists>ys. heapsort_by cmp xs = Some ys \<and> mset ys = mset xs \<and> sorted_wrt le ys"
proof (cases "length xs < 2")
  case True
  then have "sorted_wrt le xs" by (cases xs rule: list.exhaust; cases "tl xs") auto
  then show ?thesis using True by (simp add: heapsort_by_def)
next
  case False
  have "heap_from (length xs div 2) (length xs) xs" unfolding heap_from_def by auto
  then obtain ys where ys: "build_heap cmp xs (length xs div 2) = Some ys" "mset ys = mset xs" "heap_from 0 (length xs) ys"
    using build_heap_ok [OF _ assms] by blast
  note l = mset_eq_length [OF ys(2)]
  have "Suc (length xs - 1) = length xs" using False by simp
  then have "drained (length xs - 1) ys" using ys(3) l by (simp only: drained_def) simp
  moreover have "length xs - 1 < length ys" "set ys \<subseteq> S" using l False mset_eq_setD [OF ys(2)] assms by auto
  ultimately show ?thesis using drain_heap_ok [of "length xs - 1" ys] False ys by (auto simp: heapsort_by_def)
qed

text \<open>A sorted arrangement is unique, so the result depends on the elements alone.\<close>

lemma sorted_unique:
  "sorted_wrt le xs \<Longrightarrow> sorted_wrt le ys \<Longrightarrow> mset xs = mset ys \<Longrightarrow> set xs \<subseteq> S \<Longrightarrow> xs = ys"
proof (induction xs arbitrary: ys)
  case (Cons x xs)
  then obtain y zs where ys: "ys = y # zs" by (cases ys) auto
  note st = mset_eq_setD [OF Cons.prems(3)]
  have "x \<in> set ys" "y \<in> set (x # xs)" using st ys by auto
  then have "le x y \<and> le y x" using Cons.prems(1,2,4) ys refl [of x] refl [of y] by auto
  moreover have "x \<in> S" "y \<in> S" using Cons.prems(4) st ys by auto
  ultimately have "x = y" using antisym by blast
  then show ?case using Cons.IH [of zs] Cons.prems ys by simp
qed simp

theorem heapsort_order_free:
  assumes "set xs \<subseteq> S" "mset xs = mset ys"
  shows "heapsort_by cmp xs = heapsort_by cmp ys"
proof -
  have "set ys \<subseteq> S" using assms mset_eq_setD by metis
  then obtain us vs where "heapsort_by cmp xs = Some us" "mset us = mset xs" "sorted_wrt le us"
    "heapsort_by cmp ys = Some vs" "mset vs = mset ys" "sorted_wrt le vs"
    using heapsort_sorts assms(1) by metis
  moreover have "set us \<subseteq> S" using mset_eq_setD [OF \<open>mset us = mset xs\<close>] assms(1) by simp
  ultimately show ?thesis using sorted_unique [of us vs] assms(2) by simp
qed

end

end
