(* ===== verification/IrBuilders.thy ===== *)
theory IrBuilders
  imports IrNodes IrSort
begin

text \<open>
  The builders: each refuses, leaving the graph as it was, or interns one payload, which is the
  one its arguments ask for.
\<close>

section \<open>The contract of a builder\<close>

definition builds :: "phy_ir_context \<Rightarrow> (phy_ir_context \<Rightarrow> nat \<Rightarrow> bool) \<Rightarrow> built \<Rightarrow> bool" where
  "builds c P r \<longleftrightarrow> (\<exists>ref c'. r = Some (ref, c') \<and> ir_inv c' \<and> grows c c' \<and>
     map still_symbol (pl_data (ic_symbols c')) = map still_symbol (pl_data (ic_symbols c)) \<and>
     (if ref \<noteq> 0 then valid_ref c' ref \<and> P c' ref \<and> ic_error c' = ic_error c else refused c c'))"

abbreviation has_payload :: "payload \<Rightarrow> phy_ir_context \<Rightarrow> nat \<Rightarrow> bool" where
  "has_payload p \<equiv> \<lambda>c ref. payload_at c ref = p"

lemma node_interned_builds: "node_interned c p r = builds c (has_payload p) r"
  by (simp add: node_interned_def builds_def)

lemma builds_weaken: "builds c P r \<Longrightarrow> (\<And>c' ref. valid_ref c' ref \<Longrightarrow> P c' ref \<Longrightarrow> Q c' ref) \<Longrightarrow> builds c Q r"
  unfolding builds_def by metis

lemma builds_refused: "graph_ok c \<Longrightarrow> refused c c' \<Longrightarrow> builds c P (Some (0, c'))"
  using refused_inv [of c c'] by (auto simp: builds_def refused_def graph_eq)

lemma builds_error: "ir_inv c \<Longrightarrow> st \<noteq> PHY_OK \<Longrightarrow> builds c P (Some (0, phy_ir_set_error c st))"
  by (intro builds_refused refused_error) (simp_all add: ir_inv_def)

text \<open>A builder that first only touched the books.\<close>

lemma builds_after:
  assumes "graph c1 = graph c" "ic_error c1 = ic_error c" "builds c1 P r"
  shows "builds c P r"
proof -
  obtain ref c' where r: "r = Some (ref, c')" "ir_inv c'" "grows c1 c'"
    "map still_symbol (pl_data (ic_symbols c')) = map still_symbol (pl_data (ic_symbols c1))"
    "if ref \<noteq> 0 then valid_ref c' ref \<and> P c' ref \<and> ic_error c' = ic_error c1 else refused c1 c'"
    using assms(3) by (auto simp: builds_def)
  have "grows c c'" using graph_grows [OF assms(1)] r(3) by (rule ir_grows_trans)
  moreover have "if ref \<noteq> 0 then valid_ref c' ref \<and> P c' ref \<and> ic_error c' = ic_error c else refused c c'"
    using r(5) assms(1,2) by (simp add: refused_def split: if_splits)
  ultimately show ?thesis using r assms(1) unfolding builds_def by (intro exI [of _ ref] exI [of _ c']) (simp add: graph_eq)
qed

lemma node_depth_limit: "ir_inv c \<Longrightarrow> 1 \<le> il_depth (ic_limits c)"
  by (simp add: ir_inv_def graph_ok_def limits_ok_def)

lemma books_limit: "ir_inv c \<Longrightarrow> ic_bytes c \<le> SIZE_MAX"
  by (simp add: ir_inv_def books_ok_def)

text \<open>Atoms of one level without text.\<close>

lemma intern_atom:
  assumes "ir_inv c" "payload_ok c (pl_count (ic_nodes c)) p" "payload_depth c p = 1" "big_text p = []"
  shows "builds c (has_payload p) (intern_payload c p)"
  using intern_payload_spec [OF assms(1,2)] assms(3,4) node_depth_limit [OF assms(1)] books_limit [OF assms(1)]
  by (simp add: node_interned_builds)

section \<open>Atoms\<close>

lemmas atom_defs = intern_payload_def full_proto_def atom_proto_def null_node_def Let_def

lemma integer_payload: "phy_ir_integer c v = intern_payload c (P_int v)"
  by (simp add: phy_ir_integer_def atom_defs)

lemma integer_spec:
  assumes "ir_inv c" "- (2 ^ 63) \<le> v" "v < 2 ^ 63"
  shows "builds c (has_payload (P_int v)) (phy_ir_integer c v)"
  unfolding integer_payload by (rule intern_atom) (use assms in simp_all)

lemma ir_magnitude_spec:
  assumes "- (2 ^ 63) \<le> v" "v < 2 ^ 63"
  shows "unat (ir_magnitude v) = nat \<bar>v\<bar>"
proof -
  have "ir_magnitude v = word_of_int \<bar>v\<bar>"
  proof (cases "v < 0")
    case True
    have "not (word_of_int v) + 1 = - (word_of_int v :: u64)" by (simp add: minus_eq_not_plus_1)
    then show ?thesis using True by (simp add: ir_magnitude_def)
  next
    case False
    then show ?thesis by (simp add: ir_magnitude_def)
  qed
  moreover have "\<bar>v\<bar> < 2 ^ 64" "0 \<le> \<bar>v\<bar>" using assms by simp_all
  ultimately have "uint (ir_magnitude v) = \<bar>v\<bar>" by (simp add: uint_word_of_int)
  then show ?thesis by (metis unat_eq_nat_uint)
qed

lemma ir_gcd_u64: "euclid_u64 a b = gcd a b"
proof (induction a b rule: euclid_u64.induct)
  case (1 a b)
  then show ?case by (subst euclid_u64.simps) (simp add: gcd_non_0_nat)
qed

text \<open>The payload of a reduced fraction, if it fits.\<close>

definition fraction_payload :: "int \<Rightarrow> int \<Rightarrow> payload option" where
  "fraction_payload n d =
     (let g = gcd n d; n' = sgn d * n div g; d' = \<bar>d\<bar> div g in
      if n' < - (2 ^ 63) \<or> 2 ^ 63 \<le> n' \<or> 2 ^ 63 \<le> d' then None else Some (if d' = 1 then P_int n' else P_rat n' d'))"

lemma rational_payload:
  assumes n: "- (2 ^ 63) \<le> n" "n < 2 ^ 63" and d: "- (2 ^ 63) \<le> d" "d < 2 ^ 63" "d \<noteq> 0"
  shows "phy_ir_rational c n d = (case fraction_payload n d of None \<Rightarrow> Some (0, phy_ir_set_error c PHY_ERR_OVERFLOW)
      | Some p \<Rightarrow> intern_payload c p)"
proof (cases "n = 0")
  case True
  have "\<bar>d\<bar> div \<bar>d\<bar> = 1" using d(3) by simp
  then have "fraction_payload n d = Some (P_int 0)" using True by (simp add: fraction_payload_def)
  then show ?thesis using True d(3) integer_payload by (simp add: phy_ir_rational_def)
next
  case False
  let ?neg = "(n < 0) \<noteq> (d < 0)"
  define a b where "a = nat \<bar>n\<bar>" and "b = nat \<bar>d\<bar>"
  have ab: "unat (ir_magnitude n) = a" "unat (ir_magnitude d) = b" using ir_magnitude_spec n d by (simp_all add: a_def b_def)
  define m k where "m = a div gcd a b" and "k = b div gcd a b"
  have g: "gcd n d = int (gcd a b)" unfolding a_def b_def by (rule gcd_int_def)
  have ia: "\<bar>n\<bar> = int a" "\<bar>d\<bar> = int b" by (simp_all add: a_def b_def)
  have kd: "\<bar>d\<bar> div gcd n d = int k" unfolding ia g k_def by (simp add: zdiv_int)
  have dvd: "gcd n d dvd n" by simp
  have md: "\<bar>n\<bar> div gcd n d = int m" unfolding ia g m_def by (simp add: zdiv_int)
  have "sgn d * n = (if ?neg then - \<bar>n\<bar> else \<bar>n\<bar>)" using False d(3) by (auto simp: sgn_if abs_if)
  then have nd: "sgn d * n div gcd n d = (if ?neg then - int m else int m)"
    using md dvd by (simp add: dvd_neg_div)
  have mk: "0 < m" "0 < k" using False d(3) by (simp_all add: m_def k_def a_def b_def zero_less_iff_neq_zero dvd_div_eq_0_iff)
  have fp: "fraction_payload n d = (if (if ?neg then - int m else int m) < - (2 ^ 63) \<or> 2 ^ 63 \<le> (if ?neg then - int m else int m) \<or> 2 ^ 63 \<le> int k
      then None else Some (if int k = 1 then P_int (if ?neg then - int m else int m) else P_rat (if ?neg then - int m else int m) (int k)))"
    unfolding fraction_payload_def Let_def nd kd ..
  have guard: "((if ?neg then 2 ^ 63 - 1 + 1 else 2 ^ 63 - 1) < m \<or> 2 ^ 63 - 1 < k) \<longleftrightarrow>
      (if ?neg then - int m else int m) < - (2 ^ 63) \<or> 2 ^ 63 \<le> (if ?neg then - int m else int m) \<or> 2 ^ 63 \<le> int k"
    by auto
  have sn: "(if ?neg then (if m = 2 ^ 63 - 1 + 1 then - (2 ^ 63) else - int m) else int m) = (if ?neg then - int m else int m)" by auto
  have run: "phy_ir_rational c n d = (if (if ?neg then 2 ^ 63 - 1 + 1 else 2 ^ 63 - 1) < m \<or> 2 ^ 63 - 1 < k then Some (0, phy_ir_set_error c PHY_ERR_OVERFLOW)
      else let v = (if ?neg then (if m = 2 ^ 63 - 1 + 1 then - (2 ^ 63) else - int m) else int m) in
        if k = 1 then phy_ir_integer c v
        else intern_node c (atom_proto PHY_IR_RATIONAL (hash_bytes (hash_u32 FNV_OFFSET (kind_code PHY_IR_RATIONAL)) (i64_bytes v @ i64_bytes (int k))))
               [] (Some \<lparr>rt_num = v, rt_den = int k\<rparr>) None)"
    using False d(3) unfolding phy_ir_rational_def ab ir_gcd_u64 Let_def m_def k_def by (simp only: if_False)
  show ?thesis unfolding run fp guard sn Let_def integer_payload by (simp add: atom_defs)
qed

lemma fraction_payload_ok:
  assumes "fraction_payload n d = Some p" "d \<noteq> 0"
  shows "payload_ok c i p" "payload_depth c p = 1" "big_text p = []"
proof -
  let ?g = "gcd n d" let ?n = "sgn d * n div ?g" and ?d = "\<bar>d\<bar> div ?g"
  have p: "p = (if ?d = 1 then P_int ?n else P_rat ?n ?d)" "- (2 ^ 63) \<le> ?n" "?n < 2 ^ 63" "?d < 2 ^ 63"
    using assms(1) by (auto simp: fraction_payload_def Let_def split: if_splits)
  have g: "0 < ?g" using assms(2) by simp
  have "?d \<noteq> 0" using assms(2) by (simp add: dvd_div_eq_0_iff)
  moreover have "0 \<le> ?d" using g by (simp add: pos_imp_zdiv_nonneg_iff)
  ultimately have "0 < ?d" by simp
  moreover have "coprime ?n ?d"
  proof -
    have "coprime (n div ?g) (d div ?g)" using assms(2) by (intro div_gcd_coprime) simp
    moreover have "?n = sgn d * (n div ?g)" by (simp add: div_mult_swap)
    moreover have "?d = sgn d * (d div ?g)" by (simp add: div_mult_swap abs_sgn mult.commute)
    ultimately show ?thesis using assms(2) by (cases "0 < d") (simp_all add: sgn_if)
  qed
  ultimately show "payload_ok c i p" "payload_depth c p = 1" "big_text p = []" using p by (auto split: if_splits)
qed

lemma rational_spec:
  assumes inv: "ir_inv c" and n: "- (2 ^ 63) \<le> n" "n < 2 ^ 63" and d: "- (2 ^ 63) \<le> d" "d < 2 ^ 63"
  shows "builds c (\<lambda>c' ref. d \<noteq> 0 \<and> fraction_payload n d = Some (payload_at c' ref)) (phy_ir_rational c n d)"
proof (cases "d = 0")
  case True
  then show ?thesis using builds_error [OF inv, of PHY_ERR_DOMAIN] by (simp add: phy_ir_rational_def)
next
  case False
  note run = rational_payload [OF n d False, of c]
  show ?thesis
  proof (cases "fraction_payload n d")
    case None
    then show ?thesis using run builds_error [OF inv, of PHY_ERR_OVERFLOW] by simp
  next
    case (Some p)
    have "builds c (has_payload p) (intern_payload c p)" by (rule intern_atom [OF inv fraction_payload_ok [OF Some False]])
    then have "builds c (\<lambda>c' ref. d \<noteq> 0 \<and> fraction_payload n d = Some (payload_at c' ref)) (intern_payload c p)"
      by (rule builds_weaken) (use Some False in simp)
    then show ?thesis using run Some by simp
  qed
qed

lemma real_spec:
  assumes inv: "ir_inv c"
  shows "builds c (\<lambda>c' ref. payload_at c' ref = P_real (if bits = 0x8000000000000000 then 0 else bits) \<and> and (drop_bit 52 bits) 0x7ff \<noteq> 0x7ff)
    (phy_ir_real c bits)"
proof (cases "and (drop_bit 52 bits) 0x7ff = 0x7ff")
  case True
  then show ?thesis using builds_error [OF inv, of PHY_ERR_DOMAIN] by (simp add: phy_ir_real_def)
next
  case False
  let ?b = "if bits = 0x8000000000000000 then 0 else bits"
  have run: "phy_ir_real c bits = intern_payload c (P_real ?b)" using False by (simp add: phy_ir_real_def atom_defs)
  have "finite_bits ?b" using False by (simp add: finite_bits_def)
  then have "builds c (has_payload (P_real ?b)) (intern_payload c (P_real ?b))" by (intro intern_atom [OF inv]) simp_all
  then show ?thesis unfolding run by (rule builds_weaken) (use False in simp)
qed

lemma symbol_ref_spec:
  assumes inv: "ir_inv c"
  shows "builds c (\<lambda>c' ref. payload_at c' ref = P_symbol s \<and> valid_symbol c s) (phy_ir_symbol_ref c s)"
proof (cases "valid_symbol c s")
  case False
  then have "phy_ir_symbol_at c s = None" by (auto simp: phy_ir_symbol_at_def)
  then show ?thesis using builds_error [OF inv, of PHY_ERR_INVALID_ARGUMENT] by (simp add: phy_ir_symbol_ref_def make_headed_atom_def)
next
  case True
  then have "phy_ir_symbol_at c s = Some (symbol_record c s)" by (simp add: phy_ir_symbol_at_def)
  then have run: "phy_ir_symbol_ref c s = intern_payload c (P_symbol s)" by (simp add: phy_ir_symbol_ref_def make_headed_atom_def atom_defs)
  have "builds c (has_payload (P_symbol s)) (intern_payload c (P_symbol s))" by (rule intern_atom [OF inv]) (use True in simp_all)
  then show ?thesis unfolding run by (rule builds_weaken) (use True in simp)
qed

lemma index_spec:
  assumes inv: "ir_inv c"
  shows "builds c (\<lambda>c' ref. payload_at c' ref = P_index name (variance_code v) space \<and> valid_symbol c name \<and> (space = 0 \<or> valid_symbol c space))
    (phy_ir_index_in_space c name v space)"
proof (cases "valid_symbol c name \<and> (space = 0 \<or> valid_symbol c space)")
  case False
  then have "phy_ir_index_in_space c name v space = Some (0, phy_ir_set_error c PHY_ERR_INVALID_ARGUMENT)"
    by (auto simp: phy_ir_index_in_space_def phy_ir_symbol_at_def Let_def)
  then show ?thesis using builds_error [OF inv, of PHY_ERR_INVALID_ARGUMENT] by simp
next
  case True
  then have "phy_ir_index_in_space c name v space = intern_payload c (P_index name (variance_code v) space)"
    by (auto simp: phy_ir_index_in_space_def phy_ir_symbol_at_def atom_defs)
  moreover have "builds c (has_payload (P_index name (variance_code v) space)) (intern_payload c (P_index name (variance_code v) space))"
    by (rule intern_atom [OF inv]) (use True in \<open>cases v; auto\<close>)+
  then have "builds c (\<lambda>c' ref. payload_at c' ref = P_index name (variance_code v) space \<and> valid_symbol c name \<and> (space = 0 \<or> valid_symbol c space))
      (intern_payload c (P_index name (variance_code v) space))" by (rule builds_weaken) (use True in simp)
  ultimately show ?thesis by simp
qed

lemma error_spec:
  assumes inv: "ir_inv c"
  shows "builds c (\<lambda>c' ref. payload_at c' ref = P_error (status_code st) \<and> st \<noteq> PHY_OK) (phy_ir_error c st)"
proof (cases "st = PHY_OK")
  case True
  then show ?thesis using builds_error [OF inv, of PHY_ERR_INVALID_ARGUMENT] by (simp add: phy_ir_error_def)
next
  case False
  have "status_code st \<noteq> status_code PHY_OK" using False unfolding status_code_inj .
  then have "builds c (has_payload (P_error (status_code st))) (intern_payload c (P_error (status_code st)))"
    by (intro intern_atom [OF inv]) (use status_code_bound [of st] in simp_all)
  moreover have "phy_ir_error c st = intern_payload c (P_error (status_code st))" using False by (simp add: phy_ir_error_def atom_defs)
  ultimately show ?thesis using False by (auto elim: builds_weaken)
qed

end
