(* ===== verification/Spec2Isabelle.thy ===== *)
theory Spec2Isabelle
  imports CasNum Input PermProperties BigintProperties BigintTextProperties BigRatProperties GaussianProperties IrBuilders
begin

text \<open>
  A verification library for Phy-nspire, a symbolic physics system in C for a handheld
  calculator. Paths are relative to the repository. The library models the parts of the program
  that carry its own exact arithmetic and group algorithms, function by function, and proves
  what they promise to their callers.

  Parts and theories.

  Status names (\<open>include/phy/phy.h\<close>, \<open>src/core/status.c\<close>): theory \<open>Prelude\<close>, with
  the error datatype every other part returns, and the general lemmas on lists, words and the
  outcome of a fallible call.

  Fixed-width rationals of the simplifier (\<open>src/cas/num.c\<close>): theory \<open>CasNum\<close>. Checked
  64-bit arithmetic on fractions; the theorems say that results are exact and canonical, and
  that a call fails only when an intermediate value has no 64-bit representation.

  Pointer and keyboard input (\<open>src/input/pointer.c\<close>, \<open>src/input/modifier.c\<close>): theory
  \<open>Input\<close>. The trackers are records; theorems range over every sequence of samples.

  Signed permutation groups (\<open>src/permutation/\<close>): \<open>PermBasics\<close> has the arrays and the
  limits, \<open>SignedGroup\<close> the mathematical groups, \<open>Bsgs\<close> the construction of a base and strong
  generating set, \<open>BsgsCorrect\<close> its invariant, \<open>PermApi\<close> the public functions and the
  reachable objects, \<open>BsgsBudget\<close> the step budget, \<open>PermProperties\<close> the theorems: membership
  decides exactly the generated signed group, the order is its cardinality, orbits are exact.

  Exact-number contexts (\<open>src/exact/context.c\<close>): \<open>ExactContext\<close> and \<open>ExactLaws\<close>. A
  context is a record of limits, bytes, values, steps, nesting depth, allocator and cancel
  callback. The doubly linked list of live values is a record of its head and of the members
  \<open>previous\<close> and \<open>next\<close> by address; only initialisation and destruction write it, so the rest of
  the library runs on the other members alone and \<open>ExactLinks\<close> joins the two: it has the histories
  with addresses, the list segments, and the proof that linking and unlinking keep the list.

  Exact integers (\<open>src/exact/integer.c\<close>): \<open>Limbs\<close> (arrays of 32-bit limbs and their
  value), \<open>Bigint\<close> (handles and the transactional skeleton), \<open>BigintLaws\<close> (the contract of a
  transactional operation as a locale, interpreted on assignment, copy, addition, negation and
  others), \<open>BigintAdd\<close>, \<open>BigintMul\<close>, \<open>BigintTemps\<close>, \<open>BigintPow\<close>, \<open>BigintDiv\<close>,
  \<open>BigintDivmod\<close>, \<open>BigintGcd\<close>, \<open>BigintText\<close>, \<open>BigintRead\<close>, \<open>BigintWrite\<close>. \<open>ExactHistory\<close>
  has the histories of a context (any calls in any order, any outcome) and their invariant,
  \<open>ExactDemo\<close> a concrete one, \<open>BigintProperties\<close> and \<open>BigintTextProperties\<close> the theorems.

  Exact rationals (\<open>src/exact/rational.c\<close>): \<open>BigRat\<close> and \<open>BigRatOps\<close> are the code; every
  operation is a list of steps over zeroed temporaries, run while the status is good, then
  committed and closed. \<open>BigRatLaws\<close> and \<open>BigRatSteps\<close> are the accounting of temporaries and
  the Hoare rules of the steps, \<open>BigRatSpec\<close>, \<open>BigRatNormal\<close>, \<open>BigRatArith\<close>,
  \<open>BigRatOpsSpec\<close>, \<open>BigRatFieldSpec\<close>, \<open>BigRatText\<close> and \<open>BigRatWrite\<close> the contract of each
  operation. \<open>BigRatMachine\<close> states the abstract machine over the rational numbers,
  \<open>BigRatRefine\<close> proves that every call refines it, \<open>BigRatDemo\<close> is a concrete history,
  \<open>BigRatProperties\<close> holds the theorems.

  Exact Gaussian rationals (\<open>src/exact/gaussian.c\<close>): \<open>Gaussian\<close> is the code, over the
  rationals; \<open>GaussianLaws\<close>, \<open>GaussianSpec\<close>, \<open>GaussianOps\<close>, \<open>GaussianField\<close>,
  \<open>GaussianDivide\<close> and \<open>GaussianPow\<close> the contract of each operation, \<open>GaussianMachine\<close> the
  abstract machine over the complex numbers, \<open>GaussianRefine\<close> the refinement, \<open>GaussianDemo\<close> a
  concrete history, \<open>GaussianProperties\<close> the theorems.

  Expression graph (\<open>src/ir/ir.c\<close>, \<open>src/ir/order.c\<close>): \<open>IrModel\<close> (contexts, pools, accessors),
  \<open>IrSymbols\<close> (names, assumptions, slot symmetries), \<open>IrOrder\<close> (the structural order and the
  heapsort), \<open>IrBuild\<close> (interning and every builder), \<open>IrValidate\<close> (the integrity check).
  \<open>IrSort\<close> shows that the heapsort sorts under any total preorder, \<open>IrTable\<close> is the theory of
  bucket chains, \<open>IrInv\<close> the invariant of a context, \<open>IrPools\<close>, \<open>IrGrow\<close>, \<open>IrBooks\<close>,
  \<open>IrNames\<close>, \<open>IrDeclare\<close>, \<open>IrIntern\<close>, \<open>IrNodes\<close> and \<open>IrBuilders\<close> that the operations keep it.

  How state and operations correspond. A C function over a handle and its context becomes a
  function over the pair of both that returns the status and the new pair; an output parameter
  that a failure must not touch is part of that state, and operands are passed by value at the
  call, so that sharing an operand with the output is passing the same record twice. Machine
  words keep their width (32-bit limbs, 64-bit accumulators); sizes are natural numbers with the
  overflow checks of the code written out against \<open>SIZE_MAX\<close>. The allocator is a parameter:
  a predicate that says whether the allocation of a given number of bytes succeeds, and so is
  the cancel callback. A null or dead handle is a record with its live flag down.

  Termination and fuel. Loops bounded by an index are structural recursion; the others are
  functions with a measure. The Euclidean loop of the greatest common divisor is a partial
  function with option result, and a theorem shows that it returns on every input, so no
  statement about gcd, rationals or histories is conditional on termination. The permutation
  code bounds its own work by a step limit of the caller, which the model has as the code has
  it; a theorem gives default limits that always suffice for degrees up to four.

  Not modelled. The text form of expressions (\<open>src/ir/text.c\<close>), the builders from decimal text,
  and everything built on expressions (most of \<open>src/cas\<close>, \<open>src/eval\<close>, \<open>src/geom\<close>,
  \<open>src/gr\<close>, \<open>src/qft\<close>, \<open>src/lie\<close>, \<open>src/abstract\<close>, \<open>src/tensor\<close>,
  \<open>src/component\<close>, \<open>src/linear\<close>), interval and algebraic numbers, the notebook and its layout:
  these are large and rest on the parts above. The application shell, rasteriser, storage and
  platform backends are input and output. Apart from the list of live values, addresses are outside
  the model: the arrays of a permutation group are lists and not regions of its block, whose size
  is a number of its own; an argument that the code refuses as a null pointer is an option where
  the refusal is modelled, and absent otherwise; use after release is the dead-handle check of the
  code and no more.
\<close>

end
